(* ===== verification/Prelude.thy ===== *)
theory Prelude
  imports Main "HOL-Library.Word"
begin

unbundle bit_operations_syntax

text \<open>
  Shared vocabulary of the development: the machine types of the collector (a 64-bit target),
  panics as values, checked machine arithmetic on \<open>nat\<close>, the word-addressed memory that the
  collector's intrusive data structures live in, and the generic lemmas on words, lists and maps
  that the component theories use.
\<close>

section \<open>Machine types and panics\<close>

type_synonym u8 = "8 word"
type_synonym u32 = "32 word"
type_synonym u64 = "64 word"

text \<open>Addresses and sizes (\<open>usize\<close>) are natural numbers; where the code wraps or
  can overflow, the operation says so.\<close>

type_synonym addr = nat
type_synonym mem = "addr \<Rightarrow> u64"

datatype panic =
    ArithOverflow      \<comment> \<open>subtraction below zero, shift or addition out of range\<close>
  | IndexOutOfBounds   \<comment> \<open>slice or boxed slice indexed out of range\<close>
  | AssertFailed       \<comment> \<open>\<open>assert!\<close> and its variants\<close>
  | ExplicitPanic      \<comment> \<open>\<open>panic!\<close>, \<open>unwrap\<close> on \<open>None\<close>\<close>
  | DivByZero
  | OutOfMemory        \<comment> \<open>\<open>panic_any(OOM)\<close>: the collector has no memory left\<close>
  | NullDeref          \<comment> \<open>a null pointer followed: the process crashes\<close>
  | UndefinedBehaviour \<comment> \<open>uninitialised memory read, or memory outside an allocation accessed\<close>

type_synonym 'a res = "panic + 'a"

definition rbind :: "'a res \<Rightarrow> ('a \<Rightarrow> 'b res) \<Rightarrow> 'b res" where
  "rbind r f = (case r of Inl e \<Rightarrow> Inl e | Inr x \<Rightarrow> f x)"

definition checked_sub :: "nat \<Rightarrow> nat \<Rightarrow> nat res" where
  "checked_sub a b = (if b \<le> a then Inr (a - b) else Inl ArithOverflow)"

definition wrapping_sub :: "nat \<Rightarrow> nat \<Rightarrow> nat" where
  "wrapping_sub a b = (if b \<le> a then a - b else 2 ^ 64 + a - b)"

named_theorems res_simps
named_theorems inv_defs

lemma rbind_simps [simp, res_simps]:
  "rbind (Inl e) f = Inl e"
  "rbind (Inr x) f = f x"
  by (simp_all add: rbind_def)

lemma rbind_eq_Inr [res_simps]: "rbind r f = Inr y \<longleftrightarrow> (\<exists>x. r = Inr x \<and> f x = Inr y)"
  by (cases r) auto

lemma rbind_eq_Inl: "rbind r f = Inl e \<longleftrightarrow> r = Inl e \<or> (\<exists>x. r = Inr x \<and> f x = Inl e)"
  by (cases r) auto

lemma checked_sub_Inr [simp, res_simps]: "checked_sub a b = Inr c \<longleftrightarrow> b \<le> a \<and> c = a - b"
  by (auto simp: checked_sub_def)

lemma checked_sub_ok [simp]: "b \<le> a \<Longrightarrow> checked_sub a b = Inr (a - b)"
  by simp

lemma checked_sub_Inl [simp]: "checked_sub a b = Inl e \<longleftrightarrow> a < b \<and> e = ArithOverflow"
  by (auto simp: checked_sub_def)

lemma wrapping_sub_ge [simp]: "b \<le> a \<Longrightarrow> wrapping_sub a b = a - b"
  by (simp add: wrapping_sub_def)

section \<open>Words\<close>

lemma word_shift_one_minus_one: "push_bit n 1 - 1 = (mask n :: 'a::len word)"
  by (simp add: mask_eq_exp_minus_1 push_bit_eq_mult)

lemma bit_push_bit_word:
  "bit (push_bit p (w :: 'a::len word)) n \<longleftrightarrow> n < LENGTH('a) \<and> p \<le> n \<and> bit w (n - p)"
  by (auto simp: bit_push_bit_iff)

lemma bit_word_lt: "bit (w :: 'a::len word) n \<Longrightarrow> n < LENGTH('a)"
  by (rule bit_imp_le_length)

lemma and_single_bit_nonzero:
  "(w AND push_bit n 1 \<noteq> (0::'a::len word)) \<longleftrightarrow> bit w n"
proof
  assume "w AND push_bit n 1 \<noteq> 0"
  then obtain k where "bit (w AND push_bit n 1) k"
    by (auto simp: bit_eq_iff)
  then show "bit w n"
    by (auto simp: bit_simps)
next
  assume "bit w n"
  then have "bit (w AND push_bit n 1) n"
    by (auto simp: bit_simps dest: bit_word_lt)
  then show "w AND push_bit n 1 \<noteq> 0" by auto
qed

lemma take_bit_word_self: "unat (w :: 'a::len word) < 2 ^ k \<Longrightarrow> take_bit k w = w"
  by (metis take_bit_nat_eq_self unsigned_take_bit_eq word_unat_eq_iff)

lemma unat_less_bit: "unat (w :: 'a::len word) < 2 ^ k \<Longrightarrow> bit w n \<Longrightarrow> n < k"
  by (metis bit_take_bit_iff take_bit_word_self)

lemma word_dvd_low_bits: "2 ^ k dvd unat (w :: 'a::len word) \<Longrightarrow> n < k \<Longrightarrow> \<not> bit w n"
proof -
  assume "2 ^ k dvd unat w" "n < k"
  then have "take_bit k (unat w) = 0" by (simp add: take_bit_eq_mod)
  then have "take_bit k w = 0" by (metis unsigned_eq_0_iff unsigned_take_bit_eq)
  then have "\<not> bit (take_bit k w) n" by simp
  then show ?thesis using \<open>n < k\<close> by (simp add: bit_take_bit_iff)
qed

section \<open>Lists\<close>

lemma sum_list_update_nat:
  "i < length xs \<Longrightarrow> sum_list (xs[i := (y::nat)]) + xs ! i = sum_list xs + y"
  by (induction xs arbitrary: i) (auto split: nat.splits)

lemma set_nth_conv: "x \<in> set xs \<longleftrightarrow> (\<exists>i < length xs. xs ! i = x)"
  by (auto simp: in_set_conv_nth)

lemma nth_list_update_if:
  "i < length xs \<Longrightarrow> xs[i := x] ! j = (if i = j then x else xs ! j)"
  by simp

text \<open>How many elements of a list satisfy a predicate; the step relations count threads at a point with it.\<close>

definition tally :: "('a \<Rightarrow> bool) \<Rightarrow> 'a list \<Rightarrow> nat" where
  "tally P xs = length (filter P xs)"

lemma tally_simps [simp]: "tally P [] = 0" "tally P (x # xs) = of_bool (P x) + tally P xs" "tally P (replicate n x) = n * of_bool (P x)"
  by (simp_all add: tally_def)

lemma tally_update:
  assumes "i < length xs"
  shows "tally P (xs[i := y]) + of_bool (P (xs ! i)) = tally P xs + of_bool (P y)"
  using assms
proof (induction xs arbitrary: i)
  case (Cons x xs)
  show ?case
  proof (cases i)
    case (Suc j)
    then have "tally P (xs[j := y]) + of_bool (P (xs ! j)) = tally P xs + of_bool (P y)" using Cons by simp
    then show ?thesis unfolding Suc list_update_code nth_Cons_Suc tally_simps by linarith
  qed simp
qed simp

lemma tally_mono: "(\<And>x. P x \<Longrightarrow> Q x) \<Longrightarrow> tally P xs \<le> tally Q xs"
  by (induction xs) (auto simp: of_bool_def)

lemma tally_length: "tally P xs \<le> length xs"
  by (simp add: tally_def)

lemma tally_pos: "i < length xs \<Longrightarrow> P (xs ! i) \<Longrightarrow> 0 < tally P xs"
  by (auto simp: tally_def filter_empty_conv)

lemma tally_less:
  assumes "\<And>x. P x \<Longrightarrow> Q x" "x \<in> set xs" "Q x" "\<not> P x"
  shows "tally P xs < tally Q xs"
  using assms(2-4)
proof (induction xs)
  case (Cons y ys)
  then show ?case using tally_mono [of P Q ys] assms(1) by (auto simp: of_bool_def)
qed simp

lemma tally_ex: "0 < tally P xs \<Longrightarrow> \<exists>i < length xs. P (xs ! i)"
  by (auto simp: tally_def filter_empty_conv in_set_conv_nth)

end
