(* ===== verification/HeapUtil.thy ===== *)
theory HeapUtil
  imports Prelude
begin

unbundle bit_operations_syntax

text \<open>
  \<open>heap/mod.rs\<close>: the alignment and power-of-two helpers, the allocation request, and the
  byte-packed bitmap \<open>DynBitmap\<close> that the free set uses for its mutator-free regions. The bitmap
  is related to its abstract value, a function from bit indices to booleans; the laws are packaged
  in the locale \<open>bit_store\<close>, which other bitmaps of the collector instantiate too.
\<close>

section \<open>Alignment\<close>

definition align_down :: "u64 \<Rightarrow> u64 \<Rightarrow> u64" where
  "align_down addr align = addr AND NOT (align - 1)"

definition align_up :: "u64 \<Rightarrow> u64 \<Rightarrow> u64" where
  "align_up addr align = (addr - align - 1) AND NOT (align - 1)"

definition is_aligned :: "u64 \<Rightarrow> u64 \<Rightarrow> bool" where
  "is_aligned addr align \<longleftrightarrow> addr AND (align - 1) = 0"

definition align_usize :: "u64 \<Rightarrow> u64 \<Rightarrow> u64" where
  "align_usize v align = (v + align - 1) div align * align"

section \<open>Powers of two\<close>

text \<open>\<open>u32::leading_zeros\<close> and \<open>usize::trailing_zeros\<close>, on the value of the word.\<close>

fun bit_length :: "nat \<Rightarrow> nat" where
  "bit_length n = (if n = 0 then 0 else Suc (bit_length (n div 2)))"

definition leading_zeros32 :: "nat \<Rightarrow> nat" where
  "leading_zeros32 n = 32 - bit_length n"

fun trailing_zeros :: "nat \<Rightarrow> nat" where
  "trailing_zeros n = (if n = 0 then 64 else if odd n then 0 else Suc (trailing_zeros (n div 2)))"

declare bit_length.simps [simp del] trailing_zeros.simps [simp del]

definition which_power_of_two :: "nat \<Rightarrow> nat" where
  "which_power_of_two v = trailing_zeros v"

text \<open>The shift by 32 of the source overflows for a value above \<open>2 ^ 31\<close>: in a build with
  overflow checks it panics.\<close>

definition round_up_to_power_of_two32 :: "nat \<Rightarrow> nat res" where
  "round_up_to_power_of_two32 v =
     (let v = (if v > 0 then v - 1 else v); s = 32 - leading_zeros32 v in
      if s < 32 then Inr (2 ^ s) else Inl ArithOverflow)"

definition round_down_to_power_of_two32 :: "nat \<Rightarrow> nat res" where
  "round_down_to_power_of_two32 v =
     (if v > 2 ^ 31 then Inr (2 ^ 31)
      else rbind (round_up_to_power_of_two32 v) (\<lambda>r. Inr (if r > v then r div 2 else r)))"

section \<open>Allocation requests\<close>

datatype AllocType = ForLAB | Shared

record AllocRequest =
  ar_min_size :: nat
  ar_requested_size :: nat
  ar_actual_size :: nat
  ar_typ :: AllocType

definition AllocRequest_new :: "AllocType \<Rightarrow> nat \<Rightarrow> nat \<Rightarrow> AllocRequest" where
  "AllocRequest_new typ mn rq =
     \<lparr>ar_min_size = mn, ar_requested_size = rq, ar_actual_size = 0, ar_typ = typ\<rparr>"

definition for_lab :: "AllocRequest \<Rightarrow> bool" where
  "for_lab r \<longleftrightarrow> ar_typ r = ForLAB"

definition set_actual_size :: "nat \<Rightarrow> AllocRequest \<Rightarrow> AllocRequest" where
  "set_actual_size n r = r\<lparr>ar_actual_size := n\<rparr>"

section \<open>The byte-packed bitmap\<close>

record DynBitmap =
  db_buffer :: "u8 list"
  db_bit_count :: nat

definition bytes_required :: "nat \<Rightarrow> nat" where
  "bytes_required bits = (bits + 7) div 8"

definition db_contained :: "nat \<Rightarrow> DynBitmap" where
  "db_contained bits = \<lparr>db_buffer = replicate (bytes_required bits) 0, db_bit_count = bits\<rparr>"

definition contained_byte_index :: "nat \<Rightarrow> nat" where
  "contained_byte_index i = i div 8"

definition position_in_byte :: "nat \<Rightarrow> nat" where
  "position_in_byte i = i mod 8"

definition db_get_value :: "u8 \<Rightarrow> nat \<Rightarrow> bool" where
  "db_get_value byte i \<longleftrightarrow> drop_bit i byte AND 1 = 1"

definition db_set_value :: "u8 \<Rightarrow> bool \<Rightarrow> nat \<Rightarrow> u8" where
  "db_set_value byte v i = (byte AND NOT (push_bit i 1)) OR push_bit i (of_bool v)"

text \<open>The source reads and writes the byte unchecked; an index outside the buffer is undefined
  behaviour there, so the operations are used with \<open>i < db_bit_count\<close> only.\<close>

definition db_get :: "DynBitmap \<Rightarrow> nat \<Rightarrow> bool" where
  "db_get b i = db_get_value (db_buffer b ! contained_byte_index i) (position_in_byte i)"

definition db_set :: "DynBitmap \<Rightarrow> nat \<Rightarrow> bool \<Rightarrow> DynBitmap" where
  "db_set b i v = b\<lparr>db_buffer := (db_buffer b)
     [contained_byte_index i := db_set_value (db_buffer b ! contained_byte_index i) v (position_in_byte i)]\<rparr>"

definition db_iter :: "DynBitmap \<Rightarrow> bool list" where
  "db_iter b = take (db_bit_count b)
     (concat (map (\<lambda>byte. map (db_get_value byte) [0..<8]) (db_buffer b)))"

definition db_clear :: "DynBitmap \<Rightarrow> DynBitmap" where
  "db_clear b = b\<lparr>db_buffer := map (\<lambda>_. 0) (db_buffer b)\<rparr>"

definition count_ones8 :: "u8 \<Rightarrow> nat" where
  "count_ones8 byte = length (filter (db_get_value byte) [0..<8])"

definition db_count_ones :: "DynBitmap \<Rightarrow> nat" where
  "db_count_ones b = sum_list (map count_ones8 (db_buffer b))"

text \<open>\<open>FromIterator<bool>\<close>: the loop carries the finished bytes, the byte being filled, its bit
  position and the number of bits seen.\<close>

fun db_from_iter_loop :: "bool list \<Rightarrow> u8 list \<Rightarrow> u8 \<Rightarrow> nat \<Rightarrow> nat \<Rightarrow> DynBitmap" where
  "db_from_iter_loop [] buffer byte bit_idx n = \<lparr>db_buffer = buffer @ [byte], db_bit_count = n\<rparr>"
| "db_from_iter_loop (v # vs) buffer byte bit_idx n =
     (if bit_idx = 8 then db_from_iter_loop vs (buffer @ [byte]) (db_set_value 0 v 0) 1 (n + 1)
      else db_from_iter_loop vs buffer (db_set_value byte v bit_idx) (bit_idx + 1) (n + 1))"

definition db_from_iter :: "bool list \<Rightarrow> DynBitmap" where
  "db_from_iter vs = db_from_iter_loop vs [] 0 0 0"


section \<open>Alignment lemmas\<close>

lemma bit_pow2_minus_1 [bit_simps]: "k < 64 \<Longrightarrow> bit (2 ^ k - 1 :: u64) n \<longleftrightarrow> n < k"
  by (auto simp: mask_eq_exp_minus_1 [symmetric] bit_simps)

lemma bit_align_down:
  "k < 64 \<Longrightarrow> bit (align_down a (2 ^ k)) n \<longleftrightarrow> k \<le> n \<and> bit a n"
  by (auto simp: align_down_def bit_simps dest: bit_word_lt)

lemma align_down_eq: "k < 64 \<Longrightarrow> align_down a (2 ^ k) = push_bit k (drop_bit k a)"
  by (rule bit_eqI) (auto simp: bit_align_down bit_simps dest: bit_word_lt)

lemma unat_drop_bit_div: "unat (drop_bit k (a :: 'a::len word)) = unat a div 2 ^ k"
proof -
  have "take_bit LENGTH('a) (unat a) = unat a"
    by (rule take_bit_nat_eq_self) (rule unsigned_less)
  then show ?thesis by (subst unsigned_drop_bit_eq) (simp only: drop_bit_eq_div)
qed

lemma unat_align_down: "k < 64 \<Longrightarrow> unat (align_down a (2 ^ k)) = unat a div 2 ^ k * 2 ^ k"
proof -
  assume k: "k < 64"
  have "unat (push_bit k (drop_bit k a)) = take_bit 64 (push_bit k (unat (drop_bit k a)))"
    by (simp add: unsigned_push_bit_eq)
  also have "\<dots> = take_bit 64 (unat a div 2 ^ k * 2 ^ k)"
    by (simp only: unat_drop_bit_div push_bit_eq_mult)
  also have "\<dots> = unat a div 2 ^ k * 2 ^ k"
  proof -
    have "unat a div 2 ^ k * 2 ^ k \<le> unat a" by simp
    also have "\<dots> < 2 ^ 64" using unsigned_less [of a] by simp
    finally show ?thesis by (simp add: take_bit_nat_eq_self)
  qed
  finally show ?thesis using k by (simp add: align_down_eq)
qed

lemma is_aligned_iff_dvd: "k < 64 \<Longrightarrow> is_aligned a (2 ^ k) \<longleftrightarrow> 2 ^ k dvd unat a"
proof -
  assume k: "k < 64"
  have "a AND (2 ^ k - 1) = take_bit k a"
    by (simp add: take_bit_eq_mask mask_eq_exp_minus_1)
  then have "is_aligned a (2 ^ k) \<longleftrightarrow> unat (take_bit k a) = 0"
    by (simp add: is_aligned_def unsigned_eq_0_iff)
  also have "\<dots> \<longleftrightarrow> unat a mod 2 ^ k = 0"
    by (simp only: unsigned_take_bit_eq) (simp add: take_bit_eq_mod)
  finally show ?thesis by (simp add: dvd_eq_mod_eq_0)
qed

lemma unat_align_usize:
  assumes "0 < unat al" "unat v + unat al \<le> 2 ^ 64"
  shows "unat (align_usize v al) = (unat v + unat al - 1) div unat al * unat al"
proof -
  have "v + al - 1 = of_nat (unat v + unat al - 1)"
    using assms by (simp add: of_nat_diff)
  then have s: "unat (v + al - 1) = unat v + unat al - 1"
    using assms by (simp only: unat_of_nat) (simp add: take_bit_nat_eq_self)
  have "(unat v + unat al - 1) div unat al * unat al \<le> unat v + unat al - 1" by simp
  also have "\<dots> < 2 ^ 64" using assms by simp
  finally have "(unat v + unat al - 1) div unat al * unat al < 2 ^ 64" .
  then show ?thesis
    by (simp add: align_usize_def unat_mult_lem [THEN iffD1] s unat_div unat_word_ariths)
qed

section \<open>Power-of-two lemmas\<close>

lemma bit_length_bounds: "0 < n \<Longrightarrow> 2 ^ (bit_length n - 1) \<le> n \<and> n < 2 ^ bit_length n"
proof (induction n rule: bit_length.induct)
  case (1 n)
  show ?case
  proof (cases "n div 2 = 0")
    case True
    with 1 have "n = 1" by simp
    then show ?thesis by (simp add: bit_length.simps)
  next
    case False
    with 1 have "2 ^ (bit_length (n div 2) - 1) \<le> n div 2" "n div 2 < 2 ^ bit_length (n div 2)"
      by auto
    moreover have "0 < bit_length (n div 2)" using False by (subst bit_length.simps) simp
    ultimately show ?thesis using \<open>0 < n\<close>
      by (subst (1 2) bit_length.simps) (cases "bit_length (n div 2)"; auto)
  qed
qed

lemma bit_length_pos: "0 < n \<Longrightarrow> 0 < bit_length n"
  by (subst bit_length.simps) simp

lemma bit_length_le: "n < 2 ^ k \<Longrightarrow> bit_length n \<le> k"
proof (cases "n = 0")
  case True then show ?thesis by (simp add: bit_length.simps)
next
  case False
  assume "n < 2 ^ k"
  then have "(2::nat) ^ (bit_length n - 1) < 2 ^ k"
    using bit_length_bounds [of n] False by (meson le_less_trans not_gr_zero)
  then have "bit_length n - 1 < k"
    by (meson nat_power_less_imp_less zero_less_numeral)
  then show ?thesis by simp
qed

lemma bit_length_eq: "2 ^ k \<le> n \<Longrightarrow> n < 2 ^ Suc k \<Longrightarrow> bit_length n = Suc k"
proof -
  assume a: "2 ^ k \<le> n" "n < 2 ^ Suc k"
  then have "0 < n" by (metis gr0I not_less zero_less_numeral zero_less_power)
  then have "2 ^ k < (2::nat) ^ bit_length n" using bit_length_bounds a(1) le_less_trans by blast
  then have "k < bit_length n" by (meson nat_power_less_imp_less zero_less_numeral)
  moreover have "bit_length n \<le> Suc k" using a(2) by (rule bit_length_le)
  ultimately show ?thesis by simp
qed

lemma trailing_zeros_pow2: "trailing_zeros (2 ^ k) = k"
  by (induction k) (auto simp: trailing_zeros.simps)

lemma round_down_to_power_of_two32_eq:
  assumes "0 < v" "v < 2 ^ 32"
  shows "round_down_to_power_of_two32 v = Inr (2 ^ (bit_length v - 1))"
proof (cases "v > 2 ^ 31")
  case True
  then have "bit_length v = Suc 31" using assms by (intro bit_length_eq) auto
  with True show ?thesis by (simp add: round_down_to_power_of_two32_def)
next
  case False
  define b where "b = bit_length (v - 1)"
  have b31: "b \<le> 31" using False assms(1) unfolding b_def by (intro bit_length_le) auto
  have up: "round_up_to_power_of_two32 v = Inr (2 ^ b)"
    using assms(1) b31 by (simp add: round_up_to_power_of_two32_def leading_zeros32_def b_def)
  show ?thesis
  proof (cases "v = 1")
    case True
    then show ?thesis
      using up by (simp add: round_down_to_power_of_two32_def b_def bit_length.simps)
  next
    case v1: False
    with assms have lo: "2 ^ (b - 1) \<le> v - 1" and hi: "v - 1 < 2 ^ b" and b0: "0 < b"
      using bit_length_bounds [of "v - 1"] unfolding b_def by (auto simp: bit_length.simps)
    show ?thesis
    proof (cases "2 ^ b > v")
      case True
      then have "bit_length v = Suc (b - 1)"
        using lo b0 assms(1) by (intro bit_length_eq) auto
      then show ?thesis
        using True up False b0 by (cases b) (auto simp: round_down_to_power_of_two32_def)
    next
      case nb: False
      then have "v = 2 ^ b" using hi assms(1) by simp
      then have "bit_length v = Suc b" by (intro bit_length_eq) auto
      then show ?thesis using nb up False by (simp add: round_down_to_power_of_two32_def)
    qed
  qed
qed


section \<open>The interface of a bit store\<close>

text \<open>What a client of a bitmap relies on: a read after a write, on valid states and indices.
  The client's view is the set of indices whose bit is one.\<close>

locale bit_store =
  fixes get :: "'s \<Rightarrow> nat \<Rightarrow> bool"
    and put :: "'s \<Rightarrow> nat \<Rightarrow> bool \<Rightarrow> 's"
    and arity :: "'s \<Rightarrow> nat"
    and ok :: "'s \<Rightarrow> bool"
  assumes get_put: "ok s \<Longrightarrow> i < arity s \<Longrightarrow> j < arity s \<Longrightarrow> get (put s i v) j = (if j = i then v else get s j)"
    and ok_put: "ok s \<Longrightarrow> i < arity s \<Longrightarrow> ok (put s i v)"
    and arity_put: "ok s \<Longrightarrow> i < arity s \<Longrightarrow> arity (put s i v) = arity s"
begin

definition ones :: "'s \<Rightarrow> nat set" where
  "ones s = {i. i < arity s \<and> get s i}"

lemma ones_put: "ok s \<Longrightarrow> i < arity s \<Longrightarrow> ones (put s i v) = (if v then insert i (ones s) else ones s - {i})"
  by (auto simp: ones_def get_put arity_put split: if_splits)

lemma put_range:
  "ok s \<Longrightarrow> \<forall>i \<in> set is. i < arity s \<Longrightarrow>
     ok (fold (\<lambda>i s. put s i v) is s) \<and> arity (fold (\<lambda>i s. put s i v) is s) = arity s \<and>
     ones (fold (\<lambda>i s. put s i v) is s) = (if v then set is \<union> ones s else ones s - set is)"
  by (induction "is" arbitrary: s) (auto simp: ok_put arity_put ones_put)

lemma card_ones_put_False:
  "ok s \<Longrightarrow> i < arity s \<Longrightarrow> get s i \<Longrightarrow> Suc (card (ones (put s i False))) = card (ones s)"
proof -
  assume a: "ok s" "i < arity s" "get s i"
  then have "i \<in> ones s" "finite (ones s)" by (auto simp: ones_def)
  then show ?thesis
    using a by (simp only: ones_put if_False) (metis card_Suc_Diff1)
qed

end

section \<open>\<open>DynBitmap\<close> is a bit store\<close>

definition db_wf :: "DynBitmap \<Rightarrow> bool" where
  "db_wf b \<longleftrightarrow> bytes_required (db_bit_count b) \<le> length (db_buffer b) \<and>
     (\<forall>i < 8 * length (db_buffer b). db_bit_count b \<le> i \<longrightarrow> \<not> db_get b i)"

lemma db_get_value_bit: "db_get_value byte i \<longleftrightarrow> bit byte i"
proof -
  have "drop_bit i byte AND 1 = of_bool (bit byte i)"
    by (rule bit_eqI) (auto simp: bit_simps)
  then show ?thesis by (simp add: db_get_value_def)
qed

lemma bit_db_set_value [bit_simps]:
  "i < 8 \<Longrightarrow> bit (db_set_value byte v i) j \<longleftrightarrow> (if j = i then v else bit byte j)"
  by (auto simp: db_set_value_def bit_simps dest: bit_word_lt)

lemma db_index_lt: "i < 8 * n \<Longrightarrow> i div 8 < (n::nat)"
  by (simp add: less_mult_imp_div_less mult.commute)

lemma db_last_byte:
  assumes "\<not> i < 8 * n" "i < 8 * n + (8::nat)"
  shows "i div 8 = n" and "i mod 8 = i - 8 * n"
proof -
  obtain d where "i = 8 * n + d" "d < 8" using assms
    by (metis add_less_cancel_left le_add_diff_inverse not_less)
  then show "i div 8 = n" "i mod 8 = i - 8 * n" by auto
qed

lemma db_arity_buffer: "db_wf b \<Longrightarrow> i < db_bit_count b \<Longrightarrow> i < 8 * length (db_buffer b)"
  by (auto simp: db_wf_def bytes_required_def)

lemma db_get_set:
  "i < 8 * length (db_buffer b) \<Longrightarrow> db_get (db_set b i v) j = (if j = i then v else db_get b j)"
proof -
  assume "i < 8 * length (db_buffer b)"
  then have "i div 8 < length (db_buffer b)" by (rule db_index_lt)
  moreover have "j = i" if "j div 8 = i div 8" "j mod 8 = i mod 8"
    using that by (metis div_mult_mod_eq)
  ultimately show ?thesis
    by (auto simp: db_get_def db_set_def contained_byte_index_def position_in_byte_def
        db_get_value_bit bit_db_set_value nth_list_update)
qed

lemma db_set_count [simp]: "db_bit_count (db_set b i v) = db_bit_count b"
  by (simp add: db_set_def)

lemma db_set_length [simp]: "length (db_buffer (db_set b i v)) = length (db_buffer b)"
  by (simp add: db_set_def)

lemma db_wf_set: "db_wf b \<Longrightarrow> i < db_bit_count b \<Longrightarrow> db_wf (db_set b i v)"
  using db_arity_buffer [of b i] by (auto simp: db_wf_def db_get_set)

interpretation db: bit_store db_get db_set db_bit_count db_wf
  by unfold_locales (auto simp: db_get_set db_wf_set dest: db_arity_buffer)

text \<open>Iteration lists the bits in order.\<close>

lemma concat_bytes_nth:
  "concat (map (\<lambda>byte. map (db_get_value byte) [0..<8]) bs) =
     map (\<lambda>i. db_get_value (bs ! (i div 8)) (i mod 8)) [0..<8 * length bs]"
proof (induction bs rule: rev_induct)
  case (snoc b bs)
  have "[0..<8 * length (bs @ [b])] = [0..<8 * length bs] @ map (\<lambda>i. i + 8 * length bs) [0..<8]"
    using upt_add_eq_append [of 0 "8 * length bs" 8] by (simp only: map_add_upt) (simp add: add.commute)
  then show ?case
    using snoc by (auto simp: nth_append db_index_lt)
qed simp

lemma db_iter_nth: "db_wf b \<Longrightarrow> db_iter b = map (db_get b) [0..<db_bit_count b]"
proof -
  assume "db_wf b"
  then have "db_bit_count b \<le> 8 * length (db_buffer b)"
    by (auto simp: db_wf_def bytes_required_def)
  then show ?thesis
    by (simp add: db_iter_def concat_bytes_nth take_map db_get_def [abs_def]
        contained_byte_index_def position_in_byte_def take_upt min_def)
qed

definition byte_bits :: "u8 list \<Rightarrow> bool list" where
  "byte_bits bs = concat (map (\<lambda>byte. map (db_get_value byte) [0..<8]) bs)"

lemma db_get_byte_bits: "i < 8 * length (db_buffer b) \<Longrightarrow> db_get b i = byte_bits (db_buffer b) ! i"
  by (simp add: byte_bits_def concat_bytes_nth db_get_def contained_byte_index_def position_in_byte_def)

lemma length_byte_bits: "length (byte_bits bs) = 8 * length bs"
  by (simp add: byte_bits_def concat_bytes_nth)

lemma db_from_iter_loop_inv:
  assumes "k \<le> 8" "\<forall>i \<ge> k. \<not> bit byte i"
  shows "\<exists>buf' pad. db_from_iter_loop vs buf byte k n = \<lparr>db_buffer = buf', db_bit_count = n + length vs\<rparr> \<and>
      byte_bits buf' = byte_bits buf @ map (bit byte) [0..<k] @ vs @ replicate pad False"
  using assms
proof (induction vs arbitrary: buf byte k n)
  case Nil
  have "[0..<8] = [0..<k] @ [k..<8]" using Nil.prems(1) upt_add_eq_append [of 0 k "8 - k"] by simp
  moreover have "map (bit byte) [k..<8] = replicate (8 - k) False"
    using Nil.prems by (intro nth_equalityI) auto
  ultimately have "byte_bits (buf @ [byte]) = byte_bits buf @ map (bit byte) [0..<k] @ [] @ replicate (8 - k) False"
    by (simp add: byte_bits_def db_get_value_bit [abs_def] del: upt_conv_Cons)
  then show ?case
    by (intro exI [of _ "buf @ [byte]"] exI [of _ "8 - k"]) simp
next
  case (Cons v vs)
  show ?case
  proof (cases "k = 8")
    case True
    have "\<forall>i \<ge> 1. \<not> bit (db_set_value 0 v 0) i" by (auto simp: bit_simps)
    from Cons.IH [OF _ this, of "buf @ [byte]" "n + 1"] show ?thesis
      using True by (simp add: byte_bits_def db_get_value_bit bit_db_set_value upt_rec)
  next
    case False
    with Cons.prems have k: "k < 8" by simp
    have "\<forall>i \<ge> k + 1. \<not> bit (db_set_value byte v k) i"
      using k Cons.prems by (auto simp: bit_db_set_value)
    moreover have "map (bit (db_set_value byte v k)) [0..<k] = map (bit byte) [0..<k]"
      "bit (db_set_value byte v k) k = v"
      using k by (auto simp: bit_db_set_value)
    ultimately show ?thesis
      using k Cons.IH [of "k + 1" "db_set_value byte v k" buf "n + 1"] by (simp del: map_eq_conv)
  qed
qed

lemma db_from_iter_spec:
  "db_wf (db_from_iter vs) \<and> db_bit_count (db_from_iter vs) = length vs \<and>
   (\<forall>i < length vs. db_get (db_from_iter vs) i = vs ! i)"
proof -
  obtain buf pad where b: "db_from_iter vs = \<lparr>db_buffer = buf, db_bit_count = length vs\<rparr>"
    and bits: "byte_bits buf = vs @ replicate pad False"
    using db_from_iter_loop_inv [of 0 0 vs "[]" 0] by (auto simp: db_from_iter_def byte_bits_def)
  have len: "8 * length buf = length vs + pad"
    using arg_cong [OF bits, of length] by (simp add: length_byte_bits)
  then have "db_get (db_from_iter vs) i = (i < length vs \<and> vs ! i)" if "i < 8 * length buf" for i
    using that b bits by (auto simp: db_get_byte_bits nth_append)
  then show ?thesis
    using b len by (auto simp: db_wf_def bytes_required_def)
qed

text \<open>The population count is the number of indices whose bit is one.\<close>

lemma count_ones8_filter: "sum_list (map count_ones8 bs) = length (filter id (byte_bits bs))"
  by (induction bs) (simp_all add: byte_bits_def count_ones8_def filter_map o_def)

lemma db_count_ones_card: "db_wf b \<Longrightarrow> db_count_ones b = card (db.ones b)"
proof -
  assume wf: "db_wf b"
  let ?n = "8 * length (db_buffer b)"
  have "db_count_ones b = card {i. i < ?n \<and> byte_bits (db_buffer b) ! i}"
    by (simp add: db_count_ones_def count_ones8_filter length_filter_conv_card length_byte_bits)
  also have "{i. i < ?n \<and> byte_bits (db_buffer b) ! i} = {i. i < ?n \<and> db_get b i}"
    by (auto simp: db_get_byte_bits)
  also have "\<dots> = db.ones b"
    using wf db_arity_buffer [OF wf] by (auto simp: db.ones_def db_wf_def not_less [symmetric])
  finally show ?thesis .
qed

lemma db_clear_spec: "db_wf b \<Longrightarrow> db_wf (db_clear b) \<and> db_bit_count (db_clear b) = db_bit_count b \<and> db.ones (db_clear b) = {}"
proof -
  assume wf: "db_wf b"
  have "\<not> db_get (db_clear b) i" if "i < 8 * length (db_buffer b)" for i
    using that by (simp add: db_get_def db_clear_def contained_byte_index_def db_get_value_bit db_index_lt)
  then show ?thesis using wf db_arity_buffer [OF wf] by (auto simp: db_wf_def db_clear_def db.ones_def)
qed

lemma db_contained_wf: "db_wf (db_contained n) \<and> db_bit_count (db_contained n) = n \<and> db.ones (db_contained n) = {}"
proof -
  have "\<not> db_get (db_contained n) i" if "i < 8 * bytes_required n" for i
    using that by (simp add: db_get_def db_contained_def contained_byte_index_def db_get_value_bit db_index_lt)
  moreover have "n \<le> 8 * bytes_required n" by (simp add: bytes_required_def)
  ultimately show ?thesis by (auto simp: db_wf_def db_contained_def db.ones_def)
qed

end
