(* ===== verification/MarkTask.thy ===== *)
theory MarkTask
  imports HeapUtil "HOL-Library.Multiset"
begin

unbundle bit_operations_syntax

text \<open>
  \<open>heap/mark.rs\<close>: the packed marking task (64-bit variant) and the splitting of large arrays into
  chunk tasks by \<open>do_chunked_array_start\<close> and \<open>do_chunked_array\<close>. Marking workers may process the
  chunk tasks in any order; the relation \<open>chunk_step\<close> lets any pending task be taken next.
\<close>

section \<open>Bit helpers of \<open>utils/mod.rs\<close>\<close>

definition nth_bit :: "nat \<Rightarrow> u64" where
  "nth_bit n = (if n \<ge> 64 then 0 else push_bit n 1)"

definition right_nth_bit :: "nat \<Rightarrow> u64" where
  "right_nth_bit n = nth_bit n - 1"

definition log2i_graceful :: "nat \<Rightarrow> int" where
  "log2i_graceful v = (if v = 0 then -1 else 64 - (64 - int (bit_length v)) - 1)"

section \<open>The task word\<close>

definition CHUNK_BITS :: nat where "CHUNK_BITS = 10"
definition POW_BITS :: nat where "POW_BITS = 5"
definition OOP_BITS :: nat where "OOP_BITS = 64 - CHUNK_BITS - POW_BITS"
definition POW_SHIFT :: nat where "POW_SHIFT = OOP_BITS"
definition CHUNK_SHIFT :: nat where "CHUNK_SHIFT = OOP_BITS + POW_BITS"

lemmas task_consts = CHUNK_BITS_def POW_BITS_def OOP_BITS_def POW_SHIFT_def CHUNK_SHIFT_def

definition OOP_EXTRACT_MASK :: u64 where "OOP_EXTRACT_MASK = right_nth_bit OOP_BITS - 3"
definition SKIP_LIVE_EXTRACT_MASK :: u64 where "SKIP_LIVE_EXTRACT_MASK = push_bit 0 1"
definition WEAK_EXTRACT_MASK :: u64 where "WEAK_EXTRACT_MASK = push_bit 1 1"
definition CHUNK_POW_EXTRACT_MASK :: u64 where "CHUNK_POW_EXTRACT_MASK = NOT (right_nth_bit OOP_BITS)"
definition CHUNK_RANGE_MASK :: u64 where "CHUNK_RANGE_MASK = right_nth_bit CHUNK_BITS"
definition POW_RANGE_MASK :: u64 where "POW_RANGE_MASK = right_nth_bit POW_BITS"

definition decode_oop :: "u64 \<Rightarrow> u64" where
  "decode_oop v = v AND OOP_EXTRACT_MASK"

definition decode_not_chunked :: "u64 \<Rightarrow> bool" where
  "decode_not_chunked v \<longleftrightarrow> v AND CHUNK_POW_EXTRACT_MASK = 0"

definition decode_chunk :: "u64 \<Rightarrow> u64" where
  "decode_chunk v = drop_bit CHUNK_SHIFT v AND CHUNK_RANGE_MASK"

definition decode_pow :: "u64 \<Rightarrow> u64" where
  "decode_pow v = drop_bit POW_SHIFT v AND POW_RANGE_MASK"

definition decode_weak :: "u64 \<Rightarrow> bool" where
  "decode_weak v \<longleftrightarrow> v AND WEAK_EXTRACT_MASK \<noteq> 0"

definition decode_cnt_live :: "u64 \<Rightarrow> bool" where
  "decode_cnt_live v \<longleftrightarrow> v AND SKIP_LIVE_EXTRACT_MASK = 0"

definition encode_oop :: "u64 \<Rightarrow> bool \<Rightarrow> bool \<Rightarrow> u64" where
  "encode_oop obj skip_live weak =
     (let e = obj; e = (if skip_live then e OR SKIP_LIVE_EXTRACT_MASK else e)
      in if weak then e OR WEAK_EXTRACT_MASK else e)"

definition encode_chunk :: "u64 \<Rightarrow> u64" where
  "encode_chunk chunk = push_bit CHUNK_SHIFT chunk"

definition encode_pow :: "u64 \<Rightarrow> u64" where
  "encode_pow pow = push_bit POW_SHIFT pow"

definition MarkTask_new :: "u64 \<Rightarrow> bool \<Rightarrow> bool \<Rightarrow> u64" where
  "MarkTask_new obj skip_live weak = encode_oop obj skip_live weak"

definition MarkTask_new2 :: "u64 \<Rightarrow> bool \<Rightarrow> bool \<Rightarrow> u64 \<Rightarrow> u64 \<Rightarrow> u64" where
  "MarkTask_new2 obj skip_live weak chunk pow =
     encode_oop obj skip_live weak OR encode_chunk chunk OR encode_pow pow"

definition max_addressable :: u64 where "max_addressable = nth_bit OOP_BITS"
definition chunk_size :: nat where "chunk_size = unat (nth_bit CHUNK_BITS)"

section \<open>Chunked arrays\<close>

text \<open>What the two routines ask of the visitor, in order: the fixed part of the object is traced,
  a chunk task is pushed, or the elements of a range are visited.\<close>

datatype mark_action = TraceFixed | PushChunk nat nat | IterateRange nat nat

lemma pow2_gt_pred: "2048 < (2::nat) ^ p \<Longrightarrow> p - Suc 0 < p"
  by (cases p) auto

text \<open>The splitting loop: the tasks pushed, and \<open>last_idx\<close> at the end.\<close>

function chunk_start_loop :: "nat \<Rightarrow> nat \<Rightarrow> nat \<Rightarrow> nat \<Rightarrow> mark_action list \<times> nat" where
  "chunk_start_loop len chunk pow last_idx =
     (if 2 ^ pow > (2048::nat) \<and> chunk * 2 < chunk_size then
        let pow' = pow - 1; left_chunk = chunk * 2 - 1; right_chunk = chunk * 2;
            left_chunk_end = left_chunk * 2 ^ pow'
        in if left_chunk_end < len
           then let (acts, li) = chunk_start_loop len right_chunk pow' left_chunk_end
                in (PushChunk left_chunk pow' # acts, li)
           else chunk_start_loop len left_chunk pow' last_idx
      else ([], last_idx))"
  by auto
termination
  by (relation "measure (\<lambda>(_, _, pow, _). pow)") (auto intro: pow2_gt_pred)

definition do_chunked_array_start :: "bool \<Rightarrow> nat \<Rightarrow> mark_action list res" where
  "do_chunked_array_start has_iterate_range len =
     (if \<not> has_iterate_range then Inr [TraceFixed]
      else if len \<le> 2048 * 2 then Inr [TraceFixed, IterateRange 0 len]
      else let bits = nat (log2i_graceful len);
               bits = (if len \<noteq> 2 ^ bits then bits + 1 else bits)
           in if bits \<ge> 31 \<and> bits \<noteq> 31 then Inl AssertFailed
              else let (pre, chunk, pow, last_idx) =
                         (if bits \<ge> 31 then ([PushChunk 2 (bits - 1)], 2, bits - 1, 2 ^ (bits - 1))
                          else ([], 1, bits, 0));
                       (acts, from) = chunk_start_loop len chunk pow last_idx
                   in Inr (TraceFixed # pre @ acts @ (if from < len then [IterateRange from len] else [])))"

text \<open>\<open>do_chunked_array\<close> computes in \<open>i32\<close>: a product outside its range overflows.\<close>

definition shl32 :: "nat \<Rightarrow> int" where
  "shl32 p = (if p = 31 then - (2 ^ 31) else 2 ^ p)"

lemma shl32_gt_pred: "2048 < shl32 p \<Longrightarrow> p - Suc 0 < p"
  by (cases p) (auto simp: shl32_def)

definition mul_i32 :: "int \<Rightarrow> int \<Rightarrow> int res" where
  "mul_i32 a b = (if - (2 ^ 31) \<le> a * b \<and> a * b < 2 ^ 31 then Inr (a * b) else Inl ArithOverflow)"

function chunk_split_loop :: "nat \<Rightarrow> nat \<Rightarrow> mark_action list \<times> nat \<times> nat" where
  "chunk_split_loop chunk pow =
     (if shl32 pow > 2048 \<and> chunk * 2 < chunk_size then
        let (acts, r) = chunk_split_loop (chunk * 2) (pow - 1)
        in (PushChunk (chunk * 2 - 1) (pow - 1) # acts, r)
      else ([], chunk, pow))"
  by auto
termination
  by (relation "measure (\<lambda>(_, pow). pow)") (auto dest: shl32_gt_pred)

definition do_chunked_array :: "bool \<Rightarrow> nat \<Rightarrow> nat \<Rightarrow> mark_action list res" where
  "do_chunked_array has_iterate_range chunk pow =
     (let (acts, chunk', pow') = chunk_split_loop chunk pow;
          csize = shl32 pow'
      in rbind (mul_i32 (int chunk' - 1) csize) (\<lambda>from.
         rbind (mul_i32 (int chunk') csize) (\<lambda>to.
           Inr (acts @ (if has_iterate_range then [IterateRange (nat from) (nat to)] else [])))))"

declare chunk_start_loop.simps [simp del] chunk_split_loop.simps [simp del]

section \<open>Processing the tasks of one array\<close>

text \<open>The pending chunk tasks of an array object (as encoded task words) and the ranges already
  visited. A worker takes any pending task, decodes it, and performs the actions of
  \<open>do_chunked_array\<close>; a push puts the encoded task back.\<close>

type_synonym chunk_state = "u64 multiset \<times> (nat \<times> nat) list"

definition encode_push :: "u64 \<Rightarrow> mark_action \<Rightarrow> u64 list" where
  "encode_push obj a = (case a of PushChunk c p \<Rightarrow> [MarkTask_new2 obj True False (of_nat c) (of_nat p)] | _ \<Rightarrow> [])"

definition range_of :: "mark_action \<Rightarrow> (nat \<times> nat) list" where
  "range_of a = (case a of IterateRange f t \<Rightarrow> [(f, t)] | _ \<Rightarrow> [])"

definition perform :: "u64 \<Rightarrow> mark_action list \<Rightarrow> chunk_state \<Rightarrow> chunk_state" where
  "perform obj acts s = (fst s + mset (concat (map (encode_push obj) acts)), snd s @ concat (map range_of acts))"

inductive chunk_step :: "u64 \<Rightarrow> chunk_state \<Rightarrow> chunk_state \<Rightarrow> bool" for obj where
  "t \<in># pending \<Longrightarrow> do_chunked_array True (unat (decode_chunk t)) (unat (decode_pow t)) = Inr acts \<Longrightarrow>
   chunk_step obj (pending, visited) (perform obj acts (pending - {#t#}, visited))"

inductive_cases chunk_stepE: "chunk_step obj s s'"


section \<open>Encoding lemmas\<close>

lemma bit_right_nth_bit: "k < 64 \<Longrightarrow> bit (right_nth_bit k) n \<longleftrightarrow> n < k"
  by (simp add: right_nth_bit_def nth_bit_def bit_simps)

lemma OOP_EXTRACT_MASK_eq: "OOP_EXTRACT_MASK = mask 49 AND NOT (mask 2)"
  by (simp add: OOP_EXTRACT_MASK_def right_nth_bit_def nth_bit_def task_consts mask_eq_exp_minus_1)

lemma bit_OOP_EXTRACT_MASK: "bit OOP_EXTRACT_MASK n \<longleftrightarrow> 2 \<le> n \<and> n < 49"
  by (auto simp: OOP_EXTRACT_MASK_eq bit_simps)

lemma chunk_size_eq: "chunk_size = 1024"
  by (simp add: chunk_size_def nth_bit_def task_consts)

lemmas task_defs = MarkTask_new2_def MarkTask_new_def encode_oop_def encode_chunk_def encode_pow_def
  decode_oop_def decode_chunk_def decode_pow_def decode_not_chunked_def decode_weak_def decode_cnt_live_def
  SKIP_LIVE_EXTRACT_MASK_def WEAK_EXTRACT_MASK_def CHUNK_RANGE_MASK_def POW_RANGE_MASK_def
  CHUNK_POW_EXTRACT_MASK_def task_consts


lemma task_field_bits:
  assumes "unat obj < 2 ^ 49" "4 dvd unat obj" "unat c < 2 ^ 10" "unat p < 2 ^ 5"
  shows "bit (obj :: u64) n \<Longrightarrow> 2 \<le> n \<and> n < 49" "bit (c :: u64) m \<Longrightarrow> m < 10" "bit (p :: u64) l \<Longrightarrow> l < 5"
  using unat_less_bit [OF assms(1)] unat_less_bit [OF assms(3)] unat_less_bit [OF assms(4)]
    word_dvd_low_bits [of 2 obj n] assms(2) by (auto simp: not_less [symmetric])

lemma bit_MarkTask_new2:
  assumes "unat obj < 2 ^ 49" "4 dvd unat obj" "unat c < 2 ^ 10" "unat p < 2 ^ 5"
  shows "bit (MarkTask_new2 obj sl wk c p) n \<longleftrightarrow>
    (if n = 0 then sl else if n = 1 then wk else if n < 49 then bit obj n
     else if n < 54 then bit p (n - 49) else bit c (n - 54))"
proof -
  note f = task_field_bits [OF assms]
  have e: "bit (MarkTask_new2 obj sl wk c p) n \<longleftrightarrow> n < 64 \<and>
      (bit obj n \<or> sl \<and> n = 0 \<or> wk \<and> n = 1 \<or> 54 \<le> n \<and> bit c (n - 54) \<or> 49 \<le> n \<and> bit p (n - 49))"
    by (auto simp: task_defs bit_simps Let_def dest: bit_word_lt)
  have "n - 49 < 5" if "bit p (n - 49)" using f(3) that .
  moreover have "n - 54 < 10" if "bit c (n - 54)" using f(2) that .
  ultimately show ?thesis unfolding e using f(1) [of n] by auto
qed

lemma MarkTask_new2_decode:
  assumes "unat obj < 2 ^ 49" "4 dvd unat obj" "unat c < 2 ^ 10" "unat p < 2 ^ 5"
  shows "decode_oop (MarkTask_new2 obj sl wk c p) = obj"
    and "decode_chunk (MarkTask_new2 obj sl wk c p) = c"
    and "decode_pow (MarkTask_new2 obj sl wk c p) = p"
    and "decode_weak (MarkTask_new2 obj sl wk c p) \<longleftrightarrow> wk"
    and "decode_cnt_live (MarkTask_new2 obj sl wk c p) \<longleftrightarrow> \<not> sl"
proof -
  note b = bit_MarkTask_new2 [OF assms, of sl wk]
  note f = task_field_bits [OF assms]
  show "decode_oop (MarkTask_new2 obj sl wk c p) = obj"
    by (intro bit_eqI) (auto simp: decode_oop_def bit_and_iff b bit_OOP_EXTRACT_MASK dest: f)
  show "decode_chunk (MarkTask_new2 obj sl wk c p) = c"
    by (intro bit_eqI)
      (auto simp: decode_chunk_def bit_and_iff bit_drop_bit_eq b CHUNK_RANGE_MASK_def bit_right_nth_bit task_consts
        dest: f)
  show "decode_pow (MarkTask_new2 obj sl wk c p) = p"
    by (intro bit_eqI)
      (auto simp: decode_pow_def bit_and_iff bit_drop_bit_eq b POW_RANGE_MASK_def bit_right_nth_bit task_consts
        dest: f)
  show "decode_weak (MarkTask_new2 obj sl wk c p) \<longleftrightarrow> wk"
    using b [of 1] by (simp only: decode_weak_def WEAK_EXTRACT_MASK_def and_single_bit_nonzero) simp
  show "decode_cnt_live (MarkTask_new2 obj sl wk c p) \<longleftrightarrow> \<not> sl"
    using b [of 0] and_single_bit_nonzero [of "MarkTask_new2 obj sl wk c p" 0]
    by (auto simp: decode_cnt_live_def SKIP_LIVE_EXTRACT_MASK_def)
qed

lemma word_eq_0_bits: "(w :: u64) = 0 \<longleftrightarrow> (\<forall>n. \<not> bit w n)"
  using bit_word_lt [of w] by (auto simp add: bit_eq_iff)

lemma bit_decode_chunk: "bit (decode_chunk t) n \<longleftrightarrow> n < 10 \<and> bit t (54 + n)"
  by (auto simp: decode_chunk_def bit_and_iff bit_drop_bit_eq CHUNK_RANGE_MASK_def bit_right_nth_bit task_consts)

lemma bit_decode_pow: "bit (decode_pow t) n \<longleftrightarrow> n < 5 \<and> bit t (49 + n)"
  by (auto simp: decode_pow_def bit_and_iff bit_drop_bit_eq POW_RANGE_MASK_def bit_right_nth_bit task_consts)

lemma decode_not_chunked_iff:
  "decode_not_chunked t \<longleftrightarrow> decode_chunk t = 0 \<and> decode_pow t = 0"
proof -
  have m: "bit (t AND CHUNK_POW_EXTRACT_MASK) n \<longleftrightarrow> bit t n \<and> 49 \<le> n \<and> n < 64" for n
    using bit_word_lt [of t n]
    by (auto simp: bit_and_iff CHUNK_POW_EXTRACT_MASK_def bit_not_iff bit_right_nth_bit task_consts)
  have "(\<exists>n. bit t n \<and> 49 \<le> n \<and> n < 64) \<longleftrightarrow> (\<exists>n<10. bit t (54 + n)) \<or> (\<exists>n<5. bit t (49 + n))"
  proof
    assume "\<exists>n. bit t n \<and> 49 \<le> n \<and> n < 64"
    then obtain n where n: "bit t n" "49 \<le> n" "n < 64" by blast
    show "(\<exists>n<10. bit t (54 + n)) \<or> (\<exists>n<5. bit t (49 + n))"
    proof (cases "n < 54")
      case True
      then have "n - 49 < 5" "bit t (49 + (n - 49))" using n by auto
      then show ?thesis by blast
    next
      case False
      then have "n - 54 < 10" "bit t (54 + (n - 54))" using n by auto
      then show ?thesis by blast
    qed
  qed force
  then show ?thesis
    unfolding decode_not_chunked_def word_eq_0_bits bit_decode_chunk bit_decode_pow m by blast
qed


section \<open>Coverage of an array by its chunks\<close>

text \<open>The interval \<open>[(C-1)*2^P, C*2^P)\<close> of a chunk task, as the multiset of its indices, and what
  an action is responsible for.\<close>

definition ival :: "nat \<Rightarrow> nat \<Rightarrow> nat multiset" where
  "ival a b = mset [a..<b]"

definition act_cover :: "mark_action \<Rightarrow> nat multiset" where
  "act_cover a = (case a of TraceFixed \<Rightarrow> {#} | PushChunk c p \<Rightarrow> ival ((c - 1) * 2 ^ p) (c * 2 ^ p) | IterateRange f t \<Rightarrow> ival f t)"

definition acts_cover :: "mark_action list \<Rightarrow> nat multiset" where
  "acts_cover acts = sum_list (map act_cover acts)"

definition good_push :: "mark_action \<Rightarrow> bool" where
  "good_push a \<longleftrightarrow> (case a of PushChunk c p \<Rightarrow> 1 \<le> c \<and> c < 1024 \<and> p \<le> 30 \<and> c * 2 ^ p < 2 ^ 31 | _ \<Rightarrow> True)"

lemma acts_cover_simps [simp]:
  "acts_cover [] = {#}"
  "acts_cover (a # acts) = act_cover a + acts_cover acts"
  "acts_cover (xs @ ys) = acts_cover xs + acts_cover ys"
  by (simp_all add: acts_cover_def)

lemma ival_split: "a \<le> b \<Longrightarrow> b \<le> c \<Longrightarrow> ival a c = ival a b + ival b c"
  unfolding ival_def by (metis le_add_diff_inverse mset_append upt_add_eq_append)

lemma ival_empty [simp]: "b \<le> a \<Longrightarrow> ival a b = {#}"
  by (simp add: ival_def)

lemma chunk_halves:
  assumes "1 \<le> (c::nat)"
  shows "(c * 2 - 1 - 1) * 2 ^ q = (c - 1) * 2 ^ Suc q" "c * 2 * 2 ^ q = c * 2 ^ Suc q"
    "(c - 1) * 2 ^ Suc q \<le> (c * 2 - 1) * 2 ^ q" "(c * 2 - 1) * 2 ^ q \<le> c * 2 ^ Suc q"
  using assms by (cases c; simp)+

lemma pow_big: "2048 < (2::nat) ^ p \<Longrightarrow> 0 < p"
  by (cases p) auto

lemma shl32_small: "p \<le> 30 \<Longrightarrow> shl32 p = 2 ^ p"
  by (simp add: shl32_def)

lemma chunk_split_loop_cover:
  assumes "1 \<le> c" "c < 1024" "p \<le> 30" "c * 2 ^ p < 2 ^ 31" "chunk_split_loop c p = (acts, c', p')"
  shows "1 \<le> c' \<and> p' \<le> 30 \<and> c' * 2 ^ p' = c * 2 ^ p \<and> list_all good_push acts \<and>
    (\<forall>a \<in> set acts. \<exists>k q. a = PushChunk k q \<and> q < p) \<and>
    acts_cover acts + ival ((c' - 1) * 2 ^ p') (c' * 2 ^ p') = ival ((c - 1) * 2 ^ p) (c * 2 ^ p)"
  using assms
proof (induction c p arbitrary: acts rule: chunk_split_loop.induct)
  case (1 c p)
  show ?case
  proof (cases "shl32 p > 2048 \<and> c * 2 < chunk_size")
    case False
    then have "chunk_split_loop c p = ([], c, p)" by (subst chunk_split_loop.simps) auto
    then show ?thesis using "1.prems" by auto
  next
    case True
    then have "0 < p" and c2: "c * 2 < 1024"
      using "1.prems" by (auto simp: shl32_small chunk_size_eq intro: gr0I)
    then obtain q where q: "p = Suc q" by (auto dest: gr0_implies_Suc)
    note h = chunk_halves [OF \<open>1 \<le> c\<close>, of q, folded q]
    obtain as where as: "chunk_split_loop (c * 2) q = (as, c', p')"
      and acts: "acts = PushChunk (c * 2 - 1) q # as"
      using "1.prems"(5) True q by (subst (asm) chunk_split_loop.simps) (auto split: prod.splits)
    have lt: "c * 2 * 2 ^ q < 2 ^ 31" using h(2) "1.prems"(4) by (simp only:)
    have ih: "1 \<le> c' \<and> p' \<le> 30 \<and> c' * 2 ^ p' = c * 2 * 2 ^ q \<and> list_all good_push as \<and>
      (\<forall>a \<in> set as. \<exists>k r. a = PushChunk k r \<and> r < q) \<and>
      acts_cover as + ival ((c' - 1) * 2 ^ p') (c' * 2 ^ p') = ival ((c * 2 - 1) * 2 ^ q) (c * 2 * 2 ^ q)"
      using "1.IH" [OF True, of as] as lt c2 q "1.prems" by auto
    have "(c * 2 - 1) * 2 ^ q < 2 ^ 31" using h(4) "1.prems"(4) by (rule le_less_trans)
    then have "good_push (PushChunk (c * 2 - 1) q)"
      using c2 q "1.prems" by (auto simp: good_push_def)
    moreover have "\<exists>k r. a = PushChunk k r \<and> r < p" if "a \<in> set acts" for a
      using that ih by (auto simp: acts q)
    moreover have "acts_cover acts + ival ((c' - 1) * 2 ^ p') (c' * 2 ^ p') = ival ((c - 1) * 2 ^ p) (c * 2 ^ p)"
    proof -
      have "acts_cover acts = ival ((c - 1) * 2 ^ p) ((c * 2 - 1) * 2 ^ q) + acts_cover as"
        unfolding acts acts_cover_simps act_cover_def by (simp only: mark_action.case h(1))
      moreover have "acts_cover as + ival ((c' - 1) * 2 ^ p') (c' * 2 ^ p') = ival ((c * 2 - 1) * 2 ^ q) (c * 2 ^ p)"
        using ih unfolding h(2) by (elim conjE) assumption
      ultimately show ?thesis using ival_split [OF h(3) h(4)] by (simp only: add.assoc)
    qed
    ultimately show ?thesis using ih h(2) unfolding acts by simp
  qed
qed

lemma chunk_start_loop_cover:
  assumes "1 \<le> c" "c < 1024" "p \<le> 30" "len \<le> c * 2 ^ p" "(c - 1) * 2 ^ p < len" "len < 2 ^ 31"
    "l0 = (c - 1) * 2 ^ p" "chunk_start_loop len c p l0 = (acts, li)"
  shows "l0 \<le> li \<and> li < len \<and> list_all good_push acts \<and> (\<forall>a \<in> set acts. \<exists>k q. a = PushChunk k q) \<and>
    acts_cover acts = ival l0 li"
  using assms
proof (induction len c p l0 arbitrary: acts rule: chunk_start_loop.induct)
  case (1 len c p l0)
  show ?case
  proof (cases "2 ^ p > (2048::nat) \<and> c * 2 < chunk_size")
    case False
    then have "chunk_start_loop len c p l0 = ([], l0)"
      by (subst chunk_start_loop.simps) auto
    then show ?thesis using "1.prems" by auto
  next
    case True
    then have "0 < p" and c2: "c * 2 < 1024" by (auto simp: chunk_size_eq pow_big)
    then obtain q where q: "p = Suc q" by (auto dest: gr0_implies_Suc)
    note h = chunk_halves [OF \<open>1 \<le> c\<close>, of q, folded q]
    have le: "len \<le> c * 2 * 2 ^ q" using h(2) "1.prems"(4) by (simp only:)
    show ?thesis
    proof (cases "(c * 2 - 1) * 2 ^ q < len")
      case lt: True
      obtain as where as: "chunk_start_loop len (c * 2) q ((c * 2 - 1) * 2 ^ q) = (as, li)"
        and acts: "acts = PushChunk (c * 2 - 1) q # as"
        using "1.prems"(8) True lt q by (subst (asm) chunk_start_loop.simps) (auto split: prod.splits simp: Let_def)
      have ih: "(c * 2 - 1) * 2 ^ q \<le> li \<and> li < len \<and> list_all good_push as \<and>
          (\<forall>a \<in> set as. \<exists>k q. a = PushChunk k q) \<and> acts_cover as = ival ((c * 2 - 1) * 2 ^ q) li"
        using "1.IH"(1) [OF True refl refl refl refl] q lt c2 le as "1.prems" by simp
      have "(c * 2 - 1) * 2 ^ q < 2 ^ 31" using lt "1.prems"(6) by (rule less_trans)
      then have "good_push (PushChunk (c * 2 - 1) q)"
        using c2 q "1.prems" by (auto simp: good_push_def)
      moreover have "acts_cover acts = ival l0 li"
        using ih ival_split [OF h(3), of li] unfolding acts acts_cover_simps act_cover_def "1.prems"(7)
        by (simp add: h(1) [simplified])
      moreover have "l0 \<le> li" using h(3) ih "1.prems"(7) by (auto intro: le_trans)
      ultimately show ?thesis using ih unfolding acts by auto
    next
      case ge: False
      then have as: "chunk_start_loop len (c * 2 - 1) q l0 = (acts, li)"
        using "1.prems"(8) True q by (subst (asm) chunk_start_loop.simps) (auto simp: Let_def)
      have l0: "l0 = (c * 2 - 1 - 1) * 2 ^ q" "(c * 2 - 1 - 1) * 2 ^ q < len" "len \<le> (c * 2 - 1) * 2 ^ q"
        using h(1) ge "1.prems"(5,7) by (simp_all only: not_less)
      have "1 \<le> c * 2 - 1" "c * 2 - 1 < 1024" "q \<le> 30" using c2 q "1.prems"(1-3) by simp_all
      moreover have pq: "p - 1 = q" using q by simp
      ultimately show ?thesis
        using "1.IH"(2) [OF True refl refl refl refl, unfolded pq, OF ge _ _ _ l0(3,2) "1.prems"(6) l0(1) as]
        by blast
    qed
  qed
qed


lemma start_bits:
  assumes "0 < len" "len \<le> 2 ^ 30"
  defines "b \<equiv> (let b = nat (log2i_graceful len) in if len \<noteq> 2 ^ b then b + 1 else b)"
  shows "len \<le> 2 ^ b" "b \<le> 30"
proof -
  have b0: "nat (log2i_graceful len) = bit_length len - 1" "0 < bit_length len"
    using assms(1) by (auto simp: log2i_graceful_def bit_length.simps)
  then obtain k where k: "bit_length len = Suc k" by (auto dest: gr0_implies_Suc)
  have len: "2 ^ k \<le> len" "len < 2 ^ Suc k" using bit_length_bounds [OF assms(1)] k by auto
  show "len \<le> 2 ^ b" using len b0 k unfolding b_def Let_def by auto
  have "(2::nat) ^ k \<le> 2 ^ 30" using len(1) assms(2) by (rule le_trans)
  then have "k \<le> 30" by (subst (asm) power_increasing_iff) auto
  moreover have "k < 30" if "len \<noteq> 2 ^ k"
  proof -
    have "(2::nat) ^ k < 2 ^ 30" using len(1) assms(2) that by linarith
    then show ?thesis by (subst (asm) power_strict_increasing_iff) auto
  qed
  ultimately show "b \<le> 30" using b0 k unfolding b_def Let_def by auto
qed

lemma do_chunked_array_start_cover:
  assumes "len \<le> 2 ^ 30"
  shows "\<exists>acts. do_chunked_array_start True len = Inr acts \<and> list_all good_push acts \<and> acts_cover acts = ival 0 len"
proof (cases "len \<le> 4096")
  case True
  then show ?thesis
    by (simp add: do_chunked_array_start_def good_push_def act_cover_def)
next
  case False
  define b where "b = (let b = nat (log2i_graceful len) in if len \<noteq> 2 ^ b then b + 1 else b)"
  have b: "len \<le> 1 * 2 ^ b" "b \<le> 30"
    using start_bits [OF _ assms] False by (auto simp: b_def)
  obtain acts li where l: "chunk_start_loop len 1 b 0 = (acts, li)" by fastforce
  have "len < 2 ^ 31" using assms by simp
  from chunk_start_loop_cover [OF _ _ b(2,1) _ this _ l] False
  have c: "li < len" "list_all good_push acts" "acts_cover acts = ival 0 li" by auto
  have "do_chunked_array_start True len = Inr (TraceFixed # acts @ [IterateRange li len])"
    using False b(2) l c(1) unfolding do_chunked_array_start_def b_def Let_def by (simp split del: if_split)
  moreover have "acts_cover (TraceFixed # acts @ [IterateRange li len]) = ival 0 len"
    using c by (simp add: act_cover_def ival_split [of 0 li len])
  ultimately show ?thesis
    using c by (intro exI [of _ "TraceFixed # acts @ [IterateRange li len]"]) (auto simp: good_push_def)
qed

section \<open>Every schedule of the chunk tasks visits every element once\<close>

definition task_cover :: "u64 \<Rightarrow> nat multiset" where
  "task_cover t = act_cover (PushChunk (unat (decode_chunk t)) (unat (decode_pow t)))"

definition visited_indices :: "chunk_state \<Rightarrow> nat multiset" where
  "visited_indices s = sum_list (map (\<lambda>(f, t). ival f t) (snd s))"

definition pending_cover :: "chunk_state \<Rightarrow> nat multiset" where
  "pending_cover s = sum_mset (image_mset task_cover (fst s))"

definition good_task :: "u64 \<Rightarrow> u64 \<Rightarrow> bool" where
  "good_task obj t \<longleftrightarrow> (\<exists>c p. t = MarkTask_new2 obj True False (of_nat c) (of_nat p) \<and> good_push (PushChunk c p))"

definition chunk_inv :: "u64 \<Rightarrow> nat \<Rightarrow> chunk_state \<Rightarrow> bool" where
  "chunk_inv obj len s \<longleftrightarrow> (\<forall>t \<in># fst s. good_task obj t) \<and> pending_cover s + visited_indices s = ival 0 len"

lemma good_task_decode:
  assumes "unat obj < 2 ^ 49" "4 dvd unat obj" "good_push (PushChunk c p)"
  defines "t \<equiv> MarkTask_new2 obj True False (of_nat c) (of_nat p)"
  shows "unat (decode_chunk t) = c" "unat (decode_pow t) = p"
proof -
  have u: "unat (of_nat c :: u64) = c" "unat (of_nat p :: u64) = p" "c < 1024" "p < 32"
    using assms(3) by (auto simp: good_push_def unat_of_nat take_bit_nat_eq_self)
  then have "decode_chunk t = of_nat c" "decode_pow t = of_nat p"
    unfolding t_def by (auto intro!: MarkTask_new2_decode(2,3) assms)
  with u show "unat (decode_chunk t) = c" "unat (decode_pow t) = p" by auto
qed

lemma perform_cover:
  assumes "unat obj < 2 ^ 49" "4 dvd unat obj" "list_all good_push acts"
  shows "pending_cover (perform obj acts s) + visited_indices (perform obj acts s) =
      pending_cover s + visited_indices s + acts_cover acts"
    and "t \<in># fst (perform obj acts s) \<Longrightarrow> t \<in># fst s \<or> good_task obj t"
  using assms(3)
proof (induction acts arbitrary: s)
  case (Cons a acts)
  { case 1
    then show ?case using Cons.IH(1) [of s] good_task_decode [OF assms(1,2)]
      by (cases a) (auto simp: perform_def pending_cover_def visited_indices_def encode_push_def range_of_def
          task_cover_def act_cover_def) }
  { case 2
    then show ?case using Cons.IH(2) [of s]
      by (cases a) (auto simp: perform_def encode_push_def good_task_def) }
qed (auto simp: perform_def visited_indices_def)

lemma do_chunked_array_ok:
  assumes "good_push (PushChunk c p)"
  obtains acts where "do_chunked_array True c p = Inr acts" "list_all good_push acts"
    "acts_cover acts = act_cover (PushChunk c p)" "\<exists>f t. IterateRange f t \<in> set acts \<and> f < t"
proof -
  obtain acts c' p' where l: "chunk_split_loop c p = (acts, c', p')" by (cases "chunk_split_loop c p")
  from assms have pre: "1 \<le> c" "c < 1024" "p \<le> 30" "c * 2 ^ p < 2 ^ 31" by (auto simp: good_push_def)
  note cov = chunk_split_loop_cover [OF pre l]
  have "c' * 2 ^ p' < 2 ^ 31" using cov pre(4) by (simp only:)
  then have i: "int (c' * 2 ^ p') < 2 ^ 31" by (metis of_nat_less_iff of_nat_numeral of_nat_power)
  have le: "(c' - 1) * 2 ^ p' \<le> c' * 2 ^ p'" by simp
  have p': "p' \<le> 30" "1 \<le> c'" using cov by blast+
  have mul: "mul_i32 (int k) (shl32 p') = Inr (int (k * 2 ^ p'))" if "k \<le> c'" for k
  proof -
    have "int (k * 2 ^ p') \<le> int (c' * 2 ^ p')" using that by simp
    then have "int (k * 2 ^ p') < 2 ^ 31" using i by linarith
    moreover have "- (2 ^ 31) \<le> int (k * 2 ^ p')" by (rule order_trans [of _ 0]) simp_all
    ultimately show ?thesis using p' by (simp add: mul_i32_def shl32_small)
  qed
  have to: "mul_i32 (int c') (shl32 p') = Inr (int (c' * 2 ^ p'))" by (rule mul) simp
  have frm: "mul_i32 (int c' - 1) (shl32 p') = Inr (int ((c' - 1) * 2 ^ p'))"
    using mul [of "c' - 1"] p' by (simp add: of_nat_diff)
  have d: "do_chunked_array True c p = Inr (acts @ [IterateRange ((c' - 1) * 2 ^ p') (c' * 2 ^ p')])"
    unfolding do_chunked_array_def l Let_def prod.case frm to rbind_simps by (simp only: nat_int if_True)
  have lt: "(c' - 1) * 2 ^ p' < c' * 2 ^ p'" using p'(2) by simp
  show thesis
  proof (rule that [OF d])
    show "list_all good_push (acts @ [IterateRange ((c' - 1) * 2 ^ p') (c' * 2 ^ p')])"
      using cov by (simp add: good_push_def)
    show "acts_cover (acts @ [IterateRange ((c' - 1) * 2 ^ p') (c' * 2 ^ p')]) = act_cover (PushChunk c p)"
      using cov by (elim conjE) (simp only: acts_cover_simps act_cover_def mark_action.case add_0_right)
    show "\<exists>f t. IterateRange f t \<in> set (acts @ [IterateRange ((c' - 1) * 2 ^ p') (c' * 2 ^ p')]) \<and> f < t"
      by (intro exI conjI, rule_tac [2] lt) simp
  qed
qed


lemma size_sum_list_member: "x \<in> set xs \<Longrightarrow> size (f x) \<le> size (sum_list (map f xs) :: 'a multiset)"
  by (induction xs) auto

lemma chunk_step_inv:
  assumes obj: "unat obj < 2 ^ 49" "4 dvd unat obj" and inv: "chunk_inv obj len s" and st: "chunk_step obj s s'"
  shows "chunk_inv obj len s'" "size (pending_cover s') < size (pending_cover s)"
proof -
  from st obtain t pending visited acts where s: "s = (pending, visited)" "t \<in># pending"
    and d: "do_chunked_array True (unat (decode_chunk t)) (unat (decode_pow t)) = Inr acts"
    and s': "s' = perform obj acts (pending - {#t#}, visited)"
    by (auto elim: chunk_stepE)
  have "good_task obj t" using inv s by (auto simp: chunk_inv_def)
  then have g: "good_push (PushChunk (unat (decode_chunk t)) (unat (decode_pow t)))"
    using good_task_decode [OF obj] by (auto simp: good_task_def)
  from do_chunked_array_ok [OF this] d
  have a: "list_all good_push acts" "acts_cover acts = task_cover t"
    and it: "\<exists>f t. IterateRange f t \<in> set acts \<and> f < t"
    by (auto simp: task_cover_def)
  note pc = perform_cover [OF obj a(1), where s = "(pending - {#t#}, visited)", folded s']
  have p: "pending_cover s = task_cover t + pending_cover (pending - {#t#}, visited)"
    using s by (auto simp: pending_cover_def dest!: multi_member_split)
  have v: "visited_indices (pending - {#t#}, visited) = visited_indices s"
    using s by (simp add: visited_indices_def)
  have total: "pending_cover s' + visited_indices s' = pending_cover s + visited_indices s"
    using pc(1) p v a(2) by (simp add: ac_simps)
  with pc(2) inv s show "chunk_inv obj len s'"
    by (auto simp: chunk_inv_def dest: in_diffD)
  have "size (visited_indices s) < size (visited_indices s')"
  proof -
    from it obtain f u where "IterateRange f u \<in> set acts" "f < u" by blast
    then have "(f, u) \<in> set (concat (map range_of acts))" by (force simp: range_of_def)
    then have "size (ival f u) \<le> size (sum_list (map (\<lambda>(f, t). ival f t) (concat (map range_of acts))))"
      using size_sum_list_member [of "(f, u)" _ "\<lambda>(f, t). ival f t"] by simp
    then show ?thesis
      using \<open>f < u\<close> s by (simp add: s' perform_def visited_indices_def ival_def)
  qed
  with arg_cong [OF total, of size] show "size (pending_cover s') < size (pending_cover s)" by simp
qed

lemma chunk_steps_inv:
  assumes obj: "unat obj < 2 ^ 49" "4 dvd unat obj" and inv: "chunk_inv obj len s" and st: "(chunk_step obj ^^ n) s s'"
  shows "chunk_inv obj len s' \<and> n + size (pending_cover s') \<le> size (pending_cover s)"
  using st
proof (induction n arbitrary: s')
  case (Suc n)
  then obtain m where "(chunk_step obj ^^ n) s m" "chunk_step obj m s'" by auto
  with Suc.IH chunk_step_inv [OF obj, of len m s'] show ?case by fastforce
qed (use inv in simp)

lemma chunk_progress:
  assumes obj: "unat obj < 2 ^ 49" "4 dvd unat obj" and inv: "chunk_inv obj len s" and ne: "fst s \<noteq> {#}"
  shows "\<exists>s'. chunk_step obj s s'"
proof -
  obtain pending visited where s: "s = (pending, visited)" by fastforce
  then obtain t where t: "t \<in># pending" using ne by auto
  then have "good_task obj t" using inv s by (auto simp: chunk_inv_def)
  then have "good_push (PushChunk (unat (decode_chunk t)) (unat (decode_pow t)))"
    using good_task_decode [OF obj] by (auto simp: good_task_def)
  from do_chunked_array_ok [OF this] s t show ?thesis by (metis chunk_step.intros)
qed

lemma chunk_start_inv:
  assumes obj: "unat obj < 2 ^ 49" "4 dvd unat obj" and "list_all good_push acts" "acts_cover acts = ival 0 len"
  shows "chunk_inv obj len (perform obj acts ({#}, []))"
  using perform_cover [OF assms(1,2,3), where s = "({#}, [])"] assms(4)
  by (auto simp: chunk_inv_def pending_cover_def visited_indices_def)

text \<open>C28. An array of up to \<open>2 ^ 30\<close> elements whose header lies in the addressable 49-bit range is
  split without overflow, and under every schedule of the pushed chunk tasks the marking of the array
  ends after at most \<open>len\<close> steps (no reachable state with pending tasks is stuck) with every index of
  the array visited exactly once and no index outside it.\<close>

theorem chunked_array_every_schedule:
  assumes "unat obj < 2 ^ 49" "4 dvd unat obj" "len \<le> 2 ^ 30"
  shows "\<exists>acts. do_chunked_array_start True len = Inr acts \<and>
    (\<forall>n s. (chunk_step obj ^^ n) (perform obj acts ({#}, [])) s \<longrightarrow>
       n \<le> len \<and> (fst s \<noteq> {#} \<longrightarrow> (\<exists>s'. chunk_step obj s s')) \<and>
       (fst s = {#} \<longrightarrow> visited_indices s = mset [0..<len]))"
proof -
  obtain acts where a: "do_chunked_array_start True len = Inr acts" "list_all good_push acts" "acts_cover acts = ival 0 len"
    using do_chunked_array_start_cover [OF assms(3)] by blast
  define s0 where "s0 = perform obj acts ({#}, [])"
  have inv: "chunk_inv obj len s0" unfolding s0_def by (rule chunk_start_inv [OF assms(1,2) a(2,3)])
  then have "pending_cover s0 + visited_indices s0 = ival 0 len" by (simp add: chunk_inv_def)
  from arg_cong [OF this, of size] have "size (pending_cover s0) \<le> len" by (simp add: ival_def)
  moreover have "n + size (pending_cover s) \<le> size (pending_cover s0)" "chunk_inv obj len s"
    if "(chunk_step obj ^^ n) s0 s" for n s
    using chunk_steps_inv [OF assms(1,2) inv that] by auto
  moreover have "visited_indices s = mset [0..<len]" if "chunk_inv obj len s" "fst s = {#}" for s
    using that by (simp add: chunk_inv_def pending_cover_def ival_def)
  ultimately show ?thesis
    using a(1) chunk_progress [OF assms(1,2), of len]
    by (intro exI [of _ acts]) (force simp: s0_def)
qed

theorem chunked_array_every_schedule_witness:
  "\<exists>acts. do_chunked_array_start True 5000 = Inr acts \<and>
    (\<forall>n s. (chunk_step 4096 ^^ n) (perform 4096 acts ({#}, [])) s \<longrightarrow>
       n \<le> 5000 \<and> (fst s \<noteq> {#} \<longrightarrow> (\<exists>s'. chunk_step 4096 s s')) \<and>
       (fst s = {#} \<longrightarrow> visited_indices s = mset [0..<5000]))"
  by (rule chunked_array_every_schedule) simp_all


lemma do_chunked_array_start_large:
  assumes "2 ^ 30 < len" "len < 2 ^ 31"
  obtains acts li where "do_chunked_array_start True len = Inr (TraceFixed # PushChunk 2 30 # acts @ [IterateRange li len])"
    "2 ^ 30 \<le> li" "acts_cover acts = ival (2 ^ 30) li"
proof -
  have bl: "bit_length len = Suc 30" using assms by (intro bit_length_eq) auto
  then have b: "nat (log2i_graceful len) = 30" using assms by (auto simp: log2i_graceful_def)
  obtain acts li where l: "chunk_start_loop len 2 30 (2 ^ 30) = (acts, li)" by fastforce
  have c: "2 ^ 30 \<le> li" "li < len" "acts_cover acts = ival (2 ^ 30) li"
    using chunk_start_loop_cover [OF _ _ _ _ _ assms(2) _ l] assms by auto
  have "do_chunked_array_start True len = Inr (TraceFixed # PushChunk 2 30 # acts @ [IterateRange li len])"
    using assms b l c by (simp add: do_chunked_array_start_def Let_def)
  with c that show thesis by blast
qed

text \<open>C29. For an array of more than \<open>2 ^ 30\<close> elements the splitting goes wrong: the task pushed to
  handle the overflow names the second half instead of the first, so no action of
  \<open>do_chunked_array_start\<close> is responsible for an index below \<open>2 ^ 30\<close>, and the pushed task itself
  overflows the \<open>i32\<close> arithmetic of \<open>do_chunked_array\<close>.\<close>

theorem chunked_array_overflow_skips_prefix:
  assumes "2 ^ 30 < len" "len < 2 ^ 31"
  shows "\<exists>acts. do_chunked_array_start True len = Inr acts \<and> PushChunk 2 30 \<in> set acts \<and>
    (\<forall>i < 2 ^ 30. i \<notin># acts_cover acts) \<and> do_chunked_array True 2 30 = Inl ArithOverflow"
proof -
  obtain acts li where a: "do_chunked_array_start True len = Inr (TraceFixed # PushChunk 2 30 # acts @ [IterateRange li len])"
    "2 ^ 30 \<le> li" "acts_cover acts = ival (2 ^ 30) li"
    using do_chunked_array_start_large [OF assms] by blast
  have "do_chunked_array True 2 30 = Inl ArithOverflow"
    by (simp add: do_chunked_array_def chunk_split_loop.simps shl32_def chunk_size_eq mul_i32_def)
  moreover have "i \<notin># acts_cover (TraceFixed # PushChunk 2 30 # acts @ [IterateRange li len])" if "i < 2 ^ 30" for i
    using that a(2) by (auto simp: act_cover_def a(3) ival_def)
  ultimately show ?thesis using a(1) by (intro exI conjI) auto
qed

theorem chunked_array_overflow_skips_prefix_witness:
  "\<exists>acts. do_chunked_array_start True (2 ^ 30 + 7) = Inr acts \<and> PushChunk 2 30 \<in> set acts \<and>
    (\<forall>i < 2 ^ 30. i \<notin># acts_cover acts) \<and> do_chunked_array True 2 30 = Inl ArithOverflow"
  by (rule chunked_array_overflow_skips_prefix) simp_all

text \<open>A task word carries its five fields without loss: for a 4-aligned object below
  \<open>2 ^ 49\<close>, a chunk of 10 bits and a power of 5 bits, decoding the word gives back the object,
  the chunk, the power and the two flags, and the word is "not chunked" exactly when chunk and power
  are both zero.\<close>

theorem mark_task_roundtrip:
  assumes "unat obj < 2 ^ 49" "4 dvd unat obj" "unat c < 2 ^ 10" "unat p < 2 ^ 5"
  shows "let t = MarkTask_new2 obj sl wk c p in
    decode_oop t = obj \<and> decode_chunk t = c \<and> decode_pow t = p \<and> decode_weak t = wk \<and>
    decode_cnt_live t = (\<not> sl) \<and> decode_not_chunked t = (c = 0 \<and> p = 0)"
  unfolding Let_def by (simp add: MarkTask_new2_decode [OF assms] decode_not_chunked_iff)

theorem mark_task_roundtrip_witness:
  "let t = MarkTask_new2 0x7f00001000 True False 513 12 in
    decode_oop t = 0x7f00001000 \<and> decode_chunk t = 513 \<and> decode_pow t = 12 \<and> decode_weak t = False \<and>
    decode_cnt_live t = (\<not> True) \<and> decode_not_chunked t = ((513::u64) = 0 \<and> (12::u64) = 0)"
  by (rule mark_task_roundtrip) simp_all

end
