(* ===== verification/BitField.thy ===== *)
theory BitField
  imports Prelude
begin

unbundle bit_operations_syntax

text \<open>
  \<open>utils/bitfield.rs\<close>: the packed bit fields of a 64-bit word. The const generics
  \<open>SIZE\<close> and \<open>POSITION\<close> are arguments. The atomic variant runs its compare-and-swap
  loop against a list of the values the cell held at the failed attempts.
\<close>

section \<open>Bit fields\<close>

definition bf_mask :: "nat \<Rightarrow> u64" where
  "bf_mask sz = push_bit sz 1 - 1"

definition bf_mask_in_place :: "nat \<Rightarrow> nat \<Rightarrow> u64" where
  "bf_mask_in_place sz pos = push_bit pos (bf_mask sz)"

definition bf_decode :: "nat \<Rightarrow> nat \<Rightarrow> bool \<Rightarrow> u64 \<Rightarrow> u64" where
  "bf_decode sz pos sign_extend v =
     (if sign_extend then signed_drop_bit (64 - sz) (push_bit (64 - (pos + sz)) v)
      else drop_bit pos v AND bf_mask sz)"

definition bf_encode :: "nat \<Rightarrow> nat \<Rightarrow> u64 \<Rightarrow> u64" where
  "bf_encode sz pos v = push_bit pos (v AND bf_mask sz)"

definition bf_update :: "nat \<Rightarrow> nat \<Rightarrow> u64 \<Rightarrow> u64 \<Rightarrow> u64" where
  "bf_update sz pos v original = bf_encode sz pos v OR (NOT (bf_mask_in_place sz pos) AND original)"

definition bf_is_valid :: "nat \<Rightarrow> nat \<Rightarrow> bool \<Rightarrow> u64 \<Rightarrow> bool" where
  "bf_is_valid sz pos sign_extend v \<longleftrightarrow> bf_decode sz pos sign_extend (bf_encode sz pos v) = v"

section \<open>Atomic bit fields\<close>

text \<open>The value of the cell at each failed compare-exchange is an element of \<open>obs\<close>;
  the attempt after the last of them succeeds.\<close>

fun abf_update :: "nat \<Rightarrow> nat \<Rightarrow> u64 \<Rightarrow> u64 \<Rightarrow> u64 list \<Rightarrow> u64" where
  "abf_update sz pos v old_field [] = bf_update sz pos v old_field"
| "abf_update sz pos v old_field (x # obs) = abf_update sz pos v x obs"

text \<open>Returns the value of the call and the new content of the cell.\<close>

fun abf_update_conditional :: "nat \<Rightarrow> nat \<Rightarrow> bool \<Rightarrow> u64 \<Rightarrow> u64 \<Rightarrow> u64 \<Rightarrow> u64 list \<Rightarrow> u64 \<times> u64" where
  "abf_update_conditional sz pos sx to_set cond_old old_field obs =
     (if bf_decode sz pos sx old_field \<noteq> cond_old then (bf_decode sz pos sx old_field, old_field)
      else (case obs of
              [] \<Rightarrow> (to_set, bf_update sz pos to_set old_field)
            | x # obs' \<Rightarrow> abf_update_conditional sz pos sx to_set cond_old x obs'))"

definition abf_update_bool :: "nat \<Rightarrow> nat \<Rightarrow> bool \<Rightarrow> u64 \<Rightarrow> u64" where
  "abf_update_bool sz pos v bits =
     (if v then bits OR bf_encode sz pos 1 else bits AND NOT (bf_encode sz pos 1))"

definition abf_try_acquire :: "nat \<Rightarrow> nat \<Rightarrow> u64 \<Rightarrow> bool \<times> u64" where
  "abf_try_acquire sz pos bits =
     (bf_decode sz pos False bits = 0, bits OR bf_encode sz pos 1)"

definition abf_try_clear :: "nat \<Rightarrow> nat \<Rightarrow> u64 \<Rightarrow> bool \<times> u64" where
  "abf_try_clear sz pos bits =
     (bf_decode sz pos False bits \<noteq> 0, bits AND NOT (bf_encode sz pos 1))"

section \<open>Bit-level characterisations\<close>

lemma bf_mask_eq: "bf_mask sz = mask sz"
  by (simp add: bf_mask_def mask_eq_exp_minus_1)

lemma bit_bf_mask [bit_simps]: "bit (bf_mask s) n \<longleftrightarrow> n < s \<and> n < 64"
  by (auto simp: bf_mask_eq bit_simps)

lemma bit_bf_decode [bit_simps]: "bit (bf_decode s p False w) n \<longleftrightarrow> n < s \<and> bit w (p + n)"
  by (auto simp: bf_decode_def bit_simps dest: bit_word_lt)

lemma bit_bf_encode [bit_simps]:
  "bit (bf_encode s p w) n \<longleftrightarrow> n < 64 \<and> p \<le> n \<and> n < p + s \<and> bit w (n - p)"
  by (auto simp: bf_encode_def bit_simps dest: bit_word_lt)

lemma bit_bf_update [bit_simps]:
  "bit (bf_update s p v w) n \<longleftrightarrow>
     n < 64 \<and> (if p \<le> n \<and> n < p + s then bit v (n - p) else bit w n)"
  by (auto simp: bf_update_def bf_mask_in_place_def bit_simps dest: bit_word_lt)

lemma bf_decode_update_same:
  "p + s \<le> 64 \<Longrightarrow> bf_decode s p False (bf_update s p v w) = v AND bf_mask s"
  by (rule bit_eqI) (auto simp: bit_simps dest: bit_word_lt)

lemma bf_decode_update_other:
  "p' + s' \<le> p \<or> p + s \<le> p' \<Longrightarrow> bf_decode s' p' False (bf_update s p v w) = bf_decode s' p' False w"
  by (rule bit_eqI) (auto simp: bit_simps dest: bit_word_lt)

lemma and_bf_mask_id: "unat v < 2 ^ s \<Longrightarrow> v AND bf_mask s = v"
  by (metis bf_mask_eq take_bit_eq_mask take_bit_word_self)

lemma abf_update_eq: "abf_update s p v w obs = bf_update s p v (last (w # obs))"
  by (induction obs arbitrary: w) auto

end
