(* ===== verification/ObjectHeader.thy ===== *)
theory ObjectHeader
  imports BitField HeapUtil
begin

unbundle bit_operations_syntax

text \<open>
  \<open>system/object.rs\<close>: the size tag, the header word that precedes every object, and the size
  of an object as the sweeper and the free list read it. A \<open>VTable\<close> is static data of the
  program that uses the collector: the definitions that follow a vtable pointer take the table of
  vtables as an argument.
\<close>

section \<open>Static description of a type\<close>

record VarSize =
  vs_is_varsize :: bool
  vs_should_trace :: bool
  vs_itemsize :: nat
  vs_offset_of_length :: nat
  vs_offset_of_capacity :: nat
  vs_offset_of_variable_part :: nat
  vs_has_iterate_range :: bool

record VTable =
  vt_size :: nat
  vt_is_varsize :: bool
  vt_varsize :: VarSize
  vt_destructible :: bool
  vt_ordered_finalizer :: bool

text \<open>The constants of the trait \<open>Allocation\<close> and the vtable built from them.\<close>

record AllocationConsts =
  ac_FINALIZE :: bool
  ac_DESTRUCTIBLE :: bool
  ac_SIZE :: nat
  ac_VARSIZE :: bool
  ac_VARSIZE_ITEM_SIZE :: nat
  ac_VARSIZE_OFFSETOF_LENGTH :: nat
  ac_VARSIZE_OFFSETOF_CAPACITY :: nat
  ac_VARSIZE_OFFSETOF_VARPART :: nat
  ac_NO_HEAP_PTRS :: bool
  ac_VARSIZE_NO_HEAP_PTRS :: bool

definition VT_VAL :: "AllocationConsts \<Rightarrow> VTable" where
  "VT_VAL t = \<lparr>vt_size = ac_SIZE t, vt_is_varsize = ac_VARSIZE t,
     vt_varsize = \<lparr>vs_is_varsize = ac_VARSIZE t,
       vs_should_trace = \<not> ac_VARSIZE_NO_HEAP_PTRS t,
       vs_itemsize = ac_VARSIZE_ITEM_SIZE t,
       vs_offset_of_length = ac_VARSIZE_OFFSETOF_LENGTH t,
       vs_offset_of_capacity = ac_VARSIZE_OFFSETOF_CAPACITY t,
       vs_offset_of_variable_part = ac_VARSIZE_OFFSETOF_VARPART t,
       vs_has_iterate_range = (ac_VARSIZE t \<and> \<not> ac_VARSIZE_NO_HEAP_PTRS t)\<rparr>,
     vt_destructible = ac_DESTRUCTIBLE t,
     vt_ordered_finalizer = (\<not> ac_DESTRUCTIBLE t \<and> ac_FINALIZE t)\<rparr>"

section \<open>The size tag\<close>

definition SIZE_TAG_POS :: nat where "SIZE_TAG_POS = 3"
definition SIZE_TAG_SIZE :: nat where "SIZE_TAG_SIZE = 13"
definition VTABLE_TAG_POS :: nat where "VTABLE_TAG_POS = SIZE_TAG_POS + SIZE_TAG_SIZE"
definition VTABLE_TAG_SIZE :: nat where "VTABLE_TAG_SIZE = 48"
definition NO_GC_PTRS :: nat where "NO_GC_PTRS = 0"
definition VISITED :: nat where "VISITED = 1"
definition FINALIZATION_ORDERING :: nat where "FINALIZATION_ORDERING = 2"

lemmas tag_consts = SIZE_TAG_POS_def SIZE_TAG_SIZE_def VTABLE_TAG_POS_def VTABLE_TAG_SIZE_def
  NO_GC_PTRS_def VISITED_def FINALIZATION_ORDERING_def

definition MAX_SIZE_TAG :: nat where
  "MAX_SIZE_TAG = (2 ^ SIZE_TAG_SIZE - 1) * 16"

definition size_fits :: "nat \<Rightarrow> bool" where
  "size_fits sz \<longleftrightarrow> sz \<le> MAX_SIZE_TAG"

definition size_to_tag_value :: "nat \<Rightarrow> u64" where
  "size_to_tag_value sz = (if \<not> size_fits sz then 0 else drop_bit 4 (of_nat sz))"

definition tag_value_to_size :: "u64 \<Rightarrow> nat" where
  "tag_value_to_size tag = unat (push_bit 4 tag)"

definition SizeTag_decode :: "u64 \<Rightarrow> nat" where
  "SizeTag_decode tag = tag_value_to_size (bf_decode SIZE_TAG_SIZE SIZE_TAG_POS False tag)"

definition SizeTag_encode :: "nat \<Rightarrow> u64" where
  "SizeTag_encode sz = bf_encode SIZE_TAG_SIZE SIZE_TAG_POS (size_to_tag_value sz)"

definition SizeTag_update :: "u64 \<Rightarrow> nat \<Rightarrow> u64" where
  "SizeTag_update tag sz = bf_update SIZE_TAG_SIZE SIZE_TAG_POS (size_to_tag_value sz) tag"

section \<open>The header word\<close>

definition hdr_vtable :: "u64 \<Rightarrow> nat" where
  "hdr_vtable w = unat (bf_decode VTABLE_TAG_SIZE VTABLE_TAG_POS False w)"

definition hdr_no_heap_ptrs :: "u64 \<Rightarrow> bool" where
  "hdr_no_heap_ptrs w \<longleftrightarrow> bf_decode 1 NO_GC_PTRS False w \<noteq> 0"

definition hdr_set_no_heap_ptrs :: "u64 \<Rightarrow> u64" where
  "hdr_set_no_heap_ptrs w = bf_update 1 NO_GC_PTRS 1 w"

definition hdr_finalization_ordering :: "u64 \<Rightarrow> bool" where
  "hdr_finalization_ordering w \<longleftrightarrow> bf_decode 1 FINALIZATION_ORDERING False w \<noteq> 0"

definition hdr_set_finalization_ordering :: "bool \<Rightarrow> u64 \<Rightarrow> u64" where
  "hdr_set_finalization_ordering v w = bf_update 1 FINALIZATION_ORDERING (of_bool v) w"

definition hdr_is_marked :: "u64 \<Rightarrow> bool" where
  "hdr_is_marked w \<longleftrightarrow> bf_decode 1 VISITED False w \<noteq> 0"

definition hdr_clear_marked :: "u64 \<Rightarrow> u64" where
  "hdr_clear_marked w = bf_update 1 VISITED 0 w"

definition hdr_set_marked :: "u64 \<Rightarrow> u64" where
  "hdr_set_marked w = bf_update 1 VISITED 1 w"

definition hdr_is_free :: "u64 \<Rightarrow> bool" where
  "hdr_is_free w \<longleftrightarrow> bf_decode VTABLE_TAG_SIZE VTABLE_TAG_POS False w = 0"

definition hdr_set_heap_size :: "nat \<Rightarrow> u64 \<Rightarrow> u64" where
  "hdr_set_heap_size sz w = SizeTag_update w sz"

definition hdr_set_vtable :: "nat \<Rightarrow> u64 \<Rightarrow> u64" where
  "hdr_set_vtable vt w = bf_update VTABLE_TAG_SIZE VTABLE_TAG_POS (of_nat vt) w"

definition hdr_try_mark :: "u64 \<Rightarrow> bool \<times> u64" where
  "hdr_try_mark w = (if bf_decode 1 VISITED False w \<noteq> 0 then (False, w) else (True, bf_update 1 VISITED 1 w))"

definition hdr_should_trace :: "(nat \<Rightarrow> VTable) \<Rightarrow> u64 \<Rightarrow> bool" where
  "hdr_should_trace vtab w \<longleftrightarrow> \<not> hdr_no_heap_ptrs w \<or> vs_should_trace (vt_varsize (vtab (hdr_vtable w)))"

section \<open>The size of an object in memory\<close>

text \<open>A \<open>u32\<close> field at a 4-aligned address, out of the little-endian word that holds it.\<close>

definition read_u32 :: "mem \<Rightarrow> addr \<Rightarrow> nat" where
  "read_u32 m a = unat (take_bit 32 (drop_bit (8 * (a mod 8)) (m (a - a mod 8))))"

definition data :: "addr \<Rightarrow> addr" where
  "data a = a + 8"

text \<open>\<open>Entry::heap_size\<close> of \<open>heap/free_list.rs\<close>: a free block too large for the tag keeps its
  size in the third word.\<close>

definition Entry_heap_size :: "mem \<Rightarrow> addr \<Rightarrow> nat" where
  "Entry_heap_size m a =
     (let sz = SizeTag_decode (m a) in if sz = 0 then unat (m (a + 16)) else sz)"

definition array_length :: "(nat \<Rightarrow> VTable) \<Rightarrow> mem \<Rightarrow> addr \<Rightarrow> nat" where
  "array_length vtab m a = read_u32 m (data a + vs_offset_of_length (vt_varsize (vtab (hdr_vtable (m a)))))"

definition array_capacity :: "(nat \<Rightarrow> VTable) \<Rightarrow> mem \<Rightarrow> addr \<Rightarrow> nat" where
  "array_capacity vtab m a = read_u32 m (data a + vs_offset_of_capacity (vt_varsize (vtab (hdr_vtable (m a)))))"

definition heap_size_from_vtable :: "(nat \<Rightarrow> VTable) \<Rightarrow> mem \<Rightarrow> addr \<Rightarrow> u64 \<Rightarrow> nat" where
  "heap_size_from_vtable vtab m a tags =
     (if bf_decode VTABLE_TAG_SIZE VTABLE_TAG_POS False tags = 0 then Entry_heap_size m a
      else let vt = vtab (hdr_vtable tags);
               result = vt_size vt +
                 (if vt_is_varsize vt
                  then read_u32 m (data a + vs_offset_of_capacity (vt_varsize vt)) * vs_itemsize (vt_varsize vt)
                  else 0)
           in unat (align_usize (of_nat (result + 8)) 16))"

definition heap_size :: "(nat \<Rightarrow> VTable) \<Rightarrow> mem \<Rightarrow> addr \<Rightarrow> nat" where
  "heap_size vtab m a =
     (let result = SizeTag_decode (m a) in
      if result \<noteq> 0 then result else heap_size_from_vtable vtab m a (m a))"

definition hdr_contains :: "(nat \<Rightarrow> VTable) \<Rightarrow> mem \<Rightarrow> addr \<Rightarrow> addr \<Rightarrow> bool" where
  "hdr_contains vtab m a x \<longleftrightarrow> a \<le> x \<and> x < a + heap_size vtab m a"

section \<open>Lemmas\<close>

lemma MAX_SIZE_TAG_eq: "MAX_SIZE_TAG = 131056"
  by (simp add: MAX_SIZE_TAG_def tag_consts)

lemma unat_size_to_tag_value: "unat (size_to_tag_value sz) = (if size_fits sz then sz div 16 else 0)"
proof -
  have "unat (drop_bit 4 (of_nat sz :: u64)) = sz div 16" if "sz \<le> 131056"
  proof -
    have "unat (of_nat sz :: u64) = sz"
      using that by (simp add: unat_of_nat take_bit_nat_eq_self)
    then show ?thesis by (subst unat_drop_bit_div) simp
  qed
  then show ?thesis by (simp add: size_to_tag_value_def size_fits_def MAX_SIZE_TAG_eq)
qed

lemma size_to_tag_value_mask: "size_to_tag_value sz AND bf_mask SIZE_TAG_SIZE = size_to_tag_value sz"
  by (rule and_bf_mask_id) (auto simp: unat_size_to_tag_value size_fits_def MAX_SIZE_TAG_def tag_consts)

lemma tag_value_to_size_eq: "unat t < 2 ^ 60 \<Longrightarrow> tag_value_to_size t = unat t * 16"
  unfolding tag_value_to_size_def
  by (subst unsigned_push_bit_eq) (simp add: push_bit_eq_mult take_bit_nat_eq_self)

lemma SizeTag_decode_update:
  "SizeTag_decode (SizeTag_update w sz) = (if size_fits sz then sz div 16 * 16 else 0)"
proof -
  have "unat (size_to_tag_value sz) < 2 ^ 60"
    by (auto simp: unat_size_to_tag_value size_fits_def MAX_SIZE_TAG_eq)
  moreover have "bf_decode SIZE_TAG_SIZE SIZE_TAG_POS False (SizeTag_update w sz) = size_to_tag_value sz"
    using bf_decode_update_same [of SIZE_TAG_POS SIZE_TAG_SIZE] size_to_tag_value_mask
    by (simp add: SizeTag_update_def tag_consts)
  ultimately show ?thesis
    by (simp add: SizeTag_decode_def tag_value_to_size_eq unat_size_to_tag_value)
qed

lemma SizeTag_decode_other:
  assumes "p + s \<le> SIZE_TAG_POS \<or> SIZE_TAG_POS + SIZE_TAG_SIZE \<le> p"
  shows "SizeTag_decode (bf_update s p v w) = SizeTag_decode w"
  using assms unfolding SizeTag_decode_def by (subst bf_decode_update_other) auto

lemma hdr_vtable_set: "vt < 2 ^ 48 \<Longrightarrow> hdr_vtable (hdr_set_vtable vt w) = vt"
proof -
  assume vt: "vt < 2 ^ 48"
  then have u: "unat (of_nat vt :: u64) = vt" by (simp add: unat_of_nat take_bit_nat_eq_self)
  then have "(of_nat vt :: u64) AND bf_mask 48 = of_nat vt"
    using vt by (intro and_bf_mask_id) simp
  then show ?thesis
    using u bf_decode_update_same [of 16 48 "of_nat vt" w]
    by (simp add: hdr_vtable_def hdr_set_vtable_def tag_consts)
qed

lemma hdr_is_free_iff: "hdr_is_free w \<longleftrightarrow> hdr_vtable w = 0"
  by (simp add: hdr_is_free_def hdr_vtable_def unsigned_eq_0_iff)

lemma bf_decode1_nonzero: "bf_decode 1 p False w \<noteq> 0 \<longleftrightarrow> bit w p"
proof -
  have "bf_decode 1 p False w = of_bool (bit w p)"
    by (rule bit_eqI) (auto simp: bit_simps)
  then show ?thesis by simp
qed

lemma hdr_flags_bit:
  "hdr_no_heap_ptrs w \<longleftrightarrow> bit w 0" "hdr_is_marked w \<longleftrightarrow> bit w 1" "hdr_finalization_ordering w \<longleftrightarrow> bit w 2"
  by (simp_all add: hdr_no_heap_ptrs_def hdr_is_marked_def hdr_finalization_ordering_def
      bf_decode1_nonzero [simplified] tag_consts bf_decode1_nonzero)

end
