(* ===== verification/FreeListModel.thy ===== *)
theory FreeListModel
  imports ObjectHeader "HOL-Library.Multiset"
begin

unbundle bit_operations_syntax

text \<open>
  \<open>heap/free_list.rs\<close>: the segregated free list of a region. Bucket \<open>i\<close> is a singly linked list
  of free blocks of size \<open>2^i \<le> s < 2^(i+1)\<close>; the links are stored in the free memory itself, so
  every operation takes and returns the memory. A null pointer is 0. The representation predicate
  \<open>fl_rep\<close> relates the heads, tails and links to abstract buckets of blocks, and every operation is
  shown to implement the corresponding operation on buckets.
\<close>

section \<open>State and operations\<close>

record FreeList =
  free_list_heads :: "addr list"
  free_list_tails :: "addr list"
  biggest_free_list_index :: nat
  fl_count :: nat
  fl_free_bytes :: nat

definition bucket_index_for_size :: "nat \<Rightarrow> nat res" where
  "bucket_index_for_size sz =
     rbind (round_down_to_power_of_two32 (sz mod 2 ^ 32)) (\<lambda>r. Inr (which_power_of_two r))"

definition Filler_new :: "mem \<Rightarrow> addr \<Rightarrow> nat \<Rightarrow> mem" where
  "Filler_new m loc sz = m(loc := hdr_set_heap_size sz (hdr_set_vtable 0 (m loc)))"

definition FreeList_new :: "nat \<Rightarrow> FreeList" where
  "FreeList_new region_size_log2 =
     \<lparr>free_list_heads = replicate (region_size_log2 + 1) 0,
      free_list_tails = replicate (region_size_log2 + 1) 0,
      biggest_free_list_index = 0, fl_count = 0, fl_free_bytes = 0\<rparr>"

text \<open>\<open>Entry\<close>: the tags are at offset 0, \<open>next\<close> at offset 8, the size of a large block at offset 16.\<close>

definition entry_next :: "mem \<Rightarrow> addr \<Rightarrow> addr" where
  "entry_next m e = unat (m (e + 8))"

definition size_address :: "addr \<Rightarrow> addr" where
  "size_address e = e + 8 + 8"

definition as_entry :: "mem \<Rightarrow> addr \<Rightarrow> nat \<Rightarrow> mem res" where
  "as_entry m a sz =
     (let tags = bf_update VTABLE_TAG_SIZE VTABLE_TAG_POS 0 (SizeTag_update 0 sz);
          m = m(a := tags);
          m = m(a + 8 := 0);
          m = (if sz > MAX_SIZE_TAG then m(size_address a := of_nat sz) else m);
          m = m(a + 8 := 0)
      in if Entry_heap_size m a \<noteq> 0 then Inr m else Inl AssertFailed)"

definition header_size_for :: "nat \<Rightarrow> nat" where
  "header_size_for sz = (if sz = 0 then 0 else (if sz \<ge> MAX_SIZE_TAG then 3 else 2) * 8)"

text \<open>\<open>link\<close> and \<open>unlink\<close> update the previous pointer (a list head) and the entry's \<open>next\<close>.\<close>

definition entry_link :: "mem \<Rightarrow> addr \<Rightarrow> addr \<Rightarrow> addr \<times> mem" where
  "entry_link m e prev = (e, m(e + 8 := of_nat prev))"

definition entry_unlink :: "mem \<Rightarrow> addr \<Rightarrow> addr \<times> mem" where
  "entry_unlink m e = (entry_next m e, m(e + 8 := 0))"

definition fl_add_returning_unused_bounds ::
  "FreeList \<Rightarrow> mem \<Rightarrow> addr \<Rightarrow> nat \<Rightarrow> ((addr \<times> addr) \<times> FreeList \<times> mem) res" where
  "fl_add_returning_unused_bounds fl m a sz =
     (if sz = 0 then Inl AssertFailed
      else if sz < 16 then Inr ((a + 8, a + 8), fl, Filler_new m a sz)
      else rbind (as_entry m a sz) (\<lambda>m.
           rbind (bucket_index_for_size sz) (\<lambda>index.
             if index \<ge> length (free_list_heads fl) then Inl IndexOutOfBounds
             else
               let (h, m) = entry_link m a (free_list_heads fl ! index);
                   fl = fl\<lparr>free_list_heads := (free_list_heads fl)[index := h],
                           biggest_free_list_index := max (biggest_free_list_index fl) index\<rparr>;
                   fl = (if entry_next m a = 0 then fl\<lparr>free_list_tails := (free_list_tails fl)[index := a]\<rparr> else fl);
                   fl = fl\<lparr>fl_count := fl_count fl + 1, fl_free_bytes := fl_free_bytes fl + sz\<rparr>
               in Inr ((a + 16, a + sz), fl, m))))"

definition fl_add :: "FreeList \<Rightarrow> mem \<Rightarrow> addr \<Rightarrow> nat \<Rightarrow> (FreeList \<times> mem) res" where
  "fl_add fl m a sz = rbind (fl_add_returning_unused_bounds fl m a sz) (\<lambda>(_, fl, m). Inr (fl, m))"

definition fl_clear :: "FreeList \<Rightarrow> FreeList" where
  "fl_clear fl = fl\<lparr>fl_free_bytes := 0, fl_count := 0, biggest_free_list_index := 0,
     free_list_heads := map (\<lambda>_. 0) (free_list_heads fl), free_list_tails := map (\<lambda>_. 0) (free_list_tails fl)\<rparr>"

text \<open>The loop of \<open>append\<close>, from index \<open>i\<close> on; the two lists and the memory are threaded through.\<close>

fun fl_append_loop :: "nat list \<Rightarrow> FreeList \<Rightarrow> FreeList \<Rightarrow> mem \<Rightarrow> FreeList \<times> FreeList \<times> mem" where
  "fl_append_loop [] fl ot m = (fl, ot, m)"
| "fl_append_loop (i # is) fl ot m =
     (let other_tail = free_list_tails ot ! i; this_head = free_list_heads fl ! i in
      if other_tail \<noteq> 0 then
        let m = m(other_tail + 8 := of_nat this_head);
            fl = (if this_head = 0 then fl\<lparr>free_list_tails := (free_list_tails fl)[i := other_tail]\<rparr> else fl);
            fl = fl\<lparr>free_list_heads := (free_list_heads fl)[i := free_list_heads ot ! i]\<rparr>;
            ot = ot\<lparr>free_list_heads := (free_list_heads ot)[i := 0], free_list_tails := (free_list_tails ot)[i := 0]\<rparr>
        in fl_append_loop is fl ot m
      else fl_append_loop is fl ot m)"

definition fl_append :: "FreeList \<Rightarrow> FreeList \<Rightarrow> mem \<Rightarrow> FreeList \<times> FreeList \<times> mem" where
  "fl_append fl ot m =
     (let (fl, ot, m) = fl_append_loop [0..<length (free_list_tails fl)] fl ot m;
          fl = fl\<lparr>fl_count := fl_count fl + fl_count ot, fl_free_bytes := fl_free_bytes fl + fl_free_bytes ot,
                  biggest_free_list_index := max (biggest_free_list_index fl) (biggest_free_list_index ot)\<rparr>
      in (fl, ot, m))"

definition fl_is_consistent :: "FreeList \<Rightarrow> mem \<Rightarrow> nat \<Rightarrow> bool" where
  "fl_is_consistent fl m i \<longleftrightarrow>
     (free_list_heads fl ! i = 0 \<and> free_list_tails fl ! i = 0) \<or>
     (free_list_heads fl ! i \<noteq> 0 \<and> free_list_tails fl ! i \<noteq> 0 \<and> entry_next m (free_list_tails fl ! i) = 0)"

text \<open>The loop of \<open>allocate\<close>; a null result is \<open>None\<close>. A failed \<open>debug_assert!\<close>, an index out of
  range and an underflow of the counters are panics.\<close>

fun fl_allocate_loop ::
  "FreeList \<Rightarrow> mem \<Rightarrow> nat \<Rightarrow> nat \<Rightarrow> nat \<Rightarrow> ((addr \<times> nat) option \<times> FreeList \<times> mem) res" where
  "fl_allocate_loop fl m allocation_size 0 bucket_size =
     Inr (None, fl\<lparr>biggest_free_list_index := 0\<rparr>, m)"
| "fl_allocate_loop fl m allocation_size (Suc k) bucket_size =
     (let index = Suc k in
      if index \<ge> length (free_list_heads fl) then Inl IndexOutOfBounds
      else if \<not> fl_is_consistent fl m index then Inl AssertFailed
      else
        let entry = free_list_heads fl ! index in
        if allocation_size > bucket_size \<and> (entry = 0 \<or> Entry_heap_size m entry < allocation_size)
        then Inr (None, fl\<lparr>biggest_free_list_index := index\<rparr>, m)
        else if entry \<noteq> 0 then
          let fl = (if entry_next m entry = 0 then fl\<lparr>free_list_tails := (free_list_tails fl)[index := 0]\<rparr> else fl);
              (h, m) = entry_unlink m entry;
              fl = fl\<lparr>free_list_heads := (free_list_heads fl)[index := h], biggest_free_list_index := index\<rparr>
          in rbind (checked_sub (fl_free_bytes fl) (Entry_heap_size m entry)) (\<lambda>fb.
             rbind (checked_sub (fl_count fl) 1) (\<lambda>c.
               Inr (Some (entry, Entry_heap_size m entry), fl\<lparr>fl_free_bytes := fb, fl_count := c\<rparr>, m)))
        else fl_allocate_loop fl m allocation_size k (bucket_size div 2))"

definition fl_allocate :: "FreeList \<Rightarrow> mem \<Rightarrow> nat \<Rightarrow> ((addr \<times> nat) option \<times> FreeList \<times> mem) res" where
  "fl_allocate fl m allocation_size =
     fl_allocate_loop fl m allocation_size (biggest_free_list_index fl) (2 ^ biggest_free_list_index fl)"

definition fl_peek_free :: "FreeList \<Rightarrow> mem \<Rightarrow> nat res" where
  "fl_peek_free fl m =
     (let index = biggest_free_list_index fl in
      if index > 0 then
        if index \<ge> length (free_list_heads fl) then Inl IndexOutOfBounds
        else let entry = free_list_heads fl ! index in
             Inr (if entry \<noteq> 0 then Entry_heap_size m entry else 0)
      else Inr 0)"

text \<open>\<open>external_fragmentation\<close> divides the largest block by the total; the scan that finds the two
  follows the links, with the number of blocks as fuel.\<close>

fun frag_scan :: "nat \<Rightarrow> mem \<Rightarrow> addr \<Rightarrow> nat \<times> nat \<Rightarrow> nat \<times> nat" where
  "frag_scan 0 m e (largest, tot) = (largest, tot)"
| "frag_scan (Suc fuel) m e (largest, tot) =
     (if e = 0 then (largest, tot)
      else let sz = Entry_heap_size m e in frag_scan fuel m (entry_next m e) (max largest sz, tot + sz))"

definition external_fragmentation_parts :: "FreeList \<Rightarrow> mem \<Rightarrow> nat \<times> nat" where
  "external_fragmentation_parts fl m =
     fold (\<lambda>i acc. frag_scan (Suc (fl_count fl)) m (free_list_heads fl ! i) acc)
       [0..<length (free_list_heads fl)] (0, 0)"

section \<open>Representation\<close>

type_synonym block = "addr \<times> nat"
type_synonym buckets = "block list list"

definition entry_at :: "mem \<Rightarrow> addr \<Rightarrow> nat \<Rightarrow> bool" where
  "entry_at m a s \<longleftrightarrow> SizeTag_decode (m a) = (if size_fits s then s else 0) \<and>
     (\<not> size_fits s \<longrightarrow> unat (m (size_address a)) = s)"

fun chain :: "mem \<Rightarrow> addr \<Rightarrow> block list \<Rightarrow> bool" where
  "chain m p [] \<longleftrightarrow> p = 0"
| "chain m p ((a, s) # bs) \<longleftrightarrow> p = a \<and> a \<noteq> 0 \<and> entry_at m a s \<and> chain m (entry_next m a) bs"

definition block_ok :: "nat \<Rightarrow> block \<Rightarrow> bool" where
  "block_ok i b \<longleftrightarrow> 0 < fst b \<and> fst b + snd b < 2 ^ 64 \<and> fst b mod 8 = 0 \<and> 16 dvd snd b \<and>
     2 ^ i \<le> snd b \<and> snd b < 2 ^ Suc i \<and> 16 \<le> snd b"

definition block_bytes :: "block \<Rightarrow> addr set" where
  "block_bytes b = {fst b ..< fst b + snd b}"

fun disjoint_blocks :: "block list \<Rightarrow> bool" where
  "disjoint_blocks [] \<longleftrightarrow> True"
| "disjoint_blocks (b # bs) \<longleftrightarrow> (\<forall>c \<in> set bs. block_bytes b \<inter> block_bytes c = {}) \<and> disjoint_blocks bs"

definition all_blocks :: "buckets \<Rightarrow> block list" where
  "all_blocks bss = concat bss"

definition bucket_rep :: "mem \<Rightarrow> nat \<Rightarrow> nat \<Rightarrow> addr \<Rightarrow> addr \<Rightarrow> block list \<Rightarrow> bool" where
  "bucket_rep m biggest i h t bs \<longleftrightarrow> chain m h bs \<and> t = (if bs = [] then 0 else fst (last bs)) \<and>
     (\<forall>b \<in> set bs. block_ok i b) \<and> (biggest < i \<longrightarrow> bs = [])"

definition fl_rep :: "FreeList \<Rightarrow> mem \<Rightarrow> buckets \<Rightarrow> bool" where
  "fl_rep fl m bss \<longleftrightarrow>
     length (free_list_heads fl) = length bss \<and> length (free_list_tails fl) = length bss \<and>
     length bss \<le> 32 \<and> biggest_free_list_index fl < length bss \<and>
     (\<forall>i < length bss.
        bucket_rep m (biggest_free_list_index fl) i (free_list_heads fl ! i) (free_list_tails fl ! i) (bss ! i)) \<and>
     disjoint_blocks (all_blocks bss) \<and>
     fl_count fl = length (all_blocks bss) \<and> fl_free_bytes fl = sum_list (map snd (all_blocks bss))"

section \<open>Entries and chains\<close>

lemma Entry_heap_size_at: "entry_at m a s \<Longrightarrow> 0 < s \<Longrightarrow> Entry_heap_size m a = s"
  by (auto simp: entry_at_def Entry_heap_size_def size_address_def add.commute)

lemma bucket_index_for_size_eq:
  assumes "2 ^ i \<le> s" "s < 2 ^ Suc i" "i < 32"
  shows "bucket_index_for_size s = Inr i"
proof -
  have "(2::nat) ^ Suc i \<le> 2 ^ 32" using assms(3) by (intro power_increasing) auto
  then have s: "s < 2 ^ 32" using assms(2) by linarith
  have "0 < s" using assms(1) by (metis gr0I not_less zero_less_numeral zero_less_power)
  then show ?thesis
    using s bit_length_eq [OF assms(1,2)]
    by (simp add: bucket_index_for_size_def round_down_to_power_of_two32_eq which_power_of_two_def trailing_zeros_pow2)
qed

lemma as_entry_ok:
  assumes "16 \<le> s" "16 dvd s" "s < 2 ^ 64"
  obtains m' where "as_entry m a s = Inr m'" "entry_at m' a s" "entry_next m' a = 0"
    "\<And>x. x \<notin> block_bytes (a, s) \<Longrightarrow> m' x = m x"
proof -
  define tags where "tags = bf_update VTABLE_TAG_SIZE VTABLE_TAG_POS 0 (SizeTag_update 0 s)"
  define m' where "m' = (let m = m(a := tags, a + 8 := 0);
     m = (if s > MAX_SIZE_TAG then m(size_address a := of_nat s) else m) in m(a + 8 := 0))"
  have tag: "SizeTag_decode tags = (if size_fits s then s else 0)"
    unfolding tags_def using assms(2)
    by (subst SizeTag_decode_other) (auto simp: tag_consts SizeTag_decode_update)
  have at: "entry_at m' a s"
    using assms tag by (auto simp: entry_at_def m'_def size_address_def size_fits_def Let_def unat_of_nat take_bit_nat_eq_self)
  have "as_entry m a s = Inr m'"
    using Entry_heap_size_at [OF at] assms(1) unfolding as_entry_def m'_def tags_def Let_def by simp
  moreover have "m' x = m x" if "x \<notin> block_bytes (a, s)" for x
    using that assms(1) by (auto simp: m'_def block_bytes_def Let_def size_address_def MAX_SIZE_TAG_eq)
  ultimately show thesis using that at by (auto simp: m'_def entry_next_def Let_def)
qed

lemma entry_at_frame:
  assumes "16 \<le> s" "\<forall>x \<in> block_bytes (a, s). m' x = m x"
  shows "entry_at m' a s = entry_at m a s" "entry_next m' a = entry_next m a"
  using assms by (auto simp: entry_at_def entry_next_def block_bytes_def size_address_def size_fits_def MAX_SIZE_TAG_eq)

lemma chain_frame:
  assumes "\<forall>b \<in> set bs. 16 \<le> snd b \<and> (\<forall>x \<in> block_bytes b. m' x = m x)"
  shows "chain m' p bs = chain m p bs"
  using assms
proof (induction bs arbitrary: p)
  case (Cons b bs)
  obtain a s where b: "b = (a, s)" by fastforce
  with Cons.prems have "16 \<le> s" "\<forall>x \<in> block_bytes (a, s). m' x = m x" by auto
  then show ?case
    using Cons by (simp add: b entry_at_frame [of s a m' m])
qed simp

lemma chain_last_next:
  "chain m p bs \<Longrightarrow> bs \<noteq> [] \<Longrightarrow> p = fst (hd bs) \<and> p \<noteq> 0 \<and> fst (last bs) \<noteq> 0 \<and> entry_next m (fst (last bs)) = 0"
proof (induction bs arbitrary: p)
  case (Cons b bs)
  then show ?case by (cases b; cases bs) auto
qed simp

lemma chain_null: "chain m 0 bs \<Longrightarrow> bs = []"
  by (cases bs) auto

lemma disjoint_blocks_append [simp]:
  "disjoint_blocks (xs @ ys) \<longleftrightarrow> disjoint_blocks xs \<and> disjoint_blocks ys \<and>
     (\<forall>x \<in> set xs. \<forall>y \<in> set ys. block_bytes x \<inter> block_bytes y = {})"
  by (induction xs) auto

lemma disjoint_blocks_perm: "mset xs = mset ys \<Longrightarrow> disjoint_blocks xs \<Longrightarrow> disjoint_blocks ys"
proof (induction xs arbitrary: ys)
  case (Cons x xs)
  then have "x \<in> set ys" by (metis list.set_intros(1) set_mset_mset)
  then obtain us vs where ys: "ys = us @ x # vs" by (meson split_list)
  with Cons.prems have m: "mset xs = mset (us @ vs)" by simp
  then have "disjoint_blocks (us @ vs)" using Cons.IH [OF m] Cons.prems(2) by simp
  moreover have "set xs = set (us @ vs)" using m by (rule mset_eq_setD)
  ultimately show ?case using Cons.prems(2) unfolding ys by (auto simp: Int_commute)
qed simp

lemma block_bytes_next: "16 \<le> snd b \<Longrightarrow> fst b + 8 \<in> block_bytes b"
  by (simp add: block_bytes_def)

text \<open>A write to the link of a block outside a chain leaves the chain alone; a write to the last
  link of a chain joins another chain to it.\<close>

lemma chain_write_other:
  assumes "\<forall>b \<in> set bs. 16 \<le> snd b \<and> block_bytes l \<inter> block_bytes b = {}" "16 \<le> snd l"
  shows "chain (m(fst l + 8 := v)) p bs = chain m p bs"
  using assms block_bytes_next [of l] by (intro chain_frame) auto

lemma chain_append:
  assumes "chain m p xs" "xs \<noteq> []" "chain m q ys" "\<forall>b \<in> set (xs @ ys). 16 \<le> snd b" "q < 2 ^ 64"
    "disjoint_blocks (xs @ ys)" "m' = m(fst (last xs) + 8 := of_nat q)"
  shows "chain m' p (xs @ ys)"
  using assms
proof (induction xs arbitrary: p)
  case (Cons b xs)
  obtain a s where b: "b = (a, s)" by fastforce
  show ?case
  proof (cases "xs = []")
    case True
    have "last (b # xs) = (a, s)" using True b by simp
    then have m': "m' = m(a + 8 := of_nat q)" using Cons.prems(7) by (simp only: fst_conv)
    have "chain m' q ys"
      using Cons.prems True chain_write_other [of ys b m "of_nat q" q] b m' by auto
    moreover have "entry_at m' a s = entry_at m a s" "entry_next m' a = q"
      using Cons.prems(5)
      by (auto simp: m' entry_at_def entry_next_def size_address_def unat_of_nat take_bit_nat_eq_self)
    ultimately show ?thesis using Cons.prems(1) True b by simp
  next
    case False
    have l: "last xs \<in> set xs" using False by simp
    have "fst (last xs) + 8 \<in> block_bytes (last xs)"
      using Cons.prems(4) l by (intro block_bytes_next) auto
    moreover have "block_bytes (a, s) \<inter> block_bytes (last xs) = {}"
      using Cons.prems(6) l b by simp
    moreover have lx: "last (b # xs) = last xs" using False by simp
    ultimately have fr: "\<forall>x \<in> block_bytes (a, s). m' x = m x"
      unfolding Cons.prems(7) by auto
    have "chain m' (entry_next m a) (xs @ ys)"
      using Cons.prems False b by (intro Cons.IH [OF _ _ _ _ _ _ Cons.prems(7) [unfolded lx]]) auto
    then show ?thesis
      using Cons.prems(1,4) b entry_at_frame [OF _ fr] by simp
  qed
qed simp

text \<open>Replacing one bucket.\<close>

lemma mset_all_blocks_update:
  "i < length bss \<Longrightarrow> mset (all_blocks (bss[i := xs])) + mset (bss ! i) = mset (all_blocks bss) + mset xs"
  unfolding all_blocks_def
proof (induction bss arbitrary: i)
  case (Cons b bss)
  then show ?case by (cases i) (auto simp: ac_simps)
qed simp

lemma all_blocks_insert:
  "i < length bss \<Longrightarrow> mset (all_blocks (bss[i := b # bss ! i])) = add_mset b (mset (all_blocks bss))"
  using mset_all_blocks_update [of i bss "b # bss ! i"] by simp

lemma all_blocks_remove:
  "i < length bss \<Longrightarrow> bss ! i = b # bs \<Longrightarrow> mset (all_blocks bss) = add_mset b (mset (all_blocks (bss[i := bs])))"
  using mset_all_blocks_update [of i bss bs] by simp

lemma sum_blocks_mset: "mset xs = mset ys \<Longrightarrow> sum_list (map snd xs) = sum_list (map snd (ys :: block list))"
  by (metis mset_map sum_mset_sum_list)

lemma in_all_blocks: "i < length bss \<Longrightarrow> b \<in> set (bss ! i) \<Longrightarrow> b \<in> set (all_blocks bss)"
  by (auto simp: all_blocks_def)

lemma disjoint_buckets:
  assumes "disjoint_blocks (all_blocks bss)" "i < length bss" "j < length bss" "i \<noteq> j"
    "b \<in> set (bss ! i)" "c \<in> set (bss ! j)"
  shows "block_bytes b \<inter> block_bytes c = {}"
  using assms unfolding all_blocks_def
proof (induction bss arbitrary: i j)
  case (Cons bs bss)
  have "block_bytes x \<inter> block_bytes y = {}" if "x \<in> set bs" "y \<in> set (bss ! k)" "k < length bss" for x y k
    using Cons.prems(1) that nth_mem [of k bss] by (fastforce simp del: disjoint_iff)
  note d = this
  then show ?case
  proof (cases i)
    case 0
    then show ?thesis using Cons.prems d by (cases j) auto
  next
    case (Suc k)
    show ?thesis
    proof (cases j)
      case 0
      then show ?thesis using Cons.prems d [of c b k] Suc by (simp add: Int_commute)
    next
      case (Suc l)
      then show ?thesis using Cons.IH [of k l] Cons.prems \<open>i = Suc k\<close> by simp
    qed
  qed
qed simp

lemma disjoint_bucket: "disjoint_blocks (all_blocks bss) \<Longrightarrow> i < length bss \<Longrightarrow> disjoint_blocks (bss ! i)"
  unfolding all_blocks_def by (induction bss arbitrary: i) (auto simp: nth_Cons split: nat.splits)


section \<open>Refinement of the operations\<close>

lemma block_ok_sizeD: "block_ok i b \<Longrightarrow> 16 \<le> snd b" "block_ok i b \<Longrightarrow> 0 < snd b"
  by (auto simp: block_ok_def)

lemma bucket_rep_frame:
  assumes "bucket_rep m big i h t bs" "\<forall>b \<in> set bs. \<forall>x \<in> block_bytes b. m' x = m x" "big \<le> big'"
  shows "bucket_rep m' big' i h t bs"
proof -
  have "\<forall>b \<in> set bs. 16 \<le> snd b \<and> (\<forall>x \<in> block_bytes b. m' x = m x)"
    using assms by (auto simp: bucket_rep_def block_ok_def)
  then have "chain m' h bs = chain m h bs" by (rule chain_frame)
  then show ?thesis using assms by (auto simp: bucket_rep_def)
qed

lemma bucket_rep_null: "bucket_rep m big i h t bs \<Longrightarrow> (h = 0 \<longleftrightarrow> bs = []) \<and> (t = 0 \<longleftrightarrow> bs = [])"
  using chain_last_next [of m h bs] by (cases bs) (auto simp: bucket_rep_def)

lemma fl_rep_consistent: "fl_rep fl m bss \<Longrightarrow> i < length bss \<Longrightarrow> fl_is_consistent fl m i"
  using chain_last_next [of m "free_list_heads fl ! i" "bss ! i"]
  by (auto simp: fl_rep_def fl_is_consistent_def bucket_rep_def dest: chain_null split: if_splits)

lemma bucket_rep_replicate: "bucket_rep m big i 0 0 []"
  by (simp add: bucket_rep_def)

lemma fl_rep_new: "l < 32 \<Longrightarrow> fl_rep (FreeList_new l) m (replicate (l + 1) [])"
  by (simp add: fl_rep_def FreeList_new_def bucket_rep_def all_blocks_def del: replicate_Suc)

lemma fl_rep_clear: "fl_rep fl m bss \<Longrightarrow> fl_rep (fl_clear fl) m (replicate (length bss) [])"
  by (auto simp: fl_rep_def fl_clear_def bucket_rep_def all_blocks_def)

definition fresh_block :: "buckets \<Rightarrow> block \<Rightarrow> bool" where
  "fresh_block bss b \<longleftrightarrow> 0 < fst b \<and> fst b + snd b < 2 ^ 64 \<and> fst b mod 8 = 0 \<and> 16 dvd snd b \<and> 16 \<le> snd b \<and>
     snd b < 2 ^ length bss \<and> (\<forall>c \<in> set (all_blocks bss). block_bytes b \<inter> block_bytes c = {})"

lemma bucket_of_size:
  assumes "0 < (s::nat)" "s < 2 ^ n"
  obtains i where "i < n" "2 ^ i \<le> s" "s < 2 ^ Suc i"
proof -
  have "bit_length s \<le> n" "0 < bit_length s" using assms by (simp_all add: bit_length_le bit_length_pos)
  then show thesis using bit_length_bounds [OF assms(1)] that [of "bit_length s - 1"] by auto
qed

lemma fl_add_rep:
  assumes rep: "fl_rep fl m bss" and fr: "fresh_block bss (a, s)"
  shows "\<exists>i fl' m'. i < length bss \<and> 2 ^ i \<le> s \<and> s < 2 ^ Suc i \<and>
    fl_add_returning_unused_bounds fl m a s = Inr ((a + 16, a + s), fl', m') \<and>
    fl_rep fl' m' (bss[i := (a, s) # bss ! i]) \<and> (\<forall>x. x \<notin> block_bytes (a, s) \<longrightarrow> m' x = m x)"
proof -
  from fr have s: "0 < a" "a + s < 2 ^ 64" "a mod 8 = 0" "16 dvd s" "16 \<le> s" "s < 2 ^ length bss"
    and dj: "\<forall>c \<in> set (all_blocks bss). block_bytes (a, s) \<inter> block_bytes c = {}"
    by (auto simp: fresh_block_def)
  obtain i where i: "i < length bss" "2 ^ i \<le> s" "s < 2 ^ Suc i"
    using bucket_of_size [of s "length bss"] s by auto
  have "length bss \<le> 32" and len: "length (free_list_heads fl) = length bss" "length (free_list_tails fl) = length bss"
    using rep by (auto simp: fl_rep_def)
  then have idx: "bucket_index_for_size s = Inr i" using i by (intro bucket_index_for_size_eq) auto
  obtain m1 where m1: "as_entry m a s = Inr m1" "entry_at m1 a s" "entry_next m1 a = 0"
    "\<And>x. x \<notin> block_bytes (a, s) \<Longrightarrow> m1 x = m x"
    using as_entry_ok [of s m a] s by auto
  define h where "h = free_list_heads fl ! i"
  define m2 where "m2 = m1(a + 8 := of_nat h)"
  have bi: "bucket_rep m (biggest_free_list_index fl) i h (free_list_tails fl ! i) (bss ! i)"
    using rep i(1) by (auto simp: fl_rep_def h_def)
  have h64: "h < 2 ^ 64"
  proof (cases "bss ! i")
    case Nil then show ?thesis using bucket_rep_null [OF bi] by simp
  next
    case (Cons b bs)
    then have "block_ok i b" "h = fst b" using bi by (cases b; auto simp: bucket_rep_def)+
    then show ?thesis by (auto simp: block_ok_def)
  qed
  have fr2: "m2 x = m x" if "x \<notin> block_bytes (a, s)" for x
    using that m1(4) s(5) block_bytes_next [of "(a, s)"] by (auto simp: m2_def)
  have at: "entry_at m2 a s" "entry_next m2 a = h"
    using m1(2) h64 by (auto simp: m2_def entry_at_def entry_next_def size_address_def unat_of_nat take_bit_nat_eq_self)
  define fl' where "fl' = fl\<lparr>free_list_heads := (free_list_heads fl)[i := a],
     biggest_free_list_index := max (biggest_free_list_index fl) i,
     free_list_tails := (if h = 0 then (free_list_tails fl)[i := a] else free_list_tails fl),
     fl_count := fl_count fl + 1, fl_free_bytes := fl_free_bytes fl + s\<rparr>"
  have "fl_add_returning_unused_bounds fl m a s = Inr ((a + 16, a + s), fl', m2)"
    using s(5) m1(1) idx i(1) len at(2)
    by (auto simp: fl_add_returning_unused_bounds_def entry_link_def Let_def fl'_def m2_def h_def)
  moreover have "fl_rep fl' m2 (bss[i := (a, s) # bss ! i])"
  proof -
    have keep: "bucket_rep m2 (max (biggest_free_list_index fl) i) j (free_list_heads fl ! j) (free_list_tails fl ! j) (bss ! j)"
      if "j < length bss" for j
    proof (rule bucket_rep_frame [of m "biggest_free_list_index fl"])
      show "bucket_rep m (biggest_free_list_index fl) j (free_list_heads fl ! j) (free_list_tails fl ! j) (bss ! j)"
        using rep that by (auto simp: fl_rep_def)
      show "\<forall>b \<in> set (bss ! j). \<forall>x \<in> block_bytes b. m2 x = m x"
        using dj in_all_blocks [OF that] fr2 by blast
    qed simp
    have new: "bucket_rep m2 (max (biggest_free_list_index fl) i) i a
        (if h = 0 then a else free_list_tails fl ! i) ((a, s) # bss ! i)"
      using keep [OF i(1)] at s i bucket_rep_null [OF bi]
      by (auto simp: bucket_rep_def block_ok_def h_def [symmetric] split: if_splits)
    have perm: "mset (all_blocks (bss[i := (a, s) # bss ! i])) = mset ((a, s) # all_blocks bss)"
      using all_blocks_insert [OF i(1)] by simp
    have "disjoint_blocks (all_blocks (bss[i := (a, s) # bss ! i]))"
      using rep dj by (intro disjoint_blocks_perm [OF perm [symmetric]]) (auto simp: fl_rep_def)
    moreover have "length (all_blocks (bss[i := (a, s) # bss ! i])) = Suc (length (all_blocks bss))"
      using mset_eq_length [OF perm] by simp
    moreover have "sum_list (map snd (all_blocks (bss[i := (a, s) # bss ! i]))) = s + sum_list (map snd (all_blocks bss))"
      using sum_blocks_mset [OF perm] by simp
    ultimately show ?thesis
      using rep new keep i(1) len by (auto simp: fl_rep_def fl'_def nth_list_update)
  qed
  ultimately show ?thesis using i fr2 by blast
qed


lemma fl_rep_set_biggest:
  assumes "fl_rep fl m bss" "k < length bss" "\<forall>j. k < j \<longrightarrow> j < length bss \<longrightarrow> bss ! j = []"
  shows "fl_rep (fl\<lparr>biggest_free_list_index := k\<rparr>) m bss"
  using assms by (auto simp: fl_rep_def bucket_rep_def)

lemma fl_rep_blocks_below:
  assumes "fl_rep fl m bss" "\<forall>j. k < j \<longrightarrow> j < length bss \<longrightarrow> bss ! j = []" "b \<in> set (all_blocks bss)"
  shows "snd b < 2 ^ Suc k" "16 \<le> snd b"
proof -
  from assms(3) obtain i where i: "i < length bss" "b \<in> set (bss ! i)"
    unfolding all_blocks_def set_concat by (metis UN_E in_set_conv_nth)
  with assms have "i \<le> k" "block_ok i b" by (auto simp: fl_rep_def bucket_rep_def not_less [symmetric])
  then show "16 \<le> snd b" by (auto simp: block_ok_def)
  have "snd b < 2 ^ Suc i" using \<open>block_ok i b\<close> by (auto simp: block_ok_def)
  also have "(2::nat) ^ Suc i \<le> 2 ^ Suc k" using \<open>i \<le> k\<close> by (intro power_increasing) auto
  finally show "snd b < 2 ^ Suc k" .
qed

text \<open>Unlinking the first block of bucket \<open>i\<close>, all larger buckets being empty.\<close>

lemma fl_unlink_rep:
  assumes rep: "fl_rep fl m bss" and i: "i < length bss" and b: "bss ! i = (a, s) # bs"
    and top: "\<forall>j. i < j \<longrightarrow> j < length bss \<longrightarrow> bss ! j = []"
  defines "fl1 \<equiv> (if entry_next m a = 0 then fl\<lparr>free_list_tails := (free_list_tails fl)[i := 0]\<rparr> else fl)"
  shows "free_list_heads fl ! i = a" "a \<noteq> 0" "Entry_heap_size m a = s" "Entry_heap_size (snd (entry_unlink m a)) a = s"
    "s \<le> fl_free_bytes fl" "1 \<le> fl_count fl"
    "fl_rep (fl1\<lparr>free_list_heads := (free_list_heads fl1)[i := fst (entry_unlink m a)], biggest_free_list_index := i,
        fl_free_bytes := fl_free_bytes fl - s, fl_count := fl_count fl - 1\<rparr>) (snd (entry_unlink m a)) (bss[i := bs])"
proof -
  define m' where "m' = snd (entry_unlink m a)"
  have bi: "bucket_rep m (biggest_free_list_index fl) i (free_list_heads fl ! i) (free_list_tails fl ! i) ((a, s) # bs)"
    using rep i b by (metis fl_rep_def)
  then have c: "free_list_heads fl ! i = a" "a \<noteq> 0" "entry_at m a s" "chain m (entry_next m a) bs"
    and ok: "block_ok i (a, s)" "\<forall>b \<in> set bs. block_ok i b" by (auto simp: bucket_rep_def)
  show "free_list_heads fl ! i = a" "a \<noteq> 0" by (fact c)+
  show "Entry_heap_size m a = s" using c(3) ok(1) by (auto simp: block_ok_def intro: Entry_heap_size_at)
  have "entry_at m' a s" using c(3) by (auto simp: m'_def entry_unlink_def entry_at_def size_address_def)
  then show "Entry_heap_size (snd (entry_unlink m a)) a = s"
    using ok(1) by (auto simp: block_ok_def m'_def intro: Entry_heap_size_at)
  have perm: "mset (all_blocks bss) = mset ((a, s) # all_blocks (bss[i := bs]))"
    using all_blocks_remove [OF i b] by simp
  note cnt = mset_eq_length [OF perm] sum_blocks_mset [OF perm]
  then show "s \<le> fl_free_bytes fl" "1 \<le> fl_count fl" using rep by (auto simp: fl_rep_def)
  have dj: "disjoint_blocks ((a, s) # all_blocks (bss[i := bs]))"
    using rep by (intro disjoint_blocks_perm [OF perm]) (auto simp: fl_rep_def)
  have fr: "m' x = m x" if "x \<notin> block_bytes (a, s)" for x
    using that block_bytes_next [of "(a, s)"] ok(1) by (auto simp: m'_def entry_unlink_def block_ok_def)
  have out: "m' x = m x" if "b \<in> set (all_blocks (bss[i := bs]))" "x \<in> block_bytes b" for b x
  proof -
    have "block_bytes (a, s) \<inter> block_bytes b = {}" using dj that(1) by simp
    then show ?thesis using fr that(2) by blast
  qed
  have tail: "entry_next m a = 0 \<longleftrightarrow> bs = []" using c(4) chain_last_next [OF c(4)] chain_null by (cases bs) auto
  have len: "length (free_list_heads fl) = length bss" "length (free_list_tails fl) = length bss"
    using rep by (auto simp: fl_rep_def)
  have keep: "bucket_rep m' i j (free_list_heads fl ! j) (free_list_tails fl ! j) (bss ! j)"
    if j: "j < length bss" "j \<noteq> i" for j
  proof -
    have "b \<in> set (all_blocks (bss[i := bs]))" if "b \<in> set (bss ! j)" for b
      using that j i by (intro in_all_blocks [of j]) auto
    then have f: "\<forall>b \<in> set (bss ! j). \<forall>x \<in> block_bytes b. m' x = m x" using out by blast
    have "bucket_rep m i j (free_list_heads fl ! j) (free_list_tails fl ! j) (bss ! j)"
      using rep j top by (auto simp: fl_rep_def bucket_rep_def)
    then show ?thesis using f by (rule bucket_rep_frame) simp
  qed
  have "b \<in> set (all_blocks (bss[i := bs]))" if "b \<in> set bs" for b
    using that i by (intro in_all_blocks [of i]) auto
  then have f: "\<forall>b \<in> set bs. \<forall>x \<in> block_bytes b. m' x = m x" using out by blast
  have "bucket_rep m i i (entry_next m a) (if bs = [] then 0 else free_list_tails fl ! i) bs"
    using bi c(4) ok by (auto simp: bucket_rep_def)
  then have new: "bucket_rep m' i i (entry_next m a) (if bs = [] then 0 else free_list_tails fl ! i) bs"
    using f by (rule bucket_rep_frame) simp
  show "fl_rep (fl1\<lparr>free_list_heads := (free_list_heads fl1)[i := fst (entry_unlink m a)], biggest_free_list_index := i,
        fl_free_bytes := fl_free_bytes fl - s, fl_count := fl_count fl - 1\<rparr>) (snd (entry_unlink m a)) (bss[i := bs])"
    using rep keep new dj cnt i tail len unfolding m'_def [symmetric]
    by (auto simp: fl_rep_def fl1_def nth_list_update entry_unlink_def)
qed

definition alloc_result_ok :: "buckets \<Rightarrow> nat \<Rightarrow> block option \<Rightarrow> FreeList \<Rightarrow> mem \<Rightarrow> mem \<Rightarrow> bool" where
  "alloc_result_ok bss req r fl' m m' \<longleftrightarrow>
     (case r of
        None \<Rightarrow> m' = m \<and> fl_rep fl' m bss \<and> (\<forall>b \<in> set (all_blocks bss). snd b < 2 * req)
      | Some b \<Rightarrow> \<exists>i bs. i < length bss \<and> bss ! i = b # bs \<and> fl_rep fl' m' (bss[i := bs]) \<and> req \<le> snd b \<and>
          (\<forall>j. i < j \<longrightarrow> j < length bss \<longrightarrow> bss ! j = []) \<and> (\<forall>x. x \<notin> block_bytes b \<longrightarrow> m' x = m x))"

lemma fl_allocate_loop_rep:
  assumes "fl_rep fl m bss" "k < length bss" "\<forall>j. k < j \<longrightarrow> j < length bss \<longrightarrow> bss ! j = []"
  shows "\<exists>r fl' m'. fl_allocate_loop fl m req k (2 ^ k) = Inr (r, fl', m') \<and> alloc_result_ok bss req r fl' m m'"
  using assms
proof (induction k)
  case 0
  have "all_blocks bss = []"
    using fl_rep_blocks_below [OF "0.prems"(1,3)] by (cases "all_blocks bss") fastforce+
  then show ?case using fl_rep_set_biggest [OF "0.prems"] by (auto simp: alloc_result_ok_def)
next
  case (Suc k)
  let ?h = "free_list_heads fl ! Suc k"
  have len: "\<not> Suc k \<ge> length (free_list_heads fl)" using Suc.prems by (auto simp: fl_rep_def)
  have cons: "fl_is_consistent fl m (Suc k)" using Suc.prems by (intro fl_rep_consistent)
  show ?case
  proof (cases "bss ! Suc k")
    case Nil
    then have h: "?h = 0" using Suc.prems by (auto simp: fl_rep_def bucket_rep_def)
    have e: "\<forall>j. k < j \<longrightarrow> j < length bss \<longrightarrow> bss ! j = []"
      using Suc.prems(3) Nil by (metis Suc_lessI)
    show ?thesis
    proof (cases "req > 2 ^ Suc k")
      case True
      have "snd b < 2 * req" if "b \<in> set (all_blocks bss)" for b
        using fl_rep_blocks_below(1) [OF Suc.prems(1,3) that] True by simp
      then show ?thesis
        using True len cons h fl_rep_set_biggest [OF Suc.prems] by (auto simp: alloc_result_ok_def Let_def)
    next
      case False
      have "(2::nat) ^ Suc k div 2 = 2 ^ k" by simp
      then show ?thesis using Suc.IH [OF Suc.prems(1) _ e] Suc.prems(2) False len cons h by (simp add: Let_def)
    qed
  next
    case (Cons b bs)
    obtain a s where b: "b = (a, s)" by fastforce
    note un = fl_unlink_rep [OF Suc.prems(1,2) Cons [unfolded b] Suc.prems(3)]
    show ?thesis
    proof (cases "req > 2 ^ Suc k \<and> s < req")
      case True
      have "snd b < 2 * req" if "b \<in> set (all_blocks bss)" for b
        using fl_rep_blocks_below(1) [OF Suc.prems(1,3) that] True by simp
      then show ?thesis
        using True len cons un(1-3) fl_rep_set_biggest [OF Suc.prems] by (auto simp: alloc_result_ok_def Let_def)
    next
      case False
      have "block_ok (Suc k) b"
        using Suc.prems Cons by (auto simp: fl_rep_def bucket_rep_def)
      then have s: "2 ^ Suc k \<le> s" "16 \<le> s" by (auto simp: block_ok_def b)
      with False have "req \<le> s" by auto
      moreover have "snd (entry_unlink m a) x = m x" if "x \<notin> block_bytes b" for x
        using that block_bytes_next [of b] s(2) b by (auto simp: entry_unlink_def)
      ultimately show ?thesis
        using False len cons un Suc.prems(2,3) Cons b
        by (auto simp: alloc_result_ok_def Let_def split: prod.splits if_splits intro!: exI [of _ "Suc k"])
    qed
  qed
qed


lemma fl_allocate_rep:
  assumes "fl_rep fl m bss"
  shows "\<exists>r fl' m'. fl_allocate fl m req = Inr (r, fl', m') \<and> alloc_result_ok bss req r fl' m m'"
  unfolding fl_allocate_def
  by (rule fl_allocate_loop_rep [OF assms]) (use assms in \<open>auto simp: fl_rep_def bucket_rep_def\<close>)

lemma fl_rep_frame:
  assumes "fl_rep fl m bss" "\<forall>b \<in> set (all_blocks bss). \<forall>x \<in> block_bytes b. m' x = m x"
  shows "fl_rep fl m' bss"
proof -
  have "bucket_rep m' (biggest_free_list_index fl) i (free_list_heads fl ! i) (free_list_tails fl ! i) (bss ! i)"
    if "i < length bss" for i
  proof (rule bucket_rep_frame)
    show "bucket_rep m (biggest_free_list_index fl) i (free_list_heads fl ! i) (free_list_tails fl ! i) (bss ! i)"
      using assms(1) that by (simp add: fl_rep_def)
    show "\<forall>b \<in> set (bss ! i). \<forall>x \<in> block_bytes b. m' x = m x"
      using assms(2) in_all_blocks [OF that] by blast
  qed simp
  then show ?thesis using assms(1) by (auto simp: fl_rep_def)
qed

text \<open>What \<open>peek_free\<close> announces can be allocated.\<close>

lemma fl_peek_rep:
  assumes rep: "fl_rep fl m bss"
  obtains p where "fl_peek_free fl m = Inr p" "p = 0 \<or> (\<exists>b \<in> set (all_blocks bss). p = snd b)"
    "\<And>req r fl' m'. 0 < req \<Longrightarrow> req \<le> p \<Longrightarrow> fl_allocate fl m req = Inr (r, fl', m') \<Longrightarrow> r \<noteq> None"
proof (cases "biggest_free_list_index fl")
  case 0
  then show thesis by (intro that [of 0]) (auto simp: fl_peek_free_def)
next
  case (Suc k)
  have k: "Suc k < length bss" "length (free_list_heads fl) = length bss" using rep Suc by (auto simp: fl_rep_def)
  have bi: "bucket_rep m (Suc k) (Suc k) (free_list_heads fl ! Suc k) (free_list_tails fl ! Suc k) (bss ! Suc k)"
    using rep k(1) Suc by (metis fl_rep_def)
  have cons: "fl_is_consistent fl m (Suc k)" using fl_rep_consistent [OF rep k(1)] .
  show thesis
  proof (cases "bss ! Suc k")
    case Nil
    then have "free_list_heads fl ! Suc k = 0" using bi by (auto simp: bucket_rep_def)
    then show thesis using k Suc by (intro that [of 0]) (auto simp: fl_peek_free_def)
  next
    case (Cons b bs)
    obtain a s where b: "b = (a, s)" by fastforce
    have h: "free_list_heads fl ! Suc k = a" "a \<noteq> 0" "Entry_heap_size m a = s"
      using bi Cons b by (auto simp: bucket_rep_def block_ok_def intro: Entry_heap_size_at)
    have "b \<in> set (all_blocks bss)" using in_all_blocks [OF k(1)] Cons by simp
    then have "s = 0 \<or> (\<exists>b \<in> set (all_blocks bss). s = snd b)" using b by force
    then show thesis
      using h k Suc cons
      by (intro that [of s]) (auto simp: fl_peek_free_def fl_allocate_def Let_def entry_unlink_def rbind_eq_Inr
          split: if_splits prod.splits)
  qed
qed

section \<open>The interface of a block store\<close>

text \<open>What a region relies on: a store of disjoint free blocks, to which a block can be given and from
  which a block of at least the requested size can be taken. The store keeps its bookkeeping inside
  the free memory, so each law says which bytes an operation may change.\<close>

definition disjoint_bag :: "block multiset \<Rightarrow> bool" where
  "disjoint_bag B \<longleftrightarrow> (\<exists>xs. mset xs = B \<and> disjoint_blocks xs)"

lemma disjoint_bag_mset: "disjoint_bag (mset xs) \<longleftrightarrow> disjoint_blocks xs"
  unfolding disjoint_bag_def using disjoint_blocks_perm by blast

lemma disjoint_bag_empty [simp]: "disjoint_bag {#}"
  using disjoint_bag_mset [of "[]"] by simp

lemma disjoint_bag_add [simp]:
  "disjoint_bag (add_mset b B) \<longleftrightarrow> disjoint_bag B \<and> (\<forall>c \<in># B. block_bytes b \<inter> block_bytes c = {})"
proof -
  obtain xs where "mset xs = B" using ex_mset by blast
  then show ?thesis using disjoint_bag_mset [of "b # xs"] disjoint_bag_mset [of xs] by auto
qed

definition wf_block :: "nat \<Rightarrow> block \<Rightarrow> bool" where
  "wf_block n b \<longleftrightarrow> 0 < fst b \<and> fst b + snd b < 2 ^ 64 \<and> fst b mod 8 = 0 \<and> 16 dvd snd b \<and> 16 \<le> snd b \<and> snd b < 2 ^ n"

definition bag_bytes :: "block multiset \<Rightarrow> nat" where
  "bag_bytes B = sum_mset (image_mset snd B)"

lemma bag_bytes_simps [simp]: "bag_bytes {#} = 0" "bag_bytes (add_mset b B) = snd b + bag_bytes B"
  by (simp_all add: bag_bytes_def)

locale block_store =
  fixes rep :: "'s \<Rightarrow> block multiset \<Rightarrow> bool"
    and give :: "'s \<Rightarrow> addr \<Rightarrow> nat \<Rightarrow> 's res"
    and take_block :: "'s \<Rightarrow> nat \<Rightarrow> (block option \<times> 's) res"
    and memory :: "'s \<Rightarrow> mem"
    and n :: nat
  assumes rep_disjoint: "rep s B \<Longrightarrow> disjoint_bag B"
    and rep_wf: "rep s B \<Longrightarrow> b \<in># B \<Longrightarrow> wf_block n b"
    and give_law: "rep s B \<Longrightarrow> wf_block n b \<Longrightarrow> \<forall>c \<in># B. block_bytes b \<inter> block_bytes c = {} \<Longrightarrow>
      \<exists>s'. give s (fst b) (snd b) = Inr s' \<and> rep s' (add_mset b B) \<and> (\<forall>x. x \<notin> block_bytes b \<longrightarrow> memory s' x = memory s x)"
    and take_law: "rep s B \<Longrightarrow> \<exists>r s'. take_block s req = Inr (r, s') \<and>
      (case r of None \<Rightarrow> rep s' B \<and> memory s' = memory s \<and> (\<forall>b \<in># B. snd b < 2 * req)
       | Some b \<Rightarrow> b \<in># B \<and> req \<le> snd b \<and> rep s' (B - {#b#}) \<and> (\<forall>x. x \<notin> block_bytes b \<longrightarrow> memory s' x = memory s x))"
begin

text \<open>A request is served by taking a block and giving its remainder back.\<close>

definition carve :: "'s \<Rightarrow> nat \<Rightarrow> (addr option \<times> 's) res" where
  "carve s req = rbind (take_block s req) (\<lambda>(r, s).
     case r of None \<Rightarrow> Inr (None, s)
     | Some (a, sz) \<Rightarrow>
         if sz > req then rbind (give s (a + req) (sz - req)) (\<lambda>s. Inr (Some a, s)) else Inr (Some a, s))"

definition carved :: "'s \<Rightarrow> nat \<Rightarrow> block multiset \<Rightarrow> addr \<Rightarrow> 's \<Rightarrow> block \<Rightarrow> block multiset \<Rightarrow> bool" where
  "carved s req B a s' b B' \<longleftrightarrow> b \<in># B \<and> a = fst b \<and> req \<le> snd b \<and> rep s' B' \<and>
     bag_bytes B' + req = bag_bytes B \<and> (\<forall>c \<in># B'. block_bytes (a, req) \<inter> block_bytes c = {}) \<and>
     B' = (B - {#b#}) + (if req < snd b then {#(a + req, snd b - req)#} else {#}) \<and>
     (\<forall>x. x \<notin> block_bytes b \<longrightarrow> memory s' x = memory s x)"

lemma carve_spec:
  assumes rep: "rep s B" and req: "16 \<le> req" "16 dvd req"
  shows "\<exists>r s'. carve s req = Inr (r, s') \<and>
    (case r of None \<Rightarrow> rep s' B \<and> memory s' = memory s \<and> (\<forall>b \<in># B. snd b < 2 * req)
     | Some a \<Rightarrow> \<exists>b B'. carved s req B a s' b B')"
proof -
  obtain r s1 where t: "take_block s req = Inr (r, s1)"
    and r: "case r of None \<Rightarrow> rep s1 B \<and> memory s1 = memory s \<and> (\<forall>b \<in># B. snd b < 2 * req)
       | Some b \<Rightarrow> b \<in># B \<and> req \<le> snd b \<and> rep s1 (B - {#b#}) \<and> (\<forall>x. x \<notin> block_bytes b \<longrightarrow> memory s1 x = memory s x)"
    using take_law [OF rep, of req] by blast
  show ?thesis
  proof (cases r)
    case None
    then show ?thesis using t r by (simp add: carve_def)
  next
    case (Some b)
    obtain a sz where b: "b = (a, sz)" by fastforce
    from Some r b have bB: "(a, sz) \<in># B" and le: "req \<le> sz" and rep1: "rep s1 (B - {#(a, sz)#})"
      and fr1: "\<And>x. x \<notin> block_bytes (a, sz) \<Longrightarrow> memory s1 x = memory s x" by auto
    obtain C where B: "B = add_mset (a, sz) C" using bB by (meson multi_member_split)
    have dj: "\<forall>c \<in># C. block_bytes (a, sz) \<inter> block_bytes c = {}"
      using rep_disjoint [OF rep] B by simp
    have wf: "wf_block n (a, sz)" using rep_wf [OF rep bB] .
    show ?thesis
    proof (cases "sz > req")
      case False
      then have "sz = req" using le by simp
      then have "carved s req B a s1 (a, req) C"
        using rep1 fr1 dj B by (auto simp: carved_def)
      moreover have "carve s req = Inr (Some a, s1)" using t Some b False by (simp add: carve_def)
      ultimately show ?thesis by auto
    next
      case True
      define c where "c = (a + req, sz - req)"
      have sub: "block_bytes c \<subseteq> block_bytes (a, sz)" "block_bytes (a, req) \<subseteq> block_bytes (a, sz)"
        using le by (auto simp: block_bytes_def c_def)
      have "16 dvd sz - req" using wf req(2) by (auto simp: wf_block_def intro: dvd_diff_nat)
      then have "16 \<le> sz - req" using True by (intro dvd_imp_le) auto
      moreover have "(a + req) mod 8 = 0"
        using wf req(2) by (auto simp: wf_block_def)
      ultimately have wfc: "wf_block n c"
        using wf le \<open>16 dvd sz - req\<close> by (auto simp: wf_block_def c_def)
      have "\<forall>d \<in># C. block_bytes c \<inter> block_bytes d = {}" using dj sub(1) by blast
      then obtain s2 where g: "give s1 (a + req) (sz - req) = Inr s2" "rep s2 (add_mset c C)"
        "\<And>x. x \<notin> block_bytes c \<Longrightarrow> memory s2 x = memory s1 x"
        using give_law [OF _ wfc, of s1 C] rep1 B by (auto simp: c_def)
      have "block_bytes (a, req) \<inter> block_bytes c = {}" by (auto simp: block_bytes_def c_def)
      moreover have "\<forall>d \<in># C. block_bytes (a, req) \<inter> block_bytes d = {}" using dj sub(2) by blast
      moreover have "memory s2 x = memory s x" if "x \<notin> block_bytes (a, sz)" for x
      proof -
        have "x \<notin> block_bytes c" using that sub(1) by blast
        then show ?thesis using g(3) fr1 [OF that] by simp
      qed
      ultimately have "carved s req B a s2 (a, sz) (add_mset c C)"
        using True g(2) B le by (auto simp: carved_def c_def)
      moreover have "carve s req = Inr (Some a, s2)" using t Some b True g(1) by (simp add: carve_def)
      ultimately show ?thesis by auto
    qed
  qed
qed

end

section \<open>The free list is a block store\<close>

type_synonym fl_state = "FreeList \<times> mem"

definition fl_store :: "nat \<Rightarrow> fl_state \<Rightarrow> block multiset \<Rightarrow> bool" where
  "fl_store n s B \<longleftrightarrow> (\<exists>bss. fl_rep (fst s) (snd s) bss \<and> length bss = n \<and> mset (all_blocks bss) = B)"

definition fl_give :: "fl_state \<Rightarrow> addr \<Rightarrow> nat \<Rightarrow> fl_state res" where
  "fl_give s a sz = fl_add (fst s) (snd s) a sz"

definition fl_take :: "fl_state \<Rightarrow> nat \<Rightarrow> (block option \<times> fl_state) res" where
  "fl_take s req = fl_allocate (fst s) (snd s) req"

lemma fl_rep_wf_block:
  assumes "fl_rep fl m bss" "b \<in> set (all_blocks bss)"
  shows "wf_block (length bss) b"
proof -
  from assms(2) obtain i where i: "i < length bss" "b \<in> set (bss ! i)"
    unfolding all_blocks_def set_concat by (metis UN_E in_set_conv_nth)
  then have ok: "block_ok i b" using assms(1) by (auto simp: fl_rep_def bucket_rep_def)
  have "(2::nat) ^ Suc i \<le> 2 ^ length bss" using i(1) by (intro power_increasing) auto
  then show ?thesis using ok by (auto simp: block_ok_def wf_block_def)
qed

interpretation fls: block_store "fl_store n" fl_give fl_take snd n for n
proof unfold_locales
  fix s :: fl_state and B b req
  assume rep: "fl_store n s B"
  then obtain bss where bss: "fl_rep (fst s) (snd s) bss" "length bss = n" "mset (all_blocks bss) = B"
    by (auto simp: fl_store_def)
  show "disjoint_bag B" using bss by (auto simp: fl_rep_def disjoint_bag_mset [symmetric])
  show "wf_block n b" if "b \<in># B" using fl_rep_wf_block [OF bss(1), of b] that bss by auto
  show "\<exists>s'. fl_give s (fst b) (snd b) = Inr s' \<and> fl_store n s' (add_mset b B) \<and>
      (\<forall>x. x \<notin> block_bytes b \<longrightarrow> snd s' x = snd s x)"
    if "wf_block n b" "\<forall>c \<in># B. block_bytes b \<inter> block_bytes c = {}"
  proof -
    have "fresh_block bss (fst b, snd b)" using that bss by (auto simp: fresh_block_def wf_block_def)
    from fl_add_rep [OF bss(1) this] obtain i fl' m' where a: "i < length bss"
      "fl_add_returning_unused_bounds (fst s) (snd s) (fst b) (snd b) = Inr ((fst b + 16, fst b + snd b), fl', m')"
      "fl_rep fl' m' (bss[i := b # bss ! i])" "\<forall>x. x \<notin> block_bytes b \<longrightarrow> m' x = snd s x" by auto
    then show ?thesis
      using bss all_blocks_insert [OF a(1)] by (fastforce simp: fl_give_def fl_add_def fl_store_def)
  qed
  obtain r fl' m' where al: "fl_allocate (fst s) (snd s) req = Inr (r, fl', m')" "alloc_result_ok bss req r fl' (snd s) m'"
    using fl_allocate_rep [OF bss(1)] by blast
  show "\<exists>r s'. fl_take s req = Inr (r, s') \<and>
      (case r of None \<Rightarrow> fl_store n s' B \<and> snd s' = snd s \<and> (\<forall>b \<in># B. snd b < 2 * req)
       | Some b \<Rightarrow> b \<in># B \<and> req \<le> snd b \<and> fl_store n s' (B - {#b#}) \<and> (\<forall>x. x \<notin> block_bytes b \<longrightarrow> snd s' x = snd s x))"
  proof (cases r)
    case None
    then show ?thesis using al bss by (auto simp: alloc_result_ok_def fl_take_def fl_store_def)
  next
    case (Some b)
    then obtain i bs where i: "i < length bss" "bss ! i = b # bs" "fl_rep fl' m' (bss[i := bs])" "req \<le> snd b"
      "\<forall>x. x \<notin> block_bytes b \<longrightarrow> m' x = snd s x" using al by (auto simp: alloc_result_ok_def)
    have "B = add_mset b (mset (all_blocks (bss[i := bs])))" using all_blocks_remove [OF i(1,2)] bss by simp
    then show ?thesis
      using Some al(1) i bss(2) by (auto simp: fl_take_def fl_store_def intro!: exI [of _ "bss[i := bs]"])
  qed
qed


section \<open>Properties\<close>

text \<open>Adding a block to the free list implements insertion into the abstract buckets: for a block
  that is aligned, overlaps no free block and fits the bucket array, \<open>add\<close> does not panic, puts the
  block at the front of the bucket of its size class, keeps the intrusive lists, tails, counters and
  the bound on the biggest non-empty bucket consistent, and writes only inside the block.\<close>

theorem free_list_add_refines:
  assumes "fl_rep fl m bss" "fresh_block bss (a, s)"
  shows "\<exists>i fl' m'. 2 ^ i \<le> s \<and> s < 2 ^ Suc i \<and> i < length bss \<and>
    fl_add fl m a s = Inr (fl', m') \<and> fl_rep fl' m' (bss[i := (a, s) # bss ! i]) \<and>
    (\<forall>x. x \<notin> block_bytes (a, s) \<longrightarrow> m' x = m x)"
  using fl_add_rep [OF assms] by (fastforce simp: fl_add_def)

lemma fresh_block_example: "fresh_block (replicate 13 []) (4096, 64)"
  by (simp add: fresh_block_def all_blocks_def)

theorem free_list_add_refines_witness:
  "\<exists>i fl' m'. 2 ^ i \<le> (64::nat) \<and> 64 < (2::nat) ^ Suc i \<and> i < length (replicate 13 ([] :: block list)) \<and>
    fl_add (FreeList_new 12) (\<lambda>_. 0) 4096 64 = Inr (fl', m') \<and>
    fl_rep fl' m' ((replicate 13 [])[i := (4096, 64) # replicate 13 [] ! i]) \<and>
    (\<forall>x. x \<notin> block_bytes (4096, 64) \<longrightarrow> m' x = 0)"
  using free_list_add_refines [OF fl_rep_new [of 12 "\<lambda>_. 0"], of 4096 64] fresh_block_example by simp

text \<open>C30. Allocation from a consistent free list never panics, also not at its consistency check.
  When it returns a block, the block was the first one of the highest non-empty bucket, is at least as
  large as the request, and the remaining list represents the remaining blocks; memory changes only
  inside that block. When it returns null, nothing changed and every free block is smaller than twice
  the request.\<close>

theorem free_list_allocate_refines:
  assumes "fl_rep fl m bss"
  shows "\<exists>r fl' m'. fl_allocate fl m req = Inr (r, fl', m') \<and>
    (case r of
       None \<Rightarrow> m' = m \<and> fl_rep fl' m bss \<and> (\<forall>b \<in> set (all_blocks bss). snd b < 2 * req)
     | Some b \<Rightarrow> \<exists>i bs. i < length bss \<and> bss ! i = b # bs \<and> (\<forall>j. i < j \<longrightarrow> j < length bss \<longrightarrow> bss ! j = []) \<and>
         req \<le> snd b \<and> fl_rep fl' m' (bss[i := bs]) \<and> (\<forall>x. x \<notin> block_bytes b \<longrightarrow> m' x = m x))"
proof -
  obtain r fl' m' where a: "fl_allocate fl m req = Inr (r, fl', m')" "alloc_result_ok bss req r fl' m m'"
    using fl_allocate_rep [OF assms] by blast
  then show ?thesis by (cases r) (auto simp: alloc_result_ok_def)
qed

theorem free_list_allocate_refines_witness:
  "\<exists>fl m bss. fl_rep fl m bss \<and> mset (all_blocks bss) = {#(4096, 64)#} \<and>
    (\<exists>r fl' m'. fl_allocate fl m 48 = Inr (r, fl', m') \<and>
      (case r of
         None \<Rightarrow> m' = m \<and> fl_rep fl' m bss \<and> (\<forall>b \<in> set (all_blocks bss). snd b < 2 * 48)
       | Some b \<Rightarrow> \<exists>i bs. i < length bss \<and> bss ! i = b # bs \<and> (\<forall>j. i < j \<longrightarrow> j < length bss \<longrightarrow> bss ! j = []) \<and>
           48 \<le> snd b \<and> fl_rep fl' m' (bss[i := bs]) \<and> (\<forall>x. x \<notin> block_bytes b \<longrightarrow> m' x = m x)))"
proof -
  have "fl_rep (FreeList_new 12) (\<lambda>_. 0) (replicate 13 [])" using fl_rep_new [of 12 "\<lambda>_. 0"] by simp
  from fl_add_rep [OF this fresh_block_example] obtain i fl m where i: "i < length (replicate 13 ([] :: block list))"
    and rep: "fl_rep fl m ((replicate 13 [])[i := (4096, 64) # replicate 13 [] ! i])" by blast
  have "mset (all_blocks ((replicate 13 [])[i := (4096, 64) # replicate 13 [] ! i])) = {#(4096, 64)#}"
    using all_blocks_insert [OF i, of "(4096, 64)"] by (simp add: all_blocks_def)
  then show ?thesis using rep free_list_allocate_refines [OF rep, of 48] by blast
qed

end
