(* ===== verification/HeapBitmapModel.thy ===== *)
theory HeapBitmapModel
  imports HeapUtil
begin

unbundle bit_operations_syntax

text \<open>
  \<open>heap/bitmap.rs\<close> and \<open>utils/sloppy_memset.rs\<close>: the object-start and mark bitmaps, one bit per 16
  bytes of arena. The cells are bytes of \<open>malloc\<close>ed memory at address \<open>hb_base\<close>; they are a function
  of the cell index, so that the bytes beyond \<open>hb_size\<close> which the "sloppy" memset may touch are in
  the model. Only \<open>HeapBitmap<16>\<close> is used by the collector, so \<open>ALIGN\<close> is 16 throughout.
\<close>

section \<open>Sloppy memset\<close>

definition write16 :: "(nat \<Rightarrow> u8) \<Rightarrow> nat \<Rightarrow> u8 \<Rightarrow> (nat \<Rightarrow> u8)" where
  "write16 m p v = (\<lambda>x. if p \<le> x \<and> x < p + 16 then v else m x)"

function memset_body :: "(nat \<Rightarrow> u8) \<Rightarrow> nat \<Rightarrow> nat \<Rightarrow> u8 \<Rightarrow> (nat \<Rightarrow> u8)" where
  "memset_body m p hi v =
     (let m = write16 m p v; p = p + 16 in if p \<ge> hi then m else memset_body m p hi v)"
  by auto
termination
  by (relation "measure (\<lambda>(_, p, e, _). e - p)") auto

declare memset_body.simps [simp del]

definition sloppy_memset :: "(nat \<Rightarrow> u8) \<Rightarrow> nat \<Rightarrow> u8 \<Rightarrow> nat \<Rightarrow> (nat \<Rightarrow> u8)" where
  "sloppy_memset m ptr v len =
     (let m = write16 m ptr v in
      if len \<le> 16 then m
      else let tmp = ptr + 16 in memset_body m (tmp - tmp mod 16) (ptr + len) v)"

section \<open>The bitmap\<close>

record HeapBitmap =
  hb_offset :: nat
  hb_limit :: nat
  hb_cells :: "nat \<Rightarrow> u8"
  hb_size :: nat
  hb_base :: nat

definition bits_per_cell :: nat where "bits_per_cell = 8"
definition cell_mask :: nat where "cell_mask = bits_per_cell - 1"

definition bitmap_size :: "nat \<Rightarrow> nat" where
  "bitmap_size arena_size = (arena_size + (bits_per_cell * 16 - 1)) div (bits_per_cell * 16)"

definition hb_memset :: "HeapBitmap \<Rightarrow> nat \<Rightarrow> nat \<Rightarrow> HeapBitmap" where
  "hb_memset b ix len = b\<lparr>hb_cells :=
     (\<lambda>i. sloppy_memset (\<lambda>x. hb_cells b (x - hb_base b)) (hb_base b + ix) 0 len (hb_base b + i))\<rparr>"

text \<open>\<open>malloc\<close> returns the address \<open>base\<close> of memory with unspecified content \<open>raw\<close>.\<close>

definition hb_new :: "nat \<Rightarrow> (nat \<Rightarrow> u8) \<Rightarrow> nat \<Rightarrow> nat \<Rightarrow> HeapBitmap" where
  "hb_new base raw offset arena_size =
     hb_memset \<lparr>hb_offset = offset, hb_limit = offset + arena_size, hb_cells = raw,
                hb_size = bitmap_size arena_size, hb_base = base\<rparr> 0 (bitmap_size arena_size)"

definition offset_index_bit :: "nat \<Rightarrow> nat" where
  "offset_index_bit offset = (offset div 16) mod bits_per_cell"

definition object_start_index_bit :: "HeapBitmap \<Rightarrow> addr \<Rightarrow> nat \<times> nat" where
  "object_start_index_bit b a =
     (let n = wrapping_sub a (hb_offset b) div 16 in (n div bits_per_cell, n AND cell_mask))"

definition object_offset :: "nat \<Rightarrow> nat" where
  "object_offset index = index * 16 * bits_per_cell"

definition hb_update :: "HeapBitmap \<Rightarrow> nat \<Rightarrow> u8 \<Rightarrow> HeapBitmap" where
  "hb_update b index v = b\<lparr>hb_cells := (hb_cells b)(index := v)\<rparr>"

definition set_bit :: "HeapBitmap \<Rightarrow> addr \<Rightarrow> HeapBitmap" where
  "set_bit b a = (let (index, bt) = object_start_index_bit b a in
     hb_update b index (hb_cells b index OR push_bit bt 1))"

definition clear_bit :: "HeapBitmap \<Rightarrow> addr \<Rightarrow> HeapBitmap" where
  "clear_bit b a = (let (index, bt) = object_start_index_bit b a in
     hb_update b index (hb_cells b index AND NOT (push_bit bt 1)))"

definition check_bit :: "HeapBitmap \<Rightarrow> addr \<Rightarrow> bool" where
  "check_bit b a \<longleftrightarrow> (let (index, bt) = object_start_index_bit b a in
     hb_cells b index AND push_bit bt 1 \<noteq> 0)"

text \<open>\<open>set_atomic\<close> and \<open>clear_atomic\<close> are a load followed by a store: another thread may have changed
  the cell in between; \<open>loaded\<close> is the value the load saw.\<close>

definition set_atomic :: "HeapBitmap \<Rightarrow> u8 \<Rightarrow> addr \<Rightarrow> HeapBitmap" where
  "set_atomic b loaded a = (let (index, bt) = object_start_index_bit b a in hb_update b index (loaded OR push_bit bt 1))"

definition clear_atomic :: "HeapBitmap \<Rightarrow> u8 \<Rightarrow> addr \<Rightarrow> HeapBitmap" where
  "clear_atomic b loaded a = (let (index, bt) = object_start_index_bit b a in hb_update b index (loaded AND NOT (push_bit bt 1)))"

definition fetch_and_set :: "HeapBitmap \<Rightarrow> addr \<Rightarrow> bool \<times> HeapBitmap" where
  "fetch_and_set b a = (let (index, bt) = object_start_index_bit b a; old = hb_cells b index in
     (old AND push_bit bt 1 \<noteq> 0, hb_update b index (old OR push_bit bt 1)))"

definition fetch_and_clear :: "HeapBitmap \<Rightarrow> addr \<Rightarrow> bool \<times> HeapBitmap" where
  "fetch_and_clear b a = (let (index, bt) = object_start_index_bit b a; old = hb_cells b index in
     (old AND push_bit bt 1 \<noteq> 0, hb_update b index (old AND NOT (push_bit bt 1))))"

text \<open>The compare-and-swap loop of \<open>atomic_test_and_set\<close>: \<open>obs\<close> are the contents of the cell at the
  failed attempts (the loop may return before it looks at all of them); the attempt after the last of
  them succeeds on the value last observed. The result is the returned boolean and the content of the
  cell at that moment.\<close>

fun test_and_set_loop :: "nat \<Rightarrow> u8 \<Rightarrow> u8 list \<Rightarrow> bool \<times> u8" where
  "test_and_set_loop bt old_val obs =
     (let new_val = old_val OR push_bit bt 1 in
      if new_val = old_val then (False, old_val)
      else case obs of [] \<Rightarrow> (True, new_val) | v # obs' \<Rightarrow> test_and_set_loop bt v obs')"

definition atomic_test_and_set :: "HeapBitmap \<Rightarrow> addr \<Rightarrow> u8 list \<Rightarrow> bool \<times> HeapBitmap" where
  "atomic_test_and_set b a obs = (let (index, bt) = object_start_index_bit b a;
       (r, v) = test_and_set_loop bt (hb_cells b index) obs in (r, hb_update b index v))"

declare test_and_set_loop.simps [simp del]

text \<open>\<open>find_object_start\<close>: scan the cells downwards from the one of the address; the result is asserted to lie in the arena and to be
  aligned.\<close>

fun find_start_scan :: "(nat \<Rightarrow> u8) \<Rightarrow> nat \<Rightarrow> u8 \<Rightarrow> nat \<times> u8" where
  "find_start_scan cells 0 byte = (0, byte)"
| "find_start_scan cells (Suc k) byte = (if byte = 0 then find_start_scan cells k (cells k) else (Suc k, byte))"

definition leading_zeros8 :: "u8 \<Rightarrow> nat" where
  "leading_zeros8 w = 8 - bit_length (unat w)"

definition find_object_start :: "HeapBitmap \<Rightarrow> addr \<Rightarrow> addr option res" where
  "find_object_start b a =
     (let object_start_number = wrapping_sub a (hb_offset b) div 16;
          cell_index = object_start_number div bits_per_cell;
          bt = object_start_number AND cell_mask;
          byte = hb_cells b cell_index AND (push_bit (bt + 1) 1 - 1);
          (cell_index, byte) = find_start_scan (hb_cells b) cell_index byte
      in if byte = 0 then Inr None
         else let start_number = cell_index * bits_per_cell + (bits_per_cell - 1) - leading_zeros8 byte;
                  addr = start_number * 16 + hb_offset b
              in if \<not> (hb_offset b \<le> addr \<and> addr < hb_limit b) then Inl AssertFailed
                 else if addr mod 16 \<noteq> 0 then Inl AssertFailed else Inr (Some addr))"

text \<open>Range operations walk single bits up to a cell boundary from both sides and whole cells in
  between. The two walks are given as the offsets they visit and the bound they leave.\<close>

function walk_up :: "nat \<Rightarrow> nat \<Rightarrow> nat list \<times> nat" where
  "walk_up b e = (if b < e \<and> offset_index_bit b \<noteq> 0 then let (xs, b') = walk_up (b + 16) e in (b # xs, b') else ([], b))"
  by auto
termination by (relation "measure (\<lambda>(b, e). e - b)") auto

function walk_down :: "nat \<Rightarrow> nat \<Rightarrow> nat list \<times> nat" where
  "walk_down b e = (if b < e \<and> offset_index_bit e \<noteq> 0 then let (xs, e') = walk_down b (e - 16) in ((e - 16) # xs, e') else ([], e))"
  by auto
termination by (relation "measure (\<lambda>(b, e). e)") auto

declare walk_up.simps [simp del] walk_down.simps [simp del]

definition is_marked_range :: "HeapBitmap \<Rightarrow> addr \<Rightarrow> addr \<Rightarrow> bool" where
  "is_marked_range b lo hi =
     (let (ups, bo) = walk_up (wrapping_sub lo (hb_offset b)) (wrapping_sub hi (hb_offset b)) in
      if \<exists>x \<in> set ups. check_bit b (hb_offset b + x) then True
      else let (downs, eo) = walk_down bo (wrapping_sub hi (hb_offset b)) in
           if \<exists>x \<in> set downs. check_bit b (hb_offset b + x) then True
           else \<exists>i \<in> set [bo div 16 div bits_per_cell ..< eo div 16 div bits_per_cell]. hb_cells b i \<noteq> 0)"

definition clear_bits :: "nat list \<Rightarrow> HeapBitmap \<Rightarrow> HeapBitmap" where
  "clear_bits os b = fold (\<lambda>x b. clear_bit b (hb_offset b + x)) os b"

definition clear_range_atomic :: "HeapBitmap \<Rightarrow> addr \<Rightarrow> addr \<Rightarrow> HeapBitmap" where
  "clear_range_atomic b lo hi =
     (let (ups, bo) = walk_up (wrapping_sub lo (hb_offset b)) (wrapping_sub hi (hb_offset b));
          b = clear_bits ups b;
          (downs, eo) = walk_down bo (wrapping_sub hi (hb_offset b));
          b = clear_bits downs b
      in fold (\<lambda>i b. hb_update b i 0) [bo div 16 div bits_per_cell ..< eo div 16 div bits_per_cell] b)"

definition clear_range :: "HeapBitmap \<Rightarrow> addr \<Rightarrow> addr \<Rightarrow> HeapBitmap" where
  "clear_range b lo hi =
     (let (ups, bo) = walk_up (wrapping_sub lo (hb_offset b)) (wrapping_sub hi (hb_offset b));
          b = clear_bits ups b;
          (downs, eo) = walk_down bo (wrapping_sub hi (hb_offset b));
          b = clear_bits downs b;
          start_index = bo div 16 div bits_per_cell; end_index = eo div 16 div bits_per_cell
      in hb_memset b start_index (end_index - start_index))"

definition hb_clear :: "HeapBitmap \<Rightarrow> HeapBitmap" where
  "hb_clear b = hb_memset b 0 (hb_size b)"

text \<open>\<open>visit_marked_range\<close>: the objects handed to the closure, in order. \<open>word_objects\<close> is the inner
  loop over the set bits of a cell, lowest first.\<close>

definition trailing_zeros8 :: "u8 \<Rightarrow> nat" where
  "trailing_zeros8 w = (if w = 0 then 8 else trailing_zeros (unat w))"

lemma trailing_zeros_bit: "n \<noteq> 0 \<Longrightarrow> bit n (trailing_zeros n) \<and> (\<forall>k < trailing_zeros n. \<not> bit n k)"
proof (induction n rule: trailing_zeros.induct)
  case (1 n)
  show ?case
  proof (cases "odd n")
    case True
    then show ?thesis using "1.prems" by (subst (1 2) trailing_zeros.simps) (simp add: bit_0)
  next
    case False
    with 1 have "bit (n div 2) (trailing_zeros (n div 2))" "\<forall>k < trailing_zeros (n div 2). \<not> bit (n div 2) k"
      by (auto elim!: evenE)
    with False 1 show ?thesis
      by (subst (1 2) trailing_zeros.simps) (auto simp: bit_Suc bit_0 less_Suc_eq_0_disj)
  qed
qed

lemma trailing_zeros8_bit:
  assumes "w \<noteq> 0"
  shows "bit w (trailing_zeros8 w)" "k < trailing_zeros8 w \<Longrightarrow> \<not> bit w k"
proof -
  have "unat w \<noteq> 0" using assms by (simp add: unsigned_eq_0_iff)
  note t = trailing_zeros_bit [OF this]
  have b: "bit (unat w) j \<longleftrightarrow> bit w j" for j by (auto simp: bit_unsigned_iff dest: bit_word_lt)
  show "bit w (trailing_zeros8 w)" "k < trailing_zeros8 w \<Longrightarrow> \<not> bit w k"
    using t assms by (auto simp: trailing_zeros8_def b)
qed

lemma bits_xor_remove:
  "bit (w :: u8) n \<Longrightarrow> {k. bit (w XOR push_bit n 1) k} = {k. bit w k} - {n}"
  by (auto simp: bit_simps dest: bit_word_lt)

lemma finite_bits8: "finite {k. bit (w :: u8) k}"
  by (rule finite_subset [of _ "{..<8}"]) (auto dest: bit_word_lt)

function word_objects :: "nat \<Rightarrow> u8 \<Rightarrow> addr list" where
  "word_objects ptr_base w =
     (if w = 0 then []
      else let shift = trailing_zeros8 w in
           (ptr_base + shift * 16) # word_objects ptr_base (w XOR push_bit shift 1))"
  by auto
termination
proof (relation "measure (\<lambda>(_, w). card {k. bit w k})")
  fix ptr_base :: nat and w :: u8 and x
  assume w: "w \<noteq> 0" and x: "x = trailing_zeros8 w"
  have "trailing_zeros8 w \<in> {k. bit w k}" using trailing_zeros8_bit(1) [OF w] by simp
  then have "card ({k. bit w k} - {trailing_zeros8 w}) < card {k. bit w k}"
    by (intro card_Diff1_less finite_bits8)
  then show "((ptr_base, w XOR push_bit x 1), (ptr_base, w)) \<in> measure (\<lambda>(_, w). card {k. bit w k})"
    using bits_xor_remove [OF trailing_zeros8_bit(1) [OF w]] x by simp
qed simp

declare word_objects.simps [simp del]

definition visit_marked_range :: "HeapBitmap \<Rightarrow> addr \<Rightarrow> addr \<Rightarrow> addr list" where
  "visit_marked_range b visit_begin visit_end =
     (let (index_start, start_bit) = object_start_index_bit b visit_begin;
          (index_end, end_bit) = object_start_index_bit b visit_end;
          left_edge = hb_cells b index_start AND NOT (push_bit start_bit 1 - 1);
          base = (\<lambda>i. object_offset i + hb_offset b);
          (out, right_edge) =
            (if index_start < index_end then
               (word_objects (base index_start) left_edge @
                concat (map (\<lambda>i. word_objects (base i) (hb_cells b i)) [index_start + 1 ..< index_end]),
                if end_bit = 0 then 0 else hb_cells b index_end)
             else ([], left_edge))
      in out @ word_objects (base index_end) (right_edge AND (push_bit end_bit 1 - 1)))"


section \<open>Bits and addresses\<close>

text \<open>Bit \<open>k\<close> of the bitmap stands for the address \<open>hb_offset + 16 * k\<close>.\<close>

definition hb_bit :: "HeapBitmap \<Rightarrow> nat \<Rightarrow> bool" where
  "hb_bit b k \<longleftrightarrow> bit (hb_cells b (k div 8)) (k mod 8)"

definition bit_number :: "HeapBitmap \<Rightarrow> addr \<Rightarrow> nat" where
  "bit_number b a = (a - hb_offset b) div 16"

lemma nat_and_7: "(n::nat) AND 7 = n mod 8"
  using take_bit_eq_mask [of 3 n] by (simp add: take_bit_eq_mod mask_eq_exp_minus_1)

lemma index_bit_eq:
  "hb_offset b \<le> a \<Longrightarrow> object_start_index_bit b a = (bit_number b a div 8, bit_number b a mod 8)"
  by (simp add: object_start_index_bit_def bits_per_cell_def cell_mask_def bit_number_def nat_and_7 Let_def)

lemma div_mod_8_eq: "i div 8 = j div 8 \<Longrightarrow> i mod 8 = j mod 8 \<Longrightarrow> i = (j::nat)"
  by (metis div_mult_mod_eq)

lemma bit_number_base [simp]: "bit_number b (hb_offset b + 16 * k) = k"
  by (simp add: bit_number_def)

lemma hb_bit_update_cell:
  "hb_bit (hb_update b i v) k \<longleftrightarrow> (if k div 8 = i then bit v (k mod 8) else hb_bit b k)"
  by (auto simp: hb_bit_def hb_update_def)

lemma hb_update_fields [simp]:
  "hb_offset (hb_update b i v) = hb_offset b" "hb_limit (hb_update b i v) = hb_limit b"
  "hb_size (hb_update b i v) = hb_size b" "hb_base (hb_update b i v) = hb_base b"
  by (simp_all add: hb_update_def)

lemma set_bit_fields [simp]:
  "hb_offset (set_bit b a) = hb_offset b" "hb_limit (set_bit b a) = hb_limit b" "hb_size (set_bit b a) = hb_size b"
  "hb_offset (clear_bit b a) = hb_offset b" "hb_limit (clear_bit b a) = hb_limit b" "hb_size (clear_bit b a) = hb_size b"
  by (simp_all add: set_bit_def clear_bit_def split: prod.split)

lemma hb_bit_set_bit: "hb_offset b \<le> a \<Longrightarrow> hb_bit (set_bit b a) k \<longleftrightarrow> k = bit_number b a \<or> hb_bit b k"
proof -
  assume "hb_offset b \<le> a"
  moreover have "k = bit_number b a \<longleftrightarrow> k div 8 = bit_number b a div 8 \<and> k mod 8 = bit_number b a mod 8"
    by (auto intro: div_mod_8_eq)
  ultimately show ?thesis
    by (auto simp: set_bit_def index_bit_eq hb_bit_def hb_update_def bit_simps)
qed

lemma hb_bit_clear_bit: "hb_offset b \<le> a \<Longrightarrow> hb_bit (clear_bit b a) k \<longleftrightarrow> k \<noteq> bit_number b a \<and> hb_bit b k"
proof -
  assume "hb_offset b \<le> a"
  moreover have "k = bit_number b a \<longleftrightarrow> k div 8 = bit_number b a div 8 \<and> k mod 8 = bit_number b a mod 8"
    by (auto intro: div_mod_8_eq)
  ultimately show ?thesis
    by (auto simp: clear_bit_def index_bit_eq hb_bit_def hb_update_def bit_simps
        dest: bit_word_lt)
qed

lemma check_bit_eq: "hb_offset b \<le> a \<Longrightarrow> check_bit b a \<longleftrightarrow> hb_bit b (bit_number b a)"
  by (simp only: check_bit_def index_bit_eq Let_def prod.case hb_bit_def and_single_bit_nonzero)

text \<open>A bitmap is a bit store: the bit of an address is read back after a write.\<close>

definition hb_put :: "HeapBitmap \<Rightarrow> nat \<Rightarrow> bool \<Rightarrow> HeapBitmap" where
  "hb_put b k v = (if v then set_bit b (hb_offset b + 16 * k) else clear_bit b (hb_offset b + 16 * k))"

interpretation hb: bit_store hb_bit hb_put "\<lambda>b. 8 * hb_size b" "\<lambda>_. True"
  by unfold_locales (auto simp: hb_put_def hb_bit_set_bit hb_bit_clear_bit)

section \<open>Sloppy memset\<close>

lemma memset_body_eq:
  assumes "p \<le> e"
  shows "\<exists>k. memset_body m p e v = (\<lambda>x. if p \<le> x \<and> x < p + 16 * k then v else m x) \<and>
    e \<le> p + 16 * k \<and> p + 16 * k < e + 16 \<or> e = p \<and> memset_body m p e v = write16 m p v"
  using assms
proof (induction m p e v rule: memset_body.induct)
  case (1 m p e v)
  show ?case
  proof (cases "p + 16 \<ge> e")
    case True
    then have "memset_body m p e v = write16 m p v" by (subst memset_body.simps) simp
    then show ?thesis
      using True "1.prems" by (cases "e = p") (auto simp: write16_def intro!: exI [of _ 1])
  next
    case False
    then have "memset_body m p e v = memset_body (write16 m p v) (p + 16) e v"
      by (subst memset_body.simps) (simp add: Let_def)
    moreover obtain k where "memset_body (write16 m p v) (p + 16) e v =
        (\<lambda>x. if p + 16 \<le> x \<and> x < p + 16 + 16 * k then v else write16 m p v x)"
      "e \<le> p + 16 + 16 * k" "p + 16 + 16 * k < e + 16"
      using "1.IH" [OF refl refl] False by auto
    ultimately show ?thesis
      by (intro exI [of _ "Suc k"]) (auto simp: write16_def fun_eq_iff)
  qed
qed

lemma sloppy_memset_eq:
  "\<exists>h. sloppy_memset m ptr v len = (\<lambda>x. if ptr \<le> x \<and> x < h then v else m x) \<and>
     ptr + len \<le> h \<and> h \<le> ptr + len + 16 \<and> (ptr mod 16 = 0 \<and> 16 dvd len \<and> 0 < len \<longrightarrow> h = ptr + len)"
proof (cases "len \<le> 16")
  case True
  then have "sloppy_memset m ptr v len = write16 m ptr v" by (simp add: sloppy_memset_def)
  moreover have "16 dvd len \<Longrightarrow> 0 < len \<Longrightarrow> len = 16" using True by (auto dest: dvd_imp_le)
  ultimately show ?thesis using True by (intro exI [of _ "ptr + 16"]) (auto simp: write16_def)
next
  case False
  define p where "p = ptr + 16 - (ptr + 16) mod 16"
  have p: "ptr < p" "p \<le> ptr + 16" "p < ptr + len" "p mod 16 = 0"
    using False mod_less_divisor [of 16 "ptr + 16"] unfolding p_def
    by (linarith, simp, linarith, simp only: minus_mod_eq_mult_div mod_mult_self1_is_0)
  obtain k where k: "memset_body (write16 m ptr v) p (ptr + len) v =
      (\<lambda>x. if p \<le> x \<and> x < p + 16 * k then v else write16 m ptr v x)"
    "ptr + len \<le> p + 16 * k" "p + 16 * k < ptr + len + 16"
    using memset_body_eq [of p "ptr + len" "write16 m ptr v" v] p by auto
  have "sloppy_memset m ptr v len = (\<lambda>x. if ptr \<le> x \<and> x < p + 16 * k then v else m x)"
  proof -
    have "sloppy_memset m ptr v len = (\<lambda>x. if p \<le> x \<and> x < p + 16 * k then v else write16 m ptr v x)"
      using False k(1) unfolding sloppy_memset_def Let_def p_def by (simp only: if_False)
    then show ?thesis using p k(2) False by (auto simp: write16_def fun_eq_iff)
  qed
  moreover have "p + 16 * k = ptr + len" if "ptr mod 16 = 0" "16 dvd len"
  proof -
    have "(ptr + len) mod 16 = 0" using that by auto
    then have "16 dvd (p + 16 * k) - (ptr + len)" using p(4) by (intro dvd_diff_nat) auto
    then show ?thesis using k by (auto dest: dvd_imp_le)
  qed
  ultimately show ?thesis using k by (intro exI [of _ "p + 16 * k"]) auto
qed

lemma hb_clear_eq:
  assumes "hb_base b mod 16 = 0" "16 dvd hb_size b" "0 < hb_size b"
  shows "hb_cells (hb_clear b) i = (if i < hb_size b then 0 else hb_cells b i)"
  using sloppy_memset_eq [of "\<lambda>x. hb_cells b (x - hb_base b)" "hb_base b" 0 "hb_size b"] assms
  by (auto simp: hb_clear_def hb_memset_def)


section \<open>Finding the object an address belongs to\<close>

lemma bit_top_bit:
  assumes "(w :: u8) \<noteq> 0"
  shows "leading_zeros8 w \<le> 7" "bit w (7 - leading_zeros8 w)" "7 - leading_zeros8 w < j \<Longrightarrow> \<not> bit w j"
proof -
  have n0: "0 < unat w" using assms by (simp add: unsigned_greater_eq unat_gt_0)
  have u: "bit (unat w) j \<longleftrightarrow> bit w j" for j by (auto simp: bit_unsigned_iff dest: bit_word_lt)
  define l where "l = bit_length (unat w)"
  have bnd: "2 ^ (l - 1) \<le> unat w" "unat w < 2 ^ l" using bit_length_bounds [OF n0] by (auto simp: l_def)
  have "unat w < 2 ^ 8" using unsigned_less [of w] by simp
  then have l: "0 < l" "l \<le> 8" using bit_length_le [of "unat w" 8] bit_length_pos [OF n0] by (auto simp: l_def)
  have t: "7 - leading_zeros8 w = l - 1" using l by (simp add: leading_zeros8_def l_def)
  show "leading_zeros8 w \<le> 7" using l by (simp add: leading_zeros8_def l_def)
  have "unat w div 2 ^ (l - 1) = 1"
    using bnd l by (intro div_nat_eqI) (auto simp: power_eq_if)
  then have "bit (unat w) (l - 1)" by (simp add: bit_iff_odd)
  then show "bit w (7 - leading_zeros8 w)" by (simp add: t u)
  assume "7 - leading_zeros8 w < j"
  then have "l \<le> j" using t by simp
  then have "(2::nat) ^ l \<le> 2 ^ j" by (intro power_increasing) auto
  with bnd(2) have "unat w < 2 ^ j" by (rule less_le_trans)
  then have "unat w div 2 ^ j = 0" by (rule div_less)
  then have "\<not> bit (unat w) j" by (simp add: bit_iff_odd)
  then show "\<not> bit w j" by (simp add: u)
qed

text \<open>The scan stops at the highest cell at or below the start that has a bit.\<close>

lemma find_start_scan_spec:
  assumes "find_start_scan cells c byte = (c', byte')"
  shows "c' \<le> c \<and> (c' < c \<longrightarrow> byte = 0 \<and> byte' = cells c') \<and> (c' = c \<longrightarrow> byte' = byte) \<and>
    (\<forall>i. c' < i \<and> i < c \<longrightarrow> cells i = 0) \<and> (byte' = 0 \<longrightarrow> c' = 0)"
  using assms
proof (induction cells c byte rule: find_start_scan.induct)
  case (2 cells k byte)
  show ?case
  proof (cases "byte = 0")
    case True
    then have "find_start_scan cells k (cells k) = (c', byte')" using "2.prems" by simp
    note ih = "2.IH" [OF True this]
    have i: "c' \<le> k" "c' < k \<Longrightarrow> cells k = 0" "c' < k \<Longrightarrow> byte' = cells c'" "c' = k \<Longrightarrow> byte' = cells k"
      "\<And>i. c' < i \<Longrightarrow> i < k \<Longrightarrow> cells i = 0" "byte' = 0 \<Longrightarrow> c' = 0"
      using ih by blast+
    have z: "cells i = 0" if "c' < i" "i < Suc k" for i
    proof (cases "i = k")
      case True then show ?thesis using i(2) that by blast
    next
      case False then show ?thesis using i(5) that by simp
    qed
    show ?thesis
    proof (intro conjI impI allI)
      show "byte' = cells c'" using i(1,3,4) by (metis le_neq_implies_less)
      show "c' \<le> Suc k" using i(1) by simp
      show "byte' = byte" if "c' = Suc k" using that i(1) by simp
      show "cells i = 0" if "c' < i \<and> i < Suc k" for i using z that by blast
    qed (use True i(6) in blast)+
  next
    case False
    then have "c' = Suc k" "byte' = byte" using "2.prems" by auto
    then show ?thesis using False by auto
  qed
qed simp

lemma bit_low_mask8: "bt < 8 \<Longrightarrow> bit (push_bit (bt + 1) 1 - 1 :: u8) n \<longleftrightarrow> n \<le> bt"
proof -
  assume "bt < 8"
  have "push_bit (bt + 1) 1 - 1 = (mask (bt + 1) :: u8)" by (simp add: mask_eq_exp_minus_1)
  then show ?thesis using \<open>bt < 8\<close> by (auto simp: bit_mask_iff)
qed

lemma find_object_start_cases:
  fixes b a
  defines "n \<equiv> bit_number b a"
  assumes "hb_offset b \<le> a"
  obtains (none) "find_object_start b a = Inr None" "\<forall>k \<le> n. \<not> hb_bit b k"
  | (some) k where "find_object_start b a = (if hb_offset b + 16 * k < hb_limit b \<and> 16 dvd hb_offset b
        then Inr (Some (hb_offset b + 16 * k)) else Inl AssertFailed)" "k \<le> n" "hb_bit b k"
      "\<forall>j. k < j \<longrightarrow> j \<le> n \<longrightarrow> \<not> hb_bit b j"
proof -
  define byte0 where "byte0 = hb_cells b (n div 8) AND (push_bit (n mod 8 + 1) 1 - 1)"
  obtain c byte where scan: "find_start_scan (hb_cells b) (n div 8) byte0 = (c, byte)" by fastforce
  have sp: "c \<le> n div 8" "c < n div 8 \<Longrightarrow> byte0 = 0" "c < n div 8 \<Longrightarrow> byte = hb_cells b c"
    "c = n div 8 \<Longrightarrow> byte = byte0" "\<And>i. c < i \<Longrightarrow> i < n div 8 \<Longrightarrow> hb_cells b i = 0" "byte = 0 \<Longrightarrow> c = 0"
    using find_start_scan_spec [OF scan] by blast+
  have "(x * 16 + hb_offset b) mod 16 = 0 \<longleftrightarrow> 16 dvd hb_offset b" for x by (simp add: mod_eq_0_iff_dvd)
  then have fos: "find_object_start b a = (if byte = 0 then Inr None
      else if (c * 8 + 7 - leading_zeros8 byte) * 16 + hb_offset b < hb_limit b \<and> 16 dvd hb_offset b
        then Inr (Some ((c * 8 + 7 - leading_zeros8 byte) * 16 + hb_offset b)) else Inl AssertFailed)"
    using scan assms(2)
    by (simp add: find_object_start_def n_def bit_number_def byte0_def bits_per_cell_def cell_mask_def nat_and_7 Let_def)
  have b0: "bit byte0 j \<longleftrightarrow> bit (hb_cells b (n div 8)) j \<and> j \<le> n mod 8" for j
    using bit_low_mask8 [of "n mod 8" j] by (simp add: byte0_def bit_and_iff)
  have low: "\<not> hb_bit b j" if "c < j div 8" "j \<le> n" for j
  proof (cases "j div 8 = n div 8")
    case True
    then have "j mod 8 \<le> n mod 8" using that(2) by (metis add_le_cancel_left div_mult_mod_eq)
    moreover have "byte0 = 0" using sp(2) that(1) unfolding True by blast
    ultimately show ?thesis using b0 [of "j mod 8"] True by (auto simp: hb_bit_def)
  next
    case False
    then have "j div 8 < n div 8" using that(2) by (simp add: div_le_mono le_neq_implies_less)
    then have "hb_cells b (j div 8) = 0" using sp(5) that(1) by blast
    then show ?thesis by (simp add: hb_bit_def)
  qed
  have incell: "bit byte (j mod 8) \<longleftrightarrow> hb_bit b j" if "j div 8 = c" "j \<le> n" for j
  proof (cases "c = n div 8")
    case True
    then have "j mod 8 \<le> n mod 8" using that by (metis add_le_cancel_left div_mult_mod_eq)
    then show ?thesis using sp(4) [OF True] True that(1) b0 [of "j mod 8"] by (simp add: hb_bit_def)
  next
    case False
    then have "byte = hb_cells b c" using sp(1,3) by simp
    then show ?thesis using that(1) by (simp add: hb_bit_def)
  qed
  show thesis
  proof (cases "byte = 0")
    case True
    then have "c = 0" by (rule sp(6))
    have "\<not> hb_bit b k" if "k \<le> n" for k
      using low [of k] incell [of k] that True \<open>c = 0\<close> by (cases "k div 8 = 0") auto
    then show thesis using none fos True by simp
  next
    case False
    note top = bit_top_bit [OF False]
    define t where "t = 7 - leading_zeros8 byte"
    define k where "k = c * 8 + t"
    have t8: "t < 8" by (simp add: t_def)
    then have kd: "k div 8 = c" "k mod 8 = t" by (auto simp: k_def)
    have kn: "k \<le> n"
    proof (cases "c = n div 8")
      case True
      then have "byte = byte0" by (rule sp(4))
      then have "t \<le> n mod 8" using b0 [of t] top(2) by (simp add: t_def)
      then show ?thesis using True by (metis k_def add_le_cancel_left div_mult_mod_eq)
    next
      case False
      then have "c < n div 8" using sp(1) by simp
      then show ?thesis using t8 by (simp add: k_def)
    qed
    have "find_object_start b a = (if hb_offset b + 16 * k < hb_limit b \<and> 16 dvd hb_offset b
        then Inr (Some (hb_offset b + 16 * k)) else Inl AssertFailed)"
      using fos False top(1) by (simp add: k_def t_def)
    moreover have "hb_bit b k" using incell [OF kd(1) kn] top(2) kd(2) by (simp add: t_def)
    moreover have "\<not> hb_bit b j" if "k < j" "j \<le> n" for j
    proof (cases "j div 8 = c")
      case True
      then have "t < j mod 8" using that(1) kd by (metis add_less_cancel_left div_mult_mod_eq)
      then show ?thesis using incell [OF True that(2)] top(3) by (simp add: t_def)
    next
      case False
      have "c \<le> j div 8" using that(1) kd(1) by (metis div_le_mono less_imp_le_nat)
      then show ?thesis using low False that(2) by simp
    qed
    ultimately show thesis using some kn by blast
  qed
qed


section \<open>Ranges\<close>

lemma offset_index_bit_16: "offset_index_bit (16 * i) = i mod 8"
  by (simp add: offset_index_bit_def bits_per_cell_def)

lemma walk_up_eq:
  assumes "i \<le> j"
  shows "\<exists>i'. walk_up (16 * i) (16 * j) = (map ((*) 16) [i..<i'], 16 * i') \<and> i \<le> i' \<and> i' \<le> j \<and> (i' = j \<or> i' mod 8 = 0)"
  using assms
proof (induction "j - i" arbitrary: i)
  case 0
  then show ?case by (subst walk_up.simps) (auto intro!: exI [of _ j])
next
  case (Suc d)
  show ?case
  proof (cases "i mod 8 = 0")
    case True
    then show ?thesis using Suc.prems by (subst walk_up.simps) (auto simp: offset_index_bit_16 intro!: exI [of _ i])
  next
    case False
    have "d = j - Suc i" "Suc i \<le> j" using Suc by auto
    from Suc.hyps(1) [OF this] obtain i' where i': "walk_up (16 * Suc i) (16 * j) = (map ((*) 16) [Suc i..<i'], 16 * i')"
      "Suc i \<le> i'" "i' \<le> j" "i' = j \<or> i' mod 8 = 0" by (elim exE conjE) (rule that)
    moreover have "walk_up (16 * i) (16 * j) = (16 * i # map ((*) 16) [Suc i..<i'], 16 * i')"
      using False Suc i'(1) by (subst walk_up.simps) (simp add: offset_index_bit_16 add.commute)
    ultimately show ?thesis by (intro exI [of _ i']) (auto simp: upt_conv_Cons)
  qed
qed

lemma walk_down_eq:
  assumes "i \<le> j"
  shows "\<exists>j' xs. walk_down (16 * i) (16 * j) = (xs, 16 * j') \<and> set xs = (*) 16 ` {j'..<j} \<and> i \<le> j' \<and> j' \<le> j \<and> (j' = i \<or> j' mod 8 = 0)"
  using assms
proof (induction "j - i" arbitrary: j)
  case 0
  then show ?case by (subst walk_down.simps) auto
next
  case (Suc d)
  then obtain l where l: "j = Suc l" "i \<le> l" "d = l - i" by (cases j) auto
  show ?case
  proof (cases "j mod 8 = 0")
    case True
    then show ?thesis using Suc.prems by (subst walk_down.simps) (auto simp: offset_index_bit_16 intro!: exI [of _ j])
  next
    case False
    from Suc.hyps(1) [OF l(3,2)] obtain j' xs where j': "walk_down (16 * i) (16 * l) = (xs, 16 * j')"
      "set xs = (*) 16 ` {j'..<l}" "i \<le> j'" "j' \<le> l" "j' = i \<or> j' mod 8 = 0" by (elim exE conjE) (rule that)
    have e: "16 * j - 16 = 16 * l" "16 * i < 16 * j" using l by auto
    have "walk_down (16 * i) (16 * j) = (16 * l # xs, 16 * j')"
      using False j'(1) e by (subst walk_down.simps) (simp add: offset_index_bit_16)
    moreover have "set (16 * l # xs) = (*) 16 ` {j'..<j}"
      using j'(2,4) l(1) by (auto simp: less_Suc_eq)
    ultimately show ?thesis using j' l by (intro exI [of _ j'] exI [of _ "16 * l # xs"]) auto
  qed
qed

lemma u8_nonzero_bit: "(w :: u8) \<noteq> 0 \<longleftrightarrow> (\<exists>k < 8. bit w k)"
proof
  assume "w \<noteq> 0"
  then have "bit w (trailing_zeros8 w)" by (rule trailing_zeros8_bit)
  then show "\<exists>k < 8. bit w k" using bit_word_lt [of w] by auto
qed auto

lemma cells_nonzero_iff:
  assumes "i mod 8 = 0" "j mod 8 = 0"
  shows "(\<exists>c \<in> set [i div 8..<j div 8]. hb_cells b c \<noteq> 0) \<longleftrightarrow> (\<exists>k. i \<le> k \<and> k < j \<and> hb_bit b k)"
proof
  assume "\<exists>c \<in> set [i div 8..<j div 8]. hb_cells b c \<noteq> 0"
  then obtain c k where c: "i div 8 \<le> c" "c < j div 8" "k < 8" "bit (hb_cells b c) k"
    by (auto simp: u8_nonzero_bit)
  have "i \<le> c * 8 + k" "c * 8 + k < j" using c(1-3) assms by (auto elim!: dvdE simp: dvd_eq_mod_eq_0 [symmetric])
  moreover have "hb_bit b (c * 8 + k)" using c(3,4) by (simp add: hb_bit_def)
  ultimately show "\<exists>k. i \<le> k \<and> k < j \<and> hb_bit b k" by blast
next
  assume "\<exists>k. i \<le> k \<and> k < j \<and> hb_bit b k"
  then obtain k where k: "i \<le> k" "k < j" "hb_bit b k" by blast
  have "i div 8 \<le> k div 8" using k(1) by (rule div_le_mono)
  moreover have "k div 8 < j div 8" using k(2) assms(2) by (auto elim!: dvdE simp: dvd_eq_mod_eq_0 [symmetric])
  moreover have "hb_cells b (k div 8) \<noteq> 0" using k(3) by (auto simp: hb_bit_def)
  ultimately show "\<exists>c \<in> set [i div 8..<j div 8]. hb_cells b c \<noteq> 0" by auto
qed

text \<open>The three parts of a range: the bits up to a cell boundary, those after the last one, and whole
  cells in between.\<close>

lemma range_parts:
  assumes "hb_offset b \<le> lo" "lo \<le> hi" "16 dvd lo - hb_offset b" "16 dvd hi - hb_offset b"
  obtains i' j' downs where
    "walk_up (wrapping_sub lo (hb_offset b)) (wrapping_sub hi (hb_offset b)) = (map ((*) 16) [bit_number b lo..<i'], 16 * i')"
    "walk_down (16 * i') (wrapping_sub hi (hb_offset b)) = (downs, 16 * j')"
    "set downs = (*) 16 ` {j'..<bit_number b hi}" "bit_number b lo \<le> i'" "i' \<le> j'" "j' \<le> bit_number b hi"
    "i' = j' \<or> i' mod 8 = 0 \<and> j' mod 8 = 0"
proof -
  have e: "wrapping_sub lo (hb_offset b) = 16 * bit_number b lo" "wrapping_sub hi (hb_offset b) = 16 * bit_number b hi"
    using assms by (auto simp: bit_number_def)
  have le: "bit_number b lo \<le> bit_number b hi" using assms(2) by (simp add: bit_number_def div_le_mono)
  obtain i' where i': "walk_up (16 * bit_number b lo) (16 * bit_number b hi) = (map ((*) 16) [bit_number b lo..<i'], 16 * i')"
    "bit_number b lo \<le> i'" "i' \<le> bit_number b hi" "i' = bit_number b hi \<or> i' mod 8 = 0"
    using walk_up_eq [OF le] by (elim exE conjE) (rule that)
  obtain j' downs where "walk_down (16 * i') (16 * bit_number b hi) = (downs, 16 * j')"
    "set downs = (*) 16 ` {j'..<bit_number b hi}" "i' \<le> j'" "j' \<le> bit_number b hi" "j' = i' \<or> j' mod 8 = 0"
    using walk_down_eq [OF i'(3)] by (elim exE conjE) (rule that)
  moreover have "i' = j' \<or> i' mod 8 = 0 \<and> j' mod 8 = 0" using calculation(3-5) i'(4) by auto
  ultimately show thesis using i' that [of i' downs j'] unfolding e by simp
qed

lemma is_marked_range_iff:
  assumes "hb_offset b \<le> lo" "lo \<le> hi" "16 dvd lo - hb_offset b" "16 dvd hi - hb_offset b"
  shows "is_marked_range b lo hi \<longleftrightarrow> (\<exists>k. bit_number b lo \<le> k \<and> k < bit_number b hi \<and> hb_bit b k)"
proof -
  obtain i' j' downs where
    w: "walk_up (wrapping_sub lo (hb_offset b)) (wrapping_sub hi (hb_offset b)) = (map ((*) 16) [bit_number b lo..<i'], 16 * i')"
    "walk_down (16 * i') (wrapping_sub hi (hb_offset b)) = (downs, 16 * j')"
    "set downs = (*) 16 ` {j'..<bit_number b hi}" and o: "bit_number b lo \<le> i'" "i' \<le> j'" "j' \<le> bit_number b hi"
    "i' = j' \<or> i' mod 8 = 0 \<and> j' mod 8 = 0"
    using range_parts [OF assms] .
  have up: "(\<exists>x \<in> set (map ((*) 16) [bit_number b lo..<i']). check_bit b (hb_offset b + x)) \<longleftrightarrow>
      (\<exists>k. bit_number b lo \<le> k \<and> k < i' \<and> hb_bit b k)"
    by (auto simp: check_bit_eq)
  have dn: "(\<exists>x \<in> set downs. check_bit b (hb_offset b + x)) \<longleftrightarrow> (\<exists>k. j' \<le> k \<and> k < bit_number b hi \<and> hb_bit b k)"
    unfolding w(3) by (auto simp: check_bit_eq)
  have mid: "(\<exists>c \<in> set [i' div 8..<j' div 8]. hb_cells b c \<noteq> 0) \<longleftrightarrow> (\<exists>k. i' \<le> k \<and> k < j' \<and> hb_bit b k)"
    using o(4) cells_nonzero_iff [of i' j' b] by auto
  have "is_marked_range b lo hi \<longleftrightarrow> (\<exists>k. bit_number b lo \<le> k \<and> k < i' \<and> hb_bit b k) \<or>
      (\<exists>k. j' \<le> k \<and> k < bit_number b hi \<and> hb_bit b k) \<or> (\<exists>k. i' \<le> k \<and> k < j' \<and> hb_bit b k)"
    unfolding up [symmetric] dn [symmetric] mid [symmetric]
    by (simp only: is_marked_range_def w(1,2) bits_per_cell_def Let_def prod.case) simp
  then show ?thesis using o by (meson le_less_trans less_le_trans not_le le_trans)
qed


lemma clear_bits_bit:
  "hb_offset (clear_bits (map ((*) 16) ks) b) = hb_offset b \<and>
   (hb_bit (clear_bits (map ((*) 16) ks) b) k \<longleftrightarrow> k \<notin> set ks \<and> hb_bit b k)"
proof (induction ks arbitrary: b)
  case (Cons a ks)
  from Cons [of "clear_bit b (hb_offset b + 16 * a)"] show ?case
    by (auto simp: clear_bits_def hb_bit_clear_bit)
qed (simp add: clear_bits_def)

lemma multiples_of_16: "set xs = (*) 16 ` A \<Longrightarrow> \<exists>ks. xs = map ((*) 16) ks \<and> set ks = (A :: nat set)"
proof -
  assume a: "set xs = (*) 16 ` A"
  then have "\<forall>x \<in> set xs. 16 * (x div 16) = x" by auto
  then have "xs = map ((*) 16) (map (\<lambda>x. x div 16) xs)" by (simp add: map_idI o_def)
  moreover have "set (map (\<lambda>x. x div 16) xs) = A" using a by (auto simp: image_image)
  ultimately show ?thesis by blast
qed

lemma zero_cells_bit: "hb_bit (fold (\<lambda>i b. hb_update b i 0) is b) k \<longleftrightarrow> k div 8 \<notin> set is \<and> hb_bit b k"
  by (induction "is" arbitrary: b) (auto simp: hb_bit_update_cell)

lemma cell_range_bits:
  assumes "i = j \<or> i mod 8 = 0 \<and> j mod 8 = (0::nat)" "i \<le> j"
  shows "k div 8 \<in> set [i div 8..<j div 8] \<longleftrightarrow> i \<le> k \<and> k < j"
  using assms by (auto elim!: dvdE simp: dvd_eq_mod_eq_0 [symmetric])

lemma clear_range_atomic_bit:
  assumes "hb_offset b \<le> lo" "lo \<le> hi" "16 dvd lo - hb_offset b" "16 dvd hi - hb_offset b"
  shows "hb_bit (clear_range_atomic b lo hi) k \<longleftrightarrow> hb_bit b k \<and> \<not> (bit_number b lo \<le> k \<and> k < bit_number b hi)"
proof -
  obtain i' j' downs where
    w: "walk_up (wrapping_sub lo (hb_offset b)) (wrapping_sub hi (hb_offset b)) = (map ((*) 16) [bit_number b lo..<i'], 16 * i')"
    "walk_down (16 * i') (wrapping_sub hi (hb_offset b)) = (downs, 16 * j')"
    "set downs = (*) 16 ` {j'..<bit_number b hi}" and o: "bit_number b lo \<le> i'" "i' \<le> j'" "j' \<le> bit_number b hi"
    "i' = j' \<or> i' mod 8 = 0 \<and> j' mod 8 = 0"
    using range_parts [OF assms] .
  obtain ks where ks: "downs = map ((*) 16) ks" "set ks = {j'..<bit_number b hi}"
    using multiples_of_16 [OF w(3)] by (elim exE conjE) (rule that)
  define b1 where "b1 = clear_bits (map ((*) 16) [bit_number b lo..<i']) b"
  have b1: "hb_offset b1 = hb_offset b" "hb_bit b1 k \<longleftrightarrow> \<not> (bit_number b lo \<le> k \<and> k < i') \<and> hb_bit b k" for k
    using clear_bits_bit [of "[bit_number b lo..<i']" b k] by (auto simp: b1_def)
  have "clear_range_atomic b lo hi =
      fold (\<lambda>i b. hb_update b i 0) [i' div 8..<j' div 8] (clear_bits (map ((*) 16) ks) b1)"
    unfolding clear_range_atomic_def w(1) Let_def prod.case b1_def [symmetric] b1(1) w(2)
    by (simp add: ks(1) bits_per_cell_def)
  then have "hb_bit (clear_range_atomic b lo hi) k \<longleftrightarrow>
      \<not> (i' \<le> k \<and> k < j') \<and> \<not> (j' \<le> k \<and> k < bit_number b hi) \<and> \<not> (bit_number b lo \<le> k \<and> k < i') \<and> hb_bit b k"
    using clear_bits_bit [of ks b1 k] cell_range_bits [OF o(4,2), of k] ks(2) b1(2) [of k]
    by (simp only: zero_cells_bit) auto
  then show ?thesis using o(1-3) by (meson le_less_trans less_le_trans not_le le_trans)
qed

section \<open>Visiting the marked objects of a range\<close>

lemma filter_least:
  assumes "t < (n::nat)" "P t" "\<forall>k < t. \<not> P k"
  shows "filter P [0..<n] = t # filter (\<lambda>k. P k \<and> k \<noteq> t) [0..<n]"
proof -
  have "[0..<n] = [0..<t] @ t # [Suc t..<n]"
    using assms(1) upt_add_eq_append [of 0 t "n - t"] by (simp add: upt_conv_Cons)
  moreover have "filter P [0..<t] = []" "filter (\<lambda>k. P k \<and> k \<noteq> t) [0..<t] = []" using assms(3) by auto
  moreover have "filter (\<lambda>k. P k \<and> k \<noteq> t) [Suc t..<n] = filter P [Suc t..<n]" by (rule filter_cong) auto
  ultimately show ?thesis using assms(2) by simp
qed

lemma word_objects_eq: "word_objects base w = map (\<lambda>k. base + k * 16) (filter (bit w) [0..<8])"
proof (induction base w rule: word_objects.induct)
  case (1 base w)
  show ?case
  proof (cases "w = 0")
    case True
    then show ?thesis by (subst word_objects.simps) simp
  next
    case False
    let ?t = "trailing_zeros8 w"
    note t = trailing_zeros8_bit [OF False]
    have t8: "?t < 8" using bit_word_lt [OF t(1)] by simp
    have x: "bit (w XOR push_bit ?t 1) k \<longleftrightarrow> bit w k \<and> k \<noteq> ?t" for k
      using bits_xor_remove [OF t(1)] by (metis (mono_tags, lifting) Diff_iff insert_iff mem_Collect_eq singletonD)
    have "filter (bit w) [0..<8] = ?t # filter (bit (w XOR push_bit ?t 1)) [0..<8]"
      using filter_least [OF t8, of "bit w"] t by (simp only: x [abs_def]) auto
    then show ?thesis
      using "1.IH" [OF False refl] False by (subst word_objects.simps) (simp add: Let_def)
  qed
qed

text \<open>The marked objects with bit numbers in \<open>[i, j)\<close>, ascending.\<close>

definition marked_objects :: "HeapBitmap \<Rightarrow> nat \<Rightarrow> nat \<Rightarrow> addr list" where
  "marked_objects b i j = map (\<lambda>k. hb_offset b + 16 * k) (filter (hb_bit b) [i..<j])"

lemma marked_objects_append: "i \<le> j \<Longrightarrow> j \<le> l \<Longrightarrow> marked_objects b i j @ marked_objects b j l = marked_objects b i l"
  unfolding marked_objects_def by (metis filter_append le_add_diff_inverse map_append upt_add_eq_append)

lemma map_shift_upt: "map (\<lambda>k. k + d) [s..<e] = [s + d..<e + (d::nat)]"
  by (induction e) auto

lemma word_objects_cell:
  assumes "s \<le> e" "e \<le> 8" "\<And>k. k < 8 \<Longrightarrow> bit w k \<longleftrightarrow> s \<le> k \<and> k < e \<and> bit (hb_cells b c) k"
  shows "word_objects (object_offset c + hb_offset b) w = marked_objects b (8 * c + s) (8 * c + e)"
proof -
  have "[0..<8] = [0..<s] @ [s..<e] @ [e..<8]"
    using assms(1,2) by (metis append_assoc le_add_diff_inverse le_trans upt_add_eq_append zero_le)
  moreover have "filter (bit w) [0..<s] = []" "filter (bit w) [e..<8] = []"
    using assms by (auto simp: filter_empty_conv)
  moreover have "filter (bit w) [s..<e] = filter (bit (hb_cells b c)) [s..<e]"
    using assms by (intro filter_cong) auto
  ultimately have f: "filter (bit w) [0..<8] = filter (bit (hb_cells b c)) [s..<e]" by simp
  have sh: "[8 * c + s..<8 * c + e] = map (\<lambda>k. k + 8 * c) [s..<e]" by (simp only: map_shift_upt) (simp add: add.commute)
  have "filter (hb_bit b) (map (\<lambda>k. k + 8 * c) [s..<e]) = map (\<lambda>k. k + 8 * c) (filter (bit (hb_cells b c)) [s..<e])"
    unfolding filter_map o_def
    by (rule arg_cong [where f = "map _"], rule filter_cong) (use assms(2) in \<open>auto simp: hb_bit_def\<close>)
  then show ?thesis
    unfolding marked_objects_def sh word_objects_eq f
    by (simp add: object_offset_def bits_per_cell_def algebra_simps)
qed

lemma concat_cells_objects:
  "i \<le> j \<Longrightarrow> concat (map (\<lambda>c. word_objects (object_offset c + hb_offset b) (hb_cells b c)) [i..<j]) = marked_objects b (8 * i) (8 * j)"
proof (induction j)
  case (Suc j)
  show ?case
  proof (cases "i = Suc j")
    case True then show ?thesis by (simp add: marked_objects_def)
  next
    case False
    with Suc have "i \<le> j" by simp
    have "word_objects (object_offset j + hb_offset b) (hb_cells b j) = marked_objects b (8 * j + 0) (8 * j + 8)"
      by (rule word_objects_cell) auto
    then show ?thesis
      using Suc \<open>i \<le> j\<close> marked_objects_append [of "8 * i" "8 * j" "8 * Suc j" b] by (simp add: add.commute)
  qed
qed (simp add: marked_objects_def)


lemma bit_edge_masks:
  "s < 8 \<Longrightarrow> bit ((w :: u8) AND NOT (push_bit s 1 - 1)) k \<longleftrightarrow> s \<le> k \<and> bit w k"
  "s < 8 \<Longrightarrow> bit ((w :: u8) AND (push_bit s 1 - 1)) k \<longleftrightarrow> k < s \<and> bit w k"
proof -
  have m: "push_bit s 1 - 1 = (mask s :: u8)" by (simp add: mask_eq_exp_minus_1)
  show "s < 8 \<Longrightarrow> bit (w AND NOT (push_bit s 1 - 1)) k \<longleftrightarrow> s \<le> k \<and> bit w k"
    "s < 8 \<Longrightarrow> bit (w AND (push_bit s 1 - 1)) k \<longleftrightarrow> k < s \<and> bit w k"
    unfolding m by (auto simp: bit_simps not_less dest: bit_word_lt)
qed

lemmas bit_edge_masks' = bit_edge_masks [simplified]

lemma visit_marked_range_eq:
  assumes "hb_offset b \<le> lo" "lo \<le> hi"
  shows "visit_marked_range b lo hi = marked_objects b (bit_number b lo) (bit_number b hi)"
proof -
  define n l where "n = bit_number b lo" and "l = bit_number b hi"
  have nl: "n \<le> l" using assms(2) by (simp add: n_def l_def bit_number_def div_le_mono)
  have ix: "object_start_index_bit b lo = (n div 8, n mod 8)" "object_start_index_bit b hi = (l div 8, l mod 8)"
    using assms by (auto simp: index_bit_eq n_def l_def)
  have n8: "n = 8 * (n div 8) + n mod 8" "l = 8 * (l div 8) + l mod 8" by auto
  show ?thesis
  proof (cases "n div 8 < l div 8")
    case True
    have "word_objects (object_offset (n div 8) + hb_offset b) (hb_cells b (n div 8) AND NOT (push_bit (n mod 8) 1 - 1)) =
        marked_objects b (8 * (n div 8) + n mod 8) (8 * (n div 8) + 8)"
      by (rule word_objects_cell) (auto simp: bit_edge_masks')
    then have left: "word_objects (object_offset (n div 8) + hb_offset b) (hb_cells b (n div 8) AND NOT (push_bit (n mod 8) 1 - 1)) =
        marked_objects b n (8 * (n div 8 + 1))"
      using n8(1) by (simp add: add.commute)
    have "word_objects (object_offset (l div 8) + hb_offset b)
        ((if l mod 8 = 0 then 0 else hb_cells b (l div 8)) AND (push_bit (l mod 8) 1 - 1)) =
        marked_objects b (8 * (l div 8) + 0) (8 * (l div 8) + l mod 8)"
      by (rule word_objects_cell) (auto simp: bit_edge_masks')
    then have right: "word_objects (object_offset (l div 8) + hb_offset b)
        ((if l mod 8 = 0 then 0 else hb_cells b (l div 8)) AND (push_bit (l mod 8) 1 - 1)) =
        marked_objects b (8 * (l div 8)) l"
      using n8(2) by simp
    have mid: "concat (map (\<lambda>c. word_objects (object_offset c + hb_offset b) (hb_cells b c)) [n div 8 + 1..<l div 8]) =
        marked_objects b (8 * (n div 8 + 1)) (8 * (l div 8))"
      using True by (intro concat_cells_objects) simp
    have "visit_marked_range b lo hi = marked_objects b n (8 * (n div 8 + 1)) @
        marked_objects b (8 * (n div 8 + 1)) (8 * (l div 8)) @ marked_objects b (8 * (l div 8)) l"
      unfolding visit_marked_range_def ix Let_def prod.case
      by (simp only: True if_True prod.case left mid right append_assoc)
    moreover have "n \<le> 8 * (n div 8 + 1)" "8 * (n div 8 + 1) \<le> 8 * (l div 8)" "8 * (l div 8) \<le> l"
      using True by auto
    ultimately show ?thesis
      using marked_objects_append [of "8 * (n div 8 + 1)" "8 * (l div 8)" l b]
        marked_objects_append [of n "8 * (n div 8 + 1)" l b]
      unfolding n_def [symmetric] l_def [symmetric] by (simp only: le_trans)
  next
    case False
    then have e: "n div 8 = l div 8" using nl by (simp add: div_le_mono le_antisym)
    then have "n mod 8 \<le> l mod 8" using nl by (metis add_le_cancel_left div_mult_mod_eq)
    then have "word_objects (object_offset (l div 8) + hb_offset b)
        ((hb_cells b (l div 8) AND NOT (push_bit (n mod 8) 1 - 1)) AND (push_bit (l mod 8) 1 - 1)) =
        marked_objects b (8 * (l div 8) + n mod 8) (8 * (l div 8) + l mod 8)"
      by (intro word_objects_cell) (auto simp: bit_edge_masks')
    moreover have "8 * (l div 8) + n mod 8 = n" "8 * (l div 8) + l mod 8 = l" using n8 e by auto
    ultimately show ?thesis
      unfolding visit_marked_range_def ix Let_def prod.case n_def [symmetric] l_def [symmetric]
      by (simp only: False if_False prod.case e append_Nil less_irrefl)
  qed
qed

section \<open>Atomic marking\<close>

lemma or_bit_same_iff: "bt < 8 \<Longrightarrow> (w :: u8) OR push_bit bt 1 = w \<longleftrightarrow> bit w bt"
proof
  assume "bt < 8" "w OR push_bit bt 1 = w"
  moreover have "bit (w OR push_bit bt 1) bt" using \<open>bt < 8\<close> by (simp add: bit_simps)
  ultimately show "bit w bt" by simp
next
  assume "bt < 8" "bit w bt"
  then show "w OR push_bit bt 1 = w" by (intro bit_eqI) (auto simp: bit_simps)
qed

lemma test_and_set_loop_spec:
  assumes "bt < 8"
  shows "fst (test_and_set_loop bt old obs) \<longleftrightarrow> (\<forall>v \<in> set (old # obs). \<not> bit v bt)"
    and "bit (snd (test_and_set_loop bt old obs)) bt"
proof (induction obs arbitrary: old)
  case Nil
  { case 1 show ?case using or_bit_same_iff [OF assms, of old] by (subst test_and_set_loop.simps) (auto simp: Let_def) }
  { case 2 show ?case using or_bit_same_iff [OF assms, of old] assms
      by (subst test_and_set_loop.simps) (auto simp: Let_def bit_simps) }
next
  case (Cons v obs)
  { case 1 show ?case using or_bit_same_iff [OF assms, of old] Cons.IH(1) [of v]
      by (subst test_and_set_loop.simps) (auto simp: Let_def) }
  { case 2 show ?case using or_bit_same_iff [OF assms, of old] Cons.IH(2) [of v]
      by (subst test_and_set_loop.simps) (auto simp: Let_def) }
qed

text \<open>Several threads run \<open>atomic_test_and_set\<close> on the same bit at once. A thread has not started, holds
  the value it last observed, or has returned. Each step is one atomic access: the initial load, a
  compare-exchange that succeeds, one that fails (the weak variant may fail at any time) and hands back
  the current value, or the return when the observed value has the bit. Other threads may set other
  bits of the same cell.\<close>

datatype tas_thread = Idle | Observed u8 | Returned bool

type_synonym tas_state = "u8 \<times> (nat \<Rightarrow> tas_thread)"

inductive tas_step :: "nat \<Rightarrow> tas_state \<Rightarrow> tas_state \<Rightarrow> bool" for bt where
  load: "th t = Idle \<Longrightarrow> tas_step bt (cell, th) (cell, th(t := Observed cell))"
| already: "th t = Observed v \<Longrightarrow> v OR push_bit bt 1 = v \<Longrightarrow> tas_step bt (cell, th) (cell, th(t := Returned False))"
| cas_ok: "th t = Observed v \<Longrightarrow> v OR push_bit bt 1 \<noteq> v \<Longrightarrow> cell = v \<Longrightarrow>
     tas_step bt (cell, th) (v OR push_bit bt 1, th(t := Returned True))"
| cas_fail: "th t = Observed v \<Longrightarrow> v OR push_bit bt 1 \<noteq> v \<Longrightarrow> tas_step bt (cell, th) (cell, th(t := Observed cell))"
| other_bits: "\<not> bit x bt \<Longrightarrow> tas_step bt (cell, th) (cell OR x, th)"

inductive_cases tas_stepE: "tas_step bt s s'"

definition returned :: "bool \<Rightarrow> (nat \<Rightarrow> tas_thread) \<Rightarrow> nat set" where
  "returned r th = {t. th t = Returned r}"

definition observers :: "nat \<Rightarrow> (nat \<Rightarrow> tas_thread) \<Rightarrow> nat set" where
  "observers bt th = {t. \<exists>v. th t = Observed v \<and> bit v bt}"

definition tas_inv :: "nat \<Rightarrow> tas_state \<Rightarrow> bool" where
  "tas_inv bt s \<longleftrightarrow>
     (observers bt (snd s) \<union> returned False (snd s) \<noteq> {} \<longrightarrow> bit (fst s) bt) \<and>
     (bit (fst s) bt \<longleftrightarrow> (\<exists>t. returned True (snd s) = {t})) \<and>
     (\<not> bit (fst s) bt \<longleftrightarrow> returned True (snd s) = {})"

lemma returned_upd: "th t \<noteq> Returned r \<Longrightarrow> returned r (th(t := x)) = (if x = Returned r then insert t (returned r th) else returned r th)"
  by (auto simp: returned_def)

lemma observers_upd:
  "observers bt (th(t := Returned r)) \<subseteq> observers bt th"
  "observers bt (th(t := Observed v)) \<subseteq> observers bt th \<union> (if bit v bt then {t} else {})"
  by (auto simp: observers_def split: if_splits)

lemma tas_step_inv: "bt < 8 \<Longrightarrow> tas_step bt s s' \<Longrightarrow> tas_inv bt s \<Longrightarrow> tas_inv bt s'"
proof (erule tas_stepE, goal_cases)
  case (1 th t cell)
  then show ?case using observers_upd(2) [of bt th t cell]
    by (auto simp: tas_inv_def returned_upd split: if_splits)
next
  case (2 th t v cell)
  then have "t \<in> observers bt th" using or_bit_same_iff by (auto simp: observers_def)
  then show ?case using 2 observers_upd(1) [of bt th t False]
    by (auto simp: tas_inv_def returned_upd)
next
  case (3 th t v)
  then have "\<not> bit v bt" using or_bit_same_iff [OF 3(1), of v] by simp
  moreover have "bit (v OR push_bit bt 1) bt" using 3(1) by (simp add: bit_simps)
  ultimately show ?case using 3 by (auto simp: tas_inv_def returned_upd)
next
  case (4 th t v cell)
  then show ?case using observers_upd(2) [of bt th t cell]
    by (auto simp: tas_inv_def returned_upd split: if_splits)
next
  case (5 x cell th)
  then show ?case by (auto simp: tas_inv_def bit_or_iff)
qed

lemma tas_reach_inv:
  assumes "bt < 8" "(tas_step bt)\<^sup>*\<^sup>* s s'" "tas_inv bt s"
  shows "tas_inv bt s'"
  using assms(2,3) by (induction rule: rtranclp_induct) (auto intro: tas_step_inv [OF assms(1)])

section \<open>Properties\<close>

text \<open>C32. \<open>find_object_start\<close> resolves a conservative pointer: for an address at or above the start of the arena it returns
  the greatest recorded object start that is not above the address, and null only if no object start
  is recorded at or below it. Its assertions can fail only if the address is beyond the arena, or the arena is not aligned.\<close>

theorem find_object_start_correct:
  assumes "hb_offset b \<le> a"
  shows "case find_object_start b a of
      Inl e \<Rightarrow> e = AssertFailed \<and> (hb_limit b \<le> a \<or> \<not> 16 dvd hb_offset b)
    | Inr None \<Rightarrow> (\<forall>k. hb_offset b + 16 * k \<le> a \<longrightarrow> \<not> hb_bit b k)
    | Inr (Some p) \<Rightarrow> \<exists>k. p = hb_offset b + 16 * k \<and> p \<le> a \<and> hb_bit b k \<and>
        (\<forall>j. p < hb_offset b + 16 * j \<longrightarrow> hb_offset b + 16 * j \<le> a \<longrightarrow> \<not> hb_bit b j)"
proof -
  have le: "hb_offset b + 16 * k \<le> a \<longleftrightarrow> k \<le> bit_number b a" for k
    using assms by (auto simp: bit_number_def less_eq_div_iff_mult_less_eq)
  show ?thesis
  proof (rule find_object_start_cases [OF assms], goal_cases)
    case 1
    then show ?case by (simp add: le)
  next
    case (2 k)
    have "hb_offset b + 16 * k \<le> a" using 2(2) le by blast
    show ?case
    proof (cases "hb_offset b + 16 * k < hb_limit b \<and> 16 dvd hb_offset b")
      case True
      then show ?thesis using 2 by (auto simp: le intro!: exI [of _ k])
    next
      case False
      then show ?thesis using 2(1) \<open>hb_offset b + 16 * k \<le> a\<close> by auto
    qed
  qed
qed

abbreviation example_bitmap :: HeapBitmap where
  "example_bitmap \<equiv> \<lparr>hb_offset = 4096, hb_limit = 8192, hb_cells = (\<lambda>i. if i = 3 then 0x10 else 0), hb_size = 32, hb_base = 64\<rparr>"

theorem find_object_start_correct_witness:
  "case find_object_start example_bitmap 4600 of
      Inl e \<Rightarrow> False
    | Inr None \<Rightarrow> (\<forall>k. 4096 + 16 * k \<le> 4600 \<longrightarrow> \<not> hb_bit example_bitmap k)
    | Inr (Some p) \<Rightarrow> \<exists>k. p = 4096 + 16 * k \<and> p \<le> 4600 \<and> hb_bit example_bitmap k \<and>
        (\<forall>j. p < 4096 + 16 * j \<longrightarrow> 4096 + 16 * j \<le> 4600 \<longrightarrow> \<not> hb_bit example_bitmap j)"
  using find_object_start_correct [of example_bitmap 4600] unfolding HeapBitmap.select_convs by (auto split: sum.splits)

text \<open>Range queries on the mark bitmap are exact: \<open>is_marked_range\<close>, which tests single bits up to a
  cell boundary and whole cells in between, is true exactly when some object in the 16-aligned address
  range is marked; and \<open>clear_range_atomic\<close> clears exactly the bits of the range and no other.\<close>

theorem mark_range_exact:
  assumes "hb_offset b \<le> lo" "lo \<le> hi" "16 dvd lo - hb_offset b" "16 dvd hi - hb_offset b"
  shows "(is_marked_range b lo hi \<longleftrightarrow> (\<exists>k. lo \<le> hb_offset b + 16 * k \<and> hb_offset b + 16 * k < hi \<and> hb_bit b k)) \<and>
    (\<forall>k. hb_bit (clear_range_atomic b lo hi) k \<longleftrightarrow>
       hb_bit b k \<and> \<not> (lo \<le> hb_offset b + 16 * k \<and> hb_offset b + 16 * k < hi))"
proof -
  have e: "lo = hb_offset b + 16 * bit_number b lo" "hi = hb_offset b + 16 * bit_number b hi"
    using assms by (auto simp: bit_number_def)
  have k: "bit_number b lo \<le> k \<longleftrightarrow> lo \<le> hb_offset b + 16 * k" "k < bit_number b hi \<longleftrightarrow> hb_offset b + 16 * k < hi" for k
    by (subst (2) e(1), simp) (subst (2) e(2), simp)
  show ?thesis
    using is_marked_range_iff [OF assms] clear_range_atomic_bit [OF assms] unfolding k by blast
qed

theorem mark_range_exact_witness:
  "(is_marked_range example_bitmap 4112 4800 \<longleftrightarrow>
      (\<exists>k. 4112 \<le> 4096 + 16 * k \<and> 4096 + 16 * k < (4800::nat) \<and> hb_bit example_bitmap k)) \<and>
   (\<forall>k. hb_bit (clear_range_atomic example_bitmap 4112 4800) k \<longleftrightarrow>
       hb_bit example_bitmap k \<and> \<not> (4112 \<le> 4096 + 16 * k \<and> 4096 + 16 * k < (4800::nat)))"
  using mark_range_exact [of example_bitmap 4112 4800] by simp

text \<open>\<open>visit_marked_range\<close> hands the closure exactly the marked objects of the range, each once and in
  ascending address order, although it treats the first, the middle and the last cell differently.\<close>

theorem visit_marked_range_exact:
  assumes "hb_offset b \<le> lo" "lo \<le> hi"
  shows "visit_marked_range b lo hi =
    map (\<lambda>k. hb_offset b + 16 * k) (filter (hb_bit b) [(lo - hb_offset b) div 16 ..< (hi - hb_offset b) div 16])"
  using visit_marked_range_eq [OF assms] by (simp add: marked_objects_def bit_number_def)

theorem visit_marked_range_exact_witness:
  "visit_marked_range example_bitmap 4112 4800 =
    map (\<lambda>k. 4096 + 16 * k) (filter (hb_bit example_bitmap) [(4112 - 4096) div 16 ..< (4800 - 4096) div 16])"
  using visit_marked_range_exact [of example_bitmap 4112 4800] by simp

text \<open>C33. When several threads race to mark the same object with \<open>atomic_test_and_set\<close>, then in every
  interleaving of their loads and compare-exchanges, while other threads mark neighbouring objects in
  the same cell, at most one of the calls returns true; a call that returned false did so after the bit was set; and as
  soon as the bit is set, exactly one call has returned true.\<close>

theorem atomic_mark_single_winner:
  assumes "bt < 8" "\<not> bit cell0 bt" "(tas_step bt)\<^sup>*\<^sup>* (cell0, \<lambda>_. Idle) (cell, th)"
  shows "(\<forall>t u. th t = Returned True \<longrightarrow> th u = Returned True \<longrightarrow> t = u) \<and>
    ((\<exists>t. th t = Returned False) \<longrightarrow> bit cell bt) \<and>
    (bit cell bt \<longleftrightarrow> (\<exists>t. th t = Returned True))"
proof -
  have "tas_inv bt (cell0, \<lambda>_. Idle)" using assms(2) by (auto simp: tas_inv_def returned_def observers_def)
  with assms have inv: "tas_inv bt (cell, th)" by (blast intro: tas_reach_inv)
  have m: "t \<in> returned r th \<longleftrightarrow> th t = Returned r" for t r by (simp add: returned_def)
  show ?thesis
  proof (cases "bit cell bt")
    case True
    then obtain w where "returned True th = {w}" using inv by (auto simp: tas_inv_def)
    then have "\<And>t. th t = Returned True \<longleftrightarrow> t = w" using m [of _ True] by auto
    then show ?thesis using True by simp
  next
    case False
    then have "returned True th = {}" "returned False th = {}" using inv by (auto simp: tas_inv_def)
    then show ?thesis using False m by auto
  qed
qed

theorem atomic_mark_single_winner_witness:
  "\<exists>cell th. (tas_step 3)\<^sup>*\<^sup>* (0, \<lambda>_. Idle) (cell, th) \<and> th 0 = Returned True \<and>
    (\<forall>t u. th t = Returned True \<longrightarrow> th u = Returned True \<longrightarrow> t = u) \<and>
    ((\<exists>t. th t = Returned False) \<longrightarrow> bit cell 3) \<and> (bit cell 3 \<longleftrightarrow> (\<exists>t. th t = Returned True))"
proof -
  let ?th1 = "(\<lambda>_. Idle)(0 := Observed (0::u8))"
  let ?th2 = "?th1(0 := Returned True)"
  have "tas_step 3 (0, \<lambda>_. Idle) (0, ?th1)" by (rule tas_step.load) simp
  moreover have "tas_step 3 (0, ?th1) (0 OR push_bit 3 1, ?th2)" by (rule tas_step.cas_ok) simp_all
  ultimately have "(tas_step 3)\<^sup>*\<^sup>* (0, \<lambda>_. Idle) (0 OR push_bit 3 1, ?th2)" by (meson r_into_rtranclp rtranclp_trans)
  moreover have "?th2 0 = Returned True" by simp
  ultimately obtain cell th where r: "(tas_step 3)\<^sup>*\<^sup>* (0, \<lambda>_. Idle) (cell, th)" and w: "th 0 = Returned True" by blast
  have "(\<forall>t u. th t = Returned True \<longrightarrow> th u = Returned True \<longrightarrow> t = u) \<and>
    ((\<exists>t. th t = Returned False) \<longrightarrow> bit cell 3) \<and> (bit cell 3 \<longleftrightarrow> (\<exists>t. th t = Returned True))"
    by (rule atomic_mark_single_winner [OF _ _ r]) simp_all
  with r w show ?thesis by blast
qed

text \<open>The "sloppy" memset fills its range and spills at most 16 bytes past the end; when the buffer is
  16-byte aligned and its length is a positive multiple of 16, as for the bitmaps of power-of-two
  regions, it writes exactly the range.\<close>

theorem sloppy_memset_bounds:
  "\<exists>h. sloppy_memset m ptr v len = (\<lambda>x. if ptr \<le> x \<and> x < h then v else m x) \<and>
     ptr + len \<le> h \<and> h \<le> ptr + len + 16 \<and> (ptr mod 16 = 0 \<and> 16 dvd len \<and> 0 < len \<longrightarrow> h = ptr + len)"
  by (rule sloppy_memset_eq)

theorem sloppy_memset_bounds_witness:
  "\<exists>h. sloppy_memset (\<lambda>_. 7) 64 0 32 = (\<lambda>x. if 64 \<le> x \<and> x < h then 0 else 7) \<and>
     64 + 32 \<le> h \<and> h \<le> 64 + 32 + 16 \<and> ((64::nat) mod 16 = 0 \<and> (16::nat) dvd 32 \<and> 0 < (32::nat) \<longrightarrow> h = 64 + 32)"
  by (rule sloppy_memset_bounds)

end
