(* ===== verification/RegionModel.thy ===== *)
theory RegionModel
  imports FreeListModel HeapBitmapModel
begin

unbundle bit_operations_syntax

text \<open>
  \<open>heap/region.rs\<close>: the sizing of the heap (\<open>setup_sizes\<close>) and the region, a fixed-size part of the
  heap whose memory is handed out from its free list. The state of a region operation is the region,
  the memory and the heap's count of committed bytes. The operating system's part of commit and
  decommit has no effect on the model beyond the count; the clock is an argument.
\<close>

section \<open>Sizing\<close>

record HeapArguments =
  ha_max_region_size :: nat
  ha_min_region_size :: nat
  ha_target_num_regions :: nat
  ha_humongous_threshold :: nat
  ha_region_size :: nat
  ha_elastic_tlab :: bool
  ha_min_tlab_size :: nat
  ha_tlab_size :: nat
  ha_tlab_waste_target_percent :: nat
  ha_max_heap_size :: nat
  ha_parallel_region_stride :: nat
  ha_parallel_gc_threads :: nat
  ha_mark_loop_stride :: nat

record HeapOptions =
  region_size_bytes :: nat
  region_size_words :: nat
  region_size_bytes_shift :: nat
  region_size_bytes_mask :: nat
  region_size_words_shift :: nat
  region_size_words_mask :: nat
  region_payload_size_bytes :: nat
  region_count :: nat
  humongous_threshold_words :: nat
  humongous_threshold_bytes :: nat
  max_heap_size :: nat
  max_tlab_size :: nat
  tlab_size :: nat
  min_tlab_size :: nat
  region_size_log2 :: nat
  elastic_tlab :: bool
  target_refills :: nat
  parallel_gc_threads :: nat
  parallel_region_stride :: nat
  mark_loop_stride :: nat

definition MIN_REGION_SIZE :: nat where "MIN_REGION_SIZE = 4 * 1024"
definition MIN_NUM_PAGES :: nat where "MIN_NUM_PAGES = 10"
definition MAX_REGION_SIZE :: nat where "MAX_REGION_SIZE = 32 * 1024 * 1024"

definition required_regions :: "HeapOptions \<Rightarrow> nat \<Rightarrow> nat" where
  "required_regions opts sz = drop_bit (region_size_bytes_shift opts) (sz + region_size_bytes opts - 1)"

definition align_nat :: "nat \<Rightarrow> nat \<Rightarrow> nat" where
  "align_nat v al = unat (align_usize (of_nat v) (of_nat al))"

text \<open>The base-2 logarithm in \<open>f64\<close>, truncated, of a size below \<open>2 ^ 48\<close> is the index of its highest bit.\<close>

definition log2_trunc :: "nat \<Rightarrow> nat" where
  "log2_trunc v = bit_length v - 1"

text \<open>The adjusted bounds and the region size \<open>setup_sizes\<close> starts from.\<close>

definition setup_min_region_size :: "HeapArguments \<Rightarrow> nat" where
  "setup_min_region_size args =
     (if ha_min_region_size args < MIN_REGION_SIZE then MIN_REGION_SIZE else ha_min_region_size args)"

definition setup_region_size_arg :: "HeapArguments \<Rightarrow> nat" where
  "setup_region_size_arg args =
    (let target_num_regions = (if ha_target_num_regions args = 0 then 2048 else ha_target_num_regions args);
         max_region_size = (if ha_max_region_size args = 0 \<or> ha_max_region_size args < ha_min_region_size args
                            then MAX_REGION_SIZE else ha_max_region_size args)
     in if ha_region_size args \<noteq> 0 then ha_region_size args
        else min max_region_size (max (ha_max_heap_size args div target_num_regions) (setup_min_region_size args)))"

text \<open>The options computed from them.\<close>

definition setup_opts :: "nat \<Rightarrow> HeapArguments \<Rightarrow> HeapOptions" where
  "setup_opts page_size args =
    (let region_size = align_nat (setup_region_size_arg args) page_size;
         max_heap = align_nat (ha_max_heap_size args) region_size;
         region_size_log = log2_trunc region_size;
         region_size = 2 ^ region_size_log;
         max_heap = align_nat max_heap region_size;
         region_words = region_size div 8;
         threshold = (if ha_humongous_threshold args = 0 then 100 else ha_humongous_threshold args);
         threshold_words = unat (align_down (of_nat (region_words * threshold div 100)) 8);
         threshold_bytes = threshold_words * 8;
         min_tlab = (if ha_min_tlab_size args < 2 * 1024 then 2 * 1024 else ha_min_tlab_size args)
     in \<lparr>region_size_bytes = region_size, region_size_words = region_words,
         region_size_bytes_shift = region_size_log, region_size_bytes_mask = region_size - 1,
         region_size_words_shift = region_size_log - 3, region_size_words_mask = region_size - 1,
         region_payload_size_bytes = 0, region_count = max_heap div region_size,
         humongous_threshold_words = threshold_words, humongous_threshold_bytes = threshold_bytes,
         max_heap_size = max_heap, max_tlab_size = max min_tlab (min (region_size div 8) threshold_bytes),
         tlab_size = (if ha_tlab_size args \<noteq> 0 then min (ha_tlab_size args) threshold_bytes else ha_tlab_size args),
         min_tlab_size = min_tlab,
         region_size_log2 = region_size_log, elastic_tlab = ha_elastic_tlab args,
         target_refills = max (100 div (2 * ha_tlab_waste_target_percent args)) 2,
         parallel_gc_threads = ha_parallel_gc_threads args,
         parallel_region_stride = ha_parallel_region_stride args,
         mark_loop_stride = max (ha_mark_loop_stride args) 32\<rparr>)"

definition setup_sizes :: "nat \<Rightarrow> HeapArguments \<Rightarrow> HeapOptions res" where
  "setup_sizes page_size args =
    (if ha_tlab_waste_target_percent args = 0 then Inl DivByZero
     else if setup_min_region_size args > ha_max_heap_size args div MIN_NUM_PAGES then Inl ExplicitPanic
     else let opts = setup_opts page_size args in
          if ha_parallel_region_stride args = 0 \<and> ha_parallel_gc_threads args \<noteq> 0 \<or> ha_parallel_region_stride args = 1024
          then if ha_parallel_gc_threads args = 0 then Inl DivByZero
               else Inr (opts\<lparr>parallel_region_stride := region_count opts div ha_parallel_gc_threads args\<rparr>)
          else Inr opts)"

section \<open>Regions\<close>

datatype RegionState = Regular | HumongousStart | HumongousCont | EmptyUncommited | EmptyCommited | Trash

record HeapRegion =
  hr_typ :: RegionState
  hr_index :: nat
  hr_used :: nat
  hr_visited :: bool
  hr_object_start_bitmap :: HeapBitmap
  hr_begin :: addr
  hr_end :: addr
  hr_free_list :: FreeList
  hr_largest_free_list_entry :: nat
  hr_last_sweep_free :: nat
  hr_empty_time :: nat
  hr_to_sweep :: bool

type_synonym region_state = "HeapRegion \<times> mem \<times> nat"

definition hr_size :: "HeapRegion \<Rightarrow> nat" where
  "hr_size r = hr_end r - hr_begin r"

definition hr_is_empty :: "HeapRegion \<Rightarrow> bool" where
  "hr_is_empty r \<longleftrightarrow> hr_typ r = EmptyUncommited \<or> hr_typ r = EmptyCommited"

definition hr_is_alloc_allowed :: "HeapRegion \<Rightarrow> bool" where
  "hr_is_alloc_allowed r \<longleftrightarrow> hr_typ r = Regular \<or> hr_is_empty r"

definition hr_is_trash :: "HeapRegion \<Rightarrow> bool" where
  "hr_is_trash r \<longleftrightarrow> hr_typ r = Trash"

definition hr_is_humongous_start :: "HeapRegion \<Rightarrow> bool" where
  "hr_is_humongous_start r \<longleftrightarrow> hr_typ r = HumongousStart"

definition hr_is_humongous_cont :: "HeapRegion \<Rightarrow> bool" where
  "hr_is_humongous_cont r \<longleftrightarrow> hr_typ r = HumongousCont"

definition hr_is_regular :: "HeapRegion \<Rightarrow> bool" where
  "hr_is_regular r \<longleftrightarrow> hr_typ r = Regular"

definition hr_contains :: "HeapRegion \<Rightarrow> addr \<Rightarrow> bool" where
  "hr_contains r p \<longleftrightarrow> hr_begin r \<le> p \<and> p < hr_end r"

definition hr_free :: "HeapRegion \<Rightarrow> nat" where
  "hr_free r = (if hr_typ r = EmptyUncommited \<or> hr_typ r = EmptyCommited then hr_size r
                else fl_free_bytes (hr_free_list r))"

definition hr_peek_free :: "HeapRegion \<Rightarrow> mem \<Rightarrow> nat res" where
  "hr_peek_free r m = fl_peek_free (hr_free_list r) m"

definition hr_make_trash :: "HeapRegion \<Rightarrow> HeapRegion" where
  "hr_make_trash r = r\<lparr>hr_typ := Trash\<rparr>"

definition hr_make_empty :: "nat \<Rightarrow> HeapRegion \<Rightarrow> HeapRegion" where
  "hr_make_empty now r = r\<lparr>hr_typ := EmptyCommited, hr_empty_time := now\<rparr>"

definition hr_do_commit :: "HeapRegion \<Rightarrow> nat \<Rightarrow> HeapRegion \<times> nat" where
  "hr_do_commit r com = (r\<lparr>hr_typ := EmptyCommited\<rparr>, com + hr_size r)"

definition hr_do_decommit :: "HeapRegion \<Rightarrow> nat \<Rightarrow> HeapRegion \<times> nat" where
  "hr_do_decommit r com =
     (r\<lparr>hr_free_list := fl_clear (hr_free_list r), hr_typ := EmptyUncommited\<rparr>, wrapping_sub com (hr_size r))"

definition hr_make_regular_allocation :: "region_state \<Rightarrow> region_state res" where
  "hr_make_regular_allocation s = (case s of (r, m, com) \<Rightarrow>
     let (r, com) = (if hr_typ r = EmptyUncommited then hr_do_commit r com else (r, com)) in
     rbind (if hr_typ r = EmptyCommited
            then rbind (fl_add (hr_free_list r) m (hr_begin r) (hr_size r)) (\<lambda>(fl, m). Inr (r\<lparr>hr_free_list := fl\<rparr>, m))
            else Inr (r, m))
       (\<lambda>(r, m). Inr (r\<lparr>hr_typ := Regular\<rparr>, m, com)))"

definition hr_allocate :: "region_state \<Rightarrow> nat \<Rightarrow> (addr option \<times> region_state) res" where
  "hr_allocate s sz =
     rbind (hr_make_regular_allocation s) (\<lambda>(r, m, com).
     rbind (fl_allocate (hr_free_list r) m sz) (\<lambda>(res, fl, m).
       let r = r\<lparr>hr_free_list := fl\<rparr> in
       case res of
         None \<Rightarrow> Inr (None, r, m, com)
       | Some (result, bsz) \<Rightarrow>
           if bsz > sz then
             let remainder = result + sz; remainder_size = result + bsz - remainder in
             rbind (fl_add (hr_free_list r) m remainder remainder_size) (\<lambda>(fl, m).
               Inr (Some result, r\<lparr>hr_free_list := fl, hr_used := hr_used r + (bsz - remainder_size)\<rparr>, m, com))
           else Inr (Some result, r\<lparr>hr_used := hr_used r + bsz\<rparr>, m, com)))"

definition hr_make_humongous :: "RegionState \<Rightarrow> HeapRegion \<Rightarrow> nat \<Rightarrow> HeapRegion \<times> nat" where
  "hr_make_humongous t r com =
     (let (r, com) = (if hr_typ r = EmptyUncommited then hr_do_commit r com else (r, com))
      in (r\<lparr>hr_typ := t, hr_free_list := fl_clear (hr_free_list r)\<rparr>, com))"

definition hr_make_humongous_start :: "HeapRegion \<Rightarrow> nat \<Rightarrow> HeapRegion \<times> nat" where
  "hr_make_humongous_start = hr_make_humongous HumongousStart"

definition hr_make_humongous_cont :: "HeapRegion \<Rightarrow> nat \<Rightarrow> HeapRegion \<times> nat" where
  "hr_make_humongous_cont = hr_make_humongous HumongousCont"

definition hr_recycle :: "nat \<Rightarrow> HeapRegion \<Rightarrow> HeapRegion" where
  "hr_recycle now r =
     (let r = r\<lparr>hr_free_list := fl_clear (hr_free_list r)\<rparr>;
          r = (if hr_typ r = Trash then hr_make_empty now r else r)
      in r\<lparr>hr_object_start_bitmap := hb_clear (hr_object_start_bitmap r), hr_used := 0,
           hr_largest_free_list_entry := hr_size r\<rparr>)"

definition HeapRegion_new :: "nat \<Rightarrow> (nat \<Rightarrow> u8) \<Rightarrow> nat \<Rightarrow> nat \<Rightarrow> nat \<Rightarrow> HeapOptions \<Rightarrow> bool \<Rightarrow> HeapRegion" where
  "HeapRegion_new bmp_base bmp_raw now index start opts is_commited =
     hr_recycle now
       \<lparr>hr_typ = (if is_commited then EmptyCommited else EmptyUncommited), hr_index = index, hr_used = 0, hr_visited = False,
        hr_object_start_bitmap = hb_new bmp_base bmp_raw start (region_size_bytes opts),
        hr_begin = start, hr_end = start + region_size_bytes opts,
        hr_free_list = FreeList_new (region_size_log2 opts), hr_largest_free_list_entry = 0,
        hr_last_sweep_free = 0, hr_empty_time = now, hr_to_sweep = False\<rparr>"


section \<open>Sizing lemmas\<close>

lemma align_nat_eq:
  assumes "0 < al" "v + al \<le> 2 ^ 64" "al < 2 ^ 64" "v < 2 ^ 64"
  shows "align_nat v al = (v + al - 1) div al * al"
proof -
  have "unat (of_nat v :: u64) = v" "unat (of_nat al :: u64) = al"
    using assms by (auto simp: unat_of_nat take_bit_nat_eq_self)
  then show ?thesis using assms unat_align_usize [of "of_nat al" "of_nat v"] by (simp add: align_nat_def)
qed

lemma round_up_bounds:
  assumes "0 < (al::nat)"
  shows "v \<le> (v + al - 1) div al * al" "(v + al - 1) div al * al < v + al" "al dvd (v + al - 1) div al * al"
proof -
  have e: "(v + al - 1) div al * al + (v + al - 1) mod al = v + al - 1" by simp
  moreover have "(v + al - 1) mod al < al" using assms by simp
  ultimately show "v \<le> (v + al - 1) div al * al" "(v + al - 1) div al * al < v + al" using assms by linarith+
qed simp

definition opts_ok :: "HeapOptions \<Rightarrow> bool" where
  "opts_ok opts \<longleftrightarrow> region_size_bytes opts = 2 ^ region_size_log2 opts \<and>
     region_size_bytes_shift opts = region_size_log2 opts \<and>
     region_size_bytes_mask opts = region_size_bytes opts - 1 \<and>
     12 \<le> region_size_log2 opts \<and> region_size_log2 opts \<le> 30"

lemma required_regions_eq:
  assumes "opts_ok opts"
  shows "required_regions opts sz = (sz + region_size_bytes opts - 1) div region_size_bytes opts"
  using assms by (simp add: required_regions_def opts_ok_def drop_bit_eq_div)

lemma required_regions_cover:
  assumes "opts_ok opts"
  shows "sz \<le> required_regions opts sz * region_size_bytes opts"
    "required_regions opts sz * region_size_bytes opts < sz + region_size_bytes opts"
  using round_up_bounds [of "region_size_bytes opts" sz] assms
  by (auto simp: required_regions_eq opts_ok_def)

lemma log2_trunc_bounds: "0 < v \<Longrightarrow> 2 ^ log2_trunc v \<le> v \<and> v < 2 ^ Suc (log2_trunc v)"
  using bit_length_bounds [of v] bit_length_pos [of v] by (simp add: log2_trunc_def)

definition args_ok :: "nat \<Rightarrow> HeapArguments \<Rightarrow> bool" where
  "args_ok page args \<longleftrightarrow> 4096 \<le> page \<and> page \<le> 2 ^ 20 \<and> ha_region_size args \<le> 2 ^ 29 \<and>
     ha_max_region_size args \<le> 2 ^ 29 \<and> ha_max_heap_size args < 2 ^ 47 \<and> ha_humongous_threshold args \<le> 100"

lemma setup_region_size:
  assumes "args_ok page args" "0 < rs" "rs \<le> 2 ^ 29"
  defines "rs1 \<equiv> align_nat rs page"
  shows "page \<le> rs1" "rs1 \<le> 2 ^ 30" "12 \<le> log2_trunc rs1" "log2_trunc rs1 \<le> 30"
proof -
  have p: "0 < page" "4096 \<le> page" "page \<le> 2 ^ 20" using assms(1) by (auto simp: args_ok_def)
  have e: "rs1 = (rs + page - 1) div page * page"
    unfolding rs1_def using p assms(3) by (intro align_nat_eq) auto
  note b = round_up_bounds [OF p(1), of rs, folded e]
  show pg: "page \<le> rs1" using b(1,3) assms(2) by (auto intro: dvd_imp_le)
  show le: "rs1 \<le> 2 ^ 30" using b(2) p(3) assms(3) by simp
  have "0 < rs1" using pg p by simp
  note l = log2_trunc_bounds [OF this]
  have "(2::nat) ^ 12 < 2 ^ Suc (log2_trunc rs1)"
    using l pg p(2) by (auto intro: le_less_trans)
  then show "12 \<le> log2_trunc rs1" by (subst (asm) power_strict_increasing_iff) auto
  have "(2::nat) ^ log2_trunc rs1 \<le> 2 ^ 30" using l le by (blast intro: le_trans)
  then show "log2_trunc rs1 \<le> 30" by (subst (asm) power_increasing_iff) auto
qed


lemma setup_region_size_arg_bounds:
  "args_ok page args \<Longrightarrow> 0 < setup_region_size_arg args \<and> setup_region_size_arg args \<le> 2 ^ 29"
  by (auto simp: args_ok_def setup_region_size_arg_def setup_min_region_size_def Let_def MAX_REGION_SIZE_def MIN_REGION_SIZE_def min_def max_def)

lemma setup_opts_fields:
  fixes page args
  defines "rs \<equiv> align_nat (setup_region_size_arg args) page"
  defines "th \<equiv> (if ha_humongous_threshold args = 0 then 100 else ha_humongous_threshold args)"
  shows "region_size_log2 (setup_opts page args) = log2_trunc rs" "region_size_bytes (setup_opts page args) = 2 ^ log2_trunc rs"
    "region_size_bytes_shift (setup_opts page args) = log2_trunc rs"
    "region_size_bytes_mask (setup_opts page args) = 2 ^ log2_trunc rs - 1"
    "max_heap_size (setup_opts page args) = align_nat (align_nat (ha_max_heap_size args) rs) (2 ^ log2_trunc rs)"
    "region_count (setup_opts page args) = max_heap_size (setup_opts page args) div 2 ^ log2_trunc rs"
    "humongous_threshold_bytes (setup_opts page args) = unat (align_down (of_nat (2 ^ log2_trunc rs div 8 * th div 100)) 8) * 8"
    "region_payload_size_bytes (setup_opts page args) = 0"
  by (simp_all only: setup_opts_def Let_def HeapOptions.select_convs rs_def th_def)

lemma setup_sizes_fields:
  assumes "setup_sizes page args = Inr opts"
  defines "rs \<equiv> align_nat (setup_region_size_arg args) page"
  defines "th \<equiv> (if ha_humongous_threshold args = 0 then 100 else ha_humongous_threshold args)"
  shows "region_size_log2 opts = log2_trunc rs" "region_size_bytes opts = 2 ^ log2_trunc rs"
    "region_size_bytes_shift opts = log2_trunc rs" "region_size_bytes_mask opts = region_size_bytes opts - 1"
    "max_heap_size opts = align_nat (align_nat (ha_max_heap_size args) rs) (2 ^ log2_trunc rs)"
    "region_count opts = max_heap_size opts div region_size_bytes opts"
    "humongous_threshold_bytes opts = unat (align_down (of_nat (2 ^ log2_trunc rs div 8 * th div 100)) 8) * 8"
    "region_payload_size_bytes opts = 0"
proof -
  have o: "opts = setup_opts page args \<or> (\<exists>st. opts = setup_opts page args\<lparr>parallel_region_stride := st\<rparr>)"
    using assms(1) by (auto simp: setup_sizes_def Let_def split: if_splits)
  have e: "region_size_log2 opts = region_size_log2 (setup_opts page args)"
    "region_size_bytes opts = region_size_bytes (setup_opts page args)"
    "region_size_bytes_shift opts = region_size_bytes_shift (setup_opts page args)"
    "region_size_bytes_mask opts = region_size_bytes_mask (setup_opts page args)"
    "max_heap_size opts = max_heap_size (setup_opts page args)"
    "region_count opts = region_count (setup_opts page args)"
    "humongous_threshold_bytes opts = humongous_threshold_bytes (setup_opts page args)"
    "region_payload_size_bytes opts = region_payload_size_bytes (setup_opts page args)"
    using o by auto
  note f = setup_opts_fields [of page args, folded rs_def th_def]
  show "region_size_log2 opts = log2_trunc rs" "region_size_bytes opts = 2 ^ log2_trunc rs"
    "region_size_bytes_shift opts = log2_trunc rs" "region_size_bytes_mask opts = region_size_bytes opts - 1"
    "max_heap_size opts = align_nat (align_nat (ha_max_heap_size args) rs) (2 ^ log2_trunc rs)"
    "region_count opts = max_heap_size opts div region_size_bytes opts"
    "humongous_threshold_bytes opts = unat (align_down (of_nat (2 ^ log2_trunc rs div 8 * th div 100)) 8) * 8"
    "region_payload_size_bytes opts = 0"
    by (simp_all only: e f)
qed

lemma setup_max_heap:
  assumes a: "args_ok page args" and s: "setup_sizes page args = Inr opts"
  shows "max_heap_size opts = region_count opts * region_size_bytes opts" "ha_max_heap_size args \<le> max_heap_size opts"
proof -
  define rs where "rs = align_nat (setup_region_size_arg args) page"
  note f = setup_sizes_fields [OF s, folded rs_def]
  have rsb: "page \<le> rs" "rs \<le> 2 ^ 30" "log2_trunc rs \<le> 30"
    using setup_region_size [OF a] setup_region_size_arg_bounds [OF a] by (auto simp: rs_def)
  have p: "4096 \<le> page" "ha_max_heap_size args < 2 ^ 47" using a by (auto simp: args_ok_def)
  define mh where "mh = align_nat (ha_max_heap_size args) rs"
  have "mh = (ha_max_heap_size args + rs - 1) div rs * rs" unfolding mh_def using rsb p by (intro align_nat_eq) auto
  then have mh: "ha_max_heap_size args \<le> mh" "mh < 2 ^ 48"
    using round_up_bounds [of rs "ha_max_heap_size args"] rsb p by auto
  have pw: "(2::nat) ^ log2_trunc rs \<le> 2 ^ 30" using rsb(3) by (intro power_increasing) auto
  have e: "max_heap_size opts = (mh + 2 ^ log2_trunc rs - 1) div 2 ^ log2_trunc rs * 2 ^ log2_trunc rs"
    unfolding f(5) mh_def [symmetric] using mh pw by (intro align_nat_eq) auto
  show "max_heap_size opts = region_count opts * region_size_bytes opts" unfolding f(6) f(2) by (simp add: e)
  show "ha_max_heap_size args \<le> max_heap_size opts"
    unfolding e using round_up_bounds(1) [of "2 ^ log2_trunc rs" mh] mh by simp
qed

lemma setup_opts_ok:
  assumes a: "args_ok page args" and s: "setup_sizes page args = Inr opts"
  shows "opts_ok opts"
  using setup_sizes_fields [OF s] setup_region_size [OF a] setup_region_size_arg_bounds [OF a]
  by (auto simp: opts_ok_def)

lemma setup_threshold:
  assumes a: "args_ok page args" and s: "setup_sizes page args = Inr opts"
  shows "humongous_threshold_bytes opts \<le> region_size_bytes opts" "64 dvd humongous_threshold_bytes opts"
proof -
  define rs where "rs = align_nat (setup_region_size_arg args) page"
  define th where "th = (if ha_humongous_threshold args = 0 then 100 else ha_humongous_threshold args)"
  note f = setup_sizes_fields [OF s, folded rs_def th_def]
  have th: "th \<le> 100" using a by (auto simp: th_def args_ok_def)
  define w where "w = 2 ^ log2_trunc rs div 8 * th div 100"
  have l: "12 \<le> log2_trunc rs" "log2_trunc rs \<le> 30"
    using setup_region_size [OF a] setup_region_size_arg_bounds [OF a] by (auto simp: rs_def)
  have "2 ^ log2_trunc rs div 8 * th \<le> 2 ^ log2_trunc rs div 8 * 100" using th by (intro mult_le_mono2)
  then have wle: "w \<le> 2 ^ log2_trunc rs div 8" unfolding w_def by (metis div_le_mono nonzero_mult_div_cancel_right zero_neq_numeral)
  have "(2::nat) ^ log2_trunc rs \<le> 2 ^ 30" using l by (intro power_increasing) auto
  then have "w < 2 ^ 64" using wle by simp
  then have "unat (of_nat w :: u64) = w" by (simp add: unat_of_nat take_bit_nat_eq_self)
  then have "unat (align_down (of_nat w) 8) = w div 8 * 8"
    using unat_align_down [of 3 "of_nat w"] by simp
  then have t: "humongous_threshold_bytes opts = w div 8 * 8 * 8" unfolding f(7) w_def [symmetric] by simp
  have "w div 8 * 8 * 8 \<le> w * 8" by simp
  also have "\<dots> \<le> 2 ^ log2_trunc rs" using wle by simp
  finally show "humongous_threshold_bytes opts \<le> region_size_bytes opts" unfolding t f(2) .
  show "64 dvd humongous_threshold_bytes opts" unfolding t by simp
qed

lemma setup_opts_words:
  "region_size_words (setup_opts page args) = region_size_bytes (setup_opts page args) div 8"
  "region_size_words_shift (setup_opts page args) = region_size_log2 (setup_opts page args) - 3"
  "region_size_words_mask (setup_opts page args) = region_size_bytes (setup_opts page args) - 1"
  unfolding setup_opts_def Let_def by (simp_all only: HeapOptions.simps)


abbreviation default_args :: HeapArguments where
  "default_args \<equiv> \<lparr>ha_max_region_size = 33554432, ha_min_region_size = 4096, ha_target_num_regions = 2048,
     ha_humongous_threshold = 100, ha_region_size = 0, ha_elastic_tlab = False, ha_min_tlab_size = 2048,
     ha_tlab_size = 0, ha_tlab_waste_target_percent = 1, ha_max_heap_size = 100663296,
     ha_parallel_region_stride = 1024, ha_parallel_gc_threads = 2, ha_mark_loop_stride = 1000\<rparr>"


section \<open>Allocation in a region\<close>

text \<open>\<open>region_inv n r m B\<close>: the region covers \<open>2 ^ n\<close> bytes, its free list represents the blocks \<open>B\<close>,
  which lie inside the region, and an empty region has no blocks on the list.\<close>

definition region_inv :: "nat \<Rightarrow> HeapRegion \<Rightarrow> mem \<Rightarrow> block multiset \<Rightarrow> bool" where
  "region_inv n r m B \<longleftrightarrow> 12 \<le> n \<and> n \<le> 30 \<and> 0 < hr_begin r \<and> hr_begin r mod 16 = 0 \<and>
     hr_end r = hr_begin r + 2 ^ n \<and> hr_end r < 2 ^ 64 \<and>
     fl_store (Suc n) (hr_free_list r, m) B \<and>
     (\<forall>b \<in># B. block_bytes b \<subseteq> {hr_begin r ..< hr_end r}) \<and> (hr_is_empty r \<longrightarrow> B = {#})"

text \<open>The blocks allocation can draw from: all of an empty region, the free list otherwise.\<close>

definition region_blocks :: "HeapRegion \<Rightarrow> block multiset \<Rightarrow> block multiset" where
  "region_blocks r B = (if hr_is_empty r then {#(hr_begin r, hr_size r)#} else B)"

lemma bag_bytes_mset: "bag_bytes (mset xs) = sum_list (map snd xs)"
  by (induction xs) auto

lemma fl_store_free_bytes: "fl_store n s B \<Longrightarrow> fl_free_bytes (fst s) = bag_bytes B"
  by (auto simp: fl_store_def fl_rep_def bag_bytes_mset)

lemma region_free_eq: "region_inv n r m B \<Longrightarrow> hr_free r = bag_bytes (region_blocks r B)"
  using fl_store_free_bytes [of "Suc n" "(hr_free_list r, m)" B]
  by (auto simp: region_inv_def hr_free_def region_blocks_def hr_is_empty_def)

lemma fl_store_clear: "fl_store n (fl, m) B \<Longrightarrow> fl_store n (fl_clear fl, m) {#}"
proof -
  assume "fl_store n (fl, m) B"
  then obtain bss where "fl_rep fl m bss" "length bss = n" by (auto simp: fl_store_def)
  moreover from this have "fl_rep (fl_clear fl) m (replicate (length bss) [])" by (intro fl_rep_clear)
  moreover have "all_blocks (replicate (length bss) []) = []" by (simp add: all_blocks_def)
  ultimately show ?thesis unfolding fl_store_def
    by (intro exI [of _ "replicate (length bss) []"]) simp
qed

lemma region_invD:
  assumes "region_inv n r m B"
  shows "12 \<le> n" "n \<le> 30" "0 < hr_begin r" "hr_begin r mod 16 = 0" "hr_end r = hr_begin r + 2 ^ n" "hr_end r < 2 ^ 64"
    "fl_store (Suc n) (hr_free_list r, m) B" "\<forall>b \<in># B. block_bytes b \<subseteq> {hr_begin r ..< hr_end r}"
    "hr_is_empty r \<Longrightarrow> B = {#}"
  using assms unfolding region_inv_def by blast+

lemma region_inv_change:
  assumes "region_inv n r m B" "fl_store (Suc n) (hr_free_list r', m') B'" "hr_begin r' = hr_begin r" "hr_end r' = hr_end r"
    "\<forall>b \<in># B'. block_bytes b \<subseteq> {hr_begin r ..< hr_end r}" "hr_is_empty r' \<Longrightarrow> B' = {#}"
  shows "region_inv n r' m' B'"
  unfolding region_inv_def assms(3,4)
  by (intro conjI impI region_invD [OF assms(1)] assms(2,5,6))

text \<open>The fields an allocation leaves alone.\<close>

definition same_place :: "HeapRegion \<Rightarrow> HeapRegion \<Rightarrow> bool" where
  "same_place r r' \<longleftrightarrow> hr_begin r' = hr_begin r \<and> hr_end r' = hr_end r \<and> hr_index r' = hr_index r \<and>
     hr_object_start_bitmap r' = hr_object_start_bitmap r \<and> hr_to_sweep r' = hr_to_sweep r"

lemma same_place_size: "same_place r r' \<Longrightarrow> hr_size r' = hr_size r"
  by (simp add: same_place_def hr_size_def)

lemma make_regular_spec:
  assumes inv: "region_inv n r m B"
  shows "\<exists>r' m' com'. hr_make_regular_allocation (r, m, com) = Inr (r', m', com') \<and> hr_typ r' = Regular \<and>
    region_inv n r' m' (region_blocks r B) \<and> same_place r r' \<and> hr_used r' = hr_used r \<and>
    (\<forall>x. x \<notin> {hr_begin r ..< hr_end r} \<longrightarrow> m' x = m x)"
proof (cases "hr_is_empty r")
  case True
  define r1 where "r1 = r\<lparr>hr_typ := EmptyCommited\<rparr>"
  define com1 where "com1 = (if hr_typ r = EmptyUncommited then com + hr_size r else com)"
  have st: "fl_store (Suc n) (hr_free_list r, m) {#}" and sz: "hr_size r = 2 ^ n"
    and b: "12 \<le> n" "n \<le> 30" "0 < hr_begin r" "hr_begin r mod 16 = 0" "hr_begin r + 2 ^ n < 2 ^ 64"
    using inv True by (auto simp: region_inv_def hr_size_def)
  have "16 dvd (2::nat) ^ n" using b(1) le_imp_power_dvd [of 4 n "2::nat"] by simp
  moreover from this have "16 \<le> (2::nat) ^ n" by (rule dvd_imp_le) simp
  moreover have "(2::nat) ^ n < 2 ^ Suc n" by simp
  moreover have "hr_begin r mod 8 = 0" using b(4) by presburger
  ultimately have wf: "wf_block (Suc n) (hr_begin r, hr_size r)"
    using b by (simp add: wf_block_def sz)
  obtain fl m' where g: "fl_add (hr_free_list r) m (hr_begin r) (hr_size r) = Inr (fl, m')"
    "fl_store (Suc n) (fl, m') {#(hr_begin r, hr_size r)#}"
    "\<forall>x. x \<notin> block_bytes (hr_begin r, hr_size r) \<longrightarrow> m' x = m x"
    using fls.give_law [OF st wf] by (auto simp: fl_give_def)
  have "hr_make_regular_allocation (r, m, com) = Inr (r1\<lparr>hr_free_list := fl, hr_typ := Regular\<rparr>, m', com1)"
    using True g(1) by (auto simp: hr_make_regular_allocation_def hr_is_empty_def hr_do_commit_def r1_def com1_def
        Let_def hr_size_def)
  then show ?thesis
    using g(2,3) inv True
    by (auto simp: region_inv_def region_blocks_def r1_def hr_is_empty_def same_place_def block_bytes_def hr_size_def)
next
  case False
  then have "hr_make_regular_allocation (r, m, com) = Inr (r\<lparr>hr_typ := Regular\<rparr>, m, com)"
    by (auto simp: hr_make_regular_allocation_def hr_is_empty_def Let_def)
  moreover have "region_inv n (r\<lparr>hr_typ := Regular\<rparr>) m B"
  proof (rule region_inv_change [OF inv])
    show "fl_store (Suc n) (hr_free_list (r\<lparr>hr_typ := Regular\<rparr>), m) B"
      "\<forall>b \<in># B. block_bytes b \<subseteq> {hr_begin r ..< hr_end r}" using region_invD(7,8) [OF inv] by simp_all
  qed (simp_all add: hr_is_empty_def)
  ultimately show ?thesis
    using False by (simp add: region_blocks_def same_place_def)
qed


lemma recycle_inv: "region_inv n r m B \<Longrightarrow> region_inv n (hr_recycle now r) m {#}"
  by (rule region_inv_change, assumption)
    (auto simp: hr_recycle_def hr_make_empty_def Let_def intro: fl_store_clear dest: region_invD(7))

lemma humongous_inv:
  assumes "region_inv n r m B"
  shows "region_inv n (fst (hr_make_humongous t r com)) m {#}"
  by (rule region_inv_change [OF assms])
    (auto simp: hr_make_humongous_def hr_do_commit_def Let_def intro: fl_store_clear [OF region_invD(7) [OF assms]])

lemma fl_store_new: "n < 32 \<Longrightarrow> fl_store (Suc n) (FreeList_new n, m) {#}"
  using fl_rep_new [of n m] unfolding fl_store_def
  by (intro exI [of _ "replicate (n + 1) []"]) (simp add: all_blocks_def)

lemma region_inv_new:
  assumes "opts_ok opts" "0 < start" "start mod 16 = 0" "start + region_size_bytes opts < 2 ^ 64"
  shows "region_inv (region_size_log2 opts) (HeapRegion_new base raw now index start opts cm) m {#}"
  unfolding HeapRegion_new_def
  by (rule recycle_inv [of _ _ _ "{#}"])
    (use assms fl_store_new [of "region_size_log2 opts" m] in \<open>simp add: region_inv_def opts_ok_def\<close>)

lemma hr_allocate_carve:
  assumes "hr_make_regular_allocation s = Inr (r, m, com)" "fls.carve (hr_free_list r, m) sz = Inr (res, fl', m')"
    "\<And>b s'. fl_take (hr_free_list r, m) sz = Inr (Some b, s') \<Longrightarrow> sz \<le> snd b"
  shows "hr_allocate s sz =
    Inr (res, r\<lparr>hr_free_list := fl', hr_used := hr_used r + (if res = None then 0 else sz)\<rparr>, m', com)"
proof -
  obtain t fl1 m1 where t: "fl_allocate (hr_free_list r) m sz = Inr (t, fl1, m1)"
    using assms(2) by (auto simp: fls.carve_def fl_take_def rbind_eq_Inr)
  show ?thesis
  proof (cases t)
    case None
    then show ?thesis
      using assms t by (auto simp: hr_allocate_def fls.carve_def fl_take_def fl_give_def Let_def)
  next
    case (Some b)
    obtain a bsz where b: "b = (a, bsz)" by fastforce
    have le: "sz \<le> bsz" using assms(3) [of b "(fl1, m1)"] t Some b by (simp add: fl_take_def)
    show ?thesis
    proof (cases "bsz > sz")
      case True
      then obtain fl2 m2 where g: "fl_add fl1 m1 (a + sz) (bsz - sz) = Inr (fl2, m2)" "res = Some a" "fl' = fl2" "m' = m2"
        using assms(2) t Some b by (auto simp: fls.carve_def fl_take_def fl_give_def rbind_eq_Inr split: prod.splits)
      have "bsz - (bsz - sz) = sz" using le by simp
      then show ?thesis
        using assms(1) t Some b True g by (simp add: hr_allocate_def Let_def)
    next
      case False
      then have "res = Some a" "fl' = fl1" "m' = m1" "bsz = sz"
        using assms(2) t Some b le by (auto simp: fls.carve_def fl_take_def)
      then show ?thesis using assms(1) t Some b by (simp add: hr_allocate_def Let_def)
    qed
  qed
qed

lemma sub_block_inside:
  assumes "b \<in># B" "\<forall>b \<in># B. block_bytes b \<subseteq> A" "B' = (B - {#b#}) + (if req < snd b then {#(fst b + req, snd b - req)#} else {#})" "req \<le> snd b"
  shows "\<forall>c \<in># B'. block_bytes c \<subseteq> A" "block_bytes (fst b, req) \<subseteq> A"
proof -
  have "block_bytes b \<subseteq> A" using assms by blast
  moreover have "block_bytes (fst b + req, snd b - req) \<subseteq> block_bytes b" "block_bytes (fst b, req) \<subseteq> block_bytes b"
    using assms(4) by (auto simp: block_bytes_def)
  ultimately show "block_bytes (fst b, req) \<subseteq> A" "\<forall>c \<in># B'. block_bytes c \<subseteq> A"
    using assms(2,3) by (auto dest: in_diffD split: if_splits)
qed

lemma hr_allocate_spec:
  assumes "region_inv n r m B" "16 \<le> sz" "16 dvd sz"
  shows "\<exists>res r' m' com' B'. hr_allocate (r, m, com) sz = Inr (res, r', m', com') \<and> hr_typ r' = Regular \<and>
    same_place r r' \<and> region_inv n r' m' B' \<and> (\<forall>x. x \<notin> {hr_begin r ..< hr_end r} \<longrightarrow> m' x = m x) \<and>
    (case res of
       None \<Rightarrow> hr_used r' = hr_used r \<and> B' = region_blocks r B \<and> (\<forall>b \<in># region_blocks r B. snd b < 2 * sz)
     | Some a \<Rightarrow> (\<exists>b \<in># region_blocks r B. a = fst b \<and> sz \<le> snd b) \<and>
         hr_begin r \<le> a \<and> a + sz \<le> hr_end r \<and> (\<forall>c \<in># B'. block_bytes (a, sz) \<inter> block_bytes c = {}) \<and>
         hr_used r' = hr_used r + sz \<and> bag_bytes B' + sz = bag_bytes (region_blocks r B))"
proof -
  let ?C = "region_blocks r B" and ?A = "{hr_begin r ..< hr_end r}"
  obtain r1 m1 com1 where mr: "hr_make_regular_allocation (r, m, com) = Inr (r1, m1, com1)" "hr_typ r1 = Regular"
    "region_inv n r1 m1 ?C" "same_place r r1" "hr_used r1 = hr_used r" "\<forall>x. x \<notin> ?A \<longrightarrow> m1 x = m x"
    using make_regular_spec [OF assms(1)] by blast
  have A: "{hr_begin r1 ..< hr_end r1} = ?A" using mr(4) by (simp add: same_place_def)
  have st: "fl_store (Suc n) (hr_free_list r1, m1) ?C" and ins: "\<forall>b \<in># ?C. block_bytes b \<subseteq> ?A"
    using region_invD(7,8) [OF mr(3)] unfolding A by blast+
  obtain res s1 where c0: "fls.carve (hr_free_list r1, m1) sz = Inr (res, s1)"
    and sp0: "case res of None \<Rightarrow> fl_store (Suc n) s1 ?C \<and> snd s1 = snd (hr_free_list r1, m1) \<and> (\<forall>b \<in># ?C. snd b < 2 * sz)
      | Some a \<Rightarrow> \<exists>b B'. fls.carved (Suc n) (hr_free_list r1, m1) sz ?C a s1 b B'"
    using fls.carve_spec [OF st assms(2,3)] by (elim exE conjE) (rule that)
  obtain fl' m' where s1: "s1 = (fl', m')" by fastforce
  note c = c0 [unfolded s1] and sp = sp0 [unfolded s1]
  have take_ge: "sz \<le> snd b" if "fl_take (hr_free_list r1, m1) sz = Inr (Some b, s')" for b s'
    using fls.take_law [OF st, of sz] that by auto
  define r' where "r' = r1\<lparr>hr_free_list := fl', hr_used := hr_used r1 + (if res = None then 0 else sz)\<rparr>"
  have al: "hr_allocate (r, m, com) sz = Inr (res, r', m', com1)"
    unfolding r'_def by (rule hr_allocate_carve [OF mr(1) c take_ge])
  have r': "hr_typ r' = Regular" "same_place r r'" using mr(2,4) by (auto simp: r'_def same_place_def)
  have inv': "region_inv n r' m' B'" if "fl_store (Suc n) (fl', m') B'" "\<forall>b \<in># B'. block_bytes b \<subseteq> ?A" for B'
    by (rule region_inv_change [OF assms(1)])
      (use that r' in \<open>simp_all add: r'_def hr_is_empty_def same_place_def\<close>)
  show ?thesis
  proof (cases res)
    case None
    then have "m' = m1" "fl_store (Suc n) (fl', m') ?C" "\<forall>b \<in># ?C. snd b < 2 * sz" using sp by auto
    with None al r' inv' [OF _ ins] mr(5,6) show ?thesis
      by (intro exI [of _ res] exI [of _ r'] exI [of _ m'] exI [of _ com1] exI [of _ ?C]) (simp add: r'_def)
  next
    case (Some a)
    then obtain b B' where cv: "fls.carved (Suc n) (hr_free_list r1, m1) sz ?C a (fl', m') b B'" using sp by auto
    then have b: "b \<in># ?C" "a = fst b" "sz \<le> snd b" "fl_store (Suc n) (fl', m') B'" "bag_bytes B' + sz = bag_bytes ?C"
      "\<forall>c \<in># B'. block_bytes (a, sz) \<inter> block_bytes c = {}"
      "B' = (?C - {#b#}) + (if sz < snd b then {#(fst b + sz, snd b - sz)#} else {#})"
      "\<forall>x. x \<notin> block_bytes b \<longrightarrow> m' x = m1 x"
      by (auto simp: fls.carved_def)
    note sub = sub_block_inside [OF b(1) ins b(7,3)]
    have "hr_begin r \<le> a" "a + sz \<le> hr_end r"
      using sub(2) assms(2) b(2) by (auto simp: block_bytes_def subset_eq dest: bspec [of _ _ "a + sz - 1"])
    moreover have "m' x = m x" if "x \<notin> ?A" for x
      using that b(1,8) ins mr(6) by (metis subsetD)
    ultimately show ?thesis
      using Some al r' inv' [OF b(4) sub(1)] b mr(5)
      by (intro exI [of _ res] exI [of _ r'] exI [of _ m'] exI [of _ com1] exI [of _ B']) (auto simp: r'_def)
  qed
qed

text \<open>Allocating a multiple of 16 bytes in a region never panics and leaves the region consistent. On
  success the returned range lies in the region, was free before (inside one free block, or anywhere in
  an empty region) and is disjoint from everything that stays free; exactly the requested bytes move
  from free to used, and memory outside the region is untouched. On failure used bytes and free blocks
  are unchanged and every free block is smaller than twice the request.\<close>

theorem region_allocate_correct:
  assumes "region_inv n r m B" "16 \<le> sz" "16 dvd sz"
  shows "\<exists>res r' m' com' B'. hr_allocate (r, m, com) sz = Inr (res, r', m', com') \<and> hr_typ r' = Regular \<and>
    same_place r r' \<and> region_inv n r' m' B' \<and> (\<forall>x. x \<notin> {hr_begin r ..< hr_end r} \<longrightarrow> m' x = m x) \<and>
    (case res of
       None \<Rightarrow> hr_used r' = hr_used r \<and> B' = region_blocks r B \<and> (\<forall>b \<in># region_blocks r B. snd b < 2 * sz)
     | Some a \<Rightarrow> (\<exists>b \<in># region_blocks r B. a = fst b \<and> sz \<le> snd b) \<and>
         hr_begin r \<le> a \<and> a + sz \<le> hr_end r \<and> (\<forall>c \<in># B'. block_bytes (a, sz) \<inter> block_bytes c = {}) \<and>
         hr_used r' = hr_used r + sz \<and> bag_bytes B' + sz = bag_bytes (region_blocks r B))"
  by (rule hr_allocate_spec [OF assms])

abbreviation small_opts :: HeapOptions where
  "small_opts \<equiv> \<lparr>region_size_bytes = 4096, region_size_words = 512, region_size_bytes_shift = 12,
     region_size_bytes_mask = 4095, region_size_words_shift = 9, region_size_words_mask = 4095,
     region_payload_size_bytes = 0, region_count = 4, humongous_threshold_words = 512, humongous_threshold_bytes = 4096,
     max_heap_size = 16384, max_tlab_size = 2048, tlab_size = 0, min_tlab_size = 2048, region_size_log2 = 12,
     elastic_tlab = False, target_refills = 50, parallel_gc_threads = 2, parallel_region_stride = 2, mark_loop_stride = 1000\<rparr>"

abbreviation small_region :: HeapRegion where
  "small_region \<equiv> HeapRegion_new 64 (\<lambda>_. 0) 0 1 4096 small_opts True"

lemma small_region_inv: "region_inv 12 small_region (\<lambda>_. 0) {#}"
  using region_inv_new [of small_opts 4096] by (simp add: opts_ok_def)

theorem region_allocate_correct_witness:
  "\<exists>res r' m' com' B'. hr_allocate (small_region, \<lambda>_. 0, 0) 48 = Inr (res, r', m', com') \<and> hr_typ r' = Regular \<and>
    same_place small_region r' \<and> region_inv 12 r' m' B' \<and>
    (\<forall>x. x \<notin> {hr_begin small_region ..< hr_end small_region} \<longrightarrow> m' x = 0) \<and>
    (case res of
       None \<Rightarrow> hr_used r' = hr_used small_region \<and> B' = region_blocks small_region {#} \<and> (\<forall>b \<in># region_blocks small_region {#}. snd b < 2 * 48)
     | Some a \<Rightarrow> (\<exists>b \<in># region_blocks small_region {#}. a = fst b \<and> 48 \<le> snd b) \<and>
         hr_begin small_region \<le> a \<and> a + 48 \<le> hr_end small_region \<and> (\<forall>c \<in># B'. block_bytes (a, 48) \<inter> block_bytes c = {}) \<and>
         hr_used r' = hr_used small_region + 48 \<and> bag_bytes B' + 48 = bag_bytes (region_blocks small_region {#}))"
  by (rule region_allocate_correct [OF small_region_inv]) simp_all

end
