(* ===== verification/FreeSet.thy ===== *)
theory FreeSet
  imports RegionModel
begin

unbundle bit_operations_syntax

text \<open>
  \<open>heap/free_set.rs\<close> and the parts of \<open>heap/heap.rs\<close> it works on: the heap with its regions, and the
  free set, which remembers in a bitmap the regions a mutator may allocate from. Small requests are
  served first-fit from a single region; requests above the humongous threshold take a run of
  completely free regions. The clock value of \<open>recycle\<close> is an argument \<open>now\<close>. Byte counters are
  natural numbers: they never come near \<open>2 ^ 64\<close> on a heap that fits the address space.
\<close>

section \<open>State\<close>

record RegionFreeSet =
  mutator_free_bitmap :: DynBitmap
  mutator_leftmost :: nat
  mutator_rightmost :: nat
  fs_max :: nat
  fs_capacity :: nat
  fs_used :: nat
  fs_free_list :: FreeList

record Heap =
  hp_opts :: HeapOptions
  hp_mem_start :: addr
  hp_mem_size :: nat
  hp_regions :: "HeapRegion list"
  hp_memory :: mem
  hp_free_set :: RegionFreeSet
  hp_initial_size :: nat
  hp_minimum_size :: nat
  hp_commited :: nat
  hp_allocated :: nat
  hp_cancelled_gc :: nat
  hp_progress_last_gc :: bool
  hp_concurrent_mark_in_progress :: bool

definition get_region :: "Heap \<Rightarrow> nat \<Rightarrow> HeapRegion res" where
  "get_region h i = (if i < length (hp_regions h) then Inr (hp_regions h ! i) else Inl IndexOutOfBounds)"

text \<open>Writing back the region that a pointer from \<open>get_region\<close> was used to change.\<close>

definition put_region :: "Heap \<Rightarrow> nat \<Rightarrow> HeapRegion \<Rightarrow> Heap" where
  "put_region h i r = h\<lparr>hp_regions := (hp_regions h)[i := r]\<rparr>"

definition notify_mutator_alloc :: "Heap \<Rightarrow> nat \<Rightarrow> Heap" where
  "notify_mutator_alloc h bytes = h\<lparr>hp_allocated := hp_allocated h + bytes\<rparr>"

section \<open>Bounds and bookkeeping\<close>

definition RegionFreeSet_new :: "HeapOptions \<Rightarrow> RegionFreeSet" where
  "RegionFreeSet_new opts =
     \<lparr>mutator_free_bitmap = db_contained 0, mutator_leftmost = 0, mutator_rightmost = 0, fs_max = 0,
      fs_capacity = 0, fs_used = 0, fs_free_list = FreeList_new (region_size_log2 opts)\<rparr>"

definition fs_set_heap :: "HeapOptions \<Rightarrow> RegionFreeSet \<Rightarrow> RegionFreeSet" where
  "fs_set_heap opts fs = fs\<lparr>mutator_free_bitmap := db_contained (region_count opts), fs_max := region_count opts\<rparr>"

definition fs_clear :: "RegionFreeSet \<Rightarrow> RegionFreeSet" where
  "fs_clear fs = fs\<lparr>mutator_free_bitmap := db_clear (mutator_free_bitmap fs), mutator_leftmost := fs_max fs,
     mutator_rightmost := 0, fs_capacity := 0, fs_used := 0\<rparr>"

definition is_mutator_free :: "RegionFreeSet \<Rightarrow> nat \<Rightarrow> bool" where
  "is_mutator_free fs i = db_get (mutator_free_bitmap fs) i"

definition mutator_count :: "RegionFreeSet \<Rightarrow> nat" where
  "mutator_count fs = db_count_ones (mutator_free_bitmap fs)"

definition fs_available :: "RegionFreeSet \<Rightarrow> nat res" where
  "fs_available fs = checked_sub (fs_capacity fs) (fs_used fs)"

function adjust_left :: "RegionFreeSet \<Rightarrow> nat \<Rightarrow> nat" where
  "adjust_left fs l = (if l < fs_max fs \<and> \<not> is_mutator_free fs l then adjust_left fs (l + 1) else l)"
  by auto
termination by (relation "measure (\<lambda>(fs, l). fs_max fs - l)") auto

fun adjust_right :: "RegionFreeSet \<Rightarrow> nat \<Rightarrow> nat" where
  "adjust_right fs 0 = 0"
| "adjust_right fs (Suc k) = (if \<not> is_mutator_free fs (Suc k) then adjust_right fs k else Suc k)"

declare adjust_left.simps [simp del]

definition adjust_bounds :: "RegionFreeSet \<Rightarrow> RegionFreeSet" where
  "adjust_bounds fs =
     (let fs = fs\<lparr>mutator_leftmost := adjust_left fs (mutator_leftmost fs)\<rparr>
      in fs\<lparr>mutator_rightmost := adjust_right fs (mutator_rightmost fs)\<rparr>)"

definition recompute_bounds :: "RegionFreeSet \<Rightarrow> RegionFreeSet res" where
  "recompute_bounds fs = rbind (checked_sub (fs_max fs) 1) (\<lambda>r.
     Inr (adjust_bounds (fs\<lparr>mutator_rightmost := r, mutator_leftmost := 0\<rparr>)))"

definition alloc_capacity :: "HeapOptions \<Rightarrow> HeapRegion \<Rightarrow> nat" where
  "alloc_capacity opts r = (if hr_is_trash r then region_size_bytes opts else hr_free r)"

definition can_allocate_from :: "HeapRegion \<Rightarrow> bool" where
  "can_allocate_from r \<longleftrightarrow> hr_is_empty r \<or> hr_is_trash r"

definition touches_bounds :: "RegionFreeSet \<Rightarrow> nat \<Rightarrow> bool" where
  "touches_bounds fs num \<longleftrightarrow> num = mutator_leftmost fs \<or> num = mutator_rightmost fs"

fun rebuild_loop :: "Heap \<Rightarrow> nat list \<Rightarrow> RegionFreeSet \<Rightarrow> RegionFreeSet res" where
  "rebuild_loop h [] fs = Inr fs"
| "rebuild_loop h (i # is) fs = rbind (get_region h i) (\<lambda>region.
     if hr_is_alloc_allowed region \<or> hr_is_trash region then
       if alloc_capacity (hp_opts h) region = 0 then rebuild_loop h is fs
       else
         let fs = fs\<lparr>fs_capacity := fs_capacity fs + alloc_capacity (hp_opts h) region\<rparr> in
         if \<not> fs_used fs \<le> fs_capacity fs then Inl AssertFailed
         else rebuild_loop h is (fs\<lparr>mutator_free_bitmap := db_set (mutator_free_bitmap fs) i True\<rparr>)
     else rebuild_loop h is fs)"

definition fs_rebuild :: "Heap \<Rightarrow> Heap res" where
  "fs_rebuild h =
     rbind (rebuild_loop h [0..<region_count (hp_opts h)] (fs_clear (hp_free_set h))) (\<lambda>fs.
     rbind (recompute_bounds fs) (\<lambda>fs. Inr (h\<lparr>hp_free_set := fs\<rparr>)))"

section \<open>Allocation in one region\<close>

definition try_recycle_trashed :: "nat \<Rightarrow> HeapRegion \<Rightarrow> HeapRegion" where
  "try_recycle_trashed now r = (if hr_is_trash r then hr_recycle now r else r)"

text \<open>The choice of the size and the allocation from the region: the result, the region state and the
  size that was asked of the region.\<close>

definition fs_region_allocate ::
  "HeapOptions \<Rightarrow> AllocRequest \<Rightarrow> region_state \<Rightarrow> (addr option \<times> region_state \<times> nat) res" where
  "fs_region_allocate opts req s =
     (let sz = ar_requested_size req in
      if elastic_tlab opts \<and> for_lab req then
        rbind (hr_peek_free (fst s) (fst (snd s))) (\<lambda>peek.
          let free = unat (align_down (of_nat peek) 16);
              sz = (if sz > free then free else sz)
          in if sz \<ge> ar_min_size req then
               rbind (hr_allocate s sz) (\<lambda>(res, s). if res = None then Inl AssertFailed else Inr (res, s, sz))
             else Inr (None, s, sz))
      else rbind (hr_allocate s sz) (\<lambda>(res, s). Inr (res, s, sz)))"

text \<open>A region that cannot serve this or any future request leaves the free set; what is left of it
  counts as used.\<close>

definition fs_retire :: "Heap \<Rightarrow> HeapRegion \<Rightarrow> Heap" where
  "fs_retire h region =
     (let waste = hr_free region;
          fs = hp_free_set h;
          h = (if waste > 0 then notify_mutator_alloc h waste else h);
          fs = (if waste > 0 then fs\<lparr>fs_used := fs_used fs + waste\<rparr> else fs);
          num = hr_index region;
          fs = fs\<lparr>mutator_free_bitmap := db_set (mutator_free_bitmap fs) num False\<rparr>;
          fs = (if touches_bounds fs num then adjust_bounds fs else fs)
      in h\<lparr>hp_free_set := fs\<rparr>)"

text \<open>What follows the allocation: accounting, the object start bit, and retirement.\<close>

definition finish_allocation ::
  "Heap \<Rightarrow> nat \<Rightarrow> AllocRequest \<Rightarrow> addr option \<Rightarrow> region_state \<Rightarrow> nat \<Rightarrow> Heap \<times> AllocRequest" where
  "finish_allocation h idx req result s sz = (case s of (region, m, com) \<Rightarrow>
     let region = (if result \<noteq> None \<and> \<not> for_lab req
                   then region\<lparr>hr_object_start_bitmap := set_bit (hr_object_start_bitmap region) (the result)\<rparr>
                   else region);
         fs = (if result \<noteq> None then (hp_free_set h)\<lparr>fs_used := fs_used (hp_free_set h) + sz\<rparr> else hp_free_set h);
         h = put_region (h\<lparr>hp_memory := m, hp_commited := com, hp_free_set := fs\<rparr>) idx region
     in (if result = None \<or> alloc_capacity (hp_opts h) region = 0 then fs_retire h region else h,
         if result \<noteq> None then set_actual_size sz req else req))"

definition try_allocate_in ::
  "nat \<Rightarrow> Heap \<Rightarrow> nat \<Rightarrow> AllocRequest \<Rightarrow> (addr option \<times> Heap \<times> AllocRequest \<times> bool) res" where
  "try_allocate_in now h idx req = rbind (get_region h idx) (\<lambda>region.
     if hr_to_sweep region then Inl AssertFailed
     else if alloc_capacity (hp_opts h) region = 0 then Inl AssertFailed
     else
       let region = try_recycle_trashed now region;
           in_new_region = hr_is_empty region
       in rbind (fs_region_allocate (hp_opts h) req (region, hp_memory h, hp_commited h)) (\<lambda>(result, s, sz).
            let (h, req) = finish_allocation h idx req result s sz
            in Inr (result, h, req, in_new_region)))"

text \<open>First fit over the regions between the bounds as they were when the scan began.\<close>

fun allocate_single_loop ::
  "nat \<Rightarrow> nat list \<Rightarrow> Heap \<Rightarrow> AllocRequest \<Rightarrow> bool \<Rightarrow> (addr option \<times> Heap \<times> AllocRequest \<times> bool) res" where
  "allocate_single_loop now [] h req nw = Inr (None, h, req, nw)"
| "allocate_single_loop now (i # is) h req nw =
     (if is_mutator_free (hp_free_set h) i then
        rbind (try_allocate_in now h i req) (\<lambda>(result, h, req, nw).
          if result \<noteq> None then Inr (result, h, req, nw) else allocate_single_loop now is h req nw)
      else allocate_single_loop now is h req nw)"

definition allocate_single ::
  "nat \<Rightarrow> Heap \<Rightarrow> AllocRequest \<Rightarrow> bool \<Rightarrow> (addr option \<times> Heap \<times> AllocRequest \<times> bool) res" where
  "allocate_single now h req nw =
     allocate_single_loop now [mutator_leftmost (hp_free_set h) ..< Suc (mutator_rightmost (hp_free_set h))] h req nw"

section \<open>Allocation of a run of regions\<close>

text \<open>The search for \<open>num\<close> adjacent completely free regions: the first and the last index.\<close>

function find_run :: "Heap \<Rightarrow> nat \<Rightarrow> nat \<Rightarrow> nat \<Rightarrow> (nat \<times> nat) option res" where
  "find_run h num lo hi =
     (if hi \<ge> fs_max (hp_free_set h) then Inr None
      else rbind (if is_mutator_free (hp_free_set h) hi
                  then rbind (get_region h hi) (\<lambda>r. Inr (can_allocate_from r)) else Inr False)
             (\<lambda>usable.
                if \<not> usable then find_run h num (hi + 1) (hi + 1)
                else if hi - lo + 1 = num then Inr (Some (lo, hi))
                else find_run h num lo (hi + 1)))"
  by auto
termination by (relation "measure (\<lambda>(h, num, lo, hi). fs_max (hp_free_set h) - hi)") auto

declare find_run.simps [simp del]

definition claim_region :: "nat \<Rightarrow> bool \<Rightarrow> nat \<Rightarrow> Heap \<Rightarrow> Heap res" where
  "claim_region now first i h = rbind (get_region h i) (\<lambda>r.
     let r = try_recycle_trashed now r;
         (r, com) = (if first then hr_make_humongous_start r (hp_commited h) else hr_make_humongous_cont r (hp_commited h));
         r = r\<lparr>hr_used := region_size_bytes (hp_opts h)\<rparr>;
         fs = hp_free_set h
     in Inr ((put_region h i r)\<lparr>hp_commited := com,
          hp_free_set := fs\<lparr>mutator_free_bitmap := db_set (mutator_free_bitmap fs) i False\<rparr>\<rparr>))"

fun claim_regions :: "nat \<Rightarrow> nat \<Rightarrow> nat list \<Rightarrow> Heap \<Rightarrow> Heap res" where
  "claim_regions now lo [] h = Inr h"
| "claim_regions now lo (i # is) h = rbind (claim_region now (i = lo) i h) (\<lambda>h. claim_regions now lo is h)"

text \<open>Bounds and accounting after the regions were claimed.\<close>

definition finish_contiguous :: "nat \<Rightarrow> nat \<Rightarrow> nat \<Rightarrow> nat \<Rightarrow> Heap \<Rightarrow> Heap" where
  "finish_contiguous lo hi num sz h =
     (let remainder = sz AND region_size_bytes_mask (hp_opts h);
          fs = hp_free_set h;
          fs = (if lo = mutator_leftmost fs \<or> hi = mutator_rightmost fs then adjust_bounds fs else fs);
          fs = fs\<lparr>fs_used := fs_used fs + region_payload_size_bytes (hp_opts h) * num\<rparr>;
          h = h\<lparr>hp_free_set := fs\<rparr>
      in if remainder \<noteq> 0 then notify_mutator_alloc h (region_size_bytes (hp_opts h) - remainder) else h)"

definition allocate_contiguous :: "nat \<Rightarrow> Heap \<Rightarrow> AllocRequest \<Rightarrow> (addr option \<times> Heap \<times> AllocRequest) res" where
  "allocate_contiguous now h req =
     (let sz = ar_requested_size req;
          num = required_regions (hp_opts h) sz
      in if num > mutator_count (hp_free_set h) then Inr (None, h, req)
         else rbind (find_run h num (mutator_leftmost (hp_free_set h)) (mutator_leftmost (hp_free_set h))) (\<lambda>run.
           case run of
             None \<Rightarrow> Inr (None, h, req)
           | Some (lo, hi) \<Rightarrow>
               rbind (claim_regions now lo [lo ..< Suc hi] h) (\<lambda>h.
                 let h = finish_contiguous lo hi num sz h
                 in rbind (get_region h lo) (\<lambda>r. Inr (Some (hr_begin r), h, set_actual_size sz req)))))"

definition fs_allocate :: "nat \<Rightarrow> Heap \<Rightarrow> AllocRequest \<Rightarrow> bool \<Rightarrow> (addr option \<times> Heap \<times> AllocRequest \<times> bool) res" where
  "fs_allocate now h req nw =
     (if ar_requested_size req > humongous_threshold_bytes (hp_opts h)
      then rbind (allocate_contiguous now h req) (\<lambda>(result, h, req). Inr (result, h, req, True))
      else allocate_single now h req nw)"

section \<open>Other operations\<close>

fun peek_free_loop :: "Heap \<Rightarrow> nat list \<Rightarrow> nat res" where
  "peek_free_loop h [] = Inr 0"
| "peek_free_loop h (i # is) =
     (if i < fs_max (hp_free_set h) \<and> is_mutator_free (hp_free_set h) i
      then rbind (get_region h i) (\<lambda>r. rbind (hr_peek_free r (hp_memory h)) (\<lambda>p.
             if p \<ge> min_tlab_size (hp_opts h) then Inr p else peek_free_loop h is))
      else peek_free_loop h is)"

definition unsafe_peek_free :: "Heap \<Rightarrow> nat res" where
  "unsafe_peek_free h =
     peek_free_loop h [mutator_leftmost (hp_free_set h) ..< Suc (mutator_rightmost (hp_free_set h))]"

fun recycle_trash_loop :: "nat \<Rightarrow> nat list \<Rightarrow> Heap \<Rightarrow> Heap res" where
  "recycle_trash_loop now [] h = Inr h"
| "recycle_trash_loop now (i # is) h = rbind (get_region h i) (\<lambda>r.
     recycle_trash_loop now is (if hr_is_trash r then put_region h i (try_recycle_trashed now r) else h))"

definition recycle_trash :: "nat \<Rightarrow> Heap \<Rightarrow> Heap res" where
  "recycle_trash now h = recycle_trash_loop now [0..<region_count (hp_opts h)] h"

text \<open>The integer part of \<open>external_fragmentation\<close>: last index, longest and current run of empty
  regions, free bytes.\<close>

fun contig_loop :: "Heap \<Rightarrow> nat list \<Rightarrow> nat \<times> nat \<times> nat \<times> nat \<Rightarrow> (nat \<times> nat \<times> nat \<times> nat) res" where
  "contig_loop h [] acc = Inr acc"
| "contig_loop h (i # is) (last_idx, max_contig, empty_contig, free) =
     (if is_mutator_free (hp_free_set h) i then rbind (get_region h i) (\<lambda>r.
        let free = (if hr_is_empty r then free + region_size_bytes (hp_opts h) else free);
            empty_contig = (if hr_is_empty r then if last_idx + 1 = i then empty_contig + 1 else 1 else 0)
        in contig_loop h is (i, max max_contig empty_contig, empty_contig, free))
      else contig_loop h is (last_idx, max_contig, empty_contig, free))"

definition max_contiguous :: "Heap \<Rightarrow> (nat \<times> nat) res" where
  "max_contiguous h =
     rbind (contig_loop h [mutator_leftmost (hp_free_set h) ..< Suc (mutator_rightmost (hp_free_set h))] (0, 0, 0, 0))
       (\<lambda>(_, max_contig, _, free). Inr (max_contig, free))"

section \<open>The bounds\<close>

lemma adjust_left_spec:
  "l \<le> adjust_left fs l \<and> adjust_left fs l \<le> max l (fs_max fs) \<and>
   (\<forall>j. l \<le> j \<longrightarrow> j < adjust_left fs l \<longrightarrow> \<not> is_mutator_free fs j) \<and>
   (adjust_left fs l < fs_max fs \<longrightarrow> is_mutator_free fs (adjust_left fs l))"
proof (induction fs l rule: adjust_left.induct)
  case (1 fs l)
  show ?case
  proof (cases "l < fs_max fs \<and> \<not> is_mutator_free fs l")
    case True
    then have e: "adjust_left fs l = adjust_left fs (l + 1)" by (subst adjust_left.simps) simp
    have "\<not> is_mutator_free fs j" if "l \<le> j" "j < adjust_left fs (l + 1)" for j
      using that 1 [OF True] True by (cases "j = l") auto
    then show ?thesis using 1 [OF True] True unfolding e by auto
  next
    case False
    then have "adjust_left fs l = l" by (subst adjust_left.simps) (simp only: if_False)
    then show ?thesis using False by auto
  qed
qed

lemma adjust_right_spec:
  "adjust_right fs r \<le> r \<and> (\<forall>j. adjust_right fs r < j \<longrightarrow> j \<le> r \<longrightarrow> \<not> is_mutator_free fs j) \<and>
   (adjust_right fs r > 0 \<longrightarrow> is_mutator_free fs (adjust_right fs r))"
  by (induction r) (auto simp: le_Suc_eq)

lemma is_mutator_free_upd [simp]:
  "is_mutator_free (fs\<lparr>mutator_leftmost := x\<rparr>) = is_mutator_free fs"
  "is_mutator_free (fs\<lparr>mutator_rightmost := x\<rparr>) = is_mutator_free fs"
  "is_mutator_free (fs\<lparr>fs_used := x\<rparr>) = is_mutator_free fs"
  "is_mutator_free (fs\<lparr>fs_capacity := x\<rparr>) = is_mutator_free fs"
  by (auto simp: is_mutator_free_def)

lemma adjust_bounds_fields [simp]:
  "mutator_free_bitmap (adjust_bounds fs) = mutator_free_bitmap fs"
  "fs_max (adjust_bounds fs) = fs_max fs" "fs_capacity (adjust_bounds fs) = fs_capacity fs"
  "fs_used (adjust_bounds fs) = fs_used fs"
  by (simp_all add: adjust_bounds_def Let_def)

lemma is_mutator_free_adjust [simp]: "is_mutator_free (adjust_bounds fs) = is_mutator_free fs"
  by (simp add: is_mutator_free_def [abs_def])

text \<open>The regions of the free set, and that the bounds enclose them.\<close>

definition free_regions :: "RegionFreeSet \<Rightarrow> nat set" where
  "free_regions fs = db.ones (mutator_free_bitmap fs)"

definition bounds_ok :: "RegionFreeSet \<Rightarrow> bool" where
  "bounds_ok fs \<longleftrightarrow> db_wf (mutator_free_bitmap fs) \<and> db_bit_count (mutator_free_bitmap fs) = fs_max fs \<and>
     mutator_rightmost fs < fs_max fs \<and>
     (\<forall>i \<in> free_regions fs. mutator_leftmost fs \<le> i \<and> i \<le> mutator_rightmost fs)"

lemma free_regions_iff: "bounds_ok fs \<Longrightarrow> i \<in> free_regions fs \<longleftrightarrow> i < fs_max fs \<and> is_mutator_free fs i"
  by (auto simp: free_regions_def db.ones_def bounds_ok_def is_mutator_free_def)

lemma finite_free_regions: "finite (free_regions fs)"
  by (simp add: free_regions_def db.ones_def)

lemma free_regions_upd [simp]:
  "free_regions (fs\<lparr>mutator_leftmost := x\<rparr>) = free_regions fs"
  "free_regions (fs\<lparr>mutator_rightmost := x\<rparr>) = free_regions fs"
  "free_regions (fs\<lparr>fs_used := x\<rparr>) = free_regions fs"
  "free_regions (fs\<lparr>fs_capacity := x\<rparr>) = free_regions fs"
  "free_regions (adjust_bounds fs) = free_regions fs"
  by (auto simp: free_regions_def)

lemma adjust_bounds_ok:
  assumes "bounds_ok fs"
  shows "bounds_ok (adjust_bounds fs)"
proof -
  let ?l = "adjust_left fs (mutator_leftmost fs)" and ?fs = "fs\<lparr>mutator_leftmost := adjust_left fs (mutator_leftmost fs)\<rparr>"
  have lr: "mutator_leftmost (adjust_bounds fs) = ?l"
    "mutator_rightmost (adjust_bounds fs) = adjust_right ?fs (mutator_rightmost fs)"
    by (simp_all add: adjust_bounds_def Let_def)
  have "?l \<le> i \<and> i \<le> adjust_right ?fs (mutator_rightmost fs)" if "i \<in> free_regions fs" for i
  proof -
    have i: "is_mutator_free fs i" "mutator_leftmost fs \<le> i" "i \<le> mutator_rightmost fs"
      using that assms free_regions_iff [OF assms] by (auto simp: bounds_ok_def)
    then have "?l \<le> i" using adjust_left_spec [of "mutator_leftmost fs" fs] by (meson not_le)
    moreover have "i \<le> adjust_right ?fs (mutator_rightmost fs)"
      using adjust_right_spec [of ?fs "mutator_rightmost fs"] i by (metis is_mutator_free_upd(1) not_le)
    ultimately show ?thesis by simp
  qed
  moreover have "adjust_right ?fs (mutator_rightmost fs) < fs_max fs"
    using assms adjust_right_spec [of ?fs "mutator_rightmost fs"] by (auto simp: bounds_ok_def)
  ultimately show ?thesis using assms by (auto simp: bounds_ok_def lr)
qed

text \<open>After an adjustment the bounds are the least and the greatest region of the free set; without regions they are at the far ends.\<close>

definition tight_bounds :: "RegionFreeSet \<Rightarrow> bool" where
  "tight_bounds fs \<longleftrightarrow> (if free_regions fs = {} then mutator_leftmost fs = fs_max fs \<and> mutator_rightmost fs = 0
     else mutator_leftmost fs = Min (free_regions fs) \<and> mutator_rightmost fs = Max (free_regions fs))"

lemma adjust_bounds_tight:
  assumes "bounds_ok fs" "mutator_leftmost fs \<le> fs_max fs"
  shows "tight_bounds (adjust_bounds fs)"
proof -
  let ?a = "adjust_bounds fs"
  note ok = adjust_bounds_ok [OF assms(1)]
  let ?fs = "fs\<lparr>mutator_leftmost := adjust_left fs (mutator_leftmost fs)\<rparr>"
  have e: "mutator_leftmost ?a = adjust_left fs (mutator_leftmost fs)" "mutator_rightmost ?a = adjust_right ?fs (mutator_rightmost fs)"
    by (simp_all add: adjust_bounds_def Let_def)
  have l: "mutator_leftmost ?a \<le> fs_max fs" "mutator_leftmost ?a < fs_max fs \<longrightarrow> mutator_leftmost ?a \<in> free_regions fs"
    using adjust_left_spec [of "mutator_leftmost fs" fs] assms(2) unfolding free_regions_iff [OF assms(1)] e(1) by simp_all
  have lt: "mutator_rightmost ?a < fs_max fs"
    using ok by (simp add: bounds_ok_def)
  have r: "0 < mutator_rightmost ?a \<longrightarrow> mutator_rightmost ?a \<in> free_regions fs"
    using adjust_right_spec [of ?fs "mutator_rightmost fs"] lt unfolding free_regions_iff [OF assms(1)] e(2) by simp
  have b: "mutator_leftmost ?a \<le> i \<and> i \<le> mutator_rightmost ?a \<and> i < fs_max fs" if "i \<in> free_regions fs" for i
    using ok that free_regions_iff [OF assms(1)] by (simp add: bounds_ok_def)
  show ?thesis
  proof (cases "free_regions fs = {}")
    case True
    then show ?thesis using l r by (simp add: tight_bounds_def)
  next
    case False
    then obtain i where i: "i \<in> free_regions fs" by blast
    then have "mutator_leftmost ?a \<in> free_regions fs" using b [OF i] l by linarith
    moreover have "mutator_rightmost ?a \<in> free_regions fs" using b [OF i] r i by (cases "mutator_rightmost ?a = 0") auto
    ultimately show ?thesis
      using False b finite_free_regions [of fs] by (simp add: tight_bounds_def Min_eqI [symmetric] Max_eqI [symmetric])
  qed
qed

lemma bounds_ok_remove:
  assumes "bounds_ok fs" "i < fs_max fs"
  shows "bounds_ok (fs\<lparr>mutator_free_bitmap := db_set (mutator_free_bitmap fs) i False\<rparr>)"
    "free_regions (fs\<lparr>mutator_free_bitmap := db_set (mutator_free_bitmap fs) i False\<rparr>) = free_regions fs - {i}"
proof -
  have w: "db_wf (mutator_free_bitmap fs)" "i < db_bit_count (mutator_free_bitmap fs)"
    using assms by (auto simp: bounds_ok_def)
  show fr: "free_regions (fs\<lparr>mutator_free_bitmap := db_set (mutator_free_bitmap fs) i False\<rparr>) = free_regions fs - {i}"
    using db.ones_put [OF w, of False] by (simp add: free_regions_def)
  show "bounds_ok (fs\<lparr>mutator_free_bitmap := db_set (mutator_free_bitmap fs) i False\<rparr>)"
    using assms db_wf_set [OF w] fr unfolding bounds_ok_def by auto
qed

lemma bounds_ok_used [simp]: "bounds_ok (fs\<lparr>fs_used := x\<rparr>) = bounds_ok fs"
  by (simp add: bounds_ok_def)

lemma mutator_count_card: "bounds_ok fs \<Longrightarrow> mutator_count fs = card (free_regions fs)"
  by (simp add: mutator_count_def bounds_ok_def free_regions_def db_count_ones_card)

section \<open>Heap invariant\<close>

text \<open>\<open>heap_inv n h Bs\<close>: region \<open>i\<close> covers the \<open>i\<close>-th \<open>2 ^ n\<close> bytes of the heap and has the free
  blocks \<open>Bs i\<close>.\<close>

definition region_range :: "HeapRegion \<Rightarrow> addr set" where
  "region_range r = {hr_begin r ..< hr_end r}"

definition placed :: "nat \<Rightarrow> Heap \<Rightarrow> nat \<Rightarrow> HeapRegion \<Rightarrow> bool" where
  "placed n h i r \<longleftrightarrow> hr_index r = i \<and> hr_begin r = hp_mem_start h + i * 2 ^ n \<and>
     hb_offset (hr_object_start_bitmap r) = hr_begin r \<and> hb_limit (hr_object_start_bitmap r) = hr_begin r + 2 ^ n"

definition heap_inv :: "nat \<Rightarrow> Heap \<Rightarrow> (nat \<Rightarrow> block multiset) \<Rightarrow> bool" where
  "heap_inv n h Bs \<longleftrightarrow> opts_ok (hp_opts h) \<and> n = region_size_log2 (hp_opts h) \<and>
     length (hp_regions h) = region_count (hp_opts h) \<and>
     (\<forall>i < region_count (hp_opts h).
        region_inv n (hp_regions h ! i) (hp_memory h) (Bs i) \<and> placed n h i (hp_regions h ! i))"

text \<open>The invariant of the free set.\<close>

definition usable :: "HeapOptions \<Rightarrow> HeapRegion \<Rightarrow> bool" where
  "usable opts r \<longleftrightarrow> (hr_is_alloc_allowed r \<or> hr_is_trash r) \<and> alloc_capacity opts r \<noteq> 0"

definition fs_inv :: "Heap \<Rightarrow> bool" where
  "fs_inv h \<longleftrightarrow> bounds_ok (hp_free_set h) \<and> fs_max (hp_free_set h) = region_count (hp_opts h) \<and>
     (\<forall>i \<in> free_regions (hp_free_set h). usable (hp_opts h) (hp_regions h ! i) \<and> \<not> hr_to_sweep (hp_regions h ! i))"

text \<open>The bytes of the regions in the free set, which \<open>available\<close> is meant to report.\<close>

definition free_sum :: "Heap \<Rightarrow> nat" where
  "free_sum h = (\<Sum>i \<in> free_regions (hp_free_set h). alloc_capacity (hp_opts h) (hp_regions h ! i))"

definition balanced :: "Heap \<Rightarrow> bool" where
  "balanced h \<longleftrightarrow> fs_used (hp_free_set h) + free_sum h = fs_capacity (hp_free_set h)"

lemma fl_store_frame:
  assumes "fl_store n (fl, m) B" "\<forall>b \<in># B. \<forall>x \<in> block_bytes b. m' x = m x"
  shows "fl_store n (fl, m') B"
proof -
  from assms(1) obtain bss where b: "fl_rep fl m bss" "length bss = n" "mset (all_blocks bss) = B"
    by (auto simp: fl_store_def)
  have "\<forall>b \<in> set (all_blocks bss). \<forall>x \<in> block_bytes b. m' x = m x" using assms(2) b(3) by auto
  then have "fl_rep fl m' bss" by (rule fl_rep_frame [OF b(1)])
  then show ?thesis using b by (auto simp: fl_store_def)
qed

lemma region_inv_frame:
  assumes "region_inv n r m B" "\<forall>x \<in> region_range r. m' x = m x"
  shows "region_inv n r m' B"
proof (rule region_inv_change [OF assms(1)])
  have "\<forall>b \<in># B. \<forall>x \<in> block_bytes b. m' x = m x"
    using assms(2) region_invD(8) [OF assms(1)] by (auto simp: region_range_def)
  then show "fl_store (Suc n) (hr_free_list r, m') B" by (rule fl_store_frame [OF region_invD(7) [OF assms(1)]])
qed (use region_invD(8,9) [OF assms(1)] in auto)

lemma heap_invD:
  assumes "heap_inv n h Bs" "i < region_count (hp_opts h)"
  shows "region_inv n (hp_regions h ! i) (hp_memory h) (Bs i)" "placed n h i (hp_regions h ! i)"
    "get_region h i = Inr (hp_regions h ! i)" "i < length (hp_regions h)"
  using assms by (auto simp: heap_inv_def get_region_def)

lemma heap_inv_free_set [simp]: "heap_inv n (h\<lparr>hp_free_set := fs\<rparr>) Bs \<longleftrightarrow> heap_inv n h Bs"
proof -
  have "hp_opts (h\<lparr>hp_free_set := fs\<rparr>) = hp_opts h" "hp_regions (h\<lparr>hp_free_set := fs\<rparr>) = hp_regions h"
    "hp_memory (h\<lparr>hp_free_set := fs\<rparr>) = hp_memory h" "hp_mem_start (h\<lparr>hp_free_set := fs\<rparr>) = hp_mem_start h" by simp_all
  then show ?thesis unfolding heap_inv_def placed_def by simp
qed

lemma region_ranges_disjoint:
  assumes "heap_inv n h Bs" "i < region_count (hp_opts h)" "j < region_count (hp_opts h)" "i \<noteq> j"
  shows "region_range (hp_regions h ! i) \<inter> region_range (hp_regions h ! j) = {}"
proof -
  have "region_range (hp_regions h ! k) = {hp_mem_start h + k * 2 ^ n ..< hp_mem_start h + Suc k * 2 ^ n}"
    if "k < region_count (hp_opts h)" for k
    using heap_invD [OF assms(1) that] region_invD(5) [of n "hp_regions h ! k"]
    by (simp add: region_range_def placed_def ac_simps)
  moreover have "hp_mem_start h + Suc k * 2 ^ n \<le> hp_mem_start h + l * 2 ^ n" if "k < l" for k l
    using mult_le_mono1 [of "Suc k" l "2 ^ n"] that by simp
  ultimately show ?thesis
    using assms(2-4) by (cases i j rule: linorder_cases) (simp_all only: ivl_disj_int_one disjoint_iff, (meson atLeastLessThan_iff leD le_less_trans less_le_trans order_trans)+)
qed

lemma heap_inv_put:
  assumes inv: "heap_inv n h Bs" and i: "i < region_count (hp_opts h)"
    and r': "region_inv n r' m' B'" "placed n h i r'"
    and m': "\<forall>x. x \<notin> region_range (hp_regions h ! i) \<longrightarrow> m' x = hp_memory h x"
    and h': "hp_regions h' = (hp_regions h)[i := r']" "hp_memory h' = m'" "hp_opts h' = hp_opts h" "hp_mem_start h' = hp_mem_start h"
  shows "heap_inv n h' (Bs(i := B'))"
proof -
  have "region_inv n (hp_regions h ! j) m' (Bs j)" if "j < region_count (hp_opts h)" "j \<noteq> i" for j
  proof (rule region_inv_frame [OF heap_invD(1) [OF inv that(1)]])
    show "\<forall>x \<in> region_range (hp_regions h ! j). m' x = hp_memory h x"
      using region_ranges_disjoint [OF inv that(1) i that(2)] m' by blast
  qed
  then show ?thesis
    using inv i r' heap_invD(4) [OF inv i] unfolding heap_inv_def h'
    by (auto simp: nth_list_update placed_def h')
qed

text \<open>One region's capacity is the sum of its blocks.\<close>

lemma region_inv_fields:
  "hr_begin r' = hr_begin r \<Longrightarrow> hr_end r' = hr_end r \<Longrightarrow> hr_free_list r' = hr_free_list r \<Longrightarrow> (hr_is_empty r' \<longrightarrow> hr_is_empty r) \<Longrightarrow>
     region_inv n r m B \<Longrightarrow> region_inv n r' m B"
  by (rule region_inv_change) (use region_invD(7-9) [of n r m B] in auto)

lemma placed_put:
  "hr_index r' = hr_index r \<Longrightarrow> hr_begin r' = hr_begin r \<Longrightarrow> hb_offset (hr_object_start_bitmap r') = hr_begin r \<Longrightarrow>
     hb_limit (hr_object_start_bitmap r') = hb_limit (hr_object_start_bitmap r) \<Longrightarrow> placed n h i r \<Longrightarrow> placed n h i r'"
  by (simp add: placed_def)

lemma alloc_capacity_eq:
  assumes "region_inv n r m B" "opts_ok opts" "n = region_size_log2 opts"
  shows "alloc_capacity opts r = (if hr_is_trash r then 2 ^ n else bag_bytes (region_blocks r B))"
  using region_free_eq [OF assms(1)] assms by (simp add: alloc_capacity_def opts_ok_def)

definition served :: "HeapRegion \<Rightarrow> block multiset \<Rightarrow> nat \<Rightarrow> addr \<Rightarrow> HeapRegion \<Rightarrow> block multiset \<Rightarrow> bool" where
  "served r B sz a r' B' \<longleftrightarrow> (\<exists>b \<in># region_blocks r B. a = fst b \<and> sz \<le> snd b) \<and>
     hr_begin r \<le> a \<and> a + sz \<le> hr_end r \<and> (\<forall>c \<in># B'. block_bytes (a, sz) \<inter> block_bytes c = {}) \<and>
     hr_used r' = hr_used r + sz \<and> bag_bytes B' + sz = bag_bytes (region_blocks r B)"

definition req_ok :: "AllocRequest \<Rightarrow> bool" where
  "req_ok req \<longleftrightarrow> 16 \<le> ar_requested_size req \<and> 16 dvd ar_requested_size req \<and> (for_lab req \<longrightarrow> 16 \<le> ar_min_size req)"

text \<open>The size given out: the requested one, or at least the minimum for an elastic LAB.\<close>

definition size_ok :: "HeapOptions \<Rightarrow> AllocRequest \<Rightarrow> nat \<Rightarrow> bool" where
  "size_ok opts req sz \<longleftrightarrow> 16 \<le> sz \<and> 16 dvd sz \<and> sz \<le> ar_requested_size req \<and>
     (sz = ar_requested_size req \<or> elastic_tlab opts \<and> for_lab req \<and> ar_min_size req \<le> sz)"

lemma hr_peek_allocate:
  assumes inv: "region_inv n r m B"
  obtains p where "hr_peek_free r m = Inr p" "p < 2 ^ 64" "hr_is_empty r \<Longrightarrow> p = 0"
    "\<And>req s. 0 < req \<Longrightarrow> req \<le> p \<Longrightarrow> hr_allocate (r, m, com) req \<noteq> Inr (None, s)"
proof -
  from region_invD(7) [OF inv] obtain bss where b: "fl_rep (hr_free_list r) m bss" "mset (all_blocks bss) = B"
    by (auto simp: fl_store_def)
  from fl_peek_rep [OF b(1)] obtain p where p: "fl_peek_free (hr_free_list r) m = Inr p"
    "p = 0 \<or> (\<exists>b \<in> set (all_blocks bss). p = snd b)"
    "\<And>req x fl' m'. 0 < req \<Longrightarrow> req \<le> p \<Longrightarrow> fl_allocate (hr_free_list r) m req = Inr (x, fl', m') \<Longrightarrow> x \<noteq> None"
    by metis
  have "snd c < 2 ^ 64" if "c \<in> set (all_blocks bss)" for c
    using fl_rep_wf_block [OF b(1) that] by (auto simp: wf_block_def)
  then have lt: "p < 2 ^ 64" using p(2) by auto
  have e: "p = 0" if "hr_is_empty r"
    using p(2) b(2) region_invD(9) [OF inv that] by auto
  have "hr_allocate (r, m, com) req \<noteq> Inr (None, s)" if "0 < req" "req \<le> p" for req s
  proof -
    have "\<not> hr_is_empty r" using e that by auto
    then have "hr_make_regular_allocation (r, m, com) = Inr (r\<lparr>hr_typ := Regular\<rparr>, m, com)"
      by (auto simp: hr_make_regular_allocation_def hr_is_empty_def Let_def)
    then show ?thesis using p(3) [OF that] by (auto simp: hr_allocate_def rbind_eq_Inr Let_def split: option.splits if_splits)
  qed
  then show thesis using that p(1) lt e by (auto simp: hr_peek_free_def)
qed

section \<open>Allocation in one region: lemmas\<close>

text \<open>What a call on one region leaves: \<open>moved\<close> collects the conclusions of success and failure.\<close>

definition moved ::
  "nat \<Rightarrow> HeapOptions \<Rightarrow> AllocRequest \<Rightarrow> HeapRegion \<Rightarrow> mem \<Rightarrow> block multiset \<Rightarrow>
   addr option \<Rightarrow> nat \<Rightarrow> HeapRegion \<Rightarrow> mem \<Rightarrow> block multiset \<Rightarrow> bool" where
  "moved n opts req r m B res sz r' m' B' \<longleftrightarrow>
     region_inv n r' m' B' \<and> same_place r r' \<and> (\<forall>x. x \<notin> region_range r \<longrightarrow> m' x = m x) \<and>
     hr_is_alloc_allowed r' \<and>
     (case res of
        None \<Rightarrow> hr_used r' = hr_used r \<and> region_blocks r' B' = region_blocks r B \<and>
          (\<not> (elastic_tlab opts \<and> for_lab req) \<longrightarrow> (\<forall>b \<in># region_blocks r B. snd b < 2 * ar_requested_size req))
      | Some a \<Rightarrow> size_ok opts req sz \<and> hr_typ r' = Regular \<and> served r B sz a r' B')"

lemma moved_allocate:
  assumes "region_inv n r m B" "16 \<le> sz" "16 dvd sz"
    "sz = ar_requested_size req \<or> (\<forall>s. hr_allocate (r, m, com) sz \<noteq> Inr (None, s)) \<and> size_ok opts req sz"
  obtains res r' m' com' B' where "hr_allocate (r, m, com) sz = Inr (res, r', m', com')"
    "moved n opts req r m B res sz r' m' B'"
proof -
  obtain res r' m' com' B' where a: "hr_allocate (r, m, com) sz = Inr (res, r', m', com')" "hr_typ r' = Regular"
    "same_place r r'" "region_inv n r' m' B'" "\<forall>x. x \<notin> {hr_begin r ..< hr_end r} \<longrightarrow> m' x = m x"
    and c: "case res of
       None \<Rightarrow> hr_used r' = hr_used r \<and> B' = region_blocks r B \<and> (\<forall>b \<in># region_blocks r B. snd b < 2 * sz)
     | Some a \<Rightarrow> (\<exists>b \<in># region_blocks r B. a = fst b \<and> sz \<le> snd b) \<and>
         hr_begin r \<le> a \<and> a + sz \<le> hr_end r \<and> (\<forall>c \<in># B'. block_bytes (a, sz) \<inter> block_bytes c = {}) \<and>
         hr_used r' = hr_used r + sz \<and> bag_bytes B' + sz = bag_bytes (region_blocks r B)"
    using hr_allocate_spec [OF assms(1-3), of com] by (elim exE conjE) (rule that)
  have ne: "\<not> hr_is_empty r'" using a(2) by (simp add: hr_is_empty_def)
  have "moved n opts req r m B res sz r' m' B'"
  proof (cases res)
    case None
    then have sz: "sz = ar_requested_size req" using assms(4) a(1) by blast
    from None c have cc: "hr_used r' = hr_used r" "B' = region_blocks r B" "\<forall>b \<in># region_blocks r B. snd b < 2 * sz"
      by simp_all
    have "region_blocks r' B' = region_blocks r B" using cc(2) ne by (simp add: region_blocks_def)
    then show ?thesis
      unfolding moved_def None option.case region_range_def using a cc sz by (simp add: hr_is_alloc_allowed_def)
  next
    case (Some x)
    have "size_ok opts req sz" using assms(2-4) by (auto simp: size_ok_def)
    moreover have "served r B sz x r' B'" using c Some by (simp add: served_def)
    ultimately show ?thesis
      unfolding moved_def Some option.case region_range_def using a by (simp add: hr_is_alloc_allowed_def)
  qed
  with a(1) show thesis by (rule that)
qed

lemma align_down_16: "p < 2 ^ 64 \<Longrightarrow> unat (align_down (of_nat p) 16) = p div 16 * 16"
  using unat_align_down [of 4 "of_nat p"] by (simp add: unat_of_nat take_bit_nat_eq_self)

lemma fs_region_allocate_spec:
  assumes inv: "region_inv n r m B" and req: "req_ok req" and al: "hr_is_alloc_allowed r"
  obtains res r' m' com' sz B' where "fs_region_allocate opts req (r, m, com) = Inr (res, (r', m', com'), sz)"
    "moved n opts req r m B res sz r' m' B'"
proof (cases "elastic_tlab opts \<and> for_lab req")
  case False
  have sz: "16 \<le> ar_requested_size req" "16 dvd ar_requested_size req" using req by (auto simp: req_ok_def)
  obtain res r' m' com' B' where a: "hr_allocate (r, m, com) (ar_requested_size req) = Inr (res, r', m', com')"
    "moved n opts req r m B res (ar_requested_size req) r' m' B'"
    using moved_allocate [OF inv sz] by blast
  then show thesis using False that by (auto simp: fs_region_allocate_def)
next
  case True
  obtain p where p: "hr_peek_free r m = Inr p" "p < 2 ^ 64"
    "\<And>q s. 0 < q \<Longrightarrow> q \<le> p \<Longrightarrow> hr_allocate (r, m, com) q \<noteq> Inr (None, s)"
    using hr_peek_allocate [OF inv] by metis
  define free where "free = p div 16 * 16"
  define sz where "sz = (if ar_requested_size req > free then free else ar_requested_size req)"
  have f: "16 dvd free" "free \<le> p" by (simp_all add: free_def)
  have e: "fs_region_allocate opts req (r, m, com) =
    (if sz \<ge> ar_min_size req then
       rbind (hr_allocate (r, m, com) sz) (\<lambda>(res, s). if res = None then Inl AssertFailed else Inr (res, s, sz))
     else Inr (None, (r, m, com), sz))"
    unfolding fs_region_allocate_def Let_def fst_conv snd_conv p(1) rbind_simps align_down_16 [OF p(2)]
      free_def [symmetric] sz_def [symmetric]
    using True by (simp only: if_True simp_thms)
  show thesis
  proof (cases "sz \<ge> ar_min_size req")
    case True
    have sz: "16 \<le> sz" "16 dvd sz" "sz \<le> p"
      using True req f \<open>elastic_tlab opts \<and> for_lab req\<close> by (auto simp: req_ok_def sz_def)
    have ok: "size_ok opts req sz"
      using sz True \<open>elastic_tlab opts \<and> for_lab req\<close> by (auto simp: size_ok_def sz_def)
    have nn: "\<forall>s. hr_allocate (r, m, com) sz \<noteq> Inr (None, s)" using p(3) [of sz] sz by auto
    obtain res r' m' com' B' where a: "hr_allocate (r, m, com) sz = Inr (res, r', m', com')"
      "moved n opts req r m B res sz r' m' B'"
      using moved_allocate [OF inv sz(1,2)] nn ok by blast
    have "res \<noteq> None" using nn a(1) by auto
    then show thesis using a True that by (auto simp: e)
  next
    case False
    have "moved n opts req r m B None sz r m B"
      using inv al True by (simp add: moved_def same_place_def)
    then show thesis using False that by (auto simp: e)
  qed
qed

definition avail_blocks :: "HeapRegion \<Rightarrow> block multiset \<Rightarrow> block multiset" where
  "avail_blocks r B = (if can_allocate_from r then {#(hr_begin r, hr_size r)#} else B)"

lemma recycled:
  assumes "region_inv n r m B" "usable opts r" "r0 = try_recycle_trashed now r" "B0 = (if hr_is_trash r then {#} else B)"
  shows "region_inv n r0 m B0" "hr_is_alloc_allowed r0" "region_blocks r0 B0 = avail_blocks r B"
    "hr_begin r0 = hr_begin r" "hr_end r0 = hr_end r" "hr_index r0 = hr_index r" "hr_to_sweep r0 = hr_to_sweep r"
    "hb_offset (hr_object_start_bitmap r0) = hb_offset (hr_object_start_bitmap r)"
    "hb_limit (hr_object_start_bitmap r0) = hb_limit (hr_object_start_bitmap r)"
  using assms recycle_inv [OF assms(1), of now]
  by (auto simp: try_recycle_trashed_def hr_recycle_def hr_make_empty_def Let_def hr_is_trash_def usable_def
      hr_is_alloc_allowed_def hr_is_empty_def region_blocks_def avail_blocks_def can_allocate_from_def hr_size_def
      hb_clear_def hb_memset_def)

lemma avail_bytes:
  assumes "region_inv n r m B" "opts_ok opts" "n = region_size_log2 opts"
  shows "bag_bytes (avail_blocks r B) = alloc_capacity opts r"
  using alloc_capacity_eq [OF assms] region_invD(5) [OF assms(1)]
  by (auto simp: avail_blocks_def region_blocks_def can_allocate_from_def hr_size_def bag_bytes_def)

text \<open>Retiring a region keeps \<open>used\<close> plus the free bytes constant.\<close>

lemma fs_retire_fields [simp]:
  "hp_regions (fs_retire h r) = hp_regions h" "hp_memory (fs_retire h r) = hp_memory h"
  "hp_opts (fs_retire h r) = hp_opts h" "hp_mem_start (fs_retire h r) = hp_mem_start h"
  by (simp_all add: fs_retire_def Let_def notify_mutator_alloc_def)

lemma fs_retire_set:
  assumes "bounds_ok (hp_free_set h)" "hr_index r < fs_max (hp_free_set h)"
  shows "bounds_ok (hp_free_set (fs_retire h r))"
    "free_regions (hp_free_set (fs_retire h r)) = free_regions (hp_free_set h) - {hr_index r}"
    "fs_max (hp_free_set (fs_retire h r)) = fs_max (hp_free_set h)"
    "fs_capacity (hp_free_set (fs_retire h r)) = fs_capacity (hp_free_set h)"
    "fs_used (hp_free_set (fs_retire h r)) = fs_used (hp_free_set h) + hr_free r"
proof -
  define fs where "fs = (hp_free_set h)\<lparr>fs_used := fs_used (hp_free_set h) + hr_free r\<rparr>"
  define fs1 where "fs1 = fs\<lparr>mutator_free_bitmap := db_set (mutator_free_bitmap fs) (hr_index r) False\<rparr>"
  have e: "hp_free_set (fs_retire h r) = (if touches_bounds fs1 (hr_index r) then adjust_bounds fs1 else fs1)"
    by (simp add: fs_retire_def Let_def notify_mutator_alloc_def fs1_def fs_def)
  have fs: "bounds_ok fs" "hr_index r < fs_max fs" using assms by (simp_all add: fs_def)
  note rem = bounds_ok_remove [OF fs, folded fs1_def]
  show "bounds_ok (hp_free_set (fs_retire h r))" using rem(1) adjust_bounds_ok unfolding e by simp
  show "free_regions (hp_free_set (fs_retire h r)) = free_regions (hp_free_set h) - {hr_index r}"
    using rem(2) unfolding e by (simp add: fs_def)
qed (simp_all add: fs_retire_def Let_def notify_mutator_alloc_def)

lemma free_sum_split:
  assumes "i \<in> free_regions (hp_free_set h)"
  shows "free_sum h = alloc_capacity (hp_opts h) (hp_regions h ! i) +
    (\<Sum>j \<in> free_regions (hp_free_set h) - {i}. alloc_capacity (hp_opts h) (hp_regions h ! j))"
  unfolding free_sum_def using assms by (simp add: sum.remove finite_free_regions)

lemma fs_inv_in:
  assumes "fs_inv h" "i \<in> free_regions (hp_free_set h)"
  shows "i < region_count (hp_opts h)" "usable (hp_opts h) (hp_regions h ! i)" "\<not> hr_to_sweep (hp_regions h ! i)"
  using assms free_regions_iff [of "hp_free_set h" i] by (auto simp: fs_inv_def)

text \<open>A step of the free set that touched only region \<open>i\<close>: \<open>r'\<close> is its new value, \<open>sz\<close> the bytes
  handed out, \<open>keep\<close> whether the region stays in the set.\<close>

lemma fs_inv_step:
  assumes inv: "fs_inv h" and i: "i \<in> free_regions (hp_free_set h)"
    and bo: "bounds_ok (hp_free_set h')" "fs_max (hp_free_set h') = fs_max (hp_free_set h)" "hp_opts h' = hp_opts h"
    and fr: "free_regions (hp_free_set h') = (if keep then free_regions (hp_free_set h) else free_regions (hp_free_set h) - {i})"
    and rg: "hp_regions h' = (hp_regions h)[i := r']" "i < length (hp_regions h)"
    and k: "keep \<Longrightarrow> usable (hp_opts h) r' \<and> \<not> hr_to_sweep r'"
    and us: "fs_used (hp_free_set h') + (if keep then alloc_capacity (hp_opts h) r' else 0) =
      fs_used (hp_free_set h) + alloc_capacity (hp_opts h) (hp_regions h ! i)"
  shows "fs_inv h'" "fs_used (hp_free_set h') + free_sum h' = fs_used (hp_free_set h) + free_sum h"
proof -
  show "fs_inv h'" using inv bo fr rg k by (auto simp: fs_inv_def nth_list_update)
  have s: "(\<Sum>j \<in> free_regions (hp_free_set h) - {i}. alloc_capacity (hp_opts h) (hp_regions h' ! j)) =
    (\<Sum>j \<in> free_regions (hp_free_set h) - {i}. alloc_capacity (hp_opts h) (hp_regions h ! j))"
    by (rule sum.cong) (auto simp: rg)
  have "free_sum h' = (if keep then alloc_capacity (hp_opts h) r' else 0) +
    (\<Sum>j \<in> free_regions (hp_free_set h) - {i}. alloc_capacity (hp_opts h) (hp_regions h ! j))"
  proof (cases keep)
    case True
    then have "i \<in> free_regions (hp_free_set h')" using fr i by simp
    from free_sum_split [OF this] show ?thesis using True fr bo(3) s rg by simp
  next
    case False
    then show ?thesis using fr bo(3) s by (simp add: free_sum_def)
  qed
  then show "fs_used (hp_free_set h') + free_sum h' = fs_used (hp_free_set h) + free_sum h"
    using us free_sum_split [OF i] by simp
qed

text \<open>\<open>alloc_at h Bs req i a h' Bs' req'\<close>: the request was served at address \<open>a\<close> of region \<open>i\<close>.\<close>

definition alloc_at ::
  "Heap \<Rightarrow> (nat \<Rightarrow> block multiset) \<Rightarrow> AllocRequest \<Rightarrow> nat \<Rightarrow> addr \<Rightarrow> Heap \<Rightarrow> (nat \<Rightarrow> block multiset) \<Rightarrow> AllocRequest \<Rightarrow> bool" where
  "alloc_at h Bs req i a h' Bs' req' \<longleftrightarrow>
     (\<exists>sz. size_ok (hp_opts h) req sz \<and> req' = set_actual_size sz req \<and>
        (\<exists>b \<in># avail_blocks (hp_regions h ! i) (Bs i). a = fst b \<and> sz \<le> snd b) \<and>
        hr_begin (hp_regions h ! i) \<le> a \<and> a + sz \<le> hr_end (hp_regions h ! i) \<and>
        (\<forall>c \<in># Bs' i. block_bytes (a, sz) \<inter> block_bytes c = {})) \<and>
     (\<not> for_lab req \<longrightarrow> check_bit (hr_object_start_bitmap (hp_regions h' ! i)) a) \<and>
     hr_typ (hp_regions h' ! i) = Regular"

text \<open>Everything outside region \<open>i\<close> is as before.\<close>

definition only_region :: "nat \<Rightarrow> Heap \<Rightarrow> Heap \<Rightarrow> bool" where
  "only_region i h h' \<longleftrightarrow> hp_opts h' = hp_opts h \<and> hp_mem_start h' = hp_mem_start h \<and>
     (\<forall>j. j \<noteq> i \<longrightarrow> hp_regions h' ! j = hp_regions h ! j) \<and>
     (\<forall>x. x \<notin> region_range (hp_regions h ! i) \<longrightarrow> hp_memory h' x = hp_memory h x) \<and>
     fs_capacity (hp_free_set h') = fs_capacity (hp_free_set h)"

lemma finish_allocation_spec:
  assumes hi: "heap_inv n h Bs" and fi: "fs_inv h" and i: "i \<in> free_regions (hp_free_set h)"
    and r0: "r0 = try_recycle_trashed now (hp_regions h ! i)" and B0: "B0 = (if hr_is_trash (hp_regions h ! i) then {#} else Bs i)"
    and mv: "moved n (hp_opts h) req r0 (hp_memory h) B0 res sz r1 m' B'"
  obtains h' req' where "finish_allocation h i req res (r1, m', com') sz = (h', req')"
    "heap_inv n h' (Bs(i := B'))" "fs_inv h'" "only_region i h h'"
    "fs_used (hp_free_set h') + free_sum h' = fs_used (hp_free_set h) + free_sum h"
    "case res of
       None \<Rightarrow> req' = req \<and> free_regions (hp_free_set h') = free_regions (hp_free_set h) - {i} \<and>
         (\<not> (elastic_tlab (hp_opts h) \<and> for_lab req) \<longrightarrow>
            (\<forall>b \<in># avail_blocks (hp_regions h ! i) (Bs i). snd b < 2 * ar_requested_size req))
     | Some a \<Rightarrow> alloc_at h Bs req i a h' (Bs(i := B')) req'"
proof -
  let ?r = "hp_regions h ! i" and ?opts = "hp_opts h"
  note iD = fs_inv_in [OF fi i]
  note rD = heap_invD [OF hi iD(1)]
  have opts: "opts_ok ?opts" "n = region_size_log2 ?opts" using hi by (auto simp: heap_inv_def)
  note rc = recycled [OF rD(1) iD(2) r0 B0]
  from mv have m: "region_inv n r1 m' B'" "same_place r0 r1" "\<forall>x. x \<notin> region_range ?r \<longrightarrow> m' x = hp_memory h x"
    "hr_is_alloc_allowed r1" using rc(4,5) by (auto simp: moved_def region_range_def)
  define r2 where "r2 = (if res \<noteq> None \<and> \<not> for_lab req
     then r1\<lparr>hr_object_start_bitmap := set_bit (hr_object_start_bitmap r1) (the res)\<rparr> else r1)"
  have r2f: "hr_typ r2 = hr_typ r1" "hr_begin r2 = hr_begin r1" "hr_end r2 = hr_end r1" "hr_index r2 = hr_index r1"
    "hr_to_sweep r2 = hr_to_sweep r1" "hr_free_list r2 = hr_free_list r1"
    "hb_offset (hr_object_start_bitmap r2) = hb_offset (hr_object_start_bitmap r1)"
    "hb_limit (hr_object_start_bitmap r2) = hb_limit (hr_object_start_bitmap r1)" by (simp_all add: r2_def)
  have inv2: "region_inv n r2 m' B'"
    by (rule region_inv_change [OF m(1)]) (use region_invD(7-9) [OF m(1)] in \<open>auto simp: r2f hr_is_empty_def\<close>)
  have r2: "hr_begin r2 = hr_begin ?r" "hr_index r2 = i" "hr_is_empty r2 = hr_is_empty r1"
    "hr_is_alloc_allowed r2" "\<not> hr_is_trash r2" "\<not> hr_to_sweep r2" "placed n h i r2"
    using m rc iD(3) rD(2)
    by (auto simp: r2f same_place_def placed_def hr_is_empty_def hr_is_alloc_allowed_def hr_is_trash_def)
  have cap0: "alloc_capacity ?opts ?r = bag_bytes (avail_blocks ?r (Bs i))" using avail_bytes [OF rD(1) opts] by simp
  have cap2: "alloc_capacity ?opts r2 = bag_bytes (region_blocks r1 B')" "alloc_capacity ?opts r2 = hr_free r2"
    using alloc_capacity_eq [OF inv2 opts] r2(3,5)
    by (auto simp: r2f region_blocks_def alloc_capacity_def hr_size_def)
  define req' where "req' = (if res \<noteq> None then set_actual_size sz req else req)"
  define fs1 where "fs1 = (if res \<noteq> None then (hp_free_set h)\<lparr>fs_used := fs_used (hp_free_set h) + sz\<rparr> else hp_free_set h)"
  define h1 where "h1 = put_region (h\<lparr>hp_memory := m', hp_commited := com', hp_free_set := fs1\<rparr>) i r2"
  define keep where "keep \<longleftrightarrow> \<not> (res = None \<or> alloc_capacity ?opts r2 = 0)"
  define h' where "h' = (if keep then h1 else fs_retire h1 r2)"
  have h1: "hp_opts h1 = ?opts" "hp_mem_start h1 = hp_mem_start h" "hp_memory h1 = m'"
    "hp_regions h1 = (hp_regions h)[i := r2]" "hp_free_set h1 = fs1" by (simp_all add: h1_def put_region_def)
  have run: "finish_allocation h i req res (r1, m', com') sz = (h', req')"
    unfolding finish_allocation_def Let_def prod.case r2_def [symmetric] fs1_def [symmetric] h1_def [symmetric]
      req'_def [symmetric] h1(1) by (simp add: h'_def keep_def)
  have h': "hp_opts h' = ?opts" "hp_mem_start h' = hp_mem_start h" "hp_memory h' = m'"
    "hp_regions h' = (hp_regions h)[i := r2]" by (simp_all add: h'_def h1)
  have fs1: "bounds_ok fs1" "fs_max fs1 = region_count ?opts" "free_regions fs1 = free_regions (hp_free_set h)"
    "fs_capacity fs1 = fs_capacity (hp_free_set h)"
    using fi by (auto simp: fs_inv_def fs1_def)
  have rt: "bounds_ok (hp_free_set h1)" "hr_index r2 < fs_max (hp_free_set h1)"
    using fs1 iD(1) r2(2) by (simp_all add: h1)
  note ret = fs_retire_set [OF rt, unfolded h1 r2(2) fs1]
  have used: "fs_used (hp_free_set h') = fs_used fs1 + (if keep then 0 else alloc_capacity ?opts r2)"
    by (simp add: h'_def h1 ret cap2(2))
  have served: "served r0 B0 sz a r1 B'" "size_ok ?opts req sz" "region_blocks r1 B' = B'" if "res = Some a" for a
    using mv that by (auto simp: moved_def region_blocks_def hr_is_empty_def)
  have "fs_inv h'" and sum: "fs_used (hp_free_set h') + free_sum h' = fs_used (hp_free_set h) + free_sum h"
  proof -
    have us: "fs_used (hp_free_set h') + (if keep then alloc_capacity ?opts r2 else 0) =
      fs_used (hp_free_set h) + alloc_capacity ?opts ?r"
    proof (cases res)
      case None
      then have "region_blocks r1 B' = avail_blocks ?r (Bs i)" using mv rc(3) by (simp add: moved_def)
      then show ?thesis using None cap0 cap2 by (simp add: used keep_def fs1_def)
    next
      case (Some a)
      then show ?thesis using served [OF Some] cap0 cap2 rc(3) by (simp add: used fs1_def served_def)
    qed
    have a: "bounds_ok (hp_free_set h')" "fs_max (hp_free_set h') = fs_max (hp_free_set h)"
      "free_regions (hp_free_set h') = (if keep then free_regions (hp_free_set h) else free_regions (hp_free_set h) - {i})"
      using fi ret fs1 by (auto simp: h'_def h1 fs_inv_def)
    note st = fs_inv_step [OF fi i a(1,2) h'(1) a(3) h'(4) rD(4) _ us]
    show "fs_inv h'" by (rule st(1)) (use r2 in \<open>auto simp: keep_def usable_def\<close>)
    show "fs_used (hp_free_set h') + free_sum h' = fs_used (hp_free_set h) + free_sum h"
      by (rule st(2)) (use r2 in \<open>auto simp: keep_def usable_def\<close>)
  qed
  moreover have "heap_inv n h' (Bs(i := B'))"
    by (rule heap_inv_put [OF hi iD(1) inv2 r2(7) m(3) h'(4,3,1,2)])
  moreover have "only_region i h h'"
    using m(3) fs1(4) ret by (auto simp: only_region_def h' h1 h'_def)
  moreover have "case res of
       None \<Rightarrow> req' = req \<and> free_regions (hp_free_set h') = free_regions (hp_free_set h) - {i} \<and>
         (\<not> (elastic_tlab ?opts \<and> for_lab req) \<longrightarrow> (\<forall>b \<in># avail_blocks ?r (Bs i). snd b < 2 * ar_requested_size req))
     | Some a \<Rightarrow> alloc_at h Bs req i a h' (Bs(i := B')) req'"
  proof (cases res)
    case None
    then have "\<not> (elastic_tlab ?opts \<and> for_lab req) \<longrightarrow> (\<forall>b \<in># avail_blocks ?r (Bs i). snd b < 2 * ar_requested_size req)"
      using mv rc(3) by (simp add: moved_def)
    then show ?thesis using None ret(2) by (simp add: req'_def h'_def keep_def h1)
  next
    case (Some a)
    have sv: "\<exists>b \<in># avail_blocks ?r (Bs i). a = fst b \<and> sz \<le> snd b" "hr_begin ?r \<le> a" "a + sz \<le> hr_end ?r"
      "\<forall>c \<in># B'. block_bytes (a, sz) \<inter> block_bytes c = {}"
      using served(1) [OF Some] rc(3,4,5) by (auto simp: served_def)
    have off: "hb_offset (hr_object_start_bitmap r1) \<le> a"
      using sv(2) m(2) rc(8) rD(2) by (simp add: same_place_def placed_def)
    have "check_bit (hr_object_start_bitmap (hp_regions h' ! i)) a" if "\<not> for_lab req"
      using that Some off rD(4) by (simp add: h' r2_def check_bit_eq hb_bit_set_bit bit_number_def)
    moreover have "hr_typ (hp_regions h' ! i) = Regular" using mv Some rD(4) by (simp add: h' r2f moved_def)
    ultimately show ?thesis using Some sv served(2) [OF Some] by (auto simp: alloc_at_def req'_def)
  qed
  ultimately show thesis using run that by blast
qed

lemma try_allocate_in_spec:
  assumes hi: "heap_inv n h Bs" and fi: "fs_inv h" and i: "i \<in> free_regions (hp_free_set h)" and req: "req_ok req"
  obtains res h' req' nw B' where "try_allocate_in now h i req = Inr (res, h', req', nw)"
    "heap_inv n h' (Bs(i := B'))" "fs_inv h'" "only_region i h h'"
    "fs_used (hp_free_set h') + free_sum h' = fs_used (hp_free_set h) + free_sum h"
    "case res of
       None \<Rightarrow> req' = req \<and> free_regions (hp_free_set h') = free_regions (hp_free_set h) - {i} \<and>
         (\<not> (elastic_tlab (hp_opts h) \<and> for_lab req) \<longrightarrow>
            (\<forall>b \<in># avail_blocks (hp_regions h ! i) (Bs i). snd b < 2 * ar_requested_size req))
     | Some a \<Rightarrow> alloc_at h Bs req i a h' (Bs(i := B')) req'"
proof -
  define r0 where "r0 = try_recycle_trashed now (hp_regions h ! i)"
  define B0 where "B0 = (if hr_is_trash (hp_regions h ! i) then {#} else Bs i)"
  note iD = fs_inv_in [OF fi i]
  note rD = heap_invD [OF hi iD(1)]
  note rc = recycled [OF rD(1) iD(2) r0_def B0_def]
  obtain res r1 m' com' sz B' where
    al: "fs_region_allocate (hp_opts h) req (r0, hp_memory h, hp_commited h) = Inr (res, (r1, m', com'), sz)"
    and mv: "moved n (hp_opts h) req r0 (hp_memory h) B0 res sz r1 m' B'"
    using fs_region_allocate_spec [OF rc(1) req rc(2)] by metis
  show thesis
  proof (rule finish_allocation_spec [OF hi fi i r0_def B0_def mv, of com'], rule that)
    fix h' req'
    assume "finish_allocation h i req res (r1, m', com') sz = (h', req')"
    then show "try_allocate_in now h i req = Inr (res, h', req', hr_is_empty r0)"
      using iD(2,3) rD(3) al by (simp add: try_allocate_in_def usable_def r0_def [symmetric] Let_def)
  qed
qed

section \<open>First fit\<close>

text \<open>Region \<open>i\<close> has no block that must serve the request.\<close>

definition too_small :: "Heap \<Rightarrow> (nat \<Rightarrow> block multiset) \<Rightarrow> AllocRequest \<Rightarrow> nat \<Rightarrow> bool" where
  "too_small h Bs req i \<longleftrightarrow> elastic_tlab (hp_opts h) \<and> for_lab req \<or>
     (\<forall>b \<in># avail_blocks (hp_regions h ! i) (Bs i). snd b < 2 * ar_requested_size req)"

definition single_result ::
  "Heap \<Rightarrow> (nat \<Rightarrow> block multiset) \<Rightarrow> AllocRequest \<Rightarrow> nat list \<Rightarrow> addr option \<Rightarrow> Heap \<Rightarrow> (nat \<Rightarrow> block multiset) \<Rightarrow> AllocRequest \<Rightarrow> bool" where
  "single_result h Bs req is res h' Bs' req' \<longleftrightarrow>
     (case res of
        None \<Rightarrow> req' = req \<and> free_regions (hp_free_set h') = free_regions (hp_free_set h) - set is \<and>
          (\<forall>j \<in> free_regions (hp_free_set h) \<inter> set is. too_small h Bs req j)
      | Some a \<Rightarrow> \<exists>i xs ys. is = xs @ i # ys \<and> i \<in> free_regions (hp_free_set h) \<and> alloc_at h Bs req i a h' Bs' req' \<and>
          (\<forall>j \<in> free_regions (hp_free_set h) \<inter> set xs. too_small h Bs req j))"

lemma single_result_step:
  assumes "only_region i h h1" "i \<notin> set is" "too_small h Bs req i" "i \<in> free_regions (hp_free_set h)"
    "free_regions (hp_free_set h1) = free_regions (hp_free_set h) - {i}"
    "single_result h1 (Bs(i := B)) req is res h' Bs' req'"
  shows "single_result h Bs req (i # is) res h' Bs' req'"
proof -
  have same: "alloc_at h1 (Bs(i := B)) req j a h' Bs' req' = alloc_at h Bs req j a h' Bs' req'"
    "too_small h1 (Bs(i := B)) req j = too_small h Bs req j" if "j \<noteq> i" for j a
    using assms(1) that by (simp_all add: alloc_at_def too_small_def only_region_def)
  show ?thesis
  proof (cases res)
    case None
    have "too_small h Bs req j" if "j \<in> free_regions (hp_free_set h) \<inter> set (i # is)" for j
      using that None assms same [of j] by (cases "j = i") (auto simp: single_result_def)
    then show ?thesis using None assms by (auto simp: single_result_def)
  next
    case (Some a)
    then obtain j xs ys where j: "is = xs @ j # ys" "j \<in> free_regions (hp_free_set h1)" "alloc_at h1 (Bs(i := B)) req j a h' Bs' req'"
      "\<forall>k \<in> free_regions (hp_free_set h1) \<inter> set xs. too_small h1 (Bs(i := B)) req k"
      using assms(6) by (auto simp: single_result_def)
    then have "j \<noteq> i" using assms(2) by auto
    have "too_small h Bs req k" if "k \<in> free_regions (hp_free_set h) \<inter> set (i # xs)" for k
      using that j(1,4) assms(2,3,5) same(2) [of k] by (cases "k = i") auto
    then show ?thesis
      using j same(1) [OF \<open>j \<noteq> i\<close>] assms(5) unfolding single_result_def Some option.case
      by (intro exI [of _ j] exI [of _ "i # xs"] exI [of _ ys]) auto
  qed
qed

lemma allocate_single_loop_spec:
  assumes "heap_inv n h Bs" "fs_inv h" "req_ok req" "distinct is" "set is \<subseteq> {..<region_count (hp_opts h)}"
  shows "\<exists>res h' req' nw' Bs'. allocate_single_loop now is h req nw = Inr (res, h', req', nw') \<and>
    heap_inv n h' Bs' \<and> fs_inv h' \<and> fs_used (hp_free_set h') + free_sum h' = fs_used (hp_free_set h) + free_sum h \<and>
    fs_capacity (hp_free_set h') = fs_capacity (hp_free_set h) \<and> hp_opts h' = hp_opts h \<and> hp_mem_start h' = hp_mem_start h \<and>
    single_result h Bs req is res h' Bs' req'"
  using assms
proof (induction "is" arbitrary: h Bs nw)
  case Nil
  then show ?case by (auto simp: single_result_def)
next
  case (Cons i xs)
  have fr: "is_mutator_free (hp_free_set h) i \<longleftrightarrow> i \<in> free_regions (hp_free_set h)"
    using Cons.prems free_regions_iff [of "hp_free_set h" i] by (auto simp: fs_inv_def)
  show ?case
  proof (cases "i \<in> free_regions (hp_free_set h)")
    case False
    have "distinct xs" "set xs \<subseteq> {..<region_count (hp_opts h)}" using Cons.prems(4,5) by auto
    from Cons.IH [OF Cons.prems(1,2,3) this, of nw]
    obtain res h' req' nw' Bs' where r: "allocate_single_loop now xs h req nw = Inr (res, h', req', nw')"
      "heap_inv n h' Bs'" "fs_inv h'" "fs_used (hp_free_set h') + free_sum h' = fs_used (hp_free_set h) + free_sum h"
      "fs_capacity (hp_free_set h') = fs_capacity (hp_free_set h)" "hp_opts h' = hp_opts h" "hp_mem_start h' = hp_mem_start h"
      and sr: "single_result h Bs req xs res h' Bs' req'" by blast
    have "single_result h Bs req (i # xs) res h' Bs' req'"
    proof (cases res)
      case None then show ?thesis using sr False by (auto simp: single_result_def)
    next
      case (Some a)
      then obtain j us vs where "xs = us @ j # vs" "j \<in> free_regions (hp_free_set h)" "alloc_at h Bs req j a h' Bs' req'"
        "\<forall>k \<in> free_regions (hp_free_set h) \<inter> set us. too_small h Bs req k" using sr by (auto simp: single_result_def)
      then show ?thesis using False unfolding single_result_def Some option.case
        by (intro exI [of _ j] exI [of _ "i # us"] exI [of _ vs]) auto
    qed
    moreover have "allocate_single_loop now (i # xs) h req nw = Inr (res, h', req', nw')" using r(1) False fr by simp
    ultimately show ?thesis using r(2-) by blast
  next
    case True
    obtain res h1 req1 nw1 B1 where t: "try_allocate_in now h i req = Inr (res, h1, req1, nw1)"
      "heap_inv n h1 (Bs(i := B1))" "fs_inv h1" "only_region i h h1"
      "fs_used (hp_free_set h1) + free_sum h1 = fs_used (hp_free_set h) + free_sum h"
      and c: "case res of
       None \<Rightarrow> req1 = req \<and> free_regions (hp_free_set h1) = free_regions (hp_free_set h) - {i} \<and>
         (\<not> (elastic_tlab (hp_opts h) \<and> for_lab req) \<longrightarrow>
            (\<forall>b \<in># avail_blocks (hp_regions h ! i) (Bs i). snd b < 2 * ar_requested_size req))
     | Some a \<Rightarrow> alloc_at h Bs req i a h1 (Bs(i := B1)) req1"
      by (rule try_allocate_in_spec [OF Cons.prems(1,2) True Cons.prems(3)])
    have o: "hp_opts h1 = hp_opts h" "hp_mem_start h1 = hp_mem_start h" "fs_capacity (hp_free_set h1) = fs_capacity (hp_free_set h)"
      using t(4) by (auto simp: only_region_def)
    show ?thesis
    proof (cases res)
      case (Some a)
      then have "single_result h Bs req (i # xs) res h1 (Bs(i := B1)) req1"
        using c True unfolding single_result_def Some option.case
        by (intro exI [of _ i] exI [of _ "[]"] exI [of _ xs]) auto
      moreover have "allocate_single_loop now (i # xs) h req nw = Inr (res, h1, req1, nw1)" using t(1) Some True fr by simp
      ultimately show ?thesis using t o by blast
    next
      case None
      then have cc: "req1 = req" "free_regions (hp_free_set h1) = free_regions (hp_free_set h) - {i}" "too_small h Bs req i"
        using c by (auto simp: too_small_def)
      have "distinct xs" "set xs \<subseteq> {..<region_count (hp_opts h1)}" using Cons.prems(4,5) o by auto
      from Cons.IH [OF t(2,3) Cons.prems(3) this, of nw1]
      obtain res' h' req' nw' Bs' where r: "allocate_single_loop now xs h1 req nw1 = Inr (res', h', req', nw')"
        "heap_inv n h' Bs'" "fs_inv h'" "fs_used (hp_free_set h') + free_sum h' = fs_used (hp_free_set h1) + free_sum h1"
        "fs_capacity (hp_free_set h') = fs_capacity (hp_free_set h1)" "hp_opts h' = hp_opts h1" "hp_mem_start h' = hp_mem_start h1"
        and sr: "single_result h1 (Bs(i := B1)) req xs res' h' Bs' req'" by blast
      have "single_result h Bs req (i # xs) res' h' Bs' req'"
        by (rule single_result_step [OF t(4) _ cc(3) True cc(2) sr]) (use Cons.prems(4) in simp)
      moreover have "allocate_single_loop now (i # xs) h req nw = Inr (res', h', req', nw')"
        using t(1) None True fr r(1) cc(1) by simp
      ultimately show ?thesis using r t(5) o by auto
    qed
  qed
qed

lemma region_range_eq:
  assumes "heap_inv n h Bs" "k < region_count (hp_opts h)"
  shows "region_range (hp_regions h ! k) = {hp_mem_start h + k * 2 ^ n ..< hp_mem_start h + k * 2 ^ n + 2 ^ n}"
  using heap_invD(1,2) [OF assms] region_invD(5) [of n "hp_regions h ! k" "hp_memory h" "Bs k"]
  by (simp add: region_range_def placed_def)

lemma alloc_at_disjoint:
  assumes hi: "heap_inv n h Bs" and hi': "heap_inv n h' Bs'" and same: "hp_opts h' = hp_opts h" "hp_mem_start h' = hp_mem_start h"
    and i: "i < region_count (hp_opts h)" and al: "alloc_at h Bs req i a h' Bs' req'"
    and j: "j < region_count (hp_opts h)" "c \<in># Bs' j"
  shows "block_bytes (a, ar_actual_size req') \<inter> block_bytes c = {}"
proof -
  obtain sz where sz: "req' = set_actual_size sz req" "hr_begin (hp_regions h ! i) \<le> a" "a + sz \<le> hr_end (hp_regions h ! i)"
    "\<forall>c \<in># Bs' i. block_bytes (a, sz) \<inter> block_bytes c = {}" using al by (auto simp: alloc_at_def)
  then have act: "ar_actual_size req' = sz" by (simp add: set_actual_size_def)
  show ?thesis
  proof (cases "j = i")
    case True then show ?thesis using sz(4) j(2) act by blast
  next
    case False
    have "block_bytes (a, sz) \<subseteq> region_range (hp_regions h ! i)" using sz(2,3) by (auto simp: block_bytes_def region_range_def)
    moreover have j': "j < region_count (hp_opts h')" using j(1) same by simp
    then have "block_bytes c \<subseteq> region_range (hp_regions h' ! j)"
      using region_invD(8) [OF heap_invD(1) [OF hi' j']] j(2) by (auto simp: region_range_def)
    moreover have "region_range (hp_regions h' ! j) = region_range (hp_regions h ! j)"
      unfolding region_range_eq [OF hi' j'] region_range_eq [OF hi j(1)] same ..
    ultimately show ?thesis using region_ranges_disjoint [OF hi i j(1)] False act by blast
  qed
qed

section \<open>Runs of free regions\<close>

definition whole_free :: "Heap \<Rightarrow> nat \<Rightarrow> bool" where
  "whole_free h i \<longleftrightarrow> is_mutator_free (hp_free_set h) i \<and> can_allocate_from (hp_regions h ! i)"

definition free_run :: "Heap \<Rightarrow> nat \<Rightarrow> nat \<Rightarrow> bool" where
  "free_run h s k \<longleftrightarrow> s + k \<le> fs_max (hp_free_set h) \<and> (\<forall>j \<in> {s ..< s + k}. whole_free h j)"

lemma find_run_spec:
  assumes "length (hp_regions h) = fs_max (hp_free_set h)" "0 < num" "lo \<le> hi" "hi - lo < num"
    "\<forall>j \<in> {lo ..< hi}. whole_free h j" "\<forall>s. l0 \<le> s \<longrightarrow> s < lo \<longrightarrow> \<not> free_run h s num" "l0 \<le> lo"
  shows "\<exists>res. find_run h num lo hi = Inr res \<and>
    (case res of
       None \<Rightarrow> \<forall>s \<ge> l0. \<not> free_run h s num
     | Some (b, e) \<Rightarrow> l0 \<le> b \<and> e + 1 = b + num \<and> free_run h b num \<and> (\<forall>s. l0 \<le> s \<longrightarrow> s < b \<longrightarrow> \<not> free_run h s num))"
  using assms
proof (induction h num lo hi rule: find_run.induct)
  case (1 h num lo hi)
  let ?M = "fs_max (hp_free_set h)"
  show ?case
  proof (cases "hi \<ge> ?M")
    case True
    have "\<not> free_run h s num" if "l0 \<le> s" for s
    proof
      assume r: "free_run h s num"
      then have "s < lo" using True "1.prems"(3,4) by (auto simp: free_run_def)
      then show False using r that "1.prems"(6) by blast
    qed
    then show ?thesis using True by (subst find_run.simps) simp
  next
    case False
    have e: "find_run h num lo hi =
      (if \<not> whole_free h hi then find_run h num (hi + 1) (hi + 1)
       else if hi - lo + 1 = num then Inr (Some (lo, hi)) else find_run h num lo (hi + 1))"
      using False "1.prems"(1) by (subst find_run.simps) (simp add: whole_free_def get_region_def)
    show ?thesis
    proof (cases "whole_free h hi")
      case wf: False
      have "\<not> free_run h s num" if s: "l0 \<le> s" "s < hi + 1" for s
      proof (cases "s < lo")
        case True then show ?thesis using "1.prems"(6) s by blast
      next
        case False
        then have "hi \<in> {s ..< s + num}" using s(2) "1.prems"(3,4) by auto
        then show ?thesis using wf by (auto simp: free_run_def)
      qed
      moreover have "find_run h num lo hi = find_run h num (hi + 1) (hi + 1)" using e wf by simp
      ultimately show ?thesis
        using "1.IH"(1) [of False] False wf "1.prems" by auto
    next
      case True
      have r: "\<forall>j \<in> {lo ..< hi + 1}. whole_free h j" using True "1.prems"(5) by (auto simp: less_Suc_eq)
      show ?thesis
      proof (cases "hi - lo + 1 = num")
        case n: True
        then have "lo + num = hi + 1" using "1.prems"(3) by auto
        then have "free_run h lo num" using r False by (simp add: free_run_def)
        then show ?thesis using e True n "1.prems"(3,6,7) by auto
      next
        case n: False
        then have "find_run h num lo hi = find_run h num lo (hi + 1)" using e True by simp
        then show ?thesis using "1.IH"(2) [of True] False True n r "1.prems" by auto
      qed
    qed
  qed
qed

lemma claim_region_eq:
  assumes "i < length (hp_regions h)"
  obtains r' com' where "claim_region now first i h = Inr ((put_region h i r')\<lparr>hp_commited := com',
      hp_free_set := (hp_free_set h)\<lparr>mutator_free_bitmap := db_set (mutator_free_bitmap (hp_free_set h)) i False\<rparr>\<rparr>)"
    "hr_typ r' = (if first then HumongousStart else HumongousCont)" "hr_used r' = region_size_bytes (hp_opts h)"
    "hr_index r' = hr_index (hp_regions h ! i)" "hr_begin r' = hr_begin (hp_regions h ! i)"
    "hb_offset (hr_object_start_bitmap r') = hb_offset (hr_object_start_bitmap (hp_regions h ! i))"
    "hb_limit (hr_object_start_bitmap r') = hb_limit (hr_object_start_bitmap (hp_regions h ! i))"
    "\<And>n m B. region_inv n (hp_regions h ! i) m B \<Longrightarrow> region_inv n r' m {#}"
proof -
  define t where "t = (if first then HumongousStart else HumongousCont)"
  define r0 where "r0 = try_recycle_trashed now (hp_regions h ! i)"
  define r1 where "r1 = fst (hr_make_humongous t r0 (hp_commited h))"
  define r' where "r' = r1\<lparr>hr_used := region_size_bytes (hp_opts h)\<rparr>"
  have "claim_region now first i h = Inr ((put_region h i r')\<lparr>hp_commited := snd (hr_make_humongous t r0 (hp_commited h)),
      hp_free_set := (hp_free_set h)\<lparr>mutator_free_bitmap := db_set (mutator_free_bitmap (hp_free_set h)) i False\<rparr>\<rparr>)"
    using assms(1) by (simp add: claim_region_def get_region_def r'_def r1_def r0_def t_def hr_make_humongous_start_def
        hr_make_humongous_cont_def Let_def split: prod.splits)
  moreover have "hr_typ r' = t" "hr_used r' = region_size_bytes (hp_opts h)" "hr_index r' = hr_index (hp_regions h ! i)"
    "hr_begin r' = hr_begin (hp_regions h ! i)"
    "hb_offset (hr_object_start_bitmap r') = hb_offset (hr_object_start_bitmap (hp_regions h ! i))"
    "hb_limit (hr_object_start_bitmap r') = hb_limit (hr_object_start_bitmap (hp_regions h ! i))"
    by (auto simp: r'_def r1_def r0_def hr_make_humongous_def hr_do_commit_def Let_def try_recycle_trashed_def hr_recycle_def
        hr_make_empty_def hb_clear_def hb_memset_def)
  moreover have "region_inv n r' m {#}" if "region_inv n (hp_regions h ! i) m B" for n m B
  proof -
    have "\<exists>C. region_inv n r0 m C" using that recycle_inv [OF that] by (auto simp: r0_def try_recycle_trashed_def)
    then have "region_inv n r1 m {#}" unfolding r1_def using humongous_inv by blast
    then show ?thesis
      by (rule region_inv_change) (use region_invD(7) [OF \<open>region_inv n r1 m {#}\<close>] in \<open>auto simp: r'_def\<close>)
  qed
  ultimately show thesis unfolding t_def by (rule that)
qed

text \<open>The heap after a run of regions was claimed.\<close>

definition claimed :: "nat \<Rightarrow> nat list \<Rightarrow> Heap \<Rightarrow> Heap \<Rightarrow> bool" where
  "claimed lo is h h' \<longleftrightarrow> hp_opts h' = hp_opts h \<and> hp_mem_start h' = hp_mem_start h \<and> hp_memory h' = hp_memory h \<and>
     free_regions (hp_free_set h') = free_regions (hp_free_set h) - set is \<and>
     (\<forall>j. j \<notin> set is \<longrightarrow> hp_regions h' ! j = hp_regions h ! j) \<and>
     (\<forall>j \<in> set is. hr_typ (hp_regions h' ! j) = (if j = lo then HumongousStart else HumongousCont) \<and>
        hr_used (hp_regions h' ! j) = region_size_bytes (hp_opts h))"

definition same_counts :: "RegionFreeSet \<Rightarrow> RegionFreeSet \<Rightarrow> bool" where
  "same_counts fs fs' \<longleftrightarrow> fs_max fs' = fs_max fs \<and> fs_capacity fs' = fs_capacity fs \<and> fs_used fs' = fs_used fs"

lemma claim_regions_spec:
  assumes "heap_inv n h Bs" "bounds_ok (hp_free_set h)" "fs_max (hp_free_set h) = region_count (hp_opts h)"
    "set is \<subseteq> {..<region_count (hp_opts h)}" "distinct is"
  shows "\<exists>h'. claim_regions now lo is h = Inr h' \<and> heap_inv n h' (\<lambda>j. if j \<in> set is then {#} else Bs j) \<and>
    bounds_ok (hp_free_set h') \<and> claimed lo is h h' \<and> same_counts (hp_free_set h) (hp_free_set h')"
  using assms
proof (induction "is" arbitrary: h Bs)
  case Nil
  then show ?case by (simp add: claimed_def same_counts_def)
next
  case (Cons i xs)
  have i: "i < region_count (hp_opts h)" "i < fs_max (hp_free_set h)" using Cons.prems by auto
  note rD = heap_invD [OF Cons.prems(1) i(1)]
  obtain r' com' where r': "claim_region now (i = lo) i h = Inr ((put_region h i r')\<lparr>hp_commited := com',
      hp_free_set := (hp_free_set h)\<lparr>mutator_free_bitmap := db_set (mutator_free_bitmap (hp_free_set h)) i False\<rparr>\<rparr>)"
    "hr_typ r' = (if i = lo then HumongousStart else HumongousCont)" "hr_used r' = region_size_bytes (hp_opts h)" "hr_index r' = hr_index (hp_regions h ! i)"
    "hr_begin r' = hr_begin (hp_regions h ! i)"
    "hb_offset (hr_object_start_bitmap r') = hb_offset (hr_object_start_bitmap (hp_regions h ! i))"
    "hb_limit (hr_object_start_bitmap r') = hb_limit (hr_object_start_bitmap (hp_regions h ! i))"
    "\<And>n m B. region_inv n (hp_regions h ! i) m B \<Longrightarrow> region_inv n r' m {#}"
    by (rule claim_region_eq [OF rD(4), where now = now and first = "i = lo"], rule that)
  define fs1 where "fs1 = (hp_free_set h)\<lparr>mutator_free_bitmap := db_set (mutator_free_bitmap (hp_free_set h)) i False\<rparr>"
  define h1 where "h1 = (put_region h i r')\<lparr>hp_commited := com', hp_free_set := fs1\<rparr>"
  have h1: "hp_regions h1 = (hp_regions h)[i := r']" "hp_memory h1 = hp_memory h" "hp_opts h1 = hp_opts h"
    "hp_mem_start h1 = hp_mem_start h" "hp_free_set h1 = fs1" by (simp_all add: h1_def put_region_def)
  have pl: "placed n h i r'" using rD(2) r'(4-7) by (simp add: placed_def)
  have hi1: "heap_inv n h1 (Bs(i := {#}))"
    by (rule heap_inv_put [OF Cons.prems(1) i(1) r'(8) [OF rD(1)] pl _ h1(1-4)]) simp
  note fs1 = bounds_ok_remove [OF Cons.prems(2) i(2), folded fs1_def]
  have p: "fs_max (hp_free_set h1) = region_count (hp_opts h1)" "set xs \<subseteq> {..<region_count (hp_opts h1)}" "distinct xs"
    using Cons.prems by (auto simp: h1 fs1_def)
  obtain h' where h': "claim_regions now lo xs h1 = Inr h'" "heap_inv n h' (\<lambda>j. if j \<in> set xs then {#} else (Bs(i := {#})) j)"
    "bounds_ok (hp_free_set h')" "claimed lo xs h1 h'" "same_counts (hp_free_set h1) (hp_free_set h')"
    using Cons.IH [OF hi1 fs1(1) [folded h1(5)] p] by blast
  have run: "claim_regions now lo (i # xs) h = Inr h'" using r'(1) h'(1) by (simp add: h1_def fs1_def)
  have bs: "(\<lambda>j. if j \<in> set xs then {#} else (Bs(i := {#})) j) = (\<lambda>j. if j \<in> set (i # xs) then {#} else Bs j)" by auto
  have "claimed lo (i # xs) h h'"
    using h'(4) Cons.prems(5) rD(4) r'(2,3) fs1(2) by (auto simp: claimed_def h1)
  moreover have "same_counts (hp_free_set h) (hp_free_set h')" using h'(5) by (simp add: same_counts_def h1 fs1_def)
  ultimately show ?case using run h'(2,3) unfolding bs by blast
qed

section \<open>Contiguous allocation and rebuilding: lemmas\<close>

lemma whole_free_iff:
  assumes "fs_inv h" "j < fs_max (hp_free_set h)"
  shows "whole_free h j \<longleftrightarrow> j \<in> free_regions (hp_free_set h) \<and> can_allocate_from (hp_regions h ! j)"
  using assms free_regions_iff [of "hp_free_set h" j] by (auto simp: whole_free_def fs_inv_def)

lemma free_run_sub:
  assumes "fs_inv h" "free_run h s k"
  shows "{s ..< s + k} \<subseteq> free_regions (hp_free_set h)" "{s ..< s + k} \<subseteq> {..<region_count (hp_opts h)}"
    "k \<le> mutator_count (hp_free_set h)" "0 < k \<Longrightarrow> mutator_leftmost (hp_free_set h) \<le> s"
proof -
  have b: "bounds_ok (hp_free_set h)" "fs_max (hp_free_set h) = region_count (hp_opts h)" using assms by (auto simp: fs_inv_def)
  show sub: "{s ..< s + k} \<subseteq> free_regions (hp_free_set h)"
    using assms whole_free_iff [OF assms(1)] by (auto simp: free_run_def)
  then show "k \<le> mutator_count (hp_free_set h)"
    using card_mono [OF finite_free_regions sub] mutator_count_card [OF b(1)] by simp
  show "{s ..< s + k} \<subseteq> {..<region_count (hp_opts h)}" using sub fs_inv_in(1) [OF assms(1)] by blast
  show "mutator_leftmost (hp_free_set h) \<le> s" if "0 < k"
    using that sub b(1) by (auto simp: bounds_ok_def subset_iff)
qed

lemma capacity_whole:
  assumes "heap_inv n h Bs" "i < region_count (hp_opts h)" "can_allocate_from (hp_regions h ! i)"
  shows "alloc_capacity (hp_opts h) (hp_regions h ! i) = region_size_bytes (hp_opts h)"
  using heap_invD(1) [OF assms(1,2)] assms region_invD(5) [of n "hp_regions h ! i"]
  by (auto simp: alloc_capacity_def can_allocate_from_def hr_free_def hr_is_empty_def hr_size_def heap_inv_def opts_ok_def)

text \<open>What a successful contiguous allocation does, for the run \<open>[s, s + k)\<close>.\<close>

lemma allocate_contiguous_claim:
  assumes hi: "heap_inv n h Bs" and fi: "fs_inv h" and run: "free_run h s k" and k: "0 < k"
    and cl: "claim_regions now s [s ..< Suc (s + k - 1)] h = Inr h1"
    and h': "h' = finish_contiguous s (s + k - 1) k sz h1"
  shows "heap_inv n h' (\<lambda>j. if j \<in> {s ..< s + k} then {#} else Bs j)" "fs_inv h'" "claimed s [s ..< s + k] h h'"
    "fs_used (hp_free_set h') = fs_used (hp_free_set h) + region_payload_size_bytes (hp_opts h) * k"
    "fs_capacity (hp_free_set h') = fs_capacity (hp_free_set h)"
    "free_sum h' + k * region_size_bytes (hp_opts h) = free_sum h"
proof -
  have e: "[s ..< Suc (s + k - 1)] = [s ..< s + k]" using k by simp
  have b: "bounds_ok (hp_free_set h)" "fs_max (hp_free_set h) = region_count (hp_opts h)" using fi by (auto simp: fs_inv_def)
  note sub = free_run_sub [OF fi run]
  have h1: "heap_inv n h1 (\<lambda>j. if j \<in> set [s ..< s + k] then {#} else Bs j)" "bounds_ok (hp_free_set h1)"
    "claimed s [s ..< s + k] h h1" "same_counts (hp_free_set h) (hp_free_set h1)"
    using claim_regions_spec [OF hi b, of "[s ..< s + k]" now s] cl sub(2) unfolding e by auto
  define fs' where "fs' = (let fs = hp_free_set h1;
      fs = (if s = mutator_leftmost fs \<or> s + k - 1 = mutator_rightmost fs then adjust_bounds fs else fs)
      in fs\<lparr>fs_used := fs_used fs + region_payload_size_bytes (hp_opts h1) * k\<rparr>)"
  have h: "hp_opts h' = hp_opts h1" "hp_regions h' = hp_regions h1" "hp_memory h' = hp_memory h1" "hp_mem_start h' = hp_mem_start h1"
    "hp_free_set h' = fs'" unfolding h' by (simp_all add: finish_contiguous_def notify_mutator_alloc_def Let_def fs'_def)
  have f: "bounds_ok fs'" "free_regions fs' = free_regions (hp_free_set h1)" "fs_max fs' = fs_max (hp_free_set h1)"
    "fs_capacity fs' = fs_capacity (hp_free_set h1)" "fs_used fs' = fs_used (hp_free_set h1) + region_payload_size_bytes (hp_opts h1) * k"
    unfolding fs'_def using h1(2) adjust_bounds_ok [OF h1(2)] by (auto simp: Let_def)
  show "heap_inv n h' (\<lambda>j. if j \<in> {s ..< s + k} then {#} else Bs j)"
    using h1(1) unfolding heap_inv_def placed_def h set_upt .
  show cl': "claimed s [s ..< s + k] h h'" using h1(3) f(2) by (simp add: claimed_def h)
  show "fs_inv h'"
    using fi f h1(4) cl' unfolding fs_inv_def h by (auto simp: same_counts_def claimed_def h)
  show "fs_used (hp_free_set h') = fs_used (hp_free_set h) + region_payload_size_bytes (hp_opts h) * k"
    "fs_capacity (hp_free_set h') = fs_capacity (hp_free_set h)"
    using f h1(3,4) by (simp_all add: h same_counts_def claimed_def)
  have fr: "free_regions (hp_free_set h') = free_regions (hp_free_set h) - {s ..< s + k}" "hp_opts h' = hp_opts h"
    using cl' by (auto simp: claimed_def)
  have "free_sum h = (\<Sum>i \<in> free_regions (hp_free_set h) - {s ..< s + k}. alloc_capacity (hp_opts h) (hp_regions h ! i)) +
    (\<Sum>i \<in> {s ..< s + k}. alloc_capacity (hp_opts h) (hp_regions h ! i))"
    unfolding free_sum_def by (rule sum.subset_diff [OF sub(1) finite_free_regions])
  also have "(\<Sum>i \<in> {s ..< s + k}. alloc_capacity (hp_opts h) (hp_regions h ! i)) = (\<Sum>i \<in> {s ..< s + k}. region_size_bytes (hp_opts h))"
    by (rule sum.cong) (use run sub(2) capacity_whole [OF hi] in \<open>auto simp: free_run_def whole_free_def\<close>)
  also have "(\<Sum>i \<in> free_regions (hp_free_set h) - {s ..< s + k}. alloc_capacity (hp_opts h) (hp_regions h ! i)) = free_sum h'"
    unfolding free_sum_def fr using cl' by (intro sum.cong) (auto simp: claimed_def)
  finally show "free_sum h' + k * region_size_bytes (hp_opts h) = free_sum h" by simp
qed

text \<open>The search of \<open>allocate_contiguous\<close>, as one equation.\<close>

lemma allocate_contiguous_cases:
  assumes hi: "heap_inv n h Bs" and fi: "fs_inv h" and sz: "0 < ar_requested_size req"
  defines "k \<equiv> required_regions (hp_opts h) (ar_requested_size req)"
  obtains (none) "allocate_contiguous now h req = Inr (None, h, req)" "\<forall>s. \<not> free_run h s k"
    | (found) s h1 where "free_run h s k" "\<forall>t < s. \<not> free_run h t k" "0 < k"
      "claim_regions now s [s ..< Suc (s + k - 1)] h = Inr h1"
      "allocate_contiguous now h req = (let h' = finish_contiguous s (s + k - 1) k (ar_requested_size req) h1
         in rbind (get_region h' s) (\<lambda>r. Inr (Some (hr_begin r), h', set_actual_size (ar_requested_size req) req)))"
proof -
  let ?fs = "hp_free_set h"
  have ok: "opts_ok (hp_opts h)" "length (hp_regions h) = fs_max ?fs" "bounds_ok ?fs" "fs_max ?fs = region_count (hp_opts h)"
    using hi fi by (auto simp: heap_inv_def fs_inv_def)
  have k: "0 < k" using required_regions_cover(1) [OF ok(1), of "ar_requested_size req"] sz by (auto simp: k_def intro: ccontr)
  show thesis
  proof (cases "k > mutator_count ?fs")
    case True
    then have "\<forall>s. \<not> free_run h s k" using free_run_sub(3) [OF fi] by (meson leD)
    then show thesis using True by (intro none) (simp_all add: allocate_contiguous_def k_def Let_def)
  next
    case False
    let ?l = "mutator_leftmost ?fs"
    obtain res where res: "find_run h k ?l ?l = Inr res" "case res of
       None \<Rightarrow> \<forall>s \<ge> ?l. \<not> free_run h s k
     | Some (b, e) \<Rightarrow> ?l \<le> b \<and> e + 1 = b + k \<and> free_run h b k \<and> (\<forall>s. ?l \<le> s \<longrightarrow> s < b \<longrightarrow> \<not> free_run h s k)"
      using find_run_spec [OF ok(2) k, of ?l ?l ?l] k by auto
    have below: "\<not> free_run h s k" if "s < ?l" for s using free_run_sub(4) [OF fi _ k, of s] that by auto
    show thesis
    proof (cases res)
      case None
      then have "\<forall>s \<ge> ?l. \<not> free_run h s k" using res(2) by simp
      then have "\<forall>s. \<not> free_run h s k" using below by (meson not_le)
      then show thesis using None False res(1) by (intro none) (simp_all add: allocate_contiguous_def k_def Let_def)
    next
      case (Some p)
      then obtain s e where p: "res = Some (s, e)" by (cases p) auto
      have c: "e + 1 = s + k" "free_run h s k" "\<forall>t. ?l \<le> t \<longrightarrow> t < s \<longrightarrow> \<not> free_run h t k" using p res(2) by simp_all
      have "\<not> free_run h t k" if "t < s" for t using c(3) below that by (cases "t < ?l") auto
      then have s: "e = s + k - 1" "free_run h s k" "\<forall>t < s. \<not> free_run h t k" using c by auto
      have "[s ..< Suc (s + k - 1)] = [s ..< s + k]" using k by simp
      moreover obtain h1 where "claim_regions now s [s ..< s + k] h = Inr h1"
        using claim_regions_spec [OF hi ok(3,4), of "[s ..< s + k]" now s] free_run_sub(2) [OF fi s(2)] by auto
      ultimately have h1: "claim_regions now s [s ..< Suc (s + k - 1)] h = Inr h1" by simp
      show thesis
        by (rule found [OF s(2,3) k h1])
          (use False res(1) p s(1) h1 in \<open>simp only: allocate_contiguous_def k_def Let_def rbind_simps option.case prod.case if_False\<close>)
    qed
  qed
qed

lemma allocate_contiguous_some:
  assumes "heap_inv n h Bs" "fs_inv h" "0 < ar_requested_size req"
    "free_run h s (required_regions (hp_opts h) (ar_requested_size req))"
  obtains a h' req' where "allocate_contiguous now h req = Inr (Some a, h', req')"
proof (rule allocate_contiguous_cases [OF assms(1-3), of now], goal_cases)
  case none: 1
  then show ?case using assms(4) none(3) by blast
next
  case found: (2 t h1)
  let ?k = "required_regions (hp_opts h) (ar_requested_size req)"
  define h' where "h' = finish_contiguous t (t + ?k - 1) ?k (ar_requested_size req) h1"
  note cl = allocate_contiguous_claim [OF assms(1,2) found(2,4,5) h'_def]
  have "t \<in> {t ..< t + ?k}" using found(4) by simp
  then have "t < region_count (hp_opts h')"
    using subsetD [OF free_run_sub(2) [OF assms(2) found(2)]] cl(3) by (simp add: claimed_def)
  note rD = heap_invD [OF cl(1) this]
  show ?case by (rule that) (unfold found(6) h'_def [symmetric] Let_def rD(3) rbind_simps, rule refl)
qed

text \<open>Rebuilding.\<close>

lemma bounds_ok_insert:
  assumes "db_wf b" "i < db_bit_count b"
  shows "db_wf (db_set b i True)" "db.ones (db_set b i True) = insert i (db.ones b)"
  using db_wf_set [OF assms] db.ones_put [OF assms, of True] by simp_all

lemma rebuild_loop_spec:
  assumes "set is \<subseteq> {..<length (hp_regions h)}" "distinct is" "db_wf (mutator_free_bitmap fs)" "fs_used fs = 0"
    "\<forall>i \<in> set is. i < db_bit_count (mutator_free_bitmap fs)"
  shows "\<exists>fs'. rebuild_loop h is fs = Inr fs' \<and> db_wf (mutator_free_bitmap fs') \<and>
    db_bit_count (mutator_free_bitmap fs') = db_bit_count (mutator_free_bitmap fs) \<and> fs_max fs' = fs_max fs \<and> fs_used fs' = 0 \<and>
    free_regions fs' = free_regions fs \<union> {i \<in> set is. usable (hp_opts h) (hp_regions h ! i)} \<and>
    fs_capacity fs' = fs_capacity fs + (\<Sum>i \<in> {i \<in> set is. usable (hp_opts h) (hp_regions h ! i)}. alloc_capacity (hp_opts h) (hp_regions h ! i))"
  using assms
proof (induction "is" arbitrary: fs)
  case (Cons i xs)
  let ?r = "hp_regions h ! i" and ?U = "\<lambda>S. {i \<in> S. usable (hp_opts h) (hp_regions h ! i)}"
  have g: "get_region h i = Inr ?r" using Cons.prems(1) by (simp add: get_region_def)
  show ?case
  proof (cases "usable (hp_opts h) ?r")
    case False
    then have "rebuild_loop h (i # xs) fs = rebuild_loop h xs fs" using g by (auto simp: usable_def)
    moreover have "?U (set (i # xs)) = ?U (set xs)" using False by auto
    ultimately show ?thesis using Cons.IH [of fs] Cons.prems by auto
  next
    case True
    define fs1 where "fs1 = fs\<lparr>fs_capacity := fs_capacity fs + alloc_capacity (hp_opts h) ?r,
      mutator_free_bitmap := db_set (mutator_free_bitmap fs) i True\<rparr>"
    have s: "rebuild_loop h (i # xs) fs = rebuild_loop h xs fs1"
      using g True Cons.prems(4) by (simp add: usable_def fs1_def Let_def)
    have f: "db_wf (mutator_free_bitmap fs1)" "free_regions fs1 = insert i (free_regions fs)"
      using bounds_ok_insert [OF Cons.prems(3), of i] Cons.prems(5) by (simp_all add: fs1_def free_regions_def)
    have p: "set xs \<subseteq> {..<length (hp_regions h)}" "distinct xs" "fs_used fs1 = 0"
      "\<forall>i \<in> set xs. i < db_bit_count (mutator_free_bitmap fs1)"
      using Cons.prems by (auto simp: fs1_def)
    obtain fs' where fs': "rebuild_loop h xs fs1 = Inr fs'" "db_wf (mutator_free_bitmap fs')"
      "db_bit_count (mutator_free_bitmap fs') = db_bit_count (mutator_free_bitmap fs1)" "fs_max fs' = fs_max fs1" "fs_used fs' = 0"
      "free_regions fs' = free_regions fs1 \<union> ?U (set xs)"
      "fs_capacity fs' = fs_capacity fs1 + (\<Sum>i \<in> ?U (set xs). alloc_capacity (hp_opts h) (hp_regions h ! i))"
      using Cons.IH [OF p(1,2) f(1) p(3,4)] by blast
    have u: "?U (set (i # xs)) = insert i (?U (set xs))" "i \<notin> ?U (set xs)" using True Cons.prems(2) by auto
    have "(\<Sum>i \<in> ?U (set (i # xs)). alloc_capacity (hp_opts h) (hp_regions h ! i)) =
      alloc_capacity (hp_opts h) ?r + (\<Sum>i \<in> ?U (set xs). alloc_capacity (hp_opts h) (hp_regions h ! i))"
      unfolding u(1) using u(2) by (simp del: Collect_conj_eq)
    moreover have "free_regions fs' = free_regions fs \<union> ?U (set (i # xs))"
      unfolding fs'(6) f(2) u(1) by (simp only: Un_insert_left Un_insert_right)
    moreover have "fs_capacity fs1 = fs_capacity fs + alloc_capacity (hp_opts h) ?r" "fs_max fs1 = fs_max fs"
      "db_bit_count (mutator_free_bitmap fs1) = db_bit_count (mutator_free_bitmap fs)" by (simp_all add: fs1_def)
    ultimately show ?thesis
      unfolding s using fs'(1-5,7) by (intro exI [of _ fs'] conjI) (simp_all only: add.assoc)
  qed
qed auto

definition rebuildable :: "Heap \<Rightarrow> bool" where
  "rebuildable h \<longleftrightarrow> 0 < region_count (hp_opts h) \<and> db_wf (mutator_free_bitmap (hp_free_set h)) \<and>
     db_bit_count (mutator_free_bitmap (hp_free_set h)) = region_count (hp_opts h) \<and>
     fs_max (hp_free_set h) = region_count (hp_opts h) \<and>
     (\<forall>r \<in> set (hp_regions h). usable (hp_opts h) r \<longrightarrow> \<not> hr_to_sweep r)"

lemma fs_rebuild_spec:
  assumes hi: "heap_inv n h Bs" and rb: "rebuildable h"
  shows "\<exists>fs. fs_rebuild h = Inr (h\<lparr>hp_free_set := fs\<rparr>) \<and> fs_inv (h\<lparr>hp_free_set := fs\<rparr>) \<and>
    free_regions fs = {i. i < region_count (hp_opts h) \<and> usable (hp_opts h) (hp_regions h ! i)} \<and>
    fs_used fs = 0 \<and> fs_capacity fs = free_sum (h\<lparr>hp_free_set := fs\<rparr>) \<and> tight_bounds fs"
proof -
  let ?N = "region_count (hp_opts h)" and ?fs0 = "fs_clear (hp_free_set h)"
  let ?U = "{i. i < ?N \<and> usable (hp_opts h) (hp_regions h ! i)}"
  have len: "length (hp_regions h) = ?N" using hi by (simp add: heap_inv_def)
  have c: "db_wf (mutator_free_bitmap ?fs0)" "db_bit_count (mutator_free_bitmap ?fs0) = ?N" "free_regions ?fs0 = {}"
    "fs_used ?fs0 = 0" "fs_capacity ?fs0 = 0" "fs_max ?fs0 = ?N"
    using rb db_clear_spec [of "mutator_free_bitmap (hp_free_set h)"] by (simp_all add: rebuildable_def fs_clear_def free_regions_def)
  have U: "{i \<in> set [0..<?N]. usable (hp_opts h) (hp_regions h ! i)} = ?U" by auto
  have p: "set [0..<?N] \<subseteq> {..<length (hp_regions h)}" "distinct [0..<?N]"
    "\<forall>i \<in> set [0..<?N]. i < db_bit_count (mutator_free_bitmap ?fs0)" using len c(2) by auto
  obtain fs1 where fs1: "rebuild_loop h [0..<?N] ?fs0 = Inr fs1" "db_wf (mutator_free_bitmap fs1)"
    "db_bit_count (mutator_free_bitmap fs1) = ?N" "fs_max fs1 = ?N" "fs_used fs1 = 0" "free_regions fs1 = ?U"
    "fs_capacity fs1 = (\<Sum>i \<in> ?U. alloc_capacity (hp_opts h) (hp_regions h ! i))"
    using rebuild_loop_spec [OF p(1,2) c(1,4) p(3)] unfolding U c Un_empty_left add_0 by (elim exE conjE) (rule that)
  define fs2 where "fs2 = fs1\<lparr>mutator_rightmost := ?N - 1, mutator_leftmost := 0\<rparr>"
  have N: "0 < ?N" using rb by (simp add: rebuildable_def)
  have "free_regions fs2 = ?U" using fs1(6) by (simp add: fs2_def)
  moreover have "i \<le> ?N - 1" if "i \<in> ?U" for i using that by auto
  ultimately have b2: "bounds_ok fs2" unfolding bounds_ok_def using fs1(2-4) N by (simp add: fs2_def)
  have run: "fs_rebuild h = Inr (h\<lparr>hp_free_set := adjust_bounds fs2\<rparr>)"
    using fs1(1,4) N by (simp add: fs_rebuild_def recompute_bounds_def fs2_def)
  have fr: "free_regions (adjust_bounds fs2) = ?U" using fs1(6) by (simp add: fs2_def)
  have "\<not> hr_to_sweep (hp_regions h ! i)" if "i \<in> ?U" for i
    using that rb len nth_mem [of i "hp_regions h"] by (auto simp: rebuildable_def)
  then have "fs_inv (h\<lparr>hp_free_set := adjust_bounds fs2\<rparr>)"
    unfolding fs_inv_def using adjust_bounds_ok [OF b2] fr fs1(4) by (simp add: fs2_def)
  moreover have "fs_capacity (adjust_bounds fs2) = free_sum (h\<lparr>hp_free_set := adjust_bounds fs2\<rparr>)"
    using fs1(7) fr by (simp add: free_sum_def fs2_def)
  moreover have "tight_bounds (adjust_bounds fs2)" by (rule adjust_bounds_tight [OF b2]) (simp add: fs2_def)
  ultimately show ?thesis using run fr fs1(5) by (intro exI [of _ "adjust_bounds fs2"]) (simp add: fs2_def)
qed

section \<open>A small heap\<close>

definition small_heap :: "HeapOptions \<Rightarrow> Heap" where
  "small_heap opts =
     \<lparr>hp_opts = opts, hp_mem_start = 4096, hp_mem_size = region_count opts * 4096,
      hp_regions = map (\<lambda>i. HeapRegion_new 64 (\<lambda>_. 0) 0 i (4096 + i * 4096) opts True) [0..<region_count opts],
      hp_memory = (\<lambda>_. 0), hp_free_set = fs_set_heap opts (RegionFreeSet_new opts),
      hp_initial_size = region_count opts * 4096, hp_minimum_size = 0, hp_commited = region_count opts * 4096, hp_allocated = 0,
      hp_cancelled_gc = 0, hp_progress_last_gc = False, hp_concurrent_mark_in_progress = False\<rparr>"

lemma HeapRegion_new_fields [simp]:
  "hr_typ (HeapRegion_new base raw now i st opts True) = EmptyCommited"
  "hr_index (HeapRegion_new base raw now i st opts cm) = i"
  "hr_begin (HeapRegion_new base raw now i st opts cm) = st"
  "hr_end (HeapRegion_new base raw now i st opts cm) = st + region_size_bytes opts"
  "hr_to_sweep (HeapRegion_new base raw now i st opts cm) = False"
  "hb_offset (hr_object_start_bitmap (HeapRegion_new base raw now i st opts cm)) = st"
  "hb_limit (hr_object_start_bitmap (HeapRegion_new base raw now i st opts cm)) = st + region_size_bytes opts"
  by (simp_all add: HeapRegion_new_def hr_recycle_def hr_make_empty_def Let_def hb_clear_def hb_memset_def hb_new_def)

lemma small_heap_inv:
  assumes "opts_ok opts" "region_size_log2 opts = 12" "0 < region_count opts" "region_count opts \<le> 1024"
  shows "heap_inv 12 (small_heap opts) (\<lambda>_. {#})" "rebuildable (small_heap opts)"
    "i < region_count opts \<Longrightarrow> usable opts (hp_regions (small_heap opts) ! i) \<and> hr_is_empty (hp_regions (small_heap opts) ! i)"
proof -
  have sz: "region_size_bytes opts = 4096" using assms by (simp add: opts_ok_def)
  have rs: "hp_regions (small_heap opts) ! i = HeapRegion_new 64 (\<lambda>_. 0) 0 i (4096 + i * 4096) opts True" if "i < region_count opts" for i
    using that by (simp add: small_heap_def)
  have "region_inv 12 (HeapRegion_new 64 (\<lambda>_. 0) 0 i (4096 + i * 4096) opts True) (\<lambda>_. 0) {#}" if "i < region_count opts" for i
    using region_inv_new [OF assms(1), of "4096 + i * 4096"] that assms(2,4) sz by simp
  then show "heap_inv 12 (small_heap opts) (\<lambda>_. {#})"
    using assms sz rs by (simp add: heap_inv_def placed_def small_heap_def)
  show "rebuildable (small_heap opts)"
    using assms(3) db_contained_wf [of "region_count opts"] unfolding rebuildable_def
    by (auto simp: small_heap_def fs_set_heap_def)
  show "usable opts (hp_regions (small_heap opts) ! i) \<and> hr_is_empty (hp_regions (small_heap opts) ! i)" if "i < region_count opts"
    using rs [OF that] sz by (simp add: usable_def hr_is_alloc_allowed_def hr_is_empty_def alloc_capacity_def hr_is_trash_def
        hr_free_def hr_size_def)
qed

lemma small_heap_ready:
  assumes "opts_ok opts" "region_size_log2 opts = 12" "0 < region_count opts" "region_count opts \<le> 1024"
  obtains h where "heap_inv 12 h (\<lambda>_. {#})" "fs_inv h" "balanced h" "hp_opts h = opts" "free_regions (hp_free_set h) = {..<region_count opts}"
    "\<forall>i < region_count opts. hr_is_empty (hp_regions h ! i)" "hp_mem_size h = region_count opts * 2 ^ 12"
proof -
  note sh = small_heap_inv [OF assms]
  obtain fs where fs: "fs_inv ((small_heap opts)\<lparr>hp_free_set := fs\<rparr>)"
    "free_regions fs = {i. i < region_count (hp_opts (small_heap opts)) \<and> usable (hp_opts (small_heap opts)) (hp_regions (small_heap opts) ! i)}"
    "fs_used fs = 0" "fs_capacity fs = free_sum ((small_heap opts)\<lparr>hp_free_set := fs\<rparr>)"
    using fs_rebuild_spec [OF sh(1,2)] by blast
  have o: "hp_opts (small_heap opts) = opts" by (simp add: small_heap_def)
  show thesis
  proof (rule that)
    show "heap_inv 12 ((small_heap opts)\<lparr>hp_free_set := fs\<rparr>) (\<lambda>_. {#})" using sh(1) by simp
    show "balanced ((small_heap opts)\<lparr>hp_free_set := fs\<rparr>)" using fs(3,4) by (simp add: balanced_def)
    show "free_regions (hp_free_set ((small_heap opts)\<lparr>hp_free_set := fs\<rparr>)) = {..<region_count opts}"
      using fs(2) sh(3) by (auto simp: o)
    show "\<forall>i < region_count opts. hr_is_empty (hp_regions ((small_heap opts)\<lparr>hp_free_set := fs\<rparr>) ! i)" using sh(3) by simp
    show "hp_mem_size ((small_heap opts)\<lparr>hp_free_set := fs\<rparr>) = region_count opts * 2 ^ 12" by (simp add: small_heap_def)
  qed (use fs(1) o in simp_all)
qed

lemma small_opts_ok: "opts_ok small_opts" "opts_ok (small_opts\<lparr>elastic_tlab := True\<rparr>)"
  by (simp_all add: opts_ok_def)

section \<open>Properties\<close>

text \<open>C36. Rebuilding the free set never panics. Afterwards it contains exactly the regions that can serve an
  allocation (regular or empty with free bytes left, or trash that will be recycled), its cached bounds
  are the first and the last of them (the number of regions and 0 if there is none), nothing counts as used, and \<open>available\<close> reports exactly the bytes of those regions.\<close>

theorem free_set_rebuild_exact:
  assumes "heap_inv n h Bs" "rebuildable h"
  shows "\<exists>h'. fs_rebuild h = Inr h' \<and> heap_inv n h' Bs \<and> fs_inv h' \<and>
    free_regions (hp_free_set h') = {i. i < region_count (hp_opts h) \<and> usable (hp_opts h) (hp_regions h ! i)} \<and>
    tight_bounds (hp_free_set h') \<and> fs_available (hp_free_set h') = Inr (free_sum h')"
proof -
  obtain fs where fs: "fs_rebuild h = Inr (h\<lparr>hp_free_set := fs\<rparr>)" "fs_inv (h\<lparr>hp_free_set := fs\<rparr>)"
    "free_regions fs = {i. i < region_count (hp_opts h) \<and> usable (hp_opts h) (hp_regions h ! i)}"
    "fs_used fs = 0" "fs_capacity fs = free_sum (h\<lparr>hp_free_set := fs\<rparr>)" "tight_bounds fs"
    using fs_rebuild_spec [OF assms] by blast
  have "heap_inv n (h\<lparr>hp_free_set := fs\<rparr>) Bs" using assms(1) by simp
  then show ?thesis using fs by (intro exI [of _ "h\<lparr>hp_free_set := fs\<rparr>"]) (simp add: fs_available_def)
qed

theorem free_set_rebuild_exact_witness:
  "\<exists>h'. fs_rebuild (small_heap small_opts) = Inr h' \<and> heap_inv 12 h' (\<lambda>_. {#}) \<and> fs_inv h' \<and>
    free_regions (hp_free_set h') = {i. i < region_count (hp_opts (small_heap small_opts)) \<and>
      usable (hp_opts (small_heap small_opts)) (hp_regions (small_heap small_opts) ! i)} \<and> tight_bounds (hp_free_set h') \<and>
    fs_available (hp_free_set h') = Inr (free_sum h')"
  by (rule free_set_rebuild_exact) (rule small_heap_inv [OF small_opts_ok(1)]; simp)+

lemma allocate_single_spec:
  assumes "heap_inv n h Bs" "fs_inv h" "req_ok req"
  shows "\<exists>res h' req' nw' Bs'. allocate_single now h req nw = Inr (res, h', req', nw') \<and>
    heap_inv n h' Bs' \<and> fs_inv h' \<and> hp_opts h' = hp_opts h \<and> hp_mem_start h' = hp_mem_start h \<and> (balanced h' \<longleftrightarrow> balanced h) \<and>
    (case res of
       None \<Rightarrow> req' = req \<and> free_regions (hp_free_set h') = {} \<and>
         (\<forall>j \<in> free_regions (hp_free_set h). too_small h Bs req j)
     | Some a \<Rightarrow> \<exists>i \<in> free_regions (hp_free_set h). alloc_at h Bs req i a h' Bs' req' \<and>
         (\<forall>j < region_count (hp_opts h). \<forall>c \<in># Bs' j. block_bytes (a, ar_actual_size req') \<inter> block_bytes c = {}) \<and>
         (\<forall>j \<in> free_regions (hp_free_set h). j < i \<longrightarrow> too_small h Bs req j))"
proof -
  let ?fs = "hp_free_set h" and ?is = "[mutator_leftmost (hp_free_set h) ..< Suc (mutator_rightmost (hp_free_set h))]"
  have b: "bounds_ok ?fs" "fs_max ?fs = region_count (hp_opts h)" using assms(2) by (auto simp: fs_inv_def)
  then have "set ?is \<subseteq> {..<region_count (hp_opts h)}" by (auto simp: bounds_ok_def)
  then obtain res h' req' nw' Bs' where r: "allocate_single_loop now ?is h req nw = Inr (res, h', req', nw')"
    "heap_inv n h' Bs'" "fs_inv h'" "fs_used (hp_free_set h') + free_sum h' = fs_used ?fs + free_sum h"
    "fs_capacity (hp_free_set h') = fs_capacity ?fs" "hp_opts h' = hp_opts h" "hp_mem_start h' = hp_mem_start h"
    and sr: "single_result h Bs req ?is res h' Bs' req'"
    using allocate_single_loop_spec [OF assms distinct_upt, of _ _ now nw] by blast
  have all: "j \<in> set ?is" if "j \<in> free_regions ?fs" for j using that b(1) by (auto simp: bounds_ok_def)
  have c: "case res of
       None \<Rightarrow> req' = req \<and> free_regions (hp_free_set h') = {} \<and> (\<forall>j \<in> free_regions ?fs. too_small h Bs req j)
     | Some a \<Rightarrow> \<exists>i \<in> free_regions ?fs. alloc_at h Bs req i a h' Bs' req' \<and>
         (\<forall>j < region_count (hp_opts h). \<forall>c \<in># Bs' j. block_bytes (a, ar_actual_size req') \<inter> block_bytes c = {}) \<and>
         (\<forall>j \<in> free_regions ?fs. j < i \<longrightarrow> too_small h Bs req j)"
  proof (cases res)
    case None
    then show ?thesis using sr all by (fastforce simp: single_result_def)
  next
    case (Some a)
    then obtain i xs ys where i: "?is = xs @ i # ys" "i \<in> free_regions ?fs" "alloc_at h Bs req i a h' Bs' req'"
      "\<forall>j \<in> free_regions ?fs \<inter> set xs. too_small h Bs req j" using sr by (auto simp: single_result_def)
    have "j \<in> set xs" if "j \<in> free_regions ?fs" "j < i" for j
    proof -
      have "sorted (xs @ i # ys)" using sorted_upt i(1) by metis
      then have "j \<notin> set (i # ys)" using that(2) by (auto simp: sorted_append)
      then show ?thesis using all [OF that(1)] unfolding i(1) by auto
    qed
    moreover have "block_bytes (a, ar_actual_size req') \<inter> block_bytes c = {}"
      if "j < region_count (hp_opts h)" "c \<in># Bs' j" for j c
      by (rule alloc_at_disjoint [OF assms(1) r(2,6,7) fs_inv_in(1) [OF assms(2) i(2)] i(3) that])
    ultimately show ?thesis using Some i by auto
  qed
  have "balanced h' \<longleftrightarrow> balanced h" using r(4,5) by (simp add: balanced_def)
  then show ?thesis using r c unfolding allocate_single_def by blast
qed

text \<open>C34. Allocation of a small object or a LAB never panics and keeps heap and free set consistent. On
  success the bytes were free, lie in one region of the free set, overlap no block that is still free
  anywhere in the heap, have the requested size (or, for an elastic LAB, at least the minimum), a shared
  object is recorded in its region's object start bitmap, and every earlier region of the free set had
  only blocks smaller than twice the request. On failure every region was retired. In both cases what
  \<open>used\<close> gained is exactly what the free set lost.\<close>

theorem allocate_single_correct:
  assumes "heap_inv n h Bs" "fs_inv h" "req_ok req"
  shows "\<exists>res h' req' nw' Bs'. allocate_single now h req nw = Inr (res, h', req', nw') \<and>
    heap_inv n h' Bs' \<and> fs_inv h' \<and> (balanced h' \<longleftrightarrow> balanced h) \<and>
    (case res of
       None \<Rightarrow> req' = req \<and> free_regions (hp_free_set h') = {} \<and>
         (\<forall>j \<in> free_regions (hp_free_set h). too_small h Bs req j)
     | Some a \<Rightarrow> \<exists>i \<in> free_regions (hp_free_set h). alloc_at h Bs req i a h' Bs' req' \<and>
         (\<forall>j < region_count (hp_opts h). \<forall>c \<in># Bs' j. block_bytes (a, ar_actual_size req') \<inter> block_bytes c = {}) \<and>
         (\<forall>j \<in> free_regions (hp_free_set h). j < i \<longrightarrow> too_small h Bs req j))"
  using allocate_single_spec [OF assms, of now nw] by blast

theorem allocate_single_correct_witness:
  "\<exists>h. fs_inv h \<and> balanced h \<and> free_regions (hp_free_set h) = {..<4} \<and>
    (\<exists>res h' req' nw' Bs'. allocate_single 0 h (AllocRequest_new Shared 48 48) False = Inr (res, h', req', nw') \<and>
    heap_inv 12 h' Bs' \<and> fs_inv h' \<and> (balanced h' \<longleftrightarrow> balanced h) \<and>
    (case res of
       None \<Rightarrow> req' = AllocRequest_new Shared 48 48 \<and> free_regions (hp_free_set h') = {} \<and>
         (\<forall>j \<in> free_regions (hp_free_set h). too_small h (\<lambda>_. {#}) (AllocRequest_new Shared 48 48) j)
     | Some a \<Rightarrow> \<exists>i \<in> free_regions (hp_free_set h). alloc_at h (\<lambda>_. {#}) (AllocRequest_new Shared 48 48) i a h' Bs' req' \<and>
         (\<forall>j < region_count (hp_opts h). \<forall>c \<in># Bs' j. block_bytes (a, ar_actual_size req') \<inter> block_bytes c = {}) \<and>
         (\<forall>j \<in> free_regions (hp_free_set h). j < i \<longrightarrow> too_small h (\<lambda>_. {#}) (AllocRequest_new Shared 48 48) j)))"
proof -
  obtain h where h: "heap_inv 12 h (\<lambda>_. {#})" "fs_inv h" "balanced h" "free_regions (hp_free_set h) = {..<4}"
    by (rule small_heap_ready [OF small_opts_ok(1)]) simp_all
  have "req_ok (AllocRequest_new Shared 48 48)" by (simp add: req_ok_def AllocRequest_new_def for_lab_def)
  from allocate_single_correct [OF h(1,2) this, of 0 False] show ?thesis
    using h by (intro exI [of _ h] conjI)
qed

lemma allocate_contiguous_spec:
  assumes "heap_inv n h Bs" "fs_inv h" "0 < ar_requested_size req"
  shows "\<exists>res h' req' Bs'. allocate_contiguous now h req = Inr (res, h', req') \<and> heap_inv n h' Bs' \<and> fs_inv h' \<and>
    (let k = required_regions (hp_opts h) (ar_requested_size req) in
     case res of
       None \<Rightarrow> h' = h \<and> req' = req \<and> (\<forall>s. \<not> free_run h s k)
     | Some a \<Rightarrow> \<exists>s. free_run h s k \<and> (\<forall>t < s. \<not> free_run h t k) \<and> a = hp_mem_start h + s * 2 ^ n \<and>
         ar_requested_size req \<le> k * 2 ^ n \<and> req' = set_actual_size (ar_requested_size req) req \<and>
         claimed s [s ..< s + k] h h' \<and> (\<forall>j \<in> {s ..< s + k}. Bs' j = {#}))"
proof -
  let ?k = "required_regions (hp_opts h) (ar_requested_size req)"
  have ok: "opts_ok (hp_opts h)" "region_size_bytes (hp_opts h) = 2 ^ n" using assms(1) by (auto simp: heap_inv_def opts_ok_def)
  show ?thesis
  proof (rule allocate_contiguous_cases [OF assms, of now], goal_cases)
    case 1
    then show ?thesis using assms(1,2) by (intro exI [of _ None] exI [of _ h] exI [of _ req] exI [of _ Bs]) (simp add: Let_def)
  next
    case found: (2 s h1)
    define h' where "h' = finish_contiguous s (s + ?k - 1) ?k (ar_requested_size req) h1"
    let ?B = "\<lambda>j. if j \<in> {s ..< s + ?k} then {#} else Bs j"
    note cl = allocate_contiguous_claim [OF assms(1,2) found(1,3,4) h'_def]
    have o: "hp_opts h' = hp_opts h" "hp_mem_start h' = hp_mem_start h" using cl(3) by (auto simp: claimed_def)
    have "s \<in> {s ..< s + ?k}" using found(3) by simp
    then have s: "s < region_count (hp_opts h')" using subsetD [OF free_run_sub(2) [OF assms(2) found(1)]] o(1) by simp
    note rD = heap_invD [OF cl(1) s]
    have a: "hr_begin (hp_regions h' ! s) = hp_mem_start h + s * 2 ^ n" using rD(2) o by (simp add: placed_def)
    have "allocate_contiguous now h req = Inr (Some (hp_mem_start h + s * 2 ^ n), h', set_actual_size (ar_requested_size req) req)"
      unfolding found(5) h'_def [symmetric] Let_def rD(3) rbind_simps a ..
    then show ?thesis
      using cl found(1,2) required_regions_cover(1) [OF ok(1), of "ar_requested_size req"] ok(2)
      by (intro exI [of _ "Some (hp_mem_start h + s * 2 ^ n)"] exI [of _ h'] exI [of _ "set_actual_size (ar_requested_size req) req"] exI [of _ ?B])
        (auto simp: Let_def set_actual_size_def)
  qed
qed

text \<open>C35. A request above the humongous threshold takes the first run of enough adjacent, completely free
  regions. It fails only if no such run exists, and then changes nothing; otherwise it returns the start
  of the lowest run, which is large enough, marks the first region as start and the others as
  continuation, takes exactly these regions out of the free set and keeps heap and free set consistent.\<close>

theorem allocate_contiguous_first_fit:
  assumes "heap_inv n h Bs" "fs_inv h" "0 < ar_requested_size req"
  shows "\<exists>res h' req' Bs'. allocate_contiguous now h req = Inr (res, h', req') \<and> heap_inv n h' Bs' \<and> fs_inv h' \<and>
    (let k = required_regions (hp_opts h) (ar_requested_size req) in
     case res of
       None \<Rightarrow> h' = h \<and> req' = req \<and> (\<forall>s. \<not> free_run h s k)
     | Some a \<Rightarrow> \<exists>s. free_run h s k \<and> (\<forall>t < s. \<not> free_run h t k) \<and> a = hp_mem_start h + s * 2 ^ n \<and>
         ar_requested_size req \<le> k * 2 ^ n \<and> req' = set_actual_size (ar_requested_size req) req \<and>
         claimed s [s ..< s + k] h h' \<and> (\<forall>j \<in> {s ..< s + k}. Bs' j = {#}))"
  by (rule allocate_contiguous_spec [OF assms])

theorem allocate_contiguous_first_fit_witness:
  "\<exists>h. free_regions (hp_free_set h) = {..<4} \<and>
   (\<exists>res h' req' Bs'. allocate_contiguous 0 h (AllocRequest_new Shared 8000 8000) = Inr (res, h', req') \<and> heap_inv 12 h' Bs' \<and> fs_inv h' \<and>
    (let k = required_regions (hp_opts h) (ar_requested_size (AllocRequest_new Shared 8000 8000)) in
     case res of
       None \<Rightarrow> h' = h \<and> req' = AllocRequest_new Shared 8000 8000 \<and> (\<forall>s. \<not> free_run h s k)
     | Some a \<Rightarrow> \<exists>s. free_run h s k \<and> (\<forall>t < s. \<not> free_run h t k) \<and> a = hp_mem_start h + s * 2 ^ 12 \<and>
         ar_requested_size (AllocRequest_new Shared 8000 8000) \<le> k * 2 ^ 12 \<and>
         req' = set_actual_size (ar_requested_size (AllocRequest_new Shared 8000 8000)) (AllocRequest_new Shared 8000 8000) \<and>
         claimed s [s ..< s + k] h h' \<and> (\<forall>j \<in> {s ..< s + k}. Bs' j = {#})))"
proof -
  obtain h where h: "heap_inv 12 h (\<lambda>_. {#})" "fs_inv h" "free_regions (hp_free_set h) = {..<4}"
    by (rule small_heap_ready [OF small_opts_ok(1)]) simp_all
  have "0 < ar_requested_size (AllocRequest_new Shared 8000 8000)" by (simp add: AllocRequest_new_def)
  from allocate_contiguous_first_fit [OF h(1,2) this, of 0] show ?thesis using h(3) by (intro exI [of _ h] conjI)
qed

lemma setup_payload: "setup_sizes page args = Inr opts \<Longrightarrow> region_payload_size_bytes opts = 0"
proof -
  have "region_payload_size_bytes (setup_opts page args) = 0" by (simp add: setup_opts_def Let_def)
  then show "setup_sizes page args = Inr opts \<Longrightarrow> ?thesis" by (auto simp: setup_sizes_def Let_def split: if_splits)
qed

lemma rbind_tuple2: "rbind x (\<lambda>r. Inr (f r, y, z)) = Inr (a, b, c) \<Longrightarrow> b = y"
  by (cases x) auto

text \<open>Humongous allocations are not counted as used: \<open>setup_sizes\<close> leaves \<open>region_payload_size_bytes\<close> at
  zero, so a successful contiguous allocation takes whole regions out of the free set without raising
  \<open>used\<close>, and \<open>available\<close> then reports those regions' bytes as if they could still be allocated.\<close>

theorem humongous_not_counted:
  assumes "setup_sizes page args = Inr (hp_opts h)" "heap_inv n h Bs" "fs_inv h" "balanced h" "0 < ar_requested_size req"
    "allocate_contiguous now h req = Inr (Some a, h', req')"
  shows "fs_available (hp_free_set h') =
    Inr (free_sum h' + required_regions (hp_opts h) (ar_requested_size req) * region_size_bytes (hp_opts h))"
proof (rule allocate_contiguous_cases [OF assms(2,3,5), of now], goal_cases)
  case 1
  then show ?case using assms(6) by simp
next
  case found: (2 s h1)
  let ?k = "required_regions (hp_opts h) (ar_requested_size req)"
  have h': "h' = finish_contiguous s (s + ?k - 1) ?k (ar_requested_size req) h1"
    using assms(6) unfolding found(5) Let_def by (rule rbind_tuple2)
  have pay: "region_payload_size_bytes (hp_opts h) = 0"
    using assms(1) setup_payload by blast
  note cl = allocate_contiguous_claim [OF assms(2,3) found(1,3,4) h']
  show ?case using cl(4-6) pay assms(4) by (simp add: fs_available_def balanced_def checked_sub_def)
qed

abbreviation tiny_args :: HeapArguments where
  "tiny_args \<equiv> default_args\<lparr>ha_region_size := 4096, ha_max_heap_size := 40960\<rparr>"

lemma tiny_opts:
  obtains opts where "setup_sizes 4096 tiny_args = Inr opts" "opts_ok opts" "region_size_log2 opts = 12" "region_count opts = 10"
proof -
  have "setup_sizes 4096 tiny_args = Inr ((setup_opts 4096 tiny_args)\<lparr>parallel_region_stride := region_count (setup_opts 4096 tiny_args) div 2\<rparr>)"
    by (simp add: setup_sizes_def Let_def setup_min_region_size_def MIN_REGION_SIZE_def MIN_NUM_PAGES_def)
  moreover have "setup_region_size_arg tiny_args = 4096" by (simp add: setup_region_size_arg_def)
  moreover have "align_nat 4096 4096 = 4096" "align_nat 40960 4096 = 40960" by (simp_all add: align_nat_eq)
  moreover have "log2_trunc 4096 = 12" by (simp add: log2_trunc_def bit_length_eq [of 12])
  ultimately show thesis
    by (intro that) (auto simp: setup_opts_def Let_def opts_ok_def)
qed

theorem humongous_not_counted_witness:
  "\<exists>h a h' req'. setup_sizes 4096 tiny_args = Inr (hp_opts h) \<and>
    allocate_contiguous 0 h (AllocRequest_new Shared 8000 8000) = Inr (Some a, h', req') \<and>
    fs_available (hp_free_set h') = Inr (free_sum h' +
      required_regions (hp_opts h) (ar_requested_size (AllocRequest_new Shared 8000 8000)) * region_size_bytes (hp_opts h))"
proof -
  let ?req = "AllocRequest_new Shared 8000 8000"
  obtain opts where o: "setup_sizes 4096 tiny_args = Inr opts" "opts_ok opts" "region_size_log2 opts = 12" "region_count opts = 10"
    by (rule tiny_opts)
  obtain h where h: "heap_inv 12 h (\<lambda>_. {#})" "fs_inv h" "balanced h" "hp_opts h = opts"
    "free_regions (hp_free_set h) = {..<10}" "\<forall>i < 10. hr_is_empty (hp_regions h ! i)"
    by (rule small_heap_ready [OF o(2,3)]) (simp_all add: o(4))
  have req: "0 < ar_requested_size ?req" by (simp add: AllocRequest_new_def)
  have k: "required_regions (hp_opts h) (ar_requested_size ?req) = 2"
    using o(2,3) h(4) by (simp add: required_regions_eq AllocRequest_new_def opts_ok_def)
  have "free_run h 0 2"
    using h fs_inv_in(1) [OF h(2)] whole_free_iff [OF h(2)] o(4) by (auto simp: free_run_def fs_inv_def can_allocate_from_def)
  then obtain a h' req' where al: "allocate_contiguous 0 h ?req = Inr (Some a, h', req')"
    using allocate_contiguous_some [OF h(1,2) req] k by metis
  from humongous_not_counted [OF _ h(1-3) req al, of 4096 tiny_args] show ?thesis using al o(1) h(4) by blast
qed

text \<open>An elastic LAB request never gets memory from an empty region: the free list of an empty region is
  filled only when it is first allocated from, but the elastic size is taken from the free list before
  that. The request fails, and the completely free region is retired with all its bytes as waste.\<close>

theorem elastic_lab_retires_empty_region:
  assumes "heap_inv n h Bs" "fs_inv h" "i \<in> free_regions (hp_free_set h)" "hr_is_empty (hp_regions h ! i)"
    "elastic_tlab (hp_opts h)" "for_lab req" "0 < ar_min_size req"
  shows "\<exists>h'. try_allocate_in now h i req = Inr (None, h', req, True) \<and>
    free_regions (hp_free_set h') = free_regions (hp_free_set h) - {i} \<and>
    fs_used (hp_free_set h') = fs_used (hp_free_set h) + 2 ^ n"
proof -
  let ?r = "hp_regions h ! i"
  note iD = fs_inv_in [OF assms(2,3)]
  note rD = heap_invD [OF assms(1) iD(1)]
  obtain p where "hr_peek_free ?r (hp_memory h) = Inr p" "hr_is_empty ?r \<Longrightarrow> p = 0"
    using hr_peek_allocate [OF rD(1)] by metis
  then have peek: "hr_peek_free ?r (hp_memory h) = Inr 0" using assms(4) by simp
  have nt: "\<not> hr_is_trash ?r" using assms(4) by (auto simp: hr_is_trash_def hr_is_empty_def)
  then have r0: "try_recycle_trashed now ?r = ?r" by (simp add: try_recycle_trashed_def)
  have al: "fs_region_allocate (hp_opts h) req (?r, hp_memory h, hp_commited h) = Inr (None, (?r, hp_memory h, hp_commited h), 0)"
    if "0 < ar_requested_size req"
    using that assms(5-7) peek by (simp add: fs_region_allocate_def align_down_16 [of 0, simplified])
  have al0: "fs_region_allocate (hp_opts h) req (?r, hp_memory h, hp_commited h) = Inr (None, (?r, hp_memory h, hp_commited h), 0)"
    if "ar_requested_size req = 0"
    using that assms(5-7) peek by (simp add: fs_region_allocate_def)
  have alloc: "fs_region_allocate (hp_opts h) req (?r, hp_memory h, hp_commited h) = Inr (None, (?r, hp_memory h, hp_commited h), 0)"
    using al al0 by (cases "ar_requested_size req") auto
  define h1 where "h1 = put_region (h\<lparr>hp_memory := hp_memory h, hp_commited := hp_commited h, hp_free_set := hp_free_set h\<rparr>) i ?r"
  have h1: "hp_free_set h1 = hp_free_set h" by (simp add: h1_def put_region_def)
  have "try_allocate_in now h i req = Inr (None, fs_retire h1 ?r, req, True)"
    using iD(2,3) rD(3) alloc assms(4) by (simp add: try_allocate_in_def usable_def r0 finish_allocation_def h1_def Let_def)
  moreover have b: "bounds_ok (hp_free_set h1)" "hr_index ?r < fs_max (hp_free_set h1)"
    using assms(2) iD(1) rD(2) by (auto simp: h1 fs_inv_def placed_def)
  have "hr_free ?r = 2 ^ n"
    using assms(4) region_invD(5) [OF rD(1)] by (auto simp: hr_free_def hr_is_empty_def hr_size_def)
  moreover have "hr_index ?r = i" using rD(2) by (simp add: placed_def)
  ultimately show ?thesis using fs_retire_set(2,5) [OF b] h1 by (intro exI [of _ "fs_retire h1 ?r"]) simp
qed

theorem elastic_lab_retires_empty_region_witness:
  "\<exists>h. elastic_tlab (hp_opts h) \<and> 0 \<in> free_regions (hp_free_set h) \<and>
    (\<exists>h'. try_allocate_in 0 h 0 (AllocRequest_new ForLAB 2048 2048) = Inr (None, h', AllocRequest_new ForLAB 2048 2048, True) \<and>
      free_regions (hp_free_set h') = free_regions (hp_free_set h) - {0} \<and>
      fs_used (hp_free_set h') = fs_used (hp_free_set h) + 2 ^ 12)"
proof -
  obtain h where h: "heap_inv 12 h (\<lambda>_. {#})" "fs_inv h" "hp_opts h = small_opts\<lparr>elastic_tlab := True\<rparr>"
    "free_regions (hp_free_set h) = {..<4}" "\<forall>i < 4. hr_is_empty (hp_regions h ! i)"
    by (rule small_heap_ready [OF small_opts_ok(2)]) simp_all
  have f: "0 \<in> free_regions (hp_free_set h)" "hr_is_empty (hp_regions h ! 0)" "elastic_tlab (hp_opts h)" using h(3-5) by auto
  have "for_lab (AllocRequest_new ForLAB 2048 2048)" "0 < ar_min_size (AllocRequest_new ForLAB 2048 2048)"
    by (simp_all add: for_lab_def AllocRequest_new_def)
  from elastic_lab_retires_empty_region [OF h(1,2) f this, of 0] show ?thesis using f by blast
qed

end
