(* ===== verification/Sweep.thy ===== *)
theory Sweep
  imports FreeSet
begin

unbundle bit_operations_syntax

text \<open>
  \<open>heap/sweeper.rs\<close>: sweeping a regular region. The sweeper walks the region from object to object,
  keeps the marked ones, and puts the gaps between them on the region's free list. The walk follows the
  sizes found in memory, so it need not end on an arbitrary memory: the loop is a partial function into
  \<open>option\<close>, and that it returns is part of what is proved for a region that can be parsed. The mark
  bitmap is the one of \<open>heap/marking_context.rs\<close>; the table of vtables is an argument.
\<close>

section \<open>The sweeper\<close>

record SweepState =
  sw_region :: HeapRegion
  sw_mem :: mem
  sw_gap :: addr
  sw_used :: nat
  sw_free :: nat

text \<open>Put the gap that ends at \<open>hi\<close> on the free list.\<close>

definition sweep_gap :: "SweepState \<Rightarrow> addr \<Rightarrow> SweepState res" where
  "sweep_gap s hi =
     (if sw_gap s \<noteq> hi then
        let sz = hi - sw_gap s; r = sw_region s in
        rbind (fl_add (hr_free_list r) (sw_mem s) (sw_gap s) sz) (\<lambda>(fl, m).
          Inr (s\<lparr>sw_region := r\<lparr>hr_free_list := fl, hr_largest_free_list_entry := max (hr_largest_free_list_entry r) sz\<rparr>,
                 sw_mem := m, sw_free := sw_free s + sz\<rparr>))
      else Inr s)"

definition sweep_keep :: "addr \<Rightarrow> nat \<Rightarrow> SweepState \<Rightarrow> SweepState" where
  "sweep_keep a sz s =
     s\<lparr>sw_used := sw_used s + sz, sw_gap := a + sz,
       sw_region := (sw_region s)\<lparr>hr_object_start_bitmap := set_bit (hr_object_start_bitmap (sw_region s)) a\<rparr>\<rparr>"

partial_function (option) sweep_loop ::
  "(nat \<Rightarrow> VTable) \<Rightarrow> HeapBitmap \<Rightarrow> addr \<Rightarrow> addr \<Rightarrow> SweepState \<Rightarrow> SweepState res option" where
  "sweep_loop vtab marks hi begin s =
     (if begin = hi then Some (Inr s)
      else let sz = heap_size vtab (sw_mem s) begin in
           if hdr_is_free (sw_mem s begin) then sweep_loop vtab marks hi (begin + sz) s
           else if \<not> check_bit marks begin then sweep_loop vtab marks hi (begin + sz) s
           else (case sweep_gap s begin of
                   Inl p \<Rightarrow> Some (Inl p)
                 | Inr s \<Rightarrow> sweep_loop vtab marks hi (begin + sz) (sweep_keep begin sz s)))"

definition sweep_start :: "HeapRegion \<Rightarrow> mem \<Rightarrow> SweepState" where
  "sweep_start r m =
     \<lparr>sw_region = r\<lparr>hr_free_list := fl_clear (hr_free_list r), hr_largest_free_list_entry := 0,
        hr_object_start_bitmap := hb_clear (hr_object_start_bitmap r)\<rparr>,
      sw_mem = m, sw_gap = hr_begin r, sw_used = 0, sw_free = 0\<rparr>"

definition sweep_end :: "addr \<Rightarrow> SweepState \<Rightarrow> (bool \<times> HeapRegion \<times> mem) res" where
  "sweep_end hi s =
     rbind (sweep_gap s hi) (\<lambda>s.
       let r = (sw_region s)\<lparr>hr_used := sw_used s\<rparr> in
       if sw_used s = 0 \<and> sw_free s = 0 then Inl AssertFailed
       else Inr (sw_gap s = hr_begin r, r\<lparr>hr_last_sweep_free := sw_free s\<rparr>, sw_mem s))"

definition sweep_region ::
  "(nat \<Rightarrow> VTable) \<Rightarrow> HeapOptions \<Rightarrow> HeapBitmap \<Rightarrow> HeapRegion \<Rightarrow> mem \<Rightarrow> (bool \<times> HeapRegion \<times> mem) res option" where
  "sweep_region vtab opts marks r m =
     (let hi = hr_begin r + region_size_bytes opts;
          s = sweep_start r m
      in case (if is_marked_range marks (hr_begin r) hi then sweep_loop vtab marks hi (hr_begin r) s else Some (Inr s)) of
           None \<Rightarrow> None
         | Some (Inl p) \<Rightarrow> Some (Inl p)
         | Some (Inr s) \<Rightarrow> Some (sweep_end hi s))"

section \<open>Parsable regions\<close>

text \<open>A parsable piece of memory is tiled by cells, objects and free blocks, whose sizes can be read from
  their headers.\<close>

fun tiled :: "(nat \<Rightarrow> VTable) \<Rightarrow> mem \<Rightarrow> addr \<Rightarrow> addr \<Rightarrow> block list \<Rightarrow> bool" where
  "tiled vtab m lo hi [] \<longleftrightarrow> lo = hi"
| "tiled vtab m lo hi ((a, s) # cs) \<longleftrightarrow> a = lo \<and> 16 \<le> s \<and> 16 dvd s \<and> heap_size vtab m a = s \<and> tiled vtab m (a + s) hi cs"

definition live_cell :: "mem \<Rightarrow> HeapBitmap \<Rightarrow> block \<Rightarrow> bool" where
  "live_cell m marks c \<longleftrightarrow> \<not> hdr_is_free (m (fst c)) \<and> check_bit marks (fst c)"

text \<open>The gaps before each of a list of kept cells, and where the last one ends.\<close>

definition gap :: "addr \<Rightarrow> addr \<Rightarrow> block list" where
  "gap lo hi = (if lo = hi then [] else [(lo, hi - lo)])"

fun gaps :: "addr \<Rightarrow> block list \<Rightarrow> block list" where
  "gaps lo [] = []"
| "gaps lo ((a, s) # ks) = gap lo a @ gaps (a + s) ks"

definition kept_end :: "addr \<Rightarrow> block list \<Rightarrow> addr" where
  "kept_end lo ks = (if ks = [] then lo else fst (last ks) + snd (last ks))"

lemma kept_end_simps [simp]: "kept_end lo [] = lo" "kept_end lo ((a, s) # ks) = kept_end (a + s) ks"
  by (simp_all add: kept_end_def)

definition all_gaps :: "HeapRegion \<Rightarrow> block list \<Rightarrow> block list" where
  "all_gaps r ks = gaps (hr_begin r) ks @ gap (kept_end (hr_begin r) ks) (hr_end r)"

lemma tiled_le: "tiled vtab m lo hi cs \<Longrightarrow> lo \<le> hi"
  by (induction cs arbitrary: lo) fastforce+

lemma tiled_cells:
  "tiled vtab m lo hi cs \<Longrightarrow> (a, s) \<in> set cs \<Longrightarrow>
     lo \<le> a \<and> a + s \<le> hi \<and> 16 \<le> s \<and> 16 dvd s \<and> 16 dvd (a - lo) \<and> heap_size vtab m a = s"
proof (induction cs arbitrary: lo)
  case (Cons c cs)
  obtain b t where c: "c = (b, t)" by fastforce
  show ?case
  proof (cases "(a, s) = c")
    case True
    then show ?thesis using Cons.prems c tiled_le [of vtab m "a + s" hi cs] by auto
  next
    case False
    have ih: "b + t \<le> a \<and> a + s \<le> hi \<and> 16 \<le> s \<and> 16 dvd s \<and> 16 dvd (a - (b + t)) \<and> heap_size vtab m a = s"
      using Cons.IH [of "b + t"] Cons.prems False c by auto
    moreover have "16 dvd (a - (b + t)) + t" using ih Cons.prems(1) c by (intro dvd_add) auto
    ultimately show ?thesis using Cons.prems(1) c by (auto simp: add.commute)
  qed
qed simp

section \<open>Free blocks are cells\<close>

definition free_cell :: "mem \<Rightarrow> block \<Rightarrow> bool" where
  "free_cell m b \<longleftrightarrow> hdr_is_free (m (fst b)) \<and> entry_at m (fst b) (snd b)"

lemma free_cell_size: "free_cell m (a, s) \<Longrightarrow> 0 < s \<Longrightarrow> heap_size vtab m a = s"
  using Entry_heap_size_at [of m a s]
  by (auto simp: free_cell_def heap_size_def heap_size_from_vtable_def hdr_is_free_def Entry_heap_size_def Let_def
      split: if_splits)

lemma free_cell_frame:
  assumes "free_cell m b" "16 \<le> snd b" "\<forall>x \<in> block_bytes b. m' x = m x"
  shows "free_cell m' b"
proof -
  have "m' (fst b) = m (fst b)" using assms(2,3) by (simp add: block_bytes_def)
  moreover have "entry_at m' (fst b) (snd b) = entry_at m (fst b) (snd b)"
    using entry_at_frame(1) [OF assms(2), of "fst b" m' m] assms(3) by simp
  ultimately show ?thesis using assms(1) by (simp add: free_cell_def)
qed

lemma as_entry_free: "as_entry m a s = Inr m' \<Longrightarrow> hdr_is_free (m' a)"
  using hdr_vtable_set [of 0 "SizeTag_update 0 s"]
  by (auto simp: as_entry_def Let_def size_address_def hdr_is_free_iff hdr_set_vtable_def split: if_splits)

lemma fl_add_free_cell:
  assumes add: "fl_add fl m a s = Inr (fl', m')" and s: "16 \<le> s" "16 dvd s" "s < 2 ^ 64"
  shows "free_cell m' (a, s)"
proof -
  obtain m1 where m1: "as_entry m a s = Inr m1" "entry_at m1 a s" by (rule as_entry_ok [OF s])
  have "\<exists>v. m' = m1(a + 8 := v)"
    using add s(1) m1(1)
    by (auto simp: fl_add_def fl_add_returning_unused_bounds_def rbind_eq_Inr entry_link_def Let_def split: if_splits)
  then obtain v where v: "m' = m1(a + 8 := v)" by blast
  then have "entry_at m' a s" using m1(2) by (simp add: entry_at_def size_address_def)
  then show ?thesis using as_entry_free [OF m1(1)] v by (simp add: free_cell_def)
qed

section \<open>The loop\<close>

text \<open>The state of the sweep of region \<open>r0\<close> after the gaps \<open>B\<close> were put on the free list.\<close>

definition sw_inv :: "nat \<Rightarrow> HeapRegion \<Rightarrow> block multiset \<Rightarrow> SweepState \<Rightarrow> bool" where
  "sw_inv n r0 B s \<longleftrightarrow> hr_begin (sw_region s) = hr_begin r0 \<and> hr_end (sw_region s) = hr_end r0 \<and>
     hr_index (sw_region s) = hr_index r0 \<and> hr_typ (sw_region s) = hr_typ r0 \<and> hr_to_sweep (sw_region s) = hr_to_sweep r0 \<and>
     fl_store (Suc n) (hr_free_list (sw_region s), sw_mem s) B \<and>
     (\<forall>b \<in># B. block_bytes b \<subseteq> {hr_begin r0 ..< sw_gap s} \<and> free_cell (sw_mem s) b)"

text \<open>What one operation of the sweep leaves alone.\<close>

definition sw_frame :: "SweepState \<Rightarrow> SweepState \<Rightarrow> addr set \<Rightarrow> bool" where
  "sw_frame s s' A \<longleftrightarrow> (\<forall>x. x \<notin> A \<longrightarrow> sw_mem s' x = sw_mem s x)"

lemma sweep_gap_spec:
  assumes inv: "sw_inv n r0 B s" and r0: "region_inv n r0 m0 B0"
    and g: "hr_begin r0 \<le> sw_gap s" "sw_gap s \<le> hi" "hi \<le> hr_end r0" "16 dvd sw_gap s - hr_begin r0" "16 dvd hi - hr_begin r0"
  obtains s' where "sweep_gap s hi = Inr s'" "sw_inv n r0 (mset (gap (sw_gap s) hi) + B) (s'\<lparr>sw_gap := hi\<rparr>)"
    "sw_gap s' = sw_gap s" "sw_used s' = sw_used s" "sw_free s' = sw_free s + (hi - sw_gap s)"
    "hr_object_start_bitmap (sw_region s') = hr_object_start_bitmap (sw_region s)"
    "hr_largest_free_list_entry (sw_region s') = max (hr_largest_free_list_entry (sw_region s)) (hi - sw_gap s)"
    "sw_frame s s' {sw_gap s ..< hi}"
proof (cases "sw_gap s = hi")
  case True
  then show thesis using inv by (intro that [of s]) (auto simp: sweep_gap_def gap_def sw_frame_def sw_inv_def)
next
  case False
  let ?b = "(sw_gap s, hi - sw_gap s)" and ?r = "sw_region s"
  note rD = region_invD [OF r0]
  have "hi - sw_gap s = (hi - hr_begin r0) - (sw_gap s - hr_begin r0)" using g by simp
  then have d: "16 dvd hi - sw_gap s" using g(4,5) by (simp only: dvd_diff_nat)
  then have "16 \<le> hi - sw_gap s" using False g(2) by (intro dvd_imp_le) auto
  moreover have "hi - sw_gap s \<le> 2 ^ n" using g rD(5) by auto
  then have "hi - sw_gap s < 2 ^ Suc n" using zero_less_power [of "2::nat" n] unfolding power_Suc by linarith
  moreover have "sw_gap s mod 8 = 0"
  proof -
    have "8 dvd sw_gap s - hr_begin r0" "8 dvd hr_begin r0" using g(4) rD(4) by presburger+
    then show ?thesis using g(1) by (metis dvd_add dvd_imp_mod_0 le_add_diff_inverse)
  qed
  ultimately have wf: "wf_block (Suc n) ?b" using d g rD by (auto simp: wf_block_def)
  have disj: "\<forall>c \<in># B. block_bytes ?b \<inter> block_bytes c = {}"
    using inv by (fastforce simp: sw_inv_def block_bytes_def)
  have st: "fl_store (Suc n) (hr_free_list ?r, sw_mem s) B" using inv by (simp add: sw_inv_def)
  obtain fl' m' where add: "fl_add (hr_free_list ?r) (sw_mem s) (sw_gap s) (hi - sw_gap s) = Inr (fl', m')"
    "fl_store (Suc n) (fl', m') (add_mset ?b B)" "\<forall>x. x \<notin> block_bytes ?b \<longrightarrow> m' x = sw_mem s x"
    using fls.give_law [OF st wf disj] by (auto simp: fl_give_def)
  have cell: "free_cell m' ?b" using fl_add_free_cell [OF add(1)] wf by (auto simp: wf_block_def)
  have cells: "free_cell m' c \<and> block_bytes c \<subseteq> {hr_begin r0 ..< hi}" if "c \<in># B" for c
  proof -
    have c: "free_cell (sw_mem s) c" "block_bytes c \<subseteq> {hr_begin r0 ..< sw_gap s}" using inv that by (auto simp: sw_inv_def)
    have "16 \<le> snd c" using fls.rep_wf [OF st that] by (simp add: wf_block_def)
    moreover have "\<forall>x \<in> block_bytes c. m' x = sw_mem s x" using c(2) add(3) by (auto simp: block_bytes_def)
    ultimately show ?thesis using free_cell_frame [OF c(1)] c(2) g(2) by auto
  qed
  define s' where "s' = s\<lparr>sw_region := ?r\<lparr>hr_free_list := fl',
      hr_largest_free_list_entry := max (hr_largest_free_list_entry ?r) (hi - sw_gap s)\<rparr>,
      sw_mem := m', sw_free := sw_free s + (hi - sw_gap s)\<rparr>"
  show thesis
  proof (rule that)
    show "sweep_gap s hi = Inr s'" using False add(1) by (simp add: sweep_gap_def s'_def Let_def)
    have "block_bytes ?b \<subseteq> {hr_begin r0 ..< hi}" using g by (auto simp: block_bytes_def)
    then show "sw_inv n r0 (mset (gap (sw_gap s) hi) + B) (s'\<lparr>sw_gap := hi\<rparr>)"
      using inv add(2) cell cells False unfolding sw_inv_def by (auto simp: s'_def gap_def)
    show "sw_frame s s' {sw_gap s ..< hi}" using add(3) g(2) by (simp add: sw_frame_def s'_def block_bytes_def)
  qed (simp_all add: s'_def)
qed

lemma heap_size_frame:
  assumes "\<forall>x \<ge> a. m' x = m x"
  shows "heap_size vtab m' a = heap_size vtab m a"
proof -
  have "a + 8 + d - (a + 8 + d) mod 8 \<ge> a" for d
    using mod_less_divisor [of 8 "a + 8 + d"] by linarith
  then have "read_u32 m' (a + 8 + d) = read_u32 m (a + 8 + d)" for d using assms by (simp add: read_u32_def)
  then show ?thesis
    using assms by (simp add: heap_size_def heap_size_from_vtable_def Entry_heap_size_def data_def Let_def)
qed

lemma tiled_frame: "\<forall>x \<ge> lo. m' x = m x \<Longrightarrow> tiled vtab m' lo hi cs = tiled vtab m lo hi cs"
proof (induction cs arbitrary: lo)
  case (Cons c cs)
  obtain a s where "c = (a, s)" by fastforce
  then show ?case using Cons heap_size_frame [of lo m' m vtab] by auto
qed simp

text \<open>The result of sweeping the cells with kept cells \<open>ks\<close>, from a state with gap start \<open>g\<close>.\<close>

definition swept :: "nat \<Rightarrow> HeapRegion \<Rightarrow> block multiset \<Rightarrow> block list \<Rightarrow> SweepState \<Rightarrow> SweepState \<Rightarrow> bool" where
  "swept n r0 B ks s s' \<longleftrightarrow>
     (let gs = gaps (sw_gap s) ks in
      sw_inv n r0 (mset gs + B) s' \<and> sw_gap s' = kept_end (sw_gap s) ks \<and>
      sw_used s' = sw_used s + sum_list (map snd ks) \<and> sw_free s' = sw_free s + sum_list (map snd gs) \<and>
      hr_largest_free_list_entry (sw_region s') = fold max (map snd gs) (hr_largest_free_list_entry (sw_region s)) \<and>
      hr_object_start_bitmap (sw_region s') = fold (\<lambda>c b. set_bit b (fst c)) ks (hr_object_start_bitmap (sw_region s)) \<and>
      sw_frame s s' (\<Union>(block_bytes ` set gs)))"

lemma gap_bytes: "lo \<le> hi \<Longrightarrow> \<Union>(block_bytes ` set (gap lo hi)) = {lo ..< hi}" "lo \<le> hi \<Longrightarrow> sum_list (map snd (gap lo hi)) = hi - lo"
  by (auto simp: gap_def block_bytes_def)

lemma fold_max_gap: "lo \<le> hi \<Longrightarrow> fold max (map snd (gap lo hi)) (k::nat) = max k (hi - lo)"
  by (auto simp: gap_def)

lemma swept_keep:
  assumes sp: "sw_inv n r0 (mset (gap (sw_gap s) a) + B) (s1\<lparr>sw_gap := a\<rparr>)" "sw_gap s \<le> a"
    and s1: "sw_used s1 = sw_used s" "sw_free s1 = sw_free s + (a - sw_gap s)"
      "hr_object_start_bitmap (sw_region s1) = hr_object_start_bitmap (sw_region s)"
      "hr_largest_free_list_entry (sw_region s1) = max (hr_largest_free_list_entry (sw_region s)) (a - sw_gap s)"
      "sw_frame s s1 {sw_gap s ..< a}"
    and rest: "swept n r0 (mset (gap (sw_gap s) a) + B) ks (sweep_keep a sz s1) s'"
  shows "swept n r0 B ((a, sz) # ks) s s'"
proof -
  have "sw_frame s s' (\<Union>(block_bytes ` set (gap (sw_gap s) a @ gaps (a + sz) ks)))"
    using rest s1(5) gap_bytes(1) [OF sp(2)] by (auto simp: swept_def sw_frame_def sweep_keep_def Let_def image_Un)
  then show ?thesis
    using rest s1 gap_bytes(2) [OF sp(2)] fold_max_gap [OF sp(2)]
    by (simp add: swept_def sweep_keep_def Let_def ac_simps)
qed

lemma sweep_loop_spec:
  assumes r0: "region_inv n r0 m0 B0" and inv: "sw_inv n r0 B s" and t: "tiled vtab (sw_mem s) b (hr_end r0) cs"
    and g: "hr_begin r0 \<le> sw_gap s" "sw_gap s \<le> b" "16 dvd sw_gap s - hr_begin r0" "16 dvd b - hr_begin r0"
  shows "\<exists>s'. sweep_loop vtab marks (hr_end r0) b s = Some (Inr s') \<and>
    swept n r0 B (filter (live_cell (sw_mem s) marks) cs) s s'"
  using inv t g
proof (induction cs arbitrary: b s B)
  case Nil
  then show ?case by (simp add: sweep_loop.simps swept_def sw_frame_def Let_def)
next
  case (Cons c cs)
  obtain sz where c: "c = (b, sz)" "16 \<le> sz" "16 dvd sz" "heap_size vtab (sw_mem s) b = sz"
    "tiled vtab (sw_mem s) (b + sz) (hr_end r0) cs" using Cons.prems(2) by (cases c) auto
  have ne: "b \<noteq> hr_end r0" "b \<le> hr_end r0" using tiled_le [OF c(5)] c(2) by auto
  have "(b - hr_begin r0) + sz = b + sz - hr_begin r0" using Cons.prems(3,4) by simp
  then have d: "16 dvd b + sz - hr_begin r0" using Cons.prems(6) c(3) by (metis dvd_add)
  show ?case
  proof (cases "live_cell (sw_mem s) marks c")
    case False
    then have "sweep_loop vtab marks (hr_end r0) b s = sweep_loop vtab marks (hr_end r0) (b + sz) s"
      using ne c by (subst sweep_loop.simps) (auto simp: live_cell_def Let_def)
    then show ?thesis using Cons.IH [OF Cons.prems(1) c(5) Cons.prems(3) _ Cons.prems(5) d] Cons.prems(4) False by simp
  next
    case True
    obtain s1 where s1: "sweep_gap s b = Inr s1" "sw_inv n r0 (mset (gap (sw_gap s) b) + B) (s1\<lparr>sw_gap := b\<rparr>)"
      "sw_used s1 = sw_used s" "sw_free s1 = sw_free s + (b - sw_gap s)"
      "hr_object_start_bitmap (sw_region s1) = hr_object_start_bitmap (sw_region s)"
      "hr_largest_free_list_entry (sw_region s1) = max (hr_largest_free_list_entry (sw_region s)) (b - sw_gap s)"
      "sw_frame s s1 {sw_gap s ..< b}"
      using sweep_gap_spec [OF Cons.prems(1) r0 Cons.prems(3,4) ne(2) Cons.prems(5,6)] by blast
    define s2 where "s2 = sweep_keep b sz s1"
    have step: "sweep_loop vtab marks (hr_end r0) b s = sweep_loop vtab marks (hr_end r0) (b + sz) s2"
      using ne c True s1(1) by (subst sweep_loop.simps) (auto simp: live_cell_def Let_def s2_def)
    have inv2: "sw_inv n r0 (mset (gap (sw_gap s) b) + B) s2"
      using s1(2) by (fastforce simp: sw_inv_def s2_def sweep_keep_def)
    have m: "\<forall>x \<ge> b. sw_mem s2 x = sw_mem s x" using s1(7) by (simp add: sw_frame_def s2_def sweep_keep_def)
    then have t2: "tiled vtab (sw_mem s2) (b + sz) (hr_end r0) cs" using c(5) tiled_frame [of "b + sz" "sw_mem s2" "sw_mem s"] by auto
    have "live_cell (sw_mem s2) marks x = live_cell (sw_mem s) marks x" if "x \<in> set cs" for x
      using tiled_cells [OF c(5), of "fst x" "snd x"] that m by (simp add: live_cell_def)
    then have f: "filter (live_cell (sw_mem s2) marks) cs = filter (live_cell (sw_mem s) marks) cs" by (rule filter_cong [OF refl])
    have g2: "hr_begin r0 \<le> sw_gap s2" "sw_gap s2 \<le> b + sz" "16 dvd sw_gap s2 - hr_begin r0"
      using Cons.prems(3,4) d by (simp_all add: s2_def sweep_keep_def)
    obtain s' where s': "sweep_loop vtab marks (hr_end r0) (b + sz) s2 = Some (Inr s')"
      "swept n r0 (mset (gap (sw_gap s) b) + B) (filter (live_cell (sw_mem s) marks) cs) s2 s'"
      using Cons.IH [OF inv2 t2 g2 d] unfolding f by blast
    have "swept n r0 B (c # filter (live_cell (sw_mem s) marks) cs) s s'"
      unfolding c(1) by (rule swept_keep [OF s1(2) Cons.prems(4) s1(3-7) s'(2) [unfolded s2_def]])
    then show ?thesis using step s'(1) True by auto
  qed
qed

section \<open>Kept cells\<close>

fun ordered :: "addr \<Rightarrow> addr \<Rightarrow> block list \<Rightarrow> bool" where
  "ordered lo hi [] \<longleftrightarrow> lo \<le> hi"
| "ordered lo hi ((a, s) # ks) \<longleftrightarrow> lo \<le> a \<and> 16 \<le> s \<and> ordered (a + s) hi ks"

lemma tiled_ordered: "tiled vtab m lo hi cs \<Longrightarrow> l \<le> lo \<Longrightarrow> ordered l hi (filter P cs)"
proof (induction cs arbitrary: lo l)
  case (Cons c cs)
  obtain a s where "c = (a, s)" by fastforce
  then show ?case using Cons.prems Cons.IH [of "a + s" l] Cons.IH [of "a + s" "a + s"] by auto
qed simp

lemma ordered_end: "ordered lo hi ks \<Longrightarrow> lo \<le> kept_end lo ks \<and> kept_end lo ks \<le> hi \<and> (kept_end lo ks = lo \<longleftrightarrow> ks = [])"
proof (induction ks arbitrary: lo)
  case (Cons k ks)
  obtain a s where "k = (a, s)" by fastforce
  then show ?case using Cons.prems Cons.IH [of "a + s"] by auto
qed simp

lemma gaps_sum:
  "ordered lo hi ks \<Longrightarrow> sum_list (map snd ks) + sum_list (map snd (gaps lo ks)) + lo = kept_end lo ks"
proof (induction ks arbitrary: lo)
  case (Cons k ks)
  obtain a s where "k = (a, s)" by fastforce
  then show ?case using Cons.prems Cons.IH [of "a + s"] gap_bytes(2) [of lo a] by auto
qed simp

lemma ordered_bounds: "ordered lo hi ks \<Longrightarrow> (\<forall>d \<in> set ks. lo \<le> fst d) \<and> (\<forall>d \<in> set (gaps lo ks). lo \<le> fst d)"
proof (induction ks arbitrary: lo)
  case (Cons k ks)
  obtain a s where "k = (a, s)" by fastforce
  then show ?case using Cons.prems Cons.IH [of "a + s"] by (fastforce simp: gap_def split: if_splits)
qed simp

lemma gaps_disjoint:
  "ordered lo hi ks \<Longrightarrow> c \<in> set ks \<Longrightarrow> b \<in> set (gaps lo ks) \<Longrightarrow> block_bytes c \<inter> block_bytes b = {} \<and> lo \<le> fst c \<and> lo \<le> fst b"
proof (induction ks arbitrary: lo)
  case (Cons k ks)
  obtain a s where k: "k = (a, s)" by fastforce
  have o: "lo \<le> a" "ordered (a + s) hi ks" using Cons.prems(1) k by auto
  note later = ordered_bounds [OF o(2)]
  show ?case
    using Cons.prems(2,3) k o Cons.IH [OF o(2)] later
    by (fastforce simp: gap_def block_bytes_def split: if_splits)
qed simp

lemma fold_set_bits:
  "\<forall>c \<in> set ks. hb_offset b \<le> fst c \<Longrightarrow>
   hb_offset (fold (\<lambda>c b. set_bit b (fst c)) ks b) = hb_offset b \<and>
   (hb_bit (fold (\<lambda>c b. set_bit b (fst c)) ks b) k \<longleftrightarrow> hb_bit b k \<or> (\<exists>c \<in> set ks. bit_number b (fst c) = k))"
proof (induction ks arbitrary: b)
  case (Cons c ks)
  then show ?case using Cons.IH [of "set_bit b (fst c)"] by (auto simp: hb_bit_set_bit bit_number_def)
qed simp

lemma all_gaps_disjoint:
  assumes o: "ordered (hr_begin r) (hr_end r) ks" and c: "c \<in> set ks"
  shows "block_bytes c \<inter> \<Union>(block_bytes ` set (all_gaps r ks)) = {}"
proof -
  have "fst c + snd c \<le> kept_end lo ks" if "ordered lo hi ks" "c \<in> set ks" for lo hi
    using that
  proof (induction ks arbitrary: lo)
    case (Cons k ks)
    obtain a s where "k = (a, s)" by fastforce
    then show ?case using Cons.prems Cons.IH [of "a + s"] ordered_end [of "a + s" hi ks] by auto
  qed simp
  from this [OF o c] have "block_bytes c \<inter> {kept_end (hr_begin r) ks ..< hr_end r} = {}" by (auto simp: block_bytes_def)
  then show ?thesis
    using gaps_disjoint [OF o c] ordered_end [OF o] gap_bytes(1) [of "kept_end (hr_begin r) ks" "hr_end r"]
    by (auto simp: all_gaps_def)
qed

text \<open>The bitmap of a region: one bit for each 16 bytes, from a 16-aligned allocation.\<close>

definition bitmap_ok :: "nat \<Rightarrow> HeapRegion \<Rightarrow> bool" where
  "bitmap_ok n r \<longleftrightarrow> hb_offset (hr_object_start_bitmap r) = hr_begin r \<and>
     hb_size (hr_object_start_bitmap r) = 2 ^ n div 128 \<and> hb_base (hr_object_start_bitmap r) mod 16 = 0"

lemma bitmap_cleared:
  assumes "bitmap_ok n r" "12 \<le> n" "k < 2 ^ n div 16"
  shows "\<not> hb_bit (hb_clear (hr_object_start_bitmap r)) k"
proof -
  obtain j where n: "n = 12 + j" using assms(2) by (metis le_add_diff_inverse)
  have "hb_size (hr_object_start_bitmap r) = 32 * 2 ^ j" using assms(1) by (simp add: bitmap_ok_def n power_add)
  moreover have "k div 8 < 32 * 2 ^ j" using assms(3) by (simp add: n power_add less_mult_imp_div_less)
  ultimately show ?thesis
    using hb_clear_eq [of "hr_object_start_bitmap r" "k div 8"] assms(1) by (simp add: bitmap_ok_def hb_bit_def)
qed

section \<open>Sweeping a region\<close>

definition marks_cover :: "HeapBitmap \<Rightarrow> HeapRegion \<Rightarrow> bool" where
  "marks_cover marks r \<longleftrightarrow> hb_offset marks \<le> hr_begin r \<and> 16 dvd hr_begin r - hb_offset marks"

lemma sw_inv_start:
  "region_inv n r m B \<Longrightarrow> sw_inv n r {#} (sweep_start r m)"
  using fl_store_clear [OF region_invD(7)] by (simp add: sw_inv_def sweep_start_def)

lemma unmarked_range:
  assumes "region_inv n r m B" "marks_cover marks r" "tiled vtab m (hr_begin r) (hr_end r) cs"
    "\<not> is_marked_range marks (hr_begin r) (hr_end r)"
  shows "filter (live_cell m marks) cs = []"
proof -
  note rD = region_invD [OF assms(1)]
  have "16 dvd (2::nat) ^ n" using rD(1) le_imp_power_dvd [of 4 n "2::nat"] by simp
  moreover have "hr_end r - hb_offset marks = (hr_begin r - hb_offset marks) + 2 ^ n" using rD(5) assms(2) by (simp add: marks_cover_def)
  ultimately have d: "16 dvd hr_end r - hb_offset marks" using assms(2) by (simp only: marks_cover_def dvd_add)
  have mc: "hb_offset marks \<le> hr_begin r" "16 dvd hr_begin r - hb_offset marks" using assms(2) by (auto simp: marks_cover_def)
  have "\<not> check_bit marks a" if "(a, s) \<in> set cs" for a s
  proof
    assume cb: "check_bit marks a"
    have a: "hr_begin r \<le> a" "a + s \<le> hr_end r" "16 \<le> s" using tiled_cells [OF assms(3) that] by auto
    have "hb_bit marks (bit_number marks a)" using cb check_bit_eq [of marks a] a(1) mc(1) by simp
    moreover have "bit_number marks (hr_begin r) \<le> bit_number marks a" using a(1) mc(1) by (simp add: bit_number_def div_le_mono)
    moreover have "bit_number marks a < bit_number marks (hr_end r)"
      using a mc(1) d unfolding bit_number_def by (auto elim!: dvdE)
    ultimately show False using assms(4) is_marked_range_iff [OF mc(1) _ mc(2) d] rD(5) by auto
  qed
  then show ?thesis by (auto simp: live_cell_def filter_empty_conv)
qed

lemma sweep_region_run:
  assumes inv: "region_inv n r m B" and sz: "region_size_bytes opts = 2 ^ n"
    and t: "tiled vtab m (hr_begin r) (hr_end r) cs" and mc: "marks_cover marks r"
    and ks: "ks = filter (live_cell m marks) cs"
  obtains s' where "swept n r {#} ks (sweep_start r m) s'"
    "sweep_region vtab opts marks r m = Some (sweep_end (hr_end r) s')"
proof -
  have hi: "hr_begin r + region_size_bytes opts = hr_end r" using sz region_invD(5) [OF inv] by simp
  have st: "sw_gap (sweep_start r m) = hr_begin r" "sw_mem (sweep_start r m) = m" by (simp_all add: sweep_start_def)
  show thesis
  proof (cases "is_marked_range marks (hr_begin r) (hr_end r)")
    case True
    have t': "tiled vtab (sw_mem (sweep_start r m)) (hr_begin r) (hr_end r) cs" using t st by simp
    have "\<exists>s'. sweep_loop vtab marks (hr_end r) (hr_begin r) (sweep_start r m) = Some (Inr s') \<and>
      swept n r {#} (filter (live_cell (sw_mem (sweep_start r m)) marks) cs) (sweep_start r m) s'"
      by (rule sweep_loop_spec [OF inv sw_inv_start [OF inv] t']) (simp_all add: st)
    then obtain s' where "sweep_loop vtab marks (hr_end r) (hr_begin r) (sweep_start r m) = Some (Inr s')"
      "swept n r {#} ks (sweep_start r m) s'" unfolding st ks by blast
    then show thesis using True hi by (intro that [of s']) (simp_all add: sweep_region_def Let_def)
  next
    case False
    have "swept n r {#} [] (sweep_start r m) (sweep_start r m)"
      using sw_inv_start [OF inv] by (simp add: swept_def sw_frame_def Let_def)
    then show thesis
      using False hi unmarked_range [OF inv mc t False] by (intro that [of "sweep_start r m"]) (simp_all add: sweep_region_def Let_def ks)
  qed
qed

lemma fold_set_bit_offset:
  "hb_offset (fold (\<lambda>c b. set_bit b (fst c)) ks b) = hb_offset b" "hb_limit (fold (\<lambda>c b. set_bit b (fst c)) ks b) = hb_limit b"
  by (induction ks arbitrary: b) (simp_all add: set_bit_def hb_update_def split: prod.splits)

lemma sweep_region_spec:
  assumes inv: "region_inv n r m B" and reg: "hr_typ r = Regular" and sz: "region_size_bytes opts = 2 ^ n"
    and t: "tiled vtab m (hr_begin r) (hr_end r) cs" and mc: "marks_cover marks r" and bm: "bitmap_ok n r"
    and ks: "ks = filter (live_cell m marks) cs"
  obtains r' m' where "sweep_region vtab opts marks r m = Some (Inr (ks = [], r', m'))"
    "region_inv n r' m' (mset (all_gaps r ks))" "hr_typ r' = Regular" "hr_index r' = hr_index r" "hr_begin r' = hr_begin r"
    "hr_used r' = sum_list (map snd ks)" "hr_last_sweep_free r' = sum_list (map snd (all_gaps r ks))"
    "hr_used r' + hr_last_sweep_free r' = 2 ^ n"
    "\<And>k. k < 2 ^ n div 16 \<Longrightarrow> hb_bit (hr_object_start_bitmap r') k \<longleftrightarrow> hr_begin r + 16 * k \<in> fst ` set ks"
    "\<And>x. x \<notin> \<Union>(block_bytes ` set (all_gaps r ks)) \<Longrightarrow> m' x = m x"
    "\<And>b. b \<in> set (all_gaps r ks) \<Longrightarrow> free_cell m' b"
    "hr_to_sweep r' = hr_to_sweep r" "hb_offset (hr_object_start_bitmap r') = hr_begin r"
    "hb_limit (hr_object_start_bitmap r') = hb_limit (hr_object_start_bitmap r)"
proof -
  note rD = region_invD [OF inv]
  let ?s0 = "sweep_start r m"
  obtain s1 where s1: "swept n r {#} ks ?s0 s1" "sweep_region vtab opts marks r m = Some (sweep_end (hr_end r) s1)"
    by (rule sweep_region_run [OF inv sz t mc ks])
  have st: "sw_gap ?s0 = hr_begin r" "sw_mem ?s0 = m" "sw_used ?s0 = 0" "sw_free ?s0 = 0" by (simp_all add: sweep_start_def)
  have o: "ordered (hr_begin r) (hr_end r) ks" unfolding ks by (rule tiled_ordered [OF t]) simp
  note oe = ordered_end [OF o]
  from s1(1) have w: "sw_inv n r (mset (gaps (hr_begin r) ks)) s1" "sw_gap s1 = kept_end (hr_begin r) ks"
    "sw_used s1 = sum_list (map snd ks)" "sw_free s1 = sum_list (map snd (gaps (hr_begin r) ks))"
    "hr_object_start_bitmap (sw_region s1) = fold (\<lambda>c b. set_bit b (fst c)) ks (hb_clear (hr_object_start_bitmap r))"
    "sw_frame ?s0 s1 (\<Union>(block_bytes ` set (gaps (hr_begin r) ks)))"
    by (simp_all add: swept_def Let_def st) (simp add: sweep_start_def)
  have cells: "hr_begin r \<le> a \<and> 16 dvd a - hr_begin r \<and> a + s \<le> hr_end r" if "(a, s) \<in> set ks" for a s
    using tiled_cells [OF t, of a s] that ks by auto
  have gd: "16 dvd sw_gap s1 - hr_begin r"
  proof (cases "ks = []")
    case False
    obtain a s where l: "last ks = (a, s)" by fastforce
    then have m: "(a, s) \<in> set ks" using last_in_set [OF False] by simp
    then have "16 dvd (a - hr_begin r) + s" using cells [OF m] tiled_cells [OF t, of a s] ks by (intro dvd_add) auto
    moreover have "(a - hr_begin r) + s = a + s - hr_begin r" using cells [OF m] by simp
    ultimately show ?thesis using l w(2) False by (simp add: kept_end_def)
  qed (simp add: w(2))
  have ed: "16 dvd hr_end r - hr_begin r" using rD(1,5) le_imp_power_dvd [of 4 n "2::nat"] by simp
  have g1: "hr_begin r \<le> sw_gap s1" "sw_gap s1 \<le> hr_end r" using oe w(2) by auto
  obtain s2 where s2: "sweep_gap s1 (hr_end r) = Inr s2"
    "sw_inv n r (mset (gap (sw_gap s1) (hr_end r)) + mset (gaps (hr_begin r) ks)) (s2\<lparr>sw_gap := hr_end r\<rparr>)"
    "sw_gap s2 = sw_gap s1" "sw_used s2 = sw_used s1" "sw_free s2 = sw_free s1 + (hr_end r - sw_gap s1)"
    "hr_object_start_bitmap (sw_region s2) = hr_object_start_bitmap (sw_region s1)"
    "sw_frame s1 s2 {sw_gap s1 ..< hr_end r}"
    by (rule sweep_gap_spec [OF w(1) inv g1 order_refl gd ed])
  define r' where "r' = (sw_region s2)\<lparr>hr_used := sw_used s2, hr_last_sweep_free := sw_free s2\<rparr>"
  have bag: "mset (gap (sw_gap s1) (hr_end r)) + mset (gaps (hr_begin r) ks) = mset (all_gaps r ks)"
    by (simp add: all_gaps_def w(2))
  have fr: "sw_free s2 = sum_list (map snd (all_gaps r ks))"
    using s2(5) w(2,4) gap_bytes(2) [of "sw_gap s1" "hr_end r"] g1 by (simp add: all_gaps_def)
  have tot: "sw_used s2 + sw_free s2 = 2 ^ n"
    using gaps_sum [OF o] s2(4,5) w(2-4) g1 rD(5) by simp
  have inv2: "sw_inv n r (mset (all_gaps r ks)) (s2\<lparr>sw_gap := hr_end r\<rparr>)" using s2(2) unfolding bag .
  have begin2: "hr_begin (sw_region s2) = hr_begin r" using inv2 by (simp add: sw_inv_def)
  have nz: "\<not> (sw_used s2 = 0 \<and> sw_free s2 = 0)"
  proof
    assume "sw_used s2 = 0 \<and> sw_free s2 = 0"
    then have "(2::nat) ^ n = 0" using tot by simp
    then show False by simp
  qed
  show thesis
  proof (rule that)
    show "sweep_region vtab opts marks r m = Some (Inr (ks = [], r', sw_mem s2))"
      using s1(2) s2(1,3) nz begin2 oe w(2) by (simp add: sweep_end_def Let_def r'_def)
    show "region_inv n r' (sw_mem s2) (mset (all_gaps r ks))"
      by (rule region_inv_change [OF inv]) (use inv2 reg in \<open>auto simp: sw_inv_def r'_def hr_is_empty_def\<close>)
    show "hr_typ r' = Regular" "hr_index r' = hr_index r" "hr_begin r' = hr_begin r"
      using inv2 reg by (auto simp: sw_inv_def r'_def)
    show "hr_used r' = sum_list (map snd ks)" using s2(4) w(3) by (simp add: r'_def)
    show "hr_last_sweep_free r' = sum_list (map snd (all_gaps r ks))" using fr by (simp add: r'_def)
    show "hr_used r' + hr_last_sweep_free r' = 2 ^ n" using tot by (simp add: r'_def)
    show "hb_bit (hr_object_start_bitmap r') k \<longleftrightarrow> hr_begin r + 16 * k \<in> fst ` set ks" if k: "k < 2 ^ n div 16" for k
    proof -
      let ?b = "hb_clear (hr_object_start_bitmap r)"
      have off: "hb_offset ?b = hr_begin r" using bm by (simp add: bitmap_ok_def hb_clear_def hb_memset_def)
      have "\<forall>c \<in> set ks. hb_offset ?b \<le> fst c" using cells off by force
      from fold_set_bits [OF this, of k]
      have "hb_bit (hr_object_start_bitmap r') k \<longleftrightarrow> (\<exists>c \<in> set ks. bit_number ?b (fst c) = k)"
        using bitmap_cleared [OF bm rD(1) k] s2(6) w(5) by (simp add: r'_def)
      moreover have "bit_number ?b (fst c) = k \<longleftrightarrow> fst c = hr_begin r + 16 * k" if "c \<in> set ks" for c
        using cells [of "fst c" "snd c"] that off by (auto simp: bit_number_def elim!: dvdE)
      ultimately show ?thesis by force
    qed
    show "sw_mem s2 x = m x" if "x \<notin> \<Union>(block_bytes ` set (all_gaps r ks))" for x
      using that w(2,6) s2(7) gap_bytes(1) [of "sw_gap s1" "hr_end r"] g1 st(2) by (auto simp: all_gaps_def sw_frame_def)
    show "free_cell (sw_mem s2) b" if "b \<in> set (all_gaps r ks)" for b
      using inv2 that by (auto simp: sw_inv_def)
    show "hr_to_sweep r' = hr_to_sweep r" using inv2 by (simp add: sw_inv_def r'_def)
    show "hb_offset (hr_object_start_bitmap r') = hr_begin r"
      using s2(6) w(5) bm by (simp add: r'_def fold_set_bit_offset bitmap_ok_def hb_clear_def hb_memset_def)
    show "hb_limit (hr_object_start_bitmap r') = hb_limit (hr_object_start_bitmap r)"
      using s2(6) w(5) by (simp add: r'_def fold_set_bit_offset hb_clear_def hb_memset_def)
  qed
qed

section \<open>The swept region can be parsed again\<close>

fun merged :: "addr \<Rightarrow> addr \<Rightarrow> block list \<Rightarrow> block list" where
  "merged lo hi [] = gap lo hi"
| "merged lo hi ((a, s) # ks) = gap lo a @ (a, s) # merged (a + s) hi ks"

text \<open>An object whose size is not in its tag keeps its capacity field inside itself.\<close>

definition self_sized :: "(nat \<Rightarrow> VTable) \<Rightarrow> mem \<Rightarrow> block \<Rightarrow> bool" where
  "self_sized vtab m c \<longleftrightarrow> (SizeTag_decode (m (fst c)) = 0 \<and> \<not> hdr_is_free (m (fst c)) \<and> vt_is_varsize (vtab (hdr_vtable (m (fst c)))) \<longrightarrow>
     8 + vs_offset_of_capacity (vt_varsize (vtab (hdr_vtable (m (fst c))))) < snd c)"

lemma heap_size_cell_frame:
  assumes "16 \<le> s" "self_sized vtab m (a, s)" "\<not> hdr_is_free (m a)" "\<forall>x \<in> block_bytes (a, s). m' x = m x"
  shows "heap_size vtab m' a = heap_size vtab m a"
proof -
  have a: "m' a = m a" using assms(1,4) by (simp add: block_bytes_def)
  have "read_u32 m' (a + 8 + d) = read_u32 m (a + 8 + d)" if "8 + d < s" for d
  proof -
    have "a \<le> a + 8 + d - (a + 8 + d) mod 8" using mod_less_divisor [of 8 "a + 8 + d"] by linarith
    moreover have "a + 8 + d - (a + 8 + d) mod 8 < a + s" using that by (intro le_less_trans [OF diff_le_self]) simp
    ultimately show ?thesis using assms(4) by (simp add: read_u32_def block_bytes_def)
  qed
  then show ?thesis
    using assms(2,3) a by (auto simp: heap_size_def heap_size_from_vtable_def data_def Let_def self_sized_def hdr_is_free_def)
qed

lemma tiled_gap:
  assumes "l \<le> h" "16 dvd l" "16 dvd h" "\<forall>b \<in> set (gap l h). free_cell m b"
  shows "tiled vtab m l hi (gap l h @ cs) \<longleftrightarrow> tiled vtab m h hi cs"
proof (cases "l = h")
  case False
  have "16 dvd h - l" using assms(2,3) by (rule dvd_diff_nat [rotated])
  moreover from this have "16 \<le> h - l" using False assms(1) by (intro dvd_imp_le) auto
  moreover have "heap_size vtab m l = h - l" using free_cell_size [of m l "h - l"] assms(1,4) False by (auto simp: gap_def)
  ultimately show ?thesis using False assms(1) by (simp add: gap_def)
qed (simp add: gap_def)

lemma tiled_merged:
  assumes "ordered lo hi ks" "\<forall>c \<in> set ks. 16 dvd fst c \<and> 16 dvd snd c \<and> heap_size vtab m (fst c) = snd c" "16 dvd lo" "16 dvd hi"
    "\<forall>b \<in> set (gaps lo ks @ gap (kept_end lo ks) hi). free_cell m b"
  shows "tiled vtab m lo hi (merged lo hi ks)"
  using assms
proof (induction ks arbitrary: lo)
  case Nil
  then show ?case using tiled_gap [of lo hi m vtab hi "[]"] by simp
next
  case (Cons k ks)
  obtain a s where k: "k = (a, s)" by fastforce
  have "tiled vtab m (a + s) hi (merged (a + s) hi ks)" using Cons.IH [of "a + s"] Cons.prems k by auto
  then show ?case using Cons.prems k tiled_gap [of lo a m vtab hi "(a, s) # merged (a + s) hi ks"] by auto
qed

section \<open>An example region\<close>

text \<open>A regular region of 4096 bytes with one object of 48 bytes, which is marked, and one free block.\<close>

abbreviation ex_region :: HeapRegion where "ex_region \<equiv> small_region\<lparr>hr_typ := Regular\<rparr>"

definition ex_mem :: mem where
  "ex_mem = (\<lambda>_. 0)(4096 := hdr_set_heap_size 48 (hdr_set_vtable 8 0), 4144 := hdr_set_heap_size 4048 (hdr_set_vtable 0 0))"

definition ex_marks :: HeapBitmap where
  "ex_marks = \<lparr>hb_offset = 4096, hb_limit = 8192, hb_cells = (\<lambda>i. if i = 0 then 1 else 0), hb_size = 32, hb_base = 64\<rparr>"

abbreviation ex_vtab :: "nat \<Rightarrow> VTable" where
  "ex_vtab \<equiv> (\<lambda>_. \<lparr>vt_size = 40, vt_is_varsize = False,
     vt_varsize = \<lparr>vs_is_varsize = False, vs_should_trace = False, vs_itemsize = 0, vs_offset_of_length = 0,
       vs_offset_of_capacity = 0, vs_offset_of_variable_part = 0, vs_has_iterate_range = False\<rparr>,
     vt_destructible = False, vt_ordered_finalizer = False\<rparr>)"

lemma ex_sizes: "heap_size ex_vtab ex_mem 4096 = 48" "heap_size ex_vtab ex_mem 4144 = 4048"
  by (simp_all add: heap_size_def ex_mem_def hdr_set_heap_size_def SizeTag_decode_update size_fits_def MAX_SIZE_TAG_eq)

lemma ex_headers: "\<not> hdr_is_free (ex_mem 4096)" "hdr_is_free (ex_mem 4144)"
proof -
  have "hdr_vtable (SizeTag_update (hdr_set_vtable v 0) sz) = v" if "v < 2 ^ 48" for v sz
    using hdr_vtable_set [OF that, of 0]
    unfolding hdr_vtable_def SizeTag_update_def
    by (subst bf_decode_update_other) (auto simp: tag_consts)
  then show "\<not> hdr_is_free (ex_mem 4096)" "hdr_is_free (ex_mem 4144)"
    by (simp_all add: hdr_is_free_iff ex_mem_def hdr_set_heap_size_def)
qed

lemma ex_region_facts:
  "region_inv 12 ex_region ex_mem {#}" "hr_typ ex_region = Regular" "region_size_bytes small_opts = 2 ^ 12"
  "tiled ex_vtab ex_mem (hr_begin ex_region) (hr_end ex_region) [(4096, 48), (4144, 4048)]"
  "marks_cover ex_marks ex_region" "bitmap_ok 12 ex_region"
  "filter (live_cell ex_mem ex_marks) [(4096, 48), (4144, 4048)] = [(4096, 48)]"
proof -
  have "region_inv 12 small_region ex_mem {#}" using region_inv_new [of small_opts 4096] by (simp add: opts_ok_def)
  then show "region_inv 12 ex_region ex_mem {#}"
    by (rule region_inv_change) (use region_invD(7) [OF \<open>region_inv 12 small_region ex_mem {#}\<close>] in simp_all)
  show "tiled ex_vtab ex_mem (hr_begin ex_region) (hr_end ex_region) [(4096, 48), (4144, 4048)]"
    using ex_sizes by simp
  show "bitmap_ok 12 ex_region"
    by (simp add: bitmap_ok_def HeapRegion_new_def hr_recycle_def Let_def hb_clear_def hb_memset_def hb_new_def
        bitmap_size_def bits_per_cell_def)
  show "filter (live_cell ex_mem ex_marks) [(4096, 48), (4144, 4048)] = [(4096, 48)]"
    using ex_headers by (simp add: live_cell_def check_bit_eq ex_marks_def bit_number_def hb_bit_def)
qed (simp_all add: marks_cover_def ex_marks_def)

section \<open>Properties\<close>

text \<open>Sweeping a regular region that can be parsed always ends and never panics. Exactly the marked objects
  survive: their memory is untouched, they are exactly the objects recorded in the object start bitmap,
  and \<open>used\<close> is the sum of their sizes. The free list then holds exactly the maximal gaps between them, so
  used and free bytes add up to the region. The function returns true, which turns the region into
  trash, exactly if nothing survived.\<close>

theorem sweep_region_correct:
  assumes "region_inv n r m B" "hr_typ r = Regular" "region_size_bytes opts = 2 ^ n"
    "tiled vtab m (hr_begin r) (hr_end r) cs" "marks_cover marks r" "bitmap_ok n r"
  shows "let ks = filter (live_cell m marks) cs in
    \<exists>r' m'. sweep_region vtab opts marks r m = Some (Inr (ks = [], r', m')) \<and>
      region_inv n r' m' (mset (all_gaps r ks)) \<and> hr_used r' = sum_list (map snd ks) \<and>
      hr_used r' + bag_bytes (mset (all_gaps r ks)) = 2 ^ n \<and>
      (\<forall>k < 2 ^ n div 16. hb_bit (hr_object_start_bitmap r') k \<longleftrightarrow> hr_begin r + 16 * k \<in> fst ` set ks) \<and>
      (\<forall>c \<in> set ks. \<forall>x \<in> block_bytes c. m' x = m x) \<and> (\<forall>x. x \<notin> region_range r \<longrightarrow> m' x = m x)"
proof -
  define ks where "ks = filter (live_cell m marks) cs"
  have o: "ordered (hr_begin r) (hr_end r) ks" unfolding ks_def by (rule tiled_ordered [OF assms(4)]) simp
  obtain r' m' where r': "sweep_region vtab opts marks r m = Some (Inr (ks = [], r', m'))"
    "region_inv n r' m' (mset (all_gaps r ks))" "hr_begin r' = hr_begin r"
    "hr_used r' = sum_list (map snd ks)" "hr_last_sweep_free r' = sum_list (map snd (all_gaps r ks))"
    "hr_used r' + hr_last_sweep_free r' = 2 ^ n"
    "\<And>k. k < 2 ^ n div 16 \<Longrightarrow> hb_bit (hr_object_start_bitmap r') k \<longleftrightarrow> hr_begin r + 16 * k \<in> fst ` set ks"
    "\<And>x. x \<notin> \<Union>(block_bytes ` set (all_gaps r ks)) \<Longrightarrow> m' x = m x"
    by (rule sweep_region_spec [OF assms ks_def], rule that)
  have "m' x = m x" if "c \<in> set ks" "x \<in> block_bytes c" for c x
  proof (rule r'(8))
    show "x \<notin> \<Union>(block_bytes ` set (all_gaps r ks))" using all_gaps_disjoint [OF o that(1)] that(2) by blast
  qed
  moreover have "m' x = m x" if "x \<notin> region_range r" for x
  proof (rule r'(8))
    have "hr_end r' = hr_end r" using region_invD(5) [OF r'(2)] region_invD(5) [OF assms(1)] r'(3) by simp
    then have "\<forall>b \<in> set (all_gaps r ks). block_bytes b \<subseteq> region_range r"
      using region_invD(8) [OF r'(2)] r'(3) by (simp add: region_range_def)
    then show "x \<notin> \<Union>(block_bytes ` set (all_gaps r ks))" using that by blast
  qed
  ultimately show ?thesis
    using r' unfolding Let_def ks_def [symmetric] by (intro exI [of _ r'] exI [of _ m']) (simp add: bag_bytes_mset)
qed

theorem sweep_region_correct_witness:
  "\<exists>r' m'. sweep_region ex_vtab small_opts ex_marks ex_region ex_mem = Some (Inr (False, r', m')) \<and>
      region_inv 12 r' m' (mset (all_gaps ex_region [(4096, 48)])) \<and> hr_used r' = 48 \<and>
      hr_used r' + bag_bytes (mset (all_gaps ex_region [(4096, 48)])) = 2 ^ 12 \<and>
      (\<forall>k < 2 ^ 12 div 16. hb_bit (hr_object_start_bitmap r') k \<longleftrightarrow> hr_begin ex_region + 16 * k = 4096) \<and>
      (\<forall>x \<in> block_bytes (4096, 48). m' x = ex_mem x) \<and> (\<forall>x. x \<notin> region_range ex_region \<longrightarrow> m' x = ex_mem x)"
  using sweep_region_correct [OF ex_region_facts(1-6)] unfolding Let_def ex_region_facts(7) by simp

text \<open>A swept region can be parsed again: it is tiled by the surviving objects and by the free blocks between
  them, which read as free cells of their size, so that the next sweep finds every object.\<close>

theorem sweep_region_reparsable:
  assumes "region_inv n r m B" "hr_typ r = Regular" "region_size_bytes opts = 2 ^ n"
    "tiled vtab m (hr_begin r) (hr_end r) cs" "marks_cover marks r" "bitmap_ok n r"
    "\<forall>c \<in> set cs. self_sized vtab m c" "sweep_region vtab opts marks r m = Some (Inr (e, r', m'))"
  shows "tiled vtab m' (hr_begin r') (hr_end r') (merged (hr_begin r) (hr_end r) (filter (live_cell m marks) cs)) \<and>
    (\<forall>b \<in> set (all_gaps r (filter (live_cell m marks) cs)). hdr_is_free (m' (fst b)))"
proof -
  define ks where "ks = filter (live_cell m marks) cs"
  have o: "ordered (hr_begin r) (hr_end r) ks" unfolding ks_def by (rule tiled_ordered [OF assms(4)]) simp
  obtain r2 m2 where s: "sweep_region vtab opts marks r m = Some (Inr (ks = [], r2, m2))"
    "region_inv n r2 m2 (mset (all_gaps r ks))" "hr_begin r2 = hr_begin r"
    "\<And>x. x \<notin> \<Union>(block_bytes ` set (all_gaps r ks)) \<Longrightarrow> m2 x = m x" "\<And>b. b \<in> set (all_gaps r ks) \<Longrightarrow> free_cell m2 b"
    by (rule sweep_region_spec [OF assms(1-6) ks_def], rule that)
  have "r2 = r'" "m2 = m'" using s(1) assms(8) by simp_all
  note r' = s(2-5) [unfolded this]
  note rD = region_invD [OF assms(1)]
  have al: "16 dvd hr_begin r" "16 dvd hr_end r"
    using rD(1,4,5) le_imp_power_dvd [of 4 n "2::nat"] by auto
  have "16 dvd fst c \<and> 16 dvd snd c \<and> heap_size vtab m' (fst c) = snd c" if c: "c \<in> set ks" for c
  proof -
    have tc: "hr_begin r \<le> fst c" "16 \<le> snd c" "16 dvd snd c" "16 dvd fst c - hr_begin r" "heap_size vtab m (fst c) = snd c"
      using tiled_cells [OF assms(4), of "fst c" "snd c"] c by (auto simp: ks_def)
    have "\<forall>x \<in> block_bytes c. m' x = m x" using r'(3) all_gaps_disjoint [OF o c] by blast
    moreover have "self_sized vtab m c" "\<not> hdr_is_free (m (fst c))" using c assms(7) by (auto simp: ks_def live_cell_def)
    ultimately have "heap_size vtab m' (fst c) = snd c" using heap_size_cell_frame [of "snd c" vtab m "fst c" m'] tc by simp
    moreover have "16 dvd fst c" using al(1) tc(1,4) by (metis dvd_add le_add_diff_inverse)
    ultimately show ?thesis using tc(3) by simp
  qed
  then have "tiled vtab m' (hr_begin r) (hr_end r) (merged (hr_begin r) (hr_end r) ks)"
    using r'(4) by (intro tiled_merged [OF o _ al]) (auto simp: all_gaps_def)
  moreover have "hr_end r' = hr_end r" using region_invD(5) [OF r'(1)] rD(5) r'(2) by simp
  ultimately show ?thesis using r'(2,4) by (simp add: ks_def free_cell_def)
qed

theorem sweep_region_reparsable_witness:
  "\<exists>r' m'. sweep_region ex_vtab small_opts ex_marks ex_region ex_mem = Some (Inr (False, r', m')) \<and>
    tiled ex_vtab m' (hr_begin r') (hr_end r') (merged (hr_begin ex_region) (hr_end ex_region) [(4096, 48)]) \<and>
    (\<forall>b \<in> set (all_gaps ex_region [(4096, 48)]). hdr_is_free (m' (fst b)))"
proof -
  obtain r' m' where "sweep_region ex_vtab small_opts ex_marks ex_region ex_mem = Some (Inr (([(4096, 48)] :: block list) = [], r', m'))"
    by (rule sweep_region_spec [OF ex_region_facts(1-6) ex_region_facts(7) [symmetric]], rule that)
  then have s: "sweep_region ex_vtab small_opts ex_marks ex_region ex_mem = Some (Inr (False, r', m'))" by simp
  have "\<forall>c \<in> set [(4096, 48), (4144, 4048)]. self_sized ex_vtab ex_mem c" by (simp add: self_sized_def)
  from sweep_region_reparsable [OF ex_region_facts(1-6) this s] show ?thesis using s unfolding ex_region_facts(7) by blast
qed

end
