(* ===== verification/HeapModel.thy ===== *)
theory HeapModel
  imports Sweep
begin

unbundle bit_operations_syntax

text \<open>
  \<open>heap/heap.rs\<close>: finding regions and objects from addresses, the distribution of regions to workers,
  uncommitting memory, the allocation retry loop and the construction of the heap. What other threads do
  while a thread waits for the collector or for the lock is an arbitrary change of the heap, given as an
  argument.
\<close>

section \<open>Addresses and regions\<close>

definition region_index :: "Heap \<Rightarrow> addr \<Rightarrow> nat res" where
  "region_index h a = rbind (checked_sub a (hp_mem_start h)) (\<lambda>offset. Inr (drop_bit (region_size_bytes_shift (hp_opts h)) offset))"

definition hp_is_in :: "Heap \<Rightarrow> addr \<Rightarrow> bool" where
  "hp_is_in h a \<longleftrightarrow> hp_mem_start h \<le> a \<and> a < hp_mem_start h + hp_mem_size h"

text \<open>The walk down to the start region; at region 0 the index underflows.\<close>

fun humongous_start_loop :: "Heap \<Rightarrow> nat \<Rightarrow> HeapRegion \<Rightarrow> HeapRegion res" where
  "humongous_start_loop h 0 r = (if hr_is_humongous_start r then Inr r else Inl ArithOverflow)"
| "humongous_start_loop h (Suc i) r =
     (if hr_is_humongous_start r then Inr r else rbind (get_region h i) (humongous_start_loop h i))"

definition get_humongous_start :: "Heap \<Rightarrow> HeapRegion \<Rightarrow> HeapRegion res" where
  "get_humongous_start h r = humongous_start_loop h (hr_index r) r"

definition object_start :: "Heap \<Rightarrow> addr \<Rightarrow> addr option res" where
  "object_start h a =
     (if \<not> hp_is_in h a then Inr None
      else rbind (region_index h a) (\<lambda>index.
        if index \<ge> region_count (hp_opts h) then Inr None
        else rbind (get_region h index) (\<lambda>region.
          if hr_is_humongous_start region then Inr (Some (hr_begin region))
          else if hr_is_humongous_cont region
            then rbind (get_humongous_start h region) (\<lambda>start. Inr (Some (hr_begin start)))
          else find_object_start (hr_object_start_bitmap region) a)))"

definition mark_live :: "Heap \<Rightarrow> addr \<Rightarrow> Heap res" where
  "mark_live h a = rbind (region_index h a) (\<lambda>index. rbind (get_region h index) (\<lambda>region.
     if hr_is_humongous_start region then Inr h
     else if hr_is_humongous_cont region then Inl AssertFailed
     else Inr (put_region h index (region\<lparr>hr_object_start_bitmap := set_bit (hr_object_start_bitmap region) a\<rparr>))))"

definition is_live :: "Heap \<Rightarrow> addr \<Rightarrow> bool res" where
  "is_live h a =
     (if \<not> hp_is_in h a then Inr False
      else rbind (region_index h a) (\<lambda>index. rbind (get_region h index) (\<lambda>region.
        if hr_is_humongous_start region then Inr True
        else if hr_is_humongous_cont region then Inr True
        else Inr (check_bit (hr_object_start_bitmap region) a))))"

section \<open>Distribution of regions to workers\<close>

text \<open>The loop of \<open>ParallelHeapRegionTask::work\<close>: the intervals of region indices it hands to the pool.\<close>

partial_function (option) region_chunks :: "nat \<Rightarrow> nat \<Rightarrow> nat \<Rightarrow> (nat \<times> nat) list \<Rightarrow> (nat \<times> nat) list option" where
  "region_chunks stride mx index acc =
     (if index < mx then region_chunks stride mx (index + stride) (acc @ [(index, min mx (index + stride))])
      else Some acc)"

definition parallel_heap_region_iterate :: "Heap \<Rightarrow> nat \<Rightarrow> (nat \<times> nat) list option" where
  "parallel_heap_region_iterate h workers =
     (let mx = region_count (hp_opts h); stride = parallel_region_stride (hp_opts h) in
      if mx > stride \<and> workers \<noteq> 0 then region_chunks stride mx 0 [] else Some [(0, mx)])"

section \<open>Uncommitting memory\<close>

definition hr_is_empty_commited :: "HeapRegion \<Rightarrow> bool" where
  "hr_is_empty_commited r \<longleftrightarrow> hr_typ r = EmptyCommited"

text \<open>The region is inspected without the lock, then the lock is taken: \<open>race i h\<close> is the heap that is found
  then. The result says whether the scan ends.\<close>

definition uncommit_region :: "(nat \<Rightarrow> Heap \<Rightarrow> Heap) \<Rightarrow> nat \<Rightarrow> nat \<Rightarrow> nat \<Rightarrow> nat \<times> Heap \<Rightarrow> (bool \<times> nat \<times> Heap) res" where
  "uncommit_region race shrink_before shrink_until i = (\<lambda>(count, h). rbind (get_region h i) (\<lambda>r.
     if hr_is_empty_commited r \<and> hr_empty_time r < shrink_before then
       let h = race i h in rbind (get_region h i) (\<lambda>r.
         if hr_is_empty_commited r \<and> hp_commited h < shrink_until + region_size_bytes (hp_opts h) then Inr (True, count, h)
         else let (r, com) = hr_do_decommit r (hp_commited h)
              in Inr (False, count + 1, (put_region h i r)\<lparr>hp_commited := com\<rparr>))
     else Inr (False, count, h)))"

fun uncommit_loop :: "(nat \<Rightarrow> Heap \<Rightarrow> Heap) \<Rightarrow> nat \<Rightarrow> nat \<Rightarrow> nat list \<Rightarrow> nat \<times> Heap \<Rightarrow> (nat \<times> Heap) res" where
  "uncommit_loop race shrink_before shrink_until [] s = Inr s"
| "uncommit_loop race shrink_before shrink_until (i # is) s =
     rbind (uncommit_region race shrink_before shrink_until i s) (\<lambda>(stop, s).
       if stop then Inr s else uncommit_loop race shrink_before shrink_until is s)"

text \<open>The result says whether the controller is told that the heap changed.\<close>

definition entry_uncommit :: "(nat \<Rightarrow> Heap \<Rightarrow> Heap) \<Rightarrow> nat \<Rightarrow> nat \<Rightarrow> Heap \<Rightarrow> (bool \<times> Heap) res" where
  "entry_uncommit race shrink_before shrink_until h =
     rbind (uncommit_loop race shrink_before shrink_until (rev [0..<region_count (hp_opts h)]) (0, h))
       (\<lambda>(count, h). Inr (count > 0, h))"

section \<open>Allocation with retries\<close>

definition max_tlab_alloc :: "Heap \<Rightarrow> nat res" where
  "max_tlab_alloc h =
     (if elastic_tlab (hp_opts h) then Inr (max_tlab_size (hp_opts h))
      else rbind (unsafe_peek_free h) (\<lambda>p. Inr (min p (max_tlab_size (hp_opts h)))))"

text \<open>\<open>wait\<close> is what happens to the heap while the thread waits for the collector; the loop retries
  \<open>fuel\<close> times.\<close>

fun allocate_retry ::
  "(Heap \<Rightarrow> Heap) \<Rightarrow> nat \<Rightarrow> nat \<Rightarrow> addr option \<times> Heap \<times> AllocRequest \<times> bool \<Rightarrow> (addr option \<times> Heap \<times> AllocRequest \<times> bool) res" where
  "allocate_retry wait now 0 (res, h, req, nw) = Inr (res, h, req, nw)"
| "allocate_retry wait now (Suc tries) (res, h, req, nw) =
     (if res = None then rbind (fs_allocate now (wait h) req nw) (allocate_retry wait now tries)
      else Inr (res, h, req, nw))"

text \<open>The last component says whether the controller is told that the heap changed.\<close>

definition allocate_memory ::
  "(Heap \<Rightarrow> Heap) \<Rightarrow> nat \<Rightarrow> Heap \<Rightarrow> AllocRequest \<Rightarrow> (addr option \<times> Heap \<times> AllocRequest \<times> bool) res" where
  "allocate_memory wait now h req =
     rbind (fs_allocate now h req False) (\<lambda>first.
     rbind (allocate_retry wait now 3 first) (\<lambda>(res, h, req, nw).
       if res \<noteq> None then
         if for_lab req \<or> ar_requested_size req = ar_actual_size req
         then Inr (res, notify_mutator_alloc h (ar_actual_size req), req, nw) else Inl AssertFailed
       else Inr (res, h, req, nw)))"

section \<open>Construction\<close>

text \<open>\<open>mem_start\<close> is the reserved address range, \<open>bmp\<close> the addresses and content of the bitmaps' memory,
  \<open>m\<close> the initial content of the heap.\<close>

definition Heap_new ::
  "HeapOptions \<Rightarrow> nat \<Rightarrow> nat \<Rightarrow> addr \<Rightarrow> mem \<Rightarrow> (nat \<Rightarrow> nat \<times> (nat \<Rightarrow> u8)) \<Rightarrow> nat \<Rightarrow> Heap res" where
  "Heap_new opts init_byte_size min_byte_size mem_start m bmp now =
     (let num_commited_regions = min (init_byte_size div region_size_bytes opts) (region_count opts);
          initial_size = num_commited_regions * region_size_bytes opts;
          minimum_size = min_byte_size div region_size_bytes opts * region_size_bytes opts;
          h = \<lparr>hp_opts = opts, hp_mem_start = mem_start, hp_mem_size = max_heap_size opts,
               hp_regions = map (\<lambda>i. HeapRegion_new (fst (bmp i)) (snd (bmp i)) now i
                   (mem_start + region_size_bytes opts * i) opts (i < num_commited_regions)) [0..<region_count opts],
               hp_memory = m, hp_free_set = fs_set_heap opts (RegionFreeSet_new opts),
               hp_initial_size = initial_size, hp_minimum_size = minimum_size, hp_commited = initial_size,
               hp_allocated = 0, hp_cancelled_gc = 0, hp_progress_last_gc = False, hp_concurrent_mark_in_progress = False\<rparr>
      in fs_rebuild h)"

section \<open>Lemmas: distribution of regions\<close>

definition chunk_indices :: "(nat \<times> nat) list \<Rightarrow> nat list" where
  "chunk_indices cs = concat (map (\<lambda>(a, b). [a..<b]) cs)"

lemma region_chunks_partition:
  assumes "0 < stride"
  shows "\<exists>cs. region_chunks stride mx i acc = Some (acc @ cs) \<and> chunk_indices cs = [i..<mx] \<and>
    (\<forall>(a, b) \<in> set cs. a < b \<and> b \<le> a + stride)"
proof (induction "mx - i" arbitrary: i acc rule: less_induct)
  case less
  show ?case
  proof (cases "i < mx")
    case True
    let ?c = "(i, min mx (i + stride))"
    have "mx - (i + stride) < mx - i" using True assms by simp
    from less [OF this, of "acc @ [?c]"] obtain cs where
      cs: "region_chunks stride mx (i + stride) (acc @ [?c]) = Some ((acc @ [?c]) @ cs)"
        "chunk_indices cs = [i + stride..<mx]" "\<forall>(a, b) \<in> set cs. a < b \<and> b \<le> a + stride" by blast
    have "region_chunks stride mx i acc = Some (acc @ ?c # cs)"
      using True cs(1) by (subst region_chunks.simps) simp
    moreover have "chunk_indices (?c # cs) = [i..<mx]"
      using cs(2) upt_add_eq_append [of i "i + stride" "mx - (i + stride)"] True
      by (cases "i + stride \<le> mx") (auto simp: chunk_indices_def)
    ultimately show ?thesis using cs(3) True assms by (intro exI [of _ "?c # cs"]) auto
  next
    case False
    then show ?thesis by (subst region_chunks.simps) (auto simp: chunk_indices_def)
  qed
qed

text \<open>With stride 0 the index never moves: no result is ever produced.\<close>

lemma region_chunks_stuck:
  assumes "region_chunks stride mx i acc = Some cs"
  shows "i < mx \<longrightarrow> stride \<noteq> 0"
proof (rule region_chunks.raw_induct [OF _ assms], goal_cases)
  case (1 chunks stride mx i acc y)
  show ?case
  proof
    assume "i < mx"
    then have "i + stride < mx \<longrightarrow> stride \<noteq> 0" using 1 by auto
    then show "stride \<noteq> 0" using \<open>i < mx\<close> by auto
  qed
qed

section \<open>Lemmas: construction\<close>

lemma HeapRegion_new_empty [simp]: "hr_is_empty (HeapRegion_new base raw now i st opts cm)"
  by (cases cm) (simp_all add: hr_is_empty_def HeapRegion_new_def hr_recycle_def hr_make_empty_def Let_def)

definition fresh_region :: "HeapOptions \<Rightarrow> HeapRegion \<Rightarrow> bool" where
  "fresh_region opts r \<longleftrightarrow> hr_is_empty r \<and> \<not> hr_to_sweep r \<and> hr_size r = region_size_bytes opts"

lemma fresh_region_capacity:
  "fresh_region opts r \<Longrightarrow> alloc_capacity opts r = region_size_bytes opts"
  "fresh_region opts r \<Longrightarrow> 0 < region_size_bytes opts \<Longrightarrow> usable opts r"
  by (auto simp: fresh_region_def usable_def hr_is_alloc_allowed_def hr_is_empty_def alloc_capacity_def hr_is_trash_def hr_free_def)

lemma Heap_new_spec:
  assumes ok: "opts_ok opts" and rc: "0 < region_count opts"
    and ms: "0 < mem_start" "mem_start mod 16 = 0" "mem_start + region_count opts * region_size_bytes opts < 2 ^ 64"
  obtains h where "Heap_new opts isz msz mem_start m bmp now = Inr h" "heap_inv (region_size_log2 opts) h (\<lambda>_. {#})" "fs_inv h"
    "balanced h" "fs_used (hp_free_set h) = 0" "hp_opts h = opts" "hp_mem_start h = mem_start"
    "free_regions (hp_free_set h) = {..<region_count opts}" "\<forall>r \<in> set (hp_regions h). fresh_region opts r"
    "hp_commited h = min (isz div region_size_bytes opts) (region_count opts) * region_size_bytes opts"
    "hp_mem_size h = max_heap_size opts"
proof -
  let ?n = "region_size_log2 opts" and ?sz = "region_size_bytes opts"
  let ?reg = "\<lambda>i. HeapRegion_new (fst (bmp i)) (snd (bmp i)) now i (mem_start + ?sz * i) opts
      (i < min (isz div ?sz) (region_count opts))"
  let ?com = "min (isz div ?sz) (region_count opts) * ?sz"
  define h0 where "h0 = \<lparr>hp_opts = opts, hp_mem_start = mem_start, hp_mem_size = max_heap_size opts,
    hp_regions = map ?reg [0..<region_count opts], hp_memory = m, hp_free_set = fs_set_heap opts (RegionFreeSet_new opts),
    hp_initial_size = ?com, hp_minimum_size = msz div ?sz * ?sz, hp_commited = ?com,
    hp_allocated = 0, hp_cancelled_gc = 0, hp_progress_last_gc = False, hp_concurrent_mark_in_progress = False\<rparr>"
  have f: "hp_opts h0 = opts" "hp_mem_start h0 = mem_start" "hp_memory h0 = m" "hp_mem_size h0 = max_heap_size opts"
    "length (hp_regions h0) = region_count opts" "hp_commited h0 = ?com" by (simp_all add: h0_def)
  have r: "hp_regions h0 ! i = ?reg i" if "i < region_count opts" for i using that by (simp add: h0_def)
  have sz: "?sz = 2 ^ ?n" "16 dvd ?sz" using ok le_imp_power_dvd [of 4 ?n "2::nat"] by (auto simp: opts_ok_def)
  have "region_inv ?n (?reg i) m {#}" if "i < region_count opts" for i
  proof (rule region_inv_new [OF ok])
    have "(Suc i) * ?sz \<le> region_count opts * ?sz" using that by (intro mult_le_mono1) simp
    then show "mem_start + ?sz * i + ?sz < 2 ^ 64" using ms(3) by (simp add: ac_simps)
    have "16 dvd mem_start" using ms(2) by auto
    moreover have "16 dvd ?sz * i" by (rule dvd_mult2 [OF sz(2)])
    ultimately show "(mem_start + ?sz * i) mod 16 = 0" by (simp add: dvd_imp_mod_0)
  qed (use ms in auto)
  then have hi: "heap_inv ?n h0 (\<lambda>_. {#})"
    unfolding heap_inv_def placed_def f using ok sz(1) r by (simp add: mult.commute)
  have fr: "fresh_region opts x" if "x \<in> set (hp_regions h0)" for x
    using that by (auto simp: fresh_region_def h0_def hr_size_def)
  then have "rebuildable h0"
    using rc db_contained_wf [of "region_count opts"] unfolding rebuildable_def
    by (auto simp: h0_def fs_set_heap_def fresh_region_def)
  from fs_rebuild_spec [OF hi this] obtain fs where
    fs: "fs_rebuild h0 = Inr (h0\<lparr>hp_free_set := fs\<rparr>)" "fs_inv (h0\<lparr>hp_free_set := fs\<rparr>)"
      "free_regions fs = {i. i < region_count (hp_opts h0) \<and> usable (hp_opts h0) (hp_regions h0 ! i)}"
      "fs_used fs = 0" "fs_capacity fs = free_sum (h0\<lparr>hp_free_set := fs\<rparr>)" by blast
  have "usable opts (hp_regions h0 ! i)" if "i < region_count opts" for i
    using fresh_region_capacity(2) [OF fr] nth_mem [of i "hp_regions h0"] that sz(1) by (simp add: f)
  then have fri: "free_regions fs = {..<region_count opts}" using fs(3) by (auto simp: f)
  show thesis
  proof (rule that)
    show "Heap_new opts isz msz mem_start m bmp now = Inr (h0\<lparr>hp_free_set := fs\<rparr>)"
      using fs(1) by (simp add: Heap_new_def h0_def Let_def)
    show "heap_inv ?n (h0\<lparr>hp_free_set := fs\<rparr>) (\<lambda>_. {#})" unfolding heap_inv_free_set by (rule hi)
    show "balanced (h0\<lparr>hp_free_set := fs\<rparr>)" using fs(4,5) by (simp add: balanced_def)
    show "\<forall>r \<in> set (hp_regions (h0\<lparr>hp_free_set := fs\<rparr>)). fresh_region opts r" using fr by simp
  qed (simp_all add: fs(2,4) fri f)
qed

section \<open>Lemmas: addresses\<close>

definition in_run :: "Heap \<Rightarrow> nat \<Rightarrow> nat \<Rightarrow> bool" where
  "in_run h s i \<longleftrightarrow> s \<le> i \<and> hr_is_humongous_start (hp_regions h ! s) \<and>
     (\<forall>j. s < j \<longrightarrow> j \<le> i \<longrightarrow> hr_is_humongous_cont (hp_regions h ! j))"

text \<open>Every continuation region belongs to a run.\<close>

definition runs_ok :: "Heap \<Rightarrow> bool" where
  "runs_ok h \<longleftrightarrow> (\<forall>i < region_count (hp_opts h). hr_is_humongous_cont (hp_regions h ! i) \<longrightarrow> (\<exists>s < i. in_run h s i))"

lemma humongous_start_loop_run:
  assumes "heap_inv n h Bs" "i < region_count (hp_opts h)" "in_run h s i"
  shows "humongous_start_loop h i (hp_regions h ! i) = Inr (hp_regions h ! s)"
  using assms(2,3)
proof (induction i)
  case (Suc i)
  show ?case
  proof (cases "s = Suc i")
    case False
    then have "in_run h s i" "hr_is_humongous_cont (hp_regions h ! Suc i)" using Suc.prems(2) by (auto simp: in_run_def)
    moreover from this have "\<not> hr_is_humongous_start (hp_regions h ! Suc i)"
      by (simp add: hr_is_humongous_cont_def hr_is_humongous_start_def)
    ultimately show ?thesis using Suc heap_invD(3) [OF assms(1), of i] by simp
  qed (use Suc.prems in \<open>simp add: in_run_def\<close>)
qed (auto simp: in_run_def)

lemma region_index_in:
  assumes hi: "heap_inv n h Bs" and sz: "hp_mem_size h = region_count (hp_opts h) * 2 ^ n" and a: "hp_is_in h a"
  obtains i where "region_index h a = Inr i" "i < region_count (hp_opts h)" "a \<in> region_range (hp_regions h ! i)"
proof
  let ?i = "(a - hp_mem_start h) div 2 ^ n"
  have o: "region_size_bytes_shift (hp_opts h) = n" using hi by (simp add: heap_inv_def opts_ok_def)
  show "region_index h a = Inr ?i" using a by (simp add: region_index_def hp_is_in_def o drop_bit_eq_div)
  show i: "?i < region_count (hp_opts h)"
    using a sz by (intro less_mult_imp_div_less) (auto simp: hp_is_in_def)
  define q where "q = ?i * 2 ^ n"
  have "q \<le> a - hp_mem_start h" unfolding q_def by (rule div_times_less_eq_dividend)
  moreover have "a - hp_mem_start h < 2 ^ n + q" unfolding q_def by (rule dividend_less_div_times) simp
  ultimately have "a \<in> {hp_mem_start h + q ..< hp_mem_start h + q + 2 ^ n}" using a by (auto simp: hp_is_in_def)
  then show "a \<in> region_range (hp_regions h ! ?i)"
    using heap_invD(2) [OF hi i] region_invD(5) [OF heap_invD(1) [OF hi i]] by (simp add: region_range_def placed_def q_def)
qed

lemma object_start_run:
  assumes "heap_inv n h Bs" "hp_mem_size h = region_count (hp_opts h) * 2 ^ n" "hp_is_in h a"
    "a \<in> region_range (hp_regions h ! i)" "i < region_count (hp_opts h)" "in_run h s i"
  shows "object_start h a = Inr (Some (hr_begin (hp_regions h ! s)))"
proof -
  obtain i' where i': "region_index h a = Inr i'" "i' < region_count (hp_opts h)" "a \<in> region_range (hp_regions h ! i')"
    by (rule region_index_in [OF assms(1-3)])
  have "i' = i" using region_ranges_disjoint [OF assms(1) i'(2) assms(5)] i'(3) assms(4) by blast
  note i' = i' [unfolded this]
  note rD = heap_invD [OF assms(1,5)]
  have ix: "hr_index (hp_regions h ! i) = i" using rD(2) by (simp add: placed_def)
  show ?thesis
  proof (cases "s = i")
    case True
    then have "hr_is_humongous_start (hp_regions h ! i)" using assms(6) by (simp add: in_run_def)
    then show ?thesis using i' rD(3) assms(3) True by (simp add: object_start_def)
  next
    case False
    then have "hr_is_humongous_cont (hp_regions h ! i)" using assms(6) by (simp add: in_run_def)
    moreover from this have "\<not> hr_is_humongous_start (hp_regions h ! i)"
      by (simp add: hr_is_humongous_cont_def hr_is_humongous_start_def)
    ultimately show ?thesis
      using i' rD(3) assms(3) humongous_start_loop_run [OF assms(1,5,6)] ix by (simp add: object_start_def get_humongous_start_def)
  qed
qed

section \<open>Lemmas: uncommitting\<close>

text \<open>The regions \<open>D\<close> were returned to the system: they were empty, and are now empty without memory.\<close>

definition uncommitted :: "nat \<Rightarrow> nat set \<Rightarrow> Heap \<Rightarrow> Heap \<Rightarrow> bool" where
  "uncommitted n D h h' \<longleftrightarrow> finite D \<and> hp_opts h' = hp_opts h \<and> hp_mem_start h' = hp_mem_start h \<and> hp_memory h' = hp_memory h \<and>
     hp_free_set h' = hp_free_set h \<and> hp_commited h' + card D * 2 ^ n = hp_commited h \<and>
     (\<forall>i < region_count (hp_opts h). if i \<in> D then hr_is_empty_commited (hp_regions h ! i) \<and> hr_typ (hp_regions h' ! i) = EmptyUncommited \<and>
        hr_to_sweep (hp_regions h' ! i) = hr_to_sweep (hp_regions h ! i)
      else hp_regions h' ! i = hp_regions h ! i)"

lemma uncommit_region_spec:
  assumes hi: "heap_inv n h Bs" and i: "i < region_count (hp_opts h)"
  obtains (stop) "uncommit_region (\<lambda>_ h. h) before until i (c, h) = Inr (True, c, h)"
    | (skip) "uncommit_region (\<lambda>_ h. h) before until i (c, h) = Inr (False, c, h)"
    | (dec) h' where "uncommit_region (\<lambda>_ h. h) before until i (c, h) = Inr (False, c + 1, h')" "heap_inv n h' Bs"
        "uncommitted n {i} h h'" "hr_empty_time (hp_regions h ! i) < before" "until \<le> hp_commited h'"
proof -
  note rD = heap_invD [OF hi i]
  let ?r = "hp_regions h ! i"
  have sz: "region_size_bytes (hp_opts h) = 2 ^ n" using hi by (simp add: heap_inv_def opts_ok_def)
  have hs: "hr_size ?r = 2 ^ n" using region_invD(5) [OF rD(1)] by (simp add: hr_size_def)
  consider (no) "\<not> (hr_is_empty_commited ?r \<and> hr_empty_time ?r < before)"
    | (low) "hr_is_empty_commited ?r" "hr_empty_time ?r < before" "hp_commited h < until + 2 ^ n"
    | (ok) "hr_is_empty_commited ?r" "hr_empty_time ?r < before" "until + 2 ^ n \<le> hp_commited h" by linarith
  then show thesis
  proof cases
    case no
    then show thesis using rD(3) by (intro skip) (auto simp: uncommit_region_def)
  next
    case low
    then show thesis using rD(3) sz by (intro stop) (simp add: uncommit_region_def)
  next
    case ok
    define r' where "r' = ?r\<lparr>hr_free_list := fl_clear (hr_free_list ?r), hr_typ := EmptyUncommited\<rparr>"
    define h' where "h' = (put_region h i r')\<lparr>hp_commited := hp_commited h - 2 ^ n\<rparr>"
    have e: "hr_is_empty ?r" using ok(1) by (simp add: hr_is_empty_def hr_is_empty_commited_def)
    have B: "Bs i = {#}" by (rule region_invD(9) [OF rD(1) e])
    have ri: "region_inv n r' (hp_memory h) (Bs i)"
      by (rule region_inv_change [OF rD(1)]) (use fl_store_clear [OF region_invD(7) [OF rD(1)]] B in \<open>simp_all add: r'_def\<close>)
    have pl: "placed n h i r'" using rD(2) by (simp add: placed_def r'_def)
    have f: "hp_regions h' = (hp_regions h)[i := r']" "hp_memory h' = hp_memory h" "hp_opts h' = hp_opts h" "hp_mem_start h' = hp_mem_start h"
      by (simp_all add: h'_def put_region_def)
    show thesis
    proof (rule dec)
      show "uncommit_region (\<lambda>_ h. h) before until i (c, h) = Inr (False, c + 1, h')"
        using ok rD(3) sz hs by (simp add: uncommit_region_def hr_do_decommit_def h'_def r'_def Let_def)
      show "heap_inv n h' Bs" using heap_inv_put [OF hi i ri pl _ f] by simp
      show "uncommitted n {i} h h'"
        using ok rD(4) unfolding uncommitted_def by (auto simp: h'_def put_region_def r'_def)
    qed (use ok in \<open>simp_all add: h'_def\<close>)
  qed
qed

lemma uncommitted_trans:
  assumes "uncommitted n {i} h h1" "uncommitted n D h1 h2" "i \<notin> D"
  shows "uncommitted n (insert i D) h h2"
proof -
  have "if j \<in> insert i D then hr_is_empty_commited (hp_regions h ! j) \<and> hr_typ (hp_regions h2 ! j) = EmptyUncommited \<and>
      hr_to_sweep (hp_regions h2 ! j) = hr_to_sweep (hp_regions h ! j) else hp_regions h2 ! j = hp_regions h ! j"
    if "j < region_count (hp_opts h)" for j
    using assms that unfolding uncommitted_def by (cases "j = i"; cases "j \<in> D") auto
  moreover have "hp_commited h2 + card (insert i D) * 2 ^ n = hp_commited h" using assms by (auto simp: uncommitted_def)
  ultimately show ?thesis using assms(1,2) by (auto simp: uncommitted_def)
qed

lemma uncommit_loop_spec:
  assumes "heap_inv n h Bs" "distinct is" "set is \<subseteq> {..<region_count (hp_opts h)}"
  shows "\<exists>D h'. uncommit_loop (\<lambda>_ h. h) before until is (c, h) = Inr (c + card D, h') \<and> D \<subseteq> set is \<and> heap_inv n h' Bs \<and>
    uncommitted n D h h' \<and> (\<forall>i \<in> D. hr_empty_time (hp_regions h ! i) < before) \<and> (D \<noteq> {} \<longrightarrow> until \<le> hp_commited h')"
  using assms
proof (induction "is" arbitrary: c h)
  case (Cons i xs)
  have i: "i < region_count (hp_opts h)" using Cons.prems(3) by simp
  show ?case
  proof (rule uncommit_region_spec [OF Cons.prems(1) i, of before until c], goal_cases)
    case stop: 1
    then show ?thesis using Cons.prems(1) by (intro exI [of _ "{}"] exI [of _ h]) (simp add: uncommitted_def)
  next
    case skip: 2
    then show ?thesis using Cons.IH [OF Cons.prems(1), of c] Cons.prems(2,3) by fastforce
  next
    case dec: (3 h1)
    have o: "hp_opts h1 = hp_opts h" using dec(3) by (simp add: uncommitted_def)
    then obtain D h' where d: "uncommit_loop (\<lambda>_ h. h) before until xs (c + 1, h1) = Inr (c + 1 + card D, h')" "D \<subseteq> set xs"
      "heap_inv n h' Bs" "uncommitted n D h1 h'" "\<forall>j \<in> D. hr_empty_time (hp_regions h1 ! j) < before" "D \<noteq> {} \<longrightarrow> until \<le> hp_commited h'"
      using Cons.IH [OF dec(2), of "c + 1"] Cons.prems(2,3) by auto
    have iD: "i \<notin> D" "finite D" using d(2) Cons.prems(2) finite_subset [OF d(2)] by auto
    have "hp_regions h1 ! j = hp_regions h ! j" if "j \<in> D" for j
    proof -
      have "j < region_count (hp_opts h)" "j \<noteq> i" using that iD(1) d(2) Cons.prems(3) by auto
      then show ?thesis using dec(3) unfolding uncommitted_def by simp
    qed
    then have "\<forall>j \<in> insert i D. hr_empty_time (hp_regions h ! j) < before" using d(5) dec(4) by simp
    moreover have "until \<le> hp_commited h'" using d(4,6) dec(5) by (cases "D = {}") (auto simp: uncommitted_def)
    ultimately show ?thesis
      using dec(1) d iD uncommitted_trans [OF dec(3) d(4) iD(1)] by (intro exI [of _ "insert i D"] exI [of _ h']) auto
  qed
qed (auto simp: uncommitted_def)

section \<open>Lemmas: allocation with retries\<close>

text \<open>A block that was handed out overlaps nothing that is still free; a small one lies in one regular region.\<close>

definition handed_out :: "nat \<Rightarrow> Heap \<Rightarrow> (nat \<Rightarrow> block multiset) \<Rightarrow> AllocRequest \<Rightarrow> AllocRequest \<Rightarrow> addr \<Rightarrow> bool" where
  "handed_out n h Bs req req' a \<longleftrightarrow> a mod 8 = 0 \<and>
     (\<forall>j < region_count (hp_opts h). \<forall>c \<in># Bs j. block_bytes (a, ar_actual_size req') \<inter> block_bytes c = {}) \<and>
     (if ar_requested_size req > humongous_threshold_bytes (hp_opts h)
      then \<exists>i < region_count (hp_opts h). a = hr_begin (hp_regions h ! i) \<and> hr_is_humongous_start (hp_regions h ! i)
      else size_ok (hp_opts h) req (ar_actual_size req') \<and>
        (\<exists>i < region_count (hp_opts h). hr_typ (hp_regions h ! i) = Regular \<and> hr_begin (hp_regions h ! i) \<le> a \<and>
           a + ar_actual_size req' \<le> hr_end (hp_regions h ! i) \<and>
           (\<not> for_lab req \<longrightarrow> check_bit (hr_object_start_bitmap (hp_regions h ! i)) a)))"

lemma handed_out_run:
  assumes hi: "heap_inv n h Bs" and k: "0 < k" "s + k \<le> region_count (hp_opts h)" "\<forall>j \<in> {s ..< s + k}. Bs j = {#}"
    and a: "a = hp_mem_start h + s * 2 ^ n" "ar_actual_size req' \<le> k * 2 ^ n" and t: "hr_typ (hp_regions h ! s) = HumongousStart"
    and big: "humongous_threshold_bytes (hp_opts h) < ar_requested_size req"
  shows "handed_out n h Bs req req' a"
proof -
  have s: "s < region_count (hp_opts h)" using k(1,2) by simp
  have b: "hr_begin (hp_regions h ! s) = a" using heap_invD(2) [OF hi s] a(1) by (simp add: placed_def)
  then have "a mod 16 = 0" using region_invD(4) [OF heap_invD(1) [OF hi s]] by simp
  then have "a mod 8 = 0" by presburger
  moreover have "block_bytes (a, ar_actual_size req') \<inter> block_bytes c = {}" if j: "j < region_count (hp_opts h)" "c \<in># Bs j" for j c
  proof -
    note rD = heap_invD [OF hi j(1)]
    have c: "block_bytes c \<subseteq> {hp_mem_start h + j * 2 ^ n ..< hp_mem_start h + (j + 1) * 2 ^ n}"
      using bspec [OF region_invD(8) [OF rD(1)] j(2)] region_invD(5) [OF rD(1)] rD(2) by (simp add: placed_def algebra_simps)
    have "j \<notin> {s ..< s + k}" using k(3) j(2) by auto
    then consider "j + 1 \<le> s" | "s + k \<le> j" by fastforce
    then show ?thesis
    proof cases
      case 1
      then have "(j + 1) * 2 ^ n \<le> s * 2 ^ n" by (rule mult_le_mono1)
      then show ?thesis using c a(1) by (auto simp: block_bytes_def)
    next
      case 2
      then have "(s + k) * 2 ^ n \<le> j * 2 ^ n" by (rule mult_le_mono1)
      then have "a + ar_actual_size req' \<le> hp_mem_start h + j * 2 ^ n" using a by (simp add: add_mult_distrib)
      then show ?thesis using c by (auto simp: block_bytes_def)
    qed
  qed
  ultimately show ?thesis using s b t big by (auto simp: handed_out_def hr_is_humongous_start_def)
qed

lemma avail_block_aligned:
  assumes "region_inv n r m B" "b \<in># avail_blocks r B"
  shows "fst b mod 8 = 0"
proof (cases "can_allocate_from r")
  case True
  then have "fst b mod 16 = 0" using assms region_invD(4) [OF assms(1)] by (simp add: avail_blocks_def)
  then show ?thesis by presburger
next
  case False
  then have "b \<in># B" using assms(2) by (simp add: avail_blocks_def)
  then show ?thesis using fls.rep_wf [OF region_invD(7) [OF assms(1)]] by (simp add: wf_block_def)
qed

lemma handed_out_small:
  assumes hi: "heap_inv n h Bs" "heap_inv n h' Bs'" and o: "hp_opts h' = hp_opts h" "hp_mem_start h' = hp_mem_start h"
    and i: "i < region_count (hp_opts h)" "alloc_at h Bs req i a h' Bs' req'"
    and d: "\<forall>j < region_count (hp_opts h). \<forall>c \<in># Bs' j. block_bytes (a, ar_actual_size req') \<inter> block_bytes c = {}"
    and small: "\<not> humongous_threshold_bytes (hp_opts h) < ar_requested_size req"
  shows "handed_out n h' Bs' req req' a"
proof -
  obtain sz b where sz: "size_ok (hp_opts h) req sz" "req' = set_actual_size sz req" "b \<in># avail_blocks (hp_regions h ! i) (Bs i)" "a = fst b"
    "hr_begin (hp_regions h ! i) \<le> a" "a + sz \<le> hr_end (hp_regions h ! i)" "hr_typ (hp_regions h' ! i) = Regular"
    "\<not> for_lab req \<longrightarrow> check_bit (hr_object_start_bitmap (hp_regions h' ! i)) a"
    using i(2) by (auto simp: alloc_at_def)
  have i': "i < region_count (hp_opts h')" using i(1) o by simp
  have "a mod 8 = 0" unfolding sz(4) by (rule avail_block_aligned [OF heap_invD(1) [OF hi(1) i(1)] sz(3)])
  moreover have "hr_begin (hp_regions h' ! i) = hr_begin (hp_regions h ! i)" "hr_end (hp_regions h' ! i) = hr_end (hp_regions h ! i)"
    using heap_invD(2) [OF hi(1) i(1)] heap_invD(2) [OF hi(2) i'] region_invD(5) [OF heap_invD(1) [OF hi(1) i(1)]]
      region_invD(5) [OF heap_invD(1) [OF hi(2) i']] o by (simp_all add: placed_def)
  moreover have "ar_actual_size req' = sz" using sz(2) by (simp add: set_actual_size_def)
  ultimately show ?thesis using sz(1,5-8) d small i(1) o unfolding handed_out_def by auto
qed

lemma fs_allocate_spec:
  assumes hi: "heap_inv n h Bs" and fi: "fs_inv h" and req: "req_ok req" "0 < ar_requested_size req"
  obtains res h' req' nw' Bs' where "fs_allocate now h req nw = Inr (res, h', req', nw')" "heap_inv n h' Bs'" "fs_inv h'"
    "hp_opts h' = hp_opts h" "hp_mem_start h' = hp_mem_start h"
    "res = None \<longrightarrow> req' = req" "\<forall>a. res = Some a \<longrightarrow> ar_requested_size req' = ar_requested_size req \<and> for_lab req' = for_lab req \<and>
       (for_lab req \<or> ar_actual_size req' = ar_requested_size req) \<and> hp_mem_start h \<le> a \<and>
       a + ar_actual_size req' \<le> hp_mem_start h + region_count (hp_opts h) * 2 ^ n"
    "\<forall>a. res = Some a \<longrightarrow> handed_out n h' Bs' req req' a"
proof (cases "ar_requested_size req > humongous_threshold_bytes (hp_opts h)")
  case True
  obtain res h' req' Bs' where c: "allocate_contiguous now h req = Inr (res, h', req')" "heap_inv n h' Bs'" "fs_inv h'"
    and r: "let k = required_regions (hp_opts h) (ar_requested_size req) in
     case res of
       None \<Rightarrow> h' = h \<and> req' = req \<and> (\<forall>s. \<not> free_run h s k)
     | Some a \<Rightarrow> \<exists>s. free_run h s k \<and> (\<forall>t < s. \<not> free_run h t k) \<and> a = hp_mem_start h + s * 2 ^ n \<and>
         ar_requested_size req \<le> k * 2 ^ n \<and> req' = set_actual_size (ar_requested_size req) req \<and>
         claimed s [s ..< s + k] h h' \<and> (\<forall>j \<in> {s ..< s + k}. Bs' j = {#})"
    using allocate_contiguous_spec [OF hi fi req(2)] by blast
  let ?k = "required_regions (hp_opts h) (ar_requested_size req)"
  have run: "fs_allocate now h req nw = Inr (res, h', req', True)" using True c(1) by (simp add: fs_allocate_def)
  show thesis
  proof (cases res)
    case None
    then show thesis using r run c by (intro that [OF run c(2,3)]) (auto simp: Let_def)
  next
    case (Some a)
    then obtain s where s: "free_run h s ?k" "a = hp_mem_start h + s * 2 ^ n" "ar_requested_size req \<le> ?k * 2 ^ n"
      "req' = set_actual_size (ar_requested_size req) req" "claimed s [s ..< s + ?k] h h'" "\<forall>j \<in> {s ..< s + ?k}. Bs' j = {#}"
      using r unfolding Let_def Some option.case by blast
    have "0 < ?k" using s(3) req(2) by (cases ?k) auto
    then have "s + ?k - 1 \<in> {s ..< s + ?k}" by auto
    then have sk: "s + ?k \<le> region_count (hp_opts h)" using subsetD [OF free_run_sub(2) [OF fi s(1)]] by fastforce
    have cl: "hp_opts h' = hp_opts h" "hp_mem_start h' = hp_mem_start h" "hr_typ (hp_regions h' ! s) = HumongousStart"
      using s(5) \<open>0 < ?k\<close> by (auto simp: claimed_def)
    have ho: "handed_out n h' Bs' req req' a"
      by (rule handed_out_run [OF c(2) \<open>0 < ?k\<close>, of s]) (use sk cl s True in \<open>auto simp: set_actual_size_def\<close>)
    from sk have "s * 2 ^ n + ?k * 2 ^ n \<le> region_count (hp_opts h) * 2 ^ n"
      unfolding distrib_right [symmetric] by (intro mult_le_mono1)
    then show thesis
      using s Some cl ho by (intro that [OF run c(2,3)]) (auto simp: set_actual_size_def for_lab_def)
  qed
next
  case False
  obtain res h' req' nw' Bs' where c: "allocate_single now h req nw = Inr (res, h', req', nw')" "heap_inv n h' Bs'" "fs_inv h'"
    "hp_opts h' = hp_opts h" "hp_mem_start h' = hp_mem_start h"
    and r: "case res of
       None \<Rightarrow> req' = req \<and> free_regions (hp_free_set h') = {} \<and> (\<forall>j \<in> free_regions (hp_free_set h). too_small h Bs req j)
     | Some a \<Rightarrow> \<exists>i \<in> free_regions (hp_free_set h). alloc_at h Bs req i a h' Bs' req' \<and>
         (\<forall>j < region_count (hp_opts h). \<forall>c \<in># Bs' j. block_bytes (a, ar_actual_size req') \<inter> block_bytes c = {}) \<and>
         (\<forall>j \<in> free_regions (hp_free_set h). j < i \<longrightarrow> too_small h Bs req j)"
    using allocate_single_spec [OF hi fi req(1)] by blast
  have run: "fs_allocate now h req nw = Inr (res, h', req', nw')" using False c(1) by (simp add: fs_allocate_def)
  show thesis
  proof (cases res)
    case None
    then show thesis using r by (intro that [OF run c(2-5)]) auto
  next
    case (Some a)
    then obtain i where i: "i \<in> free_regions (hp_free_set h)" "alloc_at h Bs req i a h' Bs' req'"
      "\<forall>j < region_count (hp_opts h). \<forall>c \<in># Bs' j. block_bytes (a, ar_actual_size req') \<inter> block_bytes c = {}" using r by auto
    then obtain sz where sz: "size_ok (hp_opts h) req sz" "req' = set_actual_size sz req" "hr_begin (hp_regions h ! i) \<le> a"
      "a + sz \<le> hr_end (hp_regions h ! i)" by (auto simp: alloc_at_def)
    have ic: "i < region_count (hp_opts h)" by (rule fs_inv_in(1) [OF fi i(1)])
    have "hr_begin (hp_regions h ! i) = hp_mem_start h + i * 2 ^ n" "hr_end (hp_regions h ! i) = hp_mem_start h + (i + 1) * 2 ^ n"
      using heap_invD(1,2) [OF hi ic] region_invD(5) [of n "hp_regions h ! i"] by (simp_all add: placed_def)
    moreover have "(i + 1) * 2 ^ n \<le> region_count (hp_opts h) * 2 ^ n" using ic by (intro mult_le_mono1) simp
    ultimately have "hp_mem_start h \<le> a" "a + sz \<le> hp_mem_start h + region_count (hp_opts h) * 2 ^ n" using sz(3,4) by linarith+
    then show thesis
      using sz Some handed_out_small [OF hi c(2,4,5) ic i(2,3) False] by (intro that [OF run c(2-5)]) (auto simp: set_actual_size_def for_lab_def size_ok_def)
  qed
qed

lemma req_ok_pos: "req_ok req \<Longrightarrow> 0 < ar_requested_size req"
  by (simp add: req_ok_def)

text \<open>What waiting for the collector may do to the heap.\<close>

definition wait_ok :: "nat \<Rightarrow> Heap \<Rightarrow> (Heap \<Rightarrow> Heap) \<Rightarrow> bool" where
  "wait_ok n h0 wait \<longleftrightarrow> (\<forall>h Bs. heap_inv n h Bs \<longrightarrow> fs_inv h \<longrightarrow> hp_opts h = hp_opts h0 \<longrightarrow> hp_mem_start h = hp_mem_start h0 \<longrightarrow>
     (\<exists>Bs'. heap_inv n (wait h) Bs') \<and> fs_inv (wait h) \<and> hp_opts (wait h) = hp_opts h0 \<and> hp_mem_start (wait h) = hp_mem_start h0)"

text \<open>What an attempt with the request \<open>req\<close> leaves behind.\<close>

definition attempted :: "nat \<Rightarrow> Heap \<Rightarrow> AllocRequest \<Rightarrow> addr option \<Rightarrow> Heap \<Rightarrow> AllocRequest \<Rightarrow> bool" where
  "attempted n h0 req res h req' \<longleftrightarrow> (\<exists>Bs. heap_inv n h Bs \<and> (\<forall>a. res = Some a \<longrightarrow> handed_out n h Bs req req' a)) \<and> fs_inv h \<and> hp_opts h = hp_opts h0 \<and> hp_mem_start h = hp_mem_start h0 \<and>
     (case res of None \<Rightarrow> req' = req
      | Some a \<Rightarrow> ar_requested_size req' = ar_requested_size req \<and> for_lab req' = for_lab req \<and>
          (for_lab req \<or> ar_actual_size req' = ar_requested_size req) \<and> hp_mem_start h0 \<le> a \<and>
          a + ar_actual_size req' \<le> hp_mem_start h0 + region_count (hp_opts h0) * 2 ^ n)"

lemma fs_allocate_attempted:
  assumes "attempted n h0 req None h req'" "req_ok req"
  obtains res h' req'' nw' where "fs_allocate now h req' nw = Inr (res, h', req'', nw')" "attempted n h0 req res h' req''"
proof -
  obtain Bs where h: "heap_inv n h Bs" "fs_inv h" "hp_opts h = hp_opts h0" "hp_mem_start h = hp_mem_start h0" "req' = req"
    using assms(1) by (auto simp: attempted_def)
  obtain res h' req'' nw' Bs' where a: "fs_allocate now h req nw = Inr (res, h', req'', nw')" "heap_inv n h' Bs'" "fs_inv h'"
    "hp_opts h' = hp_opts h" "hp_mem_start h' = hp_mem_start h" "res = None \<longrightarrow> req'' = req"
    "\<forall>a. res = Some a \<longrightarrow> ar_requested_size req'' = ar_requested_size req \<and> for_lab req'' = for_lab req \<and>
       (for_lab req \<or> ar_actual_size req'' = ar_requested_size req) \<and> hp_mem_start h \<le> a \<and>
       a + ar_actual_size req'' \<le> hp_mem_start h + region_count (hp_opts h) * 2 ^ n"
    "\<forall>a. res = Some a \<longrightarrow> handed_out n h' Bs' req req'' a"
    by (rule fs_allocate_spec [OF h(1,2) assms(2) req_ok_pos [OF assms(2)]])
  have "attempted n h0 req res h' req''"
    using a(2-8) h(3,4) unfolding attempted_def by (auto split: option.split)
  then show thesis using a(1) h(5) by (intro that) simp_all
qed

lemma allocate_retry_attempted:
  assumes w: "wait_ok n h0 wait" and r: "req_ok req" and a: "attempted n h0 req res h req'"
  shows "\<exists>res' h' req'' nw'. allocate_retry wait now tries (res, h, req', nw) = Inr (res', h', req'', nw') \<and>
    attempted n h0 req res' h' req'' \<and> (res \<noteq> None \<longrightarrow> res' = res)"
  using a
proof (induction tries arbitrary: res h req' nw)
  case (Suc tries)
  show ?case
  proof (cases res)
    case None
    then have "attempted n h0 req None (wait h) req'"
      using Suc.prems w unfolding attempted_def wait_ok_def by auto
    from fs_allocate_attempted [OF this r] obtain res1 h1 req1 nw1 where
      "fs_allocate now (wait h) req' nw = Inr (res1, h1, req1, nw1)" "attempted n h0 req res1 h1 req1" .
    then show ?thesis using Suc.IH None by fastforce
  qed (use Suc.prems in auto)
qed auto

lemma allocate_memory_spec:
  assumes hi: "heap_inv n h Bs" "fs_inv h" and w: "wait_ok n h wait" and r: "req_ok req"
  obtains res h' req' nw' where "allocate_memory wait now h req = Inr (res, h', req', nw')" "attempted n h req res h' req'"
proof -
  have "attempted n h req None h req" using hi by (auto simp: attempted_def)
  from fs_allocate_attempted [OF this r] obtain res1 h1 req1 nw1 where
    f: "fs_allocate now h req False = Inr (res1, h1, req1, nw1)" "attempted n h req res1 h1 req1" .
  obtain res h' req' nw where t: "allocate_retry wait now 3 (res1, h1, req1, nw1) = Inr (res, h', req', nw)" "attempted n h req res h' req'"
    using allocate_retry_attempted [OF w r f(2)] by blast
  have n: "attempted n h req res (notify_mutator_alloc h' b) req'" for b
  proof -
    have e: "hp_regions (notify_mutator_alloc h' b) = hp_regions h'" "hp_memory (notify_mutator_alloc h' b) = hp_memory h'"
      "hp_opts (notify_mutator_alloc h' b) = hp_opts h'" "hp_mem_start (notify_mutator_alloc h' b) = hp_mem_start h'"
      "hp_free_set (notify_mutator_alloc h' b) = hp_free_set h'" by (simp_all add: notify_mutator_alloc_def)
    show ?thesis using t(2) unfolding attempted_def heap_inv_def placed_def fs_inv_def handed_out_def e .
  qed
  show thesis
  proof (cases res)
    case None
    then show thesis using f(1) t by (intro that [of res h' req' nw]) (simp_all add: allocate_memory_def)
  next
    case (Some a)
    then have "for_lab req' \<or> ar_requested_size req' = ar_actual_size req'" using t(2) by (auto simp: attempted_def)
    then show thesis using f(1) t(1) Some n by (intro that) (simp_all add: allocate_memory_def)
  qed
qed

text \<open>The heap cannot serve a request: no run of regions for a humongous object, no block of twice the requested size
  in any region of the free set otherwise. An allocation fails only on such a heap.\<close>

definition exhausted :: "Heap \<Rightarrow> (nat \<Rightarrow> block multiset) \<Rightarrow> AllocRequest \<Rightarrow> bool" where
  "exhausted h Bs req \<longleftrightarrow>
     (if ar_requested_size req > humongous_threshold_bytes (hp_opts h)
      then \<forall>s. \<not> free_run h s (required_regions (hp_opts h) (ar_requested_size req))
      else \<forall>j \<in> free_regions (hp_free_set h). too_small h Bs req j)"

lemma fs_allocate_none:
  assumes hi: "heap_inv n h Bs" "fs_inv h" and req: "req_ok req" and run: "fs_allocate now h req nw = Inr (None, h', req', nw')"
  shows "exhausted h Bs req"
proof (cases "ar_requested_size req > humongous_threshold_bytes (hp_opts h)")
  case True
  then show ?thesis using allocate_contiguous_spec [OF hi req_ok_pos [OF req], of now] run
    by (auto simp: exhausted_def fs_allocate_def Let_def)
next
  case False
  from allocate_single_spec [OF hi req] obtain res h1 req1 nw1 where c: "allocate_single now h req nw = Inr (res, h1, req1, nw1)"
    "res = None \<Longrightarrow> \<forall>j \<in> free_regions (hp_free_set h). too_small h Bs req j" by fastforce
  then show ?thesis using False run by (simp add: exhausted_def fs_allocate_def)
qed

lemma allocate_memory_none:
  assumes hi: "heap_inv n h Bs" "fs_inv h" and w: "wait_ok n h wait" and r: "req_ok req"
    and run: "allocate_memory wait now h req = Inr (None, h', req', nw')"
  shows "exhausted h Bs req"
    "\<exists>h1 Bs1. heap_inv n (wait h1) Bs1 \<and> fs_inv (wait h1) \<and> hp_opts (wait h1) = hp_opts h \<and> exhausted (wait h1) Bs1 req"
proof -
  have "attempted n h req None h req" using hi by (auto simp: attempted_def)
  from fs_allocate_attempted [OF this r] obtain res1 h1 req1 nw1 where
    f: "fs_allocate now h req False = Inr (res1, h1, req1, nw1)" "attempted n h req res1 h1 req1" .
  obtain res h2 req2 nw2 where t: "allocate_retry wait now 3 (res1, h1, req1, nw1) = Inr (res, h2, req2, nw2)" "res1 \<noteq> None \<longrightarrow> res = res1"
    using allocate_retry_attempted [OF w r f(2)] by blast
  have "res = None" using run f(1) t(1) by (cases "res = None") (auto simp: allocate_memory_def split: if_splits)
  then have n1: "res1 = None" using t(2) by auto
  show "exhausted h Bs req" by (rule fs_allocate_none [OF hi r]) (use f(1) n1 in simp)
  have req1: "req1 = req" using f(2) n1 by (simp add: attempted_def)
  have aw: "attempted n h req None (wait h1) req" using f(2) n1 req1 w unfolding attempted_def wait_ok_def by auto
  from fs_allocate_attempted [OF this r] obtain res3 h3 req3 nw3 where
    g: "fs_allocate now (wait h1) req nw1 = Inr (res3, h3, req3, nw3)" "attempted n h req res3 h3 req3" .
  have "allocate_retry wait now 3 (res1, h1, req1, nw1) = allocate_retry wait now 2 (res3, h3, req3, nw3)"
    using g(1) n1 req1 by (simp add: numeral_3_eq_3 numeral_2_eq_2)
  then have "allocate_retry wait now 2 (res3, h3, req3, nw3) = Inr (res, h2, req2, nw2)" using t(1) by simp
  moreover obtain res' h' req'' nw' where "allocate_retry wait now 2 (res3, h3, req3, nw3) = Inr (res', h', req'', nw')" "res3 \<noteq> None \<longrightarrow> res' = res3"
    using allocate_retry_attempted [OF w r g(2), of now 2 nw3] by blast
  ultimately have "res3 = None" using \<open>res = None\<close> by auto
  moreover obtain Bs1 where "heap_inv n (wait h1) Bs1" "fs_inv (wait h1)" "hp_opts (wait h1) = hp_opts h" using aw by (auto simp: attempted_def)
  ultimately show "\<exists>h1 Bs1. heap_inv n (wait h1) Bs1 \<and> fs_inv (wait h1) \<and> hp_opts (wait h1) = hp_opts h \<and> exhausted (wait h1) Bs1 req"
    using fs_allocate_none [of n "wait h1" _ req now nw1] r g(1) by blast
qed

section \<open>Properties\<close>

text \<open>A heap built from accepted arguments is consistent: every region is empty and completely free, the free set
  contains all of them and \<open>available\<close> is the whole heap, which is at least the requested maximum size.\<close>

theorem heap_new_ready:
  assumes "args_ok page args" "setup_sizes page args = Inr opts" "0 < ha_max_heap_size args"
    "0 < mem_start" "mem_start mod 16 = 0" "mem_start + max_heap_size opts < 2 ^ 64"
  shows "\<exists>h. Heap_new opts isz msz mem_start m bmp now = Inr h \<and> heap_inv (region_size_log2 opts) h (\<lambda>_. {#}) \<and> fs_inv h \<and>
    balanced h \<and> free_regions (hp_free_set h) = {..<region_count opts} \<and> (\<forall>r \<in> set (hp_regions h). fresh_region opts r) \<and>
    fs_available (hp_free_set h) = Inr (max_heap_size opts) \<and> ha_max_heap_size args \<le> max_heap_size opts \<and>
    hp_commited h \<le> max_heap_size opts"
proof -
  note m = setup_max_heap [OF assms(1,2)]
  note ok = setup_opts_ok [OF assms(1,2)]
  have rc: "0 < region_count opts" using m assms(3) by (cases "region_count opts") auto
  obtain h where h: "Heap_new opts isz msz mem_start m bmp now = Inr h" "heap_inv (region_size_log2 opts) h (\<lambda>_. {#})" "fs_inv h"
    "balanced h" "fs_used (hp_free_set h) = 0" "hp_opts h = opts"
    "free_regions (hp_free_set h) = {..<region_count opts}" "\<forall>r \<in> set (hp_regions h). fresh_region opts r"
    "hp_commited h = min (isz div region_size_bytes opts) (region_count opts) * region_size_bytes opts"
    by (rule Heap_new_spec [OF ok rc assms(4,5)]) (use assms(6) m(1) in simp_all)
  have len: "length (hp_regions h) = region_count opts" using h(2,6) by (simp add: heap_inv_def)
  have "free_sum h = (\<Sum>i < region_count opts. region_size_bytes opts)"
    unfolding free_sum_def h(6,7) using h(8) len fresh_region_capacity(1) by (intro sum.cong) auto
  then have "free_sum h = max_heap_size opts" using m(1) by simp
  then have "fs_available (hp_free_set h) = Inr (max_heap_size opts)" using h(4,5) by (simp add: fs_available_def balanced_def)
  moreover have "hp_commited h \<le> max_heap_size opts" unfolding h(9) m(1) by (intro mult_le_mono1) simp
  ultimately show ?thesis using h m(2) by blast
qed

theorem heap_new_ready_witness:
  "\<exists>opts h. setup_sizes 4096 tiny_args = Inr opts \<and> Heap_new opts 16384 0 65536 (\<lambda>_. 0) (\<lambda>i. (64, \<lambda>_. 0)) 0 = Inr h \<and>
    heap_inv 12 h (\<lambda>_. {#}) \<and> fs_inv h \<and> balanced h \<and> fs_available (hp_free_set h) = Inr 40960"
proof -
  obtain opts where o: "setup_sizes 4096 tiny_args = Inr opts" "opts_ok opts" "region_size_log2 opts = 12" "region_count opts = 10"
    by (rule tiny_opts)
  have a: "args_ok 4096 tiny_args" by (simp add: args_ok_def)
  have m: "max_heap_size opts = 40960" using setup_max_heap(1) [OF a o(1)] o(2-4) by (simp add: opts_ok_def)
  then have "65536 + max_heap_size opts < 2 ^ 64" by simp
  from heap_new_ready [OF a o(1) _ _ _ this, of 16384 0 "\<lambda>_. 0" "\<lambda>i. (64, \<lambda>_. 0)" 0] show ?thesis
    using o(1,3) m by auto
qed



lemma object_start_spec:
  assumes "heap_inv n h Bs" "runs_ok h" "hp_mem_size h = region_count (hp_opts h) * 2 ^ n"
  shows "\<exists>res. object_start h a = Inr res \<and>
    (if \<not> hp_is_in h a then res = None
     else \<exists>i < region_count (hp_opts h). a \<in> region_range (hp_regions h ! i) \<and>
       (if hr_is_humongous_start (hp_regions h ! i) \<or> hr_is_humongous_cont (hp_regions h ! i)
        then \<exists>s \<le> i. in_run h s i \<and> res = Some (hr_begin (hp_regions h ! s))
        else let b = hr_object_start_bitmap (hp_regions h ! i); o' = hr_begin (hp_regions h ! i) in
          case res of
            None \<Rightarrow> \<forall>k. o' + 16 * k \<le> a \<longrightarrow> \<not> hb_bit b k
          | Some p \<Rightarrow> \<exists>k. p = o' + 16 * k \<and> p \<le> a \<and> hb_bit b k \<and> (\<forall>j > k. o' + 16 * j \<le> a \<longrightarrow> \<not> hb_bit b j)))"
proof (cases "hp_is_in h a")
  case True
  obtain i where i: "region_index h a = Inr i" "i < region_count (hp_opts h)" "a \<in> region_range (hp_regions h ! i)"
    by (rule region_index_in [OF assms(1,3) True])
  let ?r = "hp_regions h ! i"
  note rD = heap_invD [OF assms(1) i(2)]
  show ?thesis
  proof (cases "hr_is_humongous_start ?r \<or> hr_is_humongous_cont ?r")
    case hum: True
    have "\<exists>s \<le> i. in_run h s i"
    proof (cases "hr_is_humongous_cont ?r")
      case True
      then show ?thesis using assms(2) i(2) unfolding runs_ok_def by (meson less_imp_le)
    next
      case False
      then show ?thesis using hum by (intro exI [of _ i]) (auto simp: in_run_def)
    qed
    then obtain s where s: "s \<le> i" "in_run h s i" by blast
    then show ?thesis using object_start_run [OF assms(1,3) True i(3,2) s(2)] True hum i(2,3) by auto
  next
    case False
    let ?b = "hr_object_start_bitmap ?r"
    have run: "object_start h a = find_object_start ?b a"
      using i rD(3) True False by (simp add: object_start_def)
    have o: "hb_offset ?b = hr_begin ?r" "hb_offset ?b \<le> a" using rD(2) i(3) by (auto simp: placed_def region_range_def)
    have le: "hr_begin ?r + 16 * k \<le> a \<longleftrightarrow> k \<le> bit_number ?b a" for k
      using o by (auto simp: bit_number_def)
    have lim: "16 dvd hb_offset ?b" "a < hb_limit ?b"
      using rD(2) region_invD(4,5) [OF rD(1)] i(3) by (simp_all add: placed_def region_range_def mod_eq_0_iff_dvd)
    have "\<exists>res. find_object_start ?b a = Inr res \<and> (case res of
            None \<Rightarrow> \<forall>k. hr_begin ?r + 16 * k \<le> a \<longrightarrow> \<not> hb_bit ?b k
          | Some p \<Rightarrow> \<exists>k. p = hr_begin ?r + 16 * k \<and> p \<le> a \<and> hb_bit ?b k \<and> (\<forall>j > k. hr_begin ?r + 16 * j \<le> a \<longrightarrow> \<not> hb_bit ?b j))"
    proof (rule find_object_start_cases [OF o(2)], goal_cases)
      case 1
      then show ?case using le by simp
    next
      case (2 k)
      have "hr_begin ?r + 16 * k \<le> a" using 2(2) le by blast
      moreover from this have "hb_offset ?b + 16 * k < hb_limit ?b" using lim(2) o(1) by simp
      ultimately show ?case using 2 lim(1) le o(1) by auto
    qed
    then show ?thesis using run True False i(2,3) by (auto simp: Let_def)
  qed
qed (simp add: object_start_def)

text \<open>An address in the heap is mapped to the object that contains it: in a region of a humongous object that is
  the start of its first region; in any other region it is the last recorded object start at or before the
  address, if there is one. An address outside the heap is mapped to nothing. The search never panics.\<close>

theorem object_start_correct:
  assumes "heap_inv n h Bs" "runs_ok h" "hp_mem_size h = region_count (hp_opts h) * 2 ^ n"
  shows "\<exists>res. object_start h a = Inr res \<and>
    (if \<not> hp_is_in h a then res = None
     else \<exists>i < region_count (hp_opts h). a \<in> region_range (hp_regions h ! i) \<and>
       (if hr_is_humongous_start (hp_regions h ! i) \<or> hr_is_humongous_cont (hp_regions h ! i)
        then \<exists>s \<le> i. in_run h s i \<and> res = Some (hr_begin (hp_regions h ! s))
        else let b = hr_object_start_bitmap (hp_regions h ! i); o' = hr_begin (hp_regions h ! i) in
          case res of
            None \<Rightarrow> \<forall>k. o' + 16 * k \<le> a \<longrightarrow> \<not> hb_bit b k
          | Some p \<Rightarrow> \<exists>k. p = o' + 16 * k \<and> p \<le> a \<and> hb_bit b k \<and> (\<forall>j > k. o' + 16 * j \<le> a \<longrightarrow> \<not> hb_bit b j)))"
  by (rule object_start_spec [OF assms])

theorem object_start_correct_witness:
  "\<exists>res. object_start (small_heap small_opts) 9000 = Inr res \<and> hp_is_in (small_heap small_opts) 9000 \<and>
    (\<exists>i < 4. 9000 \<in> region_range (hp_regions (small_heap small_opts) ! i) \<and>
      (let b = hr_object_start_bitmap (hp_regions (small_heap small_opts) ! i); o' = hr_begin (hp_regions (small_heap small_opts) ! i) in
        case res of
          None \<Rightarrow> \<forall>k. o' + 16 * k \<le> 9000 \<longrightarrow> \<not> hb_bit b k
        | Some p \<Rightarrow> \<exists>k. p = o' + 16 * k \<and> p \<le> 9000 \<and> hb_bit b k \<and> (\<forall>j > k. o' + 16 * j \<le> 9000 \<longrightarrow> \<not> hb_bit b j)))"
proof -
  let ?h = "small_heap small_opts"
  have hi: "heap_inv 12 ?h (\<lambda>_. {#})" by (rule small_heap_inv [OF small_opts_ok(1)]) simp_all
  have o: "region_count (hp_opts ?h) = 4" "hp_mem_size ?h = region_count (hp_opts ?h) * 2 ^ 12" "hp_is_in ?h 9000"
    by (simp_all add: small_heap_def hp_is_in_def)
  have nh: "\<not> hr_is_humongous_cont (hp_regions ?h ! i) \<and> \<not> hr_is_humongous_start (hp_regions ?h ! i)" if "i < 4" for i
    using that by (simp add: small_heap_def hr_is_humongous_cont_def hr_is_humongous_start_def)
  then have "runs_ok ?h" by (simp add: runs_ok_def o)
  from object_start_correct [OF hi this o(2), of 9000] show ?thesis using o(1,3) nh by auto
qed

lemma claim_regions_mem_size: "claim_regions now lo is h = Inr h' \<Longrightarrow> hp_mem_size h' = hp_mem_size h"
proof (induction "is" arbitrary: h)
  case (Cons i xs)
  then obtain h1 where h1: "claim_region now (i = lo) i h = Inr h1" "claim_regions now lo xs h1 = Inr h'"
    by (auto simp: rbind_eq_Inr)
  then have "hp_mem_size h1 = hp_mem_size h"
    by (cases "hr_make_humongous_start (try_recycle_trashed now (hp_regions h ! i)) (hp_commited h)";
        cases "hr_make_humongous_cont (try_recycle_trashed now (hp_regions h ! i)) (hp_commited h)")
      (auto simp: claim_region_def get_region_def put_region_def Let_def split: if_splits)
  then show ?case using Cons.IH [OF h1(2)] by simp
qed simp

text \<open>C39. Every address inside a freshly allocated humongous object, also one in a later region of its run, is mapped to
  the start of the object.\<close>

theorem humongous_interior_pointer:
  assumes "heap_inv n h Bs" "fs_inv h" "0 < ar_requested_size req" "hp_mem_size h = region_count (hp_opts h) * 2 ^ n"
    "allocate_contiguous now h req = Inr (Some a, h', req')" "a \<le> x" "x < a + ar_requested_size req"
  shows "object_start h' x = Inr (Some a)"
proof (rule allocate_contiguous_cases [OF assms(1-3), of now], goal_cases)
  case 1
  then show ?case using assms(5) by simp
next
  case found: (2 s h1)
  let ?k = "required_regions (hp_opts h) (ar_requested_size req)"
  define g where "g = finish_contiguous s (s + ?k - 1) ?k (ar_requested_size req) h1"
  note cl = allocate_contiguous_claim [OF assms(1,2) found(1,3,4) g_def]
  have o: "hp_opts g = hp_opts h" "hp_mem_start g = hp_mem_start h" using cl(3) by (auto simp: claimed_def)
  have sub: "j < region_count (hp_opts g)" if "s \<le> j" "j < s + ?k" for j
    using subsetD [OF free_run_sub(2) [OF assms(2) found(1)], of j] that o(1) by simp
  have pl: "hr_begin (hp_regions g ! j) = hp_mem_start h + j * 2 ^ n \<and> hr_end (hp_regions g ! j) = hp_mem_start h + (j * 2 ^ n + 2 ^ n)"
    if "j < region_count (hp_opts g)" for j
    using heap_invD(2) [OF cl(1) that] region_invD(5) [OF heap_invD(1) [OF cl(1) that]] o(2) by (simp add: placed_def)
  have gr: "get_region g s = Inr (hp_regions g ! s)" by (rule heap_invD(3) [OF cl(1) sub]) (use found(3) in simp_all)
  have a: "h' = g" "a = hr_begin (hp_regions g ! s)" "a = hp_mem_start h + s * 2 ^ n"
    using assms(5) gr pl [of s] sub [of s] found(3) unfolding found(5) g_def [symmetric] Let_def by simp_all
  have ms: "hp_mem_size g = region_count (hp_opts g) * 2 ^ n"
    using claim_regions_mem_size [OF found(4)] assms(4) o(1) by (simp add: g_def finish_contiguous_def Let_def notify_mutator_alloc_def)
  have "opts_ok (hp_opts h)" "region_size_bytes (hp_opts h) = 2 ^ n" using assms(1) by (auto simp: heap_inv_def opts_ok_def)
  then have x: "hp_mem_start h + s * 2 ^ n \<le> x" "x < hp_mem_start h + (s + ?k) * 2 ^ n"
    using required_regions_cover(1) [of "hp_opts h" "ar_requested_size req"] assms(6,7) a(3) by (simp_all add: distrib_right)
  have "s \<le> s + ?k - 1" "s + ?k - 1 < s + ?k" using found(3) by simp_all
  from sub [OF this] have "s + ?k \<le> region_count (hp_opts g)" by simp
  then have "(s + ?k) * 2 ^ n \<le> region_count (hp_opts g) * 2 ^ n" by (rule mult_le_mono1)
  then have xin: "hp_is_in g x" using x o(2) unfolding hp_is_in_def ms by linarith
  obtain i where i: "i < region_count (hp_opts g)" "x \<in> region_range (hp_regions g ! i)"
    by (rule region_index_in [OF cl(1) ms xin])
  then have xi: "hp_mem_start h + i * 2 ^ n \<le> x" "x < hp_mem_start h + Suc i * 2 ^ n"
    using pl [OF i(1)] by (simp_all add: region_range_def)
  have "s * 2 ^ n < Suc i * 2 ^ n" "i * 2 ^ n < (s + ?k) * 2 ^ n" using x xi by linarith+
  then have b: "s \<le> i" "i < s + ?k" unfolding mult_less_cancel2 by simp_all
  have "hr_is_humongous_start (hp_regions g ! s)" "\<forall>j. s < j \<longrightarrow> j \<le> i \<longrightarrow> hr_is_humongous_cont (hp_regions g ! j)"
    using cl(3) b by (simp_all add: claimed_def hr_is_humongous_start_def hr_is_humongous_cont_def)
  then have "in_run g s i" using b(1) by (simp add: in_run_def)
  from object_start_run [OF cl(1) ms xin i(2,1) this] show ?case using a by simp
qed

theorem humongous_interior_pointer_witness:
  "\<exists>h a h' req'. allocate_contiguous 0 h (AllocRequest_new Shared 8000 8000) = Inr (Some a, h', req') \<and>
    object_start h' (a + 5000) = Inr (Some a)"
proof -
  let ?req = "AllocRequest_new Shared 8000 8000"
  obtain h where h: "heap_inv 12 h (\<lambda>_. {#})" "fs_inv h" "hp_opts h = small_opts" "free_regions (hp_free_set h) = {..<4}"
    "\<forall>i < 4. hr_is_empty (hp_regions h ! i)" "hp_mem_size h = region_count small_opts * 2 ^ 12"
    by (rule small_heap_ready [OF small_opts_ok(1)]) simp_all
  have req: "0 < ar_requested_size ?req" by (simp add: AllocRequest_new_def)
  have k: "required_regions (hp_opts h) (ar_requested_size ?req) = 2"
    by (simp add: h(3) AllocRequest_new_def required_regions_def)
  have "free_run h 0 2"
    using h fs_inv_in(1) [OF h(2)] whole_free_iff [OF h(2)] by (auto simp: free_run_def fs_inv_def can_allocate_from_def)
  then obtain a h' req' where al: "allocate_contiguous 0 h ?req = Inr (Some a, h', req')"
    using allocate_contiguous_some [OF h(1,2) req] k by metis
  have "object_start h' (a + 5000) = Inr (Some a)"
    by (rule humongous_interior_pointer [OF h(1,2) req _ al]) (simp_all add: h(3,6) AllocRequest_new_def)
  then show ?thesis using al by blast
qed

text \<open>When no other thread interferes, uncommitting only touches regions that are empty, committed and have been
  empty since before the deadline; it keeps heap and free set consistent, reports exactly whether it did something,
  accounts for every region and never goes below the size the heap is to shrink to.\<close>

theorem uncommit_safe:
  assumes "heap_inv n h Bs" "fs_inv h"
  shows "\<exists>D h'. entry_uncommit (\<lambda>_ h. h) before until h = Inr (D \<noteq> {}, h') \<and> heap_inv n h' Bs \<and> fs_inv h' \<and>
    D \<subseteq> {..<region_count (hp_opts h)} \<and> uncommitted n D h h' \<and> (\<forall>i \<in> D. hr_empty_time (hp_regions h ! i) < before) \<and>
    min until (hp_commited h) \<le> hp_commited h'"
proof -
  let ?is = "rev [0..<region_count (hp_opts h)]"
  have "\<exists>D h'. uncommit_loop (\<lambda>_ h. h) before until ?is (0, h) = Inr (0 + card D, h') \<and> D \<subseteq> set ?is \<and> heap_inv n h' Bs \<and>
    uncommitted n D h h' \<and> (\<forall>i \<in> D. hr_empty_time (hp_regions h ! i) < before) \<and> (D \<noteq> {} \<longrightarrow> until \<le> hp_commited h')"
    by (rule uncommit_loop_spec [OF assms(1)]) (simp_all add: atLeast0LessThan)
  then obtain D h' where d: "uncommit_loop (\<lambda>_ h. h) before until ?is (0, h) = Inr (card D, h')" "D \<subseteq> {..<region_count (hp_opts h)}"
    "heap_inv n h' Bs" "uncommitted n D h h'" "\<forall>i \<in> D. hr_empty_time (hp_regions h ! i) < before" "D \<noteq> {} \<longrightarrow> until \<le> hp_commited h'"
    unfolding set_rev set_upt atLeast0LessThan add_0 by blast
  have fin: "finite D" using d(4) by (simp add: uncommitted_def)
  then have run: "entry_uncommit (\<lambda>_ h. h) before until h = Inr (D \<noteq> {}, h')"
    using d(1) by (simp add: entry_uncommit_def card_gt_0_iff)
  have com: "min until (hp_commited h) \<le> hp_commited h'" using d(4,6) by (cases "D = {}") (auto simp: uncommitted_def)
  have "usable (hp_opts h) (hp_regions h' ! i) \<and> \<not> hr_to_sweep (hp_regions h' ! i)" if i: "i \<in> free_regions (hp_free_set h)" for i
  proof (cases "i \<in> D")
    case True
    note u = fs_inv_in [OF assms(2) i]
    have t: "hr_typ (hp_regions h' ! i) = EmptyUncommited" "\<not> hr_to_sweep (hp_regions h' ! i)"
      using True d(4) u by (auto simp: uncommitted_def)
    have "hr_size (hp_regions h' ! i) = 2 ^ n"
      using region_invD(5) [OF heap_invD(1) [OF d(3)]] u(1) d(4) by (simp add: hr_size_def uncommitted_def)
    then show ?thesis using t by (simp add: usable_def hr_is_alloc_allowed_def hr_is_empty_def alloc_capacity_def hr_is_trash_def hr_free_def)
  next
    case False
    then show ?thesis using i assms(2) d(4) fs_inv_in(1) [OF assms(2) i] by (simp add: uncommitted_def fs_inv_def)
  qed
  then have "fs_inv h'" using assms(2) d(4) by (simp add: fs_inv_def uncommitted_def)
  then show ?thesis using run d(2-5) com by (intro exI [of _ D] exI [of _ h'] conjI)
qed

theorem uncommit_safe_witness:
  "\<exists>h D h'. free_regions (hp_free_set h) = {..<4} \<and> entry_uncommit (\<lambda>_ h. h) 1 8192 h = Inr (D \<noteq> {}, h') \<and>
    heap_inv 12 h' (\<lambda>_. {#}) \<and> fs_inv h' \<and> uncommitted 12 D h h' \<and> min 8192 (hp_commited h) \<le> hp_commited h'"
proof -
  obtain h where h: "heap_inv 12 h (\<lambda>_. {#})" "fs_inv h" "free_regions (hp_free_set h) = {..<4}"
    by (rule small_heap_ready [OF small_opts_ok(1)]) simp_all
  from uncommit_safe [OF h(1,2), of 1 8192] show ?thesis using h(3) by blast
qed

text \<open>The check that the region is still empty is repeated under the lock, but it only guards the test of the
  committed size: a region in which another thread has allocated in the meantime is uncommitted all the same. Its
  state becomes empty, its free list is dropped, and its memory is given back to the system.\<close>

theorem uncommit_race:
  assumes "heap_inv n h Bs" "i < region_count (hp_opts h)" "hr_is_empty_commited (hp_regions h ! i)" "hr_empty_time (hp_regions h ! i) < before"
    "i < length (hp_regions (race i h))" "hr_is_regular (hp_regions (race i h) ! i)"
  shows "\<exists>h'. uncommit_region race before until i (c, h) = Inr (False, c + 1, h') \<and>
    hr_typ (hp_regions h' ! i) = EmptyUncommited \<and> hr_used (hp_regions h' ! i) = hr_used (hp_regions (race i h) ! i)"
  using assms heap_invD(3) [OF assms(1,2)]
  by (auto simp: uncommit_region_def Let_def get_region_def hr_is_empty_commited_def hr_is_regular_def hr_do_decommit_def put_region_def)

text \<open>Another thread allocates 48 bytes in the region.\<close>

definition racing_alloc :: "nat \<Rightarrow> Heap \<Rightarrow> Heap" where
  "racing_alloc i h = (case hr_allocate (hp_regions h ! i, hp_memory h, hp_commited h) 48 of
     Inl _ \<Rightarrow> h | Inr (_, r, m, com) \<Rightarrow> (put_region h i r)\<lparr>hp_memory := m, hp_commited := com\<rparr>)"

theorem uncommit_race_witness:
  "\<exists>h'. uncommit_region racing_alloc 1 0 0 (0, small_heap small_opts) = Inr (False, 1, h') \<and>
    hr_typ (hp_regions h' ! 0) = EmptyUncommited \<and> hr_used (hp_regions h' ! 0) = 48"
proof -
  let ?h = "small_heap small_opts"
  let ?r = "hp_regions ?h ! 0"
  have hi: "heap_inv 12 ?h (\<lambda>_. {#})" by (rule small_heap_inv [OF small_opts_ok(1)]) simp_all
  have i: "0 < region_count (hp_opts ?h)" by (simp add: small_heap_def)
  note rD = heap_invD [OF hi i]
  have e: "hr_is_empty_commited ?r" "hr_empty_time ?r < 1" "hr_used ?r = 0" "hr_is_empty ?r"
    by (simp_all add: small_heap_def hr_is_empty_commited_def hr_is_empty_def HeapRegion_new_def hr_recycle_def hr_make_empty_def Let_def)
  have "hr_size ?r = 4096" using region_invD(5) [OF rD(1)] by (simp add: hr_size_def)
  then have rb: "region_blocks ?r {#} = {#(hr_begin ?r, 4096)#}" using e(4) by (simp add: region_blocks_def)
  have "16 dvd (48::nat)" by simp
  from hr_allocate_spec [OF rD(1) _ this, of "hp_commited ?h"] obtain res r m com where
    a: "hr_allocate (?r, hp_memory ?h, hp_commited ?h) 48 = Inr (res, r, m, com)" "hr_typ r = Regular"
    and c: "case res of None \<Rightarrow> \<forall>b \<in># region_blocks ?r {#}. snd b < 2 * 48 | Some a \<Rightarrow> hr_used r = hr_used ?r + 48"
    by (fastforce split: option.splits)
  have u: "hr_used r = 48" using c e(3) unfolding rb by (auto split: option.splits)
  have ra: "hp_regions (racing_alloc 0 ?h) = (hp_regions ?h)[0 := r]" using a(1) by (simp add: racing_alloc_def put_region_def)
  have "\<exists>h'. uncommit_region racing_alloc 1 0 0 (0, ?h) = Inr (False, 0 + 1, h') \<and>
    hr_typ (hp_regions h' ! 0) = EmptyUncommited \<and> hr_used (hp_regions h' ! 0) = hr_used (hp_regions (racing_alloc 0 ?h) ! 0)"
    by (rule uncommit_race [OF hi i e(1,2)]) (use ra a(2) rD(4) in \<open>simp_all add: hr_is_regular_def\<close>)
  then show ?thesis using ra u rD(4) by simp
qed

end
