(* ===== verification/Marking.thy ===== *)
theory Marking
  imports MarkTask HeapModel
begin

unbundle bit_operations_syntax

text \<open>
  The parallel marking of \<open>heap/mark.rs\<close> and \<open>heap/marking_context.rs\<close>: the marking context and its injector
  queue, the visitors with their local segments and worker queues, the marking task loop and the terminator, as
  a step relation over all workers. One step is one access to shared state. The trace functions of the objects
  are parameters: \<open>me_trace\<close> gives the pointers that the \<open>trace\<close> function of an object's vtable visits and \<open>me_elem\<close>
  those that \<open>iterate_range\<close> visits for one element. The work-stealing queues of \<open>crossbeam_deque\<close> are lists; a
  batch steal may take any of the tasks of a queue.
\<close>

section \<open>Visiting objects\<close>

record MarkEnv =
  me_heap :: Heap
  me_vtab :: "nat \<Rightarrow> VTable"
  me_trace :: "addr \<Rightarrow> addr list"
  me_elem :: "addr \<Rightarrow> nat \<Rightarrow> addr list"
  me_stride :: nat
  me_cancellable :: bool

definition vtable_of :: "MarkEnv \<Rightarrow> addr \<Rightarrow> VTable" where
  "vtable_of E a = me_vtab E (hdr_vtable (hp_memory (me_heap E) a))"

text \<open>What is left to do of a task: a pointer to visit, or a task to push.\<close>

datatype mark_item = Visit addr | Push u64

definition visit_object :: "MarkEnv \<Rightarrow> addr \<Rightarrow> mark_item list res" where
  "visit_object E a =
     (if hdr_no_heap_ptrs (hp_memory (me_heap E) a) then Inr []
      else if hdr_is_free (hp_memory (me_heap E) a) then Inl AssertFailed
      else Inr (map Visit (me_trace E a)))"

definition items_of_action :: "MarkEnv \<Rightarrow> addr \<Rightarrow> mark_action \<Rightarrow> mark_item list" where
  "items_of_action E a act = (case act of
     TraceFixed \<Rightarrow> map Visit (me_trace E a)
   | PushChunk c p \<Rightarrow> [Push (MarkTask_new2 (of_nat a) True False (of_nat c) (of_nat p))]
   | IterateRange f t \<Rightarrow> map Visit (concat (map (me_elem E a) [f..<t])))"

definition do_task :: "MarkEnv \<Rightarrow> u64 \<Rightarrow> mark_item list res" where
  "do_task E t =
     (let a = unat (decode_oop t); vt = vtable_of E a; iter = vs_has_iterate_range (vt_varsize vt) in
      if decode_not_chunked t then
        if \<not> vt_is_varsize vt then visit_object E a
        else rbind (do_chunked_array_start iter (array_length (me_vtab E) (hp_memory (me_heap E)) a))
               (\<lambda>acts. Inr (concat (map (items_of_action E a) acts)))
      else rbind (do_chunked_array iter (unat (decode_chunk t)) (unat (decode_pow t)))
             (\<lambda>acts. Inr (concat (map (items_of_action E a) acts))))"

section \<open>The marking context\<close>

record MarkingContext =
  mc_bitmap :: HeapBitmap
  mc_injector :: "u64 list"
  mc_visit_count :: nat

text \<open>\<open>mark\<close>: one atomic test-and-set of the mark bit.\<close>

definition mc_mark :: "HeapBitmap \<Rightarrow> addr \<Rightarrow> bool \<times> HeapBitmap" where
  "mc_mark b a = (if check_bit b a then (False, b) else (True, set_bit b a))"

definition mc_visit :: "addr \<Rightarrow> MarkingContext \<Rightarrow> MarkingContext" where
  "mc_visit p c =
     (let a = p - 8; (new, b) = mc_mark (mc_bitmap c) a in
      if new then c\<lparr>mc_bitmap := b, mc_visit_count := mc_visit_count c + 1,
        mc_injector := mc_injector c @ [MarkTask_new (of_nat a) False False]\<rparr>
      else c)"

definition clear_bitmap_full :: "MarkingContext \<Rightarrow> MarkingContext" where
  "clear_bitmap_full c = c\<lparr>mc_bitmap := hb_clear (mc_bitmap c)\<rparr>"

text \<open>\<open>visit_conservative\<close>: every word that points into an object keeps the object alive.\<close>

fun mc_visit_conservative :: "Heap \<Rightarrow> addr list \<Rightarrow> MarkingContext \<Rightarrow> MarkingContext res" where
  "mc_visit_conservative h [] c = Inr c"
| "mc_visit_conservative h (p # ps) c =
     (if hp_is_in h p then
        rbind (object_start h p) (\<lambda>start.
          mc_visit_conservative h ps (case start of None \<Rightarrow> c | Some a \<Rightarrow> mc_visit (a + 8) c))
      else mc_visit_conservative h ps c)"

section \<open>Visitors\<close>

definition SEGMENT_SIZE :: nat where "SEGMENT_SIZE = 64"

datatype mark_pc =
    LoopTop | PopOwn | PopGlobal | StealOthers | Running "mark_item list" | TryTerminate | Sleeping | Terminated
  | Cancelled | Panicked panic

record SlotVisitor =
  sv_local :: "u64 list"
  sv_worker :: "u64 list"
  sv_marked :: nat
  sv_visit_count :: nat
  sv_work :: nat
  sv_pc :: mark_pc

definition SlotVisitor_new :: SlotVisitor where
  "SlotVisitor_new = \<lparr>sv_local = [], sv_worker = [], sv_marked = 0, sv_visit_count = 0, sv_work = 0, sv_pc = LoopTop\<rparr>"

text \<open>\<open>defensive_push\<close>: from time to time half of a large local segment goes to the injector.\<close>

definition defensive_push :: "SlotVisitor \<Rightarrow> u64 list \<Rightarrow> SlotVisitor \<times> u64 list" where
  "defensive_push v injector =
     (let v = v\<lparr>sv_marked := sv_marked v + 1\<rparr> in
      if sv_marked v > 256 then
        let (v, injector) =
              (if length (sv_local v) > 4
               then (v\<lparr>sv_local := take (length (sv_local v) div 2) (sv_local v)\<rparr>,
                     injector @ rev (drop (length (sv_local v) div 2) (sv_local v)))
               else (v, injector))
        in (v\<lparr>sv_marked := 0\<rparr>, injector)
      else (v, injector))"

definition sv_push :: "MarkEnv \<Rightarrow> u64 \<Rightarrow> SlotVisitor \<Rightarrow> u64 list \<Rightarrow> (SlotVisitor \<times> u64 list) res" where
  "sv_push E t v injector =
     (if \<not> hp_is_in (me_heap E) (unat (decode_oop t)) then Inl AssertFailed
      else let v = v\<lparr>sv_visit_count := sv_visit_count v + 1\<rparr> in
           if length (sv_local v) < SEGMENT_SIZE
           then Inr (defensive_push (v\<lparr>sv_local := sv_local v @ [t]\<rparr>) injector)
           else Inr (v\<lparr>sv_worker := sv_worker v @ [t]\<rparr>, injector))"

text \<open>\<open>pop_local\<close>, then \<open>pop_worker\<close> (the worker queue is LIFO).\<close>

definition pop_own :: "SlotVisitor \<Rightarrow> (u64 \<times> SlotVisitor) option" where
  "pop_own v =
     (if sv_local v \<noteq> [] then Some (last (sv_local v), v\<lparr>sv_local := butlast (sv_local v)\<rparr>)
      else if sv_worker v \<noteq> [] then Some (last (sv_worker v), v\<lparr>sv_worker := butlast (sv_worker v)\<rparr>)
      else None)"

definition run_task :: "MarkEnv \<Rightarrow> u64 \<Rightarrow> SlotVisitor \<Rightarrow> SlotVisitor" where
  "run_task E t v = (case do_task E t of Inl p \<Rightarrow> v\<lparr>sv_pc := Panicked p\<rparr> | Inr items \<Rightarrow> v\<lparr>sv_pc := Running items\<rparr>)"

text \<open>\<open>pop_global\<close> and \<open>steal\<close> take one task and move a batch of others to the own queue: \<open>steal_batch_and_pop\<close> of the
  queues may take any of them.\<close>

definition sv_pop_global :: "u64 list \<Rightarrow> u64 \<Rightarrow> u64 list \<Rightarrow> u64 list \<Rightarrow> bool" where
  "sv_pop_global injector t batch rest \<longleftrightarrow> mset injector = mset (t # batch @ rest)"

definition sv_steal :: "SlotVisitor \<Rightarrow> u64 \<Rightarrow> u64 list \<Rightarrow> u64 list \<Rightarrow> bool" where
  "sv_steal victim t batch rest \<longleftrightarrow> mset (sv_worker victim) = mset (t # batch @ rest)"

section \<open>The marking loop\<close>

text \<open>The terminator counts the workers that have not run out of work. \<open>zero_or_increase_workers\<close> takes effect at its
  successful exchange.\<close>

definition decrease_workers :: "nat \<Rightarrow> bool \<times> nat" where
  "decrease_workers n = (n = 1, n - 1)"

definition zero_or_increase_workers :: "nat \<Rightarrow> bool \<times> nat" where
  "zero_or_increase_workers n = (if n = 0 then (True, n) else (False, n + 1))"

record MarkState =
  ms_bitmap :: HeapBitmap
  ms_injector :: "u64 list"
  ms_visitors :: "SlotVisitor list"
  ms_nworkers :: nat
  ms_cancelled :: bool

definition put_visitor :: "MarkState \<Rightarrow> nat \<Rightarrow> SlotVisitor \<Rightarrow> MarkState" where
  "put_visitor s i v = s\<lparr>ms_visitors := (ms_visitors s)[i := v]\<rparr>"

text \<open>\<open>visit\<close>: an object that was not marked before is queued.\<close>

definition visit_item :: "addr \<Rightarrow> mark_item list \<Rightarrow> HeapBitmap \<Rightarrow> mark_item list \<times> HeapBitmap" where
  "visit_item p its b =
     (let a = p - 8; (new, b) = mc_mark b a in ((if new then [Push (MarkTask_new (of_nat a) False False)] else []) @ its, b))"

inductive mark_step :: "MarkEnv \<Rightarrow> MarkState \<Rightarrow> MarkState \<Rightarrow> bool" for E where
  loop_top: "i < length (ms_visitors s) \<Longrightarrow> v = ms_visitors s ! i \<Longrightarrow> sv_pc v = LoopTop \<Longrightarrow>
    mark_step E s (put_visitor s i (v\<lparr>sv_pc := PopOwn, sv_work := 0\<rparr>))"
| cancelled: "i < length (ms_visitors s) \<Longrightarrow> v = ms_visitors s ! i \<Longrightarrow> sv_pc v = LoopTop \<Longrightarrow> me_cancellable E \<Longrightarrow> ms_cancelled s \<Longrightarrow>
    mark_step E s (put_visitor s i (v\<lparr>sv_pc := Cancelled\<rparr>))"
| cancel: "mark_step E s (s\<lparr>ms_cancelled := True\<rparr>)"
| stride_done: "i < length (ms_visitors s) \<Longrightarrow> v = ms_visitors s ! i \<Longrightarrow> sv_pc v = PopOwn \<Longrightarrow> me_stride E \<le> sv_work v \<Longrightarrow>
    mark_step E s (put_visitor s i (v\<lparr>sv_pc := if sv_work v = 0 then TryTerminate else LoopTop\<rparr>))"
| pop_own: "i < length (ms_visitors s) \<Longrightarrow> v = ms_visitors s ! i \<Longrightarrow> sv_pc v = PopOwn \<Longrightarrow> sv_work v < me_stride E \<Longrightarrow>
    pop_own v = Some (t, v') \<Longrightarrow> mark_step E s (put_visitor s i (run_task E t v'))"
| own_empty: "i < length (ms_visitors s) \<Longrightarrow> v = ms_visitors s ! i \<Longrightarrow> sv_pc v = PopOwn \<Longrightarrow> sv_work v < me_stride E \<Longrightarrow>
    pop_own v = None \<Longrightarrow> mark_step E s (put_visitor s i (v\<lparr>sv_pc := PopGlobal\<rparr>))"
| pop_global: "i < length (ms_visitors s) \<Longrightarrow> v = ms_visitors s ! i \<Longrightarrow> sv_pc v = PopGlobal \<Longrightarrow>
    sv_pop_global (ms_injector s) t batch rest \<Longrightarrow>
    mark_step E s ((put_visitor s i (run_task E t (v\<lparr>sv_worker := sv_worker v @ batch\<rparr>)))\<lparr>ms_injector := rest\<rparr>)"
| global_empty: "i < length (ms_visitors s) \<Longrightarrow> v = ms_visitors s ! i \<Longrightarrow> sv_pc v = PopGlobal \<Longrightarrow> ms_injector s = [] \<Longrightarrow>
    mark_step E s (put_visitor s i (v\<lparr>sv_pc := StealOthers\<rparr>))"
| steal: "i < length (ms_visitors s) \<Longrightarrow> v = ms_visitors s ! i \<Longrightarrow> sv_pc v = StealOthers \<Longrightarrow> j < length (ms_visitors s) \<Longrightarrow> j \<noteq> i \<Longrightarrow>
    sv_steal (ms_visitors s ! j) t batch rest \<Longrightarrow>
    mark_step E s (put_visitor (put_visitor s j ((ms_visitors s ! j)\<lparr>sv_worker := rest\<rparr>)) i
      (run_task E t (v\<lparr>sv_worker := sv_worker v @ batch\<rparr>)))"
| steal_fails: "i < length (ms_visitors s) \<Longrightarrow> v = ms_visitors s ! i \<Longrightarrow> sv_pc v = StealOthers \<Longrightarrow>
    mark_step E s (put_visitor s i (v\<lparr>sv_pc := if sv_work v = 0 then TryTerminate else LoopTop\<rparr>))"
| visit: "i < length (ms_visitors s) \<Longrightarrow> v = ms_visitors s ! i \<Longrightarrow> sv_pc v = Running (Visit p # its) \<Longrightarrow>
    visit_item p its (ms_bitmap s) = (its', b) \<Longrightarrow>
    mark_step E s ((put_visitor s i (v\<lparr>sv_pc := Running its'\<rparr>))\<lparr>ms_bitmap := b\<rparr>)"
| push: "i < length (ms_visitors s) \<Longrightarrow> v = ms_visitors s ! i \<Longrightarrow> sv_pc v = Running (Push t # its) \<Longrightarrow>
    sv_push E t (v\<lparr>sv_pc := Running its\<rparr>) (ms_injector s) = Inr (v', q) \<Longrightarrow>
    mark_step E s ((put_visitor s i v')\<lparr>ms_injector := q\<rparr>)"
| push_panics: "i < length (ms_visitors s) \<Longrightarrow> v = ms_visitors s ! i \<Longrightarrow> sv_pc v = Running (Push t # its) \<Longrightarrow>
    sv_push E t (v\<lparr>sv_pc := Running its\<rparr>) (ms_injector s) = Inl e \<Longrightarrow>
    mark_step E s (put_visitor s i (v\<lparr>sv_pc := Panicked e\<rparr>))"
| task_done: "i < length (ms_visitors s) \<Longrightarrow> v = ms_visitors s ! i \<Longrightarrow> sv_pc v = Running [] \<Longrightarrow>
    mark_step E s (put_visitor s i (v\<lparr>sv_pc := PopOwn, sv_work := sv_work v + 1\<rparr>))"
| single_worker: "i < length (ms_visitors s) \<Longrightarrow> v = ms_visitors s ! i \<Longrightarrow> sv_pc v = TryTerminate \<Longrightarrow> length (ms_visitors s) = 1 \<Longrightarrow>
    mark_step E s (put_visitor s i (v\<lparr>sv_pc := Terminated\<rparr>))"
| decrease: "i < length (ms_visitors s) \<Longrightarrow> v = ms_visitors s ! i \<Longrightarrow> sv_pc v = TryTerminate \<Longrightarrow> length (ms_visitors s) \<noteq> 1 \<Longrightarrow>
    decrease_workers (ms_nworkers s) = (z, n) \<Longrightarrow>
    mark_step E s ((put_visitor s i (v\<lparr>sv_pc := if z then Terminated else Sleeping\<rparr>))\<lparr>ms_nworkers := n\<rparr>)"
| wake: "i < length (ms_visitors s) \<Longrightarrow> v = ms_visitors s ! i \<Longrightarrow> sv_pc v = Sleeping \<Longrightarrow>
    zero_or_increase_workers (ms_nworkers s) = (z, n) \<Longrightarrow>
    mark_step E s ((put_visitor s i (v\<lparr>sv_pc := if z then Terminated else LoopTop\<rparr>))\<lparr>ms_nworkers := n\<rparr>)"

text \<open>Visiting a list of pointers through the marking context, and the state in which the workers start.\<close>

definition visit_roots :: "addr list \<Rightarrow> MarkingContext \<Rightarrow> MarkingContext" where
  "visit_roots ps c = fold mc_visit ps c"

definition mark_start :: "nat \<Rightarrow> MarkingContext \<Rightarrow> MarkState" where
  "mark_start n c = \<lparr>ms_bitmap = mc_bitmap c, ms_injector = mc_injector c, ms_visitors = replicate n SlotVisitor_new,
     ms_nworkers = n, ms_cancelled = False\<rparr>"

section \<open>Reachability\<close>

text \<open>The pointers that marking an object visits.\<close>

definition elem_targets :: "MarkEnv \<Rightarrow> addr \<Rightarrow> nat set \<Rightarrow> addr set" where
  "elem_targets E a I = (\<Union>i \<in> I. set (me_elem E a i))"

definition iterates :: "MarkEnv \<Rightarrow> addr \<Rightarrow> bool" where
  "iterates E a \<longleftrightarrow> vt_is_varsize (vtable_of E a) \<and> vs_has_iterate_range (vt_varsize (vtable_of E a))"

definition obj_length :: "MarkEnv \<Rightarrow> addr \<Rightarrow> nat" where
  "obj_length E a = array_length (me_vtab E) (hp_memory (me_heap E)) a"

definition children :: "MarkEnv \<Rightarrow> addr \<Rightarrow> addr set" where
  "children E a =
     (if \<not> vt_is_varsize (vtable_of E a) \<and> hdr_no_heap_ptrs (hp_memory (me_heap E) a) then {} else set (me_trace E a)) \<union>
     (if iterates E a then elem_targets E a {..<obj_length E a} else {})"

inductive reachable :: "MarkEnv \<Rightarrow> addr set \<Rightarrow> addr \<Rightarrow> bool" for E R where
  root: "p \<in> R \<Longrightarrow> reachable E R (p - 8)"
| child: "reachable E R a \<Longrightarrow> p \<in> children E a \<Longrightarrow> reachable E R (p - 8)"

text \<open>A closed set of objects: aligned, inside the heap, small enough for the task encoding, with headers, and
  arrays of at most \<open>2 ^ 30\<close> elements.\<close>

definition obj_ok :: "MarkEnv \<Rightarrow> addr \<Rightarrow> bool" where
  "obj_ok E a \<longleftrightarrow> hp_is_in (me_heap E) a \<and> 16 dvd a - hp_mem_start (me_heap E) \<and> a < 2 ^ 49 \<and> 4 dvd a \<and>
     \<not> hdr_is_free (hp_memory (me_heap E) a) \<and> obj_length E a \<le> 2 ^ 30"

definition graph_ok :: "MarkEnv \<Rightarrow> addr set \<Rightarrow> addr set \<Rightarrow> bool" where
  "graph_ok E R Ob \<longleftrightarrow> (\<forall>a \<in> Ob. obj_ok E a \<and> (\<forall>p \<in> children E a. 8 \<le> p \<and> p - 8 \<in> Ob)) \<and> (\<forall>p \<in> R. 8 \<le> p \<and> p - 8 \<in> Ob)"

lemma reachable_in: "graph_ok E R Ob \<Longrightarrow> reachable E R a \<Longrightarrow> a \<in> Ob"
  by (erule reachable.induct) (auto simp: graph_ok_def)

section \<open>Tasks\<close>

definition task_targets :: "MarkEnv \<Rightarrow> u64 \<Rightarrow> addr set" where
  "task_targets E t = (let a = unat (decode_oop t) in
     if decode_not_chunked t then children E a
     else elem_targets E a (set_mset (act_cover (PushChunk (unat (decode_chunk t)) (unat (decode_pow t))))))"

text \<open>The tasks that occur: the object itself, or a chunk of an array.\<close>

definition task_for :: "MarkEnv \<Rightarrow> addr \<Rightarrow> u64 \<Rightarrow> bool" where
  "task_for E a t \<longleftrightarrow> t = MarkTask_new (of_nat a) False False \<or>
     (\<exists>c p. t = MarkTask_new2 (of_nat a) True False (of_nat c) (of_nat p) \<and> good_push (PushChunk c p) \<and> c * 2 ^ p \<le> obj_length E a \<and>
       iterates E a)"

definition item_ok :: "MarkEnv \<Rightarrow> addr \<Rightarrow> mark_item \<Rightarrow> bool" where
  "item_ok E a it \<longleftrightarrow> (case it of Visit p \<Rightarrow> p \<in> children E a | Push t \<Rightarrow> task_for E a t)"

definition item_targets :: "MarkEnv \<Rightarrow> mark_item \<Rightarrow> addr set" where
  "item_targets E it = (case it of Visit p \<Rightarrow> {p} | Push t \<Rightarrow> task_targets E t)"

lemma MarkTask_new_eq: "MarkTask_new a False False = MarkTask_new2 a False False 0 0"
  by (simp add: task_defs Let_def)

lemma unat_obj: "obj_ok E a \<Longrightarrow> unat (of_nat a :: u64) = a"
  by (simp add: obj_ok_def unat_of_nat take_bit_nat_eq_self)

lemma task_for_decode:
  assumes ok: "obj_ok E a" and t: "task_for E a t"
  obtains (obj) "unat (decode_oop t) = a" "decode_not_chunked t"
    | (chunk) c p where "unat (decode_oop t) = a" "\<not> decode_not_chunked t" "unat (decode_chunk t) = c" "unat (decode_pow t) = p"
        "good_push (PushChunk c p)" "c * 2 ^ p \<le> obj_length E a" "iterates E a"
proof -
  have a: "unat (of_nat a :: u64) < 2 ^ 49" "4 dvd unat (of_nat a :: u64)" "unat (of_nat a :: u64) = a"
    using ok unat_obj [OF ok] by (auto simp: obj_ok_def)
  consider "t = MarkTask_new (of_nat a) False False"
    | c p where "t = MarkTask_new2 (of_nat a) True False (of_nat c) (of_nat p)" "good_push (PushChunk c p)" "c * 2 ^ p \<le> obj_length E a" "iterates E a"
    using t by (auto simp: task_for_def)
  then show thesis
  proof cases
    case 1
    then have t: "t = MarkTask_new2 (of_nat a) False False 0 0" by (simp add: MarkTask_new_eq)
    note d = MarkTask_new2_decode [OF a(1,2), of 0 0 False False, folded t]
    show thesis using d a(3) by (intro obj) (simp_all add: decode_not_chunked_iff)
  next
    case 2
    have u: "unat (of_nat c :: u64) = c" "unat (of_nat p :: u64) = p" "c < 1024" "p < 32"
      using 2(2) by (auto simp: good_push_def unat_of_nat take_bit_nat_eq_self)
    have oop: "decode_oop t = of_nat a" unfolding 2(1) by (rule MarkTask_new2_decode(1) [OF a(1,2)]) (use u in simp_all)
    note d = good_task_decode [OF a(1,2) 2(2), folded 2(1)]
    have "decode_chunk t \<noteq> 0" using d(1) 2(2) by (auto simp: good_push_def)
    then have "\<not> decode_not_chunked t" by (simp add: decode_not_chunked_iff)
    then show thesis using chunk [OF _ _ d 2(2-4)] oop a(3) by simp
  qed
qed

lemma act_cover_sub: "act \<in> set acts \<Longrightarrow> set_mset (act_cover act) \<subseteq> set_mset (acts_cover acts)"
  by (induction acts) auto

lemma acts_cover_set: "set_mset (acts_cover acts) = (\<Union>act \<in> set acts. set_mset (act_cover act))"
  by (induction acts) auto

lemma set_ival [simp]: "set_mset (ival a b) = {a..<b}"
  by (simp add: ival_def)

lemma interval_end: "x < y \<Longrightarrow> {x..<y} \<subseteq> {..<n} \<Longrightarrow> y \<le> (n :: nat)"
  using subsetD [of "{x..<y}" "{..<n}" "y - 1"] by fastforce

text \<open>The items of the actions, when the actions together cover the indices \<open>I\<close> of the array.\<close>

lemma action_items:
  assumes ok: "obj_ok E a" and it: "iterates E a" and g: "list_all good_push acts"
    and I: "set_mset (acts_cover acts) = I" "I \<subseteq> {..<obj_length E a}"
  shows "\<forall>x \<in> set (concat (map (items_of_action E a) acts)). item_ok E a x"
    "elem_targets E a I \<subseteq> (\<Union>x \<in> set (concat (map (items_of_action E a) acts)). item_targets E x)"
proof -
  have c: "set_mset (act_cover act) \<subseteq> {..<obj_length E a}" if "act \<in> set acts" for act
    using act_cover_sub [OF that] I by blast
  have tf: "task_for E a (MarkTask_new2 (of_nat a) True False (of_nat k) (of_nat p))" if "PushChunk k p \<in> set acts" for k p
  proof -
    have gp: "good_push (PushChunk k p)" using g that by (auto simp: list_all_iff)
    then have "(k - 1) * 2 ^ p < k * 2 ^ p" by (auto simp: good_push_def)
    moreover have "{(k - 1) * 2 ^ p..<k * 2 ^ p} \<subseteq> {..<obj_length E a}" using c [OF that] by (simp add: act_cover_def)
    ultimately have "k * 2 ^ p \<le> obj_length E a" by (rule interval_end)
    then show ?thesis using gp it by (auto simp: task_for_def)
  qed
  have v: "item_ok E a x" if "act \<in> set acts" "x \<in> set (items_of_action E a act)" for act x
  proof (cases act)
    case TraceFixed
    then show ?thesis using that it by (auto simp: items_of_action_def item_ok_def children_def iterates_def)
  next
    case (PushChunk k p)
    then show ?thesis using that tf by (auto simp: items_of_action_def item_ok_def)
  next
    case (IterateRange f t)
    then have "{f..<t} \<subseteq> {..<obj_length E a}" using c [OF that(1)] by (simp add: act_cover_def)
    then show ?thesis using that it IterateRange by (force simp: items_of_action_def item_ok_def children_def elem_targets_def)
  qed
  then show "\<forall>x \<in> set (concat (map (items_of_action E a) acts)). item_ok E a x" by auto
  have t: "elem_targets E a (set_mset (act_cover act)) \<subseteq> (\<Union>x \<in> set (items_of_action E a act). item_targets E x)" if act: "act \<in> set acts" for act
  proof (cases act)
    case (PushChunk k p)
    have gp: "good_push (PushChunk k p)" using g that PushChunk by (auto simp: list_all_iff)
    let ?t = "MarkTask_new2 (of_nat a) True False (of_nat k) (of_nat p)"
    have "unat (of_nat a :: u64) < 2 ^ 49" "4 dvd unat (of_nat a :: u64)" using ok unat_obj [OF ok] by (auto simp: obj_ok_def)
    from good_task_decode [OF this gp] have d: "unat (decode_chunk ?t) = k" "unat (decode_pow ?t) = p" .
    then have nc: "\<not> decode_not_chunked ?t" using gp by (auto simp: decode_not_chunked_iff good_push_def)
    have oop: "unat (decode_oop ?t) = a" by (rule task_for_decode [OF ok tf]) (use act PushChunk in auto)
    show ?thesis using nc oop d unfolding PushChunk
      by (simp add: items_of_action_def item_targets_def task_targets_def Let_def)
  next
    case (IterateRange f t)
    then show ?thesis by (force simp: act_cover_def elem_targets_def items_of_action_def item_targets_def)
  qed (simp add: act_cover_def elem_targets_def)
  show "elem_targets E a I \<subseteq> (\<Union>x \<in> set (concat (map (items_of_action E a) acts)). item_targets E x)"
  proof
    fix p assume "p \<in> elem_targets E a I"
    then obtain i where "i \<in> I" "p \<in> set (me_elem E a i)" by (auto simp: elem_targets_def)
    then obtain act where "act \<in> set acts" "i \<in> set_mset (act_cover act)" using I(1) unfolding acts_cover_set by auto
    then have "p \<in> elem_targets E a (set_mset (act_cover act))" using \<open>p \<in> set (me_elem E a i)\<close> by (auto simp: elem_targets_def)
    then show "p \<in> (\<Union>x \<in> set (concat (map (items_of_action E a) acts)). item_targets E x)"
      using t [OF \<open>act \<in> set acts\<close>] \<open>act \<in> set acts\<close> by (simp, blast)
  qed
qed

lemma start_traces: "do_chunked_array_start b len = Inr acts \<Longrightarrow> TraceFixed \<in> set acts \<and> (\<not> b \<longrightarrow> acts = [TraceFixed])"
  by (auto simp: do_chunked_array_start_def Let_def split: if_splits prod.splits)

lemma do_task_ok:
  assumes ok: "obj_ok E a" and t: "task_for E a t"
  obtains items where "do_task E t = Inr items" "\<forall>x \<in> set items. item_ok E a x" "task_targets E t \<subseteq> (\<Union>x \<in> set items. item_targets E x)"
proof (rule task_for_decode [OF ok t], goal_cases)
  case obj: 1
  let ?vt = "vtable_of E a" and ?len = "obj_length E a"
  show ?case
  proof (cases "vt_is_varsize ?vt")
    case False
    then have "do_task E t = visit_object E a" using obj by (simp add: do_task_def Let_def)
    moreover have "\<not> hdr_is_free (hp_memory (me_heap E) a)" using ok by (simp add: obj_ok_def)
    ultimately show ?thesis using False obj
      by (intro that [of "if hdr_no_heap_ptrs (hp_memory (me_heap E) a) then [] else map Visit (me_trace E a)"])
        (auto simp: visit_object_def item_ok_def item_targets_def task_targets_def children_def iterates_def Let_def)
  next
    case vs: True
    show ?thesis
    proof (cases "iterates E a")
      case True
      then have r: "vs_has_iterate_range (vt_varsize ?vt)" by (simp add: iterates_def)
      have "?len \<le> 2 ^ 30" using ok by (simp add: obj_ok_def)
      from do_chunked_array_start_cover [OF this] obtain acts where
        a: "do_chunked_array_start True ?len = Inr acts" "list_all good_push acts" "acts_cover acts = ival 0 ?len" by blast
      have I: "set_mset (acts_cover acts) = {0..<?len}" "{0..<?len} \<subseteq> {..<?len}" using a(3) by auto
      note ai = action_items [OF ok True a(2) I]
      let ?items = "concat (map (items_of_action E a) acts)"
      have tr: "set (me_trace E a) \<subseteq> (\<Union>x \<in> set ?items. item_targets E x)"
        using start_traces [OF a(1)] by (force simp: items_of_action_def item_targets_def)
      have "do_task E t = Inr ?items" using obj vs a(1) r by (simp add: do_task_def Let_def obj_length_def)
      moreover have "task_targets E t = set (me_trace E a) \<union> elem_targets E a {0..<?len}"
        using obj vs True by (simp add: task_targets_def children_def Let_def lessThan_atLeast0)
      ultimately show ?thesis using that [OF _ ai(1)] Un_least [OF tr ai(2)] by simp
    next
      case False
      then have r: "\<not> vs_has_iterate_range (vt_varsize ?vt)" using vs by (simp add: iterates_def)
      have "do_task E t = Inr (map Visit (me_trace E a))"
        using obj vs r by (simp add: do_task_def Let_def do_chunked_array_start_def items_of_action_def)
      then show ?thesis using obj vs False
        by (intro that [of "map Visit (me_trace E a)"]) (auto simp: item_ok_def item_targets_def task_targets_def children_def Let_def)
    qed
  qed
next
  case chunk: (2 c p)
  then have r: "vs_has_iterate_range (vt_varsize (vtable_of E a))" by (simp add: iterates_def)
  obtain acts where a: "do_chunked_array True c p = Inr acts" "list_all good_push acts" "acts_cover acts = act_cover (PushChunk c p)"
    by (rule do_chunked_array_ok [OF chunk(6)])
  have I: "set_mset (acts_cover acts) = {(c - 1) * 2 ^ p..<c * 2 ^ p}" "{(c - 1) * 2 ^ p..<c * 2 ^ p} \<subseteq> {..<obj_length E a}"
    using a(3) chunk(7) by (auto simp: act_cover_def)
  note ai = action_items [OF ok chunk(8) a(2) I]
  have "do_task E t = Inr (concat (map (items_of_action E a) acts))"
    using chunk r a(1) by (simp add: do_task_def Let_def)
  moreover have "task_targets E t = elem_targets E a {(c - 1) * 2 ^ p..<c * 2 ^ p}"
    using chunk by (simp add: task_targets_def act_cover_def Let_def)
  ultimately show ?case using that [OF _ ai(1)] ai(2) by simp
qed

section \<open>The colour invariant\<close>

text \<open>\<open>M\<close> are the marked objects, \<open>T\<close> the pending tasks, \<open>V\<close> the pending visits: every pointer of a marked object leads
  to a marked object or is still to be visited.\<close>

definition good_task_of :: "MarkEnv \<Rightarrow> addr set \<Rightarrow> addr set \<Rightarrow> u64 \<Rightarrow> bool" where
  "good_task_of E R M t \<longleftrightarrow> (\<exists>a \<in> M. task_for E a t)"

definition pending :: "MarkEnv \<Rightarrow> u64 set \<Rightarrow> addr set \<Rightarrow> addr set" where
  "pending E T V = V \<union> (\<Union>t \<in> T. task_targets E t)"

definition colour_inv :: "MarkEnv \<Rightarrow> addr set \<Rightarrow> addr set \<Rightarrow> u64 set \<Rightarrow> addr set \<Rightarrow> bool" where
  "colour_inv E R M T V \<longleftrightarrow> (\<forall>a \<in> M. reachable E R a) \<and> (\<forall>t \<in> T. good_task_of E R M t) \<and>
     (\<forall>p \<in> V. 8 \<le> p \<and> reachable E R (p - 8)) \<and> (\<forall>p \<in> R. p - 8 \<in> M \<or> p \<in> V) \<and>
     (\<forall>a \<in> M. \<forall>p \<in> children E a. p - 8 \<in> M \<or> p \<in> pending E T V)"

lemma colour_invD:
  assumes "colour_inv E R M T V"
  shows "a \<in> M \<Longrightarrow> reachable E R a" "t \<in> T \<Longrightarrow> \<exists>a \<in> M. task_for E a t" "p \<in> V \<Longrightarrow> 8 \<le> p \<and> reachable E R (p - 8)"
    "p \<in> R \<Longrightarrow> p - 8 \<in> M \<or> p \<in> V" "a \<in> M \<Longrightarrow> p \<in> children E a \<Longrightarrow> p - 8 \<in> M \<or> p \<in> pending E T V"
  using assms by (auto simp: colour_inv_def good_task_of_def)

definition items_visits :: "mark_item list \<Rightarrow> addr set" where
  "items_visits its = {p. Visit p \<in> set its}"

definition items_tasks :: "mark_item list \<Rightarrow> u64 set" where
  "items_tasks its = {t. Push t \<in> set its}"

lemma items_simps [simp]:
  "items_visits [] = {}" "items_tasks [] = {}" "items_visits (Visit p # its) = insert p (items_visits its)"
  "items_visits (Push t # its) = items_visits its" "items_tasks (Visit p # its) = items_tasks its"
  "items_tasks (Push t # its) = insert t (items_tasks its)"
  by (auto simp: items_visits_def items_tasks_def)

text \<open>Starting a task replaces it by its items.\<close>

lemma colour_run:
  assumes g: "graph_ok E R Ob" and inv: "colour_inv E R M (insert t T) V" and d: "do_task E t = Inr its"
  shows "colour_inv E R M (T \<union> items_tasks its) (V \<union> items_visits its)"
proof -
  note D = colour_invD [OF inv]
  obtain a where a: "a \<in> M" "task_for E a t" using D(2) [of t] by auto
  have "obj_ok E a" "\<forall>p \<in> children E a. 8 \<le> p" using g reachable_in [OF g D(1) [OF a(1)]] by (auto simp: graph_ok_def)
  from do_task_ok [OF this(1) a(2)] d
  have it: "\<forall>x \<in> set its. item_ok E a x" "task_targets E t \<subseteq> (\<Union>x \<in> set its. item_targets E x)" by auto
  have v: "p \<in> children E a" if "p \<in> items_visits its" for p
    using bspec [OF it(1), of "Visit p"] that by (simp add: items_visits_def item_ok_def)
  have tk: "task_for E a u" if "u \<in> items_tasks its" for u
    using bspec [OF it(1), of "Push u"] that by (simp add: items_tasks_def item_ok_def)
  have "(\<Union>x \<in> set its. item_targets E x) \<subseteq> pending E (T \<union> items_tasks its) (V \<union> items_visits its)"
  proof
    fix p assume "p \<in> (\<Union>x \<in> set its. item_targets E x)"
    then obtain x where "x \<in> set its" "p \<in> item_targets E x" by blast
    then show "p \<in> pending E (T \<union> items_tasks its) (V \<union> items_visits its)"
      by (rule_tac mark_item.exhaust [of x]) (auto simp: pending_def item_targets_def items_tasks_def items_visits_def)
  qed
  then have "pending E (insert t T) V \<subseteq> pending E (T \<union> items_tasks its) (V \<union> items_visits its)"
    using order_trans [OF it(2)] by (simp add: pending_def) blast
  then have "\<forall>b \<in> M. \<forall>p \<in> children E b. p - 8 \<in> M \<or> p \<in> pending E (T \<union> items_tasks its) (V \<union> items_visits its)"
    using D(5) by blast
  moreover have "\<forall>u \<in> T \<union> items_tasks its. good_task_of E R M u" using D(2) tk a(1) by (auto simp: good_task_of_def)
  moreover have "8 \<le> p \<and> reachable E R (p - 8)" if "p \<in> V \<union> items_visits its" for p
    using that D(3) v \<open>\<forall>p \<in> children E a. 8 \<le> p\<close> reachable.child [OF D(1) [OF a(1)], of p] by auto
  moreover have "\<forall>p \<in> R. p - 8 \<in> M \<or> p \<in> V \<union> items_visits its" using D(4) by blast
  ultimately show ?thesis unfolding colour_inv_def using D(1) by blast
qed

lemma colour_seen:
  assumes "colour_inv E R M T (insert p V)" "p - 8 \<in> M"
  shows "colour_inv E R M T V"
proof -
  note D = colour_invD [OF assms(1)]
  have "q - 8 \<in> M \<or> q \<in> pending E T V" if "a \<in> M" "q \<in> children E a" for a q
    using D(5) [OF that] assms(2) by (auto simp: pending_def)
  moreover have "\<forall>q \<in> R. q - 8 \<in> M \<or> q \<in> V" using D(4) assms(2) by blast
  ultimately show ?thesis using assms(1) unfolding colour_inv_def by blast
qed

lemma colour_mark:
  assumes g: "graph_ok E R Ob" and inv: "colour_inv E R M T (insert p V)"
  shows "colour_inv E R (insert (p - 8) M) (insert (MarkTask_new (of_nat (p - 8)) False False) T) V"
proof -
  note D = colour_invD [OF inv]
  let ?t = "MarkTask_new (of_nat (p - 8)) False False"
  have r: "reachable E R (p - 8)" using D(3) [of p] by simp
  have ok: "obj_ok E (p - 8)" using g reachable_in [OF g r] by (auto simp: graph_ok_def)
  have tf: "task_for E (p - 8) ?t" by (simp add: task_for_def)
  have "decode_not_chunked ?t \<and> unat (decode_oop ?t) = p - 8"
  proof -
    have "MarkTask_new2 (of_nat (p - 8)) False False 0 0 = ?t" by (simp add: MarkTask_new_eq)
    moreover have "unat (of_nat (p - 8) :: u64) < 2 ^ 49" "4 dvd unat (of_nat (p - 8) :: u64)" using ok unat_obj [OF ok] by (auto simp: obj_ok_def)
    ultimately show ?thesis using MarkTask_new2_decode [of "of_nat (p - 8)" 0 0 False False] unat_obj [OF ok]
      by (simp add: decode_not_chunked_iff)
  qed
  then have tt: "task_targets E ?t = children E (p - 8)" by (simp add: task_targets_def)
  have "q - 8 \<in> insert (p - 8) M \<or> q \<in> pending E (insert ?t T) V" if "a \<in> insert (p - 8) M" "q \<in> children E a" for a q
  proof (cases "a = p - 8")
    case True
    then show ?thesis using that(2) tt by (auto simp: pending_def)
  next
    case False
    then have "q - 8 \<in> M \<or> q \<in> pending E T (insert p V)" using that D(5) by blast
    then show ?thesis by (auto simp: pending_def)
  qed
  moreover have "\<forall>u \<in> insert ?t T. good_task_of E R (insert (p - 8) M) u" using D(2) tf by (auto simp: good_task_of_def)
  moreover have "\<forall>a \<in> insert (p - 8) M. reachable E R a" using D(1) r by blast
  moreover have "\<forall>q \<in> V. 8 \<le> q \<and> reachable E R (q - 8)" using D(3) by blast
  moreover have "\<forall>q \<in> R. q - 8 \<in> insert (p - 8) M \<or> q \<in> V" using D(4) by blast
  ultimately show ?thesis unfolding colour_inv_def by blast
qed

text \<open>When nothing is pending, exactly the reachable objects are marked.\<close>

lemma colour_done:
  assumes "colour_inv E R M {} {}"
  shows "a \<in> M \<longleftrightarrow> reachable E R a"
proof
  assume "reachable E R a"
  then show "a \<in> M"
    by induction (use colour_invD(4,5) [OF assms] in \<open>auto simp: pending_def\<close>)
qed (rule colour_invD(1) [OF assms])

section \<open>The state of the workers\<close>

definition pc_items :: "SlotVisitor \<Rightarrow> mark_item list" where
  "pc_items v = (case sv_pc v of Running its \<Rightarrow> its | _ \<Rightarrow> [])"

definition visitor_tasks :: "SlotVisitor \<Rightarrow> u64 set" where
  "visitor_tasks v = set (sv_local v) \<union> set (sv_worker v) \<union> items_tasks (pc_items v)"

definition all_tasks :: "MarkState \<Rightarrow> u64 set" where
  "all_tasks s = set (ms_injector s) \<union> (\<Union>j \<in> {..<length (ms_visitors s)}. visitor_tasks (ms_visitors s ! j))"

definition all_visits :: "MarkState \<Rightarrow> addr set" where
  "all_visits s = (\<Union>j \<in> {..<length (ms_visitors s)}. items_visits (pc_items (ms_visitors s ! j)))"

definition heap_aligned :: "MarkEnv \<Rightarrow> addr \<Rightarrow> bool" where
  "heap_aligned E a \<longleftrightarrow> hp_is_in (me_heap E) a \<and> 16 dvd a - hp_mem_start (me_heap E)"

definition marked_set :: "MarkEnv \<Rightarrow> HeapBitmap \<Rightarrow> addr set" where
  "marked_set E b = {a. heap_aligned E a \<and> check_bit b a}"

lemma graph_ok_aligned: "graph_ok E R Ob \<Longrightarrow> a \<in> Ob \<Longrightarrow> heap_aligned E a"
  by (auto simp: graph_ok_def obj_ok_def hp_is_in_def heap_aligned_def)

lemma Union_update:
  assumes "i < length xs"
  shows "(\<Union>j \<in> {..<length xs}. f (xs[i := v] ! j)) = f v \<union> (\<Union>j \<in> {..<length xs} - {i}. f (xs ! j))"
    "(\<Union>j \<in> {..<length xs}. f (xs ! j)) = f (xs ! i) \<union> (\<Union>j \<in> {..<length xs} - {i}. f (xs ! j))"
  using assms by (auto simp: nth_list_update split: if_splits)

text \<open>What the other workers hold.\<close>

definition rest_tasks :: "MarkState \<Rightarrow> nat \<Rightarrow> u64 set" where
  "rest_tasks s i = (\<Union>j \<in> {..<length (ms_visitors s)} - {i}. visitor_tasks (ms_visitors s ! j))"

definition rest_visits :: "MarkState \<Rightarrow> nat \<Rightarrow> addr set" where
  "rest_visits s i = (\<Union>j \<in> {..<length (ms_visitors s)} - {i}. items_visits (pc_items (ms_visitors s ! j)))"

lemma put_visitor_simps [simp]:
  "ms_bitmap (put_visitor s i v) = ms_bitmap s" "ms_injector (put_visitor s i v) = ms_injector s"
  "ms_nworkers (put_visitor s i v) = ms_nworkers s" "ms_visitors (put_visitor s i v) = (ms_visitors s)[i := v]"
  by (simp_all add: put_visitor_def)

lemma tasks_split:
  assumes "i < length (ms_visitors s)"
  shows "all_tasks s = set (ms_injector s) \<union> visitor_tasks (ms_visitors s ! i) \<union> rest_tasks s i"
    "all_visits s = items_visits (pc_items (ms_visitors s ! i)) \<union> rest_visits s i"
    "ms_visitors s' = (ms_visitors s)[i := v] \<Longrightarrow> all_tasks s' = set (ms_injector s') \<union> visitor_tasks v \<union> rest_tasks s i"
    "ms_visitors s' = (ms_visitors s)[i := v] \<Longrightarrow> all_visits s' = items_visits (pc_items v) \<union> rest_visits s i"
  using Union_update(1) [OF assms, of visitor_tasks v] Union_update(1) [OF assms, of "\<lambda>v. items_visits (pc_items v)" v]
    Union_update(2) [OF assms, of visitor_tasks] Union_update(2) [OF assms, of "\<lambda>v. items_visits (pc_items v)"]
  by (simp_all add: all_tasks_def all_visits_def rest_tasks_def rest_visits_def Un_assoc)

definition colour_state :: "MarkEnv \<Rightarrow> addr set \<Rightarrow> addr set \<Rightarrow> MarkState \<Rightarrow> bool" where
  "colour_state E R Ob s \<longleftrightarrow> hb_offset (ms_bitmap s) = hp_mem_start (me_heap E) \<and>
     colour_inv E R (marked_set E (ms_bitmap s)) (all_tasks s) (all_visits s)"

text \<open>Marking one object.\<close>

lemma marked_set_bit:
  assumes g: "graph_ok E R Ob" and b: "hb_offset b = hp_mem_start (me_heap E)" and a: "a \<in> Ob"
  shows "marked_set E (set_bit b a) = insert a (marked_set E b)"
proof -
  have al: "hb_offset b \<le> x \<and> 16 dvd x - hb_offset b" if "heap_aligned E x" for x
    using that b by (simp add: heap_aligned_def hp_is_in_def)
  have a: "heap_aligned E a" by (rule graph_ok_aligned [OF g a])
  have "check_bit (set_bit b a) x \<longleftrightarrow> x = a \<or> check_bit b x" if x: "heap_aligned E x" for x
  proof -
    have "bit_number b x = bit_number b a \<longleftrightarrow> x = a"
      using al [OF x] al [OF a] by (auto simp: bit_number_def elim!: dvdE)
    moreover have "bit_number (set_bit b a) x = bit_number b x" by (simp add: bit_number_def)
    ultimately show ?thesis using al [OF x] al [OF a] by (simp add: check_bit_eq hb_bit_set_bit)
  qed
  then show ?thesis using a by (auto simp: marked_set_def)
qed

lemma pop_own_tasks:
  assumes "pop_own v = Some (t, v')"
  shows "set (sv_local v) \<union> set (sv_worker v) = insert t (set (sv_local v') \<union> set (sv_worker v'))" "sv_pc v' = sv_pc v"
proof -
  have "set xs = insert (last xs) (set (butlast xs))" if "xs \<noteq> []" for xs :: "u64 list"
    using append_butlast_last_id [OF that] set_append [of "butlast xs" "[last xs]"] by simp
  then show "set (sv_local v) \<union> set (sv_worker v) = insert t (set (sv_local v') \<union> set (sv_worker v'))" "sv_pc v' = sv_pc v"
    using assms by (auto simp: pop_own_def split: if_splits)
qed

lemma defensive_push_tasks:
  assumes "defensive_push v q = (v', q')"
  shows "set (sv_local v') \<union> set q' = set (sv_local v) \<union> set q" "sv_worker v' = sv_worker v" "sv_pc v' = sv_pc v"
    "sv_local v' = [] \<Longrightarrow> sv_local v = []"
proof -
  let ?k = "length (sv_local v) div 2"
  have e: "set (sv_local v) = set (take ?k (sv_local v)) \<union> set (drop ?k (sv_local v))"
    using set_append [of "take ?k (sv_local v)" "drop ?k (sv_local v)"] by simp
  show "set (sv_local v') \<union> set q' = set (sv_local v) \<union> set q"
  proof (cases "sv_marked v + 1 > 256 \<and> length (sv_local v) > 4")
    case True
    then have "sv_local v' = take ?k (sv_local v)" "q' = q @ rev (drop ?k (sv_local v))"
      using assms by (auto simp: defensive_push_def Let_def)
    then show ?thesis using e by auto
  next
    case False
    then have "sv_local v' = sv_local v" "q' = q" using assms by (auto simp: defensive_push_def Let_def split: if_splits)
    then show ?thesis by simp
  qed
  show "sv_worker v' = sv_worker v" "sv_pc v' = sv_pc v" "sv_local v' = [] \<Longrightarrow> sv_local v = []"
    using assms by (auto simp: defensive_push_def Let_def split: if_splits)
qed

lemma sv_push_tasks:
  assumes "sv_push E t v q = Inr (v', q')"
  shows "set (sv_local v') \<union> set (sv_worker v') \<union> set q' = insert t (set (sv_local v) \<union> set (sv_worker v) \<union> set q)" "sv_pc v' = sv_pc v"
proof -
  let ?v = "v\<lparr>sv_visit_count := sv_visit_count v + 1\<rparr>"
  show "set (sv_local v') \<union> set (sv_worker v') \<union> set q' = insert t (set (sv_local v) \<union> set (sv_worker v) \<union> set q)"
    using assms defensive_push_tasks(1,2) [of "?v\<lparr>sv_local := sv_local v @ [t]\<rparr>" q v' q']
    by (auto simp: sv_push_def Let_def split: if_splits)
  show "sv_pc v' = sv_pc v"
    using assms defensive_push_tasks(3) [of "?v\<lparr>sv_local := sv_local v @ [t]\<rparr>" q v' q']
    by (auto simp: sv_push_def Let_def split: if_splits)
qed

inductive_cases mark_stepE: "mark_step E s s'"

definition no_panic :: "MarkState \<Rightarrow> bool" where
  "no_panic s \<longleftrightarrow> (\<forall>v \<in> set (ms_visitors s). \<forall>e. sv_pc v \<noteq> Panicked e)"

lemma no_panic_put:
  assumes "no_panic s" "ms_visitors s' = (ms_visitors s)[i := v]" "\<forall>e. sv_pc v \<noteq> Panicked e"
  shows "no_panic s'"
  using assms set_update_subset_insert [of "ms_visitors s" i v] by (auto simp: no_panic_def)

lemma colour_pc:
  assumes inv: "colour_state E R Ob s" and i: "i < length (ms_visitors s)"
    and v: "sv_local v = sv_local (ms_visitors s ! i)" "sv_worker v = sv_worker (ms_visitors s ! i)" "pc_items v = pc_items (ms_visitors s ! i)"
    and s': "ms_visitors s' = (ms_visitors s)[i := v]" "ms_bitmap s' = ms_bitmap s" "ms_injector s' = ms_injector s"
  shows "colour_state E R Ob s'"
proof -
  have "all_tasks s' = all_tasks s" "all_visits s' = all_visits s"
    using tasks_split(1,2) [OF i] tasks_split(3,4) [OF i s'(1)] v s'(3) by (simp_all add: visitor_tasks_def)
  then show ?thesis using inv s'(2) by (simp add: colour_state_def)
qed

text \<open>A task that leaves the queues is replaced by its items.\<close>

lemma colour_take:
  assumes g: "graph_ok E R Ob" and inv: "colour_state E R Ob s" and T: "all_tasks s = insert t T"
    and s': "all_tasks s' = T \<union> items_tasks (pc_items (run_task E t v))" "all_visits s' = all_visits s \<union> items_visits (pc_items (run_task E t v))"
      "ms_bitmap s' = ms_bitmap s"
  shows "colour_state E R Ob s' \<and> (\<forall>e. sv_pc (run_task E t v) \<noteq> Panicked e)"
proof -
  have ci: "colour_inv E R (marked_set E (ms_bitmap s)) (insert t T) (all_visits s)" using inv T by (simp add: colour_state_def)
  note D = colour_invD [OF ci]
  obtain a where a: "a \<in> marked_set E (ms_bitmap s)" "task_for E a t" using D(2) [of t] by auto
  have "obj_ok E a" using g reachable_in [OF g D(1) [OF a(1)]] by (auto simp: graph_ok_def)
  then obtain its where its: "do_task E t = Inr its" by (rule do_task_ok [OF _ a(2)])
  then have r: "run_task E t v = v\<lparr>sv_pc := Running its\<rparr>" by (simp add: run_task_def)
  from colour_run [OF g ci its] show ?thesis
    using inv s' r by (simp add: colour_state_def pc_items_def)
qed

lemma run_task_fields [simp]:
  "sv_local (run_task E t v) = sv_local v" "sv_worker (run_task E t v) = sv_worker v" "sv_work (run_task E t v) = sv_work v"
  by (simp_all add: run_task_def split: sum.split)

lemma pc_items_simps [simp]:
  "sv_pc v = Running its \<Longrightarrow> pc_items v = its" "sv_pc v \<in> {LoopTop, PopOwn, PopGlobal, StealOthers, TryTerminate, Sleeping, Terminated, Cancelled} \<Longrightarrow> pc_items v = []"
  by (auto simp: pc_items_def)

lemma colour_visit:
  assumes g: "graph_ok E R Ob" and inv: "colour_state E R Ob s" and i: "i < length (ms_visitors s)" and v: "v = ms_visitors s ! i"
    and pc: "sv_pc v = Running (Visit p # its)" and vi: "visit_item p its (ms_bitmap s) = (its', b)"
    and s': "s' = (put_visitor s i (v\<lparr>sv_pc := Running its'\<rparr>))\<lparr>ms_bitmap := b\<rparr>"
  shows "colour_state E R Ob s'"
proof -
  let ?M = "marked_set E (ms_bitmap s)" and ?V = "items_visits its \<union> rest_visits s i"
  let ?T = "set (ms_injector s) \<union> (set (sv_local v) \<union> set (sv_worker v) \<union> items_tasks its) \<union> rest_tasks s i"
  let ?t = "MarkTask_new (of_nat (p - 8)) False False"
  have off: "hb_offset (ms_bitmap s) = hp_mem_start (me_heap E)" using inv by (simp add: colour_state_def)
  have "all_tasks s = ?T" "all_visits s = insert p ?V"
    using tasks_split(1,2) [OF i] pc v by (simp_all add: visitor_tasks_def)
  then have ci: "colour_inv E R ?M ?T (insert p ?V)" using inv by (simp add: colour_state_def)
  have vs: "ms_visitors s' = (ms_visitors s)[i := v\<lparr>sv_pc := Running its'\<rparr>]" by (simp add: s')
  have T': "all_tasks s' = set (ms_injector s) \<union> (set (sv_local v) \<union> set (sv_worker v) \<union> items_tasks its') \<union> rest_tasks s i"
    "all_visits s' = items_visits its' \<union> rest_visits s i" "ms_bitmap s' = b"
    using tasks_split(3,4) [OF i vs] by (simp_all add: s' visitor_tasks_def)
  have ob: "p - 8 \<in> Ob" using colour_invD(3) [OF ci, of p] reachable_in [OF g] by simp
  show ?thesis
  proof (cases "check_bit (ms_bitmap s) (p - 8)")
    case True
    then have "its' = its" "b = ms_bitmap s" using vi by (simp_all add: visit_item_def mc_mark_def Let_def)
    moreover have "p - 8 \<in> ?M" using True graph_ok_aligned [OF g ob] by (simp add: marked_set_def)
    ultimately show ?thesis using colour_seen [OF ci] T' off by (simp add: colour_state_def)
  next
    case False
    then have e: "its' = Push ?t # its" "b = set_bit (ms_bitmap s) (p - 8)" using vi by (auto simp: visit_item_def mc_mark_def Let_def)
    have "all_tasks s' = insert ?t ?T" using T'(1) by (auto simp: e(1))
    then show ?thesis
      using colour_mark [OF g ci] marked_set_bit [OF g off ob] T'(2,3) off unfolding colour_state_def e(2) by (simp add: e(1))
  qed
qed

lemma colour_push:
  assumes g: "graph_ok E R Ob" and inv: "colour_state E R Ob s" and i: "i < length (ms_visitors s)" and v: "v = ms_visitors s ! i"
    and pc: "sv_pc v = Running (Push t # its)"
  obtains v' q where "sv_push E t (v\<lparr>sv_pc := Running its\<rparr>) (ms_injector s) = Inr (v', q)" "sv_pc v' = Running its"
    "colour_state E R Ob ((put_visitor s i v')\<lparr>ms_injector := q\<rparr>)"
proof -
  have t: "all_tasks s = set (ms_injector s) \<union> (set (sv_local v) \<union> set (sv_worker v) \<union> insert t (items_tasks its)) \<union> rest_tasks s i"
    "all_visits s = items_visits its \<union> rest_visits s i"
    using tasks_split(1,2) [OF i] pc v by (simp_all add: visitor_tasks_def)
  have ci: "colour_inv E R (marked_set E (ms_bitmap s)) (all_tasks s) (all_visits s)" using inv by (simp add: colour_state_def)
  obtain a where a: "a \<in> marked_set E (ms_bitmap s)" "task_for E a t" using colour_invD(2) [OF ci, of t] t(1) by auto
  have ok: "obj_ok E a" using g reachable_in [OF g colour_invD(1) [OF ci a(1)]] by (auto simp: graph_ok_def)
  have "unat (decode_oop t) = a" by (rule task_for_decode [OF ok a(2)])
  then have "hp_is_in (me_heap E) (unat (decode_oop t))" using ok by (simp add: obj_ok_def)
  then obtain v' q where p: "sv_push E t (v\<lparr>sv_pc := Running its\<rparr>) (ms_injector s) = Inr (v', q)"
    by (auto simp: sv_push_def Let_def split: prod.splits if_splits) (metis surj_pair)
  note pt = sv_push_tasks [OF p]
  let ?s = "(put_visitor s i v')\<lparr>ms_injector := q\<rparr>"
  have vs: "ms_visitors ?s = (ms_visitors s)[i := v']" by simp
  have eq: "all_tasks ?s = all_tasks s" "all_visits ?s = all_visits s" "ms_bitmap ?s = ms_bitmap s"
    using tasks_split(3,4) [OF i vs] pt t by (auto simp: visitor_tasks_def)
  have "colour_state E R Ob ?s" unfolding colour_state_def eq using inv by (simp only: colour_state_def)
  then show thesis using p pt(2) by (intro that) simp_all
qed

text \<open>Every step keeps the invariant, and no step leads to a panic.\<close>

lemma put_set_injector [simp]: "ms_visitors (s\<lparr>ms_injector := q\<rparr>) = ms_visitors s" "ms_bitmap (s\<lparr>ms_injector := q\<rparr>) = ms_bitmap s"
  by simp_all

lemma colour_take_own:
  assumes g: "graph_ok E R Ob" and inv: "colour_state E R Ob s" and i: "i < length (ms_visitors s)" and v: "v = ms_visitors s ! i"
    and pc: "pc_items v = []" and q: "insert t (set (sv_local v') \<union> set (sv_worker v') \<union> set (ms_injector s'))
      = set (sv_local v) \<union> set (sv_worker v) \<union> set (ms_injector s)"
    and s': "ms_visitors s' = (ms_visitors s)[i := run_task E t v']" "ms_bitmap s' = ms_bitmap s"
  shows "colour_state E R Ob s' \<and> (\<forall>e. sv_pc (run_task E t v') \<noteq> Panicked e)"
proof (rule colour_take [OF g inv _ _ _ s'(2)])
  let ?T = "set (ms_injector s') \<union> (set (sv_local v') \<union> set (sv_worker v')) \<union> rest_tasks s i"
  have "all_tasks s = set (ms_injector s) \<union> (set (sv_local v) \<union> set (sv_worker v)) \<union> rest_tasks s i"
    using tasks_split(1) [OF i] v pc by (simp add: visitor_tasks_def)
  then show "all_tasks s = insert t ?T" using q by (simp, blast)
  show "all_tasks s' = ?T \<union> items_tasks (pc_items (run_task E t v'))"
    using tasks_split(3) [OF i s'(1)] by (simp add: visitor_tasks_def) blast
  show "all_visits s' = all_visits s \<union> items_visits (pc_items (run_task E t v'))"
    using tasks_split(2) [OF i] tasks_split(4) [OF i s'(1)] v pc by (simp, blast)
qed

lemma colour_steal:
  assumes g: "graph_ok E R Ob" and inv: "colour_state E R Ob s" and i: "i < length (ms_visitors s)" and v: "v = ms_visitors s ! i"
    and pc: "sv_pc v = StealOthers" and j: "j < length (ms_visitors s)" "j \<noteq> i"
    and m: "sv_steal (ms_visitors s ! j) t batch rest"
    and s': "s' = put_visitor (put_visitor s j ((ms_visitors s ! j)\<lparr>sv_worker := rest\<rparr>)) i (run_task E t (v\<lparr>sv_worker := sv_worker v @ batch\<rparr>))"
  shows "colour_state E R Ob s' \<and> (\<forall>e. sv_pc (run_task E t (v\<lparr>sv_worker := sv_worker v @ batch\<rparr>)) \<noteq> Panicked e)"
proof (rule colour_take [OF g inv])
  let ?w = "(ms_visitors s ! j)\<lparr>sv_worker := rest\<rparr>" and ?v' = "v\<lparr>sv_worker := sv_worker v @ batch\<rparr>"
  let ?u = "put_visitor s j ?w"
  have i': "i < length (ms_visitors ?u)" "ms_visitors ?u ! i = v" using i j(2) v by simp_all
  have sw: "set (sv_worker (ms_visitors s ! j)) = insert t (set batch \<union> set rest)" using mset_eq_setD [OF m [unfolded sv_steal_def]] by simp
  have pj: "pc_items ?w = pc_items (ms_visitors s ! j)" by (simp add: pc_items_def)
  have vt: "visitor_tasks (ms_visitors s ! j) = insert t (set batch) \<union> visitor_tasks ?w"
    using sw pj by (auto simp: visitor_tasks_def)
  have u: "all_tasks s = insert t (set batch) \<union> all_tasks ?u" "all_visits ?u = all_visits s"
    using tasks_split(1,2) [OF j(1)] tasks_split(3,4) [OF j(1), of ?u ?w] vt pj by auto
  have pv: "pc_items v = []" using pc by simp
  have vs: "ms_visitors s' = (ms_visitors ?u)[i := run_task E t ?v']" by (simp add: s')
  have "visitor_tasks (run_task E t ?v') = set batch \<union> visitor_tasks v \<union> items_tasks (pc_items (run_task E t ?v'))"
    using pv by (auto simp: visitor_tasks_def)
  then show "all_tasks s' = (set batch \<union> all_tasks ?u) \<union> items_tasks (pc_items (run_task E t ?v'))"
    using tasks_split(1) [OF i'(1)] tasks_split(3) [OF i'(1) vs] i'(2) by (auto simp: s')
  show "all_tasks s = insert t (set batch \<union> all_tasks ?u)" using u(1) by simp
  show "all_visits s' = all_visits s \<union> items_visits (pc_items (run_task E t ?v'))"
    using tasks_split(2) [OF i'(1)] tasks_split(4) [OF i'(1) vs] i'(2) pv u(2) by auto
  show "ms_bitmap s' = ms_bitmap s" by (simp add: s')
qed

lemma colour_quiet:
  assumes "colour_state E R Ob s" "no_panic s" "i < length (ms_visitors s)"
    and "sv_local v = sv_local (ms_visitors s ! i)" "sv_worker v = sv_worker (ms_visitors s ! i)" "pc_items v = pc_items (ms_visitors s ! i)"
    and "ms_visitors s' = (ms_visitors s)[i := v]" "ms_bitmap s' = ms_bitmap s" "ms_injector s' = ms_injector s" "\<And>e. sv_pc v \<noteq> Panicked e"
  shows "colour_state E R Ob s' \<and> no_panic s'"
  using colour_pc [OF assms(1,3-9)] no_panic_put [OF assms(2,7)] assms(10) by blast

lemma colour_step:
  assumes g: "graph_ok E R Ob" and inv: "colour_state E R Ob s" "no_panic s" and st: "mark_step E s s'"
  shows "colour_state E R Ob s' \<and> no_panic s'"
  using st
proof cases
  case (loop_top i v)
  then show ?thesis by (intro colour_quiet [OF inv, of i]) (auto split: if_splits)
next
  case (cancelled i v)
  then show ?thesis by (intro colour_quiet [OF inv, of i]) (auto split: if_splits)
next
  case cancel
  then show ?thesis using inv by (simp add: colour_state_def no_panic_def all_tasks_def all_visits_def)
next
  case (stride_done i v)
  then show ?thesis by (intro colour_quiet [OF inv, of i]) (auto split: if_splits)
next
  case (pop_own i v t v')
  have "colour_state E R Ob s' \<and> (\<forall>e. sv_pc (run_task E t v') \<noteq> Panicked e)"
    by (rule colour_take_own [OF g inv(1) pop_own(2,3)]) (use pop_own pop_own_tasks(1) [OF pop_own(6)] in auto)
  then show ?thesis using no_panic_put [OF inv(2), of s' i] pop_own(1) by simp
next
  case (own_empty i v)
  then show ?thesis by (intro colour_quiet [OF inv, of i]) (auto split: if_splits)
next
  case (pop_global i v t batch rest)
  let ?v = "v\<lparr>sv_worker := sv_worker v @ batch\<rparr>"
  have "set (ms_injector s) = insert t (set batch \<union> set rest)" using mset_eq_setD [OF pop_global(5) [unfolded sv_pop_global_def]] by simp
  then have "colour_state E R Ob s' \<and> (\<forall>e. sv_pc (run_task E t ?v) \<noteq> Panicked e)"
    by (intro colour_take_own [OF g inv(1) pop_global(2,3)]) (use pop_global in auto)
  then show ?thesis using no_panic_put [OF inv(2), of s' i] pop_global(1) by simp
next
  case (global_empty i v)
  then show ?thesis by (intro colour_quiet [OF inv, of i]) (auto split: if_splits)
next
  case (steal i v j t batch rest)
  let ?v = "v\<lparr>sv_worker := sv_worker v @ batch\<rparr>" and ?u = "put_visitor s j ((ms_visitors s ! j)\<lparr>sv_worker := rest\<rparr>)"
  have c: "colour_state E R Ob s' \<and> (\<forall>e. sv_pc (run_task E t ?v) \<noteq> Panicked e)"
    by (rule colour_steal [OF g inv(1) steal(2-7) steal(1)])
  have "\<forall>e. sv_pc (ms_visitors s ! j) \<noteq> Panicked e" using inv(2) steal(5) by (simp add: no_panic_def)
  then have "no_panic ?u" using no_panic_put [OF inv(2), of ?u j] by simp
  then show ?thesis using c no_panic_put [of ?u s' i] steal(1) by simp
next
  case (steal_fails i v)
  then show ?thesis by (intro colour_quiet [OF inv, of i]) (auto split: if_splits)
next
  case (visit i v p its its' b)
  then show ?thesis using colour_visit [OF g inv(1) visit(2-5) visit(1)] no_panic_put [OF inv(2), of s' i] by simp
next
  case (push i v t its v' q)
  obtain v1 q1 where p: "sv_push E t (v\<lparr>sv_pc := Running its\<rparr>) (ms_injector s) = Inr (v1, q1)" "sv_pc v1 = Running its"
    "colour_state E R Ob ((put_visitor s i v1)\<lparr>ms_injector := q1\<rparr>)" by (rule colour_push [OF g inv(1) push(2-4)])
  then have "colour_state E R Ob s'" "sv_pc v' = Running its" using push(1,5) by simp_all
  then show ?thesis using no_panic_put [OF inv(2), of s' i] push(1) by simp
next
  case (push_panics i v t its e)
  obtain v1 q1 where "sv_push E t (v\<lparr>sv_pc := Running its\<rparr>) (ms_injector s) = Inr (v1, q1)"
    by (rule colour_push [OF g inv(1) push_panics(2-4)])
  then show ?thesis using push_panics(5) by simp
next
  case (task_done i v)
  then show ?thesis by (intro colour_quiet [OF inv, of i]) (auto split: if_splits)
next
  case (single_worker i v)
  then show ?thesis by (intro colour_quiet [OF inv, of i]) (auto split: if_splits)
next
  case (decrease i v z n)
  then show ?thesis by (intro colour_quiet [OF inv, of i]) (auto split: if_splits)
next
  case (wake i v z n)
  then show ?thesis by (intro colour_quiet [OF inv, of i]) (auto split: if_splits)
qed

section \<open>Termination detection\<close>

definition idle :: "mark_pc \<Rightarrow> bool" where "idle pc \<longleftrightarrow> pc \<in> {StealOthers, TryTerminate, Sleeping, Terminated}"
definition asleep :: "mark_pc \<Rightarrow> bool" where "asleep pc \<longleftrightarrow> pc \<in> {Sleeping, Terminated}"

definition awake :: "SlotVisitor list \<Rightarrow> nat" where
  "awake vs = length (filter (\<lambda>v. \<not> asleep (sv_pc v)) vs)"

text \<open>A worker that looks beyond its own queues has emptied them; while the injector holds tasks some worker is still
  going to look there; the terminator counts the workers that are awake; and a worker terminates only when all
  workers sleep.\<close>

definition sched_inv :: "MarkState \<Rightarrow> bool" where
  "sched_inv s \<longleftrightarrow>
     (\<forall>v \<in> set (ms_visitors s). idle (sv_pc v) \<or> sv_pc v = PopGlobal \<longrightarrow> sv_local v = [] \<and> sv_worker v = []) \<and>
     (ms_injector s \<noteq> [] \<longrightarrow> (\<exists>v \<in> set (ms_visitors s). \<not> idle (sv_pc v))) \<and>
     (length (ms_visitors s) \<noteq> 1 \<longrightarrow> ms_nworkers s = awake (ms_visitors s)) \<and>
     ((\<exists>v \<in> set (ms_visitors s). sv_pc v = Terminated) \<longrightarrow> (\<forall>v \<in> set (ms_visitors s). asleep (sv_pc v))) \<and>
     (length (ms_visitors s) = 1 \<longrightarrow> (\<forall>v \<in> set (ms_visitors s). sv_pc v \<noteq> Sleeping))"

lemma awake_update:
  "i < length vs \<Longrightarrow> awake (vs[i := v]) + (if asleep (sv_pc (vs ! i)) then 0 else 1) = awake vs + (if asleep (sv_pc v) then 0 else 1)"
proof (induction vs arbitrary: i)
  case (Cons x vs)
  have c: "awake (w # ws) = awake ws + (if asleep (sv_pc w) then 0 else 1)" for w ws by (simp add: awake_def)
  show ?case
  proof (cases i)
    case (Suc j)
    then show ?thesis using Cons.IH [of j] Cons.prems by (simp add: c)
  qed (simp add: c)
qed simp

lemma awake_zero: "awake vs = 0 \<longleftrightarrow> (\<forall>v \<in> set vs. asleep (sv_pc v))"
  by (simp add: awake_def filter_empty_conv)

lemma sched_update:
  assumes inv: "sched_inv s" and i: "i < length (ms_visitors s)" and v: "v = ms_visitors s ! i"
    and s': "ms_visitors s' = (ms_visitors s)[i := v']"
    and own: "idle (sv_pc v') \<or> sv_pc v' = PopGlobal \<Longrightarrow> sv_local v' = [] \<and> sv_worker v' = []"
    and inj: "ms_injector s' = [] \<or> \<not> idle (sv_pc v') \<or> idle (sv_pc v) \<and> ms_injector s \<noteq> []"
    and cnt: "length (ms_visitors s) \<noteq> 1 \<Longrightarrow>
      ms_nworkers s' + (if asleep (sv_pc v) then 0 else 1) = ms_nworkers s + (if asleep (sv_pc v') then 0 else 1)"
    and trm: "sv_pc v' = sv_pc v \<or> sv_pc v \<noteq> Terminated \<and> (sv_pc v = Sleeping \<longrightarrow> sv_pc v' = Terminated \<or> ms_nworkers s \<noteq> 0) \<and>
      (sv_pc v' = Terminated \<longrightarrow> length (ms_visitors s) = 1 \<or> ms_nworkers s' = 0)"
    and one: "length (ms_visitors s) = 1 \<Longrightarrow> sv_pc v' \<noteq> Sleeping"
  shows "sched_inv s'"
proof -
  let ?vs = "ms_visitors s" and ?vs' = "ms_visitors s'"
  have sub: "w = v' \<or> w \<in> set ?vs" if "w \<in> set ?vs'" for w
    using that set_update_subset_insert [of ?vs i v'] s' by auto
  have new: "v' \<in> set ?vs'" using i s' by (simp add: set_update_memI)
  have len: "length ?vs' = length ?vs" using s' by simp
  have mv: "v \<in> set ?vs" using i v by simp
  have "\<forall>w \<in> set ?vs'. idle (sv_pc w) \<or> sv_pc w = PopGlobal \<longrightarrow> sv_local w = [] \<and> sv_worker w = []"
    using sub own inv unfolding sched_inv_def by blast
  moreover have "\<exists>w \<in> set ?vs'. \<not> idle (sv_pc w)" if ne: "ms_injector s' \<noteq> []"
  proof (cases "idle (sv_pc v')")
    case True
    then have "idle (sv_pc v)" "ms_injector s \<noteq> []" using inj ne by auto
    then obtain w where "w \<in> set ?vs" "\<not> idle (sv_pc w)" using inv unfolding sched_inv_def by blast
    then obtain k where "k < length ?vs" "?vs ! k = w" "k \<noteq> i" using v \<open>idle (sv_pc v)\<close> by (auto simp: in_set_conv_nth)
    then have "w \<in> set ?vs'" using s' by (metis length_list_update nth_list_update_neq nth_mem)
    then show ?thesis using \<open>\<not> idle (sv_pc w)\<close> by blast
  qed (use new in blast)
  moreover have nw: "ms_nworkers s' = awake ?vs'" if l: "length ?vs \<noteq> 1"
  proof -
    have "ms_nworkers s = awake ?vs" using inv l by (simp add: sched_inv_def)
    then show ?thesis using cnt [OF l] awake_update [OF i, of v'] v s' by (simp split: if_splits)
  qed
  moreover have "\<forall>w \<in> set ?vs'. asleep (sv_pc w)" if t: "\<exists>w \<in> set ?vs'. sv_pc w = Terminated"
  proof (cases "sv_pc v' = sv_pc v")
    case True
    then have "\<exists>w \<in> set ?vs. sv_pc w = Terminated" using t sub mv by metis
    then have "\<forall>w \<in> set ?vs. asleep (sv_pc w)" using inv by (simp add: sched_inv_def)
    then show ?thesis using sub True mv by metis
  next
    case False
    show ?thesis
    proof (cases "sv_pc v' = Terminated")
      case T: True
      then consider "length ?vs = 1" | "length ?vs \<noteq> 1" "ms_nworkers s' = 0" using trm False by auto
      then show ?thesis
      proof cases
        case 1
        then have "?vs' = [v']" using i s' by (cases ?vs) auto
        then show ?thesis using T by (simp add: asleep_def)
      next
        case 2
        then show ?thesis using nw awake_zero by simp
      qed
    next
      case F: False
      then have "\<exists>w \<in> set ?vs. sv_pc w = Terminated" using t sub by blast
      then have all: "\<forall>w \<in> set ?vs. asleep (sv_pc w)" using inv by (simp add: sched_inv_def)
      then have sl: "sv_pc v = Sleeping" using mv trm False by (auto simp: asleep_def)
      then have "ms_nworkers s \<noteq> 0" using trm False F by blast
      moreover have "length ?vs \<noteq> 1" using inv sl mv unfolding sched_inv_def by blast
      then have "ms_nworkers s = awake ?vs" using inv unfolding sched_inv_def by blast
      ultimately show ?thesis using all awake_zero [of ?vs] by simp
    qed
  qed
  moreover have "\<forall>w \<in> set ?vs'. sv_pc w \<noteq> Sleeping" if "length ?vs = 1"
    using sub one [OF that] inv that unfolding sched_inv_def by blast
  ultimately show ?thesis unfolding sched_inv_def len by blast
qed

lemmas sched_pcs = idle_def asleep_def

lemma run_task_pc: "\<not> idle (sv_pc (run_task E t v))" "\<not> asleep (sv_pc (run_task E t v))" "sv_pc (run_task E t v) \<noteq> PopGlobal"
  "sv_pc (run_task E t v) \<noteq> Sleeping" "sv_pc (run_task E t v) \<noteq> Terminated"
  by (auto simp: run_task_def sched_pcs split: sum.splits)

lemma sched_own:
  assumes "sched_inv s" "i < length (ms_visitors s)" "idle (sv_pc (ms_visitors s ! i)) \<or> sv_pc (ms_visitors s ! i) = PopGlobal"
  shows "sv_local (ms_visitors s ! i) = [] \<and> sv_worker (ms_visitors s ! i) = []"
  using assms nth_mem [OF assms(2)] unfolding sched_inv_def by blast

text \<open>A worker that changes its program counter only, or takes up a task, while it is awake.\<close>

lemma sched_awake:
  assumes inv: "sched_inv s" and i: "i < length (ms_visitors s)" and v: "v = ms_visitors s ! i"
    and s': "ms_visitors s' = (ms_visitors s)[i := v']" "ms_nworkers s' = ms_nworkers s"
    and a: "\<not> asleep (sv_pc v)" "\<not> asleep (sv_pc v')"
    and own: "idle (sv_pc v') \<or> sv_pc v' = PopGlobal \<Longrightarrow> sv_local v' = [] \<and> sv_worker v' = []"
    and inj: "ms_injector s' = [] \<or> \<not> idle (sv_pc v') \<or> idle (sv_pc v) \<and> ms_injector s' = ms_injector s"
  shows "sched_inv s'"
  by (rule sched_update [OF inv i v s'(1) own]) (use inj a s'(2) in \<open>auto simp: asleep_def\<close>)

lemma sched_step:
  assumes st: "0 < me_stride E" and inv: "sched_inv s" and step: "mark_step E s s'"
  shows "sched_inv s'"
  using step
proof cases
  case (loop_top i v)
  then show ?thesis by (intro sched_awake [OF inv loop_top(2,3)]) (auto simp: sched_pcs)
next
  case (cancelled i v)
  then show ?thesis by (intro sched_awake [OF inv cancelled(2,3)]) (auto simp: sched_pcs)
next
  case cancel
  then show ?thesis using inv by (simp add: sched_inv_def)
next
  case (stride_done i v)
  then show ?thesis using st by (intro sched_awake [OF inv stride_done(2,3), of s' "v\<lparr>sv_pc := if sv_work v = 0 then TryTerminate else LoopTop\<rparr>"]) (auto simp: sched_pcs split: if_splits)
next
  case (pop_own i v t v')
  then show ?thesis using run_task_pc [of E t v'] by (intro sched_awake [OF inv pop_own(2,3)]) (auto simp: sched_pcs)
next
  case (own_empty i v)
  then show ?thesis by (intro sched_awake [OF inv own_empty(2,3), of s' "v\<lparr>sv_pc := PopGlobal\<rparr>"]) (auto simp: sched_pcs pop_own_def split: if_splits)
next
  case (pop_global i v t batch rest)
  then show ?thesis using run_task_pc [of E t "v\<lparr>sv_worker := sv_worker v @ batch\<rparr>"]
    by (intro sched_awake [OF inv pop_global(2,3)]) (auto simp: sched_pcs)
next
  case (global_empty i v)
  then show ?thesis using sched_own [OF inv global_empty(2)] by (intro sched_awake [OF inv global_empty(2,3), of s' "v\<lparr>sv_pc := StealOthers\<rparr>"]) (auto simp: sched_pcs)
next
  case (steal i v j t batch rest)
  let ?u = "put_visitor s j ((ms_visitors s ! j)\<lparr>sv_worker := rest\<rparr>)" and ?v = "v\<lparr>sv_worker := sv_worker v @ batch\<rparr>"
  have "sv_worker (ms_visitors s ! j) \<noteq> []" using steal(7) by (auto simp: sv_steal_def)
  then have pj: "\<not> idle (sv_pc (ms_visitors s ! j)) \<and> sv_pc (ms_visitors s ! j) \<noteq> PopGlobal" using sched_own [OF inv steal(5)] by blast
  have "sched_inv ?u" by (rule sched_update [OF inv steal(5) refl]) (use pj in \<open>auto simp: sched_pcs\<close>)
  moreover have "i < length (ms_visitors ?u)" "v = ms_visitors ?u ! i" using steal by simp_all
  ultimately show ?thesis
    by (rule sched_awake) (use steal run_task_pc [of E t ?v] in \<open>auto simp: sched_pcs\<close>)
next
  case (steal_fails i v)
  then show ?thesis using sched_own [OF inv steal_fails(2)]
    by (intro sched_awake [OF inv steal_fails(2,3), of s' "v\<lparr>sv_pc := if sv_work v = 0 then TryTerminate else LoopTop\<rparr>"]) (auto simp: sched_pcs split: if_splits)
next
  case (visit i v p its its' b)
  then show ?thesis by (intro sched_awake [OF inv visit(2,3)]) (auto simp: sched_pcs)
next
  case (push i v t its v' q)
  then show ?thesis using sv_push_tasks(2) [OF push(5)] by (intro sched_awake [OF inv push(2,3)]) (auto simp: sched_pcs)
next
  case (push_panics i v t its e)
  then show ?thesis by (intro sched_awake [OF inv push_panics(2,3)]) (auto simp: sched_pcs)
next
  case (task_done i v)
  then show ?thesis by (intro sched_awake [OF inv task_done(2,3)]) (auto simp: sched_pcs)
next
  case (single_worker i v)
  then show ?thesis using sched_own [OF inv single_worker(2)]
    by (intro sched_update [OF inv single_worker(2,3), of s' "v\<lparr>sv_pc := Terminated\<rparr>"]) (auto simp: sched_pcs)
next
  case (decrease i v z n)
  have "ms_nworkers s = awake (ms_visitors s)" using inv decrease(5) unfolding sched_inv_def by blast
  moreover have "\<not> asleep (sv_pc (ms_visitors s ! i))" using decrease(3,4) by (simp add: asleep_def)
  then have "awake (ms_visitors s) \<noteq> 0" using nth_mem [OF decrease(2)] unfolding awake_zero by blast
  ultimately show ?thesis using decrease sched_own [OF inv decrease(2)]
    by (intro sched_update [OF inv decrease(2,3), of s' "v\<lparr>sv_pc := if z then Terminated else Sleeping\<rparr>"])
      (auto simp: sched_pcs decrease_workers_def split: if_splits)
next
  case (wake i v z n)
  then show ?thesis using sched_own [OF inv wake(2)]
    by (intro sched_update [OF inv wake(2,3), of s' "v\<lparr>sv_pc := if z then Terminated else LoopTop\<rparr>"])
      (auto simp: sched_pcs zero_or_increase_workers_def split: if_splits)
qed

section \<open>Marking from the roots\<close>

text \<open>The roots that are still to be visited are pending.\<close>

lemma visit_roots_inv:
  assumes g: "graph_ok E R Ob"
  shows "hb_offset (mc_bitmap c) = hp_mem_start (me_heap E) \<Longrightarrow> V = set ps \<Longrightarrow>
    colour_inv E R (marked_set E (mc_bitmap c)) (set (mc_injector c)) V \<Longrightarrow>
    colour_inv E R (marked_set E (mc_bitmap (visit_roots ps c))) (set (mc_injector (visit_roots ps c))) {} \<and>
    hb_offset (mc_bitmap (visit_roots ps c)) = hp_mem_start (me_heap E)"
proof (induction ps arbitrary: c V)
  case Nil
  then show ?case by (simp add: visit_roots_def)
next
  case (Cons p ps)
  have ci: "colour_inv E R (marked_set E (mc_bitmap c)) (set (mc_injector c)) (insert p (set ps))" using Cons.prems by simp
  have ob: "p - 8 \<in> Ob" using colour_invD(3) [OF ci, of p] reachable_in [OF g] by simp
  have r: "visit_roots (p # ps) c = visit_roots ps (mc_visit p c)" by (simp add: visit_roots_def)
  show ?case
  proof (cases "check_bit (mc_bitmap c) (p - 8)")
    case True
    then have "mc_visit p c = c" by (simp add: mc_visit_def mc_mark_def Let_def)
    moreover have "p - 8 \<in> marked_set E (mc_bitmap c)" using True graph_ok_aligned [OF g ob] by (simp add: marked_set_def)
    ultimately show ?thesis unfolding r using Cons.IH [OF Cons.prems(1) refl colour_seen [OF ci]] by simp
  next
    case False
    let ?c = "mc_visit p c"
    have e: "mc_bitmap ?c = set_bit (mc_bitmap c) (p - 8)"
      "set (mc_injector ?c) = insert (MarkTask_new (of_nat (p - 8)) False False) (set (mc_injector c))"
      using False by (simp_all add: mc_visit_def mc_mark_def Let_def)
    have off: "hb_offset (mc_bitmap ?c) = hp_mem_start (me_heap E)" using Cons.prems(1) by (simp add: e)
    have "colour_inv E R (marked_set E (mc_bitmap ?c)) (set (mc_injector ?c)) (set ps)"
      unfolding e marked_set_bit [OF g Cons.prems(1) ob] by (rule colour_mark [OF g ci])
    then show ?thesis unfolding r using Cons.IH [OF off refl] by simp
  qed
qed

definition fresh_context :: "MarkEnv \<Rightarrow> MarkingContext \<Rightarrow> bool" where
  "fresh_context E c \<longleftrightarrow> hb_offset (mc_bitmap c) = hp_mem_start (me_heap E) \<and> mc_injector c = [] \<and>
     (\<forall>a. heap_aligned E a \<longrightarrow> \<not> check_bit (mc_bitmap c) a)"

text \<open>A context whose bitmap covers the heap and whose queue is empty; clearing it gives a fresh one.\<close>

definition context_ok :: "MarkEnv \<Rightarrow> MarkingContext \<Rightarrow> bool" where
  "context_ok E c \<longleftrightarrow> hb_offset (mc_bitmap c) = hp_mem_start (me_heap E) \<and> mc_injector c = [] \<and>
     hp_mem_size (me_heap E) \<le> 128 * hb_size (mc_bitmap c) \<and> hb_base (mc_bitmap c) mod 16 = 0 \<and>
     16 dvd hb_size (mc_bitmap c) \<and> 0 < hb_size (mc_bitmap c)"

lemma clear_fresh:
  assumes "context_ok E c"
  shows "fresh_context E (clear_bitmap_full c)"
proof -
  let ?b = "mc_bitmap c"
  have o: "hb_offset (hb_clear ?b) = hp_mem_start (me_heap E)" using assms by (simp add: context_ok_def hb_clear_def hb_memset_def)
  have "\<not> check_bit (hb_clear ?b) a" if a: "heap_aligned E a" for a
  proof -
    have in_heap: "hp_mem_start (me_heap E) \<le> a" "a - hp_mem_start (me_heap E) < hp_mem_size (me_heap E)"
      using a by (auto simp: heap_aligned_def hp_is_in_def)
    then have "bit_number (hb_clear ?b) a div 8 < hb_size ?b"
      using assms o unfolding context_ok_def bit_number_def by (simp add: div_mult2_eq [symmetric] div_less_iff_less_mult mult.commute)
    then have "hb_cells (hb_clear ?b) (bit_number (hb_clear ?b) a div 8) = 0"
      using hb_clear_eq [of ?b] assms by (simp add: context_ok_def)
    then show ?thesis using in_heap o by (simp add: check_bit_eq hb_bit_def)
  qed
  then show ?thesis using assms o by (simp add: fresh_context_def clear_bitmap_full_def context_ok_def)
qed

lemma marking_inv:
  assumes g: "graph_ok E R Ob" and st: "0 < me_stride E" and run: "(mark_step E)\<^sup>*\<^sup>* s0 s"
    and s0: "colour_state E R Ob s0" "no_panic s0" "sched_inv s0"
  shows "colour_state E R Ob s \<and> no_panic s \<and> sched_inv s"
  using run by induction (use s0 colour_step [OF g] sched_step [OF st] in blast)+

text \<open>When a worker has terminated nothing is left to do.\<close>

lemma terminated_done:
  assumes inv: "colour_state E R Ob s" "sched_inv s" and v: "v \<in> set (ms_visitors s)" "sv_pc v = Terminated"
  shows "a \<in> marked_set E (ms_bitmap s) \<longleftrightarrow> reachable E R a"
proof -
  have sl: "\<forall>w \<in> set (ms_visitors s). asleep (sv_pc w)" using inv(2) v unfolding sched_inv_def by blast
  then have id: "idle (sv_pc w)" "pc_items w = []" if "w \<in> set (ms_visitors s)" for w
    using that by (auto simp: sched_pcs)
  then have "ms_injector s = []" using inv(2) unfolding sched_inv_def by blast
  moreover have "sv_local w = [] \<and> sv_worker w = []" if "w \<in> set (ms_visitors s)" for w
    using inv(2) id(1) [OF that] that unfolding sched_inv_def by blast
  ultimately have "all_tasks s = {}" "all_visits s = {}" using id(2) by (auto simp: all_tasks_def all_visits_def visitor_tasks_def)
  then have "colour_inv E R (marked_set E (ms_bitmap s)) {} {}" using inv(1) by (simp add: colour_state_def)
  then show ?thesis by (rule colour_done)
qed

text \<open>Worker \<open>i\<close> makes its next step, alone.\<close>

definition solo_step :: "MarkEnv \<Rightarrow> nat \<Rightarrow> MarkState \<Rightarrow> MarkState" where
  "solo_step E i s = (let v = ms_visitors s ! i in case sv_pc v of
     LoopTop \<Rightarrow> put_visitor s i (v\<lparr>sv_pc := PopOwn, sv_work := 0\<rparr>)
   | PopOwn \<Rightarrow> put_visitor s i (if me_stride E \<le> sv_work v then v\<lparr>sv_pc := if sv_work v = 0 then TryTerminate else LoopTop\<rparr>
       else case pop_own v of None \<Rightarrow> v\<lparr>sv_pc := PopGlobal\<rparr> | Some (t, v') \<Rightarrow> run_task E t v')
   | PopGlobal \<Rightarrow> (case ms_injector s of [] \<Rightarrow> put_visitor s i (v\<lparr>sv_pc := StealOthers\<rparr>)
       | t # rest \<Rightarrow> (put_visitor s i (run_task E t v))\<lparr>ms_injector := rest\<rparr>)
   | StealOthers \<Rightarrow> put_visitor s i (v\<lparr>sv_pc := if sv_work v = 0 then TryTerminate else LoopTop\<rparr>)
   | Running [] \<Rightarrow> put_visitor s i (v\<lparr>sv_pc := PopOwn, sv_work := sv_work v + 1\<rparr>)
   | Running (Visit p # its) \<Rightarrow> (let (its', b) = visit_item p its (ms_bitmap s) in (put_visitor s i (v\<lparr>sv_pc := Running its'\<rparr>))\<lparr>ms_bitmap := b\<rparr>)
   | Running (Push t # its) \<Rightarrow> (case sv_push E t (v\<lparr>sv_pc := Running its\<rparr>) (ms_injector s) of
       Inr (v', q) \<Rightarrow> (put_visitor s i v')\<lparr>ms_injector := q\<rparr>
     | Inl e \<Rightarrow> put_visitor s i (v\<lparr>sv_pc := Panicked e\<rparr>))
   | TryTerminate \<Rightarrow> if length (ms_visitors s) = 1 then put_visitor s i (v\<lparr>sv_pc := Terminated\<rparr>)
       else (put_visitor s i (v\<lparr>sv_pc := if ms_nworkers s = 1 then Terminated else Sleeping\<rparr>))\<lparr>ms_nworkers := ms_nworkers s - 1\<rparr>
   | Sleeping \<Rightarrow> if ms_nworkers s = 0 then (put_visitor s i (v\<lparr>sv_pc := Terminated\<rparr>))\<lparr>ms_nworkers := 0\<rparr>
       else (put_visitor s i (v\<lparr>sv_pc := LoopTop\<rparr>))\<lparr>ms_nworkers := ms_nworkers s + 1\<rparr>
   | _ \<Rightarrow> s)"

definition finished :: "mark_pc \<Rightarrow> bool" where
  "finished pc \<longleftrightarrow> pc = Terminated \<or> pc = Cancelled \<or> (\<exists>e. pc = Panicked e)"

lemma solo_step_step:
  assumes i: "i < length (ms_visitors s)" and f: "\<not> finished (sv_pc (ms_visitors s ! i))"
  shows "mark_step E s (solo_step E i s)"
proof (cases "sv_pc (ms_visitors s ! i)")
  case LoopTop
  then show ?thesis using mark_step.loop_top [OF i refl] by (simp add: solo_step_def Let_def)
next
  case PopOwn
  show ?thesis
  proof (cases "me_stride E \<le> sv_work (ms_visitors s ! i)")
    case True
    then show ?thesis using mark_step.stride_done [OF i refl PopOwn] PopOwn by (simp add: solo_step_def Let_def)
  next
    case False
    then show ?thesis using mark_step.pop_own [OF i refl PopOwn] mark_step.own_empty [OF i refl PopOwn] PopOwn
      by (cases "pop_own (ms_visitors s ! i)") (auto simp: solo_step_def Let_def)
  qed
next
  case PopGlobal
  have "(ms_visitors s ! i)\<lparr>sv_worker := sv_worker (ms_visitors s ! i) @ []\<rparr> = ms_visitors s ! i" by simp
  then show ?thesis using mark_step.global_empty [OF i refl PopGlobal, of E] mark_step.pop_global [OF i refl PopGlobal, of _ "[]" _ E] PopGlobal
    by (cases "ms_injector s") (auto simp: solo_step_def Let_def sv_pop_global_def)
next
  case StealOthers
  then show ?thesis using mark_step.steal_fails [OF i refl StealOthers] by (simp add: solo_step_def Let_def)
next
  case (Running its)
  show ?thesis
  proof (cases its)
    case Nil
    then show ?thesis using mark_step.task_done [OF i refl] Running by (simp add: solo_step_def Let_def)
  next
    case (Cons it rest)
    then show ?thesis
      using mark_step.visit [OF i refl, of _ rest] mark_step.push [OF i refl, of _ rest E] mark_step.push_panics [OF i refl, of _ rest E] Running
      by (cases it) (auto simp: solo_step_def Let_def split: sum.split prod.split)
  qed
next
  case TryTerminate
  then show ?thesis using mark_step.single_worker [OF i refl TryTerminate] mark_step.decrease [OF i refl TryTerminate]
    by (simp add: solo_step_def Let_def decrease_workers_def)
next
  case Sleeping
  then show ?thesis using mark_step.wake [OF i refl Sleeping, of True 0 E] mark_step.wake [OF i refl Sleeping, of False "ms_nworkers s + 1" E]
    by (simp add: solo_step_def Let_def zero_or_increase_workers_def)
qed (use f in \<open>simp_all add: finished_def\<close>)

end
