(* ===== verification/HeapSweep.thy ===== *)
theory HeapSweep
  imports HeapModel
begin

unbundle bit_operations_syntax

text \<open>
  Sweeping the whole heap: \<open>trash_humongous_region_at\<close> of \<open>heap/heap.rs\<close>, the closures of \<open>heap/sweeper.rs\<close> and
  \<open>heap/concurrent_gc.rs\<close> that are run over all regions, and the sweep phases of \<open>heap/full_gc.rs\<close>,
  \<open>heap/concurrent_gc.rs\<close> and \<open>heap/degenerated_gc.rs\<close>. The sweep phase of a full collection starts where the code prepares the
  regions, after buffers are retired and marking is done. The regions are handed out as the code does, in chunks; how the workers interleave
  them is an argument, any rearrangement of the regions of the chunks. A sweep may fail to return, so the closures return \<open>None\<close> in that case.
\<close>

section \<open>Trashing a humongous object\<close>

fun trash_loop :: "nat \<Rightarrow> nat \<Rightarrow> Heap \<Rightarrow> Heap res" where
  "trash_loop 0 index h = Inr h"
| "trash_loop (Suc n) index h = rbind (get_region h index) (\<lambda>region.
     rbind (checked_sub index 1) (\<lambda>index'. trash_loop n index' (put_region h index (hr_make_trash region))))"

definition trash_humongous_region_at :: "(nat \<Rightarrow> VTable) \<Rightarrow> Heap \<Rightarrow> HeapRegion \<Rightarrow> Heap res" where
  "trash_humongous_region_at vtab h start =
     (let sz = heap_size vtab (hp_memory h) (hr_begin start);
          required = required_regions (hp_opts h) sz
      in rbind (checked_sub (hr_index start + required) 1) (\<lambda>index. trash_loop required index h))"

section \<open>Sweeping all regions\<close>

definition obind :: "'a res option \<Rightarrow> ('a \<Rightarrow> 'b res option) \<Rightarrow> 'b res option" where
  "obind x f = (case x of None \<Rightarrow> None | Some (Inl p) \<Rightarrow> Some (Inl p) | Some (Inr y) \<Rightarrow> f y)"

record SweepClosure =
  sc_heap :: Heap
  sc_live :: nat
  sc_freed :: nat

definition sweep_regular :: "(nat \<Rightarrow> VTable) \<Rightarrow> HeapBitmap \<Rightarrow> nat \<Rightarrow> HeapRegion \<Rightarrow> SweepClosure \<Rightarrow> SweepClosure res option" where
  "sweep_regular vtab marks i r c =
     obind (sweep_region vtab (hp_opts (sc_heap c)) marks r (hp_memory (sc_heap c))) (\<lambda>(empty, r, m).
       let r = (if empty then hr_make_trash r else r);
           h = put_region ((sc_heap c)\<lparr>hp_memory := m\<rparr>) i r
       in Some (Inr (if empty then c\<lparr>sc_heap := h, sc_freed := sc_freed c + 1\<rparr>
                     else c\<lparr>sc_heap := h, sc_live := sc_live c + 1\<rparr>)))"

text \<open>\<open>SweepGarbageClosure::heap_region_do\<close> on region \<open>i\<close>.\<close>

definition sweep_region_do :: "(nat \<Rightarrow> VTable) \<Rightarrow> HeapBitmap \<Rightarrow> nat \<Rightarrow> SweepClosure \<Rightarrow> SweepClosure res option" where
  "sweep_region_do vtab marks i c = obind (Some (get_region (sc_heap c) i)) (\<lambda>r.
     if hr_to_sweep r then
       let r = r\<lparr>hr_to_sweep := False\<rparr>;
           h = put_region (sc_heap c) i r;
           c = c\<lparr>sc_heap := h\<rparr>
       in if hr_is_humongous_start r then
            if \<not> check_bit marks (hr_begin r) then
              obind (Some (trash_humongous_region_at vtab h r)) (\<lambda>h'.
                Some (Inr (c\<lparr>sc_heap := h',
                  sc_freed := sc_freed c + required_regions (hp_opts h) (heap_size vtab (hp_memory h) (hr_begin r))\<rparr>)))
            else Some (Inr (c\<lparr>sc_live := sc_live c + 1\<rparr>))
          else if hr_is_humongous_cont r then Some (Inr (c\<lparr>sc_live := sc_live c + 1\<rparr>))
          else if hr_is_regular r then sweep_regular vtab marks i r c
          else Some (Inr c)
     else Some (Inr c))"

text \<open>\<open>PrepareUnsweptRegions::heap_region_do\<close>.\<close>

definition prepare_unswept_do :: "nat \<Rightarrow> Heap \<Rightarrow> Heap res" where
  "prepare_unswept_do i h = rbind (get_region h i) (\<lambda>r.
     if hr_is_regular r \<or> hr_is_humongous_start r then
       let fs = hp_free_set h in
       Inr ((put_region h i (r\<lparr>hr_to_sweep := True\<rparr>))
         \<lparr>hp_free_set := fs\<lparr>mutator_free_bitmap := db_set (mutator_free_bitmap fs) (hr_index r) False\<rparr>\<rparr>)
     else Inr h)"

text \<open>\<open>heap_region_iterate\<close>, for the two closures.\<close>

fun prepare_unswept :: "nat list \<Rightarrow> Heap \<Rightarrow> Heap res" where
  "prepare_unswept [] h = Inr h"
| "prepare_unswept (i # is) h = rbind (prepare_unswept_do i h) (prepare_unswept is)"

fun sweep_regions :: "(nat \<Rightarrow> VTable) \<Rightarrow> HeapBitmap \<Rightarrow> nat list \<Rightarrow> SweepClosure \<Rightarrow> SweepClosure res option" where
  "sweep_regions vtab marks [] c = Some (Inr c)"
| "sweep_regions vtab marks (i # is) c = obind (sweep_region_do vtab marks i c) (sweep_regions vtab marks is)"

text \<open>The end of the sweep phase of \<open>FullGC::do_collect\<close> and, when it is not cancelled, of \<open>ConcurrentGC::collect\<close>; \<open>is\<close> is
  the order in which the workers reach the regions. \<open>DegeneratedGC::collect\<close> does not prepare the regions.\<close>

definition sweep_and_rebuild :: "(nat \<Rightarrow> VTable) \<Rightarrow> HeapBitmap \<Rightarrow> nat list \<Rightarrow> Heap \<Rightarrow> (SweepClosure \<times> Heap) res option" where
  "sweep_and_rebuild vtab marks is h =
     obind (sweep_regions vtab marks is \<lparr>sc_heap = h, sc_live = 0, sc_freed = 0\<rparr>) (\<lambda>c.
     obind (Some (fs_rebuild (sc_heap c))) (\<lambda>h. Some (Inr (c, h))))"

text \<open>The order in which the regions are swept: with \<open>parallel_sweep\<close> the workers get the chunks of \<open>parallel_heap_region_iterate\<close>, whose
  regions they sweep in the order \<open>sched\<close>.\<close>

definition sweep_order :: "bool \<Rightarrow> nat \<Rightarrow> (nat list \<Rightarrow> nat list) \<Rightarrow> Heap \<Rightarrow> nat list option" where
  "sweep_order parallel workers sched h =
     (if parallel then map_option (\<lambda>chunks. sched (chunk_indices chunks)) (parallel_heap_region_iterate h workers)
      else Some [0..<region_count (hp_opts h)])"

text \<open>\<open>FullGC::do_collect\<close> from the preparation of the regions on.\<close>

definition full_gc_sweep ::
  "(nat \<Rightarrow> VTable) \<Rightarrow> HeapBitmap \<Rightarrow> bool \<Rightarrow> nat \<Rightarrow> (nat list \<Rightarrow> nat list) \<Rightarrow> Heap \<Rightarrow> (SweepClosure \<times> Heap) res option" where
  "full_gc_sweep vtab marks parallel workers sched h =
     obind (Some (prepare_unswept [0..<region_count (hp_opts h)] h)) (\<lambda>h.
       case sweep_order parallel workers sched h of None \<Rightarrow> None | Some is \<Rightarrow> sweep_and_rebuild vtab marks is h)"

definition degenerated_gc_sweep :: "(nat \<Rightarrow> VTable) \<Rightarrow> HeapBitmap \<Rightarrow> nat list \<Rightarrow> Heap \<Rightarrow> (SweepClosure \<times> Heap) res option" where
  "degenerated_gc_sweep vtab marks is h = sweep_and_rebuild vtab marks is h"

section \<open>Lemmas: sweeping all regions\<close>

lemma obind_simps [simp]:
  "obind None f = None" "obind (Some (Inl p)) f = Some (Inl p)" "obind (Some (Inr x)) f = f x"
  by (simp_all add: obind_def)

text \<open>A cell whose size can be read from the words inside it.\<close>

definition sized :: "(nat \<Rightarrow> VTable) \<Rightarrow> mem \<Rightarrow> block \<Rightarrow> bool" where
  "sized vtab m c \<longleftrightarrow> self_sized vtab m c \<and> (SizeTag_decode (m (fst c)) = 0 \<and> hdr_is_free (m (fst c)) \<longrightarrow> 16 < snd c)"

lemma sized_frame:
  assumes "16 \<le> s" "sized vtab m (a, s)" "\<forall>x \<in> block_bytes (a, s). m' x = m x"
  shows "heap_size vtab m' a = heap_size vtab m a" "sized vtab m' (a, s)"
proof -
  have a: "m' a = m a" using assms(1,3) by (simp add: block_bytes_def)
  then show "sized vtab m' (a, s)" using assms(2) by (simp add: sized_def self_sized_def)
  show "heap_size vtab m' a = heap_size vtab m a"
  proof (cases "hdr_is_free (m a)")
    case True
    have "m' (a + 16) = m (a + 16)" if "SizeTag_decode (m a) = 0"
      using assms(2,3) that True by (simp add: sized_def block_bytes_def)
    then show ?thesis using True a
      by (auto simp: heap_size_def heap_size_from_vtable_def hdr_is_free_def Entry_heap_size_def Let_def)
  qed (use heap_size_cell_frame [of s vtab m a m'] assms in \<open>simp add: sized_def\<close>)
qed

lemma tiled_sized_frame:
  "tiled vtab m lo hi cs \<Longrightarrow> \<forall>c \<in> set cs. sized vtab m c \<Longrightarrow> \<forall>x. lo \<le> x \<longrightarrow> x < hi \<longrightarrow> m' x = m x \<Longrightarrow> tiled vtab m' lo hi cs"
proof (induction cs arbitrary: lo)
  case (Cons c cs)
  obtain s where c: "c = (lo, s)" "16 \<le> s" "heap_size vtab m lo = s" "tiled vtab m (lo + s) hi cs"
    using Cons.prems(1) by (cases c) auto
  have "\<forall>x \<in> block_bytes (lo, s). m' x = m x" using Cons.prems(3) tiled_le [OF c(4)] by (auto simp: block_bytes_def)
  then have "heap_size vtab m' lo = s" using sized_frame(1) [OF c(2), of vtab m lo m'] Cons.prems(2) c by simp
  then show ?case using Cons c by auto
qed simp

definition hum_regions :: "(nat \<Rightarrow> VTable) \<Rightarrow> Heap \<Rightarrow> nat \<Rightarrow> nat" where
  "hum_regions vtab h i = required_regions (hp_opts h) (heap_size vtab (hp_memory h) (hr_begin (hp_regions h ! i)))"

text \<open>What the sweeper relies on for region \<open>i\<close>: a regular region is tiled by the cells \<open>cs\<close>; the object of a
  humongous start covers a run of regions.\<close>

definition sweep_ready :: "(nat \<Rightarrow> VTable) \<Rightarrow> HeapBitmap \<Rightarrow> nat \<Rightarrow> Heap \<Rightarrow> nat \<Rightarrow> block list \<Rightarrow> bool" where
  "sweep_ready vtab marks n h i cs \<longleftrightarrow>
     (let r = hp_regions h ! i; m = hp_memory h in
      (hr_typ r = Regular \<longrightarrow> tiled vtab m (hr_begin r) (hr_end r) cs \<and> (\<forall>c \<in> set cs. sized vtab m c) \<and>
         marks_cover marks r \<and> bitmap_ok n r) \<and>
      (hr_typ r = HumongousStart \<longrightarrow> sized vtab m (hr_begin r, 2 ^ n) \<and> 0 < hum_regions vtab h i \<and>
         i + hum_regions vtab h i \<le> region_count (hp_opts h) \<and>
         (\<forall>j. i < j \<longrightarrow> j < i + hum_regions vtab h i \<longrightarrow> hr_typ (hp_regions h ! j) = HumongousCont)))"

text \<open>An unmarked humongous object starts in region \<open>i\<close>.\<close>

definition dead_start :: "HeapBitmap \<Rightarrow> Heap \<Rightarrow> nat \<Rightarrow> bool" where
  "dead_start marks h i \<longleftrightarrow> hr_typ (hp_regions h ! i) = HumongousStart \<and> \<not> check_bit marks (hr_begin (hp_regions h ! i))"

text \<open>No chunk ever gets to the end.\<close>

definition sweep_hangs :: "bool \<Rightarrow> nat \<Rightarrow> HeapOptions \<Rightarrow> bool" where
  "sweep_hangs parallel workers opts \<longleftrightarrow> parallel \<and> workers \<noteq> 0 \<and> parallel_region_stride opts = 0 \<and> 0 < region_count opts"

definition live_cells :: "HeapBitmap \<Rightarrow> Heap \<Rightarrow> (nat \<Rightarrow> block list) \<Rightarrow> nat \<Rightarrow> block list" where
  "live_cells marks h cs i = filter (live_cell (hp_memory h) marks) (cs i)"

text \<open>Region \<open>i\<close> is part of an unmarked humongous object that starts in one of the regions \<open>D\<close>.\<close>

definition trashed :: "(nat \<Rightarrow> VTable) \<Rightarrow> HeapBitmap \<Rightarrow> Heap \<Rightarrow> nat set \<Rightarrow> nat \<Rightarrow> bool" where
  "trashed vtab marks h D i \<longleftrightarrow> (\<exists>s \<in> D. s \<le> i \<and> i < s + hum_regions vtab h s \<and>
     hr_typ (hp_regions h ! s) = HumongousStart \<and> \<not> check_bit marks (hr_begin (hp_regions h ! s)))"

text \<open>The state of a region after the regions \<open>D\<close> of heap \<open>h\<close> were swept.\<close>

definition swept_type ::
  "(nat \<Rightarrow> VTable) \<Rightarrow> HeapBitmap \<Rightarrow> Heap \<Rightarrow> (nat \<Rightarrow> block list) \<Rightarrow> nat set \<Rightarrow> nat \<Rightarrow> RegionState" where
  "swept_type vtab marks h cs D i =
     (if hr_typ (hp_regions h ! i) = Regular then if i \<in> D \<and> live_cells marks h cs i = [] then Trash else Regular
      else if trashed vtab marks h D i then Trash else hr_typ (hp_regions h ! i))"

definition sweep_at ::
  "(nat \<Rightarrow> VTable) \<Rightarrow> HeapBitmap \<Rightarrow> (nat \<Rightarrow> block list) \<Rightarrow> Heap \<Rightarrow> nat set \<Rightarrow> Heap \<Rightarrow> (nat \<Rightarrow> block multiset) \<Rightarrow> nat \<Rightarrow> bool" where
  "sweep_at vtab marks cs h0 D h Bs i \<longleftrightarrow>
     hr_to_sweep (hp_regions h ! i) = (i \<notin> D \<and> hr_to_sweep (hp_regions h0 ! i)) \<and>
     hr_typ (hp_regions h ! i) = swept_type vtab marks h0 cs D i \<and>
     (if hr_typ (hp_regions h0 ! i) = Regular \<and> i \<in> D
      then Bs i = mset (all_gaps (hp_regions h0 ! i) (live_cells marks h0 cs i)) \<and>
        hr_used (hp_regions h ! i) = sum_list (map snd (live_cells marks h0 cs i)) \<and>
        (\<forall>c \<in> set (live_cells marks h0 cs i). \<forall>x \<in> block_bytes c. hp_memory h x = hp_memory h0 x)
      else (\<forall>x \<in> region_range (hp_regions h0 ! i). hp_memory h x = hp_memory h0 x) \<and>
        (hr_typ (hp_regions h0 ! i) = Regular \<longrightarrow> hp_regions h ! i = hp_regions h0 ! i))"

definition sweep_inv ::
  "(nat \<Rightarrow> VTable) \<Rightarrow> HeapBitmap \<Rightarrow> nat \<Rightarrow> (nat \<Rightarrow> block list) \<Rightarrow> Heap \<Rightarrow> nat set \<Rightarrow> Heap \<Rightarrow> (nat \<Rightarrow> block multiset) \<Rightarrow> bool" where
  "sweep_inv vtab marks n cs h0 D h Bs \<longleftrightarrow>
     heap_inv n h Bs \<and> hp_opts h = hp_opts h0 \<and> hp_mem_start h = hp_mem_start h0 \<and> hp_free_set h = hp_free_set h0 \<and>
     (\<forall>i < region_count (hp_opts h0). sweep_at vtab marks cs h0 D h Bs i)"

lemma trashed_insert:
  "trashed vtab marks h (insert i D) j \<longleftrightarrow> trashed vtab marks h D j \<or> trashed vtab marks h {i} j"
  by (auto simp: trashed_def)

lemma trashed_types:
  assumes "\<forall>s \<in> D. sweep_ready vtab marks n h s (cs s)" "trashed vtab marks h D i"
  shows "hr_typ (hp_regions h ! i) = HumongousStart \<and> i \<in> D \<or> hr_typ (hp_regions h ! i) = HumongousCont"
proof -
  from assms(2) obtain s where s: "s \<in> D" "s \<le> i" "i < s + hum_regions vtab h s" "hr_typ (hp_regions h ! s) = HumongousStart"
    by (auto simp: trashed_def)
  then show ?thesis using bspec [OF assms(1) s(1)] by (cases "s = i") (auto simp: sweep_ready_def Let_def)
qed

text \<open>Trashing the \<open>k\<close> regions that end at \<open>e\<close>.\<close>

lemma trash_loop_spec:
  assumes "heap_inv n h Bs" "k \<le> e" "e < region_count (hp_opts h)"
  shows "\<exists>h'. trash_loop k e h = Inr h' \<and> heap_inv n h' Bs \<and>
    h' = h\<lparr>hp_regions := map (\<lambda>j. if e < j + k \<and> j \<le> e then hr_make_trash (hp_regions h ! j) else hp_regions h ! j)
      [0..<region_count (hp_opts h)]\<rparr>"
  using assms
proof (induction k arbitrary: e h)
  case 0
  have "map (\<lambda>j. if e < j + 0 \<and> j \<le> e then hr_make_trash (hp_regions h ! j) else hp_regions h ! j) [0..<region_count (hp_opts h)] = hp_regions h"
    using 0(1) by (intro nth_equalityI) (auto simp: heap_inv_def)
  then show ?case using 0 by simp
next
  case (Suc k)
  note rD = heap_invD [OF Suc.prems(1,3)]
  let ?r = "hp_regions h ! e" and ?h1 = "put_region h e (hr_make_trash (hp_regions h ! e))"
  have "heap_inv n ?h1 (Bs(e := Bs e))"
  proof (rule heap_inv_put [OF Suc.prems(1,3)])
    show "region_inv n (hr_make_trash ?r) (hp_memory h) (Bs e)"
      by (rule region_inv_fields [OF _ _ _ _ rD(1)]) (simp_all add: hr_make_trash_def hr_is_empty_def)
    show "placed n h e (hr_make_trash ?r)" using rD(2) by (simp add: placed_def hr_make_trash_def)
  qed (simp_all add: put_region_def)
  then have hi1: "heap_inv n ?h1 Bs" by simp
  have o1: "hp_opts ?h1 = hp_opts h" "hp_regions ?h1 = (hp_regions h)[e := hr_make_trash ?r]" by (simp_all add: put_region_def)
  have "k \<le> e - 1" "e - 1 < region_count (hp_opts ?h1)" "1 \<le> e" using Suc.prems(2,3) o1 by simp_all
  from Suc.IH [OF hi1 this(1,2)] obtain h' where h': "trash_loop k (e - 1) ?h1 = Inr h'" "heap_inv n h' Bs"
    "h' = ?h1\<lparr>hp_regions := map (\<lambda>j. if e - 1 < j + k \<and> j \<le> e - 1 then hr_make_trash (hp_regions ?h1 ! j) else hp_regions ?h1 ! j)
      [0..<region_count (hp_opts ?h1)]\<rparr>" by blast
  have run: "trash_loop (Suc k) e h = Inr h'" using rD(3) h'(1) \<open>1 \<le> e\<close> by simp
  have "map (\<lambda>j. if e - 1 < j + k \<and> j \<le> e - 1 then hr_make_trash (hp_regions ?h1 ! j) else hp_regions ?h1 ! j) [0..<region_count (hp_opts ?h1)] =
    map (\<lambda>j. if e < j + Suc k \<and> j \<le> e then hr_make_trash (hp_regions h ! j) else hp_regions h ! j) [0..<region_count (hp_opts h)]"
    unfolding o1 using rD(4) \<open>1 \<le> e\<close> by (intro map_cong) (auto simp: nth_list_update)
  then have "h' = h\<lparr>hp_regions := map (\<lambda>j. if e < j + Suc k \<and> j \<le> e then hr_make_trash (hp_regions h ! j) else hp_regions h ! j)
      [0..<region_count (hp_opts h)]\<rparr>" unfolding h'(3) by (simp add: put_region_def)
  then show ?case using run h'(2) by blast
qed

lemma trash_loop_underflow: "e < length (hp_regions g) \<Longrightarrow> trash_loop (Suc e) e g = Inl ArithOverflow"
proof (induction e arbitrary: g)
  case (Suc e)
  let ?g = "put_region g (Suc e) (hr_make_trash (hp_regions g ! Suc e))"
  have "trash_loop (Suc (Suc e)) (Suc e) g = trash_loop (Suc e) e ?g"
    using Suc.prems by (subst trash_loop.simps(2)) (simp del: trash_loop.simps add: get_region_def)
  moreover have "trash_loop (Suc e) e ?g = Inl ArithOverflow" by (rule Suc.IH) (use Suc.prems in \<open>simp add: put_region_def\<close>)
  ultimately show ?case by simp
qed (simp add: get_region_def checked_sub_def)

lemma trash_humongous_spec:
  assumes hi: "heap_inv n h Bs" and k: "k = hum_regions vtab h i" "0 < k" "i + k \<le> region_count (hp_opts h)" and i: "0 < i"
  shows "\<exists>h'. trash_humongous_region_at vtab h (hp_regions h ! i) = Inr h' \<and> heap_inv n h' Bs \<and>
    h' = h\<lparr>hp_regions := map (\<lambda>j. if i \<le> j \<and> j < i + k then hr_make_trash (hp_regions h ! j) else hp_regions h ! j)
      [0..<region_count (hp_opts h)]\<rparr>"
proof -
  have "hr_index (hp_regions h ! i) = i" using heap_invD(2) [OF hi, of i] k by (simp add: placed_def)
  then have run: "trash_humongous_region_at vtab h (hp_regions h ! i) = trash_loop k (i + k - 1) h"
    using k(1,2) by (simp add: trash_humongous_region_at_def hum_regions_def Let_def)
  have "k \<le> i + k - 1" "i + k - 1 < region_count (hp_opts h)" using k(2,3) i by simp_all
  moreover have "(\<lambda>j. if i + k - 1 < j + k \<and> j \<le> i + k - 1 then hr_make_trash (hp_regions h ! j) else hp_regions h ! j) =
    (\<lambda>j. if i \<le> j \<and> j < i + k then hr_make_trash (hp_regions h ! j) else hp_regions h ! j)"
    using k(2) by (intro ext if_cong) auto
  ultimately show ?thesis using trash_loop_spec [OF hi, of k "i + k - 1"] unfolding run by simp
qed

text \<open>A region that a step leaves alone.\<close>

lemma sweep_at_frame:
  assumes "sweep_at vtab marks cs h0 D h Bs j" "j \<noteq> i" "hp_regions h' ! j = hp_regions h ! j" "Bs' j = Bs j"
    "\<not> trashed vtab marks h0 {i} j"
    "\<forall>x \<in> region_range (hp_regions h0 ! j). hp_memory h' x = hp_memory h x"
    "hr_typ (hp_regions h0 ! j) = Regular \<Longrightarrow> \<forall>c \<in> set (live_cells marks h0 cs j). block_bytes c \<subseteq> region_range (hp_regions h0 ! j)"
  shows "sweep_at vtab marks cs h0 (insert i D) h' Bs' j"
proof -
  have "swept_type vtab marks h0 cs (insert i D) j = swept_type vtab marks h0 cs D j"
    using assms(2,5) trashed_insert [of vtab marks h0 i D j] by (simp add: swept_type_def)
  moreover have "\<forall>c \<in> set (live_cells marks h0 cs j). \<forall>x \<in> block_bytes c. hp_memory h' x = hp_memory h x"
    if "hr_typ (hp_regions h0 ! j) = Regular" using assms(6,7) that by blast
  ultimately show ?thesis using assms(1-4,6) unfolding sweep_at_def by (cases "hr_typ (hp_regions h0 ! j) = Regular \<and> j \<in> D") (simp, auto)
qed

lemma live_cells_in_region:
  assumes "heap_inv n h Bs" "i < region_count (hp_opts h)" "sweep_ready vtab marks n h i (cs i)" "hr_typ (hp_regions h ! i) = Regular"
    "c \<in> set (live_cells marks h cs i)"
  shows "block_bytes c \<subseteq> region_range (hp_regions h ! i)"
proof -
  have "tiled vtab (hp_memory h) (hr_begin (hp_regions h ! i)) (hr_end (hp_regions h ! i)) (cs i)"
    using assms(3,4) by (simp add: sweep_ready_def Let_def)
  from tiled_cells [OF this, of "fst c" "snd c"] assms(5) show ?thesis
    by (auto simp: live_cells_def region_range_def block_bytes_def)
qed

lemma same_region:
  assumes "heap_inv n h Bs" "heap_inv n h' Bs'" "hp_opts h' = hp_opts h" "hp_mem_start h' = hp_mem_start h" "i < region_count (hp_opts h)"
  shows "hr_begin (hp_regions h' ! i) = hr_begin (hp_regions h ! i)" "hr_end (hp_regions h' ! i) = hr_end (hp_regions h ! i)"
    "region_range (hp_regions h' ! i) = region_range (hp_regions h ! i)"
proof -
  have i': "i < region_count (hp_opts h')" using assms(3,5) by simp
  show b: "hr_begin (hp_regions h' ! i) = hr_begin (hp_regions h ! i)"
    using heap_invD(2) [OF assms(1,5)] heap_invD(2) [OF assms(2) i'] assms(4) by (simp add: placed_def)
  then show "hr_end (hp_regions h' ! i) = hr_end (hp_regions h ! i)"
    using region_invD(5) [OF heap_invD(1) [OF assms(1,5)]] region_invD(5) [OF heap_invD(1) [OF assms(2) i']] by simp
  then show "region_range (hp_regions h' ! i) = region_range (hp_regions h ! i)" using b by (simp add: region_range_def)
qed

definition flag_cleared :: "Heap \<Rightarrow> nat \<Rightarrow> Heap" where
  "flag_cleared h i = put_region h i ((hp_regions h ! i)\<lparr>hr_to_sweep := False\<rparr>)"

lemma flag_cleared_simps [simp]:
  "hp_opts (flag_cleared h i) = hp_opts h" "hp_memory (flag_cleared h i) = hp_memory h"
  "hp_mem_start (flag_cleared h i) = hp_mem_start h" "hp_free_set (flag_cleared h i) = hp_free_set h"
  "hp_regions (flag_cleared h i) = (hp_regions h)[i := (hp_regions h ! i)\<lparr>hr_to_sweep := False\<rparr>]"
  by (simp_all add: flag_cleared_def put_region_def)

lemma flag_cleared_inv:
  assumes "heap_inv n h Bs" "i < region_count (hp_opts h)"
  shows "heap_inv n (flag_cleared h i) Bs"
proof -
  note rD = heap_invD [OF assms]
  have "heap_inv n (flag_cleared h i) (Bs(i := Bs i))"
  proof (rule heap_inv_put [OF assms])
    show "region_inv n ((hp_regions h ! i)\<lparr>hr_to_sweep := False\<rparr>) (hp_memory h) (Bs i)"
      by (rule region_inv_fields [OF _ _ _ _ rD(1)]) (simp_all add: hr_is_empty_def)
    show "placed n h i ((hp_regions h ! i)\<lparr>hr_to_sweep := False\<rparr>)" using rD(2) by (simp add: placed_def)
  qed simp_all
  then show ?thesis by simp
qed


text \<open>The three kinds of step, from a heap in which the regions \<open>D\<close> were swept.\<close>

definition phase_ok :: "(nat \<Rightarrow> VTable) \<Rightarrow> HeapBitmap \<Rightarrow> nat \<Rightarrow> (nat \<Rightarrow> block list) \<Rightarrow> Heap \<Rightarrow> (nat \<Rightarrow> block multiset) \<Rightarrow> bool" where
  "phase_ok vtab marks n cs h0 Bs0 \<longleftrightarrow> heap_inv n h0 Bs0 \<and> (\<forall>i < region_count (hp_opts h0).
     sweep_ready vtab marks n h0 i (cs i) \<and>
     hr_to_sweep (hp_regions h0 ! i) = (hr_typ (hp_regions h0 ! i) \<in> {Regular, HumongousStart}))"

lemma phase_okD:
  assumes "phase_ok vtab marks n cs h0 Bs0"
  shows "heap_inv n h0 Bs0"
    "i < region_count (hp_opts h0) \<Longrightarrow> sweep_ready vtab marks n h0 i (cs i)"
    "i < region_count (hp_opts h0) \<Longrightarrow> hr_to_sweep (hp_regions h0 ! i) = (hr_typ (hp_regions h0 ! i) \<in> {Regular, HumongousStart})"
    "i < region_count (hp_opts h0) \<Longrightarrow> hr_typ (hp_regions h0 ! i) = Regular \<Longrightarrow>
       \<forall>c \<in> set (live_cells marks h0 cs i). block_bytes c \<subseteq> region_range (hp_regions h0 ! i)"
  using assms live_cells_in_region [of n h0 Bs0 i vtab marks cs] by (auto simp: phase_ok_def simp del: split_paired_All)

lemma sweep_invD:
  assumes "sweep_inv vtab marks n cs h0 D h Bs"
  shows "heap_inv n h Bs" "hp_opts h = hp_opts h0" "hp_mem_start h = hp_mem_start h0" "hp_free_set h = hp_free_set h0"
    "i < region_count (hp_opts h0) \<Longrightarrow> sweep_at vtab marks cs h0 D h Bs i"
  using assms by (auto simp: sweep_inv_def)

lemma sweep_inv_skip:
  assumes ok: "phase_ok vtab marks n cs h0 Bs0" and inv: "sweep_inv vtab marks n cs h0 D h Bs" and i: "i < region_count (hp_opts h0)" "i \<notin> D"
    and t: "hr_typ (hp_regions h0 ! i) \<noteq> Regular"
      "hr_typ (hp_regions h0 ! i) = HumongousStart \<Longrightarrow> check_bit marks (hr_begin (hp_regions h0 ! i))"
  shows "sweep_inv vtab marks n cs h0 (insert i D) (flag_cleared h i) Bs"
proof -
  note iD = sweep_invD [OF inv]
  have i': "i < region_count (hp_opts h)" using i iD(2) by simp
  have nt: "\<not> trashed vtab marks h0 {i} j" for j using t(2) by (auto simp: trashed_def)
  have "sweep_at vtab marks cs h0 (insert i D) (flag_cleared h i) Bs j" if j: "j < region_count (hp_opts h0)" for j
  proof (cases "j = i")
    case True
    have "swept_type vtab marks h0 cs (insert i D) i = swept_type vtab marks h0 cs D i"
      using t(1) nt trashed_insert [of vtab marks h0 i D i] by (simp add: swept_type_def)
    then show ?thesis using iD(5) [OF i(1)] t(1) heap_invD(4) [OF iD(1) i'] True unfolding sweep_at_def by simp
  next
    case False
    show ?thesis
      by (rule sweep_at_frame [OF iD(5) [OF j] False _ _ nt]) (use False phase_okD(4) [OF ok j] in simp_all)
  qed
  then show ?thesis
    using flag_cleared_inv [OF iD(1) i'] iD(2-4) by (simp add: sweep_inv_def)
qed

lemma sweep_inv_trash:
  assumes ok: "phase_ok vtab marks n cs h0 Bs0" and inv: "sweep_inv vtab marks n cs h0 D h Bs" and i: "i < region_count (hp_opts h0)" "i \<notin> D"
    and t: "hr_typ (hp_regions h0 ! i) = HumongousStart" "\<not> check_bit marks (hr_begin (hp_regions h0 ! i))"
    and r: "r = (hp_regions h ! i)\<lparr>hr_to_sweep := False\<rparr>"
  obtains (underflow) "i = 0" "trash_humongous_region_at vtab (flag_cleared h i) r = Inl ArithOverflow"
  | (trash) h' where "0 < i" "trash_humongous_region_at vtab (flag_cleared h i) r = Inr h'"
    "sweep_inv vtab marks n cs h0 (insert i D) h' Bs"
    "heap_size vtab (hp_memory (flag_cleared h i)) (hr_begin r) = heap_size vtab (hp_memory h0) (hr_begin (hp_regions h0 ! i))"
proof -
  note iD = sweep_invD [OF inv]
  let ?h1 = "flag_cleared h i" and ?k = "hum_regions vtab h0 i"
  have i': "i < region_count (hp_opts h)" using i iD(2) by simp
  note sp = same_region [OF phase_okD(1) [OF ok] iD(1-3)]
  have ready: "sized vtab (hp_memory h0) (hr_begin (hp_regions h0 ! i), 2 ^ n)" "0 < ?k" "i + ?k \<le> region_count (hp_opts h0)"
    "\<And>j. i < j \<Longrightarrow> j < i + ?k \<Longrightarrow> hr_typ (hp_regions h0 ! j) = HumongousCont"
    using phase_okD(2) [OF ok i(1)] t by (simp_all add: sweep_ready_def Let_def)
  have mem: "\<forall>x \<in> region_range (hp_regions h0 ! i). hp_memory h x = hp_memory h0 x"
    using iD(5) [OF i(1)] t(1) by (simp add: sweep_at_def)
  have n: "16 \<le> (2::nat) ^ n" using region_invD(1) [OF heap_invD(1) [OF iD(1) i']] power_increasing [of 4 n "2::nat"] by simp
  have rng: "region_range (hp_regions h0 ! i) = block_bytes (hr_begin (hp_regions h0 ! i), 2 ^ n)"
    using region_invD(5) [OF heap_invD(1) [OF phase_okD(1) [OF ok] i(1)]] by (simp add: region_range_def block_bytes_def)
  have hs: "heap_size vtab (hp_memory h) (hr_begin (hp_regions h ! i)) = heap_size vtab (hp_memory h0) (hr_begin (hp_regions h0 ! i))"
    using sized_frame(1) [OF n ready(1)] mem unfolding rng sp(1) [OF i(1)] by blast
  have ri: "hp_regions ?h1 ! i = r" using heap_invD(4) [OF iD(1) i'] r by simp
  have rb: "hr_begin r = hr_begin (hp_regions h ! i)" by (simp add: r)
  have k: "hum_regions vtab ?h1 i = ?k"
    using hs iD(2) unfolding hum_regions_def ri by (simp add: rb)
  show thesis
  proof (cases "i = 0")
    case True
    have "trash_humongous_region_at vtab ?h1 r = Inl ArithOverflow"
    proof -
      have "hr_index r = 0" using heap_invD(2) [OF flag_cleared_inv [OF iD(1) i'], of i] i' True ri by (simp add: placed_def)
      then have "trash_humongous_region_at vtab ?h1 r = trash_loop ?k (?k - 1) ?h1"
        using k ri ready(2) by (simp add: trash_humongous_region_at_def hum_regions_def Let_def)
      moreover have "?k - 1 < length (hp_regions ?h1)" using iD(1,2) ready(2,3) True by (simp add: heap_inv_def)
      ultimately show ?thesis using trash_loop_underflow [of "?k - 1" ?h1] ready(2) by simp
    qed
    then show thesis using underflow True by simp
  next
    case False
    then have ipos: "0 < i" by simp
  obtain h' where h': "trash_humongous_region_at vtab ?h1 r = Inr h'" "heap_inv n h' Bs"
    "h' = ?h1\<lparr>hp_regions := map (\<lambda>j. if i \<le> j \<and> j < i + ?k then hr_make_trash (hp_regions ?h1 ! j) else hp_regions ?h1 ! j)
      [0..<region_count (hp_opts ?h1)]\<rparr>"
    using trash_humongous_spec [OF flag_cleared_inv [OF iD(1) i'] k [symmetric]] ready(2,3) ipos iD(2) unfolding ri by auto
  have f: "hp_opts h' = hp_opts h0" "hp_memory h' = hp_memory h" "hp_mem_start h' = hp_mem_start h0" "hp_free_set h' = hp_free_set h0"
    using h'(3) iD(2-4) by simp_all
  have reg: "hp_regions h' ! j = (if i \<le> j \<and> j < i + ?k then hr_make_trash (hp_regions ?h1 ! j) else hp_regions ?h1 ! j)"
    if "j < region_count (hp_opts h0)" for j using h'(3) iD(2) that by simp
  have "sweep_at vtab marks cs h0 (insert i D) h' Bs j" if j: "j < region_count (hp_opts h0)" for j
  proof (cases "i \<le> j \<and> j < i + ?k")
    case True
    then have "trashed vtab marks h0 {i} j" using t by (simp add: trashed_def)
    then have tr: "trashed vtab marks h0 (insert i D) j" using trashed_insert [of vtab marks h0 i D j] by simp
    have nr: "hr_typ (hp_regions h0 ! j) \<noteq> Regular" using ready(4) [of j] True t(1) by (cases "j = i") auto
    have "hr_to_sweep (hp_regions ?h1 ! j) = (j \<notin> insert i D \<and> hr_to_sweep (hp_regions h0 ! j))"
      using iD(5) [OF j] heap_invD(4) [OF iD(1) i'] by (cases "j = i") (simp_all add: sweep_at_def)
    then show ?thesis
      using True tr nr iD(5) [OF j] f(2) reg [OF j] unfolding sweep_at_def swept_type_def by (simp add: hr_make_trash_def)
  next
    case False
    then have "\<not> trashed vtab marks h0 {i} j" "j \<noteq> i" using ready(2) by (auto simp: trashed_def)
    moreover from this have "hp_regions h' ! j = hp_regions h ! j" unfolding reg [OF j] if_not_P [OF False] by simp
    ultimately show ?thesis
      by (intro sweep_at_frame [OF iD(5) [OF j]]) (use f(2) phase_okD(4) [OF ok j] in simp_all)
  qed
  then have "sweep_inv vtab marks n cs h0 (insert i D) h' Bs" using h'(2) f by (simp add: sweep_inv_def)
  then show thesis using h'(1) hs rb ipos by (intro trash) simp_all
  qed
qed

lemma sweep_inv_regular:
  assumes ok: "phase_ok vtab marks n cs h0 Bs0" and inv: "sweep_inv vtab marks n cs h0 D h Bs" and i: "i < region_count (hp_opts h0)" "i \<notin> D"
    and t: "hr_typ (hp_regions h0 ! i) = Regular" and r: "r = (hp_regions h ! i)\<lparr>hr_to_sweep := False\<rparr>"
  obtains r' m' h' where "sweep_region vtab (hp_opts h) marks r (hp_memory h) = Some (Inr (live_cells marks h0 cs i = [], r', m'))"
    "h' = put_region ((flag_cleared h i)\<lparr>hp_memory := m'\<rparr>) i (if live_cells marks h0 cs i = [] then hr_make_trash r' else r')"
    "sweep_inv vtab marks n cs h0 (insert i D) h' (Bs(i := mset (all_gaps (hp_regions h0 ! i) (live_cells marks h0 cs i))))"
proof -
  note iD = sweep_invD [OF inv]
  let ?r0 = "hp_regions h0 ! i" and ?ks = "live_cells marks h0 cs i"
  have i': "i < region_count (hp_opts h)" using i iD(2) by simp
  note rD = heap_invD [OF iD(1) i']
  have at: "hp_regions h ! i = ?r0" "\<forall>x \<in> region_range ?r0. hp_memory h x = hp_memory h0 x"
    using iD(5) [OF i(1)] t i(2) by (simp_all add: sweep_at_def)
  have rf: "hr_begin r = hr_begin ?r0" "hr_end r = hr_end ?r0" "hr_index r = hr_index ?r0" "hr_typ r = Regular" "\<not> hr_to_sweep r"
    "hr_object_start_bitmap r = hr_object_start_bitmap ?r0"
    using at(1) t by (simp_all add: r)
  have ready: "tiled vtab (hp_memory h0) (hr_begin r) (hr_end r) (cs i)" "\<forall>c \<in> set (cs i). sized vtab (hp_memory h0) c"
    "marks_cover marks r" "bitmap_ok n r"
    using phase_okD(2) [OF ok i(1)] t at(1) by (simp_all add: sweep_ready_def Let_def marks_cover_def bitmap_ok_def r)
  have ti: "tiled vtab (hp_memory h) (hr_begin r) (hr_end r) (cs i)"
    by (rule tiled_sized_frame [OF ready(1,2)]) (use at(2) rf in \<open>simp add: region_range_def\<close>)
  have "live_cell (hp_memory h) marks c = live_cell (hp_memory h0) marks c" if "c \<in> set (cs i)" for c
    using tiled_cells [OF ready(1), of "fst c" "snd c"] that at(2) rf by (simp add: live_cell_def region_range_def)
  then have ks: "?ks = filter (live_cell (hp_memory h) marks) (cs i)" unfolding live_cells_def by (intro filter_cong) simp_all
  have ri: "region_inv n r (hp_memory h) (Bs i)"
    by (rule region_inv_fields [OF _ _ _ _ rD(1)]) (simp_all add: r hr_is_empty_def)
  have sz: "region_size_bytes (hp_opts h) = 2 ^ n" using iD(1) by (simp add: heap_inv_def opts_ok_def)
  have ag: "all_gaps r ?ks = all_gaps ?r0 ?ks" by (simp add: all_gaps_def rf)
  obtain r' m' where s: "sweep_region vtab (hp_opts h) marks r (hp_memory h) = Some (Inr (?ks = [], r', m'))"
    "region_inv n r' m' (mset (all_gaps r ?ks))" "hr_typ r' = Regular" "hr_index r' = hr_index r" "hr_begin r' = hr_begin r"
    "hr_used r' = sum_list (map snd ?ks)" "\<And>x. x \<notin> \<Union>(block_bytes ` set (all_gaps r ?ks)) \<Longrightarrow> m' x = hp_memory h x"
    "hr_to_sweep r' = hr_to_sweep r" "hb_offset (hr_object_start_bitmap r') = hr_begin r"
    "hb_limit (hr_object_start_bitmap r') = hb_limit (hr_object_start_bitmap r)"
    by (rule sweep_region_spec [OF ri rf(4) sz ti ready(3,4) ks], rule that)
  define r2 where "r2 = (if ?ks = [] then hr_make_trash r' else r')"
  define h' where "h' = put_region ((flag_cleared h i)\<lparr>hp_memory := m'\<rparr>) i r2"
  have r2: "hr_begin r2 = hr_begin r'" "hr_end r2 = hr_end r'" "hr_free_list r2 = hr_free_list r'" "hr_is_empty r2 \<longrightarrow> hr_is_empty r'"
    "hr_index r2 = hr_index r'" "hr_object_start_bitmap r2 = hr_object_start_bitmap r'" "hr_used r2 = hr_used r'"
    "hr_to_sweep r2 = hr_to_sweep r'" "hr_typ r2 = (if ?ks = [] then Trash else Regular)"
    using s(3) by (auto simp: r2_def hr_make_trash_def hr_is_empty_def)
  have f: "hp_opts h' = hp_opts h" "hp_memory h' = m'" "hp_mem_start h' = hp_mem_start h" "hp_free_set h' = hp_free_set h"
    "hp_regions h' = (hp_regions h)[i := r2]" by (simp_all add: h'_def put_region_def)
  have "hr_end r' = hr_end r" using region_invD(5) [OF s(2)] region_invD(5) [OF ri] s(5) by simp
  then have "\<forall>b \<in> set (all_gaps r ?ks). block_bytes b \<subseteq> region_range (hp_regions h ! i)"
    using region_invD(8) [OF s(2)] s(5) rf at(1) by (simp add: region_range_def)
  then have mem: "\<forall>x. x \<notin> region_range (hp_regions h ! i) \<longrightarrow> m' x = hp_memory h x" using s(7) by blast
  have pl: "placed n h i r2" using placed_put [OF _ _ _ _ rD(2), of r2] r2 s(4,5,9,10) rf at(1) by simp
  have hi: "heap_inv n h' (Bs(i := mset (all_gaps r ?ks)))"
    by (rule heap_inv_put [OF iD(1) i' region_inv_fields [OF r2(1-4) s(2)] pl mem f(5,2,1,3)])
  have o: "ordered (hr_begin r) (hr_end r) ?ks" unfolding ks by (rule tiled_ordered [OF ti]) simp
  have keep: "m' x = hp_memory h0 x" if "c \<in> set ?ks" "x \<in> block_bytes c" for c x
  proof -
    have "x \<notin> \<Union>(block_bytes ` set (all_gaps r ?ks))" using all_gaps_disjoint [OF o that(1)] that(2) by blast
    moreover have "x \<in> region_range ?r0" using phase_okD(4) [OF ok i(1) t] that by blast
    ultimately show ?thesis using s(7) at(2) by simp
  qed
  have nt: "\<not> trashed vtab marks h0 {i} j" for j using t by (auto simp: trashed_def)
  have "sweep_at vtab marks cs h0 (insert i D) h' (Bs(i := mset (all_gaps r ?ks))) j" if j: "j < region_count (hp_opts h0)" for j
  proof (cases "j = i")
    case True
    have "hp_regions h' ! i = r2" using rD(4) f(5) by simp
    moreover have "\<forall>c \<in> set ?ks. \<forall>x \<in> block_bytes c. m' x = hp_memory h0 x" using keep by blast
    ultimately show ?thesis
      unfolding True sweep_at_def swept_type_def f(2) using r2(7-9) s(6,8) rf(5) t ag by simp
  next
    case False
    have j': "j < region_count (hp_opts h)" using j iD(2) by simp
    have "region_range (hp_regions h0 ! j) = region_range (hp_regions h ! j)"
      using same_region(3) [OF phase_okD(1) [OF ok] iD(1-3) j] by simp
    then have "\<forall>x \<in> region_range (hp_regions h0 ! j). m' x = hp_memory h x"
      using mem region_ranges_disjoint [OF iD(1) j' i' False] by blast
    then show ?thesis
      by (intro sweep_at_frame [OF iD(5) [OF j] False _ _ nt]) (use False f(2,5) phase_okD(4) [OF ok j] in simp_all)
  qed
  then have "sweep_inv vtab marks n cs h0 (insert i D) h' (Bs(i := mset (all_gaps ?r0 ?ks)))"
    using hi f iD(2-4) unfolding ag by (simp add: sweep_inv_def)
  then show thesis using s(1) h'_def r2_def by (intro that) simp_all
qed

lemma flag_cleared_id:
  assumes "\<not> hr_to_sweep (hp_regions h ! i)"
  shows "flag_cleared h i = h"
proof -
  have "(hp_regions h ! i)\<lparr>hr_to_sweep := False\<rparr> = hp_regions h ! i" using assms by simp
  then show ?thesis unfolding flag_cleared_def put_region_def by simp
qed

lemma sweep_region_do_spec:
  assumes ok: "phase_ok vtab marks n cs h0 Bs0" and inv: "sweep_inv vtab marks n cs h0 D (sc_heap c) Bs"
    and i: "i < region_count (hp_opts h0)" "i \<notin> D"
  obtains (underflow) "i = 0" "dead_start marks h0 i" "sweep_region_do vtab marks i c = Some (Inl ArithOverflow)"
  | (swept) c' Bs' where "\<not> (i = 0 \<and> dead_start marks h0 i)" "sweep_region_do vtab marks i c = Some (Inr c')"
      "sweep_inv vtab marks n cs h0 (insert i D) (sc_heap c') Bs'"
proof -
  note iD = sweep_invD [OF inv]
  let ?h = "sc_heap c"
  have i': "i < region_count (hp_opts ?h)" using i iD(2) by simp
  note g = heap_invD(3) [OF iD(1) i']
  have at: "hr_to_sweep (hp_regions ?h ! i) = (hr_typ (hp_regions h0 ! i) \<in> {Regular, HumongousStart})"
    "hr_typ (hp_regions ?h ! i) = swept_type vtab marks h0 cs D i"
    using iD(5) [OF i(1)] phase_okD(3) [OF ok i(1)] i(2) by (simp_all add: sweep_at_def)
  have nt: "\<not> trashed vtab marks h0 D i" if "hr_typ (hp_regions h0 ! i) = HumongousStart"
  proof
    assume "trashed vtab marks h0 D i"
    then obtain s where s: "s \<in> D" "s \<le> i" "i < s + hum_regions vtab h0 s" "hr_typ (hp_regions h0 ! s) = HumongousStart"
      by (auto simp: trashed_def)
    have "s < i" using s i(2) by (cases "s = i") auto
    moreover have "sweep_ready vtab marks n h0 s (cs s)" using phase_okD(2) [OF ok, of s] \<open>s < i\<close> i(1) by simp
    ultimately show False using s that by (simp add: sweep_ready_def Let_def)
  qed
  define r where "r = (hp_regions ?h ! i)\<lparr>hr_to_sweep := False\<rparr>"
  have fc: "put_region ?h i r = flag_cleared ?h i" by (simp add: flag_cleared_def r_def)
  have rt: "hr_typ r = hr_typ (hp_regions ?h ! i)" by (simp add: r_def)
  have rb: "hr_begin r = hr_begin (hp_regions h0 ! i)"
    using same_region(1) [OF phase_okD(1) [OF ok] iD(1-3) i(1)] by (simp add: r_def)
  note do = sweep_region_do_def [of vtab marks i c, unfolded g obind_simps]
  consider (reg) "hr_typ (hp_regions h0 ! i) = Regular" | (hum) "hr_typ (hp_regions h0 ! i) = HumongousStart"
    | (other) "hr_typ (hp_regions h0 ! i) \<notin> {Regular, HumongousStart}" by blast
  then show thesis
  proof cases
    case reg
    obtain r' m' h' where s: "sweep_region vtab (hp_opts ?h) marks r (hp_memory ?h) = Some (Inr (live_cells marks h0 cs i = [], r', m'))"
      "h' = put_region ((flag_cleared ?h i)\<lparr>hp_memory := m'\<rparr>) i (if live_cells marks h0 cs i = [] then hr_make_trash r' else r')"
      "sweep_inv vtab marks n cs h0 (insert i D) h' (Bs(i := mset (all_gaps (hp_regions h0 ! i) (live_cells marks h0 cs i))))"
      by (rule sweep_inv_regular [OF ok inv i reg r_def])
    have ty: "hr_typ r = Regular" using at(2) reg i(2) rt by (simp add: swept_type_def)
    have "sweep_region_do vtab marks i c = sweep_regular vtab marks i r (c\<lparr>sc_heap := flag_cleared ?h i\<rparr>)"
      using at(1) reg ty unfolding do r_def [symmetric] fc Let_def
      by (simp add: hr_is_humongous_start_def hr_is_humongous_cont_def hr_is_regular_def)
    then show thesis
      using s reg swept by (cases "live_cells marks h0 cs i = []") (simp_all add: sweep_regular_def dead_start_def Let_def)
  next
    case hum
    have ty: "hr_typ r = HumongousStart" using at(2) hum nt rt by (simp add: swept_type_def)
    show thesis
    proof (cases "check_bit marks (hr_begin r)")
      case True
      then have "sweep_region_do vtab marks i c = Some (Inr (c\<lparr>sc_heap := flag_cleared ?h i, sc_live := sc_live c + 1\<rparr>))"
        using at(1) hum ty unfolding do r_def [symmetric] fc Let_def by (simp add: hr_is_humongous_start_def)
      moreover have "sweep_inv vtab marks n cs h0 (insert i D) (flag_cleared ?h i) Bs"
        using sweep_inv_skip [OF ok inv i] hum True rb by simp
      ultimately show thesis using True rb
        by (intro swept [of "c\<lparr>sc_heap := flag_cleared ?h i, sc_live := sc_live c + 1\<rparr>" Bs]) (simp_all add: dead_start_def)
    next
      case False
      then have dead: "\<not> check_bit marks (hr_begin (hp_regions h0 ! i))" using rb by simp
      show thesis
      proof (cases rule: sweep_inv_trash [OF ok inv i hum dead r_def])
        case 1
        then have "sweep_region_do vtab marks i c = Some (Inl ArithOverflow)"
          using at(1) hum ty False unfolding do r_def [symmetric] fc Let_def by (simp add: hr_is_humongous_start_def)
        then show thesis using underflow 1 hum dead by (simp add: dead_start_def)
      next
        case (2 h')
        then show thesis
          using at(1) hum ty False swept unfolding do r_def [symmetric] fc Let_def by (simp add: hr_is_humongous_start_def)
      qed
    qed
  next
    case other
    then have "sweep_region_do vtab marks i c = Some (Inr c)" using at(1) unfolding do by simp
    moreover have "sweep_inv vtab marks n cs h0 (insert i D) ?h Bs"
      using sweep_inv_skip [OF ok inv i] other flag_cleared_id [of ?h i] at(1) by simp
    ultimately show thesis using other by (intro swept [of c Bs]) (simp_all add: dead_start_def)
  qed
qed

lemma sweep_regions_spec:
  assumes ok: "phase_ok vtab marks n cs h0 Bs0" and inv: "sweep_inv vtab marks n cs h0 D (sc_heap c) Bs"
    and dist: "distinct is" "set is \<subseteq> {..<region_count (hp_opts h0)} - D"
  shows "if 0 \<in> set is \<and> dead_start marks h0 0 then sweep_regions vtab marks is c = Some (Inl ArithOverflow)
    else \<exists>c' Bs'. sweep_regions vtab marks is c = Some (Inr c') \<and> sweep_inv vtab marks n cs h0 (D \<union> set is) (sc_heap c') Bs'"
  using inv dist
proof (induction "is" arbitrary: D c Bs)
  case (Cons i xs)
  have i: "i < region_count (hp_opts h0)" "i \<notin> D" using Cons.prems(3) by auto
  show ?case
  proof (cases rule: sweep_region_do_spec [OF ok Cons.prems(1) i])
    case 1
    then show ?thesis by simp
  next
    case (2 c1 Bs1)
    have "if 0 \<in> set xs \<and> dead_start marks h0 0 then sweep_regions vtab marks xs c1 = Some (Inl ArithOverflow)
      else \<exists>c' Bs'. sweep_regions vtab marks xs c1 = Some (Inr c') \<and> sweep_inv vtab marks n cs h0 (insert i D \<union> set xs) (sc_heap c') Bs'"
      by (rule Cons.IH [OF 2(3)]) (use Cons.prems in auto)
    then show ?thesis using 2(1,2) by (auto simp: insert_commute split: if_splits)
  qed
qed auto

text \<open>Preparing the regions sets flags only.\<close>

definition swept_kind :: "HeapRegion \<Rightarrow> bool" where
  "swept_kind r \<longleftrightarrow> hr_typ r \<in> {Regular, HumongousStart}"

definition prepared :: "nat set \<Rightarrow> Heap \<Rightarrow> Heap \<Rightarrow> bool" where
  "prepared D h h' \<longleftrightarrow> hp_opts h' = hp_opts h \<and> hp_mem_start h' = hp_mem_start h \<and> hp_memory h' = hp_memory h \<and>
     fs_max (hp_free_set h') = fs_max (hp_free_set h) \<and>
     db_bit_count (mutator_free_bitmap (hp_free_set h')) = db_bit_count (mutator_free_bitmap (hp_free_set h)) \<and>
     (\<forall>i < region_count (hp_opts h). hp_regions h' ! i =
        (if i \<in> D \<and> swept_kind (hp_regions h ! i) then (hp_regions h ! i)\<lparr>hr_to_sweep := True\<rparr> else hp_regions h ! i))"

lemma prepare_unswept_do_spec:
  assumes "heap_inv n h Bs" "i < region_count (hp_opts h)" "db_wf (mutator_free_bitmap (hp_free_set h))"
    "db_bit_count (mutator_free_bitmap (hp_free_set h)) = region_count (hp_opts h)"
  obtains h' where "prepare_unswept_do i h = Inr h'" "heap_inv n h' Bs" "db_wf (mutator_free_bitmap (hp_free_set h'))" "prepared {i} h h'"
proof -
  note rD = heap_invD [OF assms(1,2)]
  let ?r = "hp_regions h ! i" and ?fs = "hp_free_set h"
  have ix: "hr_index ?r = i" using rD(2) by (simp add: placed_def)
  have k: "hr_is_regular ?r \<or> hr_is_humongous_start ?r \<longleftrightarrow> swept_kind ?r"
    by (auto simp: swept_kind_def hr_is_regular_def hr_is_humongous_start_def)
  show thesis
  proof (cases "swept_kind ?r")
    case True
    define h' where "h' = (put_region h i (?r\<lparr>hr_to_sweep := True\<rparr>))
       \<lparr>hp_free_set := ?fs\<lparr>mutator_free_bitmap := db_set (mutator_free_bitmap ?fs) i False\<rparr>\<rparr>"
    have run: "prepare_unswept_do i h = Inr h'"
      using True rD(3) k ix by (simp add: prepare_unswept_do_def h'_def Let_def)
    have f: "hp_opts h' = hp_opts h" "hp_mem_start h' = hp_mem_start h" "hp_memory h' = hp_memory h"
      "hp_regions h' = (hp_regions h)[i := ?r\<lparr>hr_to_sweep := True\<rparr>]" by (simp_all add: h'_def put_region_def)
    have "region_inv n (?r\<lparr>hr_to_sweep := True\<rparr>) (hp_memory h) (Bs i)"
      by (rule region_inv_fields [OF _ _ _ _ rD(1)]) (simp_all add: hr_is_empty_def)
    moreover have "placed n h i (?r\<lparr>hr_to_sweep := True\<rparr>)" using rD(2) by (simp add: placed_def)
    ultimately have "heap_inv n h' (Bs(i := Bs i))" by (intro heap_inv_put [OF assms(1,2)]) (use f in simp_all)
    moreover have "db_wf (db_set (mutator_free_bitmap ?fs) i False)" using db_wf_set [OF assms(3)] assms(2,4) by simp
    moreover have "prepared {i} h h'"
      using True rD(4) f unfolding prepared_def by (auto simp: h'_def db_set_def Let_def)
    ultimately show thesis using run by (intro that [of h']) (simp_all add: h'_def)
  next
    case False
    then have "prepare_unswept_do i h = Inr h" using rD(3) k by (simp add: prepare_unswept_do_def)
    moreover have "prepared {i} h h" using False by (simp add: prepared_def)
    ultimately show thesis using assms(1,3) by (intro that [of h])
  qed
qed

lemma prepared_trans:
  assumes "prepared D h h1" "prepared E h1 h2"
  shows "prepared (D \<union> E) h h2"
proof -
  have "swept_kind (hp_regions h1 ! i) = swept_kind (hp_regions h ! i)" if "i < region_count (hp_opts h)" for i
    using assms(1) that by (auto simp: prepared_def swept_kind_def)
  then show ?thesis using assms unfolding prepared_def by auto
qed

lemma prepare_unswept_spec:
  assumes "heap_inv n h Bs" "set is \<subseteq> {..<region_count (hp_opts h)}" "db_wf (mutator_free_bitmap (hp_free_set h))"
    "db_bit_count (mutator_free_bitmap (hp_free_set h)) = region_count (hp_opts h)"
  shows "\<exists>h'. prepare_unswept is h = Inr h' \<and> heap_inv n h' Bs \<and> db_wf (mutator_free_bitmap (hp_free_set h')) \<and> prepared (set is) h h'"
  using assms
proof (induction "is" arbitrary: h)
  case (Cons i xs)
  have "i < region_count (hp_opts h)" using Cons.prems(2) by simp
  from prepare_unswept_do_spec [OF Cons.prems(1) this Cons.prems(3,4)] obtain h1 where
    h1: "prepare_unswept_do i h = Inr h1" "heap_inv n h1 Bs" "db_wf (mutator_free_bitmap (hp_free_set h1))" "prepared {i} h h1" .
  have "hp_opts h1 = hp_opts h" "db_bit_count (mutator_free_bitmap (hp_free_set h1)) = region_count (hp_opts h)"
    using h1(4) Cons.prems(4) by (simp_all add: prepared_def)
  then obtain h2 where "prepare_unswept xs h1 = Inr h2" "heap_inv n h2 Bs" "db_wf (mutator_free_bitmap (hp_free_set h2))" "prepared (set xs) h1 h2"
    using Cons.IH [OF h1(2) _ h1(3)] Cons.prems(2) by auto
  then show ?case using h1(1) prepared_trans [OF h1(4)] by auto
qed (auto simp: prepared_def)

text \<open>The flags do not change what is live and what is trash.\<close>

lemma prepared_same:
  assumes "prepared D h h'"
  shows "i < region_count (hp_opts h) \<Longrightarrow> hr_typ (hp_regions h' ! i) = hr_typ (hp_regions h ! i) \<and>
      hr_begin (hp_regions h' ! i) = hr_begin (hp_regions h ! i) \<and> hr_end (hp_regions h' ! i) = hr_end (hp_regions h ! i) \<and>
      hr_object_start_bitmap (hp_regions h' ! i) = hr_object_start_bitmap (hp_regions h ! i)"
    "i < region_count (hp_opts h) \<Longrightarrow> hum_regions vtab h' i = hum_regions vtab h i"
    "live_cells marks h' cs i = live_cells marks h cs i"
  using assms by (simp_all add: prepared_def hum_regions_def live_cells_def)

lemma prepared_ready:
  assumes p: "prepared D h h'" and i: "i < region_count (hp_opts h)" and r: "sweep_ready vtab marks n h i (cs i)"
  shows "sweep_ready vtab marks n h' i (cs i)"
proof -
  note s = prepared_same [OF p]
  have o: "hp_opts h' = hp_opts h" "hp_memory h' = hp_memory h" using p by (simp_all add: prepared_def)
  have "hr_typ (hp_regions h' ! j) = HumongousCont"
    if "hr_typ (hp_regions h ! i) = HumongousStart" "i < j" "j < i + hum_regions vtab h i" for j
    using s(1) [of j] r that by (simp add: sweep_ready_def Let_def)
  then show ?thesis
    using r s(1,2) [OF i] unfolding sweep_ready_def Let_def o by (simp add: marks_cover_def bitmap_ok_def)
qed

lemma prepared_swept_type:
  assumes p: "prepared D h h'" and D: "E \<subseteq> {..<region_count (hp_opts h)}" and i: "i < region_count (hp_opts h)"
  shows "swept_type vtab marks h' cs E i = swept_type vtab marks h cs E i"
proof -
  note s = prepared_same [OF p]
  have "trashed vtab marks h' E i = trashed vtab marks h E i"
    unfolding trashed_def by (rule bex_cong [OF refl]) (use D s(1,2) in auto)
  then show ?thesis using s(1) [OF i] s(3) by (simp add: swept_type_def)
qed

lemma sweep_inv_start:
  assumes "phase_ok vtab marks n cs h0 Bs0"
  shows "sweep_inv vtab marks n cs h0 {} h0 Bs0"
  using phase_okD(1) [OF assms] by (auto simp: sweep_inv_def sweep_at_def swept_type_def trashed_def)

lemma prepare_phase:
  assumes hi: "heap_inv n h Bs" and rb: "rebuildable h" and flags: "\<forall>r \<in> set (hp_regions h). \<not> hr_to_sweep r"
    and ready: "\<forall>i < region_count (hp_opts h). sweep_ready vtab marks n h i (cs i)"
  obtains h1 where "prepare_unswept [0..<region_count (hp_opts h)] h = Inr h1" "prepared {..<region_count (hp_opts h)} h h1"
    "phase_ok vtab marks n cs h1 Bs" "db_wf (mutator_free_bitmap (hp_free_set h1))"
proof -
  let ?N = "region_count (hp_opts h)"
  have bm: "db_wf (mutator_free_bitmap (hp_free_set h))" "db_bit_count (mutator_free_bitmap (hp_free_set h)) = ?N"
    using rb by (simp_all add: rebuildable_def)
  obtain h1 where h1: "prepare_unswept [0..<?N] h = Inr h1" "heap_inv n h1 Bs" "db_wf (mutator_free_bitmap (hp_free_set h1))"
    "prepared {..<?N} h h1"
    using prepare_unswept_spec [OF hi _ bm, of "[0..<?N]"] by (auto simp: atLeast_upt)
  have o1: "hp_opts h1 = hp_opts h" using h1(4) by (simp add: prepared_def)
  have len: "length (hp_regions h) = ?N" using hi by (simp add: heap_inv_def)
  have "hr_to_sweep (hp_regions h1 ! i) = (hr_typ (hp_regions h1 ! i) \<in> {Regular, HumongousStart})" if i: "i < ?N" for i
  proof -
    have "\<not> hr_to_sweep (hp_regions h ! i)" using flags nth_mem [of i "hp_regions h"] i len by simp
    then show ?thesis using h1(4) i by (auto simp: prepared_def swept_kind_def)
  qed
  then have "phase_ok vtab marks n cs h1 Bs"
    using h1(2) prepared_ready [OF h1(4)] ready o1 by (simp add: phase_ok_def)
  then show thesis using h1 that by blast
qed

lemma sweep_and_rebuild_spec:
  assumes ok: "phase_ok vtab marks n cs h1 Bs" and rb: "rebuildable h" and p: "prepared {..<region_count (hp_opts h)} h h1"
    and wf: "db_wf (mutator_free_bitmap (hp_free_set h1))"
    and ord: "distinct is" "set is = {..<region_count (hp_opts h)}" and alive: "\<not> (0 \<in> set is \<and> dead_start marks h1 0)"
  obtains c h' Bs' where "sweep_and_rebuild vtab marks is h1 = Some (Inr (c, h'))" "heap_inv n h' Bs'" "fs_inv h'"
    "fs_available (hp_free_set h') = Inr (free_sum h')" "hp_opts h' = hp_opts h"
    "\<forall>i < region_count (hp_opts h). sweep_at vtab marks cs h1 {..<region_count (hp_opts h)} h' Bs' i"
    "free_regions (hp_free_set h') = {i. i < region_count (hp_opts h) \<and> usable (hp_opts h) (hp_regions h' ! i)}"
proof -
  let ?N = "region_count (hp_opts h)"
  have o1: "hp_opts h1 = hp_opts h" using p by (simp add: prepared_def)
  let ?c0 = "\<lparr>sc_heap = h1, sc_live = 0, sc_freed = 0\<rparr>"
  have sub: "set is \<subseteq> {..<region_count (hp_opts h1)} - {}" using ord(2) o1 by simp
  have start: "sweep_inv vtab marks n cs h1 {} (sc_heap ?c0) Bs" using sweep_inv_start [OF ok] by simp
  have "\<exists>c Bs'. sweep_regions vtab marks is ?c0 = Some (Inr c) \<and> sweep_inv vtab marks n cs h1 ({} \<union> set is) (sc_heap c) Bs'"
    using sweep_regions_spec [OF ok start ord(1) sub] unfolding if_not_P [OF alive] .
  then obtain c Bs' where c: "sweep_regions vtab marks is ?c0 = Some (Inr c)" "sweep_inv vtab marks n cs h1 {..<?N} (sc_heap c) Bs'"
    using ord(2) by auto
  note cD = sweep_invD [OF c(2)]
  have "\<not> hr_to_sweep r" if r: "r \<in> set (hp_regions (sc_heap c))" for r
  proof -
    obtain i where "i < length (hp_regions (sc_heap c))" "r = hp_regions (sc_heap c) ! i" using r by (auto simp: in_set_conv_nth)
    moreover have "length (hp_regions (sc_heap c)) = ?N" using cD(1,2) o1 by (simp add: heap_inv_def)
    ultimately show ?thesis using cD(5) [of i] o1 by (simp add: sweep_at_def)
  qed
  then have "rebuildable (sc_heap c)"
    using rb wf p cD(2,4) o1 by (simp add: rebuildable_def prepared_def)
  from fs_rebuild_spec [OF cD(1) this] obtain fs where fs: "fs_rebuild (sc_heap c) = Inr ((sc_heap c)\<lparr>hp_free_set := fs\<rparr>)"
    "fs_inv ((sc_heap c)\<lparr>hp_free_set := fs\<rparr>)"
    "free_regions fs = {i. i < region_count (hp_opts (sc_heap c)) \<and> usable (hp_opts (sc_heap c)) (hp_regions (sc_heap c) ! i)}"
    "fs_used fs = 0" "fs_capacity fs = free_sum ((sc_heap c)\<lparr>hp_free_set := fs\<rparr>)" by blast
  show thesis
  proof (rule that [OF _ _ fs(2)])
    show "sweep_and_rebuild vtab marks is h1 = Some (Inr (c, (sc_heap c)\<lparr>hp_free_set := fs\<rparr>))"
      using c(1) fs(1) by (simp add: sweep_and_rebuild_def)
    show "heap_inv n ((sc_heap c)\<lparr>hp_free_set := fs\<rparr>) Bs'" using cD(1) by simp
    show "\<forall>i < ?N. sweep_at vtab marks cs h1 {..<?N} ((sc_heap c)\<lparr>hp_free_set := fs\<rparr>) Bs' i"
      using cD(5) o1 by (simp add: sweep_at_def)
  qed (use fs(3-5) cD(2) o1 in \<open>simp_all add: fs_available_def\<close>)
qed

text \<open>The order of the workers covers every region once, unless the distribution never ends.\<close>

lemma sweep_order_cases:
  assumes "\<And>xs. mset (sched xs) = mset xs"
  obtains (hangs) "sweep_hangs parallel workers (hp_opts h)" "sweep_order parallel workers sched h = None"
  | (order) "is" where "\<not> sweep_hangs parallel workers (hp_opts h)" "sweep_order parallel workers sched h = Some is" "distinct is"
      "set is = {..<region_count (hp_opts h)}"
proof -
  let ?N = "region_count (hp_opts h)" and ?d = "parallel_region_stride (hp_opts h)"
  have any: "distinct (sched xs) = distinct xs \<and> set (sched xs) = set xs" for xs
    using assms [of xs] by (metis mset_eq_imp_distinct_iff set_mset_mset)
  have upt: "distinct [0..<?N]" "set [0..<?N] = {..<?N}" by auto
  consider (serial) "\<not> parallel" | (whole) "parallel" "\<not> (?N > ?d \<and> workers \<noteq> 0)" | (stuck) "parallel" "?N > ?d" "workers \<noteq> 0" "?d = 0"
    | (chunks) "parallel" "?N > ?d" "workers \<noteq> 0" "0 < ?d"
    by (cases parallel; cases "?N > ?d"; cases "workers = 0"; cases "?d = 0") auto
  then show thesis
  proof cases
    case serial
    then show thesis using upt by (intro order [of "[0..<?N]"]) (simp_all add: sweep_hangs_def sweep_order_def)
  next
    case whole
    have "parallel_heap_region_iterate h workers = Some [(0, ?N)]"
      using whole(2) unfolding parallel_heap_region_iterate_def Let_def by (rule if_not_P)
    then have "sweep_order parallel workers sched h = Some (sched [0..<?N])" using whole(1) by (simp add: sweep_order_def chunk_indices_def)
    moreover have "\<not> sweep_hangs parallel workers (hp_opts h)" using whole(2) by (auto simp: sweep_hangs_def)
    ultimately show thesis using order any [of "[0..<?N]"] upt by metis
  next
    case stuck
    have "region_chunks 0 ?N 0 [] = None" using region_chunks_stuck [of 0 ?N 0 "[]"] stuck(2) by (cases "region_chunks 0 ?N 0 []") auto
    then show thesis using stuck by (intro hangs) (auto simp: sweep_hangs_def sweep_order_def parallel_heap_region_iterate_def Let_def)
  next
    case chunks
    obtain css where "region_chunks ?d ?N 0 [] = Some css" "chunk_indices css = [0..<?N]"
      using region_chunks_partition [OF chunks(4), of ?N 0 "[]"] by auto
    then have "sweep_order parallel workers sched h = Some (sched [0..<?N])"
      using chunks by (simp add: sweep_order_def parallel_heap_region_iterate_def Let_def)
    moreover have "\<not> sweep_hangs parallel workers (hp_opts h)" using chunks(4) by (simp add: sweep_hangs_def)
    ultimately show thesis using order any [of "[0..<?N]"] upt by metis
  qed
qed

lemma sweep_regions_noop:
  assumes "\<forall>i \<in> set is. i < length (hp_regions (sc_heap c)) \<and> \<not> hr_to_sweep (hp_regions (sc_heap c) ! i)"
  shows "sweep_regions vtab marks is c = Some (Inr c)"
  using assms by (induction "is") (simp_all add: sweep_region_do_def get_region_def)

lemma sweep_phase_spec:
  assumes "heap_inv n h Bs" "rebuildable h" "\<forall>r \<in> set (hp_regions h). \<not> hr_to_sweep r"
    "\<forall>i < region_count (hp_opts h). sweep_ready vtab marks n h i (cs i)" "\<And>xs. mset (sched xs) = mset xs"
  shows "if sweep_hangs parallel workers (hp_opts h) then full_gc_sweep vtab marks parallel workers sched h = None
    else if 0 < region_count (hp_opts h) \<and> dead_start marks h 0
    then full_gc_sweep vtab marks parallel workers sched h = Some (Inl ArithOverflow)
    else \<exists>c h' Bs'. full_gc_sweep vtab marks parallel workers sched h = Some (Inr (c, h')) \<and> heap_inv n h' Bs' \<and> fs_inv h' \<and> hp_opts h' = hp_opts h \<and>
      fs_available (hp_free_set h') = Inr (free_sum h') \<and>
      free_regions (hp_free_set h') = {i. i < region_count (hp_opts h) \<and> usable (hp_opts h) (hp_regions h' ! i)} \<and>
      (\<forall>i < region_count (hp_opts h). \<not> hr_to_sweep (hp_regions h' ! i) \<and>
        hr_typ (hp_regions h' ! i) = swept_type vtab marks h cs {..<region_count (hp_opts h)} i \<and>
        (if hr_typ (hp_regions h ! i) = Regular
         then Bs' i = mset (all_gaps (hp_regions h ! i) (live_cells marks h cs i)) \<and>
           hr_used (hp_regions h' ! i) = sum_list (map snd (live_cells marks h cs i)) \<and>
           (\<forall>c \<in> set (live_cells marks h cs i). \<forall>x \<in> block_bytes c. hp_memory h' x = hp_memory h x)
         else \<forall>x \<in> region_range (hp_regions h ! i). hp_memory h' x = hp_memory h x))"
proof -
  let ?N = "region_count (hp_opts h)" and ?sweep = "full_gc_sweep vtab marks parallel workers sched h"
  obtain h1 where h1: "prepare_unswept [0..<?N] h = Inr h1" "prepared {..<?N} h h1" "phase_ok vtab marks n cs h1 Bs"
    "db_wf (mutator_free_bitmap (hp_free_set h1))" by (rule prepare_phase [OF assms(1-4)])
  have o1: "hp_opts h1 = hp_opts h" using h1(2) by (simp add: prepared_def)
  have dead: "dead_start marks h1 0 \<longleftrightarrow> dead_start marks h 0" if "0 < ?N"
    using prepared_same(1) [OF h1(2) that] by (simp add: dead_start_def)
  show ?thesis
  proof (cases rule: sweep_order_cases [OF assms(5), where h = h1 and parallel = parallel and workers = workers])
    case 1
    then show ?thesis using h1(1) o1 by (simp add: full_gc_sweep_def)
  next
    case (2 xs)
    note xs = 2(3) 2(4) [unfolded o1]
    have nh: "\<not> sweep_hangs parallel workers (hp_opts h)" using 2(1) o1 by simp
    have run: "?sweep = sweep_and_rebuild vtab marks xs h1" using h1(1) 2(2) by (simp add: full_gc_sweep_def)
    show ?thesis
    proof (cases "0 < ?N \<and> dead_start marks h 0")
      case True
      let ?c0 = "\<lparr>sc_heap = h1, sc_live = 0, sc_freed = 0\<rparr>"
      have z: "0 \<in> set xs \<and> dead_start marks h1 0" using True dead xs(2) by blast
      have start: "sweep_inv vtab marks n cs h1 {} (sc_heap ?c0) Bs" using sweep_inv_start [OF h1(3)] by simp
      have sub: "set xs \<subseteq> {..<region_count (hp_opts h1)} - {}" using xs(2) o1 by simp
      have "sweep_regions vtab marks xs ?c0 = Some (Inl ArithOverflow)"
        using sweep_regions_spec [OF h1(3) start xs(1) sub] unfolding if_P [OF z] .
      then have "sweep_and_rebuild vtab marks xs h1 = Some (Inl ArithOverflow)" by (simp add: sweep_and_rebuild_def)
      then show ?thesis unfolding run if_not_P [OF nh] if_P [OF True] .
    next
      case False
      have alive: "\<not> (0 \<in> set xs \<and> dead_start marks h1 0)"
      proof
        assume "0 \<in> set xs \<and> dead_start marks h1 0"
        moreover from this have "0 < ?N" using xs(2) by blast
        ultimately show False using False dead by blast
      qed
      obtain c h' Bs' where s: "sweep_and_rebuild vtab marks xs h1 = Some (Inr (c, h'))" "heap_inv n h' Bs'" "fs_inv h'"
        "fs_available (hp_free_set h') = Inr (free_sum h')" "hp_opts h' = hp_opts h"
        "\<forall>i < ?N. sweep_at vtab marks cs h1 {..<?N} h' Bs' i"
        "free_regions (hp_free_set h') = {i. i < ?N \<and> usable (hp_opts h) (hp_regions h' ! i)}"
        by (rule sweep_and_rebuild_spec [OF h1(3) assms(2) h1(2,4) xs alive])
      have m: "hp_memory h1 = hp_memory h" using h1(2) by (simp add: prepared_def)
      have "\<not> hr_to_sweep (hp_regions h' ! i) \<and> hr_typ (hp_regions h' ! i) = swept_type vtab marks h cs {..<?N} i \<and>
          (if hr_typ (hp_regions h ! i) = Regular
           then Bs' i = mset (all_gaps (hp_regions h ! i) (live_cells marks h cs i)) \<and>
             hr_used (hp_regions h' ! i) = sum_list (map snd (live_cells marks h cs i)) \<and>
             (\<forall>c \<in> set (live_cells marks h cs i). \<forall>x \<in> block_bytes c. hp_memory h' x = hp_memory h x)
           else \<forall>x \<in> region_range (hp_regions h ! i). hp_memory h' x = hp_memory h x)" if i: "i < ?N" for i
      proof -
        note p = prepared_same(1) [OF h1(2) i] prepared_same(3) [OF h1(2)]
        have "all_gaps (hp_regions h1 ! i) ks = all_gaps (hp_regions h ! i) ks" for ks using p(1) by (simp add: all_gaps_def)
        moreover have "region_range (hp_regions h1 ! i) = region_range (hp_regions h ! i)" using p(1) by (simp add: region_range_def)
        ultimately show ?thesis
          using s(6) i p m prepared_swept_type [OF h1(2) order_refl i] unfolding sweep_at_def by (auto split: if_splits)
      qed
      then show ?thesis unfolding run if_not_P [OF nh] if_not_P [OF False] using s by blast
    qed
  qed
qed

section \<open>Properties\<close>

text \<open>C37. The sweep phase of a full collection, exactly, for every heap whose regular regions and humongous objects can be parsed and every
  order in which the workers sweep the regions of their chunks. It never ends when the regions are to be distributed with a stride of 0 (parallel sweep,
  with workers). Otherwise it panics exactly when the object that starts in region 0 is humongous and unmarked (trashing it counts below region 0). Otherwise
  it ends without a panic: a regular region keeps exactly its marked objects, untouched in memory, and the rest of it is on its
  free list; a region without a marked object and all regions of an unmarked humongous object become trash; all other
  regions stay as they are. Afterwards the heap and the free set are consistent, the free set holds exactly the
  regions that can serve an allocation and \<open>available\<close> is the sum of their free bytes.\<close>

theorem sweep_phase_correct:
  assumes "heap_inv n h Bs" "rebuildable h" "\<forall>r \<in> set (hp_regions h). \<not> hr_to_sweep r"
    "\<forall>i < region_count (hp_opts h). sweep_ready vtab marks n h i (cs i)" "\<And>xs. mset (sched xs) = mset xs"
  shows "if sweep_hangs parallel workers (hp_opts h) then full_gc_sweep vtab marks parallel workers sched h = None
    else if 0 < region_count (hp_opts h) \<and> dead_start marks h 0
    then full_gc_sweep vtab marks parallel workers sched h = Some (Inl ArithOverflow)
    else \<exists>c h' Bs'. full_gc_sweep vtab marks parallel workers sched h = Some (Inr (c, h')) \<and> heap_inv n h' Bs' \<and> fs_inv h' \<and> hp_opts h' = hp_opts h \<and>
      fs_available (hp_free_set h') = Inr (free_sum h') \<and>
      free_regions (hp_free_set h') = {i. i < region_count (hp_opts h) \<and> usable (hp_opts h) (hp_regions h' ! i)} \<and>
      (\<forall>i < region_count (hp_opts h). \<not> hr_to_sweep (hp_regions h' ! i) \<and>
        hr_typ (hp_regions h' ! i) = swept_type vtab marks h cs {..<region_count (hp_opts h)} i \<and>
        (if hr_typ (hp_regions h ! i) = Regular
         then Bs' i = mset (all_gaps (hp_regions h ! i) (live_cells marks h cs i)) \<and>
           hr_used (hp_regions h' ! i) = sum_list (map snd (live_cells marks h cs i)) \<and>
           (\<forall>c \<in> set (live_cells marks h cs i). \<forall>x \<in> block_bytes c. hp_memory h' x = hp_memory h x)
         else \<forall>x \<in> region_range (hp_regions h ! i). hp_memory h' x = hp_memory h x))"
  by (rule sweep_phase_spec [OF assms])

text \<open>A heap of four regions: one with a marked object, an unmarked humongous object in two regions, an empty one.\<close>

definition ex_types :: "nat \<Rightarrow> RegionState" where
  "ex_types i = (if i = 0 then Regular else if i = 1 then HumongousStart else if i = 2 then HumongousCont else EmptyCommited)"

definition ex_heap_mem :: mem where
  "ex_heap_mem = ex_mem(8192 := hdr_set_heap_size 8000 (hdr_set_vtable 8 0))"

definition ex_heap :: Heap where
  "ex_heap = (small_heap small_opts)\<lparr>hp_regions := map (\<lambda>i. (hp_regions (small_heap small_opts) ! i)\<lparr>hr_typ := ex_types i\<rparr>) [0..<4],
     hp_memory := ex_heap_mem\<rparr>"

abbreviation ex_cells :: "nat \<Rightarrow> block list" where "ex_cells \<equiv> \<lambda>_. [(4096, 48), (4144, 4048)]"

lemma ex_heap_fields:
  "hp_opts ex_heap = small_opts" "hp_memory ex_heap = ex_heap_mem" "hp_mem_start ex_heap = 4096" "length (hp_regions ex_heap) = 4"
  "hp_free_set ex_heap = hp_free_set (small_heap small_opts)"
  "i < 4 \<Longrightarrow> hp_regions ex_heap ! i = (HeapRegion_new 64 (\<lambda>_. 0) 0 i (4096 + i * 4096) small_opts True)\<lparr>hr_typ := ex_types i\<rparr>"
  by (simp_all add: ex_heap_def small_heap_def)

lemma ex_heap_sizes:
  "heap_size ex_vtab ex_heap_mem 4096 = 48" "heap_size ex_vtab ex_heap_mem 4144 = 4048" "heap_size ex_vtab ex_heap_mem 8192 = 8000"
  by (simp_all add: heap_size_def ex_heap_mem_def ex_mem_def hdr_set_heap_size_def SizeTag_decode_update size_fits_def MAX_SIZE_TAG_eq)

lemma ex_heap_tags:
  "SizeTag_decode (ex_heap_mem 4096) \<noteq> 0" "SizeTag_decode (ex_heap_mem 4144) \<noteq> 0" "SizeTag_decode (ex_heap_mem 8192) \<noteq> 0"
  by (simp_all add: ex_heap_mem_def ex_mem_def hdr_set_heap_size_def SizeTag_decode_update size_fits_def MAX_SIZE_TAG_eq)

lemma ex_heap_regions:
  "hp_regions ex_heap ! 0 = ex_region\<lparr>hr_index := 0\<rparr>" "hr_typ (hp_regions ex_heap ! 1) = HumongousStart"
  "hr_typ (hp_regions ex_heap ! 2) = HumongousCont" "hr_typ (hp_regions ex_heap ! 3) = EmptyCommited"
  "hr_begin (hp_regions ex_heap ! 1) = 8192"
  by (simp_all add: ex_heap_fields ex_types_def HeapRegion_new_def hr_recycle_def hr_make_empty_def Let_def hr_size_def)

lemma ex_heap_live: "live_cells ex_marks ex_heap ex_cells 0 = [(4096, 48)]" "\<not> check_bit ex_marks 8192" "hum_regions ex_vtab ex_heap 1 = 2"
proof -
  show "live_cells ex_marks ex_heap ex_cells 0 = [(4096, 48)]"
    using ex_region_facts(7) by (simp add: live_cells_def ex_heap_fields live_cell_def ex_heap_mem_def split: if_splits)
  show "\<not> check_bit ex_marks 8192" by (simp add: check_bit_eq ex_marks_def bit_number_def hb_bit_def)
  show "hum_regions ex_vtab ex_heap 1 = 2"
    using ex_heap_regions(5) ex_heap_sizes(3) by (simp add: hum_regions_def ex_heap_fields required_regions_def)
qed

lemma less_4: "i < (4::nat) \<longleftrightarrow> i = 0 \<or> i = 1 \<or> i = 2 \<or> i = 3"
  by arith

lemma ex_heap_ok:
  "heap_inv 12 ex_heap (\<lambda>_. {#})" "rebuildable ex_heap" "\<forall>r \<in> set (hp_regions ex_heap). \<not> hr_to_sweep r"
  "\<forall>i < region_count (hp_opts ex_heap). sweep_ready ex_vtab ex_marks 12 ex_heap i (ex_cells i)"
proof -
  have "region_inv 12 (hp_regions ex_heap ! i) ex_heap_mem {#}" if "i < 4" for i
  proof -
    have "region_inv (region_size_log2 small_opts) (HeapRegion_new 64 (\<lambda>_. 0) 0 i (4096 + i * 4096) small_opts True) ex_heap_mem {#}"
    proof (rule region_inv_new [OF small_opts_ok(1)])
      have "4096 + i * 4096 = (256 + i * 256) * 16" by simp
      then show "(4096 + i * 4096) mod 16 = 0" by (metis mod_mult_self2_is_0)
    qed (use that in simp_all)
    then have "region_inv 12 (HeapRegion_new 64 (\<lambda>_. 0) 0 i (4096 + i * 4096) small_opts True) ex_heap_mem {#}" by simp
    then show ?thesis unfolding ex_heap_fields(6) [OF that] by (rule region_inv_fields [rotated 4]) simp_all
  qed
  moreover have "placed 12 ex_heap i (hp_regions ex_heap ! i)" if "i < 4" for i
    using that by (simp add: placed_def ex_heap_fields)
  ultimately show "heap_inv 12 ex_heap (\<lambda>_. {#})" unfolding heap_inv_def ex_heap_fields by (simp add: opts_ok_def)
  show flags: "\<forall>r \<in> set (hp_regions ex_heap). \<not> hr_to_sweep r"
    by (auto simp: in_set_conv_nth ex_heap_fields)
  show "rebuildable ex_heap"
    using small_heap_inv(2) [OF small_opts_ok(1)] flags unfolding rebuildable_def by (simp add: ex_heap_fields) (simp add: small_heap_def)
  have s: "sized ex_vtab ex_heap_mem (4096, 48)" "sized ex_vtab ex_heap_mem (4144, 4048)" "sized ex_vtab ex_heap_mem (8192, 4096)"
    using ex_heap_tags by (simp_all add: sized_def self_sized_def)
  have "sweep_ready ex_vtab ex_marks 12 ex_heap 0 (ex_cells 0)"
    using s(1,2) ex_region_facts(5,6) ex_heap_sizes unfolding sweep_ready_def Let_def ex_heap_regions(1) ex_heap_fields(2)
    by (simp add: marks_cover_def bitmap_ok_def)
  moreover have "sweep_ready ex_vtab ex_marks 12 ex_heap 1 (ex_cells 1)"
  proof -
    have "hr_typ (hp_regions ex_heap ! j) = HumongousCont" if "1 < j" "j < 1 + 2" for j
    proof -
      have "j = 2" using that by simp
      then show ?thesis using ex_heap_regions(3) by simp
    qed
    then show ?thesis
      using s(3) ex_heap_regions(2) unfolding sweep_ready_def Let_def ex_heap_live(3) ex_heap_regions(5) ex_heap_fields(1,2) by simp
  qed
  ultimately show "\<forall>i < region_count (hp_opts ex_heap). sweep_ready ex_vtab ex_marks 12 ex_heap i (ex_cells i)"
    using ex_heap_regions(3,4) by (auto simp: ex_heap_fields(1) less_4 sweep_ready_def)
qed

theorem sweep_phase_correct_witness:
  "\<exists>c h' Bs'. full_gc_sweep ex_vtab ex_marks True 2 rev ex_heap = Some (Inr (c, h')) \<and> heap_inv 12 h' Bs' \<and> fs_inv h' \<and>
    fs_available (hp_free_set h') = Inr (free_sum h') \<and>
    map hr_typ (hp_regions h') = [Regular, Trash, Trash, EmptyCommited] \<and> hr_used (hp_regions h' ! 0) = 48 \<and>
    (\<forall>x \<in> block_bytes (4096, 48). hp_memory h' x = ex_heap_mem x)"
proof -
  have o: "\<And>xs. mset (rev xs) = mset (xs :: nat list)" by simp
  have nh: "\<not> sweep_hangs True 2 (hp_opts ex_heap)" by (simp add: sweep_hangs_def ex_heap_fields(1))
  have alive: "\<not> (0 < region_count (hp_opts ex_heap) \<and> dead_start ex_marks ex_heap 0)"
    using ex_heap_regions(1) by (simp add: dead_start_def ex_heap_fields ex_types_def)
  obtain c h' Bs' where s: "full_gc_sweep ex_vtab ex_marks True 2 rev ex_heap = Some (Inr (c, h'))" "heap_inv 12 h' Bs'" "fs_inv h'"
    "fs_available (hp_free_set h') = Inr (free_sum h')" "hp_opts h' = hp_opts ex_heap"
    and at: "\<forall>i < region_count (hp_opts ex_heap). \<not> hr_to_sweep (hp_regions h' ! i) \<and>
      hr_typ (hp_regions h' ! i) = swept_type ex_vtab ex_marks ex_heap ex_cells {..<region_count (hp_opts ex_heap)} i \<and>
      (if hr_typ (hp_regions ex_heap ! i) = Regular
       then Bs' i = mset (all_gaps (hp_regions ex_heap ! i) (live_cells ex_marks ex_heap ex_cells i)) \<and>
         hr_used (hp_regions h' ! i) = sum_list (map snd (live_cells ex_marks ex_heap ex_cells i)) \<and>
         (\<forall>c \<in> set (live_cells ex_marks ex_heap ex_cells i). \<forall>x \<in> block_bytes c. hp_memory h' x = hp_memory ex_heap x)
       else \<forall>x \<in> region_range (hp_regions ex_heap ! i). hp_memory h' x = hp_memory ex_heap x)"
    using sweep_phase_correct [OF ex_heap_ok o, of True 2] unfolding if_not_P [OF nh] if_not_P [OF alive] by blast
  have N: "region_count (hp_opts ex_heap) = 4" by (simp add: ex_heap_fields(1))
  have "hr_typ (hp_regions ex_heap ! s) = HumongousStart \<longleftrightarrow> s = 1" if "s < 4" for s
    using that by (simp add: ex_heap_fields ex_types_def)
  then have "trashed ex_vtab ex_marks ex_heap {..<4} i \<longleftrightarrow> 1 \<le> i \<and> i < 1 + hum_regions ex_vtab ex_heap 1 \<and>
      \<not> check_bit ex_marks (hr_begin (hp_regions ex_heap ! 1))" for i
    by (auto simp: trashed_def)
  then have "trashed ex_vtab ex_marks ex_heap {..<4} i \<longleftrightarrow> 1 \<le> i \<and> i < 1 + 2" for i
    unfolding ex_heap_live(3) ex_heap_regions(5) using ex_heap_live(2) by simp
  then have ty: "swept_type ex_vtab ex_marks ex_heap ex_cells {..<4} 0 = Regular" "swept_type ex_vtab ex_marks ex_heap ex_cells {..<4} 1 = Trash"
    "swept_type ex_vtab ex_marks ex_heap ex_cells {..<4} 2 = Trash" "swept_type ex_vtab ex_marks ex_heap ex_cells {..<4} 3 = EmptyCommited"
    using ex_heap_regions ex_heap_live(1) by (simp_all add: swept_type_def)
  have "length (hp_regions h') = 4" using s(2,5) N by (simp add: heap_inv_def)
  moreover have "hr_typ (hp_regions h' ! i) = swept_type ex_vtab ex_marks ex_heap ex_cells {..<4} i" if "i < 4" for i
    using at that unfolding N by blast
  ultimately have "map hr_typ (hp_regions h') = [Regular, Trash, Trash, EmptyCommited]"
    using ty by (intro nth_equalityI) (simp, simp only: less_4 length_map, elim disjE, simp_all)
  moreover have "hr_used (hp_regions h' ! 0) = 48" "\<forall>x \<in> block_bytes (4096, 48). hp_memory h' x = ex_heap_mem x"
    using spec [OF at, of 0] ex_heap_live(1) ex_heap_regions(1) ex_heap_fields(2) unfolding N by simp_all
  ultimately show ?thesis using s(1-4) by (intro exI [of _ c] exI [of _ h'] exI [of _ Bs'] conjI)
qed

text \<open>The sweep of a degenerated collection that was not handed over by a prepared concurrent sweep frees nothing:
  no region is flagged, so that every region and all memory stay as they are, whatever is marked; only the free
  set is rebuilt.\<close>

theorem degenerated_sweep_frees_nothing:
  assumes "heap_inv n h Bs" "rebuildable h" "\<forall>r \<in> set (hp_regions h). \<not> hr_to_sweep r"
    "set is \<subseteq> {..<region_count (hp_opts h)}"
  shows "\<exists>c h'. degenerated_gc_sweep vtab marks is h = Some (Inr (c, h')) \<and> sc_freed c = 0 \<and>
    hp_regions h' = hp_regions h \<and> hp_memory h' = hp_memory h"
proof -
  let ?c = "\<lparr>sc_heap = h, sc_live = 0, sc_freed = 0\<rparr>"
  have "length (hp_regions h) = region_count (hp_opts h)" using assms(1) by (simp add: heap_inv_def)
  then have "sweep_regions vtab marks is ?c = Some (Inr ?c)"
    by (intro sweep_regions_noop) (use assms(3,4) nth_mem [of _ "hp_regions h"] in \<open>auto simp: subset_iff\<close>)
  then show ?thesis using fs_rebuild_spec [OF assms(1,2)] by (auto simp: degenerated_gc_sweep_def sweep_and_rebuild_def)
qed

theorem degenerated_sweep_frees_nothing_witness:
  "\<exists>c h'. degenerated_gc_sweep ex_vtab ex_marks [0, 1, 2, 3] ex_heap = Some (Inr (c, h')) \<and> sc_freed c = 0 \<and>
    hp_regions h' = hp_regions ex_heap \<and> hp_memory h' = hp_memory ex_heap"
  by (rule degenerated_sweep_frees_nothing [OF ex_heap_ok(1-3)]) (simp add: ex_heap_fields(1))

text \<open>Trashing a humongous object trashes exactly the regions of its run, except that an object that starts in
  region 0 makes the loop count below zero: it panics.\<close>

theorem trash_humongous_exact:
  assumes "heap_inv n h Bs" "0 < hum_regions vtab h i" "i + hum_regions vtab h i \<le> region_count (hp_opts h)"
  shows "trash_humongous_region_at vtab h (hp_regions h ! i) =
    (if i = 0 then Inl ArithOverflow
     else Inr (h\<lparr>hp_regions := map (\<lambda>j. if i \<le> j \<and> j < i + hum_regions vtab h i then hr_make_trash (hp_regions h ! j)
       else hp_regions h ! j) [0..<region_count (hp_opts h)]\<rparr>))"
proof (cases "i = 0")
  case True
  let ?k = "hum_regions vtab h i"
  have ix: "hr_index (hp_regions h ! i) = 0" using heap_invD(2) [OF assms(1), of i] assms(2,3) True by (simp add: placed_def)
  from trash_loop_underflow [of "?k - 1" h] have "trash_loop ?k (?k - 1) h = Inl ArithOverflow"
    using assms(1,2,3) by (simp add: heap_inv_def)
  then show ?thesis using True ix assms(2) by (simp add: trash_humongous_region_at_def hum_regions_def Let_def)
next
  case False
  then show ?thesis using trash_humongous_spec [OF assms(1) refl assms(2,3)] by auto
qed

theorem trash_humongous_exact_witness:
  "trash_humongous_region_at ex_vtab ex_heap (hp_regions ex_heap ! 0) = Inl ArithOverflow \<and>
   trash_humongous_region_at ex_vtab ex_heap (hp_regions ex_heap ! 1) = Inr (ex_heap\<lparr>hp_regions :=
     map (\<lambda>j. if 1 \<le> j \<and> j < 1 + hum_regions ex_vtab ex_heap 1 then hr_make_trash (hp_regions ex_heap ! j) else hp_regions ex_heap ! j)
       [0..<region_count (hp_opts ex_heap)]\<rparr>)"
proof -
  have "hum_regions ex_vtab ex_heap 0 = 1"
    using ex_heap_sizes(1) by (simp add: hum_regions_def ex_heap_regions(1) ex_heap_fields(1,2) required_regions_def)
  then have "0 < hum_regions ex_vtab ex_heap 0" "0 + hum_regions ex_vtab ex_heap 0 \<le> region_count (hp_opts ex_heap)"
    by (simp_all add: ex_heap_fields(1))
  note z = trash_humongous_exact [OF ex_heap_ok(1) this]
  have "0 < hum_regions ex_vtab ex_heap 1" "1 + hum_regions ex_vtab ex_heap 1 \<le> region_count (hp_opts ex_heap)"
    unfolding ex_heap_live(3) by (simp_all add: ex_heap_fields(1))
  note o = trash_humongous_exact [OF ex_heap_ok(1) this]
  show ?thesis using z o by simp
qed

text \<open>C40. The intervals of regions handed to the workers are non-empty, no longer than the stride, and together they
  are all regions in order, each exactly once.\<close>

theorem parallel_iterate_covers:
  assumes "0 < parallel_region_stride (hp_opts h)" "0 < region_count (hp_opts h)"
  shows "\<exists>cs. parallel_heap_region_iterate h workers = Some cs \<and> chunk_indices cs = [0..<region_count (hp_opts h)] \<and>
    (workers \<noteq> 0 \<longrightarrow> (\<forall>(a, b) \<in> set cs. a < b \<and> b \<le> a + parallel_region_stride (hp_opts h)))"
proof (cases "region_count (hp_opts h) > parallel_region_stride (hp_opts h) \<and> workers \<noteq> 0")
  case True
  then show ?thesis
    using region_chunks_partition [OF assms(1), of "region_count (hp_opts h)" 0 "[]"]
    by (simp add: parallel_heap_region_iterate_def Let_def)
next
  case False
  then show ?thesis using assms by (auto simp: parallel_heap_region_iterate_def Let_def chunk_indices_def)
qed

theorem parallel_iterate_covers_witness:
  "\<exists>cs. parallel_heap_region_iterate ex_heap 2 = Some cs \<and> chunk_indices cs = [0..<region_count (hp_opts ex_heap)] \<and>
    ((2::nat) \<noteq> 0 \<longrightarrow> (\<forall>(a, b) \<in> set cs. a < b \<and> b \<le> a + parallel_region_stride (hp_opts ex_heap)))"
  by (rule parallel_iterate_covers) (simp_all add: ex_heap_fields(1))

text \<open>When the default stride is asked for and there are fewer regions than collector threads, the stride is
  computed as 0 and the loop that distributes the regions never ends.\<close>

theorem parallel_iterate_stuck:
  assumes "setup_sizes page args = Inr opts" "ha_parallel_region_stride args = 1024"
    "region_count opts < ha_parallel_gc_threads args" "0 < region_count opts" "hp_opts h = opts" "workers \<noteq> 0"
  shows "parallel_heap_region_iterate h workers = None"
proof -
  have "parallel_region_stride opts = region_count (setup_opts page args) div ha_parallel_gc_threads args"
    "region_count opts = region_count (setup_opts page args)"
    using assms(1,2) by (auto simp: setup_sizes_def Let_def split: if_splits)
  then have s: "parallel_region_stride opts = 0" using assms(3) by simp
  have "region_chunks 0 (region_count opts) 0 [] = None"
    using region_chunks_stuck [of 0 "region_count opts" 0 "[]"] assms(4) by (cases "region_chunks 0 (region_count opts) 0 []") auto
  then show ?thesis using s assms(4-6) by (simp add: parallel_heap_region_iterate_def Let_def)
qed

abbreviation threads_args :: HeapArguments where
  "threads_args \<equiv> tiny_args\<lparr>ha_parallel_gc_threads := 16\<rparr>"

theorem parallel_iterate_stuck_witness:
  "\<exists>opts. setup_sizes 4096 threads_args = Inr opts \<and> parallel_heap_region_iterate (ex_heap\<lparr>hp_opts := opts\<rparr>) 16 = None"
proof -
  let ?opts = "(setup_opts 4096 threads_args)\<lparr>parallel_region_stride := region_count (setup_opts 4096 threads_args) div 16\<rparr>"
  have o: "setup_sizes 4096 threads_args = Inr ?opts"
    by (simp add: setup_sizes_def Let_def setup_min_region_size_def MIN_REGION_SIZE_def MIN_NUM_PAGES_def)
  have "setup_region_size_arg threads_args = 4096" "align_nat 4096 4096 = 4096" "align_nat 40960 4096 = 40960"
    "log2_trunc 4096 = 12" by (simp_all add: setup_region_size_arg_def align_nat_eq log2_trunc_def bit_length_eq [of 12])
  then have "region_count (setup_opts 4096 threads_args) = 10" by (simp add: setup_opts_def Let_def)
  then show ?thesis using parallel_iterate_stuck [OF o, of "ex_heap\<lparr>hp_opts := ?opts\<rparr>" 16] o by simp
qed

end
