(* ===== verification/Mutator.thy ===== *)
theory Mutator
  imports HeapSweep
begin

text \<open>
  The mutator's side of allocation, \<open>heap/tlab.rs\<close> and \<open>heap/thread.rs\<close>: the thread-local allocation buffer with its
  bump pointer, the slow paths that refill it or allocate outside of it, and the initialisation of an object
  header. A buffer's pointer to the object start bitmap of its region is the index of that region; a null pointer
  is \<open>None\<close>, and following it is a crash (\<open>NullDeref\<close>), as opposed to the panic for want of memory (\<open>OutOfMemory\<close>). \<open>wait\<close> is what the collector does to the heap while the thread waits for it.
\<close>

section \<open>Thread-local allocation buffers\<close>

record Tlab =
  tl_start :: addr
  tl_top :: addr
  tl_end :: addr
  tl_bitmap :: "nat option"

definition Tlab_new :: Tlab where
  "Tlab_new = \<lparr>tl_start = 0, tl_top = 0, tl_end = 0, tl_bitmap = None\<rparr>"

definition region_set_bit :: "Heap \<Rightarrow> nat \<Rightarrow> addr \<Rightarrow> Heap" where
  "region_set_bit h i a = (let r = hp_regions h ! i in
     put_region h i (r\<lparr>hr_object_start_bitmap := set_bit (hr_object_start_bitmap r) a\<rparr>))"

definition tlab_allocate :: "Tlab \<Rightarrow> Heap \<Rightarrow> nat \<Rightarrow> (addr option \<times> Tlab \<times> Heap) res" where
  "tlab_allocate t h sz =
     rbind (checked_sub (tl_end t) (tl_top t)) (\<lambda>room.
       if room \<ge> sz then case tl_bitmap t of
         None \<Rightarrow> Inl NullDeref
       | Some i \<Rightarrow> let h = region_set_bit h i (tl_top t) in
           if check_bit (hr_object_start_bitmap (hp_regions h ! i)) (tl_top t)
           then Inr (Some (tl_top t), t\<lparr>tl_top := tl_top t + sz\<rparr>, h) else Inl AssertFailed
       else Inr (None, t, h))"

definition tlab_initialize :: "Heap \<Rightarrow> addr \<Rightarrow> addr \<Rightarrow> addr \<Rightarrow> Tlab res" where
  "tlab_initialize h start tp en = rbind (region_index h start) (\<lambda>ix. rbind (get_region h ix) (\<lambda>_.
     Inr \<lparr>tl_start = start, tl_top = tp, tl_end = en, tl_bitmap = Some ix\<rparr>))"

definition tlab_free_remaining :: "Tlab \<Rightarrow> Heap \<Rightarrow> Heap res" where
  "tlab_free_remaining t h =
     rbind (region_index h (tl_start t)) (\<lambda>ix. rbind (get_region h ix) (\<lambda>region.
     rbind (checked_sub (tl_end t) (tl_top t)) (\<lambda>room.
       if room \<noteq> 0 then rbind (fl_add (hr_free_list region) (hp_memory h) (tl_top t) room) (\<lambda>(fl, m).
         Inr ((put_region h ix (region\<lparr>hr_free_list := fl\<rparr>))\<lparr>hp_memory := m\<rparr>))
       else Inr h)))"

definition tlab_retire :: "Tlab \<Rightarrow> Heap \<Rightarrow> (Tlab \<times> Heap) res" where
  "tlab_retire t h =
     (if tl_end t \<noteq> 0 then rbind (tlab_free_remaining t h) (\<lambda>h. Inr (Tlab_new, h)) else Inr (t, h))"

text \<open>A collection starts by retiring the buffers of all threads (\<open>FullGC::do_collect\<close>).\<close>

fun retire_tlabs :: "Tlab list \<Rightarrow> Heap \<Rightarrow> (Tlab list \<times> Heap) res" where
  "retire_tlabs [] h = Inr ([], h)"
| "retire_tlabs (t # ts) h = rbind (tlab_retire t h) (\<lambda>(t, h). rbind (retire_tlabs ts h) (\<lambda>(ts, h). Inr (t # ts, h)))"

section \<open>Allocation by a thread\<close>

record Thread =
  th_tlab :: Tlab
  th_max_tlab_size :: nat
  th_registered :: bool

definition zero_bytes :: "mem \<Rightarrow> addr \<Rightarrow> nat \<Rightarrow> mem" where
  "zero_bytes m a n = (\<lambda>x. if a \<le> x \<and> x < a + n then 0 else m x)"

text \<open>When the first attempt fails the thread waits for a collection, which retires the buffers of all threads.\<close>

definition retired_meanwhile :: "nat \<Rightarrow> Heap \<Rightarrow> AllocRequest \<Rightarrow> Thread \<Rightarrow> Thread" where
  "retired_meanwhile now h req th = (case fs_allocate now h req False of
     Inr (None, _) \<Rightarrow> th\<lparr>th_tlab := Tlab_new\<rparr> | _ \<Rightarrow> th)"

definition allocate_outside_tlab :: "(Heap \<Rightarrow> Heap) \<Rightarrow> nat \<Rightarrow> nat \<Rightarrow> Thread \<times> Heap \<Rightarrow> (addr \<times> Thread \<times> Heap) res" where
  "allocate_outside_tlab wait now sz = (\<lambda>(th, h). let th = retired_meanwhile now h (AllocRequest_new Shared sz sz) th in
     rbind (allocate_memory wait now h (AllocRequest_new Shared sz sz)) (\<lambda>(mem, h, req, nw). case mem of
       None \<Rightarrow> Inl OutOfMemory
     | Some a \<Rightarrow> rbind (mark_live h a) (\<lambda>h. Inr (a, th, h))))"

definition alloc_inside_tlab_slow :: "(Heap \<Rightarrow> Heap) \<Rightarrow> nat \<Rightarrow> nat \<Rightarrow> Thread \<times> Heap \<Rightarrow> (addr option \<times> Thread \<times> Heap) res" where
  "alloc_inside_tlab_slow wait now sz = (\<lambda>(th, h).
     rbind (tlab_retire (th_tlab th) h) (\<lambda>(t, h). let th = th\<lparr>th_tlab := t\<rparr> in
     rbind (allocate_memory wait now h (AllocRequest_new ForLAB (min_tlab_size (hp_opts h)) (th_max_tlab_size th))) (\<lambda>(mem, h, req, nw).
       case mem of
         None \<Rightarrow> Inr (None, th, h)
       | Some a \<Rightarrow> let h = h\<lparr>hp_memory := zero_bytes (hp_memory h) a (ar_actual_size req)\<rparr> in
           rbind (tlab_initialize h a (a + sz) (a + ar_actual_size req)) (\<lambda>t.
             case tl_bitmap t of None \<Rightarrow> Inl NullDeref | Some i \<Rightarrow> Inr (Some a, th\<lparr>th_tlab := t\<rparr>, region_set_bit h i a)))))"

definition allocate_slow :: "(Heap \<Rightarrow> Heap) \<Rightarrow> nat \<Rightarrow> nat \<Rightarrow> Thread \<times> Heap \<Rightarrow> (addr \<times> Thread \<times> Heap) res" where
  "allocate_slow wait now sz = (\<lambda>(th, h).
     if \<not> th_registered th then Inl AssertFailed
     else if sz > th_max_tlab_size th then allocate_outside_tlab wait now sz (th, h)
     else rbind (alloc_inside_tlab_slow wait now sz (th, h)) (\<lambda>(mem, th, h). case mem of
       None \<Rightarrow> allocate_outside_tlab wait now sz (th, h)
     | Some a \<Rightarrow> Inr (a, th, h)))"

definition allocate_raw :: "(Heap \<Rightarrow> Heap) \<Rightarrow> nat \<Rightarrow> nat \<Rightarrow> Thread \<times> Heap \<Rightarrow> (addr \<times> Thread \<times> Heap) res" where
  "allocate_raw wait now sz = (\<lambda>(th, h).
     rbind (tlab_allocate (th_tlab th) h sz) (\<lambda>(mem, t, h). case mem of
       Some a \<Rightarrow> Inr (a, th\<lparr>th_tlab := t\<rparr>, h)
     | None \<Rightarrow> allocate_slow wait now sz (th, h)))"

text \<open>\<open>allocate_raw_init\<close>: the header of the new object is written and its mark bit is set.\<close>

definition init_header :: "nat \<Rightarrow> nat \<Rightarrow> bool \<Rightarrow> u64" where
  "init_header vt sz no_ptrs =
     (let w = hdr_set_heap_size sz (hdr_set_vtable vt 0) in if no_ptrs then hdr_set_no_heap_ptrs w else w)"

definition allocate_raw_init ::
  "(Heap \<Rightarrow> Heap) \<Rightarrow> nat \<Rightarrow> nat \<Rightarrow> nat \<Rightarrow> bool \<Rightarrow> Thread \<times> Heap \<times> HeapBitmap \<Rightarrow> (addr \<times> Thread \<times> Heap \<times> HeapBitmap) res" where
  "allocate_raw_init wait now sz vt no_ptrs = (\<lambda>(th, h, marks).
     rbind (allocate_raw wait now sz (th, h)) (\<lambda>(a, th, h).
       Inr (a + 8, th, h\<lparr>hp_memory := (hp_memory h)(a := init_header vt sz no_ptrs)\<rparr>, set_bit marks a)))"

section \<open>Lemmas: changes that keep the heap consistent\<close>

lemma heap_inv_memory:
  assumes "heap_inv n h Bs" "\<forall>j < region_count (hp_opts h). \<forall>c \<in># Bs j. \<forall>x \<in> block_bytes c. m' x = hp_memory h x"
  shows "heap_inv n (h\<lparr>hp_memory := m'\<rparr>) Bs"
proof -
  have "region_inv n (hp_regions h ! i) m' (Bs i)" if i: "i < region_count (hp_opts h)" for i
  proof -
    note r = heap_invD(1) [OF assms(1) i]
    have "fl_store (Suc n) (hr_free_list (hp_regions h ! i), m') (Bs i)"
      using fl_store_frame [OF region_invD(7) [OF r], of m'] assms(2) i by blast
    then show ?thesis by (rule region_inv_change [OF r]) (use region_invD(8,9) [OF r] in auto)
  qed
  then show ?thesis using assms(1) by (simp add: heap_inv_def placed_def)
qed

lemma region_set_bit_fields [simp]:
  "hp_opts (region_set_bit h i a) = hp_opts h" "hp_mem_start (region_set_bit h i a) = hp_mem_start h"
  "hp_memory (region_set_bit h i a) = hp_memory h" "hp_free_set (region_set_bit h i a) = hp_free_set h"
  "hp_regions (region_set_bit h i a) =
     (hp_regions h)[i := (hp_regions h ! i)\<lparr>hr_object_start_bitmap := set_bit (hr_object_start_bitmap (hp_regions h ! i)) a\<rparr>]"
  by (simp_all add: region_set_bit_def put_region_def Let_def)

lemma region_set_bit_same:
  "hr_typ (hp_regions (region_set_bit h i a) ! j) = hr_typ (hp_regions h ! j)"
  "hr_begin (hp_regions (region_set_bit h i a) ! j) = hr_begin (hp_regions h ! j)"
  "hr_end (hp_regions (region_set_bit h i a) ! j) = hr_end (hp_regions h ! j)"
  "hr_to_sweep (hp_regions (region_set_bit h i a) ! j) = hr_to_sweep (hp_regions h ! j)"
  "hr_free_list (hp_regions (region_set_bit h i a) ! j) = hr_free_list (hp_regions h ! j)"
proof -
  have "hp_regions (region_set_bit h i a) ! j = (if i = j \<and> j < length (hp_regions h)
      then (hp_regions h ! j)\<lparr>hr_object_start_bitmap := set_bit (hr_object_start_bitmap (hp_regions h ! j)) a\<rparr> else hp_regions h ! j)"
    by (cases "i = j"; cases "j < length (hp_regions h)") (simp_all add: list_update_beyond)
  then show "hr_typ (hp_regions (region_set_bit h i a) ! j) = hr_typ (hp_regions h ! j)"
    "hr_begin (hp_regions (region_set_bit h i a) ! j) = hr_begin (hp_regions h ! j)"
    "hr_end (hp_regions (region_set_bit h i a) ! j) = hr_end (hp_regions h ! j)"
    "hr_to_sweep (hp_regions (region_set_bit h i a) ! j) = hr_to_sweep (hp_regions h ! j)"
    "hr_free_list (hp_regions (region_set_bit h i a) ! j) = hr_free_list (hp_regions h ! j)" by simp_all
qed

lemma region_set_bit_inv:
  assumes "heap_inv n h Bs" "i < region_count (hp_opts h)"
  shows "heap_inv n (region_set_bit h i a) Bs"
proof -
  let ?r = "(hp_regions h ! i)\<lparr>hr_object_start_bitmap := set_bit (hr_object_start_bitmap (hp_regions h ! i)) a\<rparr>"
  note rD = heap_invD [OF assms]
  have "region_inv n ?r (hp_memory h) (Bs i)" by (rule region_inv_fields [OF _ _ _ _ rD(1)]) (simp_all add: hr_is_empty_def)
  moreover have "placed n h i ?r" using rD(2) by (simp add: placed_def)
  ultimately have "heap_inv n (region_set_bit h i a) (Bs(i := Bs i))" by (rule heap_inv_put [OF assms]) simp_all
  then show ?thesis by simp
qed

lemma region_set_bit_fs: "fs_inv h \<Longrightarrow> fs_inv (region_set_bit h i a)"
proof -
  have "usable (hp_opts h) (hp_regions (region_set_bit h i a) ! j) \<longleftrightarrow> usable (hp_opts h) (hp_regions h ! j)" for j
    using region_set_bit_same [of h i a j]
    by (simp add: usable_def alloc_capacity_def hr_is_alloc_allowed_def hr_is_trash_def hr_is_empty_def hr_free_def hr_size_def)
  then show "fs_inv h \<Longrightarrow> fs_inv (region_set_bit h i a)" using region_set_bit_same(4) [of h i a] by (simp add: fs_inv_def)
qed

lemma region_set_bit_check:
  assumes "i < length (hp_regions h)" "hb_offset (hr_object_start_bitmap (hp_regions h ! i)) \<le> a"
  shows "check_bit (hr_object_start_bitmap (hp_regions (region_set_bit h i a) ! i)) a"
  using assms by (simp add: check_bit_eq hb_bit_set_bit bit_number_def)

lemma region_index_at:
  assumes "heap_inv n h Bs" "i < region_count (hp_opts h)" "a \<in> region_range (hp_regions h ! i)"
  shows "region_index h a = Inr i"
proof -
  have o: "region_size_bytes_shift (hp_opts h) = n" using assms(1) by (simp add: heap_inv_def opts_ok_def)
  have "hr_begin (hp_regions h ! i) = hp_mem_start h + i * 2 ^ n" "hr_end (hp_regions h ! i) = hr_begin (hp_regions h ! i) + 2 ^ n"
    using heap_invD(2) [OF assms(1,2)] region_invD(5) [OF heap_invD(1) [OF assms(1,2)]] by (simp_all add: placed_def)
  then have a: "hp_mem_start h + i * 2 ^ n \<le> a" "a < hp_mem_start h + i * 2 ^ n + 2 ^ n" using assms(3) by (auto simp: region_range_def)
  then have "(a - hp_mem_start h) div 2 ^ n = i" by (intro div_nat_eqI) (simp_all add: less_diff_conv2 algebra_simps)
  then show ?thesis using a(1) by (simp add: region_index_def o drop_bit_eq_div)
qed

section \<open>The invariant of a thread\<close>

text \<open>The unused part of a buffer lies in one regular region and overlaps no free block.\<close>

definition tlab_in :: "Heap \<Rightarrow> (nat \<Rightarrow> block multiset) \<Rightarrow> Tlab \<Rightarrow> nat \<Rightarrow> bool" where
  "tlab_in h Bs t i \<longleftrightarrow> i < region_count (hp_opts h) \<and> tl_bitmap t = Some i \<and> hr_typ (hp_regions h ! i) = Regular \<and>
     hr_begin (hp_regions h ! i) \<le> tl_start t \<and> tl_start t < tl_end t \<and> tl_start t \<le> tl_top t \<and> tl_top t \<le> tl_end t \<and>
     tl_end t \<le> hr_end (hp_regions h ! i) \<and> tl_top t mod 8 = 0 \<and> 16 dvd tl_end t - tl_top t \<and>
     (\<forall>j < region_count (hp_opts h). \<forall>c \<in># Bs j. block_bytes (tl_top t, tl_end t - tl_top t) \<inter> block_bytes c = {})"

definition tlab_inv :: "Heap \<Rightarrow> (nat \<Rightarrow> block multiset) \<Rightarrow> Tlab \<Rightarrow> bool" where
  "tlab_inv h Bs t \<longleftrightarrow> t = Tlab_new \<or> (\<exists>i. tlab_in h Bs t i)"

text \<open>What a thread is given: a block in the heap whose start is recorded, apart from all that is free and from the rest
  of the thread's buffer.\<close>

definition object_at :: "Heap \<Rightarrow> (nat \<Rightarrow> block multiset) \<Rightarrow> Tlab \<Rightarrow> addr \<Rightarrow> nat \<Rightarrow> bool" where
  "object_at h Bs t a sz \<longleftrightarrow> a mod 8 = 0 \<and>
     (\<exists>i < region_count (hp_opts h). hr_begin (hp_regions h ! i) \<le> a \<and> a < hr_end (hp_regions h ! i) \<and>
        (hr_is_humongous_start (hp_regions h ! i) \<and> a = hr_begin (hp_regions h ! i) \<or>
         hr_typ (hp_regions h ! i) = Regular \<and> a + sz \<le> hr_end (hp_regions h ! i) \<and>
         check_bit (hr_object_start_bitmap (hp_regions h ! i)) a)) \<and>
     (\<forall>j < region_count (hp_opts h). \<forall>c \<in># Bs j. block_bytes (a, sz) \<inter> block_bytes c = {}) \<and>
     block_bytes (a, sz) \<inter> block_bytes (tl_top t, tl_end t - tl_top t) = {}"

lemma tlab_allocate_spec:
  assumes hi: "heap_inv n h Bs" "fs_inv h" and t: "tlab_inv h Bs t" and sz: "16 \<le> sz" "16 dvd sz"
  obtains (full) "tlab_allocate t h sz = Inr (None, t, h)"
    | (fit) a t' h' where "tlab_allocate t h sz = Inr (Some a, t', h')" "heap_inv n h' Bs" "fs_inv h'" "tlab_inv h' Bs t'"
        "object_at h' Bs t' a sz" "hp_opts h' = hp_opts h" "hp_mem_start h' = hp_mem_start h"
proof (cases "tl_end t - tl_top t \<ge> sz \<and> t \<noteq> Tlab_new")
  case False
  have "tl_top t \<le> tl_end t" using t by (auto simp: tlab_inv_def Tlab_new_def tlab_in_def)
  moreover have "\<not> tl_end t - tl_top t \<ge> sz" using False sz(1) by (auto simp: Tlab_new_def)
  ultimately show thesis by (intro full) (simp add: tlab_allocate_def)
next
  case True
  then obtain i where i: "tlab_in h Bs t i" using t by (auto simp: tlab_inv_def)
  let ?h = "region_set_bit h i (tl_top t)" and ?t = "t\<lparr>tl_top := tl_top t + sz\<rparr>" and ?a = "tl_top t"
  have ti: "i < region_count (hp_opts h)" "tl_bitmap t = Some i" "hr_typ (hp_regions h ! i) = Regular" "hr_begin (hp_regions h ! i) \<le> ?a"
    "tl_top t \<le> tl_end t" "tl_end t \<le> hr_end (hp_regions h ! i)" "?a mod 8 = 0" "16 dvd tl_end t - ?a"
    using i by (auto simp: tlab_in_def)
  note rD = heap_invD [OF hi(1) ti(1)]
  have len: "i < length (hp_regions h)" using rD(4) .
  have cb: "check_bit (hr_object_start_bitmap (hp_regions ?h ! i)) ?a"
    by (rule region_set_bit_check [OF len]) (use rD(2) ti(4) in \<open>simp add: placed_def\<close>)
  have run: "tlab_allocate t h sz = Inr (Some ?a, ?t, ?h)"
    using True ti(2,5) cb by (simp add: tlab_allocate_def Let_def del: region_set_bit_fields(5))
  have sub: "block_bytes (?a, sz) \<subseteq> block_bytes (?a, tl_end t - ?a)" "block_bytes (?a + sz, tl_end t - (?a + sz)) \<subseteq> block_bytes (?a, tl_end t - ?a)"
    using True by (auto simp: block_bytes_def)
  have dis: "\<forall>j < region_count (hp_opts h). \<forall>c \<in># Bs j. block_bytes (?a, tl_end t - ?a) \<inter> block_bytes c = {}" using i by (simp add: tlab_in_def)
  have "(?a + sz) mod 8 = 0"
  proof -
    have "8 dvd sz" using sz(2) by (rule dvd_trans [rotated]) simp
    then show ?thesis using ti(7) by (simp add: dvd_eq_mod_eq_0 mod_eq_0_iff_dvd [symmetric] del: dvd_eq_mod_eq_0) (metis add_0 mod_add_eq mod_0 mod_eq_0_iff_dvd)
  qed
  moreover have "16 dvd tl_end t - (?a + sz)" using ti(8) sz(2) by (metis diff_diff_left dvd_diff_nat)
  moreover have "\<forall>j < region_count (hp_opts h). \<forall>c \<in># Bs j. block_bytes (?a + sz, tl_end t - (?a + sz)) \<inter> block_bytes c = {}"
    using dis sub(2) by blast
  ultimately have "tlab_in ?h Bs ?t i"
    using i True unfolding tlab_in_def region_set_bit_fields(1) region_set_bit_same by auto
  moreover have "object_at ?h Bs ?t ?a sz"
    unfolding object_at_def region_set_bit_fields(1) region_set_bit_same
    using ti cb dis sub(1) True sz(1) by (intro conjI exI [of _ i]) (auto simp: block_bytes_def)
  ultimately show thesis
    using region_set_bit_inv [OF hi(1) ti(1)] region_set_bit_fs [OF hi(2)] by (intro fit [OF run]) (auto simp: tlab_inv_def)
qed

text \<open>Retiring a buffer gives its unused part back to the free list of its region.\<close>

lemma tlab_retire_heap:
  assumes hi: "heap_inv n h Bs" and t: "tlab_inv h Bs t"
  obtains h' Bs' where "tlab_retire t h = Inr (Tlab_new, h')" "heap_inv n h' Bs'" "fs_inv h \<longrightarrow> fs_inv h'" "hp_opts h' = hp_opts h" "hp_mem_start h' = hp_mem_start h"
    "\<forall>i. hr_used (hp_regions h' ! i) = hr_used (hp_regions h ! i)" "hp_free_set h' = hp_free_set h"
    "\<forall>j. hr_typ (hp_regions h' ! j) = hr_typ (hp_regions h ! j) \<and> hr_begin (hp_regions h' ! j) = hr_begin (hp_regions h ! j) \<and>
       hr_end (hp_regions h' ! j) = hr_end (hp_regions h ! j)"
    "\<forall>j < region_count (hp_opts h). \<forall>c \<in># Bs' j. c \<in># Bs j \<or> c = (tl_top t, tl_end t - tl_top t)"
    "\<forall>i. tlab_in h Bs t i \<longrightarrow> Bs' = (if tl_top t = tl_end t then Bs else Bs(i := add_mset (tl_top t, tl_end t - tl_top t) (Bs i)))"
proof (cases "t = Tlab_new")
  case True
  then show thesis using hi by (intro that [of h Bs]) (simp_all add: tlab_retire_def Tlab_new_def tlab_in_def)
next
  case False
  then obtain i where i: "tlab_in h Bs t i" using t by (auto simp: tlab_inv_def)
  let ?r = "hp_regions h ! i" and ?b = "(tl_top t, tl_end t - tl_top t)"
  have ti: "i < region_count (hp_opts h)" "tl_bitmap t = Some i" "hr_typ ?r = Regular" "hr_begin ?r \<le> tl_start t" "tl_start t < tl_end t"
    "tl_start t \<le> tl_top t" "tl_top t \<le> tl_end t" "tl_end t \<le> hr_end ?r" "tl_top t mod 8 = 0" "16 dvd tl_end t - tl_top t"
    and dis: "\<forall>c \<in># Bs i. block_bytes ?b \<inter> block_bytes c = {}" using i by (auto simp: tlab_in_def)
  have uniq: "j = i" if "tlab_in h Bs t j" for j using that ti(2) by (simp add: tlab_in_def)
  note rD = heap_invD [OF hi ti(1)]
  have ri: "region_index h (tl_start t) = Inr i"
    by (rule region_index_at [OF hi ti(1)]) (use ti(4,5,8) in \<open>simp add: region_range_def\<close>)
  show thesis
  proof (cases "tl_top t = tl_end t")
    case True
    then have "tlab_retire t h = Inr (Tlab_new, h)" using ri rD(3) ti(5) by (simp add: tlab_retire_def tlab_free_remaining_def)
    then show thesis using hi True by (intro that [of h Bs]) simp_all
  next
    case ne: False
    note rv = region_invD [OF rD(1)]
    have room: "tl_top t < tl_end t" using ne ti(7) by simp
    then have "16 \<le> tl_end t - tl_top t" using ti(10) by (intro dvd_imp_le) simp_all
    moreover have "tl_end t - tl_top t \<le> 2 ^ n" using rv(5) ti(4,6,8) by linarith
    then have "tl_end t - tl_top t < 2 ^ Suc n" by (rule le_less_trans) simp
    ultimately have "wf_block (Suc n) ?b" using ti rv(3,6) room by (auto simp: wf_block_def)
    from fls.give_law [OF rv(7) this dis] obtain fl m where g: "fl_add (hr_free_list ?r) (hp_memory h) (tl_top t) (tl_end t - tl_top t) = Inr (fl, m)"
      "fl_store (Suc n) (fl, m) (add_mset ?b (Bs i))" "\<forall>x. x \<notin> block_bytes ?b \<longrightarrow> m x = hp_memory h x"
      by (auto simp: fl_give_def)
    let ?r' = "?r\<lparr>hr_free_list := fl\<rparr>" and ?h = "(put_region h i (?r\<lparr>hr_free_list := fl\<rparr>))\<lparr>hp_memory := m\<rparr>" and ?B = "Bs(i := add_mset ?b (Bs i))"
    have run: "tlab_retire t h = Inr (Tlab_new, ?h)"
      using ri rD(3) ti(5,7) ne g(1) by (simp add: tlab_retire_def tlab_free_remaining_def)
    have bb: "block_bytes ?b \<subseteq> {hr_begin ?r ..< hr_end ?r}" using ti by (auto simp: block_bytes_def)
    have rinv: "region_inv n ?r' m (add_mset ?b (Bs i))"
      by (rule region_inv_change [OF rD(1)]) (use g(2) rv(8) bb ti(3) in \<open>auto simp: hr_is_empty_def\<close>)
    have hinv: "heap_inv n ?h ?B"
      by (rule heap_inv_put [OF hi ti(1) rinv]) (use rD(2) g(3) bb in \<open>auto simp: placed_def region_range_def put_region_def\<close>)
    have reg: "hp_regions ?h ! j = (if j = i then ?r' else hp_regions h ! j)" for j using rD(4) by (auto simp: put_region_def)
    have "usable (hp_opts h) (hp_regions ?h ! j)" if "usable (hp_opts h) (hp_regions h ! j)" for j
    proof (cases "j = i")
      case True
      have "hr_free ?r' = bag_bytes (add_mset ?b (Bs i))" using region_free_eq [OF rinv] ti(3) by (simp add: region_blocks_def hr_is_empty_def)
      then show ?thesis using True reg ti(3) room by (simp add: usable_def hr_is_alloc_allowed_def hr_is_trash_def alloc_capacity_def)
    qed (use that reg in simp)
    then have "fs_inv h \<longrightarrow> fs_inv ?h" using reg unfolding fs_inv_def by (simp add: put_region_def split: if_splits)
    moreover have "\<forall>j. hr_typ (hp_regions ?h ! j) = hr_typ (hp_regions h ! j) \<and> hr_begin (hp_regions ?h ! j) = hr_begin (hp_regions h ! j) \<and>
       hr_end (hp_regions ?h ! j) = hr_end (hp_regions h ! j)" using reg by simp
    moreover have "hr_used (hp_regions ?h ! j) = hr_used (hp_regions h ! j)" for j using reg by simp
    ultimately show thesis using ne uniq hinv by (intro that [OF run, of ?B]) (auto simp: put_region_def split: if_splits)
  qed
qed

lemma tlab_retire_spec:
  assumes hi: "heap_inv n h Bs" "fs_inv h" and t: "tlab_inv h Bs t"
  obtains h' Bs' where "tlab_retire t h = Inr (Tlab_new, h')" "heap_inv n h' Bs'" "fs_inv h'" "hp_opts h' = hp_opts h" "hp_mem_start h' = hp_mem_start h"
    "\<forall>i. hr_used (hp_regions h' ! i) = hr_used (hp_regions h ! i)" "hp_free_set h' = hp_free_set h"
    "\<forall>i. tlab_in h Bs t i \<longrightarrow> Bs' = (if tl_top t = tl_end t then Bs else Bs(i := add_mset (tl_top t, tl_end t - tl_top t) (Bs i)))"
  using tlab_retire_heap [OF hi(1) t] hi(2) by metis

text \<open>The buffers of several threads do not overlap.\<close>

definition tlab_rest :: "Tlab \<Rightarrow> addr set" where
  "tlab_rest t = block_bytes (tl_top t, tl_end t - tl_top t)"

fun tlabs_inv :: "Heap \<Rightarrow> (nat \<Rightarrow> block multiset) \<Rightarrow> Tlab list \<Rightarrow> bool" where
  "tlabs_inv h Bs [] \<longleftrightarrow> True"
| "tlabs_inv h Bs (t # ts) \<longleftrightarrow> tlab_inv h Bs t \<and> (\<forall>u \<in> set ts. tlab_rest t \<inter> tlab_rest u = {}) \<and> tlabs_inv h Bs ts"

lemma retire_tlabs_spec:
  assumes "heap_inv n h Bs" "tlabs_inv h Bs ts"
  shows "\<exists>h' Bs'. retire_tlabs ts h = Inr (replicate (length ts) Tlab_new, h') \<and> heap_inv n h' Bs' \<and> hp_opts h' = hp_opts h \<and>
    (fs_inv h \<longrightarrow> fs_inv h')"
  using assms
proof (induction ts arbitrary: h Bs)
  case (Cons t ts)
  have "tlab_inv h Bs t" using Cons.prems(2) by simp
  from tlab_retire_heap [OF Cons.prems(1) this] obtain h1 Bs1 where h1: "tlab_retire t h = Inr (Tlab_new, h1)" "heap_inv n h1 Bs1"
    "fs_inv h \<longrightarrow> fs_inv h1" "hp_opts h1 = hp_opts h"
    "\<forall>j. hr_typ (hp_regions h1 ! j) = hr_typ (hp_regions h ! j) \<and> hr_begin (hp_regions h1 ! j) = hr_begin (hp_regions h ! j) \<and>
       hr_end (hp_regions h1 ! j) = hr_end (hp_regions h ! j)"
    "\<forall>j < region_count (hp_opts h). \<forall>c \<in># Bs1 j. c \<in># Bs j \<or> c = (tl_top t, tl_end t - tl_top t)" by metis
  have keep: "tlab_inv h1 Bs1 u" if u: "tlab_inv h Bs u" "tlab_rest t \<inter> tlab_rest u = {}" for u
  proof (cases "u = Tlab_new")
    case False
    then obtain i where i: "tlab_in h Bs u i" using u(1) by (auto simp: tlab_inv_def)
    have "block_bytes (tl_top u, tl_end u - tl_top u) \<inter> block_bytes c = {}" if "j < region_count (hp_opts h)" "c \<in># Bs1 j" for j c
      using h1(6) that i u(2) unfolding tlab_in_def tlab_rest_def by blast
    then have "tlab_in h1 Bs1 u i" using i h1(4,5) unfolding tlab_in_def by simp
    then show ?thesis by (auto simp: tlab_inv_def)
  qed (simp add: tlab_inv_def)
  have "tlabs_inv h Bs us \<Longrightarrow> \<forall>u \<in> set us. tlab_rest t \<inter> tlab_rest u = {} \<Longrightarrow> tlabs_inv h1 Bs1 us" for us
    by (induction us) (auto intro: keep)
  then have "tlabs_inv h1 Bs1 ts" using Cons.prems(2) by simp
  from Cons.IH [OF h1(2) this] show ?case using h1(1,3,4) by auto
qed auto

section \<open>Lemmas: the slow paths\<close>

text \<open>The options of a heap whose buffers have a fixed size.\<close>

definition tlab_opts :: "HeapOptions \<Rightarrow> nat \<Rightarrow> bool" where
  "tlab_opts opts mx \<longleftrightarrow> \<not> elastic_tlab opts \<and> 16 \<le> mx \<and> 16 dvd mx \<and> 16 \<le> min_tlab_size opts \<and>
     mx \<le> humongous_threshold_bytes opts \<and> humongous_threshold_bytes opts \<le> 2 ^ region_size_log2 opts"

lemma mark_live_spec:
  assumes hi: "heap_inv n h Bs" "fs_inv h" and i: "i < region_count (hp_opts h)" "a \<in> region_range (hp_regions h ! i)"
    and ty: "hr_is_humongous_start (hp_regions h ! i) \<or> hr_typ (hp_regions h ! i) = Regular"
  obtains h' where "mark_live h a = Inr h'" "heap_inv n h' Bs" "fs_inv h'" "h' = h \<or> h' = region_set_bit h i a"
proof -
  note ri = region_index_at [OF hi(1) i] and rD = heap_invD [OF hi(1) i(1)]
  show thesis
  proof (cases "hr_is_humongous_start (hp_regions h ! i)")
    case True
    then show thesis using ri rD(3) hi by (intro that [of h]) (simp_all add: mark_live_def)
  next
    case False
    then have "mark_live h a = Inr (region_set_bit h i a)"
      using ri rD(3) ty by (simp add: mark_live_def hr_is_humongous_cont_def region_set_bit_def Let_def)
    then show thesis using that region_set_bit_inv [OF hi(1) i(1)] region_set_bit_fs [OF hi(2)] by blast
  qed
qed

text \<open>After waiting for the collector there was still no room for an object of this size.\<close>

definition wait_in_vain :: "nat \<Rightarrow> (Heap \<Rightarrow> Heap) \<Rightarrow> HeapOptions \<Rightarrow> nat \<Rightarrow> bool" where
  "wait_in_vain n wait opts sz \<longleftrightarrow>
     (\<exists>h1 Bs1. heap_inv n (wait h1) Bs1 \<and> fs_inv (wait h1) \<and> hp_opts (wait h1) = opts \<and> exhausted (wait h1) Bs1 (AllocRequest_new Shared sz sz))"

lemma allocate_outside_tlab_spec:
  assumes hi: "heap_inv n h Bs" "fs_inv h" and w: "wait_ok n h wait" and sz: "16 \<le> sz" "16 dvd sz" and th: "th_tlab th = Tlab_new"
  shows "allocate_outside_tlab wait now sz (th, h) = Inl OutOfMemory \<and> exhausted h Bs (AllocRequest_new Shared sz sz) \<and> wait_in_vain n wait (hp_opts h) sz \<or>
    (\<exists>a h' Bs'. allocate_outside_tlab wait now sz (th, h) = Inr (a, th, h') \<and> heap_inv n h' Bs' \<and> fs_inv h' \<and>
       object_at h' Bs' (th_tlab th) a sz \<and> hp_opts h' = hp_opts h \<and> hp_mem_start h' = hp_mem_start h)"
proof -
  let ?req = "AllocRequest_new Shared sz sz"
  have rt: "retired_meanwhile now h ?req th = th"
    using th by (auto simp: retired_meanwhile_def split: sum.split option.split)
  have rq: "req_ok ?req" "ar_requested_size ?req = sz" "\<not> for_lab ?req" using sz by (simp_all add: req_ok_def AllocRequest_new_def for_lab_def)
  obtain res h1 req' nw where a: "allocate_memory wait now h ?req = Inr (res, h1, req', nw)" "attempted n h ?req res h1 req'"
    by (rule allocate_memory_spec [OF hi w rq(1)])
  show ?thesis
  proof (cases res)
    case None
    then show ?thesis using a(1) allocate_memory_none [OF hi w rq(1), of now h1 req' nw]
      by (simp add: allocate_outside_tlab_def Let_def wait_in_vain_def)
  next
    case (Some x)
    obtain Bs1 where h1: "heap_inv n h1 Bs1" "handed_out n h1 Bs1 ?req req' x" "fs_inv h1" "ar_actual_size req' = sz"
      "hp_opts h1 = hp_opts h" "hp_mem_start h1 = hp_mem_start h"
      using a(2) Some rq by (auto simp: attempted_def)
    have ho: "x mod 8 = 0" "\<forall>j < region_count (hp_opts h1). \<forall>c \<in># Bs1 j. block_bytes (x, sz) \<inter> block_bytes c = {}"
      using h1(2,4) by (simp_all add: handed_out_def)
    obtain i where i: "i < region_count (hp_opts h1)" "hr_begin (hp_regions h1 ! i) \<le> x" "x < hr_end (hp_regions h1 ! i)"
      "hr_is_humongous_start (hp_regions h1 ! i) \<and> x = hr_begin (hp_regions h1 ! i) \<or>
       hr_typ (hp_regions h1 ! i) = Regular \<and> x + sz \<le> hr_end (hp_regions h1 ! i) \<and> check_bit (hr_object_start_bitmap (hp_regions h1 ! i)) x"
    proof (cases "ar_requested_size ?req > humongous_threshold_bytes (hp_opts h1)")
      case True
      then obtain i where "i < region_count (hp_opts h1)" "x = hr_begin (hp_regions h1 ! i)" "hr_is_humongous_start (hp_regions h1 ! i)"
        using h1(2) by (auto simp: handed_out_def)
      moreover have "hr_begin (hp_regions h1 ! i) < hr_end (hp_regions h1 ! i)"
        using region_invD(5) [OF heap_invD(1) [OF h1(1) \<open>i < region_count (hp_opts h1)\<close>]] by simp
      ultimately show thesis using that by simp
    next
      case False
      then obtain i where "i < region_count (hp_opts h1)" "hr_typ (hp_regions h1 ! i) = Regular" "hr_begin (hp_regions h1 ! i) \<le> x"
        "x + sz \<le> hr_end (hp_regions h1 ! i)" "check_bit (hr_object_start_bitmap (hp_regions h1 ! i)) x"
        using h1(2,4) rq(3) by (auto simp: handed_out_def)
      then show thesis using that sz(1) by simp
    qed
    have rr: "x \<in> region_range (hp_regions h1 ! i)" using i(2,3) by (simp add: region_range_def)
    obtain h2 where h2: "mark_live h1 x = Inr h2" "heap_inv n h2 Bs1" "fs_inv h2" "h2 = h1 \<or> h2 = region_set_bit h1 i x"
      by (rule mark_live_spec [OF h1(1,3) i(1) rr]) (use i(4) in auto)
    have same: "hp_opts h2 = hp_opts h1" "hp_mem_start h2 = hp_mem_start h1" "hr_typ (hp_regions h2 ! i) = hr_typ (hp_regions h1 ! i)"
      "hr_begin (hp_regions h2 ! i) = hr_begin (hp_regions h1 ! i)" "hr_end (hp_regions h2 ! i) = hr_end (hp_regions h1 ! i)"
      using h2(4) region_set_bit_same by auto
    have "hb_offset (hr_object_start_bitmap (hp_regions h1 ! i)) \<le> x" using heap_invD(2) [OF h1(1) i(1)] i(2) by (simp add: placed_def)
    then have cb: "check_bit (hr_object_start_bitmap (hp_regions h2 ! i)) x" if "check_bit (hr_object_start_bitmap (hp_regions h1 ! i)) x"
      using h2(4) that region_set_bit_check [OF heap_invD(4) [OF h1(1) i(1)]] by auto
    have "object_at h2 Bs1 (th_tlab th) x sz"
      unfolding object_at_def same(1) th using ho i cb same(3-5)
      by (intro conjI exI [of _ i]) (auto simp: Tlab_new_def block_bytes_def hr_is_humongous_start_def)
    then show ?thesis using a(1) Some h2(1-3) same(1,2) h1(5,6) rt by (auto simp: allocate_outside_tlab_def Let_def)
  qed
qed

lemma wait_ok_cong: "hp_opts h' = hp_opts h \<Longrightarrow> hp_mem_start h' = hp_mem_start h \<Longrightarrow> wait_ok n h' wait = wait_ok n h wait"
  by (simp add: wait_ok_def)

text \<open>A fresh buffer is zeroed, its first object starts at its beginning.\<close>

lemma fresh_tlab:
  assumes hi: "heap_inv n h Bs" "fs_inv h" and i: "i < region_count (hp_opts h)" "hr_typ (hp_regions h ! i) = Regular"
    and a: "hr_begin (hp_regions h ! i) \<le> a" "a + en \<le> hr_end (hp_regions h ! i)" "a mod 8 = 0"
    and dis: "\<forall>j < region_count (hp_opts h). \<forall>c \<in># Bs j. block_bytes (a, en) \<inter> block_bytes c = {}"
    and sz: "16 \<le> sz" "16 dvd sz" "sz \<le> en" "16 dvd en"
    and h1: "h1 = region_set_bit (h\<lparr>hp_memory := zero_bytes (hp_memory h) a en\<rparr>) i a"
    and t: "t = \<lparr>tl_start = a, tl_top = a + sz, tl_end = a + en, tl_bitmap = Some i\<rparr>"
  shows "heap_inv n h1 Bs" "fs_inv h1" "tlab_inv h1 Bs t" "object_at h1 Bs t a sz" "hp_opts h1 = hp_opts h" "hp_mem_start h1 = hp_mem_start h"
    "tlab_initialize (h\<lparr>hp_memory := zero_bytes (hp_memory h) a en\<rparr>) a (a + sz) (a + en) = Inr t"
proof -
  let ?h = "h\<lparr>hp_memory := zero_bytes (hp_memory h) a en\<rparr>"
  have zb: "zero_bytes (hp_memory h) a en x = hp_memory h x" if "j < region_count (hp_opts h)" "c \<in># Bs j" "x \<in> block_bytes c" for j c x
  proof -
    have "x \<notin> block_bytes (a, en)" using dis that by blast
    then show ?thesis by (auto simp: zero_bytes_def block_bytes_def)
  qed
  have hz: "heap_inv n ?h Bs" by (rule heap_inv_memory [OF hi(1)]) (use zb in blast)
  have fz: "fs_inv ?h" using hi(2) by (simp add: fs_inv_def)
  show o: "hp_opts h1 = hp_opts h" "hp_mem_start h1 = hp_mem_start h" by (simp_all add: h1)
  show "heap_inv n h1 Bs" unfolding h1 by (rule region_set_bit_inv [OF hz]) (use i(1) in simp)
  show "fs_inv h1" unfolding h1 by (rule region_set_bit_fs [OF fz])
  have same: "hr_typ (hp_regions h1 ! j) = hr_typ (hp_regions h ! j)" "hr_begin (hp_regions h1 ! j) = hr_begin (hp_regions h ! j)"
    "hr_end (hp_regions h1 ! j) = hr_end (hp_regions h ! j)" for j using region_set_bit_same [of ?h i a j] by (simp_all add: h1 del: region_set_bit_fields)
  have cb: "check_bit (hr_object_start_bitmap (hp_regions h1 ! i)) a"
    unfolding h1 by (rule region_set_bit_check) (use heap_invD(2,4) [OF hi(1) i(1)] a(1) in \<open>simp_all add: placed_def\<close>)
  have al: "(a + sz) mod 8 = 0" using a(3) sz(2) by (auto elim!: dvdE)
  have "tlab_in h1 Bs t i"
    unfolding tlab_in_def o same t Tlab.select_convs using i a sz al dis by (auto simp: block_bytes_def dvd_diff_nat)
  then show "tlab_inv h1 Bs t" by (auto simp: tlab_inv_def)
  show "object_at h1 Bs t a sz"
    unfolding object_at_def o same t Tlab.select_convs using i a sz cb dis
    by (intro conjI exI [of _ i]) (auto simp: block_bytes_def)
  have "region_index ?h a = Inr i" by (rule region_index_at [OF hz]) (use i(1) a(1,2) sz in \<open>simp_all add: region_range_def\<close>)
  then show "tlab_initialize ?h a (a + sz) (a + en) = Inr t"
    using heap_invD(3) [OF hz, of i] i(1) by (simp add: tlab_initialize_def t)
qed

lemma alloc_inside_tlab_slow_spec:
  assumes hi: "heap_inv n h Bs" "fs_inv h" and w: "wait_ok n h wait" and t: "tlab_inv h Bs (th_tlab th)"
    and o: "tlab_opts (hp_opts h) (th_max_tlab_size th)" and sz: "16 \<le> sz" "16 dvd sz" "sz \<le> th_max_tlab_size th"
  obtains (none) h' Bs' where "alloc_inside_tlab_slow wait now sz (th, h) = Inr (None, th\<lparr>th_tlab := Tlab_new\<rparr>, h')" "heap_inv n h' Bs'" "fs_inv h'"
        "hp_opts h' = hp_opts h" "hp_mem_start h' = hp_mem_start h"
        "\<exists>h0 Bs0. tlab_retire (th_tlab th) h = Inr (Tlab_new, h0) \<and> heap_inv n h0 Bs0 \<and> exhausted h0 Bs0 (AllocRequest_new ForLAB (min_tlab_size (hp_opts h)) (th_max_tlab_size th))"
    | (some) a t' h' Bs' where "alloc_inside_tlab_slow wait now sz (th, h) = Inr (Some a, th\<lparr>th_tlab := t'\<rparr>, h')" "heap_inv n h' Bs'" "fs_inv h'"
        "tlab_inv h' Bs' t'" "object_at h' Bs' t' a sz" "hp_opts h' = hp_opts h" "hp_mem_start h' = hp_mem_start h"
proof -
  obtain h1 Bs1 where r: "tlab_retire (th_tlab th) h = Inr (Tlab_new, h1)" "heap_inv n h1 Bs1" "fs_inv h1" "hp_opts h1 = hp_opts h" "hp_mem_start h1 = hp_mem_start h"
    by (rule tlab_retire_spec [OF hi t])
  let ?mx = "th_max_tlab_size th"
  let ?req = "AllocRequest_new ForLAB (min_tlab_size (hp_opts h1)) ?mx"
  have rq: "req_ok ?req" "for_lab ?req" "ar_requested_size ?req = ?mx"
    using o r(4) by (simp_all add: req_ok_def AllocRequest_new_def for_lab_def tlab_opts_def)
  have w1: "wait_ok n h1 wait" using w wait_ok_cong [OF r(4,5)] by blast
  obtain res h2 req' nw where a: "allocate_memory wait now h1 ?req = Inr (res, h2, req', nw)" "attempted n h1 ?req res h2 req'"
    by (rule allocate_memory_spec [OF r(2,3) w1 rq(1)])
  show thesis
  proof (cases res)
    case None
    then obtain Bs2 where "heap_inv n h2 Bs2" "fs_inv h2" "hp_opts h2 = hp_opts h" "hp_mem_start h2 = hp_mem_start h" using a(2) r(4,5) by (auto simp: attempted_def)
    moreover have "exhausted h1 Bs1 ?req" by (rule allocate_memory_none(1) [OF r(2,3) w1 rq(1)]) (use a(1) None in simp)
    ultimately show thesis using r(1,2,4) a(1) None by (intro none [of h2 Bs2]) (auto simp: alloc_inside_tlab_slow_def Let_def)
  next
    case (Some x)
    obtain Bs2 where h2: "heap_inv n h2 Bs2" "handed_out n h2 Bs2 ?req req' x" "fs_inv h2" "hp_opts h2 = hp_opts h" "hp_mem_start h2 = hp_mem_start h"
      using a(2) Some r(4,5) by (auto simp: attempted_def)
    have small: "\<not> ar_requested_size ?req > humongous_threshold_bytes (hp_opts h2)" using o h2(4) rq(3) by (simp add: tlab_opts_def)
    have so: "size_ok (hp_opts h2) ?req (ar_actual_size req')" using h2(2) small by (simp add: handed_out_def)
    then have en: "ar_actual_size req' = ?mx" using o h2(4) rq(3) by (auto simp: size_ok_def tlab_opts_def)
    obtain i where i: "i < region_count (hp_opts h2)" "hr_typ (hp_regions h2 ! i) = Regular" "hr_begin (hp_regions h2 ! i) \<le> x" "x + ?mx \<le> hr_end (hp_regions h2 ! i)"
      using h2(2) small en by (auto simp: handed_out_def)
    have x: "x mod 8 = 0" "\<forall>j < region_count (hp_opts h2). \<forall>c \<in># Bs2 j. block_bytes (x, ?mx) \<inter> block_bytes c = {}"
      using h2(2) en by (simp_all add: handed_out_def)
    have d: "16 dvd ?mx" using o by (simp add: tlab_opts_def)
    note f = fresh_tlab [OF h2(1,3) i x(1,2) sz d refl refl]
    have run: "alloc_inside_tlab_slow wait now sz (th, h) = Inr (Some x, th\<lparr>th_tlab := \<lparr>tl_start = x, tl_top = x + sz, tl_end = x + ?mx, tl_bitmap = Some i\<rparr>\<rparr>,
      region_set_bit (h2\<lparr>hp_memory := zero_bytes (hp_memory h2) x ?mx\<rparr>) i x)"
      using r(1) a(1) Some en f(7) by (simp add: alloc_inside_tlab_slow_def Let_def)
    show thesis by (rule some [OF run f(1-4)]) (use f(5,6) h2(4,5) in simp_all)
  qed
qed

text \<open>The first request that the slow path makes.\<close>

definition slow_request :: "HeapOptions \<Rightarrow> Thread \<Rightarrow> nat \<Rightarrow> AllocRequest" where
  "slow_request opts th sz = (if sz > th_max_tlab_size th then AllocRequest_new Shared sz sz
     else AllocRequest_new ForLAB (min_tlab_size opts) (th_max_tlab_size th))"

lemma allocate_raw_spec:
  assumes hi: "heap_inv n h Bs" "fs_inv h" and w: "wait_ok n h wait" and t: "tlab_inv h Bs (th_tlab th)"
    and o: "tlab_opts (hp_opts h) (th_max_tlab_size th)" and sz: "16 \<le> sz" "16 dvd sz" and reg: "th_registered th"
    and big: "sz \<le> th_max_tlab_size th \<or> th_tlab th = Tlab_new"
  shows "allocate_raw wait now sz (th, h) = Inl OutOfMemory \<and> tl_end (th_tlab th) - tl_top (th_tlab th) < sz \<and>
      (\<exists>h0 Bs0. tlab_retire (th_tlab th) h = Inr (Tlab_new, h0) \<and> heap_inv n h0 Bs0 \<and> exhausted h0 Bs0 (slow_request (hp_opts h) th sz)) \<and>
      wait_in_vain n wait (hp_opts h) sz \<or>
    (\<exists>a t' h' Bs'. allocate_raw wait now sz (th, h) = Inr (a, th\<lparr>th_tlab := t'\<rparr>, h') \<and> heap_inv n h' Bs' \<and> fs_inv h' \<and>
       tlab_inv h' Bs' t' \<and> object_at h' Bs' t' a sz \<and> hp_opts h' = hp_opts h \<and> hp_mem_start h' = hp_mem_start h)"
proof (rule tlab_allocate_spec [OF hi t sz], goal_cases)
  case (2 a t' h')
  then show ?case by (intro disjI2 exI [of _ a] exI [of _ t'] exI [of _ h'] exI [of _ Bs]) (simp add: allocate_raw_def)
next
  case full: 1
  then have slow: "allocate_raw wait now sz (th, h) = allocate_slow wait now sz (th, h)" by (simp add: allocate_raw_def)
  have room: "tl_end (th_tlab th) - tl_top (th_tlab th) < sz" using full by (auto simp: tlab_allocate_def Let_def rbind_eq_Inr split: if_splits option.splits)
  have new: "tlab_inv h' Bs' Tlab_new" for h' Bs' by (simp add: tlab_inv_def)
  show ?case
  proof (cases "sz > th_max_tlab_size th")
    case True
    then have tl: "th_tlab th = Tlab_new" "th\<lparr>th_tlab := Tlab_new\<rparr> = th" using big by auto
    have "allocate_slow wait now sz (th, h) = allocate_outside_tlab wait now sz (th, h)" using True reg by (simp add: allocate_slow_def)
    moreover have "tlab_retire (th_tlab th) h = Inr (Tlab_new, h)" "slow_request (hp_opts h) th sz = AllocRequest_new Shared sz sz"
      using True by (simp_all add: tl(1) tlab_retire_def Tlab_new_def slow_request_def)
    ultimately show ?thesis using allocate_outside_tlab_spec [OF hi w sz tl(1), of now] slow new tl room hi(1) by metis
  next
    case False
    then have le: "sz \<le> th_max_tlab_size th" by simp
    show ?thesis
    proof (rule alloc_inside_tlab_slow_spec [OF hi w t o sz le, of now], goal_cases)
      case (1 h1 Bs1)
      let ?th = "th\<lparr>th_tlab := Tlab_new\<rparr>"
      have "allocate_slow wait now sz (th, h) = allocate_outside_tlab wait now sz (?th, h1)" using 1(1) False reg by (simp add: allocate_slow_def)
      moreover have "wait_ok n h1 wait" using w wait_ok_cong [OF 1(4,5)] by blast
      moreover have "slow_request (hp_opts h) th sz = AllocRequest_new ForLAB (min_tlab_size (hp_opts h)) (th_max_tlab_size th)"
        using le by (simp add: slow_request_def)
      ultimately show ?case using allocate_outside_tlab_spec [OF 1(2,3) _ sz, of wait ?th now] slow new 1(4-6) room by auto
    next
      case (2 a t' h' Bs')
      then have "allocate_slow wait now sz (th, h) = Inr (a, th\<lparr>th_tlab := t'\<rparr>, h')" using False reg by (simp add: allocate_slow_def)
      then show ?case using slow 2 by metis
    qed
  qed
qed

section \<open>Properties\<close>


definition ex_thread :: Thread where
  "ex_thread = \<lparr>th_tlab = Tlab_new, th_max_tlab_size = 2048, th_registered = True\<rparr>"


text \<open>Retiring a thread's buffer never panics, gives exactly its unused part back to the free list of its region and
  keeps heap and free set consistent, but it counts the returned bytes nowhere: the region's \<open>used\<close> and the whole
  free set, so also \<open>available\<close>, stay as they were.\<close>

theorem tlab_retire_correct:
  assumes "heap_inv n h Bs" "fs_inv h" "tlab_in h Bs t i"
  shows "\<exists>h'. tlab_retire t h = Inr (Tlab_new, h') \<and> fs_inv h' \<and>
    heap_inv n h' (if tl_top t = tl_end t then Bs else Bs(i := add_mset (tl_top t, tl_end t - tl_top t) (Bs i))) \<and>
    (\<forall>j. hr_used (hp_regions h' ! j) = hr_used (hp_regions h ! j)) \<and> hp_free_set h' = hp_free_set h"
proof -
  have "tlab_inv h Bs t" using assms(3) by (auto simp: tlab_inv_def)
  from tlab_retire_spec [OF assms(1,2) this] obtain h' Bs' where r: "tlab_retire t h = Inr (Tlab_new, h')" "heap_inv n h' Bs'" "fs_inv h'"
    "\<forall>i. hr_used (hp_regions h' ! i) = hr_used (hp_regions h ! i)" "hp_free_set h' = hp_free_set h"
    "\<forall>i. tlab_in h Bs t i \<longrightarrow> Bs' = (if tl_top t = tl_end t then Bs else Bs(i := add_mset (tl_top t, tl_end t - tl_top t) (Bs i)))" .
  have "Bs' = (if tl_top t = tl_end t then Bs else Bs(i := add_mset (tl_top t, tl_end t - tl_top t) (Bs i)))" using r(6) assms(3) by blast
  then show ?thesis using r(1-5) by (intro exI [of _ h']) simp
qed

definition ex_tlab :: Tlab where
  "ex_tlab = \<lparr>tl_start = 4096, tl_top = 4144, tl_end = 6144, tl_bitmap = Some 0\<rparr>"

theorem tlab_retire_correct_witness:
  "\<exists>fs h'. tlab_retire ex_tlab (ex_heap\<lparr>hp_free_set := fs\<rparr>) = Inr (Tlab_new, h') \<and> fs_inv h' \<and>
    heap_inv 12 h' ((\<lambda>_. {#})(0 := {#(4144, 2000)#})) \<and> hp_free_set h' = fs"
proof -
  obtain fs where fs: "fs_rebuild ex_heap = Inr (ex_heap\<lparr>hp_free_set := fs\<rparr>)" "fs_inv (ex_heap\<lparr>hp_free_set := fs\<rparr>)"
    using fs_rebuild_spec [OF ex_heap_ok(1,2)] by blast
  let ?h = "ex_heap\<lparr>hp_free_set := fs\<rparr>"
  have hi: "heap_inv 12 ?h (\<lambda>_. {#})" using ex_heap_ok(1) by simp
  have "tlab_in ?h (\<lambda>_. {#}) ex_tlab 0" using ex_heap_regions(1) ex_region_facts(2)
    by (simp add: tlab_in_def ex_tlab_def ex_heap_fields)
  from tlab_retire_correct [OF hi fs(2) this] show ?thesis by (auto simp: ex_tlab_def)
qed

lemma init_header_decode:
  assumes "vt < 2 ^ 48"
  shows "hdr_vtable (init_header vt sz np) = vt" "hdr_no_heap_ptrs (init_header vt sz np) = np"
    "SizeTag_decode (init_header vt sz np) = (if size_fits sz then sz div 16 * 16 else 0)" "\<not> hdr_is_marked (init_header vt sz np)"
proof -
  have v: "hdr_vtable (SizeTag_update (hdr_set_vtable vt 0) sz) = vt"
    using hdr_vtable_set [OF assms, of 0] unfolding hdr_vtable_def SizeTag_update_def by (subst bf_decode_update_other) (auto simp: tag_consts)
  then show "hdr_vtable (init_header vt sz np) = vt"
    unfolding init_header_def Let_def hdr_set_heap_size_def hdr_vtable_def hdr_set_no_heap_ptrs_def
    by (cases np) (simp_all add: bf_decode_update_other tag_consts)
  show "hdr_no_heap_ptrs (init_header vt sz np) = np" "\<not> hdr_is_marked (init_header vt sz np)"
    by (auto simp: hdr_flags_bit init_header_def hdr_set_heap_size_def hdr_set_no_heap_ptrs_def SizeTag_update_def hdr_set_vtable_def Let_def bit_simps tag_consts)
  show "SizeTag_decode (init_header vt sz np) = (if size_fits sz then sz div 16 * 16 else 0)"
    using SizeTag_decode_other [of NO_GC_PTRS 1] by (simp add: init_header_def hdr_set_heap_size_def hdr_set_no_heap_ptrs_def SizeTag_decode_update Let_def tag_consts)
qed

text \<open>An object that a thread allocates is complete when the thread gets it: its header gives back vtable, size and the
  no-pointers flag, it is not a free block, its bit in the mark bitmap is set so that a running mark phase keeps
  it, and writing the header left heap, free set and buffer consistent.\<close>

theorem allocate_init_correct:
  assumes "heap_inv n h Bs" "fs_inv h" "wait_ok n h wait" "tlab_inv h Bs (th_tlab th)"
    "tlab_opts (hp_opts h) (th_max_tlab_size th)" "16 \<le> sz" "16 dvd sz" "th_registered th"
    "sz \<le> th_max_tlab_size th \<or> th_tlab th = Tlab_new"
    "0 < vt" "vt < 2 ^ 48" "size_fits sz" "hb_offset marks = hp_mem_start h"
  shows "allocate_raw_init wait now sz vt np (th, h, marks) = Inl OutOfMemory \<or>
    (\<exists>a t' h' Bs' marks'. allocate_raw_init wait now sz vt np (th, h, marks) = Inr (a + 8, th\<lparr>th_tlab := t'\<rparr>, h', marks') \<and>
       heap_inv n h' Bs' \<and> fs_inv h' \<and> tlab_inv h' Bs' t' \<and> object_at h' Bs' t' a sz \<and>
       hdr_vtable (hp_memory h' a) = vt \<and> \<not> hdr_is_free (hp_memory h' a) \<and> heap_size vtab (hp_memory h') a = sz \<and>
       hdr_no_heap_ptrs (hp_memory h' a) = np \<and> check_bit marks' a)"
proof (cases "allocate_raw wait now sz (th, h) = Inl OutOfMemory")
  case True
  then show ?thesis by (simp add: allocate_raw_init_def)
next
  case False
  then obtain a t' h' Bs' where r: "allocate_raw wait now sz (th, h) = Inr (a, th\<lparr>th_tlab := t'\<rparr>, h')" "heap_inv n h' Bs'" "fs_inv h'"
    "tlab_inv h' Bs' t'" "object_at h' Bs' t' a sz" "hp_mem_start h' = hp_mem_start h"
    using allocate_raw_spec [OF assms(1-9), of now] by blast
  let ?m = "(hp_memory h')(a := init_header vt sz np)" and ?h = "h'\<lparr>hp_memory := (hp_memory h')(a := init_header vt sz np)\<rparr>"
  have run: "allocate_raw_init wait now sz vt np (th, h, marks) = Inr (a + 8, th\<lparr>th_tlab := t'\<rparr>, ?h, set_bit marks a)"
    using r(1) by (simp add: allocate_raw_init_def)
  have "a \<in> block_bytes (a, sz)" using assms(6) by (simp add: block_bytes_def)
  then have frame: "?m x = hp_memory h' x" if "j < region_count (hp_opts h')" "c \<in># Bs' j" "x \<in> block_bytes c" for j c x
    using r(5) that unfolding object_at_def by auto
  have "heap_inv n ?h Bs'" by (rule heap_inv_memory [OF r(2)]) (use frame in blast)
  moreover have "fs_inv ?h" using r(3) by (simp add: fs_inv_def)
  moreover have "tlab_inv ?h Bs' t'" "object_at ?h Bs' t' a sz" using r(4,5) by (simp_all add: tlab_inv_def tlab_in_def object_at_def)
  moreover have "hp_mem_start h' \<le> a"
  proof -
    obtain i where "i < region_count (hp_opts h')" "hr_begin (hp_regions h' ! i) \<le> a" using r(5) by (auto simp: object_at_def)
    then show ?thesis using heap_invD(2) [OF r(2)] by (fastforce simp: placed_def)
  qed
  then have "check_bit (set_bit marks a) a" using r(6) assms(13) by (simp add: check_bit_eq hb_bit_set_bit bit_number_def)
  moreover have "hdr_vtable (hp_memory ?h a) = vt" "\<not> hdr_is_free (hp_memory ?h a)" "hdr_no_heap_ptrs (hp_memory ?h a) = np"
    using init_header_decode [OF assms(11), of sz np] assms(10) by (simp_all add: hdr_is_free_iff)
  moreover have "heap_size vtab (hp_memory ?h) a = sz"
    using init_header_decode(3) [OF assms(11), of sz np] assms(6,7,12) by (simp add: heap_size_def)
  ultimately show ?thesis using run by blast
qed

theorem allocate_init_correct_witness:
  "\<exists>h. free_regions (hp_free_set h) = {..<4} \<and> (allocate_raw_init (\<lambda>h. h) 0 48 8 True (ex_thread, h, ex_marks\<lparr>hb_offset := hp_mem_start h\<rparr>) = Inl OutOfMemory \<or>
    (\<exists>a t' h' Bs' marks'. allocate_raw_init (\<lambda>h. h) 0 48 8 True (ex_thread, h, ex_marks\<lparr>hb_offset := hp_mem_start h\<rparr>) = Inr (a + 8, ex_thread\<lparr>th_tlab := t'\<rparr>, h', marks') \<and>
       heap_inv 12 h' Bs' \<and> hdr_vtable (hp_memory h' a) = 8 \<and> heap_size ex_vtab (hp_memory h') a = 48 \<and> check_bit marks' a))"
proof -
  obtain h where h: "heap_inv 12 h (\<lambda>_. {#})" "fs_inv h" "free_regions (hp_free_set h) = {..<4}" "hp_opts h = small_opts"
    by (rule small_heap_ready [OF small_opts_ok(1)]) simp_all
  have w: "wait_ok 12 h (\<lambda>h. h)" by (auto simp: wait_ok_def)
  have t: "tlab_inv h (\<lambda>_. {#}) (th_tlab ex_thread)" by (simp add: tlab_inv_def ex_thread_def)
  have o: "tlab_opts (hp_opts h) (th_max_tlab_size ex_thread)" by (simp add: h(4) tlab_opts_def ex_thread_def)
  have s: "size_fits 48" by (simp add: size_fits_def MAX_SIZE_TAG_eq)
  from allocate_init_correct [OF h(1,2) w t o _ _ _ _ _ _ s, of 8 "ex_marks\<lparr>hb_offset := hp_mem_start h\<rparr>" 0 True ex_vtab] h(3) show ?thesis
    by (intro exI [of _ h]) (auto simp: ex_thread_def)
qed

end
