(* ===== verification/Collection.thy ===== *)
theory Collection
  imports Marking Mutator
begin

text \<open>
  A stop-the-world collection as \<open>FullGC::do_collect\<close> composes it: the buffers of all threads are retired, the roots, precise pointers and conservatively
  scanned stack words, are visited by one thread or by all visitors in parallel, the workers mark until they
  terminate, and the sweep phase runs on the mark bitmap they leave. The theorems connect reachability in the
  object graph with what survives in the heap.
\<close>

section \<open>Roots\<close>

text \<open>What a root hands to its visitor: a pointer to an object, or a word of a stack.\<close>

datatype root_ptr = Precise addr | StackWord addr

text \<open>\<open>visit\<close> and \<open>try_conservative\<close> of visitor \<open>i\<close>.\<close>

definition slot_visit :: "MarkEnv \<Rightarrow> nat \<Rightarrow> addr \<Rightarrow> MarkState \<Rightarrow> MarkState res" where
  "slot_visit E i p s =
     (let a = p - 8; (new, b) = mc_mark (ms_bitmap s) a in
      if new then rbind (sv_push E (MarkTask_new (of_nat a) False False) (ms_visitors s ! i) (ms_injector s))
        (\<lambda>(v, q). Inr ((put_visitor s i v)\<lparr>ms_injector := q, ms_bitmap := b\<rparr>))
      else Inr s)"

definition try_conservative :: "MarkEnv \<Rightarrow> nat \<Rightarrow> addr \<Rightarrow> MarkState \<Rightarrow> MarkState res" where
  "try_conservative E i w s =
     (if \<not> hp_is_in (me_heap E) w then Inr s
      else rbind (object_start (me_heap E) w) (\<lambda>start. case start of None \<Rightarrow> Inr s | Some a \<Rightarrow> slot_visit E i (a + 8) s))"

text \<open>\<open>RootSet::process\<close>. With \<open>parallel_root_mark_tasks\<close> the visitors take the roots in any order: the list says which
  visitor handles which root. Otherwise one thread visits them through the marking context.\<close>

fun parallel_roots :: "MarkEnv \<Rightarrow> (nat \<times> root_ptr) list \<Rightarrow> MarkState \<Rightarrow> MarkState res" where
  "parallel_roots E [] s = Inr s"
| "parallel_roots E ((i, r) # rs) s =
     rbind (case r of Precise p \<Rightarrow> slot_visit E i p s | StackWord w \<Rightarrow> try_conservative E i w s) (parallel_roots E rs)"

fun serial_roots :: "MarkEnv \<Rightarrow> (nat \<times> root_ptr) list \<Rightarrow> MarkingContext \<Rightarrow> MarkingContext res" where
  "serial_roots E [] c = Inr c"
| "serial_roots E ((i, r) # rs) c =
     rbind (case r of Precise p \<Rightarrow> Inr (mc_visit p c) | StackWord w \<Rightarrow> mc_visit_conservative (me_heap E) [w] c) (serial_roots E rs)"

text \<open>The state in which the workers of \<open>STWMark::mark\<close> start, from a cleared bitmap.\<close>

definition process_roots :: "MarkEnv \<Rightarrow> bool \<Rightarrow> nat \<Rightarrow> (nat \<times> root_ptr) list \<Rightarrow> MarkingContext \<Rightarrow> MarkState res" where
  "process_roots E par n rs c =
     (let c = clear_bitmap_full c in
      if par then parallel_roots E rs (mark_start n c) else rbind (serial_roots E rs c) (\<lambda>c. Inr (mark_start n c)))"

text \<open>The object pointer a root stands for.\<close>

definition root_target :: "Heap \<Rightarrow> root_ptr \<Rightarrow> addr option" where
  "root_target h r = (case r of Precise p \<Rightarrow> Some p
     | StackWord w \<Rightarrow> (case object_start h w of Inr (Some a) \<Rightarrow> Some (a + 8) | _ \<Rightarrow> None))"

definition root_targets :: "Heap \<Rightarrow> (nat \<times> root_ptr) list \<Rightarrow> addr set" where
  "root_targets h rs = {p. \<exists>(i, r) \<in> set rs. root_target h r = Some p}"

lemma root_targets_simps [simp]:
  "root_targets h [] = {}"
  "root_targets h ((i, r) # rs) = (case root_target h r of None \<Rightarrow> {} | Some p \<Rightarrow> {p}) \<union> root_targets h rs"
  by (auto simp: root_targets_def split: option.splits)

text \<open>The object graph and the heap a collection starts with.\<close>

definition mark_ready :: "MarkEnv \<Rightarrow> nat \<Rightarrow> (nat \<Rightarrow> block multiset) \<Rightarrow> nat \<Rightarrow> (nat \<times> root_ptr) list \<Rightarrow> addr set \<Rightarrow> MarkingContext \<Rightarrow> bool" where
  "mark_ready E n Bs k rs Ob c \<longleftrightarrow> heap_inv n (me_heap E) Bs \<and> runs_ok (me_heap E) \<and>
     hp_mem_size (me_heap E) = region_count (hp_opts (me_heap E)) * 2 ^ n \<and> 0 < me_stride E \<and> context_ok E c \<and>
     graph_ok E (root_targets (me_heap E) rs) Ob \<and> 0 < k \<and> (\<forall>(i, r) \<in> set rs. i < k)"

definition starts_defined :: "Heap \<Rightarrow> bool" where
  "starts_defined h \<longleftrightarrow> (\<forall>w. \<exists>x. object_start h w = Inr x)"

lemma mark_ready_starts: "mark_ready E n Bs k rs Ob c \<Longrightarrow> starts_defined (me_heap E)"
  using object_start_spec [of n "me_heap E" Bs] unfolding mark_ready_def starts_defined_def by blast

lemma try_conservative_target:
  assumes "starts_defined (me_heap E)"
  shows "try_conservative E i w s = (case root_target (me_heap E) (StackWord w) of None \<Rightarrow> Inr s | Some p \<Rightarrow> slot_visit E i p s)"
    "mc_visit_conservative (me_heap E) [w] c = (case root_target (me_heap E) (StackWord w) of None \<Rightarrow> Inr c | Some p \<Rightarrow> Inr (mc_visit p c))"
proof -
  obtain x where x: "object_start (me_heap E) w = Inr x" using assms unfolding starts_defined_def by blast
  have "x = None" if "\<not> hp_is_in (me_heap E) w" using x that by (simp add: object_start_def)
  then show "try_conservative E i w s = (case root_target (me_heap E) (StackWord w) of None \<Rightarrow> Inr s | Some p \<Rightarrow> slot_visit E i p s)"
    "mc_visit_conservative (me_heap E) [w] c = (case root_target (me_heap E) (StackWord w) of None \<Rightarrow> Inr c | Some p \<Rightarrow> Inr (mc_visit p c))"
    using x by (auto simp: try_conservative_def root_target_def split: option.splits)
qed

lemma serial_roots_eq:
  assumes "starts_defined (me_heap E)"
  shows "\<exists>ps. set ps = root_targets (me_heap E) rs \<and> serial_roots E rs c = Inr (visit_roots ps c)"
proof (induction rs arbitrary: c)
  case (Cons ir rs)
  obtain i r where ir: "ir = (i, r)" by (cases ir)
  have r: "(case r of Precise p \<Rightarrow> Inr (mc_visit p c) | StackWord w \<Rightarrow> mc_visit_conservative (me_heap E) [w] c) =
      (case root_target (me_heap E) r of None \<Rightarrow> Inr c | Some p \<Rightarrow> Inr (mc_visit p c))"
    using try_conservative_target(2) [OF assms] by (cases r) (simp_all add: root_target_def)
  show ?case
  proof (cases "root_target (me_heap E) r")
    case None
    then show ?thesis using Cons.IH [of c] r ir by simp
  next
    case (Some p)
    obtain ps where ps: "set ps = root_targets (me_heap E) rs" "serial_roots E rs (mc_visit p c) = Inr (visit_roots ps (mc_visit p c))"
      using Cons.IH by blast
    then show ?thesis using Some r ir by (intro exI [of _ "p # ps"]) (simp add: visit_roots_def)
  qed
qed (simp add: visit_roots_def)

text \<open>Before the workers start, every visitor is at the top of its loop.\<close>

definition at_start :: "MarkState \<Rightarrow> bool" where
  "at_start s \<longleftrightarrow> (\<forall>v \<in> set (ms_visitors s). sv_pc v = LoopTop) \<and> ms_nworkers s = length (ms_visitors s)"

definition roots_inv :: "MarkEnv \<Rightarrow> addr set \<Rightarrow> addr set \<Rightarrow> MarkState \<Rightarrow> bool" where
  "roots_inv E R V s \<longleftrightarrow> at_start s \<and> hb_offset (ms_bitmap s) = hp_mem_start (me_heap E) \<and>
     colour_inv E R (marked_set E (ms_bitmap s)) (all_tasks s) V"

lemma at_start_sched:
  assumes "at_start s" "0 < length (ms_visitors s)"
  shows "sched_inv s" "no_panic s" "all_visits s = {}"
proof -
  have pc: "sv_pc v = LoopTop" if "v \<in> set (ms_visitors s)" for v using assms(1) that by (simp add: at_start_def)
  then have "awake (ms_visitors s) = length (ms_visitors s)" by (simp add: awake_def asleep_def)
  moreover have "\<exists>v \<in> set (ms_visitors s). \<not> idle (sv_pc v)" using pc [OF nth_mem [OF assms(2)]] by (intro bexI [OF _ nth_mem [OF assms(2)]]) (simp add: idle_def)
  ultimately show "sched_inv s" using assms(1) pc by (auto simp: sched_inv_def at_start_def sched_pcs)
  show "no_panic s" using pc by (simp add: no_panic_def)
  show "all_visits s = {}" using pc by (auto simp: all_visits_def)
qed

lemma at_start_put:
  assumes "at_start s" "i < length (ms_visitors s)" "sv_pc v = LoopTop" "ms_visitors s' = (ms_visitors s)[i := v]" "ms_nworkers s' = ms_nworkers s"
  shows "at_start s'"
  using assms set_update_subset_insert [of "ms_visitors s" i v] by (auto simp: at_start_def)

lemma slot_visit_ok:
  assumes g: "graph_ok E R Ob" and inv: "roots_inv E R (insert p V) s" and i: "i < length (ms_visitors s)"
  obtains s' where "slot_visit E i p s = Inr s'" "roots_inv E R V s'" "length (ms_visitors s') = length (ms_visitors s)"
proof -
  let ?b = "ms_bitmap s" and ?t = "MarkTask_new (of_nat (p - 8)) False False" and ?v = "ms_visitors s ! i"
  have as: "at_start s" and off: "hb_offset ?b = hp_mem_start (me_heap E)"
    and ci: "colour_inv E R (marked_set E ?b) (all_tasks s) (insert p V)" using inv by (simp_all add: roots_inv_def)
  have ob: "p - 8 \<in> Ob" using colour_invD(3) [OF ci, of p] reachable_in [OF g] by simp
  show thesis
  proof (cases "check_bit ?b (p - 8)")
    case True
    then have "p - 8 \<in> marked_set E ?b" using graph_ok_aligned [OF g ob] by (simp add: marked_set_def)
    then have "roots_inv E R V s" using colour_seen [OF ci] as off by (simp add: roots_inv_def)
    then show thesis using True by (intro that [of s]) (simp_all add: slot_visit_def mc_mark_def Let_def)
  next
    case False
    have ok: "obj_ok E (p - 8)" using g ob by (simp add: graph_ok_def)
    have "unat (decode_oop ?t) = p - 8" by (rule task_for_decode [OF ok]) (simp_all add: task_for_def)
    then have "hp_is_in (me_heap E) (unat (decode_oop ?t))" using ok by (simp add: obj_ok_def)
    then obtain v q where p: "sv_push E ?t ?v (ms_injector s) = Inr (v, q)"
      by (auto simp: sv_push_def Let_def split: prod.splits if_splits) (metis surj_pair)
    note pt = sv_push_tasks [OF p]
    let ?s = "(put_visitor s i v)\<lparr>ms_injector := q, ms_bitmap := set_bit ?b (p - 8)\<rparr>"
    have run: "slot_visit E i p s = Inr ?s" using False p by (simp add: slot_visit_def mc_mark_def Let_def)
    have vs: "ms_visitors ?s = (ms_visitors s)[i := v]" by simp
    have pc: "sv_pc ?v = LoopTop" using as i by (simp add: at_start_def)
    then have as': "at_start ?s" using at_start_put [OF as i _ vs] pt(2) by simp
    have pi: "pc_items ?v = []" "pc_items v = []" using pc pt(2) by simp_all
    have "all_tasks ?s = insert ?t (all_tasks s)"
      using tasks_split(1) [OF i] tasks_split(3) [OF i vs] pt(1) pi by (simp add: visitor_tasks_def) blast
    moreover have "marked_set E (ms_bitmap ?s) = insert (p - 8) (marked_set E ?b)" using marked_set_bit [OF g off ob] by simp
    ultimately have "colour_inv E R (marked_set E (ms_bitmap ?s)) (all_tasks ?s) V" using colour_mark [OF g ci] by simp
    then have "roots_inv E R V ?s" using as' off unfolding roots_inv_def by simp
    then show thesis using that [OF run] by simp
  qed
qed

lemma parallel_roots_ok:
  assumes g: "graph_ok E R Ob" and sd: "starts_defined (me_heap E)"
  shows "roots_inv E R (root_targets (me_heap E) rs) s \<Longrightarrow> \<forall>(i, r) \<in> set rs. i < length (ms_visitors s) \<Longrightarrow>
    \<exists>s'. parallel_roots E rs s = Inr s' \<and> roots_inv E R {} s' \<and> length (ms_visitors s') = length (ms_visitors s)"
proof (induction rs arbitrary: s)
  case (Cons ir rs)
  obtain i r where ir: "ir = (i, r)" by (cases ir)
  have i: "i < length (ms_visitors s)" using Cons.prems(2) ir by simp
  have r: "(case r of Precise p \<Rightarrow> slot_visit E i p s | StackWord w \<Rightarrow> try_conservative E i w s) =
      (case root_target (me_heap E) r of None \<Rightarrow> Inr s | Some p \<Rightarrow> slot_visit E i p s)"
    using try_conservative_target(1) [OF sd] by (cases r) (simp_all add: root_target_def)
  show ?case
  proof (cases "root_target (me_heap E) r")
    case None
    then show ?thesis using Cons.IH [of s] Cons.prems r ir by simp
  next
    case (Some p)
    have ri: "roots_inv E R (insert p (root_targets (me_heap E) rs)) s" using Cons.prems(1) ir Some by simp
    obtain s1 where s1: "slot_visit E i p s = Inr s1" "roots_inv E R (root_targets (me_heap E) rs) s1"
      "length (ms_visitors s1) = length (ms_visitors s)" by (rule slot_visit_ok [OF g ri i])
    then show ?thesis using Cons.IH [OF s1(2)] Cons.prems(2) Some r ir by simp
  qed
qed simp

lemma process_roots_ok:
  assumes r: "mark_ready E n Bs k rs Ob c"
  obtains s where "process_roots E par k rs c = Inr s" "roots_inv E (root_targets (me_heap E) rs) {} s" "length (ms_visitors s) = k"
proof -
  let ?R = "root_targets (me_heap E) rs" and ?c = "clear_bitmap_full c"
  have g: "graph_ok E ?R Ob" and fc: "fresh_context E ?c" and k: "0 < k" "\<forall>(i, r) \<in> set rs. i < k"
    using r clear_fresh by (auto simp: mark_ready_def)
  have sd: "starts_defined (me_heap E)" by (rule mark_ready_starts [OF r])
  have m: "marked_set E (mc_bitmap ?c) = {}" "mc_injector ?c = []" "hb_offset (mc_bitmap ?c) = hp_mem_start (me_heap E)"
    using fc by (auto simp: fresh_context_def marked_set_def)
  have ci: "colour_inv E ?R {} {} ?R" using g by (auto simp: colour_inv_def graph_ok_def intro: reachable.root)
  have as: "at_start (mark_start k c')" for c' by (simp add: at_start_def mark_start_def SlotVisitor_new_def)
  have at: "all_tasks (mark_start k c') = set (mc_injector c')" for c'
    by (auto simp: all_tasks_def mark_start_def SlotVisitor_new_def visitor_tasks_def)
  have mark_bitmap: "ms_bitmap (mark_start k c') = mc_bitmap c'" for c' by (simp add: mark_start_def)
  show thesis
  proof (cases par)
    case True
    have "roots_inv E ?R ?R (mark_start k ?c)" unfolding roots_inv_def at using ci as m by (simp add: mark_bitmap)
    from parallel_roots_ok [OF g sd this] k(2) obtain s where "parallel_roots E rs (mark_start k ?c) = Inr s" "roots_inv E ?R {} s"
      "length (ms_visitors s) = k" by (auto simp: mark_start_def)
    then show thesis using True that by (simp add: process_roots_def Let_def)
  next
    case False
    obtain ps where ps: "set ps = ?R" "serial_roots E rs ?c = Inr (visit_roots ps ?c)" using serial_roots_eq [OF sd] by blast
    have "colour_inv E ?R (marked_set E (mc_bitmap ?c)) (set (mc_injector ?c)) ?R" using ci m by simp
    from visit_roots_inv [OF g m(3) ps(1) [symmetric] this]
    have "roots_inv E ?R {} (mark_start k (visit_roots ps ?c))" unfolding roots_inv_def at using as by (simp add: mark_bitmap)
    moreover have "process_roots E par k rs c = Inr (mark_start k (visit_roots ps ?c))" using ps(2) False by (simp add: process_roots_def Let_def)
    moreover have "length (ms_visitors (mark_start k (visit_roots ps ?c))) = k" by (simp add: mark_start_def)
    ultimately show thesis using that by blast
  qed
qed

lemma stw_mark_spec:
  assumes r: "mark_ready E n Bs k rs Ob c" and p: "process_roots E par k rs c = Inr s0" and run: "(mark_step E)\<^sup>*\<^sup>* s0 s"
  shows "no_panic s"
    "heap_aligned E a \<Longrightarrow> check_bit (ms_bitmap s) a \<Longrightarrow> reachable E (root_targets (me_heap E) rs) a"
    "v \<in> set (ms_visitors s) \<Longrightarrow> sv_pc v = Terminated \<Longrightarrow> heap_aligned E a \<Longrightarrow>
      check_bit (ms_bitmap s) a \<longleftrightarrow> reachable E (root_targets (me_heap E) rs) a"
    "hb_offset (ms_bitmap s) = hp_mem_start (me_heap E)" "sched_inv s"
proof -
  let ?R = "root_targets (me_heap E) rs"
  have g: "graph_ok E ?R Ob" and st: "0 < me_stride E" and k: "0 < k" using r by (auto simp: mark_ready_def)
  obtain s1 where s1: "process_roots E par k rs c = Inr s1" "roots_inv E ?R {} s1" "length (ms_visitors s1) = k"
    by (rule process_roots_ok [OF r])
  have s0: "roots_inv E ?R {} s0" "length (ms_visitors s0) = k" using s1 p by simp_all
  then have as: "at_start s0" "0 < length (ms_visitors s0)" using k by (simp_all add: roots_inv_def)
  note ss = at_start_sched [OF as]
  have "colour_state E ?R Ob s0" using s0 ss(3) by (simp add: colour_state_def roots_inv_def)
  from marking_inv [OF g st run this ss(2,1)] have i: "colour_state E ?R Ob s" "no_panic s" "sched_inv s" by blast+
  show "no_panic s" "sched_inv s" by (fact i)+
  show "hb_offset (ms_bitmap s) = hp_mem_start (me_heap E)" using i(1) by (simp add: colour_state_def)
  show "heap_aligned E a \<Longrightarrow> check_bit (ms_bitmap s) a \<Longrightarrow> reachable E ?R a"
    using i(1) colour_invD(1) by (fastforce simp: colour_state_def marked_set_def)
  show "check_bit (ms_bitmap s) a \<longleftrightarrow> reachable E ?R a" if "v \<in> set (ms_visitors s)" "sv_pc v = Terminated" "heap_aligned E a"
    using terminated_done [OF i(1,3) that(1,2), of a] that(3) by (simp add: marked_set_def)
qed

section \<open>Sweeping after marking\<close>

text \<open>What a collection is to keep: in a regular region the reachable cells; a humongous object if it is reachable.\<close>

definition kept_cells :: "MarkEnv \<Rightarrow> addr set \<Rightarrow> block list \<Rightarrow> block list" where
  "kept_cells E R cs = filter (\<lambda>c. reachable E R (fst c)) cs"

definition dead_humongous :: "MarkEnv \<Rightarrow> addr set \<Rightarrow> nat \<Rightarrow> bool" where
  "dead_humongous E R i \<longleftrightarrow> (let h = me_heap E in \<exists>s < region_count (hp_opts h). s \<le> i \<and> i < s + hum_regions (me_vtab E) h s \<and>
     hr_typ (hp_regions h ! s) = HumongousStart \<and> \<not> reachable E R (hr_begin (hp_regions h ! s)))"

definition collected_type :: "MarkEnv \<Rightarrow> addr set \<Rightarrow> block list \<Rightarrow> nat \<Rightarrow> RegionState" where
  "collected_type E R cs i = (let t = hr_typ (hp_regions (me_heap E) ! i) in
     if t = Regular then if kept_cells E R cs = [] then Trash else Regular
     else if dead_humongous E R i then Trash else t)"

lemma region_begin_aligned:
  assumes "heap_inv n h Bs" "hp_mem_size h = region_count (hp_opts h) * 2 ^ n" "i < region_count (hp_opts h)"
  shows "hr_begin (hp_regions h ! i) = hp_mem_start h + i * 2 ^ n" "hp_is_in h (hr_begin (hp_regions h ! i))"
    "16 dvd hr_begin (hp_regions h ! i) - hp_mem_start h" "hr_end (hp_regions h ! i) \<le> hp_mem_start h + hp_mem_size h"
proof -
  show b: "hr_begin (hp_regions h ! i) = hp_mem_start h + i * 2 ^ n" using heap_invD(2) [OF assms(1,3)] by (simp add: placed_def)
  have ri: "region_inv n (hp_regions h ! i) (hp_memory h) (Bs i)" by (rule heap_invD(1) [OF assms(1,3)])
  have le: "(i + 1) * 2 ^ n \<le> region_count (hp_opts h) * 2 ^ n" using assms(3) by (intro mult_le_mono1) simp
  then have "i * 2 ^ n < region_count (hp_opts h) * 2 ^ n" using assms(3) by simp
  then show "hp_is_in h (hr_begin (hp_regions h ! i))" using b assms(2) by (simp add: hp_is_in_def)
  have n: "4 \<le> n" using region_invD [OF ri] by simp
  then have "(16 :: nat) dvd 2 ^ n" using le_imp_power_dvd [of 4 n "2 :: nat"] by simp
  then show "16 dvd hr_begin (hp_regions h ! i) - hp_mem_start h" using b by simp
  have "hr_end (hp_regions h ! i) = hr_begin (hp_regions h ! i) + 2 ^ n" using region_invD [OF ri] by simp
  then show "hr_end (hp_regions h ! i) \<le> hp_mem_start h + hp_mem_size h" using b le assms(2) by simp
qed

lemma tiled_aligned: "tiled vtab m lo hi cs \<Longrightarrow> c \<in> set cs \<Longrightarrow> lo \<le> fst c \<and> 16 dvd fst c - lo"
proof (induction cs arbitrary: lo)
  case (Cons d cs)
  obtain a s where d: "d = (a, s)" by (cases d)
  then have t: "a = lo" "16 dvd s" "tiled vtab m (a + s) hi cs" using Cons.prems(1) by auto
  show ?case
  proof (cases "c = d")
    case False
    then have "lo + s \<le> fst c \<and> 16 dvd fst c - (lo + s)" using Cons.IH [OF t(3)] Cons.prems(2) t(1) by simp
    then have "fst c - lo = s + (fst c - (lo + s))" "lo \<le> fst c" by simp_all
    then show ?thesis using t(2) \<open>lo + s \<le> fst c \<and> 16 dvd fst c - (lo + s)\<close> by (metis dvd_add)
  qed (simp add: d t(1))
qed simp

lemma sweep_ready_marks:
  assumes "sweep_ready vtab marks n h i cs" "hb_offset marks' = hb_offset marks"
  shows "sweep_ready vtab marks' n h i cs"
  using assms unfolding sweep_ready_def marks_cover_def Let_def by auto

text \<open>The marks of a terminated marking phase, read as reachability.\<close>

definition marks_exact :: "MarkEnv \<Rightarrow> addr set \<Rightarrow> HeapBitmap \<Rightarrow> bool" where
  "marks_exact E R b \<longleftrightarrow> hb_offset b = hp_mem_start (me_heap E) \<and> (\<forall>a. heap_aligned E a \<longrightarrow> check_bit b a = reachable E R a)"

lemma exact_kept:
  assumes mx: "marks_exact E R b" and g: "graph_ok E R Ob" and hi: "heap_inv n (me_heap E) Bs"
    and ms: "hp_mem_size (me_heap E) = region_count (hp_opts (me_heap E)) * 2 ^ n" and i: "i < region_count (hp_opts (me_heap E))"
    and sr: "sweep_ready (me_vtab E) b n (me_heap E) i (cs i)" and ty: "hr_typ (hp_regions (me_heap E) ! i) = Regular"
  shows "live_cells b (me_heap E) cs i = kept_cells E R (cs i)"
proof -
  let ?h = "me_heap E"
  note ra = region_begin_aligned [OF hi ms i]
  have t: "tiled (me_vtab E) (hp_memory ?h) (hr_begin (hp_regions ?h ! i)) (hr_end (hp_regions ?h ! i)) (cs i)"
    using sr ty by (simp add: sweep_ready_def Let_def)
  have "live_cell (hp_memory ?h) b c \<longleftrightarrow> reachable E R (fst c)" if c: "c \<in> set (cs i)" for c
  proof -
    have a: "hr_begin (hp_regions ?h ! i) \<le> fst c" "16 dvd fst c - hr_begin (hp_regions ?h ! i)" using tiled_aligned [OF t c] by auto
    have "fst c < hr_end (hp_regions ?h ! i)" using tiled_cells [OF t, of "fst c" "snd c"] c by auto
    then have "hp_is_in ?h (fst c)" using a(1) ra(1,4) by (simp add: hp_is_in_def)
    moreover have "fst c - hp_mem_start ?h = (hr_begin (hp_regions ?h ! i) - hp_mem_start ?h) + (fst c - hr_begin (hp_regions ?h ! i))"
      using a(1) ra(1) by simp
    ultimately have "heap_aligned E (fst c)" using a(2) ra(3) by (metis dvd_add heap_aligned_def)
    then have "check_bit b (fst c) \<longleftrightarrow> reachable E R (fst c)" using mx by (simp add: marks_exact_def)
    moreover have "\<not> hdr_is_free (hp_memory ?h (fst c))" if "reachable E R (fst c)"
      using reachable_in [OF g that] g by (auto simp: graph_ok_def obj_ok_def)
    ultimately show ?thesis by (auto simp: live_cell_def)
  qed
  then show ?thesis by (simp add: live_cells_def kept_cells_def cong: filter_cong)
qed

lemma exact_type:
  assumes mx: "marks_exact E R b" and g: "graph_ok E R Ob" and hi: "heap_inv n (me_heap E) Bs"
    and ms: "hp_mem_size (me_heap E) = region_count (hp_opts (me_heap E)) * 2 ^ n" and i: "i < region_count (hp_opts (me_heap E))"
    and sr: "sweep_ready (me_vtab E) b n (me_heap E) i (cs i)"
  shows "swept_type (me_vtab E) b (me_heap E) cs {..<region_count (hp_opts (me_heap E))} i = collected_type E R (cs i) i"
proof -
  let ?h = "me_heap E"
  have "check_bit b (hr_begin (hp_regions ?h ! s)) \<longleftrightarrow> reachable E R (hr_begin (hp_regions ?h ! s))" if "s < region_count (hp_opts ?h)" for s
    using mx region_begin_aligned [OF hi ms that] by (simp add: marks_exact_def heap_aligned_def)
  then have "trashed (me_vtab E) b ?h {..<region_count (hp_opts ?h)} i = dead_humongous E R i"
    by (auto simp: trashed_def dead_humongous_def Let_def)
  then show ?thesis using exact_kept [where cs = cs, OF mx g hi ms i sr] i by (simp add: swept_type_def collected_type_def Let_def)
qed

text \<open>The heap a stop-the-world collection starts with.\<close>

definition collect_ready ::
  "MarkEnv \<Rightarrow> nat \<Rightarrow> (nat \<Rightarrow> block multiset) \<Rightarrow> nat \<Rightarrow> (nat \<times> root_ptr) list \<Rightarrow> addr set \<Rightarrow> MarkingContext \<Rightarrow> (nat \<Rightarrow> block list) \<Rightarrow> bool" where
  "collect_ready E n Bs k rs Ob c cs \<longleftrightarrow> mark_ready E n Bs k rs Ob c \<and> rebuildable (me_heap E) \<and>
     (\<forall>r \<in> set (hp_regions (me_heap E)). \<not> hr_to_sweep r) \<and>
     (\<forall>i < region_count (hp_opts (me_heap E)). sweep_ready (me_vtab E) (mc_bitmap (clear_bitmap_full c)) n (me_heap E) i (cs i))"

lemma marked_exact:
  assumes r: "mark_ready E n Bs k rs Ob c" and p: "process_roots E par k rs c = Inr s0" and run: "(mark_step E)\<^sup>*\<^sup>* s0 s"
    and v: "\<exists>v \<in> set (ms_visitors s). sv_pc v = Terminated"
  shows "marks_exact E (root_targets (me_heap E) rs) (ms_bitmap s)"
  using stw_mark_spec(3,4) [OF r p run] v unfolding marks_exact_def by blast

text \<open>The object that starts in region 0 is humongous and unreachable.\<close>

definition dead_at_zero :: "MarkEnv \<Rightarrow> addr set \<Rightarrow> bool" where
  "dead_at_zero E R \<longleftrightarrow> 0 < region_count (hp_opts (me_heap E)) \<and> hr_typ (hp_regions (me_heap E) ! 0) = HumongousStart \<and>
     \<not> reachable E R (hr_begin (hp_regions (me_heap E) ! 0))"

text \<open>What the sweep phase leaves of the heap of \<open>E\<close>, given the roots \<open>R\<close> and the cells \<open>cs\<close> of its regular regions.\<close>

definition collection_outcome ::
  "MarkEnv \<Rightarrow> nat \<Rightarrow> addr set \<Rightarrow> (nat \<Rightarrow> block list) \<Rightarrow> bool \<Rightarrow> nat \<Rightarrow> (SweepClosure \<times> Heap) res option \<Rightarrow> bool" where
  "collection_outcome E n R cs parallel workers result \<longleftrightarrow> (let h = me_heap E in
     if sweep_hangs parallel workers (hp_opts h) then result = None
     else if dead_at_zero E R then result = Some (Inl ArithOverflow)
     else \<exists>sc h' Bs'. result = Some (Inr (sc, h')) \<and> heap_inv n h' Bs' \<and> fs_inv h' \<and> fs_available (hp_free_set h') = Inr (free_sum h') \<and>
       (\<forall>i < region_count (hp_opts h).
         hr_typ (hp_regions h' ! i) = collected_type E R (cs i) i \<and>
         (if hr_typ (hp_regions h ! i) = Regular
          then Bs' i = mset (all_gaps (hp_regions h ! i) (kept_cells E R (cs i))) \<and>
            (\<forall>c \<in> set (kept_cells E R (cs i)). \<forall>x \<in> block_bytes c. hp_memory h' x = hp_memory h x)
          else \<forall>x \<in> region_range (hp_regions h ! i). hp_memory h' x = hp_memory h x)))"

lemma swept_exact:
  assumes r: "collect_ready E n Bs k rs Ob c cs" and mx: "marks_exact E (root_targets (me_heap E) rs) b"
    and o: "\<And>xs. mset (sched xs) = mset xs"
  shows "collection_outcome E n (root_targets (me_heap E) rs) cs parallel workers
    (full_gc_sweep (me_vtab E) b parallel workers sched (me_heap E))"
proof -
  let ?h = "me_heap E" and ?R = "root_targets (me_heap E) rs" and ?N = "region_count (hp_opts (me_heap E))"
  have mr: "mark_ready E n Bs k rs Ob c" and rb: "rebuildable ?h" "\<forall>r \<in> set (hp_regions ?h). \<not> hr_to_sweep r"
    and sr: "\<forall>i < ?N. sweep_ready (me_vtab E) (mc_bitmap (clear_bitmap_full c)) n ?h i (cs i)"
    using r unfolding collect_ready_def by blast+
  have hi: "heap_inv n ?h Bs" and ms: "hp_mem_size ?h = ?N * 2 ^ n" and g: "graph_ok E ?R Ob" and fc: "fresh_context E (clear_bitmap_full c)"
    using mr clear_fresh unfolding mark_ready_def by blast+
  have sr': "\<forall>i < ?N. sweep_ready (me_vtab E) b n ?h i (cs i)"
  proof (intro allI impI)
    fix i assume i: "i < ?N"
    have "hb_offset b = hb_offset (mc_bitmap (clear_bitmap_full c))" using mx fc by (simp add: marks_exact_def fresh_context_def)
    then show "sweep_ready (me_vtab E) b n ?h i (cs i)" using sweep_ready_marks [OF sr [rule_format, OF i]] by blast
  qed
  have z: "0 < ?N \<and> dead_start b ?h 0 \<longleftrightarrow> dead_at_zero E ?R"
  proof (cases "0 < ?N")
    case True
    have "heap_aligned E (hr_begin (hp_regions ?h ! 0))" using region_begin_aligned [OF hi ms True] by (simp add: heap_aligned_def)
    then have "check_bit b (hr_begin (hp_regions ?h ! 0)) = reachable E ?R (hr_begin (hp_regions ?h ! 0))" using mx by (simp add: marks_exact_def)
    then show ?thesis by (simp add: dead_start_def dead_at_zero_def)
  qed (simp add: dead_at_zero_def)
  note sw = sweep_phase_spec [OF hi rb sr' o, of parallel workers, unfolded z]
  show ?thesis
  proof (cases "sweep_hangs parallel workers (hp_opts ?h) \<or> dead_at_zero E ?R")
    case True
    then show ?thesis using sw unfolding collection_outcome_def Let_def by (cases "sweep_hangs parallel workers (hp_opts ?h)") simp_all
  next
    case False
    then have nh: "\<not> sweep_hangs parallel workers (hp_opts ?h)" "\<not> dead_at_zero E ?R" by blast+
    from sw [unfolded if_not_P [OF nh(1)] if_not_P [OF nh(2)]] obtain sc h' Bs' where
      s: "full_gc_sweep (me_vtab E) b parallel workers sched ?h = Some (Inr (sc, h'))"
      "heap_inv n h' Bs'" "fs_inv h'" "fs_available (hp_free_set h') = Inr (free_sum h')"
      and at: "\<forall>i < ?N. \<not> hr_to_sweep (hp_regions h' ! i) \<and> hr_typ (hp_regions h' ! i) = swept_type (me_vtab E) b ?h cs {..<?N} i \<and>
        (if hr_typ (hp_regions ?h ! i) = Regular
         then Bs' i = mset (all_gaps (hp_regions ?h ! i) (live_cells b ?h cs i)) \<and>
           hr_used (hp_regions h' ! i) = sum_list (map snd (live_cells b ?h cs i)) \<and>
           (\<forall>c \<in> set (live_cells b ?h cs i). \<forall>x \<in> block_bytes c. hp_memory h' x = hp_memory ?h x)
         else \<forall>x \<in> region_range (hp_regions ?h ! i). hp_memory h' x = hp_memory ?h x)" by blast
    have "hr_typ (hp_regions h' ! i) = collected_type E ?R (cs i) i \<and>
        (if hr_typ (hp_regions ?h ! i) = Regular
         then Bs' i = mset (all_gaps (hp_regions ?h ! i) (kept_cells E ?R (cs i))) \<and>
           (\<forall>c \<in> set (kept_cells E ?R (cs i)). \<forall>x \<in> block_bytes c. hp_memory h' x = hp_memory ?h x)
         else \<forall>x \<in> region_range (hp_regions ?h ! i). hp_memory h' x = hp_memory ?h x)" if i: "i < ?N" for i
      using at [rule_format, OF i] exact_kept [where cs = cs, OF mx g hi ms i sr' [rule_format, OF i]] exact_type [where cs = cs, OF mx g hi ms i sr' [rule_format, OF i]]
      by (auto split: if_splits)
    then show ?thesis unfolding collection_outcome_def Let_def if_not_P [OF nh(1)] if_not_P [OF nh(2)] using s by blast
  qed
qed

section \<open>Properties\<close>

text \<open>C1. Stop-the-world marking is correct under every interleaving of the workers. The roots are processed without a
  panic, by one thread or by all visitors; in every state the workers can reach none of them has panicked and
  every marked address is an object reachable from the roots; and as soon as one worker has seen the
  terminator reach zero, the marked addresses of the heap are exactly the reachable objects.\<close>

theorem stw_marking_correct:
  assumes "mark_ready E n Bs k rs Ob c"
  shows "\<exists>s0. process_roots E par k rs c = Inr s0 \<and> (\<forall>s. (mark_step E)\<^sup>*\<^sup>* s0 s \<longrightarrow> no_panic s \<and>
    (\<forall>a. heap_aligned E a \<and> check_bit (ms_bitmap s) a \<longrightarrow> reachable E (root_targets (me_heap E) rs) a) \<and>
    ((\<exists>v \<in> set (ms_visitors s). sv_pc v = Terminated) \<longrightarrow>
      (\<forall>a. heap_aligned E a \<longrightarrow> (check_bit (ms_bitmap s) a \<longleftrightarrow> reachable E (root_targets (me_heap E) rs) a))))"
proof -
  obtain s0 where s0: "process_roots E par k rs c = Inr s0" by (rule process_roots_ok [OF assms])
  note m = stw_mark_spec [OF assms s0]
  show ?thesis using s0 m(1-3) by (intro exI [of _ s0] conjI allI impI) blast+
qed

text \<open>C2. A stop-the-world collection frees exactly the unreachable objects, once its workers have terminated marking. It retires the buffers of
  all threads without a panic and keeps the heap consistent. If the heap it then has can be parsed, the roots are processed without a
  panic, and after every run of the workers in which one of them has seen marking terminate the sweep phase does the following, in whatever order
  the workers sweep. It never ends when the regions are to be distributed with a stride of 0. Otherwise it panics exactly when
  the object that starts in region 0 is humongous and unreachable. Otherwise it ends: the reachable cells of every
  regular region keep their contents and everything between them is on the free list, a region without a
  reachable cell and the regions of an unreachable humongous object become trash, all other regions keep their
  state and contents, and heap and free set are consistent.\<close>

theorem stw_collection_correct:
  assumes "heap_inv n h0 Bs0" "tlabs_inv h0 Bs0 ts" "\<And>xs. mset (sched xs) = mset xs"
  shows "\<exists>h. retire_tlabs ts h0 = Inr (replicate (length ts) Tlab_new, h) \<and> (\<exists>Bs. heap_inv n h Bs) \<and>
    (\<forall>E Bs k rs Ob c cs par. me_heap E = h \<and> collect_ready E n Bs k rs Ob c cs \<longrightarrow>
      (\<exists>s0. process_roots E par k rs c = Inr s0 \<and>
        (\<forall>s. (mark_step E)\<^sup>*\<^sup>* s0 s \<and> (\<exists>v \<in> set (ms_visitors s). sv_pc v = Terminated) \<longrightarrow>
          collection_outcome E n (root_targets h rs) cs parallel workers
            (full_gc_sweep (me_vtab E) (ms_bitmap s) parallel workers sched h))))"
proof -
  obtain h Bs0 where h: "retire_tlabs ts h0 = Inr (replicate (length ts) Tlab_new, h)" "heap_inv n h Bs0"
    using retire_tlabs_spec [OF assms(1,2)] by blast
  have "\<exists>s0. process_roots E par k rs c = Inr s0 \<and>
      (\<forall>s. (mark_step E)\<^sup>*\<^sup>* s0 s \<and> (\<exists>v \<in> set (ms_visitors s). sv_pc v = Terminated) \<longrightarrow>
        collection_outcome E n (root_targets h rs) cs parallel workers (full_gc_sweep (me_vtab E) (ms_bitmap s) parallel workers sched h))"
    if e: "me_heap E = h" and r: "collect_ready E n Bs k rs Ob c cs" for E Bs k rs Ob c cs par
  proof -
    have mr: "mark_ready E n Bs k rs Ob c" using r by (simp add: collect_ready_def)
    obtain s0 where s0: "process_roots E par k rs c = Inr s0" by (rule process_roots_ok [OF mr])
    show ?thesis
      using s0 swept_exact [OF r marked_exact [OF mr s0] assms(3)] unfolding e [symmetric] by blast
  qed
  then show ?thesis using h by blast
qed

text \<open>An example: the heap of the sweep example, whose object at 4096 points to itself and is a root.\<close>

definition ex_env :: MarkEnv where
  "ex_env = \<lparr>me_heap = ex_heap, me_vtab = ex_vtab, me_trace = (\<lambda>a. if a = 4096 then [4104] else []), me_elem = (\<lambda>_ _. []),
     me_stride = 1000, me_cancellable = False\<rparr>"

definition ex_context :: MarkingContext where
  "ex_context = \<lparr>mc_bitmap = \<lparr>hb_offset = 4096, hb_limit = 20480, hb_cells = (\<lambda>_. 255), hb_size = 128, hb_base = 64\<rparr>,
     mc_injector = [], mc_visit_count = 0\<rparr>"

abbreviation ex_roots :: "(nat \<times> root_ptr) list" where "ex_roots \<equiv> [(0, Precise 4104), (0, StackWord 100)]"

lemma ex_env_simps [simp]:
  "me_heap ex_env = ex_heap" "me_vtab ex_env = ex_vtab" "me_stride ex_env = 1000" "me_trace ex_env 4096 = [4104]"
  by (simp_all add: ex_env_def)

lemma ex_target [simp]: "root_target ex_heap (Precise 4104) = Some 4104" "root_target ex_heap (StackWord 100) = None"
  by (simp_all add: root_target_def object_start_def hp_is_in_def ex_heap_fields)

lemma ex_targets: "root_targets ex_heap ex_roots = {4104}"
  by simp

lemma ex_header: "\<not> hdr_is_free (ex_heap_mem 4096)" "\<not> hdr_no_heap_ptrs (ex_heap_mem 4096)"
proof -
  have m: "ex_heap_mem 4096 = ex_mem 4096" by (simp add: ex_heap_mem_def)
  show "\<not> hdr_is_free (ex_heap_mem 4096)" using ex_headers m by simp
  have "bf_decode 1 NO_GC_PTRS False (SizeTag_update (hdr_set_vtable 8 0) 48) = 0"
    unfolding SizeTag_update_def hdr_set_vtable_def
    by (subst bf_decode_update_other, simp add: tag_consts)+ (simp add: bf_decode_def)
  then show "\<not> hdr_no_heap_ptrs (ex_heap_mem 4096)"
    unfolding m by (simp add: hdr_no_heap_ptrs_def ex_mem_def hdr_set_heap_size_def)
qed

lemma ex_heap_size: "hp_mem_size ex_heap = 4 * 4096"
  by (simp add: ex_heap_def small_heap_def)

lemma ex_read: "read_u32 ex_heap_mem (data 4096) = 0"
  by (simp add: read_u32_def data_def ex_heap_mem_def ex_mem_def)

lemma ex_env_obj: "obj_ok ex_env 4096" "children ex_env 4096 = {4104}"
  using ex_header by (simp_all add: ex_read obj_ok_def hp_is_in_def ex_heap_fields ex_heap_size obj_length_def array_length_def children_def iterates_def vtable_of_def)

lemma ex_graph: "graph_ok ex_env {4104} {4096}"
  using ex_env_obj by (simp add: graph_ok_def)

lemma ex_collect_ready: "collect_ready ex_env 12 (\<lambda>_. {#}) 1 ex_roots {4096} ex_context ex_cells"
proof -
  let ?m = "mc_bitmap (clear_bitmap_full ex_context)"
  have off: "hb_offset ?m = hb_offset ex_marks" by (simp add: clear_bitmap_full_def ex_context_def hb_clear_def hb_memset_def ex_marks_def)
  have n1: "hr_typ (hp_regions ex_heap ! i) = HumongousCont \<Longrightarrow> i = 2" if "i < 4" for i
    using that by (simp add: ex_heap_fields ex_types_def split: if_splits)
  have "in_run ex_heap 1 2"
    using ex_heap_regions by (simp add: in_run_def hr_is_humongous_start_def hr_is_humongous_cont_def) (metis Suc_leI le_antisym numeral_2_eq_2)
  then have "runs_ok ex_heap" using n1 unfolding runs_ok_def ex_heap_fields(1) hr_is_humongous_cont_def
    by (simp del: One_nat_def) (metis one_less_numeral_iff semiring_norm(76))
  then have mr: "mark_ready ex_env 12 (\<lambda>_. {#}) 1 ex_roots {4096} ex_context"
    using ex_heap_ok(1) ex_graph by (simp add: mark_ready_def ex_heap_size context_ok_def ex_context_def ex_heap_fields)
  have "sweep_ready ex_vtab ?m 12 ex_heap i (ex_cells i)" if i: "i < 4" for i
    by (rule sweep_ready_marks [OF _ off]) (use ex_heap_ok(4) i in \<open>simp add: ex_heap_fields\<close>)
  then show ?thesis using mr ex_heap_ok(2,3) by (simp add: collect_ready_def ex_heap_fields)
qed

text \<open>The run of a single worker on the example.\<close>

definition ex_marked :: HeapBitmap where
  "ex_marked = set_bit (mc_bitmap (clear_bitmap_full ex_context)) 4096"

definition ex_state :: "u64 list \<Rightarrow> nat \<Rightarrow> mark_pc \<Rightarrow> MarkState" where
  "ex_state local work pc = \<lparr>ms_bitmap = ex_marked, ms_injector = [],
     ms_visitors = [\<lparr>sv_local = local, sv_worker = [], sv_marked = 1, sv_visit_count = 1, sv_work = work, sv_pc = pc\<rparr>],
     ms_nworkers = 1, ms_cancelled = False\<rparr>"

lemma ex_bits: "check_bit ex_marked 4096" "\<not> check_bit (mc_bitmap (clear_bitmap_full ex_context)) 4096"
proof -
  have "fresh_context ex_env (clear_bitmap_full ex_context)" using ex_collect_ready clear_fresh by (simp add: collect_ready_def mark_ready_def)
  moreover have al: "heap_aligned ex_env 4096" using graph_ok_aligned [OF ex_graph] by simp
  ultimately show "\<not> check_bit (mc_bitmap (clear_bitmap_full ex_context)) 4096" "check_bit ex_marked 4096"
    using marked_set_bit [OF ex_graph, of "mc_bitmap (clear_bitmap_full ex_context)" 4096]
    by (auto simp: fresh_context_def marked_set_def ex_marked_def)
qed

abbreviation ex_task :: u64 where "ex_task \<equiv> MarkTask_new 4096 False False"

lemma ex_task_oop: "unat (decode_oop ex_task) = 4096" "decode_not_chunked ex_task"
  using MarkTask_new2_decode [of 4096 0 0 False False] by (simp_all add: MarkTask_new_eq decode_not_chunked_iff)

lemma ex_process_roots: "process_roots ex_env True 1 ex_roots ex_context = Inr (ex_state [ex_task] 0 LoopTop)"
proof -
  let ?s = "mark_start 1 (clear_bitmap_full ex_context)"
  have in_heap: "hp_is_in ex_heap 4096" by (simp add: hp_is_in_def ex_heap_fields ex_heap_size)
  have "slot_visit ex_env 0 4104 ?s = Inr (ex_state [ex_task] 0 LoopTop)"
    using ex_bits(2) in_heap ex_task_oop(1)
    by (simp add: slot_visit_def mc_mark_def Let_def sv_push_def mark_start_def SlotVisitor_new_def SEGMENT_SIZE_def defensive_push_def
        put_visitor_def ex_state_def ex_marked_def clear_bitmap_full_def ex_context_def)
  moreover have "try_conservative ex_env 0 100 s = Inr s" for s by (simp add: try_conservative_def hp_is_in_def ex_heap_fields)
  ultimately show ?thesis by (simp add: process_roots_def Let_def)
qed

lemma ex_do_task: "do_task ex_env ex_task = Inr [Visit 4104]"
  using ex_task_oop ex_header by (simp add: do_task_def Let_def vtable_of_def visit_object_def ex_heap_fields)

lemma ex_solo:
  "solo_step ex_env 0 (ex_state l w LoopTop) = ex_state l 0 PopOwn"
  "solo_step ex_env 0 (ex_state [ex_task] 0 PopOwn) = ex_state [] 0 (Running [Visit 4104])"
  "w < 1000 \<Longrightarrow> solo_step ex_env 0 (ex_state [] w PopOwn) = ex_state [] w PopGlobal"
  "solo_step ex_env 0 (ex_state [] w PopGlobal) = ex_state [] w StealOthers"
  "solo_step ex_env 0 (ex_state [] 0 StealOthers) = ex_state [] 0 TryTerminate"
  "solo_step ex_env 0 (ex_state [] w (Running [Visit 4104])) = ex_state [] w (Running [])"
  "solo_step ex_env 0 (ex_state [] w (Running [])) = ex_state [] (w + 1) PopOwn"
  "solo_step ex_env 0 (ex_state [] w TryTerminate) = ex_state [] w Terminated"
  "solo_step ex_env 0 (ex_state [] (Suc w) StealOthers) = ex_state [] (Suc w) LoopTop"
  using ex_do_task ex_bits(1)
  by (simp_all add: solo_step_def ex_state_def put_visitor_def pop_own_def run_task_def visit_item_def mc_mark_def Let_def)

lemma solo_chain:
  assumes "(mark_step E)\<^sup>*\<^sup>* (solo_step E i s) t" "i < length (ms_visitors s)" "\<not> finished (sv_pc (ms_visitors s ! i))"
  shows "(mark_step E)\<^sup>*\<^sup>* s t"
  using converse_rtranclp_into_rtranclp [OF solo_step_step [OF assms(2,3), of E] assms(1)] .

lemma ex_chain:
  assumes "\<not> finished pc" "(mark_step ex_env)\<^sup>*\<^sup>* (solo_step ex_env 0 (ex_state l w pc)) t"
  shows "(mark_step ex_env)\<^sup>*\<^sup>* (ex_state l w pc) t"
proof (rule solo_chain [OF assms(2)])
  have "ms_visitors (ex_state l w pc) ! 0 = \<lparr>sv_local = l, sv_worker = [], sv_marked = 1, sv_visit_count = 1, sv_work = w, sv_pc = pc\<rparr>"
    by (simp add: ex_state_def)
  then show "\<not> finished (sv_pc (ms_visitors (ex_state l w pc) ! 0))" using assms(1) by simp
qed (simp add: ex_state_def)

lemma ex_next:
  assumes "solo_step ex_env 0 (ex_state l w pc) = s" "\<not> finished pc" "(mark_step ex_env)\<^sup>*\<^sup>* s t"
  shows "(mark_step ex_env)\<^sup>*\<^sup>* (ex_state l w pc) t"
  using ex_chain [OF assms(2), of l w t] assms(1,3) by simp

lemma ex_run_idle: "(mark_step ex_env)\<^sup>*\<^sup>* (ex_state [] w LoopTop) (ex_state [] 0 Terminated)"
  by (rule ex_next [OF ex_solo(1)], simp add: finished_def, rule ex_next [OF ex_solo(3)], simp, simp add: finished_def,
      rule ex_next [OF ex_solo(4)], simp add: finished_def, rule ex_next [OF ex_solo(5)], simp add: finished_def,
      rule ex_next [OF ex_solo(8)], simp add: finished_def, rule rtranclp.rtrancl_refl)

lemma ex_run: "(mark_step ex_env)\<^sup>*\<^sup>* (ex_state [ex_task] 0 LoopTop) (ex_state [] 0 Terminated)"
  by (rule ex_next [OF ex_solo(1)], simp add: finished_def, rule ex_next [OF ex_solo(2)], simp add: finished_def,
      rule ex_next [OF ex_solo(6)], simp add: finished_def, rule ex_next [OF ex_solo(7)], simp add: finished_def,
      rule ex_next [OF ex_solo(3)], simp, simp add: finished_def, rule ex_next [OF ex_solo(4)], simp add: finished_def,
      simp only: Suc_eq_plus1 [symmetric], rule ex_next [OF ex_solo(9)], simp add: finished_def, rule ex_run_idle)

theorem stw_marking_correct_witness:
  "process_roots ex_env True 1 ex_roots ex_context = Inr (ex_state [ex_task] 0 LoopTop) \<and>
    (mark_step ex_env)\<^sup>*\<^sup>* (ex_state [ex_task] 0 LoopTop) (ex_state [] 0 Terminated) \<and>
    reachable ex_env {4104} 4096 \<and> \<not> reachable ex_env {4104} 8192"
proof -
  have mr: "mark_ready ex_env 12 (\<lambda>_. {#}) 1 ex_roots {4096} ex_context" using ex_collect_ready by (simp add: collect_ready_def)
  have m: "check_bit ex_marked a \<longleftrightarrow> reachable ex_env {4104} a" if "heap_aligned ex_env a" for a
  proof -
    from stw_marking_correct [OF mr, of True] have "\<forall>s. (mark_step ex_env)\<^sup>*\<^sup>* (ex_state [ex_task] 0 LoopTop) s \<longrightarrow>
      (\<exists>v \<in> set (ms_visitors s). sv_pc v = Terminated) \<longrightarrow>
      (\<forall>a. heap_aligned ex_env a \<longrightarrow> (check_bit (ms_bitmap s) a \<longleftrightarrow> reachable ex_env {4104} a))"
      unfolding ex_env_simps ex_targets ex_process_roots by auto
    from this [rule_format, OF ex_run _ that] show ?thesis by (simp add: ex_state_def)
  qed
  have "heap_aligned ex_env 4096" "heap_aligned ex_env 8192" by (simp_all add: heap_aligned_def hp_is_in_def ex_heap_fields ex_heap_size)
  moreover have "\<not> reachable ex_env {4104} 8192" using reachable_in [OF ex_graph, of 8192] by auto
  ultimately show ?thesis using m ex_bits(1) ex_process_roots ex_run by blast
qed

theorem stw_collection_correct_witness:
  "retire_tlabs [Tlab_new] ex_heap = Inr ([Tlab_new], ex_heap) \<and> process_roots ex_env True 1 ex_roots ex_context = Inr (ex_state [ex_task] 0 LoopTop) \<and>
   (\<exists>sc h' Bs'. full_gc_sweep ex_vtab ex_marked True 2 rev ex_heap = Some (Inr (sc, h')) \<and> heap_inv 12 h' Bs' \<and> fs_inv h' \<and>
    hr_typ (hp_regions h' ! 0) = Regular \<and> hr_typ (hp_regions h' ! 1) = Trash \<and>
    (\<forall>x \<in> block_bytes (4096, 48). hp_memory h' x = ex_heap_mem x))"
proof -
  have o: "\<And>xs. mset (rev xs) = mset (xs :: nat list)" by simp
  have tl: "tlabs_inv ex_heap (\<lambda>_. {#}) [Tlab_new]" by (simp add: tlab_inv_def)
  have ret: "retire_tlabs [Tlab_new] ex_heap = Inr ([Tlab_new], ex_heap)" by (simp add: tlab_retire_def Tlab_new_def)
  have nh: "\<not> sweep_hangs True 2 small_opts" by (simp add: sweep_hangs_def)
  have alive: "\<not> dead_at_zero ex_env {4104}" using ex_heap_regions(1) by (simp add: dead_at_zero_def ex_heap_fields ex_types_def)
  have r: "reachable ex_env {4104} 4096" using reachable.root [of 4104 "{4104}" ex_env] by simp
  have nr: "\<not> reachable ex_env {4104} a" if "a \<noteq> 4096" for a using reachable_in [OF ex_graph, of a] that by auto
  have k: "kept_cells ex_env {4104} [(4096, 48), (4144, 4048)] = [(4096, 48)]" using r nr by (simp add: kept_cells_def)
  have t: "collected_type ex_env {4104} (ex_cells 0) 0 = Regular" "collected_type ex_env {4104} (ex_cells 1) 1 = Trash"
    using k ex_heap_regions nr [of 8192] ex_heap_live(3)
    by (auto simp: collected_type_def Let_def dead_humongous_def ex_heap_fields(1) intro!: exI [of _ 1])
  have fin: "\<exists>v \<in> set (ms_visitors (ex_state [] 0 Terminated)). sv_pc v = Terminated" by (simp add: ex_state_def)
  have b: "ms_bitmap (ex_state [] 0 Terminated) = ex_marked" by (simp add: ex_state_def)
  from stw_collection_correct [OF ex_heap_ok(1) tl o, of True 2] obtain h where
    h: "retire_tlabs [Tlab_new] ex_heap = Inr (replicate (length [Tlab_new]) Tlab_new, h)"
    and all: "\<forall>E Bs k rs Ob c cs par. me_heap E = h \<and> collect_ready E 12 Bs k rs Ob c cs \<longrightarrow>
      (\<exists>s0. process_roots E par k rs c = Inr s0 \<and>
        (\<forall>s. (mark_step E)\<^sup>*\<^sup>* s0 s \<and> (\<exists>v \<in> set (ms_visitors s). sv_pc v = Terminated) \<longrightarrow>
          collection_outcome E 12 (root_targets h rs) cs True 2
            (full_gc_sweep (me_vtab E) (ms_bitmap s) True 2 rev h)))" by blast
  have "h = ex_heap" using h unfolding ret by simp
  have "\<exists>s0. process_roots ex_env True 1 ex_roots ex_context = Inr s0 \<and>
      (\<forall>s. (mark_step ex_env)\<^sup>*\<^sup>* s0 s \<and> (\<exists>v \<in> set (ms_visitors s). sv_pc v = Terminated) \<longrightarrow>
        collection_outcome ex_env 12 (root_targets ex_heap ex_roots) ex_cells True 2
          (full_gc_sweep (me_vtab ex_env) (ms_bitmap s) True 2 rev ex_heap))"
    using all [unfolded \<open>h = ex_heap\<close>] ex_collect_ready ex_env_simps(1) by blast
  then have "collection_outcome ex_env 12 {4104} ex_cells True 2 (full_gc_sweep ex_vtab ex_marked True 2 rev ex_heap)"
    using ex_process_roots ex_run fin b by auto
  then obtain sc h' Bs' where s: "full_gc_sweep ex_vtab ex_marked True 2 rev ex_heap = Some (Inr (sc, h'))" "heap_inv 12 h' Bs'" "fs_inv h'"
    and at: "\<forall>i < 4. hr_typ (hp_regions h' ! i) = collected_type ex_env {4104} (ex_cells i) i \<and>
      (if hr_typ (hp_regions ex_heap ! i) = Regular
       then Bs' i = mset (all_gaps (hp_regions ex_heap ! i) (kept_cells ex_env {4104} (ex_cells i))) \<and>
         (\<forall>c \<in> set (kept_cells ex_env {4104} (ex_cells i)). \<forall>x \<in> block_bytes c. hp_memory h' x = hp_memory ex_heap x)
       else \<forall>x \<in> region_range (hp_regions ex_heap ! i). hp_memory h' x = hp_memory ex_heap x)"
    unfolding collection_outcome_def Let_def ex_env_simps ex_heap_fields(1) if_not_P [OF nh] if_not_P [OF alive] by auto
  have "hr_typ (hp_regions h' ! 0) = Regular" "hr_typ (hp_regions h' ! 1) = Trash" "\<forall>x \<in> block_bytes (4096, 48). hp_memory h' x = ex_heap_mem x"
    using at [rule_format, of 0] at [rule_format, of 1] t k ex_heap_regions(1) by (simp_all add: ex_heap_fields(2))
  then show ?thesis using s ret ex_process_roots by blast
qed

end
