(* ===== verification/WeakRefs.thy ===== *)
theory WeakRefs
  imports Collection
begin

text \<open>
  Weak references (\<open>system/weak_reference.rs\<close>) and finalizers (\<open>system/finalizer.rs\<close>): two global lists linked through their entries.
  Threads push on them with a compare-and-exchange loop at any time; a collection walks them in a pause, between marking and
  sweeping. The fields of the entries are functions of their address; null is \<open>0\<close>. A weak reference is itself an object of the
  heap, an entry of the finalizer list is not.
\<close>

section \<open>Registration\<close>

text \<open>\<open>WeakReference::new\<close> and \<open>FinalizerQueue::add\<close> after the entry is made: load the head, store it in the entry, exchange. The weak
  exchange may fail without a reason; the value it saw is then the next one to try.\<close>

datatype push_pc = Loads addr | Stores addr addr | Exchanges addr addr | Pushed addr

record link_list =
  ll_head :: addr
  ll_next :: "addr \<Rightarrow> addr"
  ll_threads :: "push_pc list"

definition put_pc :: "link_list \<Rightarrow> nat \<Rightarrow> push_pc \<Rightarrow> link_list" where
  "put_pc s i p = s\<lparr>ll_threads := (ll_threads s)[i := p]\<rparr>"

inductive push_step :: "link_list \<Rightarrow> link_list \<Rightarrow> bool" where
  load: "i < length (ll_threads s) \<Longrightarrow> ll_threads s ! i = Loads a \<Longrightarrow> push_step s (put_pc s i (Stores a (ll_head s)))"
| store: "i < length (ll_threads s) \<Longrightarrow> ll_threads s ! i = Stores a old \<Longrightarrow>
    push_step s ((put_pc s i (Exchanges a old))\<lparr>ll_next := (ll_next s)(a := old)\<rparr>)"
| exchange: "i < length (ll_threads s) \<Longrightarrow> ll_threads s ! i = Exchanges a old \<Longrightarrow> ll_head s = old \<Longrightarrow>
    push_step s ((put_pc s i (Pushed a))\<lparr>ll_head := a\<rparr>)"
| fail: "i < length (ll_threads s) \<Longrightarrow> ll_threads s ! i = Exchanges a old \<Longrightarrow> push_step s (put_pc s i (Stores a (ll_head s)))"

section \<open>Weak references\<close>

record WeakReferences =
  wr_head :: addr
  wr_next :: "addr \<Rightarrow> addr"
  wr_ptr :: "addr \<Rightarrow> addr"

text \<open>\<open>is_marked\<close> with the debug assertions of the bitmap, and the closure the cycles pass to \<open>process\<close>.\<close>

definition mc_is_marked :: "Heap \<Rightarrow> HeapBitmap \<Rightarrow> addr \<Rightarrow> bool res" where
  "mc_is_marked h b a = (if 16 dvd a \<and> hp_is_in h a then Inr (check_bit b a) else Inl AssertFailed)"

definition update_reference :: "Heap \<Rightarrow> HeapBitmap \<Rightarrow> addr \<Rightarrow> addr res" where
  "update_reference h b p = rbind (mc_is_marked h b (wrapping_sub p 8)) (\<lambda>m. Inr (if m then p else 0))"

partial_function (option) weak_process_loop :: "(addr \<Rightarrow> addr res) \<Rightarrow> addr \<Rightarrow> addr \<Rightarrow> WeakReferences \<Rightarrow> WeakReferences res option" where
  "weak_process_loop upd tail wr s =
     (if wr = 0 then Some (Inr s)
      else let weak = wr; next = wr_next s weak in
        case upd wr of Inl e \<Rightarrow> Some (Inl e) | Inr wr \<Rightarrow>
          if wr = 0
          then weak_process_loop upd tail next (if tail \<noteq> 0 then s\<lparr>wr_next := (wr_next s)(tail := next)\<rparr> else s\<lparr>wr_head := next\<rparr>)
          else (case upd (wr_ptr s weak) of Inl e \<Rightarrow> Some (Inl e) | Inr target \<Rightarrow>
            let s = s\<lparr>wr_ptr := (wr_ptr s)(weak := target)\<rparr>;
                s = (if tail = 0 then s\<lparr>wr_head := wr\<rparr> else s\<lparr>wr_next := (wr_next s)(tail := wr)\<rparr>)
            in weak_process_loop upd weak next s))"

definition weak_process :: "Heap \<Rightarrow> HeapBitmap \<Rightarrow> WeakReferences \<Rightarrow> WeakReferences res option" where
  "weak_process h b s = weak_process_loop (update_reference h b) 0 (wr_head s) s"

definition upgrade :: "WeakReferences \<Rightarrow> addr \<Rightarrow> addr option" where
  "upgrade s w = (if wr_ptr s w = 0 then None else Some (wr_ptr s w))"

section \<open>Finalizers\<close>

record FinalizerQueue =
  fq_list :: addr
  fq_next :: "addr \<Rightarrow> addr"
  fq_object :: "addr \<Rightarrow> addr"

text \<open>\<open>run\<close> calls the finalizers of the dead objects in the order of the list; the calls are its output. A freed entry is not read
  again.\<close>

partial_function (option) finalizer_loop :: "(addr \<Rightarrow> bool res) \<Rightarrow> addr \<Rightarrow> addr \<Rightarrow> FinalizerQueue \<Rightarrow> addr list \<Rightarrow> (addr list \<times> FinalizerQueue) res option" where
  "finalizer_loop marked prev cur s calls =
     (if cur = 0 then Some (Inr (calls, s))
      else let next = fq_next s cur in
        case marked (fq_object s cur) of Inl e \<Rightarrow> Some (Inl e) | Inr m \<Rightarrow>
          if \<not> m
          then finalizer_loop marked prev next (if prev = 0 then s\<lparr>fq_list := next\<rparr> else s\<lparr>fq_next := (fq_next s)(prev := next)\<rparr>)
            (calls @ [fq_object s cur + 8])
          else finalizer_loop marked cur next s calls)"

definition finalizer_run :: "Heap \<Rightarrow> HeapBitmap \<Rightarrow> FinalizerQueue \<Rightarrow> (addr list \<times> FinalizerQueue) res option" where
  "finalizer_run h b s = finalizer_loop (mc_is_marked h b) 0 (fq_list s) s []"

text \<open>\<open>register_for_finalization\<close>: the header flag is set, and an entry is pushed.\<close>

definition register_for_finalization :: "addr \<Rightarrow> addr \<Rightarrow> mem \<times> FinalizerQueue \<Rightarrow> (mem \<times> FinalizerQueue) res" where
  "register_for_finalization object entry = (\<lambda>(m, s).
     let hdr = object - 8 in
     if hdr_finalization_ordering (m hdr) then Inl AssertFailed
     else Inr (m(hdr := hdr_set_finalization_ordering True (m hdr)),
       s\<lparr>fq_next := (fq_next s)(entry := fq_list s), fq_object := (fq_object s)(entry := hdr), fq_list := entry\<rparr>))"

section \<open>Chains\<close>

fun chained :: "(addr \<Rightarrow> addr) \<Rightarrow> addr \<Rightarrow> addr list \<Rightarrow> bool" where
  "chained nxt p [] \<longleftrightarrow> p = 0"
| "chained nxt p (w # ws) \<longleftrightarrow> p = w \<and> w \<noteq> 0 \<and> chained nxt (nxt w) ws"

lemma chained_upd [simp]: "a \<notin> set ws \<Longrightarrow> chained (nxt(a := x)) p ws = chained nxt p ws"
  by (induction ws arbitrary: p) auto

lemma chained_append_Cons: "chained nxt p (ks @ w # ws) \<Longrightarrow> chained nxt w (w # ws)"
  by (induction ks arbitrary: p) auto

text \<open>Taking the entry after \<open>ks\<close> out of the list.\<close>

lemma chained_unlink:
  assumes "chained nxt p (ks @ w # ws)" "distinct (ks @ w # ws)"
  shows "if ks = [] then chained nxt (nxt w) ws else chained (nxt(last ks := nxt w)) p (ks @ ws) \<and> p \<noteq> 0"
  using assms
proof (induction ks arbitrary: p)
  case (Cons k ks)
  show ?case
  proof (cases "ks = []")
    case True
    then show ?thesis using Cons.prems by auto
  next
    case False
    then have "chained (nxt(last ks := nxt w)) (nxt k) (ks @ ws)" using Cons.IH [of "nxt k"] Cons.prems by simp
    moreover have "last ks \<noteq> k" using False Cons.prems(2) by auto
    ultimately show ?thesis using False Cons.prems(1) by simp
  qed
qed simp

lemma chained_relink:
  assumes "chained nxt p (ks @ w # ws)" "ks \<noteq> []"
  shows "nxt(last ks := w) = nxt"
proof -
  obtain js k where "ks = js @ [k]" using assms(2) by (cases ks rule: rev_cases) auto
  then show ?thesis using assms(1) chained_append_Cons [of nxt p js k "w # ws"] by (auto simp: fun_eq_iff)
qed

text \<open>The pointer to the last entry that was kept: null only when there is none, and none of the entries ahead.\<close>

lemma chained_tail:
  assumes "chained nxt p (ks @ w # ws)" "distinct (ks @ w # ws)" "tail = (if ks = [] then 0 else last ks)"
  shows "tail = 0 \<longleftrightarrow> ks = []" "tail \<noteq> 0 \<Longrightarrow> tail \<notin> set ws"
proof -
  have "last ks \<noteq> 0" "last ks \<notin> set ws" if ne: "ks \<noteq> []"
  proof -
    obtain js k where k: "ks = js @ [k]" using ne by (cases ks rule: rev_cases) auto
    then show "last ks \<noteq> 0" "last ks \<notin> set ws" using assms(1,2) chained_append_Cons [of nxt p js k "w # ws"] by auto
  qed
  then show "tail = 0 \<longleftrightarrow> ks = []" "tail \<noteq> 0 \<Longrightarrow> tail \<notin> set ws" using assms(3) by (auto split: if_splits)
qed

text \<open>The entries pushed so far are the chain from the head; a thread at its exchange has its link stored.\<close>

fun pc_entry :: "push_pc \<Rightarrow> addr" where
  "pc_entry (Loads a) = a" | "pc_entry (Stores a _) = a" | "pc_entry (Exchanges a _) = a" | "pc_entry (Pushed a) = a"

fun pc_ok :: "addr list \<Rightarrow> (addr \<Rightarrow> addr) \<Rightarrow> push_pc \<Rightarrow> bool" where
  "pc_ok ws nxt (Loads a) \<longleftrightarrow> a \<notin> set ws \<and> a \<noteq> 0"
| "pc_ok ws nxt (Stores a old) \<longleftrightarrow> a \<notin> set ws \<and> a \<noteq> 0"
| "pc_ok ws nxt (Exchanges a old) \<longleftrightarrow> a \<notin> set ws \<and> a \<noteq> 0 \<and> nxt a = old"
| "pc_ok ws nxt (Pushed a) \<longleftrightarrow> a \<in> set ws"

definition push_inv :: "addr list \<Rightarrow> link_list \<Rightarrow> bool" where
  "push_inv ws s \<longleftrightarrow> chained (ll_next s) (ll_head s) ws \<and> distinct ws \<and> distinct (map pc_entry (ll_threads s)) \<and>
     (\<forall>i < length (ll_threads s). pc_ok ws (ll_next s) (ll_threads s ! i))"

lemma pc_ok_next: "nxt' (pc_entry p) = nxt (pc_entry p) \<Longrightarrow> pc_ok ws nxt' p = pc_ok ws nxt p"
  by (cases p) auto

lemma pc_ok_Cons: "pc_ok ws nxt p \<Longrightarrow> pc_entry p \<noteq> a \<Longrightarrow> pc_ok (a # ws) nxt p"
  by (cases p) auto

lemma weak_process_loop_ok:
  assumes "chained (wr_next s) (wr_head s) (ks @ ws)" "distinct (ks @ ws)" "chained (wr_next s) wr ws" "tail = (if ks = [] then 0 else last ks)"
    "\<And>w. w \<in> set ws \<Longrightarrow> upd w = Inr (if mk w then w else 0)" "\<And>w. w \<in> set ws \<Longrightarrow> mk w \<Longrightarrow> upd (wr_ptr s w) = Inr (target w)"
  shows "\<exists>s'. weak_process_loop upd tail wr s = Some (Inr s') \<and> chained (wr_next s') (wr_head s') (ks @ filter mk ws) \<and>
    wr_ptr s' = (\<lambda>a. if a \<in> set ws \<and> mk a then target a else wr_ptr s a)"
  using assms
proof (induction ws arbitrary: ks s wr tail)
  case Nil
  then show ?case by (subst weak_process_loop.simps) simp
next
  case (Cons w ws)
  let ?n = "wr_next s w"
  have w: "wr = w" "w \<noteq> 0" "chained (wr_next s) ?n ws" "upd w = Inr (if mk w then w else 0)" using Cons.prems by auto
  note tail = chained_tail [OF Cons.prems(1,2,4)]
  show ?case
  proof (cases "mk w")
    case False
    let ?s = "if tail \<noteq> 0 then s\<lparr>wr_next := (wr_next s)(tail := ?n)\<rparr> else s\<lparr>wr_head := ?n\<rparr>"
    have e: "weak_process_loop upd tail wr s = weak_process_loop upd tail ?n ?s"
      using w False by (subst weak_process_loop.simps) (simp add: Let_def)
    have ch: "chained (wr_next ?s) (wr_head ?s) (ks @ ws)"
      using chained_unlink [OF Cons.prems(1,2)] tail(1) Cons.prems(4) by (auto split: if_splits)
    have nx: "chained (wr_next ?s) ?n ws" using w(3) tail(2) by auto
    have ptr: "wr_ptr ?s = wr_ptr s" by simp
    show ?thesis unfolding e using Cons.IH [OF ch _ nx Cons.prems(4)] Cons.prems(2,5,6) False unfolding ptr by (auto simp: fun_eq_iff)
  next
    case True
    let ?s1 = "s\<lparr>wr_ptr := (wr_ptr s)(w := target w)\<rparr>"
    let ?s = "if tail = 0 then ?s1\<lparr>wr_head := w\<rparr> else ?s1\<lparr>wr_next := (wr_next s)(tail := w)\<rparr>"
    have e: "weak_process_loop upd tail wr s = weak_process_loop upd w ?n ?s"
      using w True Cons.prems(6) [of w] by (subst weak_process_loop.simps) (simp add: Let_def)
    have same: "wr_next ?s = wr_next s" "wr_head ?s = wr_head s" "wr_ptr ?s = (wr_ptr s)(w := target w)"
      using chained_relink [OF Cons.prems(1)] tail(1) Cons.prems(1,4) by auto
    have u: "upd (wr_ptr ?s x) = Inr (target x)" if "x \<in> set ws" "mk x" for x using Cons.prems(2,6) that unfolding same by auto
    have "\<exists>s'. weak_process_loop upd w ?n ?s = Some (Inr s') \<and> chained (wr_next s') (wr_head s') ((ks @ [w]) @ filter mk ws) \<and>
      wr_ptr s' = (\<lambda>a. if a \<in> set ws \<and> mk a then target a else wr_ptr ?s a)"
      by (rule Cons.IH) (use Cons.prems(1,2,5) w(3) u in \<open>simp_all add: same\<close>)
    then show ?thesis unfolding e same using True by (auto simp: fun_eq_iff)
  qed
qed

lemma finalizer_loop_ok:
  assumes "chained (fq_next s) (fq_list s) (ks @ ws)" "distinct (ks @ ws)" "chained (fq_next s) cur ws" "prev = (if ks = [] then 0 else last ks)"
    "\<And>w. w \<in> set ws \<Longrightarrow> marked (fq_object s w) = Inr (mk w)"
  shows "\<exists>s'. finalizer_loop marked prev cur s calls = Some (Inr (calls @ map (\<lambda>w. fq_object s w + 8) (filter (\<lambda>w. \<not> mk w) ws), s')) \<and>
    chained (fq_next s') (fq_list s') (ks @ filter mk ws) \<and> fq_object s' = fq_object s"
  using assms
proof (induction ws arbitrary: ks s cur prev calls)
  case Nil
  then show ?case by (subst finalizer_loop.simps) simp
next
  case (Cons w ws)
  let ?n = "fq_next s w"
  have w: "cur = w" "w \<noteq> 0" "chained (fq_next s) ?n ws" "marked (fq_object s w) = Inr (mk w)" using Cons.prems by auto
  note prev = chained_tail [OF Cons.prems(1,2,4)]
  show ?case
  proof (cases "mk w")
    case False
    let ?s = "if prev = 0 then s\<lparr>fq_list := ?n\<rparr> else s\<lparr>fq_next := (fq_next s)(prev := ?n)\<rparr>"
    have e: "finalizer_loop marked prev cur s calls = finalizer_loop marked prev ?n ?s (calls @ [fq_object s w + 8])"
      using w False by (subst finalizer_loop.simps) (simp add: Let_def)
    have ch: "chained (fq_next ?s) (fq_list ?s) (ks @ ws)"
      using chained_unlink [OF Cons.prems(1,2)] prev(1) Cons.prems(4) by (auto split: if_splits)
    have nx: "chained (fq_next ?s) ?n ws" using w(3) prev(2) by auto
    have ob: "fq_object ?s = fq_object s" by simp
    show ?thesis unfolding e using Cons.IH [OF ch _ nx Cons.prems(4), of "calls @ [fq_object s w + 8]"] Cons.prems(2,5) False unfolding ob by auto
  next
    case True
    have e: "finalizer_loop marked prev cur s calls = finalizer_loop marked w ?n s calls"
      using w True by (subst finalizer_loop.simps) (simp add: Let_def)
    show ?thesis unfolding e using Cons.IH [of s "ks @ [w]" ?n w calls] Cons.prems True w(3) by simp
  qed
qed

text \<open>Registering a finalizer on its own: the entry comes first, and the object's header is flagged, which a second registration asserts
  against.\<close>

lemma register_for_finalization_ok:
  assumes "chained (fq_next q) (fq_list q) es" "entry \<notin> set es" "entry \<noteq> 0" "\<not> hdr_finalization_ordering (m (p - 8))"
  shows "\<exists>m' q'. register_for_finalization p entry (m, q) = Inr (m', q') \<and> chained (fq_next q') (fq_list q') (entry # es) \<and>
    fq_object q' entry = p - 8 \<and> (\<forall>x. x \<noteq> p - 8 \<longrightarrow> m' x = m x)"
  using assms by (simp add: register_for_finalization_def Let_def)

section \<open>Properties\<close>

text \<open>Registration under every interleaving.\<close>

lemma push_inv_put:
  assumes inv: "push_inv ws s" and i: "i < length (ll_threads s)" and p: "pc_entry p = pc_entry (ll_threads s ! i)" "pc_ok ws' nxt p"
    and ch: "chained nxt head ws'" "distinct ws'" and other: "\<And>b. b \<noteq> pc_entry p \<Longrightarrow> nxt b = ll_next s b" "ws' = ws \<or> ws' = pc_entry p # ws"
  shows "push_inv ws' (s\<lparr>ll_threads := (ll_threads s)[i := p], ll_next := nxt, ll_head := head\<rparr>)"
proof -
  have ne: "pc_entry (ll_threads s ! j) \<noteq> pc_entry p" if "j < length (ll_threads s)" "j \<noteq> i" for j
    using inv i p that by (auto simp: push_inv_def distinct_conv_nth)
  have "pc_ok ws' nxt (ll_threads s ! j)" if j: "j < length (ll_threads s)" "j \<noteq> i" for j
  proof -
    have "pc_ok ws nxt (ll_threads s ! j)" using inv j other(1) [OF ne [OF j]] pc_ok_next [of nxt "ll_threads s ! j" "ll_next s" ws] by (simp add: push_inv_def)
    then show ?thesis using other(2) pc_ok_Cons [OF _ ne [OF j]] by auto
  qed
  moreover have "map pc_entry ((ll_threads s)[i := p]) = map pc_entry (ll_threads s)"
    using i p(1) by (simp add: map_update list_update_same_conv)
  moreover have "pc_ok ws' nxt ((ll_threads s)[i := p] ! j)" if "j < length (ll_threads s)" for j
    using that p(2) i calculation(1) by (cases "j = i") simp_all
  ultimately show ?thesis using inv ch by (simp add: push_inv_def)
qed

lemma pushed_update: "Pushed a \<in> set ps \<Longrightarrow> ps ! i \<noteq> Pushed a \<Longrightarrow> Pushed a \<in> set (ps[i := p])"
  by (metis in_set_conv_nth length_list_update nth_list_update_neq)

lemma pushed_same: "i < length ps \<Longrightarrow> p \<in> set (ps[i := p])"
  by (simp add: set_update_memI)

lemma push_step_inv:
  assumes "push_step s s'" "push_inv ws s"
  shows "\<exists>ws'. push_inv ws' s' \<and> (\<exists>more. ws' = more @ ws) \<and> (\<forall>a. a \<in> set ws' \<longrightarrow> a \<in> set ws \<or> Pushed a \<in> set (ll_threads s')) \<and>
    (\<forall>a. Pushed a \<in> set (ll_threads s) \<longrightarrow> Pushed a \<in> set (ll_threads s'))"
  using assms
proof (induction rule: push_step.induct)
  case (load i s a)
  have ok: "pc_ok ws (ll_next s) (Loads a)" using load by (metis push_inv_def)
  have "push_inv ws (s\<lparr>ll_threads := (ll_threads s)[i := Stores a (ll_head s)], ll_next := ll_next s, ll_head := ll_head s\<rparr>)"
    by (rule push_inv_put [OF load.prems load.hyps(1)]) (use load ok in \<open>simp_all add: push_inv_def\<close>)
  then show ?case using load.hyps by (intro exI [of _ ws]) (auto simp: put_pc_def pushed_update)
next
  case (store i s a old)
  have ok: "pc_ok ws (ll_next s) (Stores a old)" using store by (metis push_inv_def)
  have "push_inv ws (s\<lparr>ll_threads := (ll_threads s)[i := Exchanges a old], ll_next := (ll_next s)(a := old), ll_head := ll_head s\<rparr>)"
    by (rule push_inv_put [OF store.prems store.hyps(1)]) (use store ok in \<open>simp_all add: push_inv_def\<close>)
  then show ?case using store.hyps by (intro exI [of _ ws]) (auto simp: put_pc_def pushed_update)
next
  case (exchange i s a old)
  have ok: "pc_ok ws (ll_next s) (Exchanges a old)" using exchange by (metis push_inv_def)
  have "push_inv (a # ws) (s\<lparr>ll_threads := (ll_threads s)[i := Pushed a], ll_next := ll_next s, ll_head := a\<rparr>)"
    by (rule push_inv_put [OF exchange.prems exchange.hyps(1)]) (use exchange ok in \<open>simp_all add: push_inv_def\<close>)
  then show ?case using exchange.hyps
    by (intro exI [of _ "a # ws"]) (auto simp: put_pc_def pushed_update pushed_same)
next
  case (fail i s a old)
  have ok: "pc_ok ws (ll_next s) (Exchanges a old)" using fail by (metis push_inv_def)
  have "push_inv ws (s\<lparr>ll_threads := (ll_threads s)[i := Stores a (ll_head s)], ll_next := ll_next s, ll_head := ll_head s\<rparr>)"
    by (rule push_inv_put [OF fail.prems fail.hyps(1)]) (use fail ok in \<open>simp_all add: push_inv_def\<close>)
  then show ?case using fail.hyps by (intro exI [of _ ws]) (auto simp: put_pc_def pushed_update)
qed

lemma push_step_entries: "push_step s s' \<Longrightarrow> map pc_entry (ll_threads s') = map pc_entry (ll_threads s)"
  by (induction rule: push_step.induct) (auto simp: put_pc_def map_update list_update_same_conv)

text \<open>C5. Registration is lock-free and loses nothing: from a list \<open>ws\<close> and threads that register distinct entries, under every
  interleaving of their loads, stores and (possibly spuriously failing) exchanges, the list from the head is well-formed, ends in \<open>ws\<close>
  and holds, besides, exactly the entries whose registration has returned, each once.\<close>

theorem registration_keeps_all:
  assumes "push_step\<^sup>*\<^sup>* s s'" "chained (ll_next s) (ll_head s) ws" "ll_threads s = map Loads es" "distinct (ws @ es)" "0 \<notin> set es"
  shows "\<exists>new. chained (ll_next s') (ll_head s') (new @ ws) \<and> distinct (new @ ws) \<and> set new = {a. Pushed a \<in> set (ll_threads s')}"
proof -
  have start: "push_inv ws s" 
  proof -
    have "es ! i \<notin> set ws \<and> es ! i \<noteq> 0" if "i < length es" for i
    proof -
      have e: "es ! i \<in> set es" using that by (rule nth_mem)
      have "set ws \<inter> set es = {}" using assms(4) by simp
      then show ?thesis using e assms(5) by (metis disjoint_iff)
    qed
    then show ?thesis using assms(2-4) by (simp add: push_inv_def comp_def)
  qed
  from assms(1) have "\<exists>new. push_inv (new @ ws) s' \<and> (\<forall>a \<in> set new. Pushed a \<in> set (ll_threads s'))"
  proof (induction rule: rtranclp_induct)
    case base
    show ?case using start by (intro exI [of _ "[]"]) simp
  next
    case (step t u)
    then obtain new where new: "push_inv (new @ ws) t" "\<forall>a \<in> set new. Pushed a \<in> set (ll_threads t)" by blast
    from push_step_inv [OF step.hyps(2) new(1)] obtain ws' where ws': "push_inv ws' u" "\<exists>more. ws' = more @ new @ ws"
      "\<forall>a. a \<in> set ws' \<longrightarrow> a \<in> set (new @ ws) \<or> Pushed a \<in> set (ll_threads u)" "\<forall>a. Pushed a \<in> set (ll_threads t) \<longrightarrow> Pushed a \<in> set (ll_threads u)" by blast
    obtain more where more: "ws' = more @ new @ ws" using ws'(2) by blast
    have "distinct (more @ new @ ws)" using ws'(1) more by (simp add: push_inv_def)
    then have "\<forall>a \<in> set (more @ new). Pushed a \<in> set (ll_threads u)" using ws'(3,4) new(2) more by auto
    then show ?case using ws'(1) more by (intro exI [of _ "more @ new"]) simp
  qed
  then obtain new where new: "push_inv (new @ ws) s'" "\<forall>a \<in> set new. Pushed a \<in> set (ll_threads s')" by blast
  moreover have "a \<in> set new" if "Pushed a \<in> set (ll_threads s')" for a
  proof -
    have "map pc_entry (ll_threads s') = es"
      using assms(1) by (induction rule: rtranclp_induct) (simp_all add: push_step_entries assms(3) comp_def)
    then have "a \<in> set es" using that by force
    moreover have "a \<in> set (new @ ws)" using new(1) that by (force simp: push_inv_def in_set_conv_nth)
    ultimately show ?thesis using assms(4) by auto
  qed
  ultimately show ?thesis by (intro exI [of _ new]) (auto simp: push_inv_def)
qed

text \<open>A weak reference whose target was cleared: the closure is applied to null.\<close>

lemma update_reference_null: "update_reference h b 0 = Inl AssertFailed"
proof -
  have "wrapping_sub 0 8 mod 16 = (8::nat)" by (simp add: wrapping_sub_def)
  then have "\<not> 16 dvd wrapping_sub 0 8" by (simp add: dvd_eq_mod_eq_0)
  then show ?thesis by (simp add: update_reference_def mc_is_marked_def)
qed

lemma weak_process_loop_panics:
  assumes "chained (wr_next s) wr ws" "distinct ws" "tail \<notin> set ws"
    "\<And>w. w \<in> set ws \<Longrightarrow> upd w = Inr (if mk w then w else 0)" "\<And>w e. w \<in> set ws \<Longrightarrow> upd (wr_ptr s w) = Inl e \<Longrightarrow> e = AssertFailed"
    "a \<in> set ws" "mk a" "upd (wr_ptr s a) = Inl AssertFailed"
  shows "weak_process_loop upd tail wr s = Some (Inl AssertFailed)"
  using assms
proof (induction ws arbitrary: s wr tail)
  case (Cons w ws)
  let ?n = "wr_next s w"
  have w: "wr = w" "w \<noteq> 0" "chained (wr_next s) ?n ws" "w \<notin> set ws" "upd w = Inr (if mk w then w else 0)" using Cons.prems by auto
  have step: "weak_process_loop upd t ?n s' = Some (Inl AssertFailed)"
    if "t \<notin> set ws" "wr_next s' = wr_next s \<or> (\<exists>x. wr_next s' = (wr_next s)(tail := x))" "\<And>x. x \<noteq> w \<Longrightarrow> wr_ptr s' x = wr_ptr s x" "a \<noteq> w" for t s'
  proof (rule Cons.IH)
    have "x \<in> set ws \<Longrightarrow> wr_ptr s' x = wr_ptr s x" for x using that(3) w(4) by metis
    then show "upd (wr_ptr s' a) = Inl AssertFailed" "x \<in> set ws \<Longrightarrow> upd (wr_ptr s' x) = Inl e \<Longrightarrow> e = AssertFailed" for x e
      using Cons.prems(5,6,8) that(4) by auto
    show "chained (wr_next s') ?n ws" using that(2) w(3) Cons.prems(3) by auto
  qed (use Cons.prems that in auto)
  show ?case
  proof (cases "mk w")
    case False
    have ne: "a \<noteq> w" using False Cons.prems(7) by auto
    have e: "weak_process_loop upd tail wr s =
      weak_process_loop upd tail ?n (if tail \<noteq> 0 then s\<lparr>wr_next := (wr_next s)(tail := ?n)\<rparr> else s\<lparr>wr_head := ?n\<rparr>)"
      using w False by (subst weak_process_loop.simps) (simp add: Let_def)
    show ?thesis unfolding e by (rule step) (use ne Cons.prems(3) in auto)
  next
    case True
    show ?thesis
    proof (cases "upd (wr_ptr s w)")
      case (Inl e)
      then show ?thesis using w True Cons.prems(5) [of w e] by (subst weak_process_loop.simps) (simp add: Let_def)
    next
      case (Inr target)
      have ne: "a \<noteq> w" using Inr Cons.prems(8) by auto
      let ?s1 = "s\<lparr>wr_ptr := (wr_ptr s)(w := target)\<rparr>"
      have e: "weak_process_loop upd tail wr s =
        weak_process_loop upd w ?n (if tail = 0 then ?s1\<lparr>wr_head := w\<rparr> else ?s1\<lparr>wr_next := (wr_next s)(tail := w)\<rparr>)"
        using w True Inr by (subst weak_process_loop.simps) (simp add: Let_def)
      show ?thesis unfolding e by (rule step) (use ne w(4) in auto)
    qed
  qed
qed simp

text \<open>A pointer to the data of an object whose header is a cell of the heap.\<close>

definition data_ptr :: "Heap \<Rightarrow> addr \<Rightarrow> bool" where
  "data_ptr h p \<longleftrightarrow> 8 \<le> p \<and> 16 dvd p - 8 \<and> hp_is_in h (p - 8)"

lemma update_reference_marked: "data_ptr h p \<Longrightarrow> update_reference h b p = Inr (if check_bit b (p - 8) then p else 0)"
  by (simp add: data_ptr_def update_reference_def mc_is_marked_def)

lemma marks_exact_at:
  assumes "marks_exact E R b" "16 dvd hp_mem_start (me_heap E)" "16 dvd a" "hp_is_in (me_heap E) a"
  shows "check_bit b a \<longleftrightarrow> reachable E R a"
  using assms by (auto simp: marks_exact_def heap_aligned_def intro: dvd_diff_nat)

text \<open>A weak reference that outlives its target breaks the next collection: a cycle clears the target to null, and if the weak reference
  is marked in a later cycle, the closure is applied to null too.\<close>

lemma cleared_panics:
  assumes "chained (wr_next w) (wr_head w) ws" "distinct ws" "\<forall>a \<in> set ws. data_ptr h a" "\<forall>a \<in> set ws. wr_ptr w a = 0 \<or> data_ptr h (wr_ptr w a)"
    "a \<in> set ws" "wr_ptr w a = 0" "check_bit b (a - 8)"
  shows "weak_process h b w = Some (Inl AssertFailed)"
  unfolding weak_process_def
proof (rule weak_process_loop_panics [where mk = "\<lambda>a. check_bit b (a - 8)", OF assms(1,2) _ _ _ assms(5,7)])
  show "0 \<notin> set ws" using assms(3) by (auto simp: data_ptr_def)
  show "update_reference h b (wr_ptr w a) = Inl AssertFailed" unfolding assms(6) by (rule update_reference_null)
next
  fix x assume "x \<in> set ws"
  then show "update_reference h b x = Inr (if check_bit b (x - 8) then x else 0)" using assms(3) update_reference_marked by blast
next
  fix x e assume x: "x \<in> set ws" "update_reference h b (wr_ptr w x) = Inl e"
  show "e = AssertFailed"
    using assms(4) x update_reference_null [of h b] update_reference_marked [of h "wr_ptr w x" b] by (cases "wr_ptr w x = 0") auto
qed

text \<open>C3. Weak references after marking, exactly. A target may have been cleared to null by an earlier cycle. If a reachable weak reference
  has such a target, processing the list panics: the closure is applied to null and asks the bitmap for the header below it.
  Otherwise processing ends, keeps exactly the weak references that are themselves reachable, in their order, and afterwards each
  of them upgrades to its target if the target is reachable and to nothing otherwise: none points to memory that the sweep frees.\<close>

theorem weak_references_exact:
  assumes "mark_ready E n Bs k rs Ob c" "process_roots E par k rs c = Inr s0" "(mark_step E)\<^sup>*\<^sup>* s0 s" "\<exists>v \<in> set (ms_visitors s). sv_pc v = Terminated"
    "16 dvd hp_mem_start (me_heap E)" "chained (wr_next w) (wr_head w) ws" "distinct ws"
    "\<forall>a \<in> set ws. data_ptr (me_heap E) a \<and> (wr_ptr w a = 0 \<or> data_ptr (me_heap E) (wr_ptr w a))"
  shows "if \<exists>a \<in> set ws. reachable E (root_targets (me_heap E) rs) (a - 8) \<and> wr_ptr w a = 0
    then weak_process (me_heap E) (ms_bitmap s) w = Some (Inl AssertFailed)
    else \<exists>w'. weak_process (me_heap E) (ms_bitmap s) w = Some (Inr w') \<and>
      chained (wr_next w') (wr_head w') (filter (\<lambda>a. reachable E (root_targets (me_heap E) rs) (a - 8)) ws) \<and>
      (\<forall>a \<in> set ws. reachable E (root_targets (me_heap E) rs) (a - 8) \<longrightarrow>
        upgrade w' a = (if reachable E (root_targets (me_heap E) rs) (wr_ptr w a - 8) then Some (wr_ptr w a) else None))"
proof -
  let ?h = "me_heap E" and ?b = "ms_bitmap s" and ?R = "root_targets (me_heap E) rs"
  note mx = marks_exact_at [OF marked_exact [OF assms(1-4)] assms(5)]
  have u: "update_reference ?h ?b p = Inr (if reachable E ?R (p - 8) then p else 0)" if "data_ptr ?h p" for p
    using update_reference_marked [OF that] mx [of "p - 8"] that by (simp add: data_ptr_def)
  show ?thesis
  proof (cases "\<exists>a \<in> set ws. reachable E ?R (a - 8) \<and> wr_ptr w a = 0")
    case True
    then obtain a where a: "a \<in> set ws" "reachable E ?R (a - 8)" "wr_ptr w a = 0" by blast
    then have "data_ptr ?h a" using assms(8) by blast
    then have cb: "check_bit ?b (a - 8)" using mx [of "a - 8"] a(2) by (simp add: data_ptr_def)
    have "weak_process ?h ?b w = Some (Inl AssertFailed)"
      by (rule cleared_panics [OF assms(6,7) _ _ a(1,3) cb]) (use assms(8) in blast)+
    then show ?thesis using True by (simp only: if_True)
  next
    case False
    have t: "wr_ptr w a \<noteq> 0 \<and> data_ptr ?h (wr_ptr w a)" if a: "a \<in> set ws" "reachable E ?R (a - 8)" for a
    proof -
      have "\<forall>a \<in> set ws. \<not> (reachable E ?R (a - 8) \<and> wr_ptr w a = 0)" using False by (simp only: bex_simps ball_simps not_not simp_thms)
      from bspec [OF this a(1)] have "wr_ptr w a \<noteq> 0" using a(2) by (simp only: simp_thms)
      then show ?thesis using bspec [OF assms(8) a(1)] by (simp only: simp_thms)
    qed
    let ?t = "\<lambda>a. if reachable E ?R (wr_ptr w a - 8) then wr_ptr w a else 0"
    have "\<exists>w'. weak_process_loop (update_reference ?h ?b) 0 (wr_head w) w = Some (Inr w') \<and>
      chained (wr_next w') (wr_head w') ([] @ filter (\<lambda>a. reachable E ?R (a - 8)) ws) \<and>
      wr_ptr w' = (\<lambda>a. if a \<in> set ws \<and> reachable E ?R (a - 8) then ?t a else wr_ptr w a)"
    proof (rule weak_process_loop_ok)
      fix a assume a: "a \<in> set ws"
      show "update_reference ?h ?b a = Inr (if reachable E ?R (a - 8) then a else 0)" using u bspec [OF assms(8) a] by (simp only: simp_thms)
      show "update_reference ?h ?b (wr_ptr w a) = Inr (?t a)" if "reachable E ?R (a - 8)" using u [of "wr_ptr w a"] t [OF a that] by (simp only: simp_thms)
    qed (use assms(6,7) in simp_all)
    then obtain w' where w': "weak_process ?h ?b w = Some (Inr w')" "chained (wr_next w') (wr_head w') (filter (\<lambda>a. reachable E ?R (a - 8)) ws)"
      "wr_ptr w' = (\<lambda>a. if a \<in> set ws \<and> reachable E ?R (a - 8) then ?t a else wr_ptr w a)" by (auto simp: weak_process_def)
    have "upgrade w' a = (if reachable E ?R (wr_ptr w a - 8) then Some (wr_ptr w a) else None)" if "a \<in> set ws" "reachable E ?R (a - 8)" for a
      using t [OF that] that by (simp add: upgrade_def w'(3))
    then show ?thesis unfolding if_not_P [OF False] using w'(1,2) by blast
  qed
qed

text \<open>C4. Finalizers after marking: the run calls the finalizer of every registered object that is not reachable, once and in the order of
  the list, before the memory is swept, and keeps exactly the entries of the reachable objects.\<close>

theorem finalizers_exact:
  assumes "mark_ready E n Bs k rs Ob c" "process_roots E par k rs c = Inr s0" "(mark_step E)\<^sup>*\<^sup>* s0 s" "\<exists>v \<in> set (ms_visitors s). sv_pc v = Terminated"
    "16 dvd hp_mem_start (me_heap E)" "chained (fq_next q) (fq_list q) es" "distinct es"
    "\<forall>e \<in> set es. 16 dvd fq_object q e \<and> hp_is_in (me_heap E) (fq_object q e)"
  shows "\<exists>q'. finalizer_run (me_heap E) (ms_bitmap s) q =
      Some (Inr (map (\<lambda>e. fq_object q e + 8) (filter (\<lambda>e. \<not> reachable E (root_targets (me_heap E) rs) (fq_object q e)) es), q')) \<and>
    chained (fq_next q') (fq_list q') (filter (\<lambda>e. reachable E (root_targets (me_heap E) rs) (fq_object q e)) es) \<and> fq_object q' = fq_object q"
proof -
  let ?h = "me_heap E" and ?b = "ms_bitmap s" and ?R = "root_targets (me_heap E) rs"
  note mx = marks_exact_at [OF marked_exact [OF assms(1-4)] assms(5)]
  have m: "mc_is_marked ?h ?b (fq_object q e) = Inr (reachable E ?R (fq_object q e))" if "e \<in> set es" for e
    using assms(8) that mx [of "fq_object q e"] by (simp add: mc_is_marked_def)
  have "\<exists>q'. finalizer_loop (mc_is_marked ?h ?b) 0 (fq_list q) q [] =
      Some (Inr ([] @ map (\<lambda>e. fq_object q e + 8) (filter (\<lambda>e. \<not> reachable E ?R (fq_object q e)) es), q')) \<and>
    chained (fq_next q') (fq_list q') ([] @ filter (\<lambda>e. reachable E ?R (fq_object q e)) es) \<and> fq_object q' = fq_object q"
    by (rule finalizer_loop_ok) (use assms(6,7) m in simp_all)
  then show ?thesis by (simp add: finalizer_run_def)
qed

section \<open>Examples\<close>

text \<open>The heap of the collection example: the object at 4096 is reachable, the one at 8192 is not. The weak reference is the object at
  4096, with the dead object as its target, which also has a finalizer.\<close>

definition ex_weak :: WeakReferences where
  "ex_weak = \<lparr>wr_head = 4104, wr_next = (\<lambda>_. 0), wr_ptr = (\<lambda>_. 8200)\<rparr>"

definition ex_finalizers :: FinalizerQueue where
  "ex_finalizers = \<lparr>fq_list = 64, fq_next = (\<lambda>a. if a = 64 then 128 else 0), fq_object = (\<lambda>a. if a = 64 then 4096 else 8192)\<rparr>"

lemma ex_in_heap: "hp_is_in ex_heap 4096" "hp_is_in ex_heap 8192" "16 dvd hp_mem_start ex_heap"
  by (simp_all add: hp_is_in_def ex_heap_fields ex_heap_size)

lemma ex_reach: "reachable ex_env {4104} 4096" "\<not> reachable ex_env {4104} 8192"
  using reachable.root [of 4104 "{4104}" ex_env] reachable_in [OF ex_graph, of 8192] by auto

lemma ex_marking:
  "mark_ready ex_env 12 (\<lambda>_. {#}) 1 ex_roots {4096} ex_context" "\<exists>v \<in> set (ms_visitors (ex_state [] 0 Terminated)). sv_pc v = Terminated"
  "root_targets (me_heap ex_env) ex_roots = {4104}" "16 dvd hp_mem_start (me_heap ex_env)"
  using ex_collect_ready ex_targets ex_in_heap(3) by (simp_all add: collect_ready_def ex_state_def)

theorem registration_keeps_all_witness:
  "\<exists>s' new. push_step\<^sup>*\<^sup>* \<lparr>ll_head = 0, ll_next = (\<lambda>_. 0), ll_threads = [Loads 64, Loads 128]\<rparr> s' \<and> chained (ll_next s') (ll_head s') new \<and>
    set new = {a. Pushed a \<in> set (ll_threads s')}"
proof -
  let ?s = "\<lparr>ll_head = 0, ll_next = (\<lambda>_. 0), ll_threads = [Loads 64, Loads 128]\<rparr> :: link_list"
  have "push_step\<^sup>*\<^sup>* ?s (put_pc ?s 0 (Stores 64 0))" using push_step.load [of 0 ?s 64] by auto
  from registration_keeps_all [OF this, of "[]" "[64, 128]"] this show ?thesis by auto
qed

text \<open>With the dead target the weak reference upgrades to nothing; if its target was cleared before, the processing panics.\<close>

theorem weak_references_exact_witness:
  "(\<exists>w'. weak_process ex_heap (ms_bitmap (ex_state [] 0 Terminated)) ex_weak = Some (Inr w') \<and> chained (wr_next w') (wr_head w') [4104] \<and>
      upgrade w' 4104 = None) \<and>
    weak_process ex_heap (ms_bitmap (ex_state [] 0 Terminated)) (ex_weak\<lparr>wr_ptr := \<lambda>_. 0\<rparr>) = Some (Inl AssertFailed)"
proof -
  have d: "data_ptr ex_heap 4104 \<and> data_ptr ex_heap 8200" using ex_in_heap by (simp add: data_ptr_def)
  note x = weak_references_exact [OF ex_marking(1) ex_process_roots ex_run ex_marking(2,4), of _ "[4104]", unfolded ex_marking(3)]
  show ?thesis
    using x [of ex_weak] x [of "ex_weak\<lparr>wr_ptr := \<lambda>_. 0\<rparr>"] d ex_reach by (simp add: ex_weak_def)
qed

theorem finalizers_exact_witness:
  "\<exists>q'. finalizer_run ex_heap (ms_bitmap (ex_state [] 0 Terminated)) ex_finalizers = Some (Inr ([8200], q')) \<and> chained (fq_next q') (fq_list q') [64]"
  using finalizers_exact [OF ex_marking(1) ex_process_roots ex_run ex_marking(2,4), of ex_finalizers "[64, 128]"] ex_reach ex_in_heap
  unfolding ex_marking(3) by (simp add: ex_finalizers_def) blast

end
