(* ===== verification/Barrier.thy ===== *)
theory Barrier
  imports Collection Mutator
begin

text \<open>
  The write barrier of \<open>heap/thread.rs\<close> with the sequential store buffer of \<open>utils/deque/mod.rs\<close>, in the configuration
  of the feature \<open>gc-satb\<close>, and concurrent marking: workers and a mutator that changes objects behind the barrier
  take steps in any order until the final pause flushes the buffers and marking is completed. The last theorem shows
  that this marking can miss a reachable object.
\<close>

section \<open>The store buffer\<close>

text \<open>The buffer is filled from its end; \<open>index\<close> is the first used slot.\<close>

record LocalSSB =
  ssb_index :: nat
  ssb_buf :: "addr list"

definition ssb_try_enqueue :: "addr \<Rightarrow> LocalSSB \<Rightarrow> bool \<times> LocalSSB" where
  "ssb_try_enqueue x q =
     (if ssb_index q = 0 then (False, q)
      else (True, q\<lparr>ssb_index := ssb_index q - 1, ssb_buf := (ssb_buf q)[ssb_index q - 1 := x]\<rparr>))"

text \<open>\<open>flush_ssb\<close>: the objects that are still unmarked go to the injector.\<close>

fun flush_objects :: "Heap \<Rightarrow> HeapBitmap \<Rightarrow> addr list \<Rightarrow> u64 list \<Rightarrow> u64 list res" where
  "flush_objects h marks [] jq = Inr jq"
| "flush_objects h marks (x # xs) jq =
     (if \<not> hp_is_in h x then Inl AssertFailed
      else flush_objects h marks xs (if check_bit marks x then jq else jq @ [MarkTask_new (of_nat x) False False]))"

definition flush_ssb :: "Heap \<Rightarrow> HeapBitmap \<Rightarrow> LocalSSB \<Rightarrow> u64 list \<Rightarrow> (LocalSSB \<times> u64 list) res" where
  "flush_ssb h marks q jq =
     rbind (flush_objects h marks (drop (ssb_index q) (ssb_buf q)) jq) (\<lambda>jq. Inr (q\<lparr>ssb_index := length (ssb_buf q)\<rparr>, jq))"

text \<open>\<open>raw_write_barrier\<close>, and \<open>slow_write_barrier\<close> when the buffer is full.\<close>

partial_function (option) raw_write_barrier ::
  "Heap \<Rightarrow> HeapBitmap \<Rightarrow> bool \<Rightarrow> bool \<Rightarrow> addr \<Rightarrow> LocalSSB \<Rightarrow> u64 list \<Rightarrow> (LocalSSB \<times> u64 list) res option" where
  "raw_write_barrier h marks filter_satb cm x q jq =
     (if cm \<and> filter_satb \<and> \<not> check_bit marks x then
        (if fst (ssb_try_enqueue x q) then Some (Inr (snd (ssb_try_enqueue x q), jq))
         else case flush_ssb h marks q jq of
                Inl e \<Rightarrow> Some (Inl e)
              | Inr r \<Rightarrow> raw_write_barrier h marks True cm x (fst r) (snd r))
      else Some (Inr (q, jq)))"

section \<open>Lemmas: nothing recorded is lost\<close>

definition ssb_objects :: "LocalSSB \<Rightarrow> addr set" where
  "ssb_objects q = set (drop (ssb_index q) (ssb_buf q))"

definition ssb_ok :: "Heap \<Rightarrow> LocalSSB \<Rightarrow> bool" where
  "ssb_ok h q \<longleftrightarrow> ssb_buf q \<noteq> [] \<and> ssb_index q \<le> length (ssb_buf q) \<and> (\<forall>x \<in> ssb_objects q. hp_is_in h x)"

abbreviation object_task :: "addr \<Rightarrow> u64" where "object_task x \<equiv> MarkTask_new (of_nat x) False False"

lemma flush_objects_spec:
  "\<forall>x \<in> set xs. hp_is_in h x \<Longrightarrow>
     flush_objects h marks xs jq = Inr (jq @ map object_task (filter (\<lambda>x. \<not> check_bit marks x) xs))"
  by (induction xs arbitrary: jq) auto

lemma flush_ssb_spec:
  assumes "ssb_ok h q"
  shows "flush_ssb h marks q jq = Inr (q\<lparr>ssb_index := length (ssb_buf q)\<rparr>,
    jq @ map object_task (filter (\<lambda>x. \<not> check_bit marks x) (drop (ssb_index q) (ssb_buf q))))"
  using assms flush_objects_spec [of "drop (ssb_index q) (ssb_buf q)" h marks jq]
  by (simp add: flush_ssb_def ssb_ok_def ssb_objects_def)

lemma ssb_enqueue_spec:
  assumes "0 < ssb_index q" "ssb_index q \<le> length (ssb_buf q)"
  shows "ssb_objects (snd (ssb_try_enqueue x q)) = insert x (ssb_objects q)" "fst (ssb_try_enqueue x q)"
    "ssb_index (snd (ssb_try_enqueue x q)) \<le> length (ssb_buf (snd (ssb_try_enqueue x q)))" "ssb_buf (snd (ssb_try_enqueue x q)) \<noteq> []"
proof -
  obtain k where k: "ssb_index q = Suc k" "k < length (ssb_buf q)" using assms by (cases "ssb_index q") auto
  have "drop k ((ssb_buf q)[k := x]) = x # drop (Suc k) (ssb_buf q)"
    using k(2) by (metis Cons_nth_drop_Suc drop_update_cancel length_list_update lessI nth_list_update_eq)
  then show "ssb_objects (snd (ssb_try_enqueue x q)) = insert x (ssb_objects q)" "fst (ssb_try_enqueue x q)"
    "ssb_index (snd (ssb_try_enqueue x q)) \<le> length (ssb_buf (snd (ssb_try_enqueue x q)))" "ssb_buf (snd (ssb_try_enqueue x q)) \<noteq> []"
    using k by (auto simp: ssb_try_enqueue_def ssb_objects_def)
qed

lemma raw_write_barrier_simp:
  "\<not> (cm \<and> f \<and> \<not> check_bit marks x) \<Longrightarrow> raw_write_barrier h marks f cm x q jq = Some (Inr (q, jq))"
  "cm \<Longrightarrow> \<not> check_bit marks x \<Longrightarrow> 0 < ssb_index q \<Longrightarrow>
     raw_write_barrier h marks True cm x q jq = Some (Inr (snd (ssb_try_enqueue x q), jq))"
  by (subst raw_write_barrier.simps, auto simp: ssb_try_enqueue_def)+

lemma raw_write_barrier_spec:
  assumes q: "ssb_ok h q" and x: "hp_is_in h x"
  obtains q' jq' where "raw_write_barrier h marks True cm x q jq = Some (Inr (q', jq'))" "ssb_ok h q'"
    "length (ssb_buf q') = length (ssb_buf q)" "\<exists>ts. jq' = jq @ ts"
    "\<forall>y \<in> ssb_objects q. check_bit marks y \<or> y \<in> ssb_objects q' \<or> object_task y \<in> set jq'"
    "cm \<longrightarrow> check_bit marks x \<or> x \<in> ssb_objects q'"
proof (cases "cm \<and> \<not> check_bit marks x")
  case False
  then show thesis using q by (intro that [of q jq] raw_write_barrier_simp(1)) auto
next
  case cm: True
  show thesis
  proof (cases "ssb_index q = 0")
    case False
    have i: "0 < ssb_index q" "ssb_index q \<le> length (ssb_buf q)" using False q by (simp_all add: ssb_ok_def)
    note e = ssb_enqueue_spec [OF i, of x]
    have "length (ssb_buf (snd (ssb_try_enqueue x q))) = length (ssb_buf q)" by (simp add: ssb_try_enqueue_def)
    then show thesis using raw_write_barrier_simp(2) [of cm marks x q h jq] cm i e q x
      by (intro that [of "snd (ssb_try_enqueue x q)" jq]) (auto simp: ssb_ok_def)
  next
    case True
    let ?q = "q\<lparr>ssb_index := length (ssb_buf q)\<rparr>"
    let ?jq = "jq @ map object_task (filter (\<lambda>x. \<not> check_bit marks x) (drop (ssb_index q) (ssb_buf q)))"
    have i: "0 < ssb_index ?q" "ssb_index ?q \<le> length (ssb_buf ?q)" using q by (simp_all add: ssb_ok_def)
    note e = ssb_enqueue_spec [OF i, of x]
    have "raw_write_barrier h marks True cm x q jq = raw_write_barrier h marks True cm x ?q ?jq"
      by (subst raw_write_barrier.simps) (use cm True flush_ssb_spec [OF q, of marks jq] in \<open>simp add: ssb_try_enqueue_def\<close>)
    also have "\<dots> = Some (Inr (snd (ssb_try_enqueue x ?q), ?jq))" by (rule raw_write_barrier_simp(2)) (use cm i in simp_all)
    finally have run: "raw_write_barrier h marks True cm x q jq = Some (Inr (snd (ssb_try_enqueue x ?q), ?jq))" .
    have "ssb_objects ?q = {}" by (simp add: ssb_objects_def)
    moreover have "length (ssb_buf (snd (ssb_try_enqueue x ?q))) = length (ssb_buf q)" by (simp add: ssb_try_enqueue_def)
    ultimately show thesis using e x by (intro that [OF run]) (auto simp: ssb_ok_def ssb_objects_def)
  qed
qed

section \<open>Concurrent marking\<close>

text \<open>Between the two pauses the workers mark while the mutator changes the pointers of objects it can reach; the barrier
  runs before each write, with the object that is written to.\<close>

record ConcState =
  cs_env :: MarkEnv
  cs_mark :: MarkState
  cs_ssb :: LocalSSB

definition write_object :: "addr \<Rightarrow> addr list \<Rightarrow> MarkEnv \<Rightarrow> MarkEnv" where
  "write_object a ptrs E = E\<lparr>me_trace := (me_trace E)(a := ptrs)\<rparr>"

inductive conc_step :: "addr set \<Rightarrow> ConcState \<Rightarrow> ConcState \<Rightarrow> bool" for R where
  mark: "mark_step (cs_env c) (cs_mark c) s \<Longrightarrow> conc_step R c (c\<lparr>cs_mark := s\<rparr>)"
| mutate: "reachable (cs_env c) R a \<Longrightarrow> \<forall>p \<in> set ptrs. reachable (cs_env c) R (p - 8) \<Longrightarrow>
    raw_write_barrier (me_heap (cs_env c)) (ms_bitmap (cs_mark c)) True True a (cs_ssb c) (ms_injector (cs_mark c)) = Some (Inr (q, jq)) \<Longrightarrow>
    conc_step R c (c\<lparr>cs_env := write_object a ptrs (cs_env c), cs_ssb := q, cs_mark := (cs_mark c)\<lparr>ms_injector := jq\<rparr>\<rparr>)"

text \<open>The final pause: the roots are visited again, the buffer is flushed and the workers start over (\<open>ConcMark::finish\<close>).\<close>

definition final_mark :: "(nat \<times> root_ptr) list \<Rightarrow> ConcState \<Rightarrow> MarkState res" where
  "final_mark rs c = rbind (parallel_roots (cs_env c) rs (cs_mark c)) (\<lambda>s.
     rbind (flush_ssb (me_heap (cs_env c)) (ms_bitmap s) (cs_ssb c) (ms_injector s)) (\<lambda>(q, jq).
       Inr (s\<lparr>ms_injector := jq, ms_visitors := map (\<lambda>v. v\<lparr>sv_pc := LoopTop\<rparr>) (ms_visitors s), ms_nworkers := length (ms_visitors s)\<rparr>)))"

section \<open>An object that is lost\<close>

text \<open>Three objects: the root at 4096 points to the one at 4128, which points to the one at 4160.\<close>

definition lost_heap :: Heap where
  "lost_heap = (small_heap small_opts)\<lparr>hp_memory := (\<lambda>_. 0)(4096 := init_header 8 32 False, 4128 := init_header 8 32 False, 4160 := init_header 8 32 False)\<rparr>"

definition lost_env :: "bool \<Rightarrow> (addr \<Rightarrow> addr list) \<Rightarrow> MarkEnv" where
  "lost_env cx tr = \<lparr>me_heap = lost_heap, me_vtab = ex_vtab, me_trace = tr, me_elem = (\<lambda>_ _. []), me_stride = 1000, me_cancellable = cx\<rparr>"

definition lost_state :: "HeapBitmap \<Rightarrow> u64 list \<Rightarrow> nat \<Rightarrow> nat \<Rightarrow> mark_pc \<Rightarrow> MarkState" where
  "lost_state b local k work pc = \<lparr>ms_bitmap = b, ms_injector = [],
     ms_visitors = [\<lparr>sv_local = local, sv_worker = [], sv_marked = k, sv_visit_count = k, sv_work = work, sv_pc = pc\<rparr>],
     ms_nworkers = 1, ms_cancelled = False\<rparr>"

lemma lost_env_simps [simp]:
  "me_heap (lost_env cx tr) = lost_heap" "me_vtab (lost_env cx tr) = ex_vtab" "me_trace (lost_env cx tr) = tr" "me_stride (lost_env cx tr) = 1000"
  "write_object a ps (lost_env cx tr) = lost_env cx (tr(a := ps))" "(lost_env cx tr)\<lparr>me_cancellable := d\<rparr> = lost_env d tr"
  by (simp_all add: lost_env_def write_object_def)

lemma lost_heap_simps: "hp_mem_start lost_heap = 4096" "hp_mem_size lost_heap = 16384"
  "x \<in> {4096, 4128, 4160} \<Longrightarrow> hp_memory lost_heap x = init_header 8 32 False"
  by (auto simp: lost_heap_def small_heap_def)

lemma lost_header: "hdr_vtable (init_header 8 32 False) = 8" "\<not> hdr_is_free (init_header 8 32 False)" "\<not> hdr_no_heap_ptrs (init_header 8 32 False)"
  using init_header_decode [of 8 32 False] by (simp_all add: hdr_is_free_iff)

lemma lost_task:
  assumes "x \<in> {4096, 4128, 4160}"
  shows "unat (decode_oop (object_task x)) = x" "decode_not_chunked (object_task x)" "do_task (lost_env cx tr) (object_task x) = Inr (map Visit (tr x))"
proof -
  have x: "unat (of_nat x :: u64) = x" "unat (of_nat x :: u64) < 2 ^ 49" "4 dvd unat (of_nat x :: u64)" using assms by auto
  show o: "unat (decode_oop (object_task x)) = x" "decode_not_chunked (object_task x)"
    using MarkTask_new2_decode [OF x(2,3), of 0 0 False False] x(1) by (simp_all add: MarkTask_new_eq decode_not_chunked_iff)
  show "do_task (lost_env cx tr) (object_task x) = Inr (map Visit (tr x))"
    using o lost_header lost_heap_simps(3) [OF assms] by (simp add: do_task_def Let_def vtable_of_def visit_object_def)
qed

lemma lost_solo:
  "solo_step (lost_env cx tr) 0 (lost_state b l k w LoopTop) = lost_state b l k 0 PopOwn"
  "w < 1000 \<Longrightarrow> do_task (lost_env cx tr) t = Inr its \<Longrightarrow> solo_step (lost_env cx tr) 0 (lost_state b [t] k w PopOwn) = lost_state b [] k w (Running its)"
  "w < 1000 \<Longrightarrow> solo_step (lost_env cx tr) 0 (lost_state b [] k w PopOwn) = lost_state b [] k w PopGlobal"
  "solo_step (lost_env cx tr) 0 (lost_state b [] k w PopGlobal) = lost_state b [] k w StealOthers"
  "solo_step (lost_env cx tr) 0 (lost_state b [] k 0 StealOthers) = lost_state b [] k 0 TryTerminate"
  "solo_step (lost_env cx tr) 0 (lost_state b [] k (Suc w) StealOthers) = lost_state b [] k (Suc w) LoopTop"
  "\<not> check_bit b (p - 8) \<Longrightarrow> solo_step (lost_env cx tr) 0 (lost_state b l k w (Running (Visit p # its))) =
     lost_state (set_bit b (p - 8)) l k w (Running (Push (object_task (p - 8)) # its))"
  "k < 256 \<Longrightarrow> hp_is_in lost_heap (unat (decode_oop t)) \<Longrightarrow> solo_step (lost_env cx tr) 0 (lost_state b [] k w (Running (Push t # its))) =
     lost_state b [t] (Suc k) w (Running its)"
  "solo_step (lost_env cx tr) 0 (lost_state b l k w (Running [])) = lost_state b l k (Suc w) PopOwn"
  "solo_step (lost_env cx tr) 0 (lost_state b l k w TryTerminate) = lost_state b l k w Terminated"
  by (simp_all add: solo_step_def lost_state_def put_visitor_def pop_own_def run_task_def visit_item_def mc_mark_def Let_def sv_push_def
      SEGMENT_SIZE_def defensive_push_def)

lemma lost_next:
  assumes "solo_step (lost_env cx tr) 0 (lost_state b l k w pc) = s" "\<not> finished pc" "(mark_step (lost_env cx tr))\<^sup>*\<^sup>* s t"
  shows "(mark_step (lost_env cx tr))\<^sup>*\<^sup>* (lost_state b l k w pc) t"
proof (rule solo_chain)
  show "(mark_step (lost_env cx tr))\<^sup>*\<^sup>* (solo_step (lost_env cx tr) 0 (lost_state b l k w pc)) t" using assms(1,3) by simp
  have "ms_visitors (lost_state b l k w pc) ! 0 = \<lparr>sv_local = l, sv_worker = [], sv_marked = k, sv_visit_count = k, sv_work = w, sv_pc = pc\<rparr>"
    by (simp add: lost_state_def)
  then show "\<not> finished (sv_pc (ms_visitors (lost_state b l k w pc) ! 0))" using assms(2) by simp
qed (simp add: lost_state_def)

lemma lost_idle: "(mark_step (lost_env cx tr))\<^sup>*\<^sup>* (lost_state b [] k w LoopTop) (lost_state b [] k 0 Terminated)"
  by (rule lost_next [OF lost_solo(1)], simp add: finished_def, rule lost_next [OF lost_solo(3)], simp, simp add: finished_def,
      rule lost_next [OF lost_solo(4)], simp add: finished_def, rule lost_next [OF lost_solo(5)], simp add: finished_def,
      rule lost_next [OF lost_solo(10)], simp add: finished_def, rule rtranclp.rtrancl_refl)

text \<open>Marking an object without pointers, and finishing.\<close>

lemma lost_leaf:
  assumes "do_task (lost_env cx tr) t = Inr []"
  shows "(mark_step (lost_env cx tr))\<^sup>*\<^sup>* (lost_state b [t] k 1 PopOwn) (lost_state b [] k 0 Terminated)"
  by (rule lost_next [OF lost_solo(2) [OF _ assms]], simp, simp add: finished_def, rule lost_next [OF lost_solo(9)], simp add: finished_def,
      rule lost_next [OF lost_solo(3)], simp, simp add: finished_def, rule lost_next [OF lost_solo(4)], simp add: finished_def,
      rule lost_next [OF lost_solo(6)], simp add: finished_def, rule lost_idle)

text \<open>Marking an object whose only pointer leads to an unmarked one.\<close>

lemma lost_first:
  assumes "do_task (lost_env cx tr) t = Inr [Visit p]" "\<not> check_bit b (p - 8)" "unat (decode_oop (object_task (p - 8))) = p - 8" "hp_is_in lost_heap (p - 8)"
  shows "(mark_step (lost_env cx tr))\<^sup>*\<^sup>* (lost_state b [t] 1 0 LoopTop) (lost_state (set_bit b (p - 8)) [object_task (p - 8)] 2 1 PopOwn)"
  by (rule lost_next [OF lost_solo(1)], simp add: finished_def, rule lost_next [OF lost_solo(2) [OF _ assms(1)]], simp, simp add: finished_def,
      rule lost_next [OF lost_solo(7) [OF assms(2)]], simp add: finished_def, rule lost_next [OF lost_solo(8)], simp, simp add: assms(3,4), simp add: finished_def,
      rule lost_next [OF lost_solo(9)], simp add: finished_def, simp add: numeral_2_eq_2)

text \<open>The objects and the bits of the run.\<close>

abbreviation lost_graph :: "addr \<Rightarrow> addr list" where
  "lost_graph \<equiv> (\<lambda>_. [])(4096 := [4136], 4128 := [4168])"

abbreviation lost_graph' :: "addr \<Rightarrow> addr list" where
  "lost_graph' \<equiv> (lost_graph(4096 := [4136, 4168]))(4128 := [])"

abbreviation lost_marks :: HeapBitmap where
  "lost_marks \<equiv> set_bit (set_bit (mc_bitmap (clear_bitmap_full ex_context)) 4096) 4128"

lemma lost_children: "x \<in> {4096, 4128, 4160} \<Longrightarrow> children (lost_env cx tr) x = set (tr x)"
  using lost_header lost_heap_simps(3) [of x]
  by (auto simp: children_def iterates_def vtable_of_def)

lemma lost_obj:
  assumes "x \<in> {4096, 4128, 4160}"
  shows "obj_ok (lost_env cx tr) x"
proof -
  have "hp_memory lost_heap (x + 8) = 0" "x mod 8 = 0" using assms by (auto simp: lost_heap_def)
  then have "read_u32 (hp_memory lost_heap) (data x) = 0" by (simp add: read_u32_def data_def mod_add_eq)
  then have "obj_length (lost_env cx tr) x = 0" by (simp add: obj_length_def array_length_def)
  moreover have "hp_is_in lost_heap x" "16 dvd x - 4096" "x < 2 ^ 49" "4 dvd x" using assms by (auto simp: hp_is_in_def lost_heap_simps)
  ultimately show ?thesis using lost_header lost_heap_simps(1,3) assms by (simp add: obj_ok_def)
qed

lemma lost_graph_ok: "graph_ok (lost_env cx lost_graph) {4104} {4096, 4128, 4160}"
  using lost_obj [of _ cx lost_graph] by (auto simp: graph_ok_def lost_children)

lemma lost_bits:
  "\<not> check_bit (mc_bitmap (clear_bitmap_full ex_context)) 4096" "\<not> check_bit (set_bit (mc_bitmap (clear_bitmap_full ex_context)) 4096) 4128"
  "check_bit lost_marks 4096" "check_bit lost_marks 4128" "\<not> check_bit lost_marks 4160"
proof -
  let ?E = "lost_env True lost_graph" and ?b = "mc_bitmap (clear_bitmap_full ex_context)"
  have "context_ok ?E ex_context" by (simp add: context_ok_def ex_context_def lost_heap_simps)
  then have f: "fresh_context ?E (clear_bitmap_full ex_context)" by (rule clear_fresh)
  then have o: "hb_offset ?b = hp_mem_start (me_heap ?E)" by (simp add: fresh_context_def)
  have e: "marked_set ?E ?b = {}" using f by (simp add: fresh_context_def marked_set_def)
  have al: "heap_aligned ?E x" if "x \<in> {4096, 4128, 4160}" for x using graph_ok_aligned [OF lost_graph_ok that] .
  have m: "marked_set ?E (set_bit ?b 4096) = {4096}" using marked_set_bit [OF lost_graph_ok o, of 4096] e by simp
  have m2: "marked_set ?E lost_marks = {4096, 4128}" using marked_set_bit [OF lost_graph_ok, of "set_bit ?b 4096" True 4128] o m by auto
  have ck: "check_bit b x \<longleftrightarrow> x \<in> marked_set ?E b" if "x \<in> {4096, 4128, 4160}" for b x using al [OF that] by (simp add: marked_set_def)
  show "\<not> check_bit ?b 4096" "\<not> check_bit (set_bit ?b 4096) 4128" "check_bit lost_marks 4096" "check_bit lost_marks 4128" "\<not> check_bit lost_marks 4160"
    using ck [of 4096 ?b] ck [of 4128 "set_bit ?b 4096"] ck [of 4096 lost_marks] ck [of 4128 lost_marks] ck [of 4160 lost_marks] e m m2 by simp_all
qed

lemma lost_in: "x \<in> {4096, 4128, 4160} \<Longrightarrow> hp_is_in lost_heap x"
  by (auto simp: hp_is_in_def lost_heap_simps)

lemma lost_roots:
  "process_roots (lost_env cx tr) True 1 [(0, Precise 4104)] ex_context =
    Inr (lost_state (set_bit (mc_bitmap (clear_bitmap_full ex_context)) 4096) [object_task 4096] 1 0 LoopTop)"
  using lost_bits(1) lost_in [of 4096] lost_task(1) [of 4096]
  by (simp add: process_roots_def slot_visit_def mc_mark_def Let_def sv_push_def mark_start_def SlotVisitor_new_def SEGMENT_SIZE_def
      defensive_push_def put_visitor_def lost_state_def clear_bitmap_full_def ex_context_def)

lemma conc_marks:
  assumes "(mark_step E)\<^sup>*\<^sup>* s t"
  shows "(conc_step R)\<^sup>*\<^sup>* \<lparr>cs_env = E, cs_mark = s, cs_ssb = q\<rparr> \<lparr>cs_env = E, cs_mark = t, cs_ssb = q\<rparr>"
  using assms
proof induction
  case (step t u)
  have "conc_step R \<lparr>cs_env = E, cs_mark = t, cs_ssb = q\<rparr> (\<lparr>cs_env = E, cs_mark = t, cs_ssb = q\<rparr>\<lparr>cs_mark := u\<rparr>)"
    by (rule conc_step.mark) (simp add: step.hyps)
  then show ?case using step.IH by (simp add: rtranclp.rtrancl_into_rtrancl)
qed simp

lemma conc_write:
  assumes "reachable E R a" "\<forall>p \<in> set ptrs. reachable E R (p - 8)" "check_bit (ms_bitmap s) a"
  shows "conc_step R \<lparr>cs_env = E, cs_mark = s, cs_ssb = q\<rparr> \<lparr>cs_env = write_object a ptrs E, cs_mark = s, cs_ssb = q\<rparr>"
proof -
  let ?c = "\<lparr>cs_env = E, cs_mark = s, cs_ssb = q\<rparr>"
  have b: "raw_write_barrier (me_heap (cs_env ?c)) (ms_bitmap (cs_mark ?c)) True True a (cs_ssb ?c) (ms_injector (cs_mark ?c)) = Some (Inr (q, ms_injector s))"
    using assms(3) by (simp add: raw_write_barrier_simp(1))
  show ?thesis using conc_step.mutate [OF _ _ b, of R ptrs] assms(1,2) by simp
qed

text \<open>The concurrent phase of the run: the first object is scanned, the second is waiting; the mutator moves the only pointer
  to the third from the second to the first.\<close>

abbreviation lost_queue :: LocalSSB where "lost_queue \<equiv> \<lparr>ssb_index = 1, ssb_buf = [0]\<rparr>"

abbreviation lost_start :: MarkState where
  "lost_start \<equiv> lost_state (set_bit (mc_bitmap (clear_bitmap_full ex_context)) 4096) [object_task 4096] 1 0 LoopTop"

abbreviation lost_end :: ConcState where
  "lost_end \<equiv> \<lparr>cs_env = lost_env True lost_graph', cs_mark = lost_state lost_marks [] 2 0 Terminated, cs_ssb = lost_queue\<rparr>"

definition workers_done :: "MarkState \<Rightarrow> bool" where
  "workers_done s \<longleftrightarrow> (\<forall>v \<in> set (ms_visitors s). sv_pc v = Terminated)"

lemma lost_run:
  "(conc_step {4104})\<^sup>*\<^sup>* \<lparr>cs_env = lost_env True lost_graph, cs_mark = lost_start, cs_ssb = lost_queue\<rparr> lost_end"
  "reachable (cs_env lost_end) {4104} 4160"
proof -
  let ?R = "{4104} :: addr set"
  let ?E0 = "lost_env True lost_graph" and ?E1 = "lost_env True (lost_graph(4096 := [4136, 4168]))" and ?E2 = "lost_env True lost_graph'"
  let ?s1 = "lost_state lost_marks [object_task 4128] 2 1 PopOwn"
  have ch: "children (lost_env cx tr) 4096 = set (tr 4096)" "children (lost_env cx tr) 4128 = set (tr 4128)" for cx tr
    by (simp_all add: lost_children)
  have a: "reachable (lost_env cx tr) ?R 4096" for cx tr using reachable.root [of 4104 ?R "lost_env cx tr"] by simp
  have c: "reachable (lost_env cx tr) ?R (p - 8)" if "p \<in> set (tr 4096)" for cx tr p
    using reachable.child [OF a, of p] that ch(1) by simp
  have C: "reachable ?E0 ?R 4128" "reachable ?E1 ?R 4128" "reachable ?E2 ?R 4160" using c [of 4136] c [of 4168 lost_graph'] by simp_all
  have W: "reachable ?E0 ?R 4160" using reachable.child [OF C(1), of 4168] ch(2) by simp
  have b: "ms_bitmap ?s1 = lost_marks" by (simp add: lost_state_def)
  have "(mark_step ?E0)\<^sup>*\<^sup>* lost_start ?s1"
    using lost_first [of True lost_graph "object_task 4096" 4136 "set_bit (mc_bitmap (clear_bitmap_full ex_context)) 4096"]
      lost_task [of 4096] lost_task(1) [of 4128] lost_bits(2) lost_in [of 4128] by simp
  then have "(conc_step ?R)\<^sup>*\<^sup>* \<lparr>cs_env = ?E0, cs_mark = lost_start, cs_ssb = lost_queue\<rparr> \<lparr>cs_env = ?E0, cs_mark = ?s1, cs_ssb = lost_queue\<rparr>" by (rule conc_marks)
  moreover have "conc_step ?R \<lparr>cs_env = ?E0, cs_mark = ?s1, cs_ssb = lost_queue\<rparr> \<lparr>cs_env = ?E1, cs_mark = ?s1, cs_ssb = lost_queue\<rparr>"
    using conc_write [of ?E0 ?R 4096 "[4136, 4168]" ?s1] a C(1) W b lost_bits(3) by simp
  moreover have "conc_step ?R \<lparr>cs_env = ?E1, cs_mark = ?s1, cs_ssb = lost_queue\<rparr> \<lparr>cs_env = ?E2, cs_mark = ?s1, cs_ssb = lost_queue\<rparr>"
    using conc_write [of ?E1 ?R 4128 "[]" ?s1] C(2) b lost_bits(4) by simp
  moreover have "(conc_step ?R)\<^sup>*\<^sup>* \<lparr>cs_env = ?E2, cs_mark = ?s1, cs_ssb = lost_queue\<rparr> lost_end"
    using lost_leaf [of True lost_graph' "object_task 4128" lost_marks 2] lost_task(3) [of 4128] by (intro conc_marks) simp
  ultimately show "(conc_step ?R)\<^sup>*\<^sup>* \<lparr>cs_env = ?E0, cs_mark = lost_start, cs_ssb = lost_queue\<rparr> lost_end"
    by (meson rtranclp.rtrancl_into_rtrancl rtranclp_trans)
  show "reachable (cs_env lost_end) {4104} 4160" using C(3) by simp
qed

section \<open>Properties\<close>

text \<open>The write barrier returns while a concurrent mark runs, also when the store buffer is full and has to be flushed
  first, and it records the object that is written to unless that object is marked: no object recorded before is lost
  (it stays in the buffer, or a task for it is in the injector, unless it was marked when the buffer was flushed), the
  injector only grows, and the buffer keeps its shape.\<close>

theorem write_barrier_records:
  assumes "ssb_ok h q" "hp_is_in h x"
  shows "\<exists>q' ts. raw_write_barrier h marks True cm x q jq = Some (Inr (q', jq @ ts)) \<and> ssb_ok h q' \<and>
    length (ssb_buf q') = length (ssb_buf q) \<and>
    (\<forall>y \<in> ssb_objects q. check_bit marks y \<or> y \<in> ssb_objects q' \<or> object_task y \<in> set (jq @ ts)) \<and>
    (cm \<longrightarrow> check_bit marks x \<or> x \<in> ssb_objects q')"
proof -
  obtain q' jq' where w: "raw_write_barrier h marks True cm x q jq = Some (Inr (q', jq'))" "ssb_ok h q'"
    "length (ssb_buf q') = length (ssb_buf q)" "\<exists>ts. jq' = jq @ ts"
    "\<forall>y \<in> ssb_objects q. check_bit marks y \<or> y \<in> ssb_objects q' \<or> object_task y \<in> set jq'"
    "cm \<longrightarrow> check_bit marks x \<or> x \<in> ssb_objects q'"
    by (rule raw_write_barrier_spec [OF assms, of marks cm jq])
  then obtain ts where "jq' = jq @ ts" by blast
  then show ?thesis using w by blast
qed

text \<open>A full buffer of one slot.\<close>

theorem write_barrier_records_witness:
  "\<exists>q' ts. raw_write_barrier lost_heap lost_marks True True 4160 \<lparr>ssb_index = 0, ssb_buf = [4096]\<rparr> [] = Some (Inr (q', [] @ ts)) \<and>
    ssb_ok lost_heap q' \<and> 4160 \<in> ssb_objects q'"
proof -
  have "ssb_ok lost_heap \<lparr>ssb_index = 0, ssb_buf = [4096]\<rparr>" using lost_in [of 4096] by (simp add: ssb_ok_def ssb_objects_def)
  from write_barrier_records [OF this lost_in [of 4160], of lost_marks True "[]"] lost_bits(5) show ?thesis by auto
qed

text \<open>C7. Concurrent marking with the barrier of the feature \<open>gc-satb\<close> can miss a reachable object. There is a run from
  a well-formed heap in which the workers mark concurrently with a mutator that only writes, through the barrier, pointers
  it can reach; then all workers terminate, the final pause visits the roots again and flushes the store buffer, and
  the workers terminate once more: an object that is reachable in the final heap is still not marked, so the sweep
  frees it. The barrier records the object that is written to and skips it when it is marked; the pointer that is
  overwritten, which a snapshot-at-the-beginning barrier has to keep, is never recorded.\<close>

theorem satb_barrier_loses_object:
  "\<exists>E rs R Ob ctx s0 q c s s'.
    graph_ok E R Ob \<and> R = root_targets (me_heap E) rs \<and> context_ok E ctx \<and> me_cancellable E \<and> ssb_ok (me_heap E) q \<and>
    process_roots E True 1 rs ctx = Inr s0 \<and>
    (conc_step R)\<^sup>*\<^sup>* \<lparr>cs_env = E, cs_mark = s0, cs_ssb = q\<rparr> c \<and> workers_done (cs_mark c) \<and>
    final_mark rs c = Inr s \<and>
    (mark_step ((cs_env c)\<lparr>me_cancellable := False\<rparr>))\<^sup>*\<^sup>* s s' \<and> workers_done s' \<and>
    (\<exists>a. reachable (cs_env c) R a \<and> \<not> check_bit (ms_bitmap s') a)"
proof -
  let ?rs = "[(0, Precise 4104)] :: (nat \<times> root_ptr) list" and ?R = "{4104} :: addr set" and ?E0 = "lost_env True lost_graph"
  let ?s2 = "lost_state lost_marks [] 2 0 Terminated"
  have fin: "final_mark ?rs lost_end = Inr (lost_state lost_marks [] 2 0 LoopTop)"
    using lost_bits(3) by (simp add: final_mark_def slot_visit_def mc_mark_def Let_def flush_ssb_def lost_state_def)
  have t: "workers_done ?s2" by (simp add: workers_done_def lost_state_def)
  have init: "graph_ok ?E0 ?R {4096, 4128, 4160}" "?R = root_targets (me_heap ?E0) ?rs" "context_ok ?E0 ex_context" "me_cancellable ?E0"
    "ssb_ok (me_heap ?E0) lost_queue" "process_roots ?E0 True 1 ?rs ex_context = Inr lost_start"
    using lost_graph_ok lost_roots by (simp_all add: root_target_def context_ok_def ex_context_def lost_heap_simps ssb_ok_def ssb_objects_def lost_env_def)
  have last: "(mark_step ((cs_env lost_end)\<lparr>me_cancellable := False\<rparr>))\<^sup>*\<^sup>* (lost_state lost_marks [] 2 0 LoopTop) ?s2" using lost_idle by simp
  have "\<not> check_bit (ms_bitmap ?s2) 4160" using lost_bits(5) by (simp add: lost_state_def)
  then have lost: "\<exists>a. reachable (cs_env lost_end) ?R a \<and> \<not> check_bit (ms_bitmap ?s2) a" using lost_run(2) by blast
  show ?thesis
    apply (rule exI [of _ ?E0], rule exI [of _ ?rs], rule exI [of _ ?R], rule exI [of _ "{4096, 4128, 4160}"], rule exI [of _ ex_context])
    apply (rule exI [of _ lost_start], rule exI [of _ lost_queue], rule exI [of _ lost_end], rule exI [of _ "lost_state lost_marks [] 2 0 LoopTop"], rule exI [of _ ?s2])
    apply (intro conjI init lost_run(1) fin last lost t)
    using t by simp
qed

end
