(* ===== verification/Suspend.thy ===== *)
theory Suspend
  imports Prelude
begin

text \<open>
  How the collector stops its own workers: the suspendible thread set of \<open>sync/suspendible_thread_set.rs\<close>, and the
  cancellation flag of \<open>heap/heap.rs\<close> with the poll \<open>check_cancelled_gc_and_yield\<close> that the marking workers make
  (\<open>heap/shared_vars.rs\<close> for the flag's exchange). Every section under the set's lock is one operation; the workers,
  the controller and the threads that cancel a cycle take steps in any order.
\<close>

section \<open>The thread set\<close>

record ThreadSet =
  ts_suspend_all :: bool
  ts_nthreads :: nat
  ts_stopped :: nat
  ts_wakeup :: nat

definition wrap64 :: "nat \<Rightarrow> nat" where
  "wrap64 n = n mod 2 ^ 64"

definition is_synchronized :: "ThreadSet \<Rightarrow> bool" where
  "is_synchronized s \<longleftrightarrow> ts_nthreads s = ts_stopped s"

definition sts_signal :: "ThreadSet \<Rightarrow> ThreadSet" where
  "sts_signal s = (if ts_suspend_all s \<and> is_synchronized s then s\<lparr>ts_wakeup := ts_wakeup s + 1\<rparr> else s)"

text \<open>\<open>join\<close>: \<open>None\<close> while the thread waits for the suspension to end.\<close>

definition sts_join :: "ThreadSet \<Rightarrow> ThreadSet option" where
  "sts_join s = (if ts_suspend_all s then None else Some (s\<lparr>ts_nthreads := wrap64 (ts_nthreads s + 1)\<rparr>))"

definition sts_leave :: "ThreadSet \<Rightarrow> ThreadSet res" where
  "sts_leave s =
     (if ts_nthreads s = 0 then Inl AssertFailed
      else Inr (sts_signal (s\<lparr>ts_nthreads := wrapping_sub (ts_nthreads s) 1\<rparr>)))"

text \<open>\<open>yield_\<close> up to its wait (the flag says whether the thread waits), and after it.\<close>

definition sts_resume :: "ThreadSet \<Rightarrow> ThreadSet option" where
  "sts_resume s = (if ts_suspend_all s then None else Some (s\<lparr>ts_stopped := wrapping_sub (ts_stopped s) 1\<rparr>))"

definition sts_yield :: "ThreadSet \<Rightarrow> bool \<times> ThreadSet" where
  "sts_yield s =
     (let s = (if ts_suspend_all s then sts_signal (s\<lparr>ts_stopped := wrap64 (ts_stopped s + 1)\<rparr>) else s) in
      case sts_resume s of None \<Rightarrow> (True, s) | Some s \<Rightarrow> (False, s))"

text \<open>\<open>synchronize\<close>: whether it returns at once; otherwise the caller waits for the semaphore.\<close>

definition sts_synchronize :: "ThreadSet \<Rightarrow> bool \<times> ThreadSet" where
  "sts_synchronize s = (let s = s\<lparr>ts_suspend_all := True\<rparr> in (is_synchronized s, s))"

definition sts_wait :: "ThreadSet \<Rightarrow> ThreadSet option" where
  "sts_wait s = (if ts_wakeup s = 0 then None else Some (s\<lparr>ts_wakeup := ts_wakeup s - 1\<rparr>))"

definition sts_desynchronize :: "ThreadSet \<Rightarrow> ThreadSet res" where
  "sts_desynchronize s =
     (if ts_suspend_all s \<and> is_synchronized s then Inr (s\<lparr>ts_suspend_all := False\<rparr>) else Inl AssertFailed)"

section \<open>The cancellation flag\<close>

definition GC_CANCELLABLE :: nat where "GC_CANCELLABLE = 0"
definition GC_CANCELLED :: nat where "GC_CANCELLED = 1"
definition GC_NOT_CANCELLED :: nat where "GC_NOT_CANCELLED = 2"

text \<open>\<open>SharedEnumFlag::cmpxchg\<close> returns the value it found. It is a weak exchange, which may fail although the value was
  the expected one.\<close>

definition flag_cmpxchg :: "bool \<Rightarrow> nat \<Rightarrow> nat \<Rightarrow> nat \<Rightarrow> nat \<times> nat" where
  "flag_cmpxchg spurious old new v = (v, if v = old \<and> \<not> spurious then new else v)"

text \<open>One round of \<open>try_cancel_gc\<close>: its result, or \<open>None\<close> when it tries again.\<close>

definition try_cancel_gc :: "bool \<Rightarrow> nat \<Rightarrow> bool option \<times> nat" where
  "try_cancel_gc spurious v =
     (let (prev, v) = flag_cmpxchg spurious GC_CANCELLABLE GC_CANCELLED v in
      (if prev = GC_CANCELLABLE then Some True else if prev = GC_CANCELLED then Some False else None, v))"

text \<open>The first exchange of \<open>check_cancelled_gc_and_yield\<close>: the value found when the worker goes on (it may then yield),
  or \<open>None\<close> when the cycle is cancelled.\<close>

definition check_cancelled :: "bool \<Rightarrow> nat \<Rightarrow> nat option \<times> nat" where
  "check_cancelled spurious v =
     (let (prev, v) = flag_cmpxchg spurious GC_CANCELLABLE GC_NOT_CANCELLED v in
      (if prev = GC_CANCELLABLE \<or> prev = GC_NOT_CANCELLED then Some prev else None, v))"

section \<open>Steps\<close>

datatype worker_pc = Outside | Working | Checked nat | Yields nat | Stopped nat | Restores nat | Quits | Fails

datatype control_pc = NoPause | WaitsStop | InPause | PauseFails

record SuspendState =
  su_set :: ThreadSet
  su_flag :: nat
  su_workers :: "worker_pc list"
  su_control :: control_pc
  su_cancels :: nat

definition put_worker :: "SuspendState \<Rightarrow> nat \<Rightarrow> worker_pc \<Rightarrow> SuspendState" where
  "put_worker s i p = s\<lparr>su_workers := (su_workers s)[i := p]\<rparr>"

text \<open>\<open>su_cancels\<close> counts the calls of \<open>try_cancel_gc\<close> that returned true. With \<open>weak\<close> an exchange may fail for no reason.\<close>

inductive suspend_step :: "bool \<Rightarrow> SuspendState \<Rightarrow> SuspendState \<Rightarrow> bool" for weak where
  join: "i < length (su_workers s) \<Longrightarrow> su_workers s ! i = Outside \<Longrightarrow> sts_join (su_set s) = Some t \<Longrightarrow>
    suspend_step weak s ((put_worker s i Working)\<lparr>su_set := t\<rparr>)"
| leave: "i < length (su_workers s) \<Longrightarrow> su_workers s ! i \<in> {Working, Quits} \<Longrightarrow> sts_leave (su_set s) = Inr t \<Longrightarrow>
    suspend_step weak s ((put_worker s i Outside)\<lparr>su_set := t\<rparr>)"
| leave_fails: "i < length (su_workers s) \<Longrightarrow> su_workers s ! i \<in> {Working, Quits} \<Longrightarrow> sts_leave (su_set s) = Inl e \<Longrightarrow>
    suspend_step weak s (put_worker s i Fails)"
| check: "i < length (su_workers s) \<Longrightarrow> su_workers s ! i = Working \<Longrightarrow> check_cancelled spurious (su_flag s) = (p, f) \<Longrightarrow>
    (spurious \<longrightarrow> weak) \<Longrightarrow>
    suspend_step weak s ((put_worker s i (case p of None \<Rightarrow> Quits | Some prev \<Rightarrow> Checked prev))\<lparr>su_flag := f\<rparr>)"
| should_yield: "i < length (su_workers s) \<Longrightarrow> su_workers s ! i = Checked prev \<Longrightarrow>
    suspend_step weak s (put_worker s i (if ts_suspend_all (su_set s) then Yields prev else Restores prev))"
| yield: "i < length (su_workers s) \<Longrightarrow> su_workers s ! i = Yields prev \<Longrightarrow> sts_yield (su_set s) = (w, t) \<Longrightarrow>
    suspend_step weak s ((put_worker s i (if w then Stopped prev else Restores prev))\<lparr>su_set := t\<rparr>)"
| resume: "i < length (su_workers s) \<Longrightarrow> su_workers s ! i = Stopped prev \<Longrightarrow> sts_resume (su_set s) = Some t \<Longrightarrow>
    suspend_step weak s ((put_worker s i (Restores prev))\<lparr>su_set := t\<rparr>)"
| restore: "i < length (su_workers s) \<Longrightarrow> su_workers s ! i = Restores prev \<Longrightarrow>
    suspend_step weak s ((put_worker s i Working)\<lparr>su_flag := if prev = GC_CANCELLABLE then GC_CANCELLABLE else su_flag s\<rparr>)"
| cancel: "try_cancel_gc spurious (su_flag s) = (r, f) \<Longrightarrow> (spurious \<longrightarrow> weak) \<Longrightarrow>
    suspend_step weak s (s\<lparr>su_flag := f, su_cancels := su_cancels s + (if r = Some True then 1 else 0)\<rparr>)"
| synchronize: "su_control s = NoPause \<Longrightarrow> sts_synchronize (su_set s) = (r, t) \<Longrightarrow>
    suspend_step weak s (s\<lparr>su_set := t, su_control := if r then InPause else WaitsStop\<rparr>)"
| stopped: "su_control s = WaitsStop \<Longrightarrow> sts_wait (su_set s) = Some t \<Longrightarrow>
    suspend_step weak s (s\<lparr>su_set := t, su_control := InPause\<rparr>)"
| desynchronize: "su_control s = InPause \<Longrightarrow> sts_desynchronize (su_set s) = Inr t \<Longrightarrow>
    suspend_step weak s (s\<lparr>su_set := t, su_control := NoPause\<rparr>)"
| desynchronize_fails: "su_control s = InPause \<Longrightarrow> sts_desynchronize (su_set s) = Inl e \<Longrightarrow>
    suspend_step weak s (s\<lparr>su_control := PauseFails\<rparr>)"

definition suspend_start :: "nat \<Rightarrow> SuspendState" where
  "suspend_start n = \<lparr>su_set = \<lparr>ts_suspend_all = False, ts_nthreads = 0, ts_stopped = 0, ts_wakeup = 0\<rparr>,
     su_flag = GC_CANCELLABLE, su_workers = replicate n Outside, su_control = NoPause, su_cancels = 0\<rparr>"

section \<open>Invariants\<close>

definition member :: "worker_pc \<Rightarrow> bool" where
  "member p \<longleftrightarrow> p \<noteq> Outside \<and> p \<noteq> Fails"

definition is_stopped :: "worker_pc \<Rightarrow> bool" where
  "is_stopped p \<longleftrightarrow> (\<exists>prev. p = Stopped prev)"

definition holds_flag :: "worker_pc \<Rightarrow> bool" where
  "holds_flag p \<longleftrightarrow> p \<in> {Checked GC_CANCELLABLE, Yields GC_CANCELLABLE, Stopped GC_CANCELLABLE, Restores GC_CANCELLABLE}"

definition set_inv :: "SuspendState \<Rightarrow> bool" where
  "set_inv s \<longleftrightarrow> length (su_workers s) < 2 ^ 64 \<and> Fails \<notin> set (su_workers s) \<and>
     ts_nthreads (su_set s) = tally member (su_workers s) \<and> ts_stopped (su_set s) = tally is_stopped (su_workers s) \<and>
     ((\<exists>prev. Yields prev \<in> set (su_workers s)) \<longrightarrow> ts_suspend_all (su_set s)) \<and>
     (case su_control s of
        NoPause \<Rightarrow> \<not> ts_suspend_all (su_set s) \<and> ts_wakeup (su_set s) = 0
      | WaitsStop \<Rightarrow> ts_suspend_all (su_set s) \<and> ts_wakeup (su_set s) = of_bool (is_synchronized (su_set s))
      | InPause \<Rightarrow> ts_suspend_all (su_set s) \<and> ts_wakeup (su_set s) = 0 \<and> is_synchronized (su_set s)
      | PauseFails \<Rightarrow> False)"

definition flag_inv :: "SuspendState \<Rightarrow> bool" where
  "flag_inv s \<longleftrightarrow> su_flag s \<in> {GC_CANCELLABLE, GC_CANCELLED, GC_NOT_CANCELLED} \<and>
     tally holds_flag (su_workers s) = of_bool (su_flag s = GC_NOT_CANCELLED) \<and>
     (0 < su_cancels s \<longrightarrow> su_flag s = GC_CANCELLED)"

lemmas pc_defs = member_def is_stopped_def holds_flag_def

lemma member_simps [simp]:
  "\<not> member Outside" "\<not> member Fails" "member Working" "member Quits" "member (Checked f)" "member (Yields f)" "member (Stopped f)" "member (Restores f)"
  by (simp_all add: member_def)

lemma is_stopped_simps [simp]:
  "is_stopped (Stopped f)" "\<not> is_stopped Outside" "\<not> is_stopped Working" "\<not> is_stopped Quits" "\<not> is_stopped (Checked f)"
  "\<not> is_stopped (Yields f)" "\<not> is_stopped (Restores f)"
  by (simp_all add: is_stopped_def)

lemma holds_flag_simps [simp]:
  "\<not> holds_flag Outside" "\<not> holds_flag Working" "\<not> holds_flag Quits" "\<not> holds_flag Fails"
  "holds_flag (Checked f) \<longleftrightarrow> f = GC_CANCELLABLE" "holds_flag (Yields f) \<longleftrightarrow> f = GC_CANCELLABLE"
  "holds_flag (Stopped f) \<longleftrightarrow> f = GC_CANCELLABLE" "holds_flag (Restores f) \<longleftrightarrow> f = GC_CANCELLABLE"
  by (auto simp: holds_flag_def)

lemma stopped_member: "is_stopped p \<Longrightarrow> member p"
  by (auto simp: is_stopped_def)

lemma running_member:
  assumes "set_inv s" "p \<in> set (su_workers s)" "member p" "\<not> is_stopped p"
  shows "ts_stopped (su_set s) < ts_nthreads (su_set s)" "su_control s \<noteq> InPause" "\<not> is_synchronized (su_set s)"
proof -
  show "ts_stopped (su_set s) < ts_nthreads (su_set s)"
    using tally_less [of is_stopped member p "su_workers s"] stopped_member assms by (simp add: set_inv_def)
  then show "su_control s \<noteq> InPause" "\<not> is_synchronized (su_set s)" using assms(1) by (auto simp: set_inv_def is_synchronized_def)
qed

text \<open>What a step of worker \<open>i\<close> has to show.\<close>

lemma set_inv_put:
  assumes inv: "set_inv s" and i: "i < length (su_workers s)"
    and n: "ts_nthreads t + of_bool (member (su_workers s ! i)) = ts_nthreads (su_set s) + of_bool (member q)"
    and k: "ts_stopped t + of_bool (is_stopped (su_workers s ! i)) = ts_stopped (su_set s) + of_bool (is_stopped q)"
    and q: "q \<noteq> Fails" and y: "\<And>prev. q = Yields prev \<Longrightarrow> ts_suspend_all t" and su: "ts_suspend_all t = ts_suspend_all (su_set s)"
    and c: "(case su_control s of NoPause \<Rightarrow> ts_wakeup t = 0 | WaitsStop \<Rightarrow> ts_wakeup t = of_bool (is_synchronized t)
      | InPause \<Rightarrow> ts_wakeup t = 0 \<and> is_synchronized t | PauseFails \<Rightarrow> False)"
    and s': "su_set s' = t" "su_workers s' = (su_workers s)[i := q]" "su_control s' = su_control s"
  shows "set_inv s'"
proof -
  have "set (su_workers s') \<subseteq> insert q (set (su_workers s))" unfolding s' by (rule set_update_subset_insert)
  moreover have "ts_nthreads t = tally member (su_workers s')" "ts_stopped t = tally is_stopped (su_workers s')"
    using inv n k tally_update [OF i, of member q] tally_update [OF i, of is_stopped q] unfolding s' set_inv_def by linarith+
  ultimately show ?thesis using inv q y su c s' unfolding set_inv_def by (auto split: control_pc.splits)
qed

lemma set_inv_step:
  assumes "suspend_step weak s s'" "set_inv s"
  shows "set_inv s'"
  using assms
proof (induction rule: suspend_step.induct)
  case (join i s t)
  have l: "tally member ((su_workers s)[i := Working]) < 2 ^ 64" "tally member ((su_workers s)[i := Working]) = Suc (ts_nthreads (su_set s))"
    using join tally_length [of member "(su_workers s)[i := Working]"] tally_update [OF join.hyps(1), of member Working] by (simp_all add: set_inv_def)
  show ?case
    by (rule set_inv_put [where t = t, OF join.prems join.hyps(1)])
      (use join l in \<open>auto simp: sts_join_def put_worker_def set_inv_def wrap64_def split: if_splits control_pc.splits\<close>)
next
  case (leave i s t)
  note r = running_member [OF leave.prems nth_mem [OF leave.hyps(1)]]
  show ?case
    by (rule set_inv_put [where t = t, OF leave.prems leave.hyps(1)])
      (use leave r in \<open>auto simp: sts_leave_def sts_signal_def put_worker_def set_inv_def is_synchronized_def split: if_splits control_pc.splits\<close>)
next
  case (leave_fails i s e)
  note r = running_member [OF leave_fails.prems nth_mem [OF leave_fails.hyps(1)]]
  then show ?case using leave_fails by (auto simp: sts_leave_def split: if_splits)
next
  case (check i s spurious p f)
  then show ?case
    by (intro set_inv_put [where t = "su_set s", OF check.prems check.hyps(1)])
      (auto simp: put_worker_def set_inv_def split: option.splits control_pc.splits)
next
  case (should_yield i s prev)
  then show ?case
    by (intro set_inv_put [where t = "su_set s", OF should_yield.prems should_yield.hyps(1)])
      (auto simp: put_worker_def set_inv_def split: if_splits control_pc.splits)
next
  case (yield i s prev w t)
  note r = running_member [OF yield.prems nth_mem [OF yield.hyps(1)]]
  have su: "ts_suspend_all (su_set s)" using yield nth_mem [OF yield.hyps(1)] by (auto simp: set_inv_def)
  have "ts_stopped (su_set s) < ts_nthreads (su_set s)" using r(1) yield.hyps by simp
  then have l: "tally is_stopped (su_workers s) < 2 ^ 64 - 1"
    using yield.prems tally_length [of member "su_workers s"] by (simp add: set_inv_def)
  show ?case
    by (rule set_inv_put [where t = t, OF yield.prems yield.hyps(1)])
      (use yield r su l in \<open>auto simp: sts_yield_def sts_resume_def sts_signal_def wrap64_def put_worker_def set_inv_def is_synchronized_def Let_def split: if_splits control_pc.splits\<close>)
next
  case (resume i s prev t)
  have "0 < tally is_stopped (su_workers s)" using tally_pos [OF resume.hyps(1), of is_stopped] resume.hyps by simp
  then show ?case
    by (intro set_inv_put [where t = t, OF resume.prems resume.hyps(1)])
      (use resume in \<open>auto simp: sts_resume_def put_worker_def set_inv_def split: if_splits control_pc.splits\<close>)
next
  case (restore i s prev)
  then show ?case
    by (intro set_inv_put [where t = "su_set s", OF restore.prems restore.hyps(1)])
      (auto simp: put_worker_def set_inv_def split: control_pc.splits)
next
  case (cancel spurious s r f)
  then show ?case by (simp add: set_inv_def split: control_pc.splits)
next
  case (synchronize s r t)
  then show ?case by (auto simp: set_inv_def sts_synchronize_def Let_def is_synchronized_def)
next
  case (stopped s t)
  then show ?case by (auto simp: set_inv_def sts_wait_def is_synchronized_def split: if_splits)
next
  case (desynchronize s t)
  then show ?case using running_member(3) [OF desynchronize.prems, of "Yields p" for p]
    by (auto simp: set_inv_def sts_desynchronize_def is_synchronized_def split: if_splits)
next
  case (desynchronize_fails s e)
  then show ?case by (auto simp: set_inv_def sts_desynchronize_def split: if_splits)
qed

lemma flag_distinct [simp]:
  "GC_CANCELLABLE \<noteq> GC_CANCELLED" "GC_CANCELLABLE \<noteq> GC_NOT_CANCELLED" "GC_CANCELLED \<noteq> GC_NOT_CANCELLED"
  "GC_CANCELLED \<noteq> GC_CANCELLABLE" "GC_NOT_CANCELLED \<noteq> GC_CANCELLABLE" "GC_NOT_CANCELLED \<noteq> GC_CANCELLED"
  by (simp_all add: GC_CANCELLABLE_def GC_CANCELLED_def GC_NOT_CANCELLED_def)

text \<open>A step of worker \<open>i\<close> that neither takes nor gives back the flag.\<close>

lemma flag_inv_put:
  assumes "flag_inv s" "i < length (su_workers s)" "holds_flag q \<longleftrightarrow> holds_flag (su_workers s ! i)"
    "su_flag s' = su_flag s" "su_workers s' = (su_workers s)[i := q]" "su_cancels s' = su_cancels s"
  shows "flag_inv s'"
  using assms tally_update [of i "su_workers s" holds_flag q] by (simp add: flag_inv_def)

lemma flag_inv_step:
  assumes "suspend_step False s s'" "flag_inv s"
  shows "flag_inv s'"
  using assms
proof (induction rule: suspend_step.induct)
  case (join i s t)
  show ?case by (rule flag_inv_put [of s i Working]) (use join in \<open>simp_all add: put_worker_def\<close>)
next
  case (leave i s t)
  show ?case by (rule flag_inv_put [of s i Outside]) (use leave in \<open>auto simp: put_worker_def\<close>)
next
  case (leave_fails i s e)
  show ?case by (rule flag_inv_put [of s i Fails]) (use leave_fails in \<open>auto simp: put_worker_def\<close>)
next
  case (check i s spurious p f)
  then have sp: "\<not> spurious" by simp
  show ?case
  proof (cases "su_flag s = GC_CANCELLABLE")
    case True
    then show ?thesis using check sp tally_update [OF check.hyps(1), of holds_flag "Checked GC_CANCELLABLE"]
      by (auto simp: flag_inv_def check_cancelled_def flag_cmpxchg_def put_worker_def)
  next
    case False
    show ?thesis
      by (rule flag_inv_put [of s i "case p of None \<Rightarrow> Quits | Some prev \<Rightarrow> Checked prev"])
        (use check sp False in \<open>auto simp: check_cancelled_def flag_cmpxchg_def put_worker_def split: if_splits\<close>)
  qed
next
  case (should_yield i s prev)
  show ?case by (rule flag_inv_put [of s i "if ts_suspend_all (su_set s) then Yields prev else Restores prev"]) (use should_yield in \<open>simp_all add: put_worker_def\<close>)
next
  case (yield i s prev w t)
  show ?case by (rule flag_inv_put [of s i "if w then Stopped prev else Restores prev"]) (use yield in \<open>simp_all add: put_worker_def\<close>)
next
  case (resume i s prev t)
  show ?case by (rule flag_inv_put [of s i "Restores prev"]) (use resume in \<open>simp_all add: put_worker_def\<close>)
next
  case (restore i s prev)
  show ?case
  proof (cases "prev = GC_CANCELLABLE")
    case True
    have "0 < tally holds_flag (su_workers s)" using tally_pos [OF restore.hyps(1), of holds_flag] restore.hyps True by simp
    then have "su_flag s = GC_NOT_CANCELLED" using restore.prems by (auto simp: flag_inv_def of_bool_def split: if_splits)
    then show ?thesis using restore True tally_update [OF restore.hyps(1), of holds_flag Working] by (simp add: flag_inv_def put_worker_def)
  next
    case False
    show ?thesis by (rule flag_inv_put [of s i Working]) (use restore False in \<open>simp_all add: put_worker_def\<close>)
  qed
next
  case (cancel spurious s r f)
  then show ?case by (auto simp: flag_inv_def try_cancel_gc_def flag_cmpxchg_def split: if_splits)
qed (simp_all add: flag_inv_def)

lemma suspend_start_inv: "n < 2 ^ 64 \<Longrightarrow> set_inv (suspend_start n)" "flag_inv (suspend_start n)"
  by (auto simp: suspend_start_def set_inv_def flag_inv_def is_stopped_def)

lemma suspend_reachable:
  assumes "(suspend_step weak)\<^sup>*\<^sup>* (suspend_start n) s" "n < 2 ^ 64"
  shows "set_inv s" "\<not> weak \<Longrightarrow> flag_inv s" "length (su_workers s) = n"
proof -
  show "set_inv s" using assms(1) by (induction rule: rtranclp_induct) (auto intro: set_inv_step suspend_start_inv(1) [OF assms(2)])
  show "flag_inv s" if "\<not> weak" using assms(1) by (induction rule: rtranclp_induct) (use that flag_inv_step suspend_start_inv(2) in auto)
  show "length (su_workers s) = n" using assms(1)
  proof (induction rule: rtranclp_induct)
    case (step t u)
    have "length (su_workers u) = length (su_workers t)" using step.hyps(2) by (cases rule: suspend_step.cases) (simp_all add: put_worker_def)
    then show ?case using step.IH by simp
  qed (simp add: suspend_start_def)
qed

section \<open>Progress of a pause\<close>

text \<open>While the controller waits, each step of a worker brings it nearer to stopping or leaving.\<close>

fun steps_to_stop :: "worker_pc \<Rightarrow> nat" where
  "steps_to_stop (Restores f) = 4"
| "steps_to_stop Working = 3"
| "steps_to_stop (Checked f) = 2"
| "steps_to_stop (Yields f) = 1"
| "steps_to_stop Quits = 1"
| "steps_to_stop _ = 0"

definition pause_distance :: "SuspendState \<Rightarrow> nat" where
  "pause_distance s = sum_list (map steps_to_stop (su_workers s))"

definition worker_step :: "bool \<Rightarrow> SuspendState \<Rightarrow> SuspendState \<Rightarrow> bool" where
  "worker_step weak s s' \<longleftrightarrow> suspend_step weak s s' \<and> su_workers s' \<noteq> su_workers s"

lemma distance_put:
  assumes "i < length (su_workers s)" "steps_to_stop q < steps_to_stop (su_workers s ! i)" "su_workers s' = (su_workers s)[i := q]"
  shows "pause_distance s' < pause_distance s"
  using assms sum_list_update_nat [of i "map steps_to_stop (su_workers s)" "steps_to_stop q"] by (simp add: pause_distance_def map_update)

lemma distance_le: "pause_distance s \<le> 4 * length (su_workers s)"
proof -
  have "sum_list (map steps_to_stop xs) \<le> 4 * length xs" for xs
  proof (induction xs)
    case (Cons x xs)
    then show ?case by (cases x) simp_all
  qed simp
  then show ?thesis by (simp add: pause_distance_def)
qed

lemma worker_step_distance:
  assumes "worker_step weak s s'" "set_inv s" "su_control s = WaitsStop"
  shows "pause_distance s' < pause_distance s" "su_control s' = WaitsStop" "set_inv s'"
proof -
  have su: "ts_suspend_all (su_set s)" using assms(2,3) by (simp add: set_inv_def)
  have st: "suspend_step weak s s'" "su_workers s' \<noteq> su_workers s" using assms(1) by (simp_all add: worker_step_def)
  show "set_inv s'" by (rule set_inv_step [OF st(1) assms(2)])
  from st show "pause_distance s' < pause_distance s"
  proof (cases rule: suspend_step.cases)
    case (leave i t)
    then show ?thesis by (intro distance_put [of i s Outside]) (auto simp: put_worker_def)
  next
    case (leave_fails i e)
    then show ?thesis by (intro distance_put [of i s Fails]) (auto simp: put_worker_def)
  next
    case (check i spurious p f)
    then show ?thesis by (intro distance_put [of i s "case p of None \<Rightarrow> Quits | Some prev \<Rightarrow> Checked prev"])
      (auto simp: put_worker_def split: option.splits)
  next
    case (should_yield i prev)
    then show ?thesis using su by (intro distance_put [of i s "Yields prev"]) (simp_all add: put_worker_def)
  next
    case (yield i prev w t)
    then show ?thesis using su by (intro distance_put [of i s "Stopped prev"])
      (simp_all add: put_worker_def sts_yield_def sts_resume_def sts_signal_def Let_def split: if_splits)
  next
    case (restore i prev)
    then show ?thesis by (intro distance_put [of i s Working]) (simp_all add: put_worker_def)
  qed (use su in \<open>simp_all add: sts_join_def sts_resume_def\<close>)
  from st show "su_control s' = WaitsStop" using assms(3) by (cases rule: suspend_step.cases) (simp_all add: put_worker_def)
qed

lemma worker_steps_bound:
  assumes "(worker_step weak ^^ k) s s'" "set_inv s" "su_control s = WaitsStop"
  shows "k + pause_distance s' \<le> pause_distance s"
  using assms
proof (induction k arbitrary: s)
  case (Suc k)
  obtain t where t: "worker_step weak s t" "(worker_step weak ^^ k) t s'" using Suc.prems(1) by (metis relpowp_Suc_E2)
  note w = worker_step_distance [OF t(1) Suc.prems(2,3)]
  show ?case using Suc.IH [OF t(2) w(3,2)] w(1) by linarith
qed simp

text \<open>A member that has not stopped can always take a step.\<close>

lemma worker_can_step:
  assumes inv: "set_inv s" and c: "su_control s = WaitsStop" and i: "i < length (su_workers s)"
    and m: "member (su_workers s ! i)" "\<not> is_stopped (su_workers s ! i)"
  shows "\<exists>s'. worker_step weak s s'"
proof -
  have ch: "worker_step weak s s'" if "suspend_step weak s s'" "su_workers s' = (su_workers s)[i := q]" "q \<noteq> su_workers s ! i" for s' q
    using that i by (auto simp: worker_step_def) (metis nth_list_update_eq)
  have n: "0 < ts_nthreads (su_set s)" using running_member(1) [OF inv nth_mem [OF i] m] by simp
  then obtain t where t: "sts_leave (su_set s) = Inr t" by (simp add: sts_leave_def)
  obtain w u where y: "sts_yield (su_set s) = (w, u)" by (cases "sts_yield (su_set s)")
  consider "su_workers s ! i \<in> {Working, Quits}" | prev where "su_workers s ! i = Checked prev" | prev where "su_workers s ! i = Yields prev"
    | prev where "su_workers s ! i = Restores prev" using m by (cases "su_workers s ! i") auto
  then show ?thesis
  proof cases
    case 1
    show ?thesis by (rule exI, rule ch [OF suspend_step.leave [OF i 1 t]]) (use 1 in \<open>auto simp: put_worker_def\<close>)
  next
    case 2
    show ?thesis by (rule exI, rule ch [OF suspend_step.should_yield [OF i 2]]) (use 2 in \<open>auto simp: put_worker_def split: if_splits\<close>)
  next
    case 3
    show ?thesis by (rule exI, rule ch [OF suspend_step.yield [OF i 3 y]]) (use 3 in \<open>auto simp: put_worker_def split: if_splits\<close>)
  next
    case 4
    show ?thesis by (rule exI, rule ch [OF suspend_step.restore [OF i 4]]) (use 4 in \<open>auto simp: put_worker_def\<close>)
  qed
qed

section \<open>Properties\<close>

text \<open>C9. Stopping the workers is safe under every interleaving: no assertion of the thread set fails, the counters never
  wrap and count the workers in the set and the stopped ones, and from the return of \<open>synchronize\<close> to
  \<open>desynchronize\<close> every worker is stopped in \<open>yield_\<close> or outside the set. (\<open>yield_\<close> lowers its counter also when
  no suspension is pending; the invariant shows that its caller never gets there in that case.)\<close>

theorem pause_stops_workers:
  assumes "(suspend_step weak)\<^sup>*\<^sup>* (suspend_start n) s" "n < 2 ^ 64"
  shows "Fails \<notin> set (su_workers s) \<and> su_control s \<noteq> PauseFails \<and>
    ts_nthreads (su_set s) = tally member (su_workers s) \<and> ts_stopped (su_set s) = tally is_stopped (su_workers s) \<and>
    (su_control s = InPause \<longrightarrow> (\<forall>p \<in> set (su_workers s). p = Outside \<or> is_stopped p))"
proof -
  note inv = suspend_reachable(1) [OF assms]
  have "p = Outside \<or> is_stopped p" if "su_control s = InPause" "p \<in> set (su_workers s)" for p
    using running_member(2) [OF inv that(2)] that inv by (auto simp: member_def set_inv_def)
  then show ?thesis using inv by (auto simp: set_inv_def)
qed

text \<open>C10. A pause is always reached: while \<open>synchronize\<close> waits, the workers can take at most four steps each before all
  of them have stopped or left; as long as one has not, it can take a step (no worker waits for another), and when all
  have, the semaphore has been signalled, so that the wait returns (no wake-up is lost).\<close>

theorem pause_is_reached:
  assumes "(suspend_step weak)\<^sup>*\<^sup>* (suspend_start n) s" "n < 2 ^ 64" "su_control s = WaitsStop"
  shows "(\<forall>k s'. (worker_step weak ^^ k) s s' \<longrightarrow> k \<le> 4 * n \<and> su_control s' = WaitsStop) \<and>
    ((\<exists>t. sts_wait (su_set s) = Some t \<and> is_synchronized t) \<or> (\<exists>s'. worker_step weak s s'))"
proof -
  note inv = suspend_reachable [OF assms(1,2)]
  have "k \<le> 4 * n \<and> su_control s' = WaitsStop" if "(worker_step weak ^^ k) s s'" for k s'
  proof
    show "k \<le> 4 * n" using worker_steps_bound [OF that inv(1) assms(3)] distance_le [of s] inv(3) by simp
    show "su_control s' = WaitsStop" using that inv(1) assms(3)
    proof (induction k arbitrary: s)
      case (Suc k)
      then show ?case by (metis relpowp_Suc_E2 worker_step_distance(2,3))
    qed simp
  qed
  moreover have "(\<exists>t. sts_wait (su_set s) = Some t \<and> is_synchronized t) \<or> (\<exists>s'. worker_step weak s s')"
  proof (cases "is_synchronized (su_set s)")
    case True
    then have "ts_wakeup (su_set s) = 1" using inv(1) assms(3) by (simp add: set_inv_def)
    then show ?thesis using True by (simp add: sts_wait_def is_synchronized_def)
  next
    case False
    then have "tally is_stopped (su_workers s) \<noteq> tally member (su_workers s)" using inv(1) by (auto simp: set_inv_def is_synchronized_def)
    then have "\<exists>p \<in> set (su_workers s). member p \<noteq> is_stopped p"
      by (metis (mono_tags, lifting) filter_cong tally_def)
    then obtain i where "i < length (su_workers s)" "member (su_workers s ! i)" "\<not> is_stopped (su_workers s ! i)"
      using stopped_member by (metis in_set_conv_nth)
    then show ?thesis using worker_can_step [OF inv(1) assms(3)] by blast
  qed
  ultimately show ?thesis by blast
qed

text \<open>One worker joins, the controller asks for a pause, the worker stops and the pause begins.\<close>

definition pause_state :: "worker_pc \<Rightarrow> nat \<Rightarrow> bool \<Rightarrow> nat \<Rightarrow> nat \<Rightarrow> control_pc \<Rightarrow> SuspendState" where
  "pause_state p f su k w c = \<lparr>su_set = \<lparr>ts_suspend_all = su, ts_nthreads = 1, ts_stopped = k, ts_wakeup = w\<rparr>, su_flag = f,
     su_workers = [p], su_control = c, su_cancels = 0\<rparr>"

lemma pause_example:
  shows "(suspend_step weak)\<^sup>*\<^sup>* (suspend_start 1) (pause_state Working GC_CANCELLABLE True 0 0 WaitsStop)"
    "(suspend_step weak)\<^sup>*\<^sup>* (suspend_start 1) (pause_state (Stopped GC_CANCELLABLE) GC_NOT_CANCELLED True 1 0 InPause)"
proof -
  let ?s1 = "pause_state Working GC_CANCELLABLE False 0 0 NoPause" and ?s2 = "pause_state Working GC_CANCELLABLE True 0 0 WaitsStop"
  let ?s3 = "pause_state (Checked GC_CANCELLABLE) GC_NOT_CANCELLED True 0 0 WaitsStop"
  let ?s4 = "pause_state (Yields GC_CANCELLABLE) GC_NOT_CANCELLED True 0 0 WaitsStop"
  let ?s5 = "pause_state (Stopped GC_CANCELLABLE) GC_NOT_CANCELLED True 1 1 WaitsStop"
  let ?s6 = "pause_state (Stopped GC_CANCELLABLE) GC_NOT_CANCELLED True 1 0 InPause"
  note d = pause_state_def put_worker_def
  have 1: "suspend_step weak (suspend_start 1) ?s1"
    using suspend_step.join [of 0 "suspend_start 1" "su_set ?s1" weak] by (simp add: d suspend_start_def sts_join_def wrap64_def)
  have 2: "suspend_step weak ?s1 ?s2"
    using suspend_step.synchronize [of ?s1 False "su_set ?s2" weak] by (simp add: d sts_synchronize_def Let_def is_synchronized_def)
  have 3: "suspend_step weak ?s2 ?s3"
    using suspend_step.check [of 0 ?s2 False "Some GC_CANCELLABLE" GC_NOT_CANCELLED weak] by (simp add: d check_cancelled_def flag_cmpxchg_def)
  have 4: "suspend_step weak ?s3 ?s4"
    using suspend_step.should_yield [of 0 ?s3 GC_CANCELLABLE weak] by (simp add: d)
  have 5: "suspend_step weak ?s4 ?s5"
    using suspend_step.yield [of 0 ?s4 GC_CANCELLABLE True "su_set ?s5" weak]
    by (simp add: d sts_yield_def sts_resume_def sts_signal_def is_synchronized_def wrap64_def)
  have 6: "suspend_step weak ?s5 ?s6"
    using suspend_step.stopped [of ?s5 "su_set ?s6" weak] by (simp add: d sts_wait_def)
  show "(suspend_step weak)\<^sup>*\<^sup>* (suspend_start 1) ?s2" using 1 2 by auto
  then show "(suspend_step weak)\<^sup>*\<^sup>* (suspend_start 1) ?s6"
    using 3 4 5 6 by (meson rtranclp.rtrancl_into_rtrancl)
qed

theorem pause_is_reached_witness:
  "\<exists>s'. worker_step False (pause_state Working GC_CANCELLABLE True 0 0 WaitsStop) s'"
proof -
  have "sts_wait (su_set (pause_state Working GC_CANCELLABLE True 0 0 WaitsStop)) = None" by (simp add: sts_wait_def pause_state_def)
  then show ?thesis using pause_is_reached [OF pause_example(1) [of False]] by (simp add: pause_state_def)
qed

theorem pause_stops_workers_witness:
  "(suspend_step False)\<^sup>*\<^sup>* (suspend_start 1) (pause_state (Stopped GC_CANCELLABLE) GC_NOT_CANCELLED True 1 0 InPause) \<and>
    ts_stopped (su_set (pause_state (Stopped GC_CANCELLABLE) GC_NOT_CANCELLED True 1 0 InPause)) = tally is_stopped [Stopped GC_CANCELLABLE]"
  using pause_stops_workers [OF pause_example(2) [of False]] pause_example(2) [of False] by (simp add: pause_state_def)

text \<open>C11. With an exchange that fails only when the value differs, a cancellation sticks: once a call of \<open>try_cancel_gc\<close> has
  returned true, the cycle is cancelled in every later state of the concurrent phase; a worker that polls at the same
  time never overwrites it, and at most one worker holds the flag. The exchange of the code is weak, and its failure for
  no reason is not told apart from success: then a call can return true although nothing is cancelled.\<close>

theorem cancellation_sticks:
  "((suspend_step False)\<^sup>*\<^sup>* (suspend_start n) s \<longrightarrow> n < 2 ^ 64 \<longrightarrow>
      tally holds_flag (su_workers s) \<le> 1 \<and> (0 < su_cancels s \<longrightarrow> su_flag s = GC_CANCELLED)) \<and>
    (\<exists>s. (suspend_step True)\<^sup>*\<^sup>* (suspend_start n) s \<and> 0 < su_cancels s \<and> su_flag s = GC_CANCELLABLE)"
proof
  show "(suspend_step False)\<^sup>*\<^sup>* (suspend_start n) s \<longrightarrow> n < 2 ^ 64 \<longrightarrow>
      tally holds_flag (su_workers s) \<le> 1 \<and> (0 < su_cancels s \<longrightarrow> su_flag s = GC_CANCELLED)"
    using suspend_reachable(2) [of False n s] by (auto simp: flag_inv_def)
  have f: "try_cancel_gc True (su_flag (suspend_start n)) = (Some True, GC_CANCELLABLE)"
    by (simp add: try_cancel_gc_def flag_cmpxchg_def suspend_start_def)
  have "suspend_step True (suspend_start n) ((suspend_start n)\<lparr>su_flag := GC_CANCELLABLE, su_cancels := 1\<rparr>)"
    using suspend_step.cancel [OF f, of True] by (simp add: suspend_start_def)
  then show "\<exists>s. (suspend_step True)\<^sup>*\<^sup>* (suspend_start n) s \<and> 0 < su_cancels s \<and> su_flag s = GC_CANCELLABLE"
    by (intro exI [of _ "(suspend_start n)\<lparr>su_flag := GC_CANCELLABLE, su_cancels := 1\<rparr>"]) auto
qed

text \<open>A cancellation with one worker in the set.\<close>

theorem cancellation_sticks_witness:
  "\<exists>s. (suspend_step False)\<^sup>*\<^sup>* (suspend_start 1) s \<and> 0 < su_cancels s \<and> su_flag s = GC_CANCELLED"
proof -
  let ?s = "(suspend_start 1)\<lparr>su_flag := GC_CANCELLED, su_cancels := 1\<rparr>"
  have f: "try_cancel_gc False (su_flag (suspend_start 1)) = (Some True, GC_CANCELLED)"
    by (simp add: try_cancel_gc_def flag_cmpxchg_def suspend_start_def)
  have "suspend_step False (suspend_start 1) ?s" using suspend_step.cancel [OF f, of False] by (simp add: suspend_start_def)
  then have "(suspend_step False)\<^sup>*\<^sup>* (suspend_start 1) ?s" by auto
  then show ?thesis using cancellation_sticks [of 1 ?s] by (intro exI [of _ ?s]) simp
qed

end
