(* ===== verification/Safepoint.thy ===== *)
theory Safepoint
  imports Suspend
begin

text \<open>
  How the collector stops the mutators: the safepoint page and \<open>GC_RUNNING\<close> of \<open>heap/safepoint.rs\<close>, the state word
  of a thread and its polls (\<open>heap/thread.rs\<close>), and the fault handler of \<open>heap/signals/unix.rs\<close>. Threads register
  and leave, poll, and run outside the collector's control in safepoint scopes, while the collector begins and ends
  pauses; each atomic access is a step of its own. Both ways of polling are modelled: by default an armed page faults
  and the load is executed again after the handler; with the feature \<open>conditional-safepoint\<close> the value is tested once.
\<close>

section \<open>State\<close>

definition GC_STATE_WAITING :: nat where "GC_STATE_WAITING = 1"
definition GC_STATE_SAFE :: nat where "GC_STATE_SAFE = 2"

text \<open>Where a thread is: running managed code; about to load from the page; in \<open>set_gc_and_wait\<close> before, in and after
  \<open>wait_gc\<close>, with the state it saved; in a safepoint scope.\<close>

datatype mutator_pc = Mutating | Polls | Traps | WaitsGC nat | WokenUp nat | InScope

record MutatorThread =
  mt_gc_state :: nat
  mt_pc :: mutator_pc

text \<open>The collector: before a pause, waiting for thread \<open>k\<close>, in the pause, and in the steps of \<open>end\<close>.\<close>

datatype pause_pc = Idle | Waits nat | Paused | Unlocked | Disarmed | BeginFails

record SafepointState =
  sp_enable_cnt :: nat
  sp_armed :: bool
  sp_gc_running :: bool
  sp_threads :: "MutatorThread list"
  sp_control :: pause_pc

section \<open>Operations\<close>

definition sp_enable :: "SafepointState \<Rightarrow> SafepointState" where
  "sp_enable s =
     (let old = sp_enable_cnt s; s = s\<lparr>sp_enable_cnt := (old + 1) mod 2 ^ 8\<rparr> in
      if old \<noteq> 0 then s else s\<lparr>sp_armed := True\<rparr>)"

definition sp_disable :: "SafepointState \<Rightarrow> SafepointState res" where
  "sp_disable s =
     (let old = sp_enable_cnt s; s = s\<lparr>sp_enable_cnt := (old + 255) mod 2 ^ 8\<rparr> in
      rbind (checked_sub old 1) (\<lambda>d. Inr (if d \<noteq> 0 then s else s\<lparr>sp_armed := False\<rparr>)))"

text \<open>\<open>enter\<close>: whether this call starts the pause.\<close>

definition sp_enter :: "SafepointState \<Rightarrow> bool \<times> SafepointState" where
  "sp_enter s = (if sp_gc_running s then (False, s) else (True, sp_enable (s\<lparr>sp_gc_running := True\<rparr>)))"

definition put_thread :: "SafepointState \<Rightarrow> nat \<Rightarrow> MutatorThread \<Rightarrow> SafepointState" where
  "put_thread s i th = s\<lparr>sp_threads := (sp_threads s)[i := th]\<rparr>"

text \<open>The load of a poll: an armed page leads to \<open>enter_safepoint\<close>.\<close>

definition poll_page :: "bool \<Rightarrow> MutatorThread \<Rightarrow> MutatorThread" where
  "poll_page armed th = th\<lparr>mt_pc := if armed then Traps else Mutating\<rparr>"

text \<open>\<open>set_gc_and_wait\<close>: the saved state is restored after the wait; then the faulting load is executed again, or, with
  conditional polls, the thread goes on.\<close>

definition set_gc_waiting :: "MutatorThread \<Rightarrow> MutatorThread" where
  "set_gc_waiting th = \<lparr>mt_gc_state = GC_STATE_WAITING, mt_pc = WaitsGC (mt_gc_state th)\<rparr>"

definition restore_gc_state :: "bool \<Rightarrow> nat \<Rightarrow> MutatorThread \<Rightarrow> MutatorThread" where
  "restore_gc_state conditional st th = \<lparr>mt_gc_state = st, mt_pc = if conditional then Mutating else Polls\<rparr>"

text \<open>\<open>gc_state_set\<close>: a thread that comes back to managed code polls.\<close>

definition gc_state_set :: "nat \<Rightarrow> nat \<Rightarrow> mutator_pc \<Rightarrow> MutatorThread \<Rightarrow> MutatorThread" where
  "gc_state_set st old pc th = \<lparr>mt_gc_state = st, mt_pc = if old \<noteq> 0 \<and> st = 0 then Polls else pc\<rparr>"

definition threads_locked :: "pause_pc \<Rightarrow> bool" where
  "threads_locked c \<longleftrightarrow> (\<exists>k. c = Waits k) \<or> c = Paused"

text \<open>A thread that registers is added to the list and polls; it leaves the list inside a safepoint scope. Both take the lock
  of the list, which the collector holds from \<open>begin\<close> to \<open>end\<close>.\<close>

definition register_thread :: "SafepointState \<Rightarrow> SafepointState" where
  "register_thread s = s\<lparr>sp_threads := sp_threads s @ [\<lparr>mt_gc_state = 0, mt_pc = Polls\<rparr>]\<rparr>"

definition remove_thread :: "nat \<Rightarrow> SafepointState \<Rightarrow> SafepointState" where
  "remove_thread i s = s\<lparr>sp_threads := take i (sp_threads s) @ drop (Suc i) (sp_threads s)\<rparr>"

inductive safepoint_step :: "bool \<Rightarrow> SafepointState \<Rightarrow> SafepointState \<Rightarrow> bool" for conditional where
  register: "\<not> threads_locked (sp_control s) \<Longrightarrow>
    safepoint_step conditional s (register_thread s)"
| remove: "\<not> threads_locked (sp_control s) \<Longrightarrow> i < length (sp_threads s) \<Longrightarrow> mt_pc (sp_threads s ! i) = InScope \<Longrightarrow>
    safepoint_step conditional s (remove_thread i s)"
| poll: "i < length (sp_threads s) \<Longrightarrow> mt_pc (sp_threads s ! i) = Mutating \<Longrightarrow>
    safepoint_step conditional s (put_thread s i ((sp_threads s ! i)\<lparr>mt_pc := Polls\<rparr>))"
| load: "i < length (sp_threads s) \<Longrightarrow> mt_pc (sp_threads s ! i) = Polls \<Longrightarrow>
    safepoint_step conditional s (put_thread s i (poll_page (sp_armed s) (sp_threads s ! i)))"
| trap: "i < length (sp_threads s) \<Longrightarrow> mt_pc (sp_threads s ! i) = Traps \<Longrightarrow>
    safepoint_step conditional s (put_thread s i (set_gc_waiting (sp_threads s ! i)))"
| wait_gc: "i < length (sp_threads s) \<Longrightarrow> mt_pc (sp_threads s ! i) = WaitsGC st \<Longrightarrow> \<not> sp_gc_running s \<Longrightarrow>
    safepoint_step conditional s (put_thread s i ((sp_threads s ! i)\<lparr>mt_pc := WokenUp st\<rparr>))"
| restore: "i < length (sp_threads s) \<Longrightarrow> mt_pc (sp_threads s ! i) = WokenUp st \<Longrightarrow>
    safepoint_step conditional s (put_thread s i (restore_gc_state conditional st (sp_threads s ! i)))"
| enter_scope: "i < length (sp_threads s) \<Longrightarrow> mt_pc (sp_threads s ! i) = Mutating \<Longrightarrow>
    safepoint_step conditional s (put_thread s i (gc_state_set GC_STATE_SAFE (mt_gc_state (sp_threads s ! i)) InScope (sp_threads s ! i)))"
| leave_scope: "i < length (sp_threads s) \<Longrightarrow> mt_pc (sp_threads s ! i) = InScope \<Longrightarrow>
    safepoint_step conditional s (put_thread s i (gc_state_set 0 GC_STATE_SAFE Mutating (sp_threads s ! i)))"
| begin_pause: "sp_control s = Idle \<Longrightarrow> sp_enter s = (r, t) \<Longrightarrow>
    safepoint_step conditional s (t\<lparr>sp_control := if r then Waits 0 else BeginFails\<rparr>)"
| seen: "sp_control s = Waits k \<Longrightarrow> k < length (sp_threads s) \<Longrightarrow> mt_gc_state (sp_threads s ! k) \<noteq> 0 \<Longrightarrow>
    safepoint_step conditional s (s\<lparr>sp_control := Waits (Suc k)\<rparr>)"
| synchronized: "sp_control s = Waits (length (sp_threads s)) \<Longrightarrow>
    safepoint_step conditional s (s\<lparr>sp_control := Paused\<rparr>)"
| unlock: "sp_control s = Paused \<Longrightarrow> safepoint_step conditional s (s\<lparr>sp_control := Unlocked\<rparr>)"
| disable: "sp_control s = Unlocked \<Longrightarrow> sp_disable s = Inr t \<Longrightarrow> safepoint_step conditional s (t\<lparr>sp_control := Disarmed\<rparr>)"
| disable_fails: "sp_control s = Unlocked \<Longrightarrow> sp_disable s = Inl e \<Longrightarrow> safepoint_step conditional s (s\<lparr>sp_control := BeginFails\<rparr>)"
| end_gc: "sp_control s = Disarmed \<Longrightarrow> safepoint_step conditional s (s\<lparr>sp_gc_running := False, sp_control := Idle\<rparr>)"

definition safepoint_start :: SafepointState where
  "safepoint_start = \<lparr>sp_enable_cnt = 0, sp_armed = False, sp_gc_running = False, sp_threads = [], sp_control = Idle\<rparr>"

section \<open>Invariant\<close>

fun mutator_ok :: "MutatorThread \<Rightarrow> bool" where
  "mutator_ok th = (case mt_pc th of
     WaitsGC st \<Rightarrow> st = 0 \<and> mt_gc_state th = GC_STATE_WAITING
   | WokenUp st \<Rightarrow> st = 0 \<and> mt_gc_state th = GC_STATE_WAITING
   | InScope \<Rightarrow> mt_gc_state th = GC_STATE_SAFE
   | _ \<Rightarrow> mt_gc_state th = 0)"

text \<open>The page is armed from \<open>begin\<close> to \<open>end\<close>, and a thread the collector has passed does not run managed code.\<close>

definition page_inv :: "SafepointState \<Rightarrow> bool" where
  "page_inv s \<longleftrightarrow> (case sp_control s of Idle \<Rightarrow> \<not> sp_armed s \<and> \<not> sp_gc_running s | Waits k \<Rightarrow> sp_armed s \<and> sp_gc_running s \<and> k \<le> length (sp_threads s)
     | Disarmed \<Rightarrow> \<not> sp_armed s \<and> sp_gc_running s | BeginFails \<Rightarrow> False | _ \<Rightarrow> sp_armed s \<and> sp_gc_running s) \<and>
     sp_enable_cnt s = of_bool (sp_armed s) \<and> (\<forall>th \<in> set (sp_threads s). mutator_ok th)"

definition passed :: "SafepointState \<Rightarrow> nat set" where
  "passed s = (case sp_control s of Waits k \<Rightarrow> {..<k} | Paused \<Rightarrow> {..<length (sp_threads s)} | _ \<Rightarrow> {})"

definition stop_inv :: "SafepointState \<Rightarrow> bool" where
  "stop_inv s \<longleftrightarrow> (\<forall>i \<in> passed s. mt_pc (sp_threads s ! i) \<noteq> Mutating)"

lemma gc_state_simps [simp]: "GC_STATE_WAITING \<noteq> 0" "GC_STATE_SAFE \<noteq> 0"
  by (simp_all add: GC_STATE_WAITING_def GC_STATE_SAFE_def)

lemma thread_ok: "page_inv s \<Longrightarrow> i < length (sp_threads s) \<Longrightarrow> mutator_ok (sp_threads s ! i)"
  unfolding page_inv_def by (meson nth_mem)

lemma page_inv_put:
  assumes "page_inv s" "mutator_ok th"
  shows "page_inv (put_thread s i th)"
  using assms set_update_subset_insert [of "sp_threads s" i th] by (auto simp: page_inv_def put_thread_def split: pause_pc.splits)

lemma page_inv_step:
  assumes "safepoint_step conditional s s'" "page_inv s"
  shows "page_inv s'"
  using assms
proof (induction rule: safepoint_step.induct)
  case (register s)
  then show ?case by (auto simp: register_thread_def page_inv_def threads_locked_def split: pause_pc.splits)
next
  case (remove s i)
  then show ?case by (auto simp: remove_thread_def page_inv_def threads_locked_def dest: in_set_takeD in_set_dropD split: pause_pc.splits)
next
  case (begin_pause s r t)
  then show ?case by (auto simp: page_inv_def sp_enter_def sp_enable_def Let_def)
next
  case (disable s t)
  then show ?case by (auto simp: page_inv_def sp_disable_def Let_def)
next
  case (disable_fails s e)
  then show ?case by (auto simp: page_inv_def sp_disable_def Let_def)
next
  case (poll i s)
  then show ?case using thread_ok [OF poll.prems poll.hyps(1)] by (intro page_inv_put) simp_all
next
  case (load i s)
  then show ?case using thread_ok [OF load.prems load.hyps(1)] by (intro page_inv_put) (simp_all add: poll_page_def)
next
  case (trap i s)
  then show ?case using thread_ok [OF trap.prems trap.hyps(1)] by (intro page_inv_put) (simp_all add: set_gc_waiting_def)
next
  case (wait_gc i s st)
  then show ?case using thread_ok [OF wait_gc.prems wait_gc.hyps(1)] by (intro page_inv_put) simp_all
next
  case (restore i s st)
  then show ?case using thread_ok [OF restore.prems restore.hyps(1)] by (intro page_inv_put) (simp_all add: restore_gc_state_def)
next
  case (enter_scope i s)
  then show ?case using thread_ok [OF enter_scope.prems enter_scope.hyps(1)] by (intro page_inv_put) (simp_all add: gc_state_set_def)
next
  case (leave_scope i s)
  then show ?case using thread_ok [OF leave_scope.prems leave_scope.hyps(1)] by (intro page_inv_put) (simp_all add: gc_state_set_def)
qed (simp_all add: page_inv_def)

lemma passed_armed: "page_inv s \<Longrightarrow> i \<in> passed s \<Longrightarrow> sp_armed s \<and> sp_gc_running s"
  by (auto simp: page_inv_def passed_def split: pause_pc.splits)

lemma passed_put [simp]: "passed (put_thread s i th) = passed s" "sp_armed (put_thread s i th) = sp_armed s"
  by (simp_all add: passed_def put_thread_def split: pause_pc.splits)

text \<open>A step of thread \<open>i\<close>: it may start to run managed code only if the collector has not passed it.\<close>

lemma stop_inv_put:
  assumes "stop_inv s" "i < length (sp_threads s)" "i \<in> passed s \<Longrightarrow> mt_pc th \<noteq> Mutating"
  shows "stop_inv (put_thread s i th)"
  using assms unfolding stop_inv_def passed_put by (auto simp: put_thread_def nth_list_update split: if_splits)

lemma stop_inv_step:
  assumes "safepoint_step False s s'" "page_inv s" "stop_inv s"
  shows "stop_inv s'"
  using assms
proof (induction rule: safepoint_step.induct)
  case (poll i s)
  then show ?case by (intro stop_inv_put) simp_all
next
  case (load i s)
  then show ?case using passed_armed [OF load.prems(1)] by (intro stop_inv_put) (auto simp: poll_page_def)
next
  case (trap i s)
  then show ?case by (intro stop_inv_put) (simp_all add: set_gc_waiting_def)
next
  case (wait_gc i s st)
  then show ?case by (intro stop_inv_put) simp_all
next
  case (restore i s st)
  then show ?case by (intro stop_inv_put) (simp_all add: restore_gc_state_def)
next
  case (enter_scope i s)
  then show ?case by (intro stop_inv_put) (simp_all add: gc_state_set_def)
next
  case (leave_scope i s)
  then show ?case by (intro stop_inv_put) (simp_all add: gc_state_set_def)
next
  case (seen s k)
  have "mt_pc (sp_threads s ! k) \<noteq> Mutating" using thread_ok [OF seen.prems(1) seen.hyps(2)] seen.hyps(3) by auto
  then show ?case using seen by (auto simp: stop_inv_def passed_def less_Suc_eq)
next
  case (begin_pause s r t)
  then show ?case by (simp add: stop_inv_def passed_def)
qed (auto simp: stop_inv_def passed_def threads_locked_def register_thread_def remove_thread_def split: pause_pc.splits)

lemma safepoint_reachable:
  assumes "(safepoint_step conditional)\<^sup>*\<^sup>* safepoint_start s"
  shows "page_inv s" "\<not> conditional \<Longrightarrow> stop_inv s"
proof -
  have st: "page_inv safepoint_start" "stop_inv safepoint_start" by (simp_all add: safepoint_start_def page_inv_def stop_inv_def passed_def)
  show p: "page_inv s" using assms by (induction rule: rtranclp_induct) (auto intro: page_inv_step st)
  show "stop_inv s" if "\<not> conditional"
    using assms
  proof (induction rule: rtranclp_induct)
    case (step t u)
    have "page_inv t" using step.hyps(1) by (induction rule: rtranclp_induct) (auto intro: page_inv_step st)
    then show ?case using stop_inv_step [OF _ _ step.IH] step.hyps(2) that by simp
  qed (rule st)
qed

section \<open>Conditional polls\<close>

text \<open>One thread, stopped in a first pause and woken; the second pause passes it before it restores its state.\<close>

definition one_thread :: "bool \<Rightarrow> bool \<Rightarrow> nat \<Rightarrow> mutator_pc \<Rightarrow> pause_pc \<Rightarrow> SafepointState" where
  "one_thread armed running st pc c =
     \<lparr>sp_enable_cnt = of_bool armed, sp_armed = armed, sp_gc_running = running, sp_threads = [\<lparr>mt_gc_state = st, mt_pc = pc\<rparr>], sp_control = c\<rparr>"

lemma one_thread_steps:
  "safepoint_step cond safepoint_start (one_thread False False 0 Polls Idle)"
  "safepoint_step cond (one_thread False False st pc Idle) (one_thread True True st pc (Waits 0))"
  "safepoint_step cond (one_thread True True 0 Polls c) (one_thread True True 0 Traps c)"
  "safepoint_step cond (one_thread True True 0 Traps c) (one_thread True True 1 (WaitsGC 0) c)"
  "safepoint_step cond (one_thread True True 1 pc (Waits 0)) (one_thread True True 1 pc (Waits 1))"
  "safepoint_step cond (one_thread True True 1 pc (Waits 1)) (one_thread True True 1 pc Paused)"
  "safepoint_step cond (one_thread True True st pc Paused) (one_thread True True st pc Unlocked)"
  "safepoint_step cond (one_thread True True st pc Unlocked) (one_thread False True st pc Disarmed)"
  "safepoint_step cond (one_thread False True st pc Disarmed) (one_thread False False st pc Idle)"
  "safepoint_step cond (one_thread False False 1 (WaitsGC 0) Idle) (one_thread False False 1 (WokenUp 0) Idle)"
  "safepoint_step True (one_thread True True 1 (WokenUp 0) Paused) (one_thread True True 0 Mutating Paused)"
  using safepoint_step.register [of safepoint_start cond]
    safepoint_step.begin_pause [of "one_thread False False st pc Idle" True "one_thread True True st pc Idle" cond]
    safepoint_step.load [of 0 "one_thread True True 0 Polls c" cond] safepoint_step.trap [of 0 "one_thread True True 0 Traps c" cond]
    safepoint_step.seen [of "one_thread True True 1 pc (Waits 0)" 0 cond] safepoint_step.synchronized [of "one_thread True True 1 pc (Waits 1)" cond]
    safepoint_step.unlock [of "one_thread True True st pc Paused" cond]
    safepoint_step.disable [of "one_thread True True st pc Unlocked" "one_thread False True st pc Unlocked" cond]
    safepoint_step.end_gc [of "one_thread False True st pc Disarmed" cond] safepoint_step.wait_gc [of 0 "one_thread False False 1 (WaitsGC 0) Idle" 0 cond]
    safepoint_step.restore [of 0 "one_thread True True 1 (WokenUp 0) Paused" 0 True]
  by (simp_all add: one_thread_def register_thread_def safepoint_start_def threads_locked_def sp_enter_def sp_enable_def sp_disable_def put_thread_def poll_page_def
      set_gc_waiting_def restore_gc_state_def GC_STATE_WAITING_def Let_def)

lemmas step_chain = converse_rtranclp_into_rtranclp [of "safepoint_step cond" for cond]

lemma first_pause: "(safepoint_step cond)\<^sup>*\<^sup>* safepoint_start (one_thread True True 1 (WaitsGC 0) Paused)"
  by (rule step_chain [OF one_thread_steps(1)], rule step_chain [OF one_thread_steps(2)],
      rule step_chain [OF one_thread_steps(3)], rule step_chain [OF one_thread_steps(4)],
      rule step_chain [OF one_thread_steps(5)], rule step_chain [OF one_thread_steps(6)], rule rtranclp.rtrancl_refl)

lemma second_pause: "(safepoint_step True)\<^sup>*\<^sup>* (one_thread True True 1 (WaitsGC 0) Paused) (one_thread True True 0 Mutating Paused)"
  by (rule step_chain [OF one_thread_steps(7)], rule step_chain [OF one_thread_steps(8)],
      rule step_chain [OF one_thread_steps(9)], rule step_chain [OF one_thread_steps(10)],
      rule step_chain [OF one_thread_steps(2)], rule step_chain [OF one_thread_steps(5)],
      rule step_chain [OF one_thread_steps(6)], rule step_chain [OF one_thread_steps(11)], rule rtranclp.rtrancl_refl)

section \<open>Properties\<close>

text \<open>C8. Stopping the mutators is safe under every interleaving, with threads registering, leaving, polling and running in
  safepoint scopes: with the default polls no thread runs managed code while the collector is in a pause, no
  assertion of \<open>begin\<close> and no counter of \<open>end\<close> fails, and after a pause the page is not armed any more. With the feature
  \<open>conditional-safepoint\<close> this is lost: a thread that was woken from one pause can be passed by the collector in the next
  pause before it restores its state, and then runs managed code during the pause, since it does not poll again.\<close>

theorem safepoint_stops_mutators:
  "((safepoint_step False)\<^sup>*\<^sup>* safepoint_start s \<longrightarrow>
      sp_control s \<noteq> BeginFails \<and> (sp_control s = Idle \<longrightarrow> \<not> sp_armed s \<and> \<not> sp_gc_running s) \<and>
      (sp_control s = Paused \<longrightarrow> (\<forall>th \<in> set (sp_threads s). mt_pc th \<noteq> Mutating))) \<and>
    (\<exists>s. (safepoint_step True)\<^sup>*\<^sup>* safepoint_start s \<and> sp_control s = Paused \<and> (\<exists>th \<in> set (sp_threads s). mt_pc th = Mutating))"
proof -
  have "sp_control s \<noteq> BeginFails \<and> (sp_control s = Idle \<longrightarrow> \<not> sp_armed s \<and> \<not> sp_gc_running s) \<and>
      (sp_control s = Paused \<longrightarrow> (\<forall>th \<in> set (sp_threads s). mt_pc th \<noteq> Mutating))" if "(safepoint_step False)\<^sup>*\<^sup>* safepoint_start s"
    using safepoint_reachable [OF that] by (auto simp: page_inv_def stop_inv_def passed_def in_set_conv_nth)
  moreover have "(safepoint_step True)\<^sup>*\<^sup>* safepoint_start (one_thread True True 0 Mutating Paused)"
    by (rule rtranclp_trans [OF first_pause second_pause])
  moreover have "sp_control (one_thread True True 0 Mutating Paused) = Paused" "\<exists>th \<in> set (sp_threads (one_thread True True 0 Mutating Paused)). mt_pc th = Mutating"
    by (simp_all add: one_thread_def)
  ultimately show ?thesis by blast
qed

text \<open>A pause with one thread.\<close>

theorem safepoint_stops_mutators_witness:
  "(safepoint_step False)\<^sup>*\<^sup>* safepoint_start (one_thread True True 1 (WaitsGC 0) Paused) \<and>
    Mutating \<notin> mt_pc ` set (sp_threads (one_thread True True 1 (WaitsGC 0) Paused))"
proof -
  have "sp_control (one_thread True True 1 (WaitsGC 0) Paused) = Paused" by (simp add: one_thread_def)
  then show ?thesis using safepoint_stops_mutators [of "one_thread True True 1 (WaitsGC 0) Paused"] first_pause [of False] by auto
qed

end
