(* ===== verification/Controller.thy ===== *)
theory Controller
  imports Suspend
begin

text \<open>
  The control thread of \<open>heap/controller.rs\<close>: how it picks the kind of a cycle, what it records in the heuristics
  (\<open>heap/heuristics/mod.rs\<close>, \<open>heap/heuristics/static_.rs\<close>), and how threads that ask for a collection wait for it
  (\<open>handle_requested_gc\<close>, with the monitor of \<open>sync/monitor.rs\<close>). The control thread and the requesting threads take
  steps in any order. The times added to the history of the heuristics are kept as a list; its floating-point statistics are
  not modelled.
\<close>

section \<open>Heuristics\<close>

definition CONCURRENT_ADJUST :: int where "CONCURRENT_ADJUST = -1"
definition DEGENERATED_PENALTY :: int where "DEGENERATED_PENALTY = 10"
definition FULL_PENALTY :: int where "FULL_PENALTY = 20"

record Heuristics =
  he_degenerated :: nat
  he_successful :: nat
  he_cycle_start :: nat
  he_last_cycle_end :: nat
  he_learned :: nat
  he_penalties :: int
  he_history :: "nat list"

definition adjust_penalty :: "int \<Rightarrow> Heuristics \<Rightarrow> Heuristics" where
  "adjust_penalty step h =
     (let v = he_penalties h + step; v = (if v < 0 then 0 else v); v = (if v > 100 then 100 else v) in h\<lparr>he_penalties := v\<rparr>)"

definition record_success_concurrent :: "nat \<Rightarrow> Heuristics \<Rightarrow> Heuristics" where
  "record_success_concurrent now h = adjust_penalty CONCURRENT_ADJUST
     (h\<lparr>he_degenerated := 0, he_successful := he_successful h + 1, he_history := he_history h @ [now - he_cycle_start h],
       he_learned := he_learned h + 1\<rparr>)"

definition record_success_degenerated :: "Heuristics \<Rightarrow> Heuristics" where
  "record_success_degenerated h = adjust_penalty DEGENERATED_PENALTY (h\<lparr>he_degenerated := he_degenerated h + 1, he_successful := 0\<rparr>)"

definition record_success_full :: "Heuristics \<Rightarrow> Heuristics" where
  "record_success_full h = adjust_penalty FULL_PENALTY (h\<lparr>he_degenerated := 0, he_successful := he_successful h + 1\<rparr>)"

definition record_requested_gc :: "Heuristics \<Rightarrow> Heuristics" where
  "record_requested_gc h = h\<lparr>he_learned := 0\<rparr>"

definition record_cycle_start :: "nat \<Rightarrow> Heuristics \<Rightarrow> Heuristics" where
  "record_cycle_start now h = h\<lparr>he_cycle_start := now\<rparr>"

definition record_cycle_end :: "nat \<Rightarrow> Heuristics \<Rightarrow> Heuristics" where
  "record_cycle_end now h = h\<lparr>he_last_cycle_end := now\<rparr>"

definition should_degenerate_cycle :: "Heuristics \<Rightarrow> bool" where
  "should_degenerate_cycle h = False"

text \<open>The trigger every heuristic has, and the one of \<open>StaticHeuristics\<close>.\<close>

definition interval_passed :: "nat \<Rightarrow> nat \<Rightarrow> Heuristics \<Rightarrow> bool" where
  "interval_passed guaranteed now h = (guaranteed > 0 \<and> now - he_last_cycle_end h > guaranteed)"

definition percent_of :: "nat \<Rightarrow> nat \<Rightarrow> nat res" where
  "percent_of cap p = (let x = cap div 100 * p in if x < 2 ^ 64 then Inr x else Inl ArithOverflow)"

definition static_should_start_gc :: "nat \<Rightarrow> nat \<Rightarrow> nat \<Rightarrow> nat \<Rightarrow> nat \<Rightarrow> nat \<Rightarrow> nat \<Rightarrow> Heuristics \<Rightarrow> bool res" where
  "static_should_start_gc max_capacity available allocated allocation_threshold min_free_threshold guaranteed now h =
     rbind (percent_of max_capacity allocation_threshold) (\<lambda>threshold. rbind (percent_of max_capacity min_free_threshold) (\<lambda>min_threshold.
       Inr (available < min_threshold \<or> allocated > threshold \<or> interval_passed guaranteed now h)))"

section \<open>The kind of a cycle\<close>

datatype GCMode = NoCycle | Concurrent | STWDegen | STWFull

datatype DegenPoint = Unset | OutsideCycle | ConcurrentMark | ConcurrentSweep

definition select_mode :: "bool \<Rightarrow> bool \<Rightarrow> bool \<Rightarrow> bool \<Rightarrow> Heuristics \<Rightarrow> GCMode \<times> Heuristics" where
  "select_mode alloc_failure explicit should_start always_full h =
     (let (mode, h) = (if alloc_failure then (if should_degenerate_cycle h then STWDegen else STWFull, h)
                       else if explicit then (STWFull, record_requested_gc h)
                       else (if should_start then Concurrent else NoCycle, h))
      in (if mode \<noteq> NoCycle \<and> always_full then STWFull else mode, h))"

text \<open>\<open>check_cancellation_or_degen\<close>, and the control flow of \<open>ConcurrentGC::collect\<close> with its two tests for a cancellation.\<close>

definition check_cancellation_or_degen :: "bool \<Rightarrow> bool \<Rightarrow> DegenPoint \<Rightarrow> DegenPoint \<Rightarrow> bool \<times> DegenPoint" where
  "check_cancellation_or_degen cancelled shutdown point old =
     (if cancelled then (True, if shutdown then old else point) else (False, old))"

definition concurrent_collect :: "bool \<Rightarrow> bool \<Rightarrow> bool \<times> DegenPoint" where
  "concurrent_collect cancelled_in_mark cancelled_in_sweep =
     (if cancelled_in_mark then (False, ConcurrentMark) else if cancelled_in_sweep then (False, ConcurrentSweep) else (True, Unset))"

definition service_concurrent_normal_cycle ::
  "bool \<Rightarrow> bool \<Rightarrow> bool \<Rightarrow> bool \<Rightarrow> nat \<Rightarrow> nat \<Rightarrow> DegenPoint \<times> Heuristics \<Rightarrow> DegenPoint \<times> Heuristics" where
  "service_concurrent_normal_cycle cancelled in_mark in_sweep shutdown start now = (\<lambda>(dp, h).
     let (stop, dp) = check_cancellation_or_degen cancelled shutdown OutsideCycle dp in
     if stop then (dp, h)
     else let h = record_cycle_start start h; (ok, point) = concurrent_collect in_mark in_sweep in
       if ok then (dp, record_cycle_end now (record_success_concurrent now h))
       else (snd (check_cancellation_or_degen True shutdown point dp), record_cycle_end now h))"

definition service_stw_full_cycle :: "nat \<Rightarrow> nat \<Rightarrow> Heuristics \<Rightarrow> Heuristics" where
  "service_stw_full_cycle start now h = record_cycle_end now (record_success_full (record_cycle_start start h))"

definition service_stw_degenerated_cycle :: "nat \<Rightarrow> nat \<Rightarrow> Heuristics \<Rightarrow> Heuristics" where
  "service_stw_degenerated_cycle start now h = record_cycle_end now (record_success_degenerated (record_cycle_start start h))"

text \<open>How long the control thread sleeps: from the minimum again after a change of the heap, else longer and longer.\<close>

definition next_sleep :: "bool \<Rightarrow> bool \<Rightarrow> nat \<Rightarrow> nat \<Rightarrow> nat \<Rightarrow> nat" where
  "next_sleep changed adjust lo hi sleep = (if changed then lo else if adjust then min hi (max 1 (sleep * 2)) else sleep)"

section \<open>Requests\<close>

text \<open>A thread in \<open>handle_requested_gc\<close>: \<open>Asks c r\<close> holds the monitor and has read the identifier \<open>c\<close>, \<open>HasSet r\<close> has set the flag,
  \<open>Awaits r\<close> waits for a notification, \<open>Woken r\<close> for the monitor. \<open>Returned r d\<close> keeps how many cycles had ended on return.\<close>

datatype request_pc = NoRequest | Asks nat nat | HasSet nat | Awaits nat | Woken nat | Returned nat nat

text \<open>The control thread in one round of \<open>run_service\<close>.\<close>

datatype control_state = RoundTop | RoundRead bool | RoundMode bool bool GCMode | InCycle bool bool | CycleEnds bool bool | Notifies bool | RoundEnds bool

record ControlThread =
  ct_gc_requested :: bool
  ct_alloc_failure_gc :: bool
  ct_gc_id :: nat
  ct_ended :: nat
  ct_monitor :: "nat option"
  ct_state :: control_state
  ct_requests :: "request_pc list"
  ct_heuristics :: Heuristics

definition put_request :: "ControlThread \<Rightarrow> nat \<Rightarrow> request_pc \<Rightarrow> ControlThread" where
  "put_request s i p = s\<lparr>ct_requests := (ct_requests s)[i := p]\<rparr>"

text \<open>\<open>notify_all\<close>; it is also called whenever a guard of the monitor is dropped.\<close>

definition wake :: "request_pc \<Rightarrow> request_pc" where
  "wake p = (case p of Awaits r \<Rightarrow> Woken r | _ \<Rightarrow> p)"

definition notify_all :: "ControlThread \<Rightarrow> ControlThread" where
  "notify_all s = s\<lparr>ct_requests := map wake (ct_requests s)\<rparr>"

definition begin_request :: "nat \<Rightarrow> ControlThread \<Rightarrow> ControlThread" where
  "begin_request i s = (put_request s i (Asks (ct_gc_id s) (ct_gc_id s + 1)))\<lparr>ct_monitor := Some i\<rparr>"

definition test_request :: "nat \<Rightarrow> nat \<Rightarrow> nat \<Rightarrow> ControlThread \<Rightarrow> ControlThread" where
  "test_request i current required s =
     (if current < required then (put_request s i (HasSet required))\<lparr>ct_gc_requested := True\<rparr>
      else (notify_all (put_request s i (Returned required (ct_ended s))))\<lparr>ct_monitor := None\<rparr>)"

inductive control_step :: "ControlThread \<Rightarrow> ControlThread \<Rightarrow> bool" where
  call: "i < length (ct_requests s) \<Longrightarrow> ct_requests s ! i = NoRequest \<Longrightarrow> ct_monitor s = None \<Longrightarrow> control_step s (begin_request i s)"
| test: "i < length (ct_requests s) \<Longrightarrow> ct_requests s ! i = Asks c r \<Longrightarrow> control_step s (test_request i c r s)"
| wait: "i < length (ct_requests s) \<Longrightarrow> ct_requests s ! i = HasSet r \<Longrightarrow> control_step s ((put_request s i (Awaits r))\<lparr>ct_monitor := None\<rparr>)"
| relock: "i < length (ct_requests s) \<Longrightarrow> ct_requests s ! i = Woken r \<Longrightarrow> ct_monitor s = None \<Longrightarrow>
    control_step s ((put_request s i (Asks (ct_gc_id s) r))\<lparr>ct_monitor := Some i\<rparr>)"
| failure: "control_step s (s\<lparr>ct_alloc_failure_gc := True\<rparr>)"
| read_failure: "ct_state s = RoundTop \<Longrightarrow> control_step s (s\<lparr>ct_state := RoundRead (ct_alloc_failure_gc s)\<rparr>)"
| read_requested: "ct_state s = RoundRead af \<Longrightarrow> select_mode af (ct_gc_requested s) start always_full (ct_heuristics s) = (mode, h) \<Longrightarrow>
    control_step s (s\<lparr>ct_state := RoundMode af (ct_gc_requested s) mode, ct_heuristics := h\<rparr>)"
| start_cycle: "ct_state s = RoundMode af ex mode \<Longrightarrow> mode \<noteq> NoCycle \<Longrightarrow>
    control_step s (s\<lparr>ct_state := InCycle af ex, ct_gc_id := ct_gc_id s + 1\<rparr>)"
| no_cycle: "ct_state s = RoundMode af ex NoCycle \<Longrightarrow> control_step s (s\<lparr>ct_state := RoundTop\<rparr>)"
| end_cycle: "ct_state s = InCycle af ex \<Longrightarrow> control_step s (s\<lparr>ct_state := CycleEnds af ex, ct_ended := ct_gc_id s\<rparr>)"
| unset: "ct_state s = CycleEnds af True \<Longrightarrow> control_step s (s\<lparr>ct_state := Notifies af, ct_gc_requested := False\<rparr>)"
| not_requested: "ct_state s = CycleEnds af False \<Longrightarrow> control_step s (s\<lparr>ct_state := RoundEnds af\<rparr>)"
| notify: "ct_state s = Notifies af \<Longrightarrow> ct_monitor s = None \<Longrightarrow> control_step s ((notify_all s)\<lparr>ct_state := RoundEnds af\<rparr>)"
| round_ends: "ct_state s = RoundEnds af \<Longrightarrow>
    control_step s (s\<lparr>ct_state := RoundTop, ct_alloc_failure_gc := if af then False else ct_alloc_failure_gc s\<rparr>)"

definition control_start :: "nat \<Rightarrow> Heuristics \<Rightarrow> ControlThread" where
  "control_start n h = \<lparr>ct_gc_requested = False, ct_alloc_failure_gc = False, ct_gc_id = 0, ct_ended = 0, ct_monitor = None, ct_state = RoundTop,
     ct_requests = replicate n NoRequest, ct_heuristics = h\<rparr>"

section \<open>Lemmas\<close>

lemma adjust_penalty_range: "0 \<le> he_penalties (adjust_penalty d h) \<and> he_penalties (adjust_penalty d h) \<le> 100"
  by (simp add: adjust_penalty_def Let_def)

lemma penalties_range:
  assumes "0 \<le> he_penalties h \<and> he_penalties h \<le> 100"
  shows "0 \<le> he_penalties (service_stw_full_cycle s n h) \<and> he_penalties (service_stw_full_cycle s n h) \<le> 100"
    "0 \<le> he_penalties (service_stw_degenerated_cycle s n h) \<and> he_penalties (service_stw_degenerated_cycle s n h) \<le> 100"
    "0 \<le> he_penalties (snd (service_concurrent_normal_cycle c m w sd s n (dp, h))) \<and>
      he_penalties (snd (service_concurrent_normal_cycle c m w sd s n (dp, h))) \<le> 100"
  using assms adjust_penalty_range
  by (simp_all add: service_stw_full_cycle_def service_stw_degenerated_cycle_def service_concurrent_normal_cycle_def record_cycle_end_def
      record_cycle_start_def record_success_full_def record_success_degenerated_def record_success_concurrent_def Let_def
      check_cancellation_or_degen_def concurrent_collect_def)

lemma next_sleep_range: "lo \<le> hi \<Longrightarrow> 1 \<le> lo \<Longrightarrow> 1 \<le> sleep \<and> sleep \<le> hi \<Longrightarrow> 1 \<le> next_sleep ch ad lo hi sleep \<and> next_sleep ch ad lo hi sleep \<le> hi"
  by (auto simp: next_sleep_def)

lemma select_mode_cases:
  "select_mode af ex st full h = (mode, h') \<Longrightarrow> (mode = NoCycle \<longleftrightarrow> \<not> af \<and> \<not> ex \<and> \<not> st) \<and> (af \<or> ex \<longrightarrow> mode = STWFull) \<and> mode \<noteq> STWDegen"
  by (auto simp: select_mode_def should_degenerate_cycle_def Let_def split: if_splits)

section \<open>Invariant\<close>

definition holds_monitor :: "request_pc \<Rightarrow> bool" where
  "holds_monitor p \<longleftrightarrow> (case p of Asks _ _ \<Rightarrow> True | HasSet _ \<Rightarrow> True | _ \<Rightarrow> False)"

definition pending :: "request_pc \<Rightarrow> bool" where
  "pending p \<longleftrightarrow> (case p of HasSet _ \<Rightarrow> True | Awaits _ \<Rightarrow> True | _ \<Rightarrow> False)"

definition will_notify :: "ControlThread \<Rightarrow> bool" where
  "will_notify s \<longleftrightarrow> ct_gc_requested s \<or> (\<exists>af. ct_state s = Notifies af)"

text \<open>The identifier a request waits for is at most one ahead.\<close>

fun request_ok :: "nat \<Rightarrow> request_pc \<Rightarrow> bool" where
  "request_ok n (Asks c r) = (c \<le> n \<and> r \<le> n + 1)"
| "request_ok n (HasSet r) = (r \<le> n + 1)"
| "request_ok n (Awaits r) = (r \<le> n + 1)"
| "request_ok n (Woken r) = (r \<le> n + 1)"
| "request_ok n (Returned r d) = (r \<le> n \<and> r \<le> Suc d)"
| "request_ok n NoRequest = True"

fun running :: "control_state \<Rightarrow> nat" where
  "running (InCycle af ex) = 1"
| "running _ = 0"

definition control_inv :: "ControlThread \<Rightarrow> bool" where
  "control_inv s \<longleftrightarrow>
     (\<forall>i < length (ct_requests s). holds_monitor (ct_requests s ! i) \<longleftrightarrow> ct_monitor s = Some i) \<and>
     (\<forall>p \<in> set (ct_requests s). pending p \<longrightarrow> will_notify s) \<and>
     (\<forall>p \<in> set (ct_requests s). request_ok (ct_gc_id s) p) \<and>
     ct_gc_id s = ct_ended s + running (ct_state s) \<and>
     (\<forall>af ex mode. ct_state s = RoundMode af ex mode \<longrightarrow> ex \<longrightarrow> mode = STWFull)"

lemma request_simps [simp]:
  "holds_monitor (Asks c r)" "holds_monitor (HasSet r)" "\<not> holds_monitor NoRequest" "\<not> holds_monitor (Awaits r)" "\<not> holds_monitor (Woken r)"
  "\<not> holds_monitor (Returned r d)" "pending (HasSet r)" "pending (Awaits r)" "\<not> pending (Asks c r)" "\<not> pending NoRequest" "\<not> pending (Woken r)"
  "\<not> pending (Returned r d)" "wake (Awaits r) = Woken r" "holds_monitor (wake p) = holds_monitor p" "request_ok n (wake p) = request_ok n p"
  "pending (wake p) \<longleftrightarrow> pending p \<and> holds_monitor p"
  by (cases p; simp add: holds_monitor_def pending_def wake_def)+

lemma request_ok_mono: "request_ok n p \<Longrightarrow> request_ok (Suc n) p"
  by (cases p) auto

text \<open>What a step of requesting thread \<open>i\<close> has to show.\<close>

lemma control_inv_put:
  assumes inv: "control_inv s" and i: "i < length (ct_requests s)" and m: "ct_monitor s = None \<or> ct_monitor s = Some i"
    and q: "request_ok (ct_gc_id s) q" "pending q \<Longrightarrow> will_notify s'" "ct_monitor s' = (if holds_monitor q then Some i else None)"
    and s': "ct_requests s' = (ct_requests s)[i := q]" "ct_gc_id s' = ct_gc_id s" "ct_ended s' = ct_ended s" "ct_state s' = ct_state s"
      "will_notify s \<Longrightarrow> will_notify s'"
  shows "control_inv s'"
proof -
  have sub: "set (ct_requests s') \<subseteq> insert q (set (ct_requests s))" unfolding s'(1) by (rule set_update_subset_insert)
  have "holds_monitor (ct_requests s' ! j) \<longleftrightarrow> ct_monitor s' = Some j" if "j < length (ct_requests s')" for j
    using inv m q(3) that i unfolding s'(1) control_inv_def by (auto simp: nth_list_update)
  then show ?thesis using inv q(1,2) s' sub unfolding control_inv_def by auto
qed

lemma control_inv_notify:
  assumes "control_inv s"
  shows "control_inv (notify_all s)"
  using assms unfolding control_inv_def notify_all_def by (auto simp: will_notify_def)

lemma control_inv_step:
  assumes "control_step s s'" "control_inv s"
  shows "control_inv s'"
  using assms
proof (induction rule: control_step.induct)
  case (call i s)
  show ?case
    by (rule control_inv_put [of s i "Asks (ct_gc_id s) (ct_gc_id s + 1)"])
      (use call in \<open>simp_all add: begin_request_def put_request_def will_notify_def\<close>)
next
  case (test i s c r)
  then have m: "ct_monitor s = Some i" and ok: "request_ok (ct_gc_id s) (Asks c r)" using nth_mem [OF test.hyps(1)] by (force simp: control_inv_def)+
  show ?case
  proof (cases "c < r")
    case True
    show ?thesis
      by (rule control_inv_put [of s i "HasSet r"]) (use test m ok True in \<open>simp_all add: test_request_def put_request_def will_notify_def\<close>)
  next
    case False
    let ?s = "(put_request s i (Returned r (ct_ended s)))\<lparr>ct_monitor := None\<rparr>"
    have "ct_gc_id s \<le> Suc (ct_ended s)" using test.prems by (cases "ct_state s") (auto simp: control_inv_def)
    then have "control_inv ?s"
      by (intro control_inv_put [of s i "Returned r (ct_ended s)" ?s, OF test.prems test.hyps(1)])
        (use test m ok False in \<open>simp_all add: put_request_def will_notify_def\<close>)
    moreover have "test_request i c r s = notify_all ?s" using False by (simp add: test_request_def notify_all_def put_request_def)
    ultimately show ?thesis using control_inv_notify by simp
  qed
next
  case (wait i s r)
  then have m: "ct_monitor s = Some i" and ok: "request_ok (ct_gc_id s) (HasSet r)" "will_notify s"
    using nth_mem [OF wait.hyps(1)] by (force simp: control_inv_def)+
  show ?case
    by (rule control_inv_put [of s i "Awaits r"]) (use wait m ok in \<open>simp_all add: put_request_def will_notify_def\<close>)
next
  case (relock i s r)
  then have ok: "request_ok (ct_gc_id s) (Woken r)" using nth_mem [OF relock.hyps(1)] by (force simp: control_inv_def)
  show ?case
    by (rule control_inv_put [of s i "Asks (ct_gc_id s) r"]) (use relock ok in \<open>simp_all add: put_request_def will_notify_def\<close>)
next
  case (read_requested s af start always_full mode h)
  then show ?case using select_mode_cases [OF read_requested.hyps(2)] by (auto simp: control_inv_def will_notify_def)
next
  case (start_cycle s af ex mode)
  then show ?case using request_ok_mono by (auto simp: control_inv_def will_notify_def)
next
  case (notify s af)
  have "\<not> pending p \<or> \<not> holds_monitor p" if "p \<in> set (ct_requests s)" for p
    using notify.prems notify.hyps(2) that by (auto simp: control_inv_def in_set_conv_nth)
  then show ?case using notify by (auto simp: control_inv_def notify_all_def will_notify_def)
qed (auto simp: control_inv_def will_notify_def)

lemma control_reachable:
  assumes "control_step\<^sup>*\<^sup>* (control_start n h) s"
  shows "control_inv s"
  using assms
proof (induction rule: rtranclp_induct)
  case base
  show ?case by (simp add: control_start_def control_inv_def)
qed (rule control_inv_step)

section \<open>Properties\<close>

text \<open>One round of the control thread, on its own, serves every waiting request.\<close>

lemma six_steps:
  assumes "R a b" "R b c" "R c d" "R d e" "R e f" "R f g"
  shows "(R ^^ 6) a g"
proof -
  have "(R ^^ Suc (Suc (Suc (Suc (Suc (Suc 0)))))) a g" using assms by (meson relpowp_0_I relpowp_Suc_I2)
  then show ?thesis by (simp only: eval_nat_numeral One_nat_def BitM.simps)
qed

lemma round_serves:
  assumes "ct_state s = RoundTop" "ct_gc_requested s" "ct_monitor s = None"
  shows "\<exists>s'. (control_step ^^ 6) s s' \<and> ct_requests s' = map wake (ct_requests s) \<and> ct_gc_id s' = ct_gc_id s + 1 \<and> ct_ended s' = ct_gc_id s + 1"
proof -
  let ?af = "ct_alloc_failure_gc s"
  obtain mode h where m: "select_mode ?af True True False (ct_heuristics s) = (mode, h)" by (cases "select_mode ?af True True False (ct_heuristics s)")
  have mode: "mode \<noteq> NoCycle" using select_mode_cases [OF m] by simp
  let ?s1 = "s\<lparr>ct_state := RoundRead ?af\<rparr>" and ?s2 = "s\<lparr>ct_state := RoundMode ?af True mode, ct_heuristics := h\<rparr>"
  let ?s3 = "?s2\<lparr>ct_state := InCycle ?af True, ct_gc_id := ct_gc_id s + 1\<rparr>"
  let ?s4 = "?s3\<lparr>ct_state := CycleEnds ?af True, ct_ended := ct_gc_id s + 1\<rparr>" let ?s5 = "?s4\<lparr>ct_state := Notifies ?af, ct_gc_requested := False\<rparr>"
  let ?s6 = "(notify_all ?s5)\<lparr>ct_state := RoundEnds ?af\<rparr>"
  have 1: "control_step s ?s1" using assms(1) by (rule control_step.read_failure)
  have 2: "control_step ?s1 ?s2" using control_step.read_requested [of ?s1 ?af True False mode h] m assms(2) by simp
  have 3: "control_step ?s2 ?s3" using control_step.start_cycle [of ?s2 ?af True mode] mode by simp
  have 4: "control_step ?s3 ?s4" using control_step.end_cycle [of ?s3 ?af True] by simp
  have 5: "control_step ?s4 ?s5" using control_step.unset [of ?s4 ?af] by simp
  have 6: "control_step ?s5 ?s6" using control_step.notify [of ?s5 ?af] assms(3) by simp
  have "(control_step ^^ 6) s ?s6"
    by (rule six_steps [of control_step, OF 1 2 3 4 5 6])
  then show ?thesis by (intro exI [of _ ?s6]) (simp add: notify_all_def)
qed

text \<open>C12. No request for a collection is lost, whatever the threads do: while a thread waits for a cycle, either the request flag is
  set or the control thread is about to notify; when the control thread is between two rounds and the monitor is free, its
  next six steps run a cycle with the identifier the thread waits for, to the end, and wake the thread. A thread that has
  returned waited for a cycle that has been started after its call.\<close>

theorem gc_request_not_lost:
  assumes "control_step\<^sup>*\<^sup>* (control_start n h) s"
  shows "(\<forall>r. Awaits r \<in> set (ct_requests s) \<longrightarrow> (ct_gc_requested s \<or> (\<exists>af. ct_state s = Notifies af)) \<and>
      (ct_state s = RoundTop \<longrightarrow> ct_monitor s = None \<longrightarrow>
        (\<exists>s'. (control_step ^^ 6) s s' \<and> ct_requests s' = map wake (ct_requests s) \<and> r \<le> ct_ended s'))) \<and>
    (\<forall>r d. Returned r d \<in> set (ct_requests s) \<longrightarrow> r \<le> ct_gc_id s)"
proof -
  note inv = control_reachable [OF assms]
  have w: "ct_gc_requested s \<or> (\<exists>af. ct_state s = Notifies af)" "r \<le> ct_gc_id s + 1" if "Awaits r \<in> set (ct_requests s)" for r
    using inv that by (force simp: control_inv_def will_notify_def)+
  have "\<exists>s'. (control_step ^^ 6) s s' \<and> ct_requests s' = map wake (ct_requests s) \<and> r \<le> ct_ended s'"
    if "Awaits r \<in> set (ct_requests s)" "ct_state s = RoundTop" "ct_monitor s = None" for r
    using round_serves [of s] w [OF that(1)] that(2,3) by auto
  moreover have "r \<le> ct_gc_id s" if "Returned r d \<in> set (ct_requests s)" for r d using inv that by (force simp: control_inv_def)
  ultimately show ?thesis using w by blast
qed

text \<open>A run with two requesting threads.\<close>

definition ctl :: "bool \<Rightarrow> nat \<Rightarrow> nat \<Rightarrow> nat option \<Rightarrow> control_state \<Rightarrow> request_pc list \<Rightarrow> ControlThread" where
  "ctl rq n d m st ps = \<lparr>ct_gc_requested = rq, ct_alloc_failure_gc = False, ct_gc_id = n, ct_ended = d, ct_monitor = m, ct_state = st,
     ct_requests = ps, ct_heuristics = \<lparr>he_degenerated = 0, he_successful = 0, he_cycle_start = 0, he_last_cycle_end = 0, he_learned = 0,
       he_penalties = 0, he_history = []\<rparr>\<rparr>"

lemma ctl_request:
  assumes "i < length ps" "ps ! i = NoRequest" "length ps = 2"
  shows "control_step\<^sup>*\<^sup>* (ctl rq n d None st ps) (ctl True n d None st (ps[i := Awaits (n + 1)]))"
proof -
  let ?s1 = "ctl rq n d (Some i) st (ps[i := Asks n (n + 1)])" and ?s2 = "ctl True n d (Some i) st (ps[i := HasSet (n + 1)])"
  have "control_step (ctl rq n d None st ps) ?s1"
    using control_step.call [of i "ctl rq n d None st ps"] assms by (simp add: ctl_def begin_request_def put_request_def)
  moreover have "control_step ?s1 ?s2"
    using control_step.test [of i ?s1 n "n + 1"] assms by (simp add: ctl_def test_request_def put_request_def)
  moreover have "control_step ?s2 (ctl True n d None st (ps[i := Awaits (n + 1)]))"
    using control_step.wait [of i ?s2 "n + 1"] assms by (simp add: ctl_def put_request_def)
  ultimately show ?thesis by (meson converse_rtranclp_into_rtranclp r_into_rtranclp)
qed

lemma ctl_start_cycle:
  "control_step\<^sup>*\<^sup>* (ctl True n d None RoundTop ps) (ctl True (n + 1) d None (InCycle False True) ps)"
proof -
  let ?s1 = "ctl True n d None (RoundRead False) ps" and ?s2 = "ctl True n d None (RoundMode False True STWFull) ps"
  have "control_step (ctl True n d None RoundTop ps) ?s1" using control_step.read_failure [of "ctl True n d None RoundTop ps"] by (simp add: ctl_def)
  moreover have "control_step ?s1 ?s2"
    using control_step.read_requested [of ?s1 False False False STWFull "ct_heuristics ?s1"]
    by (simp add: ctl_def select_mode_def record_requested_gc_def Let_def)
  moreover have "control_step ?s2 (ctl True (n + 1) d None (InCycle False True) ps)"
    using control_step.start_cycle [of ?s2 False True STWFull] by (simp add: ctl_def)
  ultimately show ?thesis by (meson converse_rtranclp_into_rtranclp r_into_rtranclp)
qed

lemma ctl_end_cycle:
  "control_step\<^sup>*\<^sup>* (ctl True n d None (InCycle False True) ps) (ctl False n n None RoundTop (map wake ps))"
proof -
  let ?s1 = "ctl True n n None (CycleEnds False True) ps" and ?s2 = "ctl False n n None (Notifies False) ps"
  let ?s3 = "ctl False n n None (RoundEnds False) (map wake ps)"
  have "control_step (ctl True n d None (InCycle False True) ps) ?s1"
    using control_step.end_cycle [of "ctl True n d None (InCycle False True) ps" False True] by (simp add: ctl_def)
  moreover have "control_step ?s1 ?s2" using control_step.unset [of ?s1 False] by (simp add: ctl_def)
  moreover have "control_step ?s2 ?s3" using control_step.notify [of ?s2 False] by (simp add: ctl_def notify_all_def)
  moreover have "control_step ?s3 (ctl False n n None RoundTop (map wake ps))" using control_step.round_ends [of ?s3 False] by (simp add: ctl_def)
  ultimately show ?thesis by (meson converse_rtranclp_into_rtranclp r_into_rtranclp)
qed

lemma ctl_return:
  assumes "i < length ps" "ps ! i = Woken r" "r \<le> n"
  shows "control_step\<^sup>*\<^sup>* (ctl rq n d None st ps) (ctl rq n d None st (map wake (ps[i := Returned r d])))"
proof -
  let ?s1 = "ctl rq n d (Some i) st (ps[i := Asks n r])"
  have "control_step (ctl rq n d None st ps) ?s1"
    using control_step.relock [of i "ctl rq n d None st ps" r] assms by (simp add: ctl_def put_request_def)
  moreover have "control_step ?s1 (ctl rq n d None st (map wake (ps[i := Returned r d])))"
    using control_step.test [of i ?s1 n r] assms by (simp add: ctl_def test_request_def put_request_def notify_all_def)
  ultimately show ?thesis by auto
qed

text \<open>C13. A request can return too early. There is a run in which a thread returns from \<open>handle_requested_gc\<close> while the cycle it
  waits for is still running: the identifier is raised when a cycle starts, and a thread that returns from an earlier
  request drops the monitor's guard, which notifies all waiting threads.\<close>

theorem gc_request_returns_early:
  "\<exists>h s r d. control_step\<^sup>*\<^sup>* (control_start 2 h) s \<and> ct_requests s ! 1 = Returned r d \<and> d < r \<and> ct_ended s < r \<and>
    ct_state s = InCycle False True"
proof -
  let ?h = "ct_heuristics (ctl False 0 0 None RoundTop [])"
  have 0: "control_start 2 ?h = ctl False 0 0 None RoundTop [NoRequest, NoRequest]" by (simp add: control_start_def ctl_def numeral_2_eq_2)
  have 1: "control_step\<^sup>*\<^sup>* (ctl False 0 0 None RoundTop [NoRequest, NoRequest]) (ctl True 0 0 None RoundTop [Awaits 1, NoRequest])"
    using ctl_request [of 0 "[NoRequest, NoRequest]" False 0 0 RoundTop] by simp
  have 2: "control_step\<^sup>*\<^sup>* (ctl True 0 0 None RoundTop [Awaits 1, NoRequest]) (ctl True 1 0 None (InCycle False True) [Awaits 1, NoRequest])"
    using ctl_start_cycle [of 0 0] by simp
  have 3: "control_step\<^sup>*\<^sup>* (ctl True 1 0 None (InCycle False True) [Awaits 1, NoRequest]) (ctl False 1 1 None RoundTop [Woken 1, NoRequest])"
    using ctl_end_cycle [of 1 0 "[Awaits 1, NoRequest]"] by (simp add: wake_def)
  have 4: "control_step\<^sup>*\<^sup>* (ctl False 1 1 None RoundTop [Woken 1, NoRequest]) (ctl True 1 1 None RoundTop [Woken 1, Awaits 2])"
    using ctl_request [of 1 "[Woken 1, NoRequest]" False 1 1 RoundTop] by (simp add: numeral_2_eq_2)
  have 5: "control_step\<^sup>*\<^sup>* (ctl True 1 1 None RoundTop [Woken 1, Awaits 2]) (ctl True 2 1 None (InCycle False True) [Woken 1, Awaits 2])"
    using ctl_start_cycle [of 1 1] by (simp add: numeral_2_eq_2)
  have 6: "control_step\<^sup>*\<^sup>* (ctl True 2 1 None (InCycle False True) [Woken 1, Awaits 2]) (ctl True 2 1 None (InCycle False True) [Returned 1 1, Woken 2])"
    using ctl_return [of 0 "[Woken 1, Awaits 2]" 1 2 True 1 "InCycle False True"] by (simp add: wake_def)
  have 7: "control_step\<^sup>*\<^sup>* (ctl True 2 1 None (InCycle False True) [Returned 1 1, Woken 2]) (ctl True 2 1 None (InCycle False True) [Returned 1 1, Returned 2 1])"
    using ctl_return [of 1 "[Returned 1 1, Woken 2]" 2 2 True 1 "InCycle False True"] by (simp add: wake_def)
  have "control_step\<^sup>*\<^sup>* (control_start 2 ?h) (ctl True 2 1 None (InCycle False True) [Returned 1 1, Returned 2 1])"
    unfolding 0 using 1 2 3 4 5 6 7 by (meson rtranclp_trans)
  then show ?thesis
    by (intro exI [of _ ?h] exI [of _ "ctl True 2 1 None (InCycle False True) [Returned 1 1, Returned 2 1]"] exI [of _ 2] exI [of _ 1]) (simp add: ctl_def)
qed

theorem gc_request_not_lost_witness:
  "\<exists>s'. (control_step ^^ 6) (ctl True 0 0 None RoundTop [Awaits 1, NoRequest]) s' \<and> ct_requests s' = [Woken 1, NoRequest]"
proof -
  let ?h = "ct_heuristics (ctl False 0 0 None RoundTop [])"
  have "control_step\<^sup>*\<^sup>* (control_start 2 ?h) (ctl True 0 0 None RoundTop [Awaits 1, NoRequest])"
    using ctl_request [of 0 "[NoRequest, NoRequest]" False 0 0 RoundTop] by (simp add: control_start_def ctl_def numeral_2_eq_2)
  from gc_request_not_lost [OF this] show ?thesis by (auto simp: ctl_def wake_def)
qed

end
