(* ===== verification/HashMapModel.thy ===== *)
theory HashMapModel
  imports HeapUtil Complex_Main
begin

text \<open>
  The hash map that the collector offers to its users, \<open>system/collections/hashmap.rs\<close>: a table of chains, grown by
  doubling. A chain of nodes linked by \<open>next\<close> is a list, since no two chains share a node. The hash of a key is computed
  by a \<open>BuildHasher\<close> the user supplies: a parameter. The load factor, an \<open>f32\<close>, is a rational number: capacities are
  powers of two, so that its product with a capacity is exact. The map object, its nodes and its tables come from the collector's
  heap: an allocator is a parameter, a function of the state of the world that may refuse a request, which panics. Write barriers
  do not change the contents of the map.
\<close>

section \<open>Data\<close>

record ('k, 'v) Node =
  nd_hash :: u64
  nd_key :: 'k
  nd_value :: "'v option"

record ('k, 'v) HashMap =
  hm_table :: "('k, 'v) Node list list option"
  hm_size :: nat
  hm_mod_count :: nat
  hm_threshold :: nat
  hm_load_factor :: rat

definition DEFAULT_INITIAL_CAPACITY :: nat where "DEFAULT_INITIAL_CAPACITY = 2 ^ 4"
definition MAXIMUM_CAPACITY :: nat where "MAXIMUM_CAPACITY = 2 ^ 30"
definition DEFAULT_LOAD_FACTOR :: rat where "DEFAULT_LOAD_FACTOR = 3 / 4"
definition U32_MAX :: nat where "U32_MAX = 2 ^ 32 - 1"

text \<open>\<open>+= 1\<close> on the counters, which are \<open>u32\<close>.\<close>

definition inc_u32 :: "nat \<Rightarrow> nat res" where
  "inc_u32 n = (if n < U32_MAX then Inr (n + 1) else Inl ArithOverflow)"

section \<open>Allocation\<close>

text \<open>What the map asks the heap for, and whether the requests \<open>rs\<close> are granted one after the other.\<close>

datatype alloc_request = MapObject | NodeObject | TableArray nat

type_synonym 'w allocator = "'w \<Rightarrow> alloc_request \<Rightarrow> 'w option"

definition grant :: "'w allocator \<Rightarrow> 'w \<Rightarrow> alloc_request \<Rightarrow> 'w res" where
  "grant al w r = (case al w r of None \<Rightarrow> Inl OutOfMemory | Some w \<Rightarrow> Inr w)"

fun grants :: "'w allocator \<Rightarrow> 'w \<Rightarrow> alloc_request list \<Rightarrow> 'w option" where
  "grants al w [] = Some w"
| "grants al w (r # rs) = (case al w r of None \<Rightarrow> None | Some w \<Rightarrow> grants al w rs)"

text \<open>Some sequence of requests, made from now on, is not granted.\<close>

definition refuses :: "'w allocator \<Rightarrow> 'w \<Rightarrow> bool" where
  "refuses al w \<longleftrightarrow> (\<exists>rs. grants al w rs = None)"

section \<open>Construction\<close>

definition leading_zeros64 :: "nat \<Rightarrow> nat" where
  "leading_zeros64 n = 64 - bit_length n"

text \<open>A shift by 64 overflows, as does the subtraction for capacity 0.\<close>

definition table_size_for :: "nat \<Rightarrow> nat res" where
  "table_size_for cap = rbind (checked_sub cap 1) (\<lambda>c.
     if leading_zeros64 c = 64 then Inl ArithOverflow
     else let n = (2 ^ 64 - 1) div 2 ^ leading_zeros64 c in
          Inr (if n \<ge> MAXIMUM_CAPACITY then MAXIMUM_CAPACITY else n + 1))"

definition hm_with_capacity_and_load_factor :: "'w allocator \<Rightarrow> nat \<Rightarrow> rat \<Rightarrow> 'w \<Rightarrow> ('w \<times> ('k, 'v) HashMap) res" where
  "hm_with_capacity_and_load_factor al cap lf w =
     (let cap = (if cap > MAXIMUM_CAPACITY then MAXIMUM_CAPACITY else cap) in
      if lf \<le> 0 then Inl ExplicitPanic
      else rbind (table_size_for cap) (\<lambda>thr. rbind (grant al w MapObject) (\<lambda>w.
        Inr (w, \<lparr>hm_table = None, hm_size = 0, hm_mod_count = 0, hm_threshold = thr, hm_load_factor = lf\<rparr>))))"

definition hm_with_capacity :: "'w allocator \<Rightarrow> nat \<Rightarrow> 'w \<Rightarrow> ('w \<times> ('k, 'v) HashMap) res" where
  "hm_with_capacity al cap = hm_with_capacity_and_load_factor al cap DEFAULT_LOAD_FACTOR"

definition hm_new :: "'w allocator \<Rightarrow> 'w \<Rightarrow> ('w \<times> ('k, 'v) HashMap) res" where
  "hm_new al = hm_with_capacity al DEFAULT_INITIAL_CAPACITY"

definition next_power_of_two :: "nat \<Rightarrow> nat" where
  "next_power_of_two n = (if n \<le> 1 then 1 else 2 ^ (64 - leading_zeros64 (n - 1)))"

definition capacity_from_threshold :: "('k, 'v) HashMap \<Rightarrow> nat" where
  "capacity_from_threshold m = (if hm_threshold m = 0 then 0 else next_power_of_two (hm_threshold m * 2) mod 2 ^ 32)"

section \<open>Lookup\<close>

text \<open>The bucket of a hash: \<open>(n - 1) & hash\<close>.\<close>

definition bucket_of :: "nat \<Rightarrow> u64 \<Rightarrow> nat" where
  "bucket_of n h = unat (of_nat (n - 1) AND h)"

fun find_node :: "u64 \<Rightarrow> 'k \<Rightarrow> ('k, 'v) Node list \<Rightarrow> ('k, 'v) Node option" where
  "find_node h k [] = None"
| "find_node h k (n # ns) = (if nd_key n = k \<and> nd_hash n = h then Some n else find_node h k ns)"

definition hm_get_node :: "('k \<Rightarrow> u64) \<Rightarrow> ('k, 'v) HashMap \<Rightarrow> 'k \<Rightarrow> ('k, 'v) Node option" where
  "hm_get_node hash m k = (case hm_table m of None \<Rightarrow> None
     | Some tab \<Rightarrow> if tab = [] then None else find_node (hash k) k (tab ! bucket_of (length tab) (hash k)))"

definition hm_get :: "('k \<Rightarrow> u64) \<Rightarrow> ('k, 'v) HashMap \<Rightarrow> 'k \<Rightarrow> 'v option" where
  "hm_get hash m k = (case hm_get_node hash m k of None \<Rightarrow> None | Some n \<Rightarrow> nd_value n)"

definition hm_contains :: "('k \<Rightarrow> u64) \<Rightarrow> ('k, 'v) HashMap \<Rightarrow> 'k \<Rightarrow> bool" where
  "hm_contains hash m k = (hm_get_node hash m k \<noteq> None)"

section \<open>Growing\<close>

text \<open>The new capacity and threshold; \<open>None\<close> when the table stays as it is.\<close>

definition resize_sizes :: "nat \<Rightarrow> nat \<Rightarrow> rat \<Rightarrow> (nat \<times> nat) option" where
  "resize_sizes old_cap old_thr lf =
     (let sizes = (if old_cap > 0 then
             if old_cap \<ge> MAXIMUM_CAPACITY then None
             else Some (old_cap * 2, if old_cap * 2 < MAXIMUM_CAPACITY \<and> old_cap \<ge> DEFAULT_INITIAL_CAPACITY then (old_thr * 2) mod 2 ^ 32 else 0)
           else if old_thr > 0 then Some (old_thr, 0)
           else Some (DEFAULT_INITIAL_CAPACITY, nat \<lfloor>DEFAULT_LOAD_FACTOR * of_nat DEFAULT_INITIAL_CAPACITY\<rfloor>))
      in case sizes of None \<Rightarrow> None
         | Some (new_cap, new_thr) \<Rightarrow>
             let ft = of_nat new_cap * lf in
             Some (new_cap, if new_thr \<noteq> 0 then new_thr
               else if ft < of_nat MAXIMUM_CAPACITY \<and> new_cap < MAXIMUM_CAPACITY then nat \<lfloor>ft + 1 / 2\<rfloor> else U32_MAX))"

definition rehash_node :: "nat \<Rightarrow> ('k, 'v) Node \<Rightarrow> ('k, 'v) Node list list \<Rightarrow> ('k, 'v) Node list list" where
  "rehash_node new_cap n tab = (let i = unat (nd_hash n) mod new_cap in tab[i := n # tab ! i])"

definition hm_resize :: "'w allocator \<Rightarrow> 'w \<times> ('k, 'v) HashMap \<Rightarrow> ('w \<times> ('k, 'v) HashMap) res" where
  "hm_resize al = (\<lambda>(w, m).
     let old_tab = (case hm_table m of None \<Rightarrow> [] | Some tab \<Rightarrow> tab) in
     case resize_sizes (length old_tab) (hm_threshold m) (hm_load_factor m) of
       None \<Rightarrow> Inr (w, m\<lparr>hm_threshold := U32_MAX\<rparr>)
     | Some (new_cap, new_thr) \<Rightarrow> rbind (grant al w (TableArray new_cap)) (\<lambda>w.
         Inr (w, m\<lparr>hm_threshold := new_thr, hm_table := Some (fold (fold (rehash_node new_cap)) old_tab (replicate new_cap []))\<rparr>)))"

section \<open>Changes\<close>

text \<open>\<open>replace\<close> of the value of the node found by the walk.\<close>

fun replace_value :: "u64 \<Rightarrow> 'k \<Rightarrow> 'v \<Rightarrow> ('k, 'v) Node list \<Rightarrow> ('v option \<times> ('k, 'v) Node list) option" where
  "replace_value h k v [] = None"
| "replace_value h k v (n # ns) =
     (if nd_hash n = h \<and> nd_key n = k then Some (nd_value n, n\<lparr>nd_value := Some v\<rparr> # ns)
      else case replace_value h k v ns of None \<Rightarrow> None | Some (old, ns) \<Rightarrow> Some (old, n # ns))"

text \<open>A new node at the head of its chain; the table grows when the threshold is passed. Also the body of
  \<open>VacantEntry::insert\<close>.\<close>

definition hm_add_node :: "'w allocator \<Rightarrow> u64 \<Rightarrow> 'k \<Rightarrow> 'v \<Rightarrow> 'w \<times> ('k, 'v) HashMap \<Rightarrow> ('w \<times> ('k, 'v) HashMap) res" where
  "hm_add_node al h k v = (\<lambda>(w, m). case hm_table m of None \<Rightarrow> Inl ExplicitPanic
     | Some tab \<Rightarrow> rbind (grant al w NodeObject) (\<lambda>w.
         let i = bucket_of (length tab) h; node = \<lparr>nd_hash = h, nd_key = k, nd_value = Some v\<rparr> in
         rbind (inc_u32 (hm_mod_count m)) (\<lambda>mc. rbind (inc_u32 (hm_size m)) (\<lambda>sz.
           let m = m\<lparr>hm_table := Some (tab[i := node # tab ! i]), hm_mod_count := mc, hm_size := sz\<rparr> in
           if hm_size m > hm_threshold m then hm_resize al (w, m) else Inr (w, m)))))"

definition hm_ensure_table :: "'w allocator \<Rightarrow> 'w \<times> ('k, 'v) HashMap \<Rightarrow> ('w \<times> ('k, 'v) HashMap) res" where
  "hm_ensure_table al = (\<lambda>(w, m). case hm_table m of None \<Rightarrow> hm_resize al (w, m) | Some _ \<Rightarrow> Inr (w, m))"

definition hm_put_val ::
  "'w allocator \<Rightarrow> u64 \<Rightarrow> 'k \<Rightarrow> 'v \<Rightarrow> 'w \<times> ('k, 'v) HashMap \<Rightarrow> ('v option \<times> 'w \<times> ('k, 'v) HashMap) res" where
  "hm_put_val al h k v s = rbind (hm_ensure_table al s) (\<lambda>(w, m).
     case hm_table m of None \<Rightarrow> Inl ExplicitPanic
     | Some tab \<Rightarrow> if tab = [] then Inl ArithOverflow
         else let i = bucket_of (length tab) h in
           case replace_value h k v (tab ! i) of
             Some (old, chain) \<Rightarrow> Inr (old, w, m\<lparr>hm_table := Some (tab[i := chain])\<rparr>)
           | None \<Rightarrow> rbind (hm_add_node al h k v (w, m)) (\<lambda>s. Inr (None, s)))"

definition hm_put ::
  "'w allocator \<Rightarrow> ('k \<Rightarrow> u64) \<Rightarrow> 'k \<Rightarrow> 'v \<Rightarrow> 'w \<times> ('k, 'v) HashMap \<Rightarrow> ('v option \<times> 'w \<times> ('k, 'v) HashMap) res" where
  "hm_put al hash k v s = hm_put_val al (hash k) k v s"

text \<open>\<open>remove_node\<close>: the node is looked for along the chain of its bucket; when it is not the first one, the \<open>next\<close> of the
  \<^emph>\<open>first\<close> node is set to the successor of the node.\<close>

definition unlink_node :: "u64 \<Rightarrow> 'k \<Rightarrow> ('k, 'v) Node list \<Rightarrow> (('k, 'v) Node \<times> ('k, 'v) Node list) option" where
  "unlink_node h k chain = (case chain of [] \<Rightarrow> None
     | p # rest \<Rightarrow>
         if nd_hash p = h \<and> nd_key p = k then Some (p, rest)
         else case dropWhile (\<lambda>n. \<not> (nd_hash n = h \<and> nd_key n = k)) rest of
                [] \<Rightarrow> None
              | node # after \<Rightarrow> Some (node, p # after))"

definition hm_remove_node :: "u64 \<Rightarrow> 'k \<Rightarrow> ('k, 'v) HashMap \<Rightarrow> (('k, 'v) Node option \<times> ('k, 'v) HashMap) res" where
  "hm_remove_node h k m = (case hm_table m of None \<Rightarrow> Inr (None, m)
     | Some tab \<Rightarrow> if tab = [] then Inl ArithOverflow
         else let i = bucket_of (length tab) h in
           case unlink_node h k (tab ! i) of
             None \<Rightarrow> Inr (None, m)
           | Some (node, chain) \<Rightarrow>
               rbind (inc_u32 (hm_mod_count m)) (\<lambda>mc. rbind (checked_sub (hm_size m) 1) (\<lambda>sz.
                 Inr (Some node, m\<lparr>hm_table := Some (tab[i := chain]), hm_mod_count := mc, hm_size := sz\<rparr>))))"

definition hm_remove :: "('k \<Rightarrow> u64) \<Rightarrow> 'k \<Rightarrow> ('k, 'v) HashMap \<Rightarrow> ('v option \<times> ('k, 'v) HashMap) res" where
  "hm_remove hash k m = rbind (hm_remove_node (hash k) k m) (\<lambda>(n, m).
     Inr (case n of None \<Rightarrow> None | Some n \<Rightarrow> nd_value n, m))"

definition hm_clear :: "('k, 'v) HashMap \<Rightarrow> ('k, 'v) HashMap res" where
  "hm_clear m = (case hm_table m of None \<Rightarrow> Inr m
     | Some tab \<Rightarrow> rbind (inc_u32 (hm_mod_count m)) (\<lambda>mc.
         Inr (m\<lparr>hm_table := Some (map (\<lambda>_. []) tab), hm_size := 0, hm_mod_count := mc\<rparr>)))"

section \<open>Entries and iteration\<close>

datatype ('k, 'v) entry = Occupied "('k, 'v) Node" | Vacant 'k u64

definition hm_entry ::
  "'w allocator \<Rightarrow> ('k \<Rightarrow> u64) \<Rightarrow> 'k \<Rightarrow> 'w \<times> ('k, 'v) HashMap \<Rightarrow> (('k, 'v) entry \<times> 'w \<times> ('k, 'v) HashMap) res" where
  "hm_entry al hash k = (\<lambda>(w, m). case hm_table m of
     None \<Rightarrow> rbind (hm_resize al (w, m)) (\<lambda>s. Inr (Vacant k (hash k), s))
   | Some tab \<Rightarrow> if tab = [] then Inl ArithOverflow
       else Inr (case find_node (hash k) k (tab ! bucket_of (length tab) (hash k)) of
              Some n \<Rightarrow> Occupied n | None \<Rightarrow> Vacant k (hash k), w, m))"

text \<open>An iterator is a position in the table and the rest of the chain it is in.\<close>

record ('k, 'v) Iter =
  it_index :: nat
  it_entry :: "('k, 'v) Node list"

fun seek_chain :: "('k, 'v) Node list list \<Rightarrow> nat \<Rightarrow> nat \<times> ('k, 'v) Node list" where
  "seek_chain [] i = (i, [])"
| "seek_chain (c # cs) i = (if c \<noteq> [] then (i + 1, c) else seek_chain cs (i + 1))"

definition hm_next :: "('k, 'v) HashMap \<Rightarrow> ('k, 'v) Iter \<Rightarrow> ('k \<times> 'v option) option \<times> ('k, 'v) Iter" where
  "hm_next m it = (case hm_table m of None \<Rightarrow> (None, it)
     | Some tab \<Rightarrow>
         if it_entry it = [] \<and> it_index it \<ge> length tab then (None, it)
         else let it = (if it_entry it = []
                        then let (i, e) = seek_chain (drop (it_index it) tab) (it_index it) in \<lparr>it_index = i, it_entry = e\<rparr>
                        else it)
              in case it_entry it of [] \<Rightarrow> (None, it)
                 | e # es \<Rightarrow> (Some (nd_key e, nd_value e), it\<lparr>it_entry := es\<rparr>))"

text \<open>The pairs that \<open>n\<close> calls of \<open>next\<close> give.\<close>

fun hm_take :: "nat \<Rightarrow> ('k, 'v) HashMap \<Rightarrow> ('k, 'v) Iter \<Rightarrow> ('k \<times> 'v option) list" where
  "hm_take 0 m it = []"
| "hm_take (Suc n) m it = (case hm_next m it of (None, it) \<Rightarrow> [] | (Some x, it) \<Rightarrow> x # hm_take n m it)"

section \<open>The map a hash map stands for\<close>

definition node_pair :: "('k, 'v) Node \<Rightarrow> 'k \<times> 'v" where
  "node_pair n = (nd_key n, the (nd_value n))"

abbreviation chain_map :: "('k, 'v) Node list \<Rightarrow> 'k \<rightharpoonup> 'v" where
  "chain_map ns \<equiv> map_of (map node_pair ns)"

definition hm_nodes :: "('k, 'v) HashMap \<Rightarrow> ('k, 'v) Node list" where
  "hm_nodes m = (case hm_table m of None \<Rightarrow> [] | Some tab \<Rightarrow> concat tab)"

definition hm_abs :: "('k, 'v) HashMap \<Rightarrow> 'k \<rightharpoonup> 'v" where
  "hm_abs m = chain_map (hm_nodes m)"

definition node_ok :: "('k \<Rightarrow> u64) \<Rightarrow> nat \<Rightarrow> nat \<Rightarrow> ('k, 'v) Node \<Rightarrow> bool" where
  "node_ok hash cap i n \<longleftrightarrow> nd_hash n = hash (nd_key n) \<and> unat (hash (nd_key n)) mod cap = i \<and> nd_value n \<noteq> None"

definition chain_ok :: "('k \<Rightarrow> u64) \<Rightarrow> nat \<Rightarrow> nat \<Rightarrow> ('k, 'v) Node list \<Rightarrow> bool" where
  "chain_ok hash cap i ns \<longleftrightarrow> (\<forall>n \<in> set ns. node_ok hash cap i n) \<and> distinct (map nd_key ns)"

definition table_ok :: "('k \<Rightarrow> u64) \<Rightarrow> ('k, 'v) Node list list \<Rightarrow> bool" where
  "table_ok hash tab \<longleftrightarrow> (\<exists>k. 1 \<le> k \<and> k \<le> 30 \<and> length tab = 2 ^ k) \<and> (\<forall>i < length tab. chain_ok hash (length tab) i (tab ! i))"

definition hm_inv :: "('k \<Rightarrow> u64) \<Rightarrow> ('k, 'v) HashMap \<Rightarrow> bool" where
  "hm_inv hash m \<longleftrightarrow> (case hm_table m of
     None \<Rightarrow> hm_size m = 0 \<and> (\<exists>k. 1 \<le> k \<and> k \<le> 30 \<and> hm_threshold m = 2 ^ k)
   | Some tab \<Rightarrow> table_ok hash tab \<and> hm_size m = length (concat tab))"

lemma node_pair_fst [simp]: "fst (node_pair n) = nd_key n"
  by (simp add: node_pair_def)

lemma map_fst_pairs [simp]: "map fst (map node_pair ns) = map nd_key ns" "map (fst \<circ> node_pair) ns = map nd_key ns"
  by (simp_all add: node_pair_def)

lemma bucket_of_mod:
  assumes "k < 64"
  shows "bucket_of (2 ^ k) h = unat h mod 2 ^ k"
proof -
  have "(of_nat (2 ^ k - 1) :: u64) = mask k" by (simp add: mask_eq_exp_minus_1)
  then have "bucket_of (2 ^ k) h = unat (take_bit k h)" unfolding bucket_of_def by (simp only: and.commute take_bit_eq_mask)
  then show ?thesis by (metis take_bit_eq_mod unsigned_take_bit_eq)
qed

lemma set_concat_nth: "x \<in> set (concat xss) \<Longrightarrow> \<exists>i < length xss. x \<in> set (xss ! i)"
  by (metis UN_E in_set_conv_nth set_concat)

lemma map_of_concat_at:
  assumes "b < length xss" "\<And>i. i < length xss \<Longrightarrow> i \<noteq> b \<Longrightarrow> k \<notin> fst ` set (xss ! i)"
  shows "map_of (concat xss) k = map_of (xss ! b) k"
  using assms
proof (induction xss arbitrary: b)
  case (Cons xs xss)
  show ?case
  proof (cases b)
    case 0
    have "k \<notin> fst ` set (xss ! i)" if "i < length xss" for i using Cons.prems(2) [of "Suc i"] that 0 by simp
    then have "k \<notin> fst ` set (concat xss)" using set_concat_nth [of _ xss] by blast
    then have "map_of (concat xss) k = None" by (metis map_of_eq_None_iff)
    then show ?thesis using 0 by (simp add: map_add_def split: option.splits)
  next
    case (Suc c)
    have "k \<notin> fst ` set (xss ! i)" if "i < length xss" "i \<noteq> c" for i using Cons.prems(2) [of "Suc i"] that Suc by simp
    then have "map_of (concat xss) k = map_of (xss ! c) k" using Cons.IH [of c] Cons.prems(1) Suc by simp
    moreover have "map_of xs k = None" using Cons.prems(2) [of 0] Suc by (metis length_Cons map_of_eq_None_iff nat.distinct(1) nth_Cons_0 zero_less_Suc)
    ultimately show ?thesis using Suc by (simp add: map_add_def split: option.splits)
  qed
qed simp

lemma distinct_concat_buckets:
  assumes "\<And>i. i < length xss \<Longrightarrow> distinct (xss ! i) \<and> (\<forall>x \<in> set (xss ! i). b x = i + d)"
  shows "distinct (concat xss)"
  using assms
proof (induction xss arbitrary: d)
  case (Cons xs xss)
  have "distinct (xss ! i) \<and> (\<forall>x \<in> set (xss ! i). b x = i + Suc d)" if "i < length xss" for i using Cons.prems [of "Suc i"] that by simp
  then have "distinct (concat xss)" by (rule Cons.IH)
  moreover have "b x \<noteq> d" if x: "x \<in> set (concat xss)" for x
  proof -
    obtain i where "i < length xss" "x \<in> set (xss ! i)" using set_concat_nth [OF x] by blast
    then show ?thesis using Cons.prems [of "Suc i"] by auto
  qed
  ultimately show ?case using Cons.prems [of 0] by fastforce
qed simp

lemma table_bucket:
  assumes "table_ok hash tab"
  shows "bucket_of (length tab) (hash k) = unat (hash k) mod length tab" "unat (hash k) mod length tab < length tab" "tab \<noteq> []"
proof -
  obtain e where "1 \<le> e" "e \<le> 30" "length tab = 2 ^ e" using assms by (auto simp: table_ok_def)
  then show "bucket_of (length tab) (hash k) = unat (hash k) mod length tab" "unat (hash k) mod length tab < length tab" "tab \<noteq> []"
    using bucket_of_mod [of e "hash k"] by auto
qed

lemma table_node:
  assumes "table_ok hash tab" "i < length tab" "n \<in> set (tab ! i)"
  shows "nd_hash n = hash (nd_key n)" "unat (hash (nd_key n)) mod length tab = i" "nd_value n \<noteq> None"
  using assms unfolding table_ok_def chain_ok_def node_ok_def by metis+

lemma table_lookup:
  assumes "table_ok hash tab"
  shows "chain_map (concat tab) k = chain_map (tab ! (unat (hash k) mod length tab)) k"
proof -
  have "k \<notin> fst ` set (map node_pair (tab ! i))" if "i < length tab" "i \<noteq> unat (hash k) mod length tab" for i
    using table_node(2) [OF assms that(1)] that(2) by auto
  then show ?thesis using map_of_concat_at [of "unat (hash k) mod length tab" "map (map node_pair) tab" k] table_bucket(2) [OF assms, of k]
    by (simp add: map_concat)
qed

lemma table_distinct:
  assumes "table_ok hash tab"
  shows "distinct (map nd_key (concat tab))"
  unfolding map_concat
  by (rule distinct_concat_buckets [where b = "\<lambda>k. unat (hash k) mod length tab" and d = 0])
    (use assms table_node(2) [OF assms] in \<open>auto simp: table_ok_def chain_ok_def\<close>)

lemma chain_find:
  assumes "\<forall>n \<in> set ns. nd_hash n = hash (nd_key n) \<and> nd_value n \<noteq> None"
  shows "(case find_node (hash k) k ns of None \<Rightarrow> None | Some n \<Rightarrow> nd_value n) = chain_map ns k"
    "find_node (hash k) k ns = None \<longleftrightarrow> chain_map ns k = None"
  using assms by (induction ns) (auto simp: node_pair_def)

lemma chain_replace:
  assumes "\<forall>n \<in> set ns. nd_hash n = hash (nd_key n) \<and> nd_value n \<noteq> None"
  shows "replace_value (hash k) k v ns = None \<longleftrightarrow> k \<notin> nd_key ` set ns"
    "replace_value (hash k) k v ns = Some (old, ns') \<Longrightarrow> old = chain_map ns k \<and> chain_map ns' = (chain_map ns)(k \<mapsto> v) \<and>
       map nd_key ns' = map nd_key ns \<and> map nd_hash ns' = map nd_hash ns \<and> (\<forall>n \<in> set ns'. nd_value n \<noteq> None)"
  using assms
proof (induction ns arbitrary: old ns')
  case (Cons n ns)
  { case 1
    then show ?case using Cons.IH(1) by (auto split: option.splits) }
  { case 2
    then show ?case using Cons.IH(2) by (auto simp: node_pair_def fun_upd_twist split: if_splits option.splits) }
qed simp_all

text \<open>Changing one chain of a table.\<close>

lemma table_put:
  assumes t: "table_ok hash tab" and i: "i = unat (hash k) mod length tab" and c: "chain_ok hash (length tab) i ns"
    and m: "chain_map ns = (chain_map (tab ! i))(k := v)"
  shows "table_ok hash (tab[i := ns])" "chain_map (concat (tab[i := ns])) = (chain_map (concat tab))(k := v)"
proof -
  have b: "i < length tab" using table_bucket(2) [OF t] i by simp
  show t': "table_ok hash (tab[i := ns])" using t c b by (auto simp: table_ok_def nth_list_update)
  show "chain_map (concat (tab[i := ns])) = (chain_map (concat tab))(k := v)"
  proof
    fix x
    show "chain_map (concat (tab[i := ns])) x = ((chain_map (concat tab))(k := v)) x"
      unfolding table_lookup [OF t', of x] fun_upd_apply table_lookup [OF t, of x] using m i b by (simp add: nth_list_update)
  qed
qed

lemma length_concat_update:
  "i < length xss \<Longrightarrow> length (concat (xss[i := ys])) + length (xss ! i) = length (concat xss) + length ys"
  using sum_list_update_nat [of i "map length xss" "length ys"] by (simp add: length_concat map_update)

text \<open>Growing: every node moves to its bucket of the new table.\<close>

lemma rehash_node_length [simp]: "length (rehash_node cap n tab) = length tab"
  by (simp add: rehash_node_def Let_def)

lemma fold_rehash_len: "length (fold (rehash_node cap) ns tab) = length tab"
  by (induction ns arbitrary: tab) simp_all

lemma fold_rehash_nth:
  assumes "length tab = cap" "0 < cap" "i < cap"
  shows "fold (rehash_node cap) ns tab ! i = rev (filter (\<lambda>n. unat (nd_hash n) mod cap = i) ns) @ tab ! i"
  using assms
proof (induction ns arbitrary: tab)
  case (Cons n ns)
  then show ?case using Cons.IH [of "rehash_node cap n tab"] by (simp add: rehash_node_def Let_def nth_list_update)
qed simp

lemma map_of_rev: "distinct (map fst xs) \<Longrightarrow> map_of (rev xs) = map_of xs"
  by (subst map_of_inject_set) (simp_all add: rev_map [symmetric])

lemma fold_rehash_length:
  assumes "length tab = cap" "0 < cap"
  shows "length (concat (fold (rehash_node cap) ns tab)) = length ns + length (concat tab)"
  using assms
proof (induction ns arbitrary: tab)
  case (Cons n ns)
  let ?i = "unat (nd_hash n) mod cap"
  have l: "length (rehash_node cap n tab) = cap" using Cons.prems by simp
  have "length (concat (rehash_node cap n tab)) = Suc (length (concat tab))"
    using length_concat_update [of ?i tab "n # tab ! ?i"] Cons.prems by (simp add: rehash_node_def Let_def)
  then show ?case using Cons.IH [OF l Cons.prems(2)] by simp
qed simp

lemma fold_fold_concat: "fold (fold f) xss s = fold f (concat xss) s"
  by (induction xss arbitrary: s) auto

lemma rehash_ok:
  assumes d: "distinct (map nd_key ns)" and n: "\<forall>n \<in> set ns. nd_hash n = hash (nd_key n) \<and> nd_value n \<noteq> None"
    and cap: "cap = 2 ^ k" "1 \<le> k" "k \<le> 30"
  defines "tab \<equiv> fold (rehash_node cap) ns (replicate cap [])"
  shows "table_ok hash tab" "chain_map (concat tab) = chain_map ns" "length (concat tab) = length ns"
proof -
  have c0: "0 < cap" using cap by simp
  have nth: "tab ! i = rev (filter (\<lambda>n. unat (nd_hash n) mod cap = i) ns)" if "i < cap" for i
    using fold_rehash_nth [of "replicate cap []" cap i ns] that c0 by (simp add: tab_def)
  have len: "length tab = cap" by (simp add: tab_def fold_rehash_len)
  show t: "table_ok hash tab"
    using d n cap by (auto simp: table_ok_def len nth chain_ok_def node_ok_def rev_map [symmetric] distinct_map_filter)
  show "length (concat tab) = length ns" using fold_rehash_length [of "replicate cap []" cap ns] c0 by (simp add: tab_def)
  show "chain_map (concat tab) = chain_map ns"
  proof
    fix x
    let ?f = "filter (\<lambda>n. unat (nd_hash n) mod cap = unat (hash x) mod cap) ns"
    have "chain_map (concat tab) x = chain_map (rev ?f) x" using table_lookup [OF t, of x] nth [of "unat (hash x) mod cap"] c0 len by simp
    also have "\<dots> = chain_map ?f x" using map_of_rev [of "map node_pair ?f"] d by (simp add: rev_map distinct_map_filter)
    also have "\<dots> = chain_map ns x" using n by (induction ns) (auto simp: node_pair_def)
    finally show "chain_map (concat tab) x = chain_map ns x" .
  qed
qed

lemma resize_sizes_ok:
  assumes "hm_inv hash m" "resize_sizes (length (case hm_table m of None \<Rightarrow> [] | Some tab \<Rightarrow> tab)) (hm_threshold m) (hm_load_factor m) = Some (cap, thr)"
  shows "\<exists>k. 1 \<le> k \<and> k \<le> 30 \<and> cap = 2 ^ k"
proof (cases "hm_table m")
  case None
  then show ?thesis using assms by (auto simp: hm_inv_def resize_sizes_def Let_def)
next
  case (Some tab)
  then obtain k where k: "1 \<le> k" "k \<le> 30" "length tab = 2 ^ k" using assms(1) by (auto simp: hm_inv_def table_ok_def)
  have "0 < length tab" using k by simp
  then have c: "length tab < MAXIMUM_CAPACITY" "cap = length tab * 2"
    using assms(2) Some by (auto simp: resize_sizes_def Let_def split: if_splits)
  then have "k < 30" using k(3) power_less_imp_less_exp [of "2 :: nat" k 30] by (simp add: MAXIMUM_CAPACITY_def)
  then show ?thesis using c(2) k by (intro exI [of _ "Suc k"]) simp
qed

text \<open>The map after a resize whose table was granted.\<close>

definition hm_grown :: "('k, 'v) HashMap \<Rightarrow> ('k, 'v) HashMap" where
  "hm_grown m =
     (let old_tab = (case hm_table m of None \<Rightarrow> [] | Some tab \<Rightarrow> tab) in
      case resize_sizes (length old_tab) (hm_threshold m) (hm_load_factor m) of
        None \<Rightarrow> m\<lparr>hm_threshold := U32_MAX\<rparr>
      | Some (new_cap, new_thr) \<Rightarrow>
          m\<lparr>hm_threshold := new_thr, hm_table := Some (fold (fold (rehash_node new_cap)) old_tab (replicate new_cap []))\<rparr>)"

lemma refuses_now: "al w r = None \<Longrightarrow> refuses al w"
  unfolding refuses_def by (rule exI [of _ "[r]"]) simp

lemma refuses_later: "al w r = Some w' \<Longrightarrow> refuses al w' \<Longrightarrow> refuses al w"
  unfolding refuses_def by (metis grants.simps(2) option.simps(5))

lemma grant_cases:
  obtains (no) "grant al w r = Inl OutOfMemory" "refuses al w"
    | (yes) w' where "grant al w r = Inr w'" "refuses al w' \<longrightarrow> refuses al w"
  using refuses_now [of al w r] refuses_later [of al w r] by (cases "al w r") (auto simp: grant_def)

lemma hm_resize_cases:
  obtains (no) "hm_resize al (w, m) = Inl OutOfMemory" "refuses al w"
    | (yes) w' where "hm_resize al (w, m) = Inr (w', hm_grown m)" "refuses al w' \<longrightarrow> refuses al w"
proof (cases "resize_sizes (length (case hm_table m of None \<Rightarrow> [] | Some tab \<Rightarrow> tab)) (hm_threshold m) (hm_load_factor m)")
  case None
  then show thesis by (intro yes [of w]) (simp_all add: hm_resize_def hm_grown_def)
next
  case (Some p)
  obtain cap thr where p: "p = (cap, thr)" by (cases p)
  have run: "hm_resize al (w, m) = rbind (grant al w (TableArray cap)) (\<lambda>w. Inr (w, hm_grown m))"
    using Some p by (simp add: hm_resize_def hm_grown_def)
  show thesis by (cases rule: grant_cases [of al w "TableArray cap"]) (use run no yes in auto)
qed

lemma hm_grown_ok:
  assumes inv: "hm_inv hash m"
  shows "hm_inv hash (hm_grown m)" "hm_abs (hm_grown m) = hm_abs m" "hm_size (hm_grown m) = hm_size m"
    "hm_mod_count (hm_grown m) = hm_mod_count m" "hm_table (hm_grown m) \<noteq> None"
    "hm_table m = None \<Longrightarrow> \<exists>n. hm_table (hm_grown m) = Some (replicate n [])"
proof -
  let ?old = "case hm_table m of None \<Rightarrow> [] | Some tab \<Rightarrow> tab"
  have "hm_inv hash (hm_grown m) \<and> hm_abs (hm_grown m) = hm_abs m \<and> hm_size (hm_grown m) = hm_size m \<and>
    hm_mod_count (hm_grown m) = hm_mod_count m \<and> hm_table (hm_grown m) \<noteq> None \<and>
    (hm_table m = None \<longrightarrow> (\<exists>n. hm_table (hm_grown m) = Some (replicate n [])))"
  proof (cases "resize_sizes (length ?old) (hm_threshold m) (hm_load_factor m)")
    case None
    then have "hm_table m \<noteq> None" by (auto simp: resize_sizes_def Let_def split: if_splits option.splits)
    then show ?thesis using inv None by (auto simp: hm_grown_def hm_inv_def hm_abs_def hm_nodes_def)
  next
    case (Some p)
    obtain cap thr where p: "p = (cap, thr)" by (cases p)
    obtain k where k: "cap = 2 ^ k" "1 \<le> k" "k \<le> 30" using resize_sizes_ok [OF inv] Some p by blast
    have o: "distinct (map nd_key (concat ?old))" "\<forall>n \<in> set (concat ?old). nd_hash n = hash (nd_key n) \<and> nd_value n \<noteq> None"
      "length (concat ?old) = hm_size m" "concat ?old = hm_nodes m"
    proof -
      show "concat ?old = hm_nodes m" by (simp add: hm_nodes_def split: option.splits)
      show "length (concat ?old) = hm_size m" using inv by (auto simp: hm_inv_def split: option.splits)
      show "distinct (map nd_key (concat ?old))" using inv table_distinct by (auto simp: hm_inv_def split: option.splits)
      show "\<forall>n \<in> set (concat ?old). nd_hash n = hash (nd_key n) \<and> nd_value n \<noteq> None"
        using inv table_node(1,3) set_concat_nth by (fastforce simp: hm_inv_def split: option.splits)
    qed
    note r = rehash_ok [OF o(1,2) k]
    have m: "hm_grown m = m\<lparr>hm_threshold := thr, hm_table := Some (fold (rehash_node cap) (concat ?old) (replicate cap []))\<rparr>"
      using Some p by (simp add: hm_grown_def fold_fold_concat)
    have "concat ?old = []" if "hm_table m = None" using that by simp
    then show ?thesis using r o(3,4) unfolding m by (auto simp: hm_inv_def hm_abs_def hm_nodes_def)
  qed
  then show "hm_inv hash (hm_grown m)" "hm_abs (hm_grown m) = hm_abs m" "hm_size (hm_grown m) = hm_size m"
    "hm_mod_count (hm_grown m) = hm_mod_count m" "hm_table (hm_grown m) \<noteq> None"
    "hm_table m = None \<Longrightarrow> \<exists>n. hm_table (hm_grown m) = Some (replicate n [])" by blast+
qed

lemma hm_ensure_ok:
  assumes "hm_inv hash m"
  obtains (no) "hm_ensure_table al (w, m) = Inl OutOfMemory" "refuses al w"
    | (yes) w' m' tab where "hm_ensure_table al (w, m) = Inr (w', m')" "refuses al w' \<longrightarrow> refuses al w" "hm_table m' = Some tab" "hm_inv hash m'"
        "hm_abs m' = hm_abs m" "hm_size m' = hm_size m" "hm_mod_count m' = hm_mod_count m"
proof (cases "hm_table m")
  case None
  then show thesis
    by (cases rule: hm_resize_cases [of al w m]) (use no yes hm_grown_ok(1-5) [OF assms] in \<open>auto simp: hm_ensure_table_def\<close>)
next
  case (Some tab)
  then show thesis using assms by (intro yes [of w m tab]) (simp_all add: hm_ensure_table_def)
qed

lemma inv_chain:
  fixes k :: 'k
  assumes "hm_inv hash m" "hm_table m = Some tab"
  defines "b \<equiv> unat (hash k) mod length tab"
  shows "table_ok hash tab" "b < length tab" "bucket_of (length tab) (hash k) = b" "tab \<noteq> []" "hm_abs m k = chain_map (tab ! b) k"
    "\<forall>n \<in> set (tab ! b). nd_hash n = hash (nd_key n) \<and> nd_value n \<noteq> None" "chain_ok hash (length tab) b (tab ! b)"
proof -
  show t: "table_ok hash tab" using assms(1,2) by (simp add: hm_inv_def)
  note bk = table_bucket(1,2) [OF t, of k] table_bucket(3) [OF t]
  show "b < length tab" "bucket_of (length tab) (hash k) = b" "tab \<noteq> []" using bk by (simp_all add: b_def)
  then show "\<forall>n \<in> set (tab ! b). nd_hash n = hash (nd_key n) \<and> nd_value n \<noteq> None" "chain_ok hash (length tab) b (tab ! b)"
    using table_node [OF t] t by (auto simp: table_ok_def)
  show "hm_abs m k = chain_map (tab ! b) k" using table_lookup [OF t, of k] assms(2) by (simp add: hm_abs_def hm_nodes_def b_def)
qed

lemma hm_get_ok:
  assumes "hm_inv hash m"
  shows "hm_get hash m k = hm_abs m k" "hm_contains hash m k \<longleftrightarrow> k \<in> dom (hm_abs m)"
proof -
  have "hm_get hash m k = hm_abs m k \<and> (hm_contains hash m k \<longleftrightarrow> k \<in> dom (hm_abs m))"
  proof (cases "hm_table m")
    case None
    then show ?thesis by (simp add: hm_get_def hm_contains_def hm_get_node_def hm_abs_def hm_nodes_def)
  next
    case (Some tab)
    note c = inv_chain [OF assms Some]
    show ?thesis using c(3,5) [of k] c(4) chain_find [OF c(6), of k] Some
      by (auto simp: hm_get_def hm_contains_def hm_get_node_def domIff)
  qed
  then show "hm_get hash m k = hm_abs m k" "hm_contains hash m k \<longleftrightarrow> k \<in> dom (hm_abs m)" by blast+
qed

lemma hm_size_card:
  assumes "hm_inv hash m"
  shows "hm_size m = card (dom (hm_abs m))"
proof (cases "hm_table m")
  case None
  then show ?thesis using assms by (simp add: hm_inv_def hm_abs_def hm_nodes_def)
next
  case (Some tab)
  then have t: "table_ok hash tab" "hm_size m = length (concat tab)" using assms by (simp_all add: hm_inv_def)
  have "dom (hm_abs m) = nd_key ` set (concat tab)" using Some by (simp add: hm_abs_def hm_nodes_def dom_map_of_conv_image_fst image_image)
  then show ?thesis using t(2) table_distinct [OF t(1)] by (metis distinct_card length_map list.set_map)
qed

section \<open>Operations\<close>

lemma chain_map_None: "chain_map ns k = None \<longleftrightarrow> k \<notin> nd_key ` set ns"
  by (simp add: map_of_eq_None_iff image_image)

lemma map_eq_nthD: "map f xs = map f ys \<Longrightarrow> i < length xs \<Longrightarrow> f (xs ! i) = f (ys ! i)"
  by (metis length_map nth_map)

definition hm_room :: "('k, 'v) HashMap \<Rightarrow> nat" where
  "hm_room m = U32_MAX - max (hm_size m) (hm_mod_count m)"

lemma hm_add_node_ok:
  assumes inv: "hm_inv hash m" and tab: "hm_table m = Some tab" and new: "hm_abs m k = None" and room: "0 < hm_room m"
  obtains (no) "hm_add_node al (hash k) k v (w, m) = Inl OutOfMemory" "refuses al w"
    | (yes) w' m' where "hm_add_node al (hash k) k v (w, m) = Inr (w', m')" "refuses al w' \<longrightarrow> refuses al w" "hm_inv hash m'"
        "hm_abs m' = (hm_abs m)(k \<mapsto> v)" "hm_room m \<le> Suc (hm_room m')"
proof -
  note c = inv_chain [OF inv tab]
  let ?b = "unat (hash k) mod length tab" and ?n = "\<lparr>nd_hash = hash k, nd_key = k, nd_value = Some v\<rparr>"
  let ?m = "m\<lparr>hm_table := Some (tab[?b := ?n # tab ! ?b]), hm_mod_count := Suc (hm_mod_count m), hm_size := Suc (hm_size m)\<rparr>"
  have "k \<notin> nd_key ` set (tab ! ?b)" using c(5) [of k] new chain_map_None by metis
  then have ch: "chain_ok hash (length tab) ?b (?n # tab ! ?b)" using c(7) [of k] by (simp add: chain_ok_def node_ok_def)
  note t = table_put [OF c(1) refl ch, of "Some v"]
  have "length (concat (tab[?b := ?n # tab ! ?b])) = Suc (hm_size m)"
    using length_concat_update [OF c(2), of k "?n # tab ! ?b"] inv tab by (simp add: hm_inv_def)
  then have m: "hm_inv hash ?m" "hm_abs ?m = (hm_abs m)(k \<mapsto> v)"
    using t tab by (simp_all add: node_pair_def hm_inv_def hm_abs_def hm_nodes_def)
  have "hm_size m < U32_MAX" "hm_mod_count m < U32_MAX" using room by (simp_all add: hm_room_def)
  then have run: "hm_add_node al (hash k) k v (w, m) = rbind (grant al w NodeObject) (\<lambda>w.
      if hm_threshold m < Suc (hm_size m) then hm_resize al (w, ?m) else Inr (w, ?m))"
    using tab c(3) [of k] by (simp add: hm_add_node_def inc_u32_def Let_def cong: if_cong)
  note r = hm_grown_ok [OF m(1)]
  show thesis
  proof (cases rule: grant_cases [of al w NodeObject])
    case g: no
    then show thesis using no run by simp
  next
    case g: (yes w1)
    show thesis
    proof (cases "hm_threshold m < Suc (hm_size m)")
      case True
      then have run': "hm_add_node al (hash k) k v (w, m) = hm_resize al (w1, ?m)" using run g(1) by simp
      show thesis
        by (cases rule: hm_resize_cases [of al w1 ?m])
          (use no yes run' g(2) m r in \<open>auto simp: hm_room_def\<close>)
    next
      case False
      then show thesis using run g m by (intro yes [of w1 ?m]) (simp_all add: hm_room_def)
    qed
  qed
qed

lemma hm_put_ok:
  assumes inv: "hm_inv hash m" and room: "0 < hm_room m"
  obtains (no) "hm_put al hash k v (w, m) = Inl OutOfMemory" "refuses al w"
    | (yes) w' m' where "hm_put al hash k v (w, m) = Inr (hm_abs m k, w', m')" "refuses al w' \<longrightarrow> refuses al w" "hm_inv hash m'"
        "hm_abs m' = (hm_abs m)(k \<mapsto> v)" "hm_room m \<le> Suc (hm_room m')"
proof (cases rule: hm_ensure_ok [OF inv, of al w])
  case 1
  then show thesis using no by (simp add: hm_put_def hm_put_val_def)
next
  case en: (2 w1 m1 tab)
  note e = en(3-7)
  note c = inv_chain [OF e(2,1)]
  let ?b = "unat (hash k) mod length tab"
  have room': "hm_room m1 = hm_room m" using e(4,5) by (simp add: hm_room_def)
  note rp = chain_replace [OF c(6) [of k], of k v]
  show thesis
  proof (cases "replace_value (hash k) k v (tab ! ?b)")
    case None
    then have "hm_abs m1 k = None" using rp(1) c(5) [of k] chain_map_None by metis
    have run: "hm_put al hash k v (w, m) = rbind (hm_add_node al (hash k) k v (w1, m1)) (\<lambda>s. Inr (hm_abs m k, s))"
      using en(1) None e(1,3) c(3) [of k] c(4) \<open>hm_abs m1 k = None\<close> by (simp add: hm_put_def hm_put_val_def Let_def)
    have room1: "0 < hm_room m1" using room room' by simp
    show thesis
      by (cases rule: hm_add_node_ok [OF e(2,1) \<open>hm_abs m1 k = None\<close> room1, of al v w1])
        (use no yes run e(3) en(2) room' in \<open>auto\<close>)
  next
    case (Some p)
    obtain old ns where p: "p = (old, ns)" by (cases p)
    note rs = rp(2) [OF Some [unfolded p]]
    let ?m' = "m1\<lparr>hm_table := Some (tab[?b := ns])\<rparr>"
    have l: "length ns = length (tab ! ?b)" using rs map_eq_imp_length_eq by blast
    have "node_ok hash (length tab) ?b (ns ! i)" if "i < length ns" for i
    proof -
      have "tab ! ?b ! i \<in> set (tab ! ?b)" "ns ! i \<in> set ns" using that l by simp_all
      then show ?thesis using c(7) [of k] rs map_eq_nthD [of nd_key ns "tab ! ?b" i] map_eq_nthD [of nd_hash ns "tab ! ?b" i] that
        by (simp add: chain_ok_def node_ok_def)
    qed
    then have ch: "chain_ok hash (length tab) ?b ns" using c(7) [of k] rs by (simp add: chain_ok_def) (metis in_set_conv_nth)
    note t = table_put [OF c(1) refl ch, of "Some v"]
    have "length (concat (tab[?b := ns])) = hm_size m"
      using length_concat_update [OF c(2), of k ns] e l by (simp add: hm_inv_def)
    then have m': "hm_inv hash ?m'" "hm_abs ?m' = (hm_abs m)(k \<mapsto> v)"
      using t rs e by (simp_all add: hm_inv_def hm_abs_def hm_nodes_def)
    have run: "hm_put al hash k v (w, m) = Inr (hm_abs m k, w1, ?m')"
      using en(1) Some p e(1,3) c(3,5) [of k] c(4) rs by (simp add: hm_put_def hm_put_val_def Let_def)
    show thesis by (rule yes [OF run en(2) m']) (use room' in \<open>simp add: hm_room_def\<close>)
  qed
qed

text \<open>An insertion through an entry is a \<open>put\<close>.\<close>

definition entry_insert ::
  "'w allocator \<Rightarrow> 'v \<Rightarrow> ('k, 'v) entry \<times> 'w \<times> ('k, 'v) HashMap \<Rightarrow> ('v option \<times> 'w \<times> ('k, 'v) HashMap) res" where
  "entry_insert al v = (\<lambda>(e, w, m). case e of
     Vacant k h \<Rightarrow> rbind (hm_add_node al h k v (w, m)) (\<lambda>s. Inr (None, s))
   | Occupied n \<Rightarrow> (case hm_table m of None \<Rightarrow> Inl ExplicitPanic
      | Some tab \<Rightarrow> let i = bucket_of (length tab) (nd_hash n) in
          case replace_value (nd_hash n) (nd_key n) v (tab ! i) of None \<Rightarrow> Inl ExplicitPanic
          | Some (old, chain) \<Rightarrow> Inr (old, w, m\<lparr>hm_table := Some (tab[i := chain])\<rparr>)))"

lemma find_replace:
  "find_node h k ns = None \<longleftrightarrow> replace_value h k v ns = None"
  "find_node h k ns = Some n \<Longrightarrow> nd_hash n = h \<and> nd_key n = k"
  by (induction ns) (auto split: option.splits if_splits)

lemma entry_insert_eq:
  assumes "hm_inv hash m"
  shows "rbind (hm_entry al hash k (w, m)) (entry_insert al v) = hm_put al hash k v (w, m)"
proof (cases "hm_table m")
  case None
  obtain n where n: "hm_table (hm_grown m) = Some (replicate n [])" using hm_grown_ok(6) [OF assms None] by blast
  note c = inv_chain [OF hm_grown_ok(1) [OF assms] n]
  have "n \<noteq> 0" using c(4) by simp
  then show ?thesis using None n c(2,3) [of k]
    by (cases rule: hm_resize_cases [of al w m])
      (simp_all add: hm_entry_def entry_insert_def hm_put_def hm_put_val_def hm_ensure_table_def Let_def)
next
  case (Some tab)
  note c = inv_chain [OF assms Some]
  let ?b = "unat (hash k) mod length tab"
  show ?thesis
  proof (cases "find_node (hash k) k (tab ! ?b)")
    case None
    then show ?thesis using Some c(3) [of k] c(4) find_replace(1) [of "hash k" k "tab ! ?b" v]
      by (simp add: hm_entry_def entry_insert_def hm_put_def hm_put_val_def hm_ensure_table_def Let_def)
  next
    case (Some n)
    then show ?thesis using \<open>hm_table m = Some tab\<close> c(3) [of k] c(4) find_replace(1) [of "hash k" k "tab ! ?b" v] find_replace(2) [OF Some]
      by (auto simp: hm_entry_def entry_insert_def hm_put_def hm_put_val_def hm_ensure_table_def Let_def split: option.splits)
  qed
qed

text \<open>What \<open>remove_node\<close> drops besides the key: the nodes between the first one of the chain and the node of the key.\<close>

definition skipped_nodes :: "'k \<Rightarrow> ('k, 'v) Node list \<Rightarrow> ('k, 'v) Node list" where
  "skipped_nodes k ns = (case ns of [] \<Rightarrow> []
     | p # rest \<Rightarrow> if nd_key p = k \<or> k \<notin> nd_key ` set rest then [] else takeWhile (\<lambda>n. nd_key n \<noteq> k) rest)"

definition hm_skipped :: "('k \<Rightarrow> u64) \<Rightarrow> ('k, 'v) HashMap \<Rightarrow> 'k \<Rightarrow> 'k set" where
  "hm_skipped hash m k = (case hm_table m of None \<Rightarrow> {}
     | Some tab \<Rightarrow> nd_key ` set (skipped_nodes k (tab ! bucket_of (length tab) (hash k))))"

lemma chain_unlink_none:
  assumes "\<forall>n \<in> set ns. nd_hash n = hash (nd_key n)" "k \<notin> nd_key ` set ns"
  shows "unlink_node (hash k) k ns = None"
proof (cases ns)
  case (Cons p rest)
  have dw: "dropWhile (\<lambda>n. \<not> (nd_hash n = hash k \<and> nd_key n = k)) rest = []" using assms(2) Cons by (auto simp: dropWhile_eq_Nil_conv)
  show ?thesis using assms(2) unfolding unlink_node_def Cons list.case dw by auto
qed (simp add: unlink_node_def)

lemma split_chain:
  assumes "k \<in> nd_key ` set rest"
  obtains n after where "rest = takeWhile (\<lambda>n. nd_key n \<noteq> k) rest @ n # after" "nd_key n = k"
proof -
  let ?tw = "takeWhile (\<lambda>n. nd_key n \<noteq> k) rest" and ?dw = "dropWhile (\<lambda>n. nd_key n \<noteq> k) rest"
  have ne: "?dw \<noteq> []" using assms by (auto simp: dropWhile_eq_Nil_conv)
  then have "nd_key (hd ?dw) = k" using hd_dropWhile [OF ne] by simp
  moreover have "rest = ?tw @ hd ?dw # tl ?dw" using ne by simp
  ultimately show thesis using that by blast
qed

lemma chain_unlink:
  assumes h: "\<forall>n \<in> set ns. nd_hash n = hash (nd_key n)" and d: "distinct (map nd_key ns)" and k: "k \<in> nd_key ` set ns"
  obtains n ns' where "unlink_node (hash k) k ns = Some (n, ns')" "n \<in> set ns" "nd_key n = k" "set ns' \<subseteq> set ns" "distinct (map nd_key ns')"
    "chain_map ns' = chain_map ns |` (- insert k (nd_key ` set (skipped_nodes k ns)))"
    "length ns = Suc (length ns') + length (skipped_nodes k ns)"
proof -
  obtain p rest where ns: "ns = p # rest" using k by (cases ns) auto
  have hp: "nd_hash p = hash (nd_key p)" using h ns by simp
  show thesis
  proof (cases "nd_key p = k")
    case True
    have "chain_map rest = chain_map ns |` (- {k})"
      using True d ns chain_map_None [of rest k] by (auto simp: restrict_map_def fun_eq_iff node_pair_def)
    then show thesis using True ns d hp
      by (intro that [of p rest]) (auto simp: unlink_node_def skipped_nodes_def)
  next
    case False
    then have kr: "k \<in> nd_key ` set rest" using k ns by auto
    let ?tw = "takeWhile (\<lambda>n. nd_key n \<noteq> k) rest"
    obtain n after where r: "rest = ?tw @ n # after" "nd_key n = k" by (rule split_chain [OF kr])
    have n_in: "n \<in> set rest" by (subst r(1)) simp
    have "dropWhile (\<lambda>n. \<not> (nd_hash n = hash k \<and> nd_key n = k)) rest = dropWhile (\<lambda>n. nd_key n \<noteq> k) rest"
      using h ns by (intro dropWhile_cong) auto
    also have "\<dots> = n # after" using r by (metis append_same_eq takeWhile_dropWhile_id same_append_eq)
    finally have u: "unlink_node (hash k) k ns = Some (n, p # after)" using False ns by (simp add: unlink_node_def)
    have sk: "skipped_nodes k ns = ?tw" using False kr ns by (simp add: skipped_nodes_def)
    have dk: "distinct (nd_key p # map nd_key ?tw @ k # map nd_key after)"
      using d r(2) unfolding ns by (subst (asm) r(1)) simp
    have cm: "chain_map ns x = (if x = nd_key p then Some (the (nd_value p)) else case chain_map ?tw x of Some v \<Rightarrow> Some v
        | None \<Rightarrow> if x = k then Some (the (nd_value n)) else chain_map after x)" for x
      unfolding ns by (subst r(1)) (auto simp: node_pair_def map_add_def r(2) split: option.splits)
    have "chain_map (p # after) = chain_map ns |` (- insert k (nd_key ` set ?tw))"
    proof
      fix x
      have ak: "k \<notin> nd_key ` set after" using dk by simp
      have "x \<notin> nd_key ` set after" "x \<noteq> nd_key p" if "x \<in> nd_key ` set ?tw"
        using that dk by (simp_all only: distinct.simps distinct_append set_map set_append list.set) blast+
      then have "chain_map after k = None" "x \<in> nd_key ` set ?tw \<Longrightarrow> chain_map after x = None \<and> x \<noteq> nd_key p"
        "x \<notin> nd_key ` set ?tw \<Longrightarrow> chain_map ?tw x = None"
        using ak chain_map_None by metis+
      then show "chain_map (p # after) x = (chain_map ns |` (- insert k (nd_key ` set ?tw))) x"
        using False by (auto simp: restrict_map_def cm node_pair_def)
    qed
    moreover have "length rest = length ?tw + Suc (length after)" by (subst r(1)) simp
    moreover have "set after \<subseteq> set rest" using arg_cong [OF r(1), of set] by auto
    ultimately show thesis using u n_in r(2) dk ns sk by (intro that [OF u]) auto
  qed
qed

lemma hm_remove_absent:
  assumes "hm_inv hash m" "hm_abs m k = None"
  shows "hm_remove hash k m = Inr (None, m)"
proof (cases "hm_table m")
  case (Some tab)
  note c = inv_chain [OF assms(1) Some]
  have "k \<notin> nd_key ` set (tab ! (unat (hash k) mod length tab))" using c(5) [of k] assms(2) chain_map_None by metis
  then have "unlink_node (hash k) k (tab ! (unat (hash k) mod length tab)) = None" using c(6) [of k] by (intro chain_unlink_none) auto
  then show ?thesis using Some c(3) [of k] c(4) by (simp add: hm_remove_def hm_remove_node_def Let_def)
qed (simp add: hm_remove_def hm_remove_node_def)

lemma skipped_subset: "set (skipped_nodes k ns) \<subseteq> set ns"
  by (cases ns) (auto simp: skipped_nodes_def dest: set_takeWhileD)

lemma hm_remove_present:
  assumes inv: "hm_inv hash m" and v: "hm_abs m k = Some v" and mc: "hm_mod_count m < U32_MAX"
  obtains m' where "hm_remove hash k m = Inr (Some v, m')" "hm_abs m' = hm_abs m |` (- insert k (hm_skipped hash m k))"
    "hm_size m = Suc (hm_size m')" "hm_skipped hash m k = {} \<longrightarrow> hm_inv hash m'"
proof -
  obtain tab where tab: "hm_table m = Some tab" using v by (cases "hm_table m") (auto simp: hm_abs_def hm_nodes_def)
  note c = inv_chain [OF inv tab]
  let ?b = "unat (hash k) mod length tab"
  have kin: "k \<in> nd_key ` set (tab ! ?b)" using c(5) [of k] v chain_map_None by (metis option.distinct(1))
  have d: "distinct (map nd_key (tab ! ?b))" using c(7) [of k] by (simp add: chain_ok_def)
  obtain n ns where u: "unlink_node (hash k) k (tab ! ?b) = Some (n, ns)" "n \<in> set (tab ! ?b)" "nd_key n = k" "set ns \<subseteq> set (tab ! ?b)"
      "distinct (map nd_key ns)" "chain_map ns = chain_map (tab ! ?b) |` (- insert k (nd_key ` set (skipped_nodes k (tab ! ?b))))"
      "length (tab ! ?b) = Suc (length ns) + length (skipped_nodes k (tab ! ?b))"
    by (rule chain_unlink [of "tab ! ?b" hash k]) (use c(6) [of k] d kin in auto)
  have sk: "hm_skipped hash m k = nd_key ` set (skipped_nodes k (tab ! ?b))" using tab c(3) [of k] by (simp add: hm_skipped_def)
  have nv: "nd_value n = Some v"
  proof -
    have "chain_map (tab ! ?b) k = Some (the (nd_value n))"
      by (rule map_of_is_SomeI) (use d u(2,3) in \<open>auto simp: node_pair_def image_iff intro!: bexI [of _ n]\<close>)
    then show ?thesis using c(5) [of k] v c(6) [of k] u(2) by auto
  qed
  let ?m = "m\<lparr>hm_table := Some (tab[?b := ns]), hm_mod_count := Suc (hm_mod_count m), hm_size := hm_size m - 1\<rparr>"
  have sz: "hm_size m = length (concat tab)" using inv tab by (simp add: hm_inv_def)
  have lc: "length (concat (tab[?b := ns])) + length (tab ! ?b) = hm_size m + length ns" using length_concat_update [OF c(2), of k ns] sz by simp
  have s1: "0 < hm_size m" using lc u(7) by linarith
  have t': "table_ok hash (tab[?b := ns])"
    using c(1,2) c(7) [of k] u(4,5) by (auto simp: table_ok_def nth_list_update chain_ok_def)
  have ab: "hm_abs ?m = hm_abs m |` (- insert k (hm_skipped hash m k))"
  proof
    fix x
    have "x \<notin> insert k (hm_skipped hash m k)" if "unat (hash x) mod length tab \<noteq> ?b"
      using that table_node(2) [OF c(1) c(2) [of k]] skipped_subset [of k "tab ! ?b"] unfolding sk by blast
    then show "hm_abs ?m x = (hm_abs m |` (- insert k (hm_skipped hash m k))) x"
      using table_lookup [OF t', of x] table_lookup [OF c(1), of x] u(6) c(2) [of k] tab
      by (auto simp: hm_abs_def hm_nodes_def sk restrict_map_def nth_list_update split: if_splits)
  qed
  have run: "hm_remove hash k m = Inr (Some v, ?m)"
    using tab u(1) c(3) [of k] c(4) mc s1 nv by (simp add: hm_remove_def hm_remove_node_def Let_def inc_u32_def)
  show thesis
  proof (rule that [OF run ab])
    show "hm_size m = Suc (hm_size ?m)" using s1 by simp
    show "hm_skipped hash m k = {} \<longrightarrow> hm_inv hash ?m" using t' lc u(7) sk s1 by (auto simp: hm_inv_def)
  qed
qed

lemma hm_clear_ok:
  assumes "hm_inv hash m" "hm_mod_count m < U32_MAX"
  obtains m' where "hm_clear m = Inr m'" "hm_inv hash m'" "hm_abs m' = Map.empty"
proof (cases "hm_table m")
  case None
  then show thesis using assms by (intro that [of m]) (simp_all add: hm_clear_def hm_abs_def hm_nodes_def)
next
  case (Some tab)
  have e: "concat (map (\<lambda>_. []) tab) = []" for tab :: "('k, 'v) Node list list" by (induction tab) auto
  let ?m = "m\<lparr>hm_table := Some (map (\<lambda>_. []) tab), hm_size := 0, hm_mod_count := Suc (hm_mod_count m)\<rparr>"
  have "hm_clear m = Inr ?m" using Some assms(2) by (simp add: hm_clear_def inc_u32_def)
  then show thesis using Some assms(1) e by (intro that [of ?m]) (auto simp: hm_inv_def table_ok_def chain_ok_def hm_abs_def hm_nodes_def)
qed

text \<open>Iteration.\<close>

lemma seek_chain_spec:
  "seek_chain cs i = (j, e) \<Longrightarrow> i \<le> j \<and> j \<le> i + length cs \<and> concat cs = e @ concat (drop (j - i) cs) \<and> (e = [] \<longrightarrow> concat cs = [])"
proof (induction cs arbitrary: i)
  case (Cons c cs)
  show ?case
  proof (cases "c = []")
    case True
    then have ih: "seek_chain cs (Suc i) = (j, e)" using Cons.prems by simp
    have s: "Suc i \<le> j" "j \<le> Suc i + length cs" "concat cs = e @ concat (drop (j - Suc i) cs)" "e = [] \<longrightarrow> concat cs = []"
      using Cons.IH [OF ih] by blast+
    moreover obtain d where "j = Suc i + d" using s(1) le_iff_add by blast
    ultimately show ?thesis using True by (simp del: concat_eq_Nil_conv)
  next
    case False
    then show ?thesis using Cons.prems by auto
  qed
qed simp

lemma hm_take_spec:
  assumes "hm_table m = Some tab"
  shows "i \<le> length tab \<Longrightarrow> hm_take n m \<lparr>it_index = i, it_entry = e\<rparr> = map (\<lambda>n. (nd_key n, nd_value n)) (take n (e @ concat (drop i tab)))"
proof (induction n arbitrary: i e)
  case (Suc n)
  show ?case
  proof (cases e)
    case (Cons x xs)
    then have "hm_next m \<lparr>it_index = i, it_entry = e\<rparr> = (Some (nd_key x, nd_value x), \<lparr>it_index = i, it_entry = xs\<rparr>)"
      using assms by (simp add: hm_next_def)
    then show ?thesis using Suc Cons by simp
  next
    case Nil
    obtain j f where sk: "seek_chain (drop i tab) i = (j, f)" by (cases "seek_chain (drop i tab) i")
    note s = seek_chain_spec [OF sk]
    show ?thesis
    proof (cases "i < length tab")
      case False
      then show ?thesis using assms Nil by (simp add: hm_next_def)
    next
      case True
      have cd: "concat (drop i tab) = f @ concat (drop j tab)" and j: "j \<le> length tab" using s True by (simp_all add: le_add_diff_inverse2)
      show ?thesis
      proof (cases f)
        case N: Nil
        then have "concat (drop i tab) = []" using s by blast
        then show ?thesis using assms Nil N True sk by (simp add: hm_next_def)
      next
        case (Cons x xs)
        then have "hm_next m \<lparr>it_index = i, it_entry = e\<rparr> = (Some (nd_key x, nd_value x), \<lparr>it_index = j, it_entry = xs\<rparr>)"
          using assms Nil True sk by (simp add: hm_next_def)
        then show ?thesis using Suc.IH [OF j, of xs] cd Cons Nil by simp
      qed
    qed
  qed
qed simp

lemma mult_minus_div:
  assumes "0 < p" "0 < q"
  shows "(p * q - 1) div p = q - (1 :: nat)"
proof -
  obtain r where q: "q = Suc r" using assms(2) by (cases q) auto
  obtain s where p: "p = Suc s" using assms(1) by (cases p) auto
  have "p * q - 1 = s + r * p" unfolding p q by simp
  then show ?thesis using div_mult_self1 [of p s r] p q by (simp add: ac_simps)
qed

lemma table_size_ok:
  assumes "2 \<le> cap" "cap \<le> MAXIMUM_CAPACITY"
  obtains k where "table_size_for cap = Inr (2 ^ k)" "1 \<le> k" "k \<le> 30"
proof -
  let ?b = "bit_length (cap - 1)"
  have c: "cap - 1 < 2 ^ 30" using assms by (simp add: MAXIMUM_CAPACITY_def)
  have b: "1 \<le> ?b" "?b \<le> 30" using bit_length_le [OF c] bit_length_pos [of "cap - 1"] assms(1) by simp_all
  have "(2 ^ 64 - 1) div 2 ^ (64 - ?b) = 2 ^ ?b - (1 :: nat)"
  proof -
    have "(2 :: nat) ^ 64 = 2 ^ (64 - ?b) * 2 ^ ?b" using b by (simp flip: power_add)
    then show ?thesis using mult_minus_div [of "2 ^ (64 - ?b)" "2 ^ ?b"] by simp
  qed
  note n = this
  have "(2 :: nat) ^ ?b \<le> 2 ^ 30" using b by (intro power_increasing) simp_all
  then have "2 ^ ?b - 1 < MAXIMUM_CAPACITY" by (simp add: MAXIMUM_CAPACITY_def)
  then have "table_size_for cap = Inr (2 ^ ?b)"
    using assms(1) b n by (auto simp: table_size_for_def leading_zeros64_def Let_def)
  then show thesis using that b by blast
qed

lemma hm_new_ok:
  assumes "2 \<le> cap" "0 < lf"
  obtains (no) "(hm_with_capacity_and_load_factor al cap lf w :: ('w \<times> ('k, 'v) HashMap) res) = Inl OutOfMemory" "refuses al w"
    | (yes) w' and m :: "('k, 'v) HashMap" where "hm_with_capacity_and_load_factor al cap lf w = Inr (w', m)" "refuses al w' \<longrightarrow> refuses al w"
        "hm_inv hash m" "hm_abs m = Map.empty" "hm_room m = U32_MAX"
proof -
  let ?cap = "if cap > MAXIMUM_CAPACITY then MAXIMUM_CAPACITY else cap"
  have "2 \<le> ?cap" "?cap \<le> MAXIMUM_CAPACITY" using assms(1) by (auto simp: MAXIMUM_CAPACITY_def)
  then obtain k where k: "table_size_for ?cap = Inr (2 ^ k)" "1 \<le> k" "k \<le> 30" by (rule table_size_ok)
  let ?m = "\<lparr>hm_table = None, hm_size = 0, hm_mod_count = 0, hm_threshold = 2 ^ k, hm_load_factor = lf\<rparr>"
  have run: "hm_with_capacity_and_load_factor al cap lf w = rbind (grant al w MapObject) (\<lambda>w. Inr (w, ?m))"
    using k assms(2) by (simp add: hm_with_capacity_and_load_factor_def Let_def)
  have m: "hm_inv hash ?m" "hm_abs ?m = Map.empty" "hm_room ?m = U32_MAX" using k by (auto simp: hm_inv_def hm_abs_def hm_nodes_def hm_room_def)
  show thesis
  proof (cases rule: grant_cases [of al w MapObject])
    case g: no
    then show thesis using no run by simp
  next
    case g: (yes w')
    then show thesis using run by (intro yes [OF _ g(2) m]) simp
  qed
qed

section \<open>The interface of a map\<close>

text \<open>What a client of a map with bounded counters relies on: lookups give the stored map, an insertion returns the old value,
  changes the map at the key only, and uses up at most one unit of the room.\<close>

fun put_all :: "('k \<Rightarrow> 'v \<Rightarrow> 's \<Rightarrow> ('v option \<times> 's) res) \<Rightarrow> ('k \<times> 'v) list \<Rightarrow> 's \<Rightarrow> 's res" where
  "put_all put [] s = Inr s"
| "put_all put ((k, v) # kvs) s = rbind (put k v s) (\<lambda>(_, s). put_all put kvs s)"

locale bounded_map =
  fixes inv :: "'s \<Rightarrow> bool" and abs :: "'s \<Rightarrow> 'k \<rightharpoonup> 'v" and room :: "'s \<Rightarrow> nat" and scarce :: "'s \<Rightarrow> bool"
    and put :: "'k \<Rightarrow> 'v \<Rightarrow> 's \<Rightarrow> ('v option \<times> 's) res" and get :: "'s \<Rightarrow> 'k \<Rightarrow> 'v option"
  assumes get_law: "inv s \<Longrightarrow> get s k = abs s k"
    and put_law: "inv s \<Longrightarrow> 0 < room s \<Longrightarrow> put k v s = Inl OutOfMemory \<and> scarce s \<or>
      (\<exists>s'. put k v s = Inr (abs s k, s') \<and> inv s' \<and> abs s' = (abs s)(k \<mapsto> v) \<and> room s \<le> Suc (room s') \<and> (scarce s' \<longrightarrow> scarce s))"
begin

lemma put_then_get:
  assumes "inv s" "0 < room s" "\<not> scarce s"
  shows "\<exists>s'. put k v s = Inr (get s k, s') \<and> inv s' \<and> get s' = (get s)(k \<mapsto> v)"
proof -
  obtain s' where "put k v s = Inr (abs s k, s')" "inv s'" "abs s' = (abs s)(k \<mapsto> v)" using put_law [OF assms(1,2)] assms(3) by blast
  then show ?thesis using get_law assms(1) by (intro exI [of _ s']) auto
qed

lemma put_all_law:
  assumes "inv s" "length kvs \<le> room s"
  shows "put_all put kvs s = Inl OutOfMemory \<and> scarce s \<or>
    (\<exists>s'. put_all put kvs s = Inr s' \<and> inv s' \<and> abs s' = abs s ++ map_of (rev kvs))"
  using assms
proof (induction kvs arbitrary: s)
  case (Cons kv kvs)
  obtain k v where kv: "kv = (k, v)" by (cases kv)
  show ?case
  proof (cases "put k v s = Inl OutOfMemory \<and> scarce s")
    case False
    then obtain s' where s': "put k v s = Inr (abs s k, s')" "inv s'" "abs s' = (abs s)(k \<mapsto> v)" "room s \<le> Suc (room s')" "scarce s' \<longrightarrow> scarce s"
      using put_law [OF Cons.prems(1), of k v] Cons.prems(2) by auto
    have run: "put_all put (kv # kvs) s = put_all put kvs s'" using s'(1) kv by simp
    have "abs s ++ map_of (rev (kv # kvs)) = abs s' ++ map_of (rev kvs)"
      using kv s'(3) by (auto simp: map_add_def fun_eq_iff split: option.splits)
    then show ?thesis using Cons.IH [OF s'(2)] Cons.prems(2) s'(4,5) unfolding run by auto
  qed (use kv in simp)
qed auto

end

interpretation hm: bounded_map "\<lambda>s. hm_inv hash (snd s)" "\<lambda>s. hm_abs (snd s)" "\<lambda>s. hm_room (snd s)" "\<lambda>s. refuses al (fst s)"
  "hm_put al hash" "\<lambda>s. hm_get hash (snd s)" for al hash
proof unfold_locales
  fix s :: "'a \<times> ('b, 'c) HashMap" and k v
  assume i: "hm_inv hash (snd s)"
  show "hm_get hash (snd s) k = hm_abs (snd s) k" by (rule hm_get_ok(1) [OF i])
  assume "0 < hm_room (snd s)"
  from hm_put_ok [OF i this, of al k v "fst s"] show "hm_put al hash k v s = Inl OutOfMemory \<and> refuses al (fst s) \<or>
      (\<exists>s'. hm_put al hash k v s = Inr (hm_abs (snd s) k, s') \<and> hm_inv hash (snd s') \<and> hm_abs (snd s') = (hm_abs (snd s))(k \<mapsto> v) \<and>
         hm_room (snd s) \<le> Suc (hm_room (snd s')) \<and> (refuses al (fst s') \<longrightarrow> refuses al (fst s)))"
    by (metis fst_conv prod.collapse snd_conv)
qed

section \<open>Properties\<close>

lemma hm_iterate_ok:
  assumes "hm_inv hash m" "hm_size m \<le> n"
  shows "set (hm_take n m \<lparr>it_index = 0, it_entry = []\<rparr>) = {(k, Some v) | k v. hm_abs m k = Some v}"
    "length (hm_take n m \<lparr>it_index = 0, it_entry = []\<rparr>) = hm_size m"
proof -
  have "set (hm_take n m \<lparr>it_index = 0, it_entry = []\<rparr>) = {(k, Some v) | k v. hm_abs m k = Some v} \<and>
    length (hm_take n m \<lparr>it_index = 0, it_entry = []\<rparr>) = hm_size m"
  proof (cases "hm_table m")
    case None
    then show ?thesis using assms by (cases n) (simp_all add: hm_inv_def hm_next_def hm_abs_def hm_nodes_def)
  next
    case (Some tab)
    then have t: "table_ok hash tab" "hm_size m = length (concat tab)" using assms(1) by (simp_all add: hm_inv_def)
    have d: "distinct (map fst (map node_pair (concat tab)))" using table_distinct [OF t(1)] by simp
    have v: "nd_value x = Some (the (nd_value x))" if "x \<in> set (concat tab)" for x
      using set_concat_nth [OF that] table_node(3) [OF t(1)] by auto
    have "hm_take n m \<lparr>it_index = 0, it_entry = []\<rparr> = map (\<lambda>n. (nd_key n, nd_value n)) (concat tab)"
      using hm_take_spec [OF Some, of 0 n "[]"] assms(2) t(2) by simp
    moreover have "{(k, Some v) | k v. hm_abs m k = Some v} = (\<lambda>n. (nd_key n, nd_value n)) ` set (concat tab)"
      using Some v map_of_eq_Some_iff [OF d] by (force simp: hm_abs_def hm_nodes_def node_pair_def image_iff simp del: set_concat)
    ultimately show ?thesis using t(2) by simp
  qed
  then show "set (hm_take n m \<lparr>it_index = 0, it_entry = []\<rparr>) = {(k, Some v) | k v. hm_abs m k = Some v}"
    "length (hm_take n m \<lparr>it_index = 0, it_entry = []\<rparr>) = hm_size m" by blast+
qed

lemma hm_skipped_subset:
  assumes "hm_inv hash m"
  shows "hm_skipped hash m k \<subseteq> dom (hm_abs m) - {k}"
proof (cases "hm_table m")
  case (Some tab)
  note c = inv_chain [OF assms Some]
  have "x \<in> dom (hm_abs m)" if "n \<in> set (tab ! (unat (hash k) mod length tab))" "x = nd_key n" for x n
  proof -
    have "n \<in> set (concat tab)" using that(1) c(2) [of k] by (metis UN_I nth_mem set_concat)
    then show ?thesis using that(2) Some by (simp add: hm_abs_def hm_nodes_def dom_map_of_conv_image_fst image_image del: set_concat)
  qed
  moreover have "nd_key n \<noteq> k" if "n \<in> set (skipped_nodes k ns)" for n ns
    using that by (auto simp: skipped_nodes_def dest: set_takeWhileD split: list.splits if_splits)
  ultimately show ?thesis using c(3) [of k] Some skipped_subset by (fastforce simp: hm_skipped_def)
qed (simp add: hm_skipped_def)

text \<open>C22. A hash map is a map, whatever allocator it works on: with any hash function, load factor and initial capacity of at least 2,
  building it and inserting up to \<open>2 ^ 32 - 1\<close> pairs panics only with out of memory, and only if the allocator refuses some request; otherwise,
  also when the table grew, every lookup returns the value inserted last for its key, the size is the number of different keys, and the
  iterator gives each pair exactly once and then ends. With a capacity below 2 the constructor panics (a subtraction or a shift
  overflows).\<close>

theorem hash_map_refines:
  assumes "0 < lf" "length kvs \<le> U32_MAX"
  shows "if cap < 2 then hm_with_capacity_and_load_factor al cap lf w = (Inl ArithOverflow :: ('w \<times> ('k, 'v) HashMap) res)
    else rbind (hm_with_capacity_and_load_factor al cap lf w) (put_all (hm_put al hash) kvs) = Inl OutOfMemory \<and> refuses al w \<or>
      (\<exists>w' m'. rbind (hm_with_capacity_and_load_factor al cap lf w) (put_all (hm_put al hash) kvs) = Inr (w', m') \<and>
      hm_get hash m' = map_of (rev (kvs :: ('k \<times> 'v) list)) \<and> hm_size m' = card (fst ` set kvs) \<and>
      (\<forall>n \<ge> hm_size m'. length (hm_take n m' \<lparr>it_index = 0, it_entry = []\<rparr>) = hm_size m' \<and>
         set (hm_take n m' \<lparr>it_index = 0, it_entry = []\<rparr>) = {(k, Some v) | k v. map_of (rev kvs) k = Some v}))"
proof (cases "cap < 2")
  case True
  have "cap = 0 \<or> cap = 1" using True by auto
  moreover have "bit_length 0 = 0" by (subst bit_length.simps) simp
  ultimately have "table_size_for cap = Inl ArithOverflow" by (auto simp: table_size_for_def leading_zeros64_def checked_sub_def)
  then show ?thesis using True assms(1) by (simp add: hm_with_capacity_and_load_factor_def MAXIMUM_CAPACITY_def)
next
  case False
  then have c2: "2 \<le> cap" by simp
  show ?thesis
  proof (cases rule: hm_new_ok [OF c2 assms(1), where hash = hash and al = al and w = w and ?'k = 'k and ?'v = 'v])
    case 1
    then show ?thesis using False by simp
  next
    case m: (2 w1 m)
    let ?s = "(w1, m)"
    consider (no) "put_all (hm_put al hash) kvs ?s = Inl OutOfMemory" "refuses al w1"
      | (yes) w' m' where "put_all (hm_put al hash) kvs ?s = Inr (w', m')" "hm_inv hash m'" "hm_abs m' = hm_abs m ++ map_of (rev kvs)"
      using hm.put_all_law [of hash ?s kvs al] m(3,5) assms(2) by auto
    then show ?thesis
    proof cases
      case no
      then show ?thesis using False m(1,2) by simp
    next
      case yes
      have a: "hm_abs m' = map_of (rev kvs)" using yes(3) m(4) by simp
      moreover have "hm_get hash m' = hm_abs m'" using hm_get_ok(1) [OF yes(2)] by blast
      moreover have "hm_size m' = card (fst ` set kvs)" using hm_size_card [OF yes(2)] a by (simp add: dom_map_of_conv_image_fst)
      ultimately show ?thesis using False m(1) yes(1) hm_iterate_ok [OF yes(2)] by auto
    qed
  qed
qed

text \<open>An allocator that grants every request.\<close>

abbreviation ample_alloc :: "nat allocator" where
  "ample_alloc \<equiv> \<lambda>n _. Some (Suc n)"

lemma ample_grants: "\<not> refuses ample_alloc w"
proof -
  have "grants ample_alloc w rs \<noteq> None" for rs by (induction rs arbitrary: w) auto
  then show ?thesis by (simp add: refuses_def)
qed

theorem hash_map_refines_witness:
  "\<exists>w' m'. rbind (hm_with_capacity_and_load_factor ample_alloc 2 (3 / 4) 0)
      (put_all (hm_put ample_alloc (\<lambda>k. of_nat k)) [(1, ''a''), (17, ''b''), (1, ''c'')]) = Inr (w', m') \<and>
    hm_get (\<lambda>k. of_nat k) m' 1 = Some ''c'' \<and> hm_get (\<lambda>k. of_nat k) m' 17 = Some ''b'' \<and> hm_get (\<lambda>k. of_nat k) m' 2 = None \<and> hm_size m' = 2"
  using hash_map_refines [of "3 / 4" "[(1, ''a''), (17, ''b''), (1, ''c'')]" 2 ample_alloc 0 "\<lambda>k :: nat. of_nat k"] ample_grants [of 0]
  by (auto simp: U32_MAX_def card_insert_if)

text \<open>Inserting through an entry is the same as \<open>put\<close>: whatever the map and the allocator, looking up the entry of a key and inserting
  into it gives the same result, the same table and the same counters, or the same panic.\<close>

theorem hash_map_entry_is_put:
  assumes "hm_inv hash m"
  shows "rbind (hm_entry al hash k (w, m)) (entry_insert al v) = hm_put al hash k v (w, m)"
  using assms by (rule entry_insert_eq)

theorem hash_map_entry_is_put_witness:
  "\<exists>w m. hm_with_capacity_and_load_factor ample_alloc 16 (3 / 4) 0 = Inr (w, m) \<and>
    rbind (hm_entry ample_alloc (\<lambda>_ :: nat. 5) 3 (w, m)) (entry_insert ample_alloc ''x'') = hm_put ample_alloc (\<lambda>_. 5) 3 ''x'' (w, m)"
proof -
  have c: "2 \<le> (16 :: nat)" "0 < (3 / 4 :: rat)" by simp_all
  obtain w and m :: "(nat, string) HashMap" where "hm_with_capacity_and_load_factor ample_alloc 16 (3 / 4) 0 = Inr (w, m)" "hm_inv (\<lambda>_. 5) m"
    using ample_grants [of 0]
    by (cases rule: hm_new_ok [OF c, where hash = "\<lambda>_. 5" and al = ample_alloc and w = 0 and ?'k = nat and ?'v = string]) auto
  then show ?thesis by (intro exI [of _ w] exI [of _ m]) (simp add: hash_map_entry_is_put)
qed

text \<open>C23. \<open>remove\<close> returns the value of the key and takes the key out of the map, but it also loses every key between the first
  node of the chain and the node of the key, since it relinks the first node and not the predecessor; the size drops by
  one only, so that it no longer counts the nodes. The map stays consistent exactly when no key is skipped. An absent key
  leaves the map as it is.\<close>

theorem hash_map_remove_exact:
  assumes "hm_inv hash m" "hm_mod_count m < U32_MAX"
  shows "case hm_abs m k of None \<Rightarrow> hm_remove hash k m = Inr (None, m)
    | Some v \<Rightarrow> \<exists>m'. hm_remove hash k m = Inr (Some v, m') \<and> hm_abs m' = hm_abs m |` (- insert k (hm_skipped hash m k)) \<and>
        hm_size m = Suc (hm_size m') \<and> (hm_inv hash m' \<longleftrightarrow> hm_skipped hash m k = {})"
proof (cases "hm_abs m k")
  case None
  then show ?thesis using hm_remove_absent [OF assms(1)] by simp
next
  case (Some v)
  obtain m' where m': "hm_remove hash k m = Inr (Some v, m')" "hm_abs m' = hm_abs m |` (- insert k (hm_skipped hash m k))"
    "hm_size m = Suc (hm_size m')" "hm_skipped hash m k = {} \<longrightarrow> hm_inv hash m'"
    by (rule hm_remove_present [OF assms(1) Some assms(2)])
  have "hm_skipped hash m k = {}" if "hm_inv hash m'"
  proof -
    have sk: "hm_skipped hash m k \<subseteq> dom (hm_abs m) - {k}" by (rule hm_skipped_subset [OF assms(1)])
    have f: "finite (dom (hm_abs m))" by (simp add: hm_abs_def finite_dom_map_of)
    have "dom (hm_abs m') = dom (hm_abs m) - insert k (hm_skipped hash m k)" using m'(2) by auto
    then have "card (dom (hm_abs m) - insert k (hm_skipped hash m k)) = card (dom (hm_abs m)) - 1"
      using m'(3) hm_size_card [OF assms(1)] hm_size_card [OF that] by simp
    moreover have "card (dom (hm_abs m) - insert k (hm_skipped hash m k)) = card (dom (hm_abs m)) - card (insert k (hm_skipped hash m k))"
      using sk Some f by (intro card_Diff_subset) (auto intro: finite_subset)
    moreover have "card (insert k (hm_skipped hash m k)) = Suc (card (hm_skipped hash m k))"
      using sk f by (intro card_insert_disjoint) (auto intro: finite_subset)
    moreover have "card (insert k (hm_skipped hash m k)) \<le> card (dom (hm_abs m))" using sk Some f by (intro card_mono) auto
    ultimately have "card (hm_skipped hash m k) = 0" by linarith
    then show ?thesis using sk f by (simp add: finite_subset)
  qed
  then show ?thesis using m' Some by auto
qed

text \<open>Three keys in one chain: removing the last one loses the one in the middle.\<close>

abbreviation chained_map :: "(nat, string) HashMap" where
  "chained_map \<equiv> \<lparr>hm_table = Some [[\<lparr>nd_hash = 0, nd_key = 3, nd_value = Some ''c''\<rparr>, \<lparr>nd_hash = 0, nd_key = 2, nd_value = Some ''b''\<rparr>,
     \<lparr>nd_hash = 0, nd_key = 1, nd_value = Some ''a''\<rparr>], []], hm_size = 3, hm_mod_count = 3, hm_threshold = 24, hm_load_factor = 12\<rparr>"

theorem hash_map_remove_exact_witness:
  "\<exists>m'. hm_remove (\<lambda>_. 0) 1 chained_map = Inr (Some ''a'', m') \<and> hm_abs chained_map 2 = Some ''b'' \<and> hm_abs m' 2 = None \<and> \<not> hm_inv (\<lambda>_. 0) m'"
proof -
  have t: "table_ok (\<lambda>_. 0) [[\<lparr>nd_hash = 0, nd_key = 3, nd_value = Some ''c''\<rparr>, \<lparr>nd_hash = 0, nd_key = 2, nd_value = Some ''b''\<rparr>,
     \<lparr>nd_hash = 0, nd_key = 1 :: nat, nd_value = Some ''a''\<rparr>], []]"
    unfolding table_ok_def by (auto simp: less_Suc_eq chain_ok_def node_ok_def intro!: exI [of _ 1])
  then have inv: "hm_inv (\<lambda>_. 0) chained_map" by (simp add: hm_inv_def)
  have sk: "hm_skipped (\<lambda>_. 0) chained_map 1 = {2}" by (simp add: hm_skipped_def bucket_of_def skipped_nodes_def)
  have a: "hm_abs chained_map 1 = Some ''a''" "hm_abs chained_map 2 = Some ''b''" by (simp_all add: hm_abs_def hm_nodes_def node_pair_def)
  show ?thesis using hash_map_remove_exact [OF inv, of 1] sk a by (auto simp: U32_MAX_def)
qed

end
