(* ===== verification/ArrayListModel.thy ===== *)
theory ArrayListModel
  imports Prelude
begin

text \<open>
  The growable list of \<open>system/arraylist.rs\<close>. A list is a garbage collected buffer (\<open>RawArray\<close>) with a capacity and a length of
  32 bits each; both are kept modulo \<open>2 ^ 32\<close>, as the code casts them. A slot of the buffer is uninitialised (\<open>None\<close>) until it is
  written. Unsafe accesses outside the buffer, and reads of uninitialised slots, are the value \<open>UndefinedBehaviour\<close>; the slices
  the code takes are bounded by the capacity, and indexing them out of bounds is a panic.

  The allocator is a parameter (its model is in \<open>Mutator\<close>): it returns the address of a block or runs out of memory. The calls of the
  write barrier are recorded in the list, newest first.
\<close>

section \<open>Buffers\<close>

record list_env =
  le_size :: nat                          \<comment> \<open>\<open>size_of::<RawArray<T>>()\<close>\<close>
  le_elem :: nat                          \<comment> \<open>\<open>size_of::<T>()\<close>\<close>
  le_barrier :: bool                      \<comment> \<open>\<open>needs_write_barrier::<T>()\<close>\<close>
  le_alloc :: "nat \<Rightarrow> addr option"        \<comment> \<open>\<open>allocate_raw\<close>, \<open>None\<close> when it runs out of memory\<close>

record 'a ArrayList =
  al_array :: addr
  al_cap :: nat
  al_len :: nat
  al_data :: "'a option list"
  al_barriers :: "addr list"

definition max_elems :: nat where "max_elems = 2 ^ 32 - 1"

definition as_u32 :: "nat \<Rightarrow> nat" where "as_u32 n = n mod 2 ^ 32"

definition varsize_bytes :: "list_env \<Rightarrow> nat \<Rightarrow> nat res" where
  "varsize_bytes E n = (let b = le_size E + 8 + le_elem E * n in if b + 15 < 2 ^ 64 then Inr ((b + 15) div 16 * 16) else Inl ArithOverflow)"

definition RawArray_new :: "list_env \<Rightarrow> nat \<Rightarrow> 'a ArrayList res" where
  "RawArray_new E cap = rbind (varsize_bytes E cap) (\<lambda>b. case le_alloc E b of None \<Rightarrow> Inl OutOfMemory
     | Some a \<Rightarrow> Inr \<lparr>al_array = a, al_cap = as_u32 cap, al_len = 0, al_data = replicate cap None, al_barriers = []\<rparr>)"

text \<open>An unsafe read of a slot, an unsafe write, and an access through the slice of the buffer.\<close>

definition read_slot :: "'a ArrayList \<Rightarrow> nat \<Rightarrow> 'a res" where
  "read_slot l i = (if i < length (al_data l) then case al_data l ! i of None \<Rightarrow> Inl UndefinedBehaviour | Some v \<Rightarrow> Inr v else Inl UndefinedBehaviour)"

definition write_slot :: "'a ArrayList \<Rightarrow> nat \<Rightarrow> 'a \<Rightarrow> 'a ArrayList res" where
  "write_slot l i v = (if i < length (al_data l) then Inr (l\<lparr>al_data := (al_data l)[i := Some v]\<rparr>) else Inl UndefinedBehaviour)"

definition slice_at :: "'a ArrayList \<Rightarrow> nat \<Rightarrow> 'a res" where
  "slice_at l i = (if i < al_cap l then read_slot l i else Inl IndexOutOfBounds)"

definition slice_put :: "'a ArrayList \<Rightarrow> nat \<Rightarrow> 'a \<Rightarrow> 'a ArrayList res" where
  "slice_put l i v = (if i < al_cap l then write_slot l i v else Inl IndexOutOfBounds)"

definition barrier :: "'a ArrayList \<Rightarrow> 'a ArrayList" where
  "barrier l = l\<lparr>al_barriers := al_array l # al_barriers l\<rparr>"

definition al_set_len :: "nat \<Rightarrow> 'a ArrayList \<Rightarrow> 'a ArrayList" where
  "al_set_len n l = l\<lparr>al_len := as_u32 n\<rparr>"

section \<open>Construction and growth\<close>

definition next_capacity :: "nat \<Rightarrow> nat \<Rightarrow> nat" where
  "next_capacity elem cap =
     (if cap = 0 then (if elem = 1 then 8 else if 2 \<le> elem \<and> elem \<le> 1024 then 4 else 1) else min (2 ^ 64 - 1) (cap * 2))"

definition al_with_capacity :: "list_env \<Rightarrow> nat \<Rightarrow> 'a ArrayList res" where
  "al_with_capacity E cap = RawArray_new E cap"

definition al_new :: "list_env \<Rightarrow> 'a ArrayList res" where
  "al_new E = al_with_capacity E 0"

definition al_grow :: "list_env \<Rightarrow> nat \<Rightarrow> 'a ArrayList \<Rightarrow> 'a ArrayList res" where
  "al_grow E new_cap l =
     (if al_cap l = new_cap then Inr l
      else rbind (RawArray_new E new_cap) (\<lambda>new_buf.
        let len = al_len l in
        if len \<le> length (al_data l) \<and> len \<le> length (al_data new_buf)
        then Inr (new_buf\<lparr>al_data := take len (al_data l) @ drop len (al_data new_buf), al_len := as_u32 len, al_barriers := al_barriers l\<rparr>)
        else Inl UndefinedBehaviour))"

definition al_push :: "list_env \<Rightarrow> 'a \<Rightarrow> 'a ArrayList \<Rightarrow> 'a ArrayList res" where
  "al_push E v l =
     (let len = al_len l in
      rbind (if len = al_cap l then al_grow E (next_capacity (le_elem E) (al_cap l)) l else Inr l) (\<lambda>l.
      rbind (write_slot (if le_barrier E then barrier l else l) len v) (\<lambda>l. Inr (al_set_len (len + 1) l))))"

text \<open>The loops that push: over a slice or an iterator, and over an index range with a closure (whose state is an argument).\<close>

fun push_each :: "list_env \<Rightarrow> 'a list \<Rightarrow> 'a ArrayList \<Rightarrow> 'a ArrayList res" where
  "push_each E [] l = Inr l"
| "push_each E (v # vs) l = rbind (al_push E v l) (push_each E vs)"

fun push_with :: "list_env \<Rightarrow> (nat \<Rightarrow> 's \<Rightarrow> 'a \<times> 's) \<Rightarrow> nat list \<Rightarrow> 's \<Rightarrow> 'a ArrayList \<Rightarrow> ('a ArrayList \<times> 's) res" where
  "push_with E init [] s l = Inr (l, s)"
| "push_with E init (i # is') s l = (let (v, s) = init i s in rbind (al_push E v l) (push_with E init is' s))"

definition al_from_slice :: "list_env \<Rightarrow> 'a list \<Rightarrow> 'a ArrayList res" where
  "al_from_slice E vs = rbind (al_with_capacity E (length vs)) (push_each E vs)"

definition al_from_slice_with_capacity :: "list_env \<Rightarrow> 'a list \<Rightarrow> nat \<Rightarrow> 'a ArrayList res" where
  "al_from_slice_with_capacity E vs cap = rbind (al_with_capacity E (max (length vs) cap)) (push_each E vs)"

definition al_from_iter :: "list_env \<Rightarrow> 'a list \<Rightarrow> 'a ArrayList res" where
  "al_from_iter E vs = rbind (al_new E) (push_each E vs)"

definition al_from_init :: "list_env \<Rightarrow> nat \<Rightarrow> 'a \<Rightarrow> 'a ArrayList res" where
  "al_from_init E n v = rbind (al_with_capacity E n) (push_each E (replicate n v))"

definition al_from_init_with_capacity :: "list_env \<Rightarrow> nat \<Rightarrow> 'a \<Rightarrow> nat \<Rightarrow> 'a ArrayList res" where
  "al_from_init_with_capacity E n v cap = rbind (al_with_capacity E (max n cap)) (push_each E (replicate n v))"

definition al_with :: "list_env \<Rightarrow> nat \<Rightarrow> nat \<Rightarrow> (nat \<Rightarrow> 's \<Rightarrow> 'a \<times> 's) \<Rightarrow> 's \<Rightarrow> ('a ArrayList \<times> 's) res" where
  "al_with E cap n init s =
     (let cap = (if cap < n then n else cap) in rbind (al_with_capacity E cap) (push_with E init [0..<n] s))"

section \<open>Operations\<close>

definition al_pop :: "'a ArrayList \<Rightarrow> ('a option \<times> 'a ArrayList) res" where
  "al_pop l = (let len = al_len l in
     if len = 0 then Inr (None, l) else rbind (read_slot l (len - 1)) (\<lambda>v. Inr (Some v, al_set_len (len - 1) l)))"

definition al_get :: "nat \<Rightarrow> 'a ArrayList \<Rightarrow> 'a option res" where
  "al_get i l = (if i \<ge> al_len l then Inr None else rbind (slice_at l i) (\<lambda>v. Inr (Some v)))"

definition al_set :: "nat \<Rightarrow> 'a \<Rightarrow> 'a ArrayList \<Rightarrow> ('a option \<times> 'a ArrayList) res" where
  "al_set i v l = (if i \<ge> al_len l then Inr (None, l)
     else let l = barrier l in rbind (slice_at l i) (\<lambda>old. rbind (slice_put l i v) (\<lambda>l. Inr (Some old, l))))"

definition al_at :: "nat \<Rightarrow> 'a ArrayList \<Rightarrow> 'a res" where
  "al_at i l = (if i < al_len l then slice_at l i else Inl AssertFailed)"

definition al_remove :: "list_env \<Rightarrow> nat \<Rightarrow> 'a ArrayList \<Rightarrow> ('a option \<times> 'a ArrayList) res" where
  "al_remove E i l = (let len = al_len l in
     if i \<ge> len then Inr (None, l)
     else rbind (slice_at l i) (\<lambda>v.
       let l = (if le_barrier E then barrier l else l); n = len - i - 1; d = al_data l in
       if al_cap l < i + 1 then Inl IndexOutOfBounds
       else if length d < i + 1 + n then Inl UndefinedBehaviour
       else Inr (Some v, al_set_len (len - 1) (l\<lparr>al_data := take i d @ take n (drop (i + 1) d) @ drop (i + n) d\<rparr>))))"

definition al_swap_remove :: "list_env \<Rightarrow> nat \<Rightarrow> 'a ArrayList \<Rightarrow> ('a \<times> 'a ArrayList) res" where
  "al_swap_remove E i l = (let len = al_len l in
     if i < len then
       let l = (if le_barrier E then barrier l else l) in
       rbind (slice_at l (len - 1)) (\<lambda>last. rbind (slice_at l i) (\<lambda>v. rbind (slice_put l i last) (\<lambda>l. Inr (v, al_set_len (len - 1) l))))
     else Inl AssertFailed)"

definition al_truncate :: "nat \<Rightarrow> 'a ArrayList \<Rightarrow> 'a ArrayList" where
  "al_truncate n l = (if n \<ge> al_len l then l else al_set_len n l)"

definition al_clear :: "'a ArrayList \<Rightarrow> 'a ArrayList" where
  "al_clear l = al_truncate 0 l"

fun read_slots :: "'a ArrayList \<Rightarrow> nat list \<Rightarrow> 'a list res" where
  "read_slots l [] = Inr []"
| "read_slots l (i # is') = rbind (read_slot l i) (\<lambda>v. rbind (read_slots l is') (\<lambda>vs. Inr (v # vs)))"

definition al_slice :: "nat \<Rightarrow> nat \<Rightarrow> 'a ArrayList \<Rightarrow> 'a list res" where
  "al_slice i j l = (if \<not> i \<le> j then Inl AssertFailed else if \<not> j \<le> al_len l then Inl AssertFailed
     else if al_cap l < j then Inl IndexOutOfBounds else read_slots l [i..<j])"

definition al_is_empty :: "'a ArrayList \<Rightarrow> bool res" where
  "al_is_empty l = rbind (al_slice 0 (al_len l) l) (\<lambda>vs. Inr (vs = []))"

partial_function (option) reserve_capacity :: "nat \<Rightarrow> nat \<Rightarrow> nat \<Rightarrow> nat option" where
  "reserve_capacity elem required c = (if c < required then reserve_capacity elem required (next_capacity elem c) else Some c)"

definition al_try_reserve :: "list_env \<Rightarrow> nat \<Rightarrow> 'a ArrayList \<Rightarrow> (bool \<times> 'a ArrayList) res option" where
  "al_try_reserve E additional l =
     (let capacity = al_cap l; total_required = min (2 ^ 64 - 1) (al_len l + additional) in
      if total_required \<le> capacity then Some (Inr (True, l))
      else case reserve_capacity (le_elem E) total_required (next_capacity (le_elem E) capacity) of None \<Rightarrow> None
      | Some new_capacity \<Rightarrow> Some (rbind (al_is_empty l) (\<lambda>empty.
          if \<not> empty \<and> total_required > max_elems then Inr (False, l)
          else rbind (al_grow E (if additional > max_elems then max_elems else new_capacity) l) (\<lambda>l. Inr (True, l)))))"

definition al_reserve :: "list_env \<Rightarrow> nat \<Rightarrow> 'a ArrayList \<Rightarrow> 'a ArrayList res option" where
  "al_reserve E additional l = map_option (\<lambda>r. rbind r (\<lambda>(ok, l). if ok then Inr l else Inl ExplicitPanic)) (al_try_reserve E additional l)"

definition al_resize :: "list_env \<Rightarrow> nat \<Rightarrow> 'a \<Rightarrow> 'a ArrayList \<Rightarrow> 'a ArrayList res option" where
  "al_resize E n v l = (let len = al_len l in
     if n > len then map_option (\<lambda>r. rbind r (push_each E (replicate (n - len) v))) (al_reserve E (n - len) l)
     else if n < len then Some (Inr (al_truncate n l)) else Some (Inr l))"

definition al_resize_with :: "list_env \<Rightarrow> nat \<Rightarrow> (nat \<Rightarrow> 's \<Rightarrow> 'a \<times> 's) \<Rightarrow> 's \<Rightarrow> 'a ArrayList \<Rightarrow> ('a ArrayList \<times> 's) res option" where
  "al_resize_with E n f s l = (let len = al_len l in
     if n > len then map_option (\<lambda>r. rbind r (push_with E f [len..<n] s)) (al_reserve E (n - len) l)
     else if n < len then Some (Inr (al_truncate n l, s)) else Some (Inr (l, s)))"

fun push_reversed :: "list_env \<Rightarrow> 'a ArrayList \<Rightarrow> nat list \<Rightarrow> 'a ArrayList \<Rightarrow> 'a ArrayList res" where
  "push_reversed E l [] new = Inr new"
| "push_reversed E l (i # is') new = rbind (al_at i l) (\<lambda>v. rbind (al_push E v new) (push_reversed E l is'))"

definition al_reverse :: "list_env \<Rightarrow> 'a ArrayList \<Rightarrow> 'a ArrayList res" where
  "al_reverse E l = rbind (al_with_capacity E (al_len l)) (push_reversed E l (rev [0..<al_len l]))"

text \<open>\<open>revswap\<close> swaps the slices \<open>[0, n)\<close> and \<open>[len - n, len)\<close> of the buffer.\<close>

fun revswap :: "nat \<Rightarrow> nat \<Rightarrow> nat list \<Rightarrow> 'a option list \<Rightarrow> 'a option list" where
  "revswap len n [] d = d"
| "revswap len n (i # is') d = (let b = len - n + (n - 1 - i) in revswap len n is' (d[i := d ! b, b := d ! i]))"

definition al_reverse_in_place :: "'a ArrayList \<Rightarrow> 'a ArrayList res" where
  "al_reverse_in_place l = (let len = al_len l; n = len div 2 in
     if len \<le> length (al_data l) then Inr (l\<lparr>al_data := revswap len n [0..<n] (al_data l)\<rparr>) else Inl UndefinedBehaviour)"

text \<open>The answers of the closure of \<open>retain_mut\<close> may depend on the number of the call; it may change the element. For elements of size
  zero all pointers are equal: the loop does not run, and the division by the size panics.\<close>

fun retain_loop :: "(nat \<Rightarrow> 'a \<Rightarrow> 'a \<times> bool) \<Rightarrow> nat list \<Rightarrow> nat \<Rightarrow> 'a ArrayList \<Rightarrow> (nat \<times> 'a ArrayList) res" where
  "retain_loop f [] write l = Inr (write, l)"
| "retain_loop f (r # rs) write l = rbind (read_slot l r) (\<lambda>v.
     let (v, keep) = f r v; d = (al_data l)[r := Some v] in
     if keep then retain_loop f rs (write + 1) (l\<lparr>al_data := if r \<noteq> write then d[r := d ! write, write := d ! r] else d\<rparr>)
     else retain_loop f rs write (l\<lparr>al_data := d\<rparr>))"

definition al_retain_mut :: "list_env \<Rightarrow> (nat \<Rightarrow> 'a \<Rightarrow> 'a \<times> bool) \<Rightarrow> 'a ArrayList \<Rightarrow> 'a ArrayList res" where
  "al_retain_mut E f l =
     (if le_elem E = 0 then Inl DivByZero else rbind (retain_loop f [0..<al_len l] 0 l) (\<lambda>(write, l). Inr (al_truncate write l)))"

definition al_retain :: "list_env \<Rightarrow> (nat \<Rightarrow> 'a \<Rightarrow> bool) \<Rightarrow> 'a ArrayList \<Rightarrow> 'a ArrayList res" where
  "al_retain E p l = al_retain_mut E (\<lambda>k v. (v, p k v)) l"

fun split_loop :: "list_env \<Rightarrow> nat list \<Rightarrow> 'a ArrayList \<Rightarrow> 'a ArrayList \<Rightarrow> ('a ArrayList \<times> 'a ArrayList) res" where
  "split_loop E [] l other = Inr (other, l)"
| "split_loop E (i # is') l other = rbind (al_remove E i l) (\<lambda>(v, l).
     case v of None \<Rightarrow> Inl ExplicitPanic | Some v \<Rightarrow> rbind (al_push E v other) (split_loop E is' l))"

definition al_split_off :: "list_env \<Rightarrow> nat \<Rightarrow> 'a ArrayList \<Rightarrow> ('a ArrayList \<times> 'a ArrayList) res" where
  "al_split_off E at l = rbind (checked_sub (al_len l) at) (\<lambda>n. rbind (al_with_capacity E n) (split_loop E [at..<al_len l] l))"

section \<open>Indexing\<close>

definition index_i32 :: "int \<Rightarrow> 'a ArrayList \<Rightarrow> nat res" where
  "index_i32 i l = (if i < 0 then (if i = - (2 ^ 31) then Inl ArithOverflow else checked_sub (al_len l) (nat (- i))) else Inr (nat i))"

definition al_index :: "nat \<Rightarrow> 'a ArrayList \<Rightarrow> 'a res" where
  "al_index i l = al_at i l"

definition al_index_mut :: "nat \<Rightarrow> 'a \<Rightarrow> 'a ArrayList \<Rightarrow> 'a ArrayList res" where
  "al_index_mut i v l = slice_put l i v"

definition al_index_int :: "int \<Rightarrow> 'a ArrayList \<Rightarrow> 'a res" where
  "al_index_int i l = rbind (index_i32 i l) (\<lambda>i. al_at i l)"

definition al_index_int_mut :: "int \<Rightarrow> 'a \<Rightarrow> 'a ArrayList \<Rightarrow> 'a ArrayList res" where
  "al_index_int_mut i v l = rbind (index_i32 i l) (\<lambda>i. slice_put l i v)"

text \<open>The end of an inclusive range is one past its last element.\<close>

definition succ_usize :: "nat \<Rightarrow> nat res" where
  "succ_usize n = (if n + 1 < 2 ^ 64 then Inr (n + 1) else Inl ArithOverflow)"

datatype ranges = Range nat nat | RangeFrom nat | RangeTo nat | RangeInclusive nat nat | RangeToInclusive nat | RangeFull
  | RangeI int int | RangeFromI int | RangeToI int | RangeInclusiveI int int | RangeToInclusiveI int

fun range_bounds :: "ranges \<Rightarrow> 'a ArrayList \<Rightarrow> (nat \<times> nat) res" where
  "range_bounds (Range i j) l = Inr (i, j)"
| "range_bounds (RangeFrom i) l = Inr (i, al_len l)"
| "range_bounds (RangeTo j) l = Inr (0, j)"
| "range_bounds (RangeInclusive i j) l = rbind (succ_usize j) (\<lambda>j. Inr (i, j))"
| "range_bounds (RangeToInclusive j) l = rbind (succ_usize j) (\<lambda>j. Inr (0, j))"
| "range_bounds RangeFull l = Inr (0, al_len l)"
| "range_bounds (RangeI i j) l = rbind (index_i32 i l) (\<lambda>i. rbind (index_i32 j l) (\<lambda>j. Inr (i, j)))"
| "range_bounds (RangeFromI i) l = rbind (index_i32 i l) (\<lambda>i. Inr (i, al_len l))"
| "range_bounds (RangeToI j) l = rbind (index_i32 j l) (\<lambda>j. Inr (0, j))"
| "range_bounds (RangeInclusiveI i j) l = rbind (index_i32 i l) (\<lambda>i. rbind (index_i32 j l) (\<lambda>j. rbind (succ_usize j) (\<lambda>j. Inr (i, j))))"
| "range_bounds (RangeToInclusiveI j) l = rbind (index_i32 j l) (\<lambda>j. rbind (succ_usize j) (\<lambda>j. Inr (0, j)))"

definition al_index_range :: "ranges \<Rightarrow> 'a ArrayList \<Rightarrow> 'a list res" where
  "al_index_range r l = rbind (range_bounds r l) (\<lambda>(i, j). al_slice i j l)"

definition al_deref :: "'a ArrayList \<Rightarrow> 'a list res" where
  "al_deref l = al_slice 0 (al_len l) l"

section \<open>Abstraction\<close>

definition al_abs :: "'a ArrayList \<Rightarrow> 'a list" where
  "al_abs l = map the (take (al_len l) (al_data l))"

definition al_inv :: "'a ArrayList \<Rightarrow> bool" where
  "al_inv l \<longleftrightarrow> al_cap l = length (al_data l) \<and> al_cap l < 2 ^ 32 \<and> al_len l \<le> al_cap l \<and> (\<forall>i < al_len l. al_data l ! i \<noteq> None)"

text \<open>Sizes of which no computation overflows, and the outcomes of an operation that allocates: it panics only when the allocator has no
  memory left.\<close>

definition env_ok :: "list_env \<Rightarrow> bool" where
  "env_ok E \<longleftrightarrow> le_size E + 8 + le_elem E * 2 ^ 32 + 15 < 2 ^ 64"

definition succeeds :: "list_env \<Rightarrow> ('r \<Rightarrow> bool) \<Rightarrow> 'r res \<Rightarrow> bool" where
  "succeeds E P r \<longleftrightarrow> (case r of Inl e \<Rightarrow> e = OutOfMemory \<and> (\<exists>n. le_alloc E n = None) | Inr x \<Rightarrow> P x)"

lemma succeeds_Inr [simp]: "succeeds E P (Inr x) = P x"
  by (simp add: succeeds_def)

lemma succeeds_Inl [simp]: "succeeds E P (Inl e) \<longleftrightarrow> e = OutOfMemory \<and> (\<exists>n. le_alloc E n = None)"
  by (simp add: succeeds_def)

lemma succeeds_bind: "succeeds E P r \<Longrightarrow> (\<And>x. P x \<Longrightarrow> succeeds E Q (f x)) \<Longrightarrow> succeeds E Q (rbind r f)"
  by (cases r) auto

lemma succeeds_mono: "succeeds E P r \<Longrightarrow> (\<And>x. P x \<Longrightarrow> Q x) \<Longrightarrow> succeeds E Q r"
  by (cases r) auto

lemma al_abs_length: "al_inv l \<Longrightarrow> length (al_abs l) = al_len l"
  by (simp add: al_abs_def al_inv_def)

lemma al_abs_nth: "al_inv l \<Longrightarrow> i < al_len l \<Longrightarrow> al_data l ! i = Some (al_abs l ! i)"
  by (auto simp: al_abs_def al_inv_def)

lemma al_inv_simps [simp]:
  "al_inv (barrier l) = al_inv l" "al_abs (barrier l) = al_abs l" "al_len (barrier l) = al_len l" "al_cap (barrier l) = al_cap l"
  "al_data (barrier l) = al_data l" "al_inv (if b then barrier l else l) = al_inv l" "al_abs (if b then barrier l else l) = al_abs l"
  by (simp_all add: barrier_def al_inv_def al_abs_def)

text \<open>The characterisation that establishes both: the buffer holds the elements, then anything.\<close>

lemma al_holds:
  assumes "al_data l = map Some xs @ rest" "al_len l = length xs" "al_cap l = length (al_data l)" "al_cap l < 2 ^ 32"
  shows "al_inv l \<and> al_abs l = xs"
  using assms by (simp add: al_inv_def al_abs_def nth_append)

lemma al_holdsD:
  assumes "al_inv l"
  obtains rest where "al_data l = map Some (al_abs l) @ rest" "al_len l = length (al_abs l)" "al_cap l = length (al_abs l) + length rest"
    "al_cap l < 2 ^ 32"
proof -
  have len: "length (al_abs l) = al_len l" "al_cap l = length (al_data l)" "al_len l \<le> length (al_data l)" "al_cap l < 2 ^ 32"
    using assms al_abs_length [OF assms] by (auto simp: al_inv_def)
  have "take (al_len l) (al_data l) = map Some (al_abs l)"
    by (rule nth_equalityI) (simp_all add: len al_abs_nth [OF assms])
  then have "al_data l = map Some (al_abs l) @ drop (al_len l) (al_data l)" using append_take_drop_id [of "al_len l" "al_data l"] by (simp only:)
  then show ?thesis by (rule that) (use len in simp_all)
qed

section \<open>Lists that grow at their end\<close>

text \<open>What a client of \<open>push\<close> relies on. The loops that push are proved from it once.\<close>

locale growable =
  fixes push :: "'v \<Rightarrow> 'l \<Rightarrow> 'l res" and inv :: "'l \<Rightarrow> bool" and abs :: "'l \<Rightarrow> 'v list" and room :: nat and ok :: "('l \<Rightarrow> bool) \<Rightarrow> 'l res \<Rightarrow> bool"
  assumes push_ok: "inv l \<Longrightarrow> length (abs l) < room \<Longrightarrow> ok (\<lambda>l'. inv l' \<and> abs l' = abs l @ [v]) (push v l)"
    and ok_return: "P l \<Longrightarrow> ok P (Inr l)"
    and ok_bind: "ok P r \<Longrightarrow> (\<And>x. P x \<Longrightarrow> ok Q (f x)) \<Longrightarrow> ok Q (rbind r f)"
begin

lemma push_fold:
  assumes "inv l" "length (abs l) + length vs \<le> room" "run [] = Inr" "\<And>v vs l. run (v # vs) l = rbind (push v l) (run vs)"
  shows "ok (\<lambda>l'. inv l' \<and> abs l' = abs l @ vs) (run vs l)"
  using assms(1,2)
proof (induction vs arbitrary: l)
  case Nil
  then show ?case by (simp add: assms(3) ok_return)
next
  case (Cons v vs)
  have "ok (\<lambda>l'. inv l' \<and> abs l' = abs l @ [v]) (push v l)" using Cons.prems by (intro push_ok) auto
  then show ?case unfolding assms(4)
  proof (rule ok_bind)
    fix l' assume "inv l' \<and> abs l' = abs l @ [v]"
    then show "ok (\<lambda>x. inv x \<and> abs x = abs l @ v # vs) (run vs l')" using Cons.IH [of l'] Cons.prems(2) by simp
  qed
qed

end

lemma RawArray_new_ok:
  assumes "env_ok E" "cap < 2 ^ 32"
  shows "succeeds E (\<lambda>l. al_inv l \<and> al_abs l = [] \<and> al_len l = 0 \<and> al_cap l = cap \<and> al_data l = replicate cap None) (RawArray_new E cap)"
proof -
  have "le_elem E * cap \<le> le_elem E * 2 ^ 32" using assms(2) by (intro mult_le_mono2) simp
  then have "le_size E + 8 + le_elem E * cap + 15 < 2 ^ 64" using assms(1) unfolding env_ok_def by linarith
  then have "varsize_bytes E cap = Inr ((le_size E + 8 + le_elem E * cap + 15) div 16 * 16)"
    unfolding varsize_bytes_def Let_def by (rule if_P)
  then show ?thesis using assms(2)
    by (auto simp: RawArray_new_def al_inv_def al_abs_def as_u32_def split: option.splits)
qed

lemma al_grow_ok:
  assumes "env_ok E" "al_inv l" "al_len l \<le> cap" "cap < 2 ^ 32"
  shows "succeeds E (\<lambda>l'. al_inv l' \<and> al_abs l' = al_abs l \<and> al_cap l' = cap \<and> al_len l' = al_len l) (al_grow E cap l)"
proof (cases "al_cap l = cap")
  case False
  obtain rest where r: "al_data l = map Some (al_abs l) @ rest" "al_len l = length (al_abs l)" "al_cap l = length (al_abs l) + length rest"
    by (rule al_holdsD [OF assms(2)])
  show ?thesis unfolding al_grow_def using False
  proof (simp, intro succeeds_bind [OF RawArray_new_ok [OF assms(1,4)]])
    fix b :: "'a ArrayList"
    assume b: "al_inv b \<and> al_abs b = [] \<and> al_len b = 0 \<and> al_cap b = cap \<and> al_data b = replicate cap None"
    let ?l = "b\<lparr>al_data := take (al_len l) (al_data l) @ drop (al_len l) (al_data b), al_len := as_u32 (al_len l), al_barriers := al_barriers l\<rparr>"
    have "al_inv ?l \<and> al_abs ?l = al_abs l"
      using b r assms(3,4) by (intro al_holds [of _ _ "replicate (cap - al_len l) None"]) (simp_all add: as_u32_def)
    then show "succeeds E (\<lambda>l'. al_inv l' \<and> al_abs l' = al_abs l \<and> al_cap l' = cap \<and> al_len l' = al_len l)
      (let len = al_len l in if len \<le> length (al_data l) \<and> len \<le> length (al_data b)
        then Inr (b\<lparr>al_data := take len (al_data l) @ drop len (al_data b), al_len := as_u32 len, al_barriers := al_barriers l\<rparr>)
        else Inl UndefinedBehaviour)"
      using b r assms(3,4) by (simp add: Let_def as_u32_def)
  qed
qed (use assms in \<open>simp add: al_grow_def\<close>)

lemma next_capacity_room: "c < 2 ^ 31 \<Longrightarrow> c < next_capacity e c \<and> next_capacity e c < 2 ^ 32"
  by (auto simp: next_capacity_def)

text \<open>Writing the slot after the last element.\<close>

lemma write_next:
  assumes "al_inv l" "al_len l < al_cap l"
  shows "\<exists>l'. write_slot l (al_len l) v = Inr l' \<and> al_inv (al_set_len (al_len l + 1) l') \<and> al_abs (al_set_len (al_len l + 1) l') = al_abs l @ [v]"
proof -
  obtain rest where r: "al_data l = map Some (al_abs l) @ rest" "al_len l = length (al_abs l)" "al_cap l = length (al_abs l) + length rest" "al_cap l < 2 ^ 32"
    by (rule al_holdsD [OF assms(1)])
  obtain x rest' where x: "rest = x # rest'" using assms(2) r by (cases rest) auto
  let ?l = "al_set_len (al_len l + 1) (l\<lparr>al_data := (al_data l)[al_len l := Some v]\<rparr>)"
  have "al_inv ?l \<and> al_abs ?l = al_abs l @ [v]"
    using r x by (intro al_holds [of _ _ rest']) (simp_all add: al_set_len_def as_u32_def list_update_append)
  then show ?thesis using r x by (simp add: write_slot_def)
qed

lemma al_push_ok:
  assumes "env_ok E" "al_inv l" "al_len l < 2 ^ 31"
  shows "succeeds E (\<lambda>l'. al_inv l' \<and> al_abs l' = al_abs l @ [v]) (al_push E v l)"
proof -
  let ?P = "\<lambda>l'. al_inv l' \<and> al_abs l' = al_abs l \<and> al_len l' = al_len l \<and> al_len l < al_cap l'"
  let ?g = "if al_len l = al_cap l then al_grow E (next_capacity (le_elem E) (al_cap l)) l else Inr l"
  have g: "succeeds E ?P ?g"
  proof (cases "al_len l = al_cap l")
    case True
    then have n: "al_len l < next_capacity (le_elem E) (al_cap l)" "next_capacity (le_elem E) (al_cap l) < 2 ^ 32"
      using next_capacity_room [of "al_cap l" "le_elem E"] assms(3) by simp_all
    show ?thesis using True n succeeds_mono [OF al_grow_ok [OF assms(1,2) less_imp_le [OF n(1)] n(2)]] by simp
  qed (use assms(2) in \<open>auto simp: al_inv_def\<close>)
  show ?thesis unfolding al_push_def Let_def
  proof (rule succeeds_bind [OF g])
    fix l' assume l': "?P l'"
    let ?b = "if le_barrier E then barrier l' else l'"
    have len: "al_len ?b = al_len l" "al_cap ?b = al_cap l'" using l' by auto
    obtain l2 where "write_slot ?b (al_len l) v = Inr l2" "al_inv (al_set_len (al_len l + 1) l2)" "al_abs (al_set_len (al_len l + 1) l2) = al_abs l @ [v]"
      using write_next [of ?b v] l' len by auto
    then show "succeeds E (\<lambda>l'. al_inv l' \<and> al_abs l' = al_abs l @ [v]) (rbind (write_slot ?b (al_len l) v) (\<lambda>l''. Inr (al_set_len (al_len l + 1) l'')))"
      by simp
  qed
qed

interpretation al: growable "al_push E" "\<lambda>l. env_ok E \<and> al_inv l" al_abs "2 ^ 31" "succeeds E" for E
proof
  fix l :: "'a ArrayList" and v
  assume "env_ok E \<and> al_inv l" "length (al_abs l) < 2 ^ 31"
  then show "succeeds E (\<lambda>l'. (env_ok E \<and> al_inv l') \<and> al_abs l' = al_abs l @ [v]) (al_push E v l)"
    using al_push_ok [of E l v] by (auto simp: al_abs_length)
qed (simp, rule succeeds_bind)

lemma push_each_ok:
  assumes "env_ok E" "al_inv l" "length (al_abs l) + length vs \<le> 2 ^ 31"
  shows "succeeds E (\<lambda>l'. al_inv l' \<and> al_abs l' = al_abs l @ vs) (push_each E vs l)"
proof -
  have "succeeds E (\<lambda>l'. (env_ok E \<and> al_inv l') \<and> al_abs l' = al_abs l @ vs) (push_each E vs l)"
    by (rule al.push_fold) (use assms in \<open>simp_all add: fun_eq_iff\<close>)
  then show ?thesis by (rule succeeds_mono) simp
qed

section \<open>Operations on the abstract list\<close>

lemma read_slot_ok: "al_inv l \<Longrightarrow> i < al_len l \<Longrightarrow> read_slot l i = Inr (al_abs l ! i)"
  using al_abs_nth [of l i] by (auto simp: read_slot_def al_inv_def)

lemma slice_at_ok: "al_inv l \<Longrightarrow> i < al_len l \<Longrightarrow> slice_at l i = Inr (al_abs l ! i)"
  by (auto simp: slice_at_def read_slot_ok) (auto simp: al_inv_def)

lemma slice_put_ok:
  assumes "al_inv l" "i < al_len l"
  shows "\<exists>l'. slice_put l i v = Inr l' \<and> al_inv l' \<and> al_abs l' = (al_abs l)[i := v] \<and> al_len l' = al_len l"
proof -
  obtain rest where r: "al_data l = map Some (al_abs l) @ rest" "al_len l = length (al_abs l)" "al_cap l = length (al_abs l) + length rest" "al_cap l < 2 ^ 32"
    by (rule al_holdsD [OF assms(1)])
  let ?l = "l\<lparr>al_data := (al_data l)[i := Some v]\<rparr>"
  have "al_inv ?l \<and> al_abs ?l = (al_abs l)[i := v]"
    using r assms(2) by (intro al_holds [of _ _ rest]) (simp_all add: list_update_append map_update)
  then show ?thesis using assms(2) r by (intro exI [of _ ?l]) (simp add: slice_put_def write_slot_def)
qed

lemma set_len_ok:
  assumes "al_inv l" "n \<le> al_len l"
  shows "al_inv (al_set_len n l) \<and> al_abs (al_set_len n l) = take n (al_abs l)"
proof -
  obtain rest where r: "al_data l = map Some (al_abs l) @ rest" "al_len l = length (al_abs l)" "al_cap l = length (al_abs l) + length rest" "al_cap l < 2 ^ 32"
    by (rule al_holdsD [OF assms(1)])
  have "map Some (al_abs l) = map Some (take n (al_abs l)) @ map Some (drop n (al_abs l))" by (simp flip: map_append)
  then show ?thesis
    using r assms(2) by (intro al_holds [of _ _ "map Some (drop n (al_abs l)) @ rest"]) (simp_all add: al_set_len_def as_u32_def)
qed

lemma al_pop_ok:
  assumes "al_inv l"
  shows "\<exists>l'. al_pop l = Inr (if al_abs l = [] then None else Some (last (al_abs l)), l') \<and> al_inv l' \<and> al_abs l' = butlast (al_abs l)"
proof (cases "al_len l = 0")
  case False
  then have "al_abs l \<noteq> []" using al_abs_length [OF assms] by auto
  then show ?thesis using False assms set_len_ok [OF assms, of "al_len l - 1"] read_slot_ok [OF assms, of "al_len l - 1"] al_abs_length [OF assms]
    by (auto simp: al_pop_def Let_def last_conv_nth butlast_conv_take)
qed (use assms al_abs_length [OF assms] in \<open>simp add: al_pop_def\<close>)

lemma al_get_ok: "al_inv l \<Longrightarrow> al_get i l = Inr (if i < length (al_abs l) then Some (al_abs l ! i) else None)"
  by (simp add: al_get_def slice_at_ok al_abs_length)

lemma al_at_ok: "al_inv l \<Longrightarrow> al_at i l = (if i < length (al_abs l) then Inr (al_abs l ! i) else Inl AssertFailed)"
  by (simp add: al_at_def slice_at_ok al_abs_length)

lemma al_set_ok:
  assumes "al_inv l"
  shows "\<exists>l'. al_set i v l = Inr (if i < length (al_abs l) then Some (al_abs l ! i) else None, l') \<and> al_inv l' \<and> al_abs l' = (al_abs l)[i := v]"
proof (cases "i < al_len l")
  case True
  then show ?thesis using slice_put_ok [of "barrier l" i v] slice_at_ok [of "barrier l" i] assms
    by (auto simp: al_set_def Let_def al_abs_length)
qed (use assms in \<open>simp add: al_set_def al_abs_length list_update_beyond\<close>)

lemma al_remove_ok:
  assumes "al_inv l"
  shows "\<exists>l'. al_remove E i l = Inr (if i < length (al_abs l) then Some (al_abs l ! i) else None, l') \<and> al_inv l' \<and>
    al_abs l' = take i (al_abs l) @ drop (Suc i) (al_abs l)"
proof (cases "i < al_len l")
  case True
  let ?l = "if le_barrier E then barrier l else l" and ?xs = "al_abs l"
  obtain rest where r: "al_data l = map Some ?xs @ rest" "al_len l = length ?xs" "al_cap l = length ?xs + length rest" "al_cap l < 2 ^ 32"
    by (rule al_holdsD [OF assms])
  have f: "al_data ?l = al_data l" "al_cap ?l = al_cap l" by simp_all
  let ?n = "al_len l - i - 1" and ?d = "al_data l"
  let ?r = "al_set_len (al_len l - 1) (?l\<lparr>al_data := take i ?d @ take ?n (drop (i + 1) ?d) @ drop (i + ?n) ?d\<rparr>)"
  have "al_inv ?r \<and> al_abs ?r = take i ?xs @ drop (Suc i) ?xs"
    using r True by (intro al_holds [of _ _ "drop (i + ?n) ?d"]) (simp_all add: al_set_len_def as_u32_def take_map drop_map)
  then show ?thesis using True r slice_at_ok [OF assms True]
    by (intro exI [of _ ?r]) (simp add: al_remove_def Let_def f)
qed (use assms in \<open>simp add: al_remove_def al_abs_length\<close>)

lemma al_swap_remove_ok:
  assumes "al_inv l"
  shows "if i < length (al_abs l) then \<exists>l'. al_swap_remove E i l = Inr (al_abs l ! i, l') \<and> al_inv l' \<and> al_abs l' = butlast ((al_abs l)[i := last (al_abs l)])
    else al_swap_remove E i l = Inl AssertFailed"
proof (cases "i < al_len l")
  case True
  let ?l = "if le_barrier E then barrier l else l" and ?n = "al_len l - 1"
  have l: "al_inv ?l" "al_abs ?l = al_abs l" "al_len ?l = al_len l" using assms by auto
  have ne: "al_abs l \<noteq> []" using True al_abs_length [OF assms] by auto
  obtain l1 where l1: "slice_put ?l i (last (al_abs l)) = Inr l1" "al_inv l1" "al_abs l1 = (al_abs l)[i := last (al_abs l)]" "al_len l1 = al_len l"
    using slice_put_ok [OF l(1), of i "last (al_abs l)"] True l by auto
  have "slice_at ?l ?n = Inr (last (al_abs l))" "slice_at ?l i = Inr (al_abs l ! i)"
    using slice_at_ok [OF l(1), of ?n] slice_at_ok [OF l(1), of i] True l ne al_abs_length [OF assms] by (simp_all add: last_conv_nth)
  then have "al_swap_remove E i l = Inr (al_abs l ! i, al_set_len ?n l1)"
    using True l1(1) by (simp add: al_swap_remove_def Let_def)
  then show ?thesis using set_len_ok [OF l1(2), of ?n] l1(3,4) True al_abs_length [OF assms] by (simp add: butlast_conv_take)
qed (use assms in \<open>simp add: al_swap_remove_def al_abs_length\<close>)

lemma al_truncate_ok: "al_inv l \<Longrightarrow> al_inv (al_truncate n l) \<and> al_abs (al_truncate n l) = take n (al_abs l)"
  using set_len_ok [of l n] by (auto simp: al_truncate_def al_abs_length)

lemma read_slots_ok: "al_inv l \<Longrightarrow> (\<forall>i \<in> set is. i < al_len l) \<Longrightarrow> read_slots l is = Inr (map ((!) (al_abs l)) is)"
  by (induction "is") (auto simp: read_slot_ok)

lemma al_slice_ok:
  assumes "al_inv l"
  shows "al_slice i j l = (if i \<le> j \<and> j \<le> length (al_abs l) then Inr (take (j - i) (drop i (al_abs l))) else Inl AssertFailed)"
proof -
  have "map ((!) (al_abs l)) [i..<j] = take (j - i) (drop i (al_abs l))" if "j \<le> length (al_abs l)"
    using that by (intro nth_equalityI) auto
  moreover have "al_len l \<le> al_cap l" using assms by (simp add: al_inv_def)
  ultimately show ?thesis using assms read_slots_ok [OF assms, of "[i..<j]"] by (auto simp: al_slice_def al_abs_length)
qed

lemma al_is_empty_ok: "al_inv l \<Longrightarrow> al_is_empty l = Inr (al_abs l = [])"
  by (simp add: al_is_empty_def al_slice_ok al_abs_length)

text \<open>Reversing in place: the loop from \<open>i\<close> on exchanges the elements whose positions are at least \<open>i\<close> from both ends.\<close>

lemma revswap_nth:
  assumes "i \<le> n" "2 * n \<le> len" "len \<le> length d" "j < length d"
  shows "length (revswap len n [i..<n] d) = length d \<and>
    revswap len n [i..<n] d ! j = (if i \<le> j \<and> j < n \<or> len - n \<le> j \<and> j < len - i then d ! (len - 1 - j) else d ! j)"
  using assms
proof (induction "n - i" arbitrary: i d)
  case (Suc k)
  then have i: "i < n" "[i..<n] = i # [Suc i..<n]" by (simp_all add: upt_conv_Cons)
  define b where "b = len - 1 - i"
  have b: "len - n + (n - 1 - i) = b" "b < length d" "i < b" "len - 1 - b = i" using Suc.prems i by (auto simp: b_def)
  let ?d = "d[i := d ! b, b := d ! i]"
  have IH: "length (revswap len n [Suc i..<n] ?d) = length d"
    "revswap len n [Suc i..<n] ?d ! j = (if Suc i \<le> j \<and> j < n \<or> len - n \<le> j \<and> j < len - Suc i then ?d ! (len - 1 - j) else ?d ! j)"
    using Suc.hyps(1) [of "Suc i" ?d] Suc.hyps(2) Suc.prems i by simp_all
  have e: "revswap len n [i..<n] d = revswap len n [Suc i..<n] ?d" unfolding i(2) by (simp only: revswap.simps b(1) Let_def)
  consider "j = i" | "j = b" | "Suc i \<le> j \<and> j < n \<or> len - n \<le> j \<and> j < len - Suc i" | "j < i \<or> n \<le> j \<and> j < len - n \<or> len - i \<le> j" "j \<noteq> b"
    using b(3) i Suc.prems by (auto simp: b_def) linarith
  then show ?case
  proof cases
    case 1
    then show ?thesis unfolding e using IH b i Suc.prems by (auto simp: b_def)
  next
    case 2
    then show ?thesis unfolding e using IH b i Suc.prems by (auto simp: b_def)
  next
    case 3
    then have "len - 1 - j \<noteq> i" "len - 1 - j \<noteq> b" "i \<le> j \<and> j < n \<or> len - n \<le> j \<and> j < len - i" using i Suc.prems by (auto simp: b_def)
    then show ?thesis unfolding e using IH 3 by simp
  next
    case 4
    then have x: "j \<noteq> i" "\<not> (i \<le> j \<and> j < n \<or> len - n \<le> j \<and> j < len - i)" "\<not> (Suc i \<le> j \<and> j < n \<or> len - n \<le> j \<and> j < len - Suc i)"
      using i Suc.prems by auto
    show ?thesis unfolding e if_not_P [OF x(2)] using IH(1) IH(2) [unfolded if_not_P [OF x(3)]] x(1) 4(2) by simp
  qed
qed auto

lemma al_reverse_in_place_ok:
  assumes "al_inv l"
  shows "\<exists>l'. al_reverse_in_place l = Inr l' \<and> al_inv l' \<and> al_abs l' = rev (al_abs l)"
proof -
  let ?n = "al_len l div 2" let ?d = "revswap (al_len l) ?n [0..<?n] (al_data l)"
  obtain rest where r: "al_data l = map Some (al_abs l) @ rest" "al_len l = length (al_abs l)" "al_cap l = length (al_abs l) + length rest" "al_cap l < 2 ^ 32"
    by (rule al_holdsD [OF assms])
  have len: "al_len l \<le> length (al_data l)" using r by simp
  have nth: "length ?d = length (al_data l)" "?d ! j = (if j < al_len l then al_data l ! (al_len l - 1 - j) else al_data l ! j)" if "j < length (al_data l)" for j
  proof -
    have "al_len l - 1 - j = j" if "\<not> j < ?n" "j < al_len l - ?n" using that by linarith
    then show "length ?d = length (al_data l)" "?d ! j = (if j < al_len l then al_data l ! (al_len l - 1 - j) else al_data l ! j)"
      using revswap_nth [of 0 ?n "al_len l" "al_data l" j] that len by auto
  qed
  have l0: "length ?d = length (al_data l)" using nth(1) [of 0] by (cases "al_data l = []") (use r in auto)
  have "?d = map Some (rev (al_abs l)) @ rest"
  proof (rule nth_equalityI)
    show "length ?d = length (map Some (rev (al_abs l)) @ rest)" using l0 r by simp
  next
    fix j assume "j < length ?d"
    then have j: "j < length (al_data l)" using l0 by simp
    have k: "length (al_abs l) - 1 - j < length (al_abs l)" if "j < length (al_abs l)" using that by simp
    have "?d ! j = (if j < al_len l then al_data l ! (al_len l - 1 - j) else al_data l ! j)" by (rule nth(2) [OF j])
    also have "\<dots> = (map Some (rev (al_abs l)) @ rest) ! j" unfolding r(2) unfolding r(1) using k by (simp add: nth_append rev_nth)
    finally show "?d ! j = (map Some (rev (al_abs l)) @ rest) ! j" .
  qed
  then have "al_inv (l\<lparr>al_data := ?d\<rparr>) \<and> al_abs (l\<lparr>al_data := ?d\<rparr>) = rev (al_abs l)"
    using r by (intro al_holds [of _ _ rest]) simp_all
  then show ?thesis using len by (simp add: al_reverse_in_place_def Let_def)
qed

text \<open>Retaining: what the closure makes of the elements, and which it keeps.\<close>

fun retained :: "(nat \<Rightarrow> 'a \<Rightarrow> 'a \<times> bool) \<Rightarrow> nat \<Rightarrow> 'a list \<Rightarrow> 'a list" where
  "retained f k [] = []"
| "retained f k (x # xs) = (if snd (f k x) then fst (f k x) # retained f (Suc k) xs else retained f (Suc k) xs)"

lemma retained_length: "length (retained f k xs) \<le> length xs"
  by (induction xs arbitrary: k) (auto intro: le_SucI)

lemma retained_filter: "retained (\<lambda>k v. (v, p v)) k xs = filter p xs"
  by (induction xs arbitrary: k) auto

text \<open>The state of the loop: the kept elements, elements that were swapped away, then what is still to be read.\<close>

lemma retain_loop_ok:
  assumes "al_data l = map Some kept @ map Some junk @ map Some todo @ rest" "r = length kept + length junk"
  shows "\<exists>l' rest'. retain_loop f [r..<r + length todo] (length kept) l = Inr (length (kept @ retained f r todo), l') \<and>
    al_data l' = map Some (kept @ retained f r todo) @ rest' \<and> length (al_data l') = length (al_data l) \<and>
    al_array l' = al_array l \<and> al_cap l' = al_cap l \<and> al_len l' = al_len l"
  using assms
proof (induction todo arbitrary: l kept junk r)
  case (Cons x todo)
  let ?v = "fst (f r x)" and ?d = "map Some kept @ map Some junk @ Some (fst (f r x)) # map Some todo @ rest"
  have rd: "read_slot l r = Inr x" using Cons.prems by (simp add: read_slot_def nth_append)
  have up: "(al_data l)[r := Some ?v] = ?d" using Cons.prems by (simp add: list_update_append)
  have upt: "[r..<r + length (x # todo)] = r # [Suc r..<Suc r + length todo]" using upt_conv_Cons [of r "r + length (x # todo)"] by simp
  show ?case
  proof (cases "snd (f r x)")
    case False
    have "\<exists>l' rest'. retain_loop f [Suc r..<Suc r + length todo] (length kept) (l\<lparr>al_data := ?d\<rparr>) = Inr (length (kept @ retained f (Suc r) todo), l') \<and>
      al_data l' = map Some (kept @ retained f (Suc r) todo) @ rest' \<and> length (al_data l') = length ?d \<and> al_array l' = al_array l \<and> al_cap l' = al_cap l \<and> al_len l' = al_len l"
      using Cons.IH [of "l\<lparr>al_data := ?d\<rparr>" kept "junk @ [?v]" "Suc r"] Cons.prems by simp
    then show ?thesis unfolding upt using False rd up Cons.prems(1) by (cases "f r x") (simp add: Let_def)
  next
    case True
    define e where "e = (if r \<noteq> length kept then ?d[r := ?d ! length kept, length kept := ?d ! r] else ?d)"
    have "\<exists>junk'. e = map Some (kept @ [?v]) @ map Some junk' @ map Some todo @ rest \<and> length junk' = length junk"
    proof (cases junk)
      case Nil
      then show ?thesis using Cons.prems(2) by (simp add: e_def)
    next
      case (Cons y ys)
      then show ?thesis using Cons.prems(2)
        by (intro exI [of _ "ys @ [y]"]) (simp add: e_def nth_append list_update_append)
    qed
    then obtain junk' where j: "e = map Some (kept @ [?v]) @ map Some junk' @ map Some todo @ rest" "length junk' = length junk" by blast
    have "\<exists>l' rest'. retain_loop f [Suc r..<Suc r + length todo] (length (kept @ [?v])) (l\<lparr>al_data := e\<rparr>) = Inr (length (kept @ [?v] @ retained f (Suc r) todo), l') \<and>
      al_data l' = map Some (kept @ [?v] @ retained f (Suc r) todo) @ rest' \<and> length (al_data l') = length e \<and> al_array l' = al_array l \<and> al_cap l' = al_cap l \<and> al_len l' = al_len l"
      using Cons.IH [of "l\<lparr>al_data := e\<rparr>" "kept @ [?v]" junk' "Suc r"] j Cons.prems(2) by simp
    moreover have "length e = length (al_data l)" using j Cons.prems(1) by simp
    moreover have "retain_loop f [r..<r + length (x # todo)] (length kept) l = retain_loop f [Suc r..<Suc r + length todo] (length (kept @ [?v])) (l\<lparr>al_data := e\<rparr>)"
    proof -
      have "retain_loop f [r..<r + length (x # todo)] (length kept) l = retain_loop f [Suc r..<Suc r + length todo] (length kept + 1) (l\<lparr>al_data := e\<rparr>)"
        unfolding upt e_def retain_loop.simps rd rbind_simps using True by (simp only: case_prod_beta Let_def up if_True)
      then show ?thesis by simp
    qed
    ultimately show ?thesis using True by simp
  qed
qed auto

lemma al_retain_mut_ok:
  assumes "al_inv l" "le_elem E > 0"
  shows "\<exists>l'. al_retain_mut E f l = Inr l' \<and> al_inv l' \<and> al_abs l' = retained f 0 (al_abs l)"
proof -
  obtain rest where r: "al_data l = map Some (al_abs l) @ rest" "al_len l = length (al_abs l)" "al_cap l = length (al_abs l) + length rest" "al_cap l < 2 ^ 32"
    by (rule al_holdsD [OF assms(1)])
  let ?k = "retained f 0 (al_abs l)"
  obtain l' rest' where l': "retain_loop f [0..<al_len l] 0 l = Inr (length ?k, l')" "al_data l' = map Some ?k @ rest'"
    "length (al_data l') = length (al_data l)" "al_cap l' = al_cap l" "al_len l' = al_len l"
    using retain_loop_ok [of l "[]" "[]" "al_abs l" rest 0 f] r by auto
  have le: "length ?k \<le> al_len l"
    unfolding r(2) by (rule retained_length)
  have "al_inv (al_set_len (length ?k) l') \<and> al_abs (al_set_len (length ?k) l') = ?k"
    using l' r le by (intro al_holds [of _ _ rest']) (simp_all add: al_set_len_def as_u32_def)
  moreover have "al_truncate (length ?k) l' = al_set_len (length ?k) l'"
    using le l'(5) r by (cases "length ?k = al_len l") (simp_all add: al_truncate_def al_set_len_def as_u32_def)
  ultimately show ?thesis using assms(2) l'(1) by (simp add: al_retain_mut_def)
qed

text \<open>Reserving: the doubling loop always ends, and stays below \<open>2 ^ 32\<close> when at most \<open>2 ^ 31\<close> elements are asked for.\<close>

lemma next_capacity_mono: "c < 2 ^ 64 - 1 \<Longrightarrow> c < next_capacity e c"
  by (auto simp: next_capacity_def)

lemma reserve_capacity_ends:
  assumes "required < 2 ^ 64"
  shows "\<exists>c'. reserve_capacity e required c = Some c' \<and> required \<le> c' \<and> (required \<le> 2 ^ 31 \<longrightarrow> c < 2 ^ 32 \<longrightarrow> c' < 2 ^ 32)"
proof (induction "required - c" arbitrary: c rule: less_induct)
  case less
  show ?case
  proof (cases "c < required")
    case True
    then have n: "c < next_capacity e c" using assms next_capacity_mono by simp
    have n32: "required \<le> 2 ^ 31 \<longrightarrow> next_capacity e c < 2 ^ 32" using True next_capacity_room [of c e] by auto
    have e: "reserve_capacity e required c = reserve_capacity e required (next_capacity e c)"
      using True by (subst reserve_capacity.simps) simp
    have "required - next_capacity e c < required - c" using True n by linarith
    from less [OF this] n32 show ?thesis unfolding e by auto
  next
    case False
    then show ?thesis by (subst reserve_capacity.simps) simp
  qed
qed

lemma al_reserve_ok:
  assumes "env_ok E" "al_inv l" "length (al_abs l) + n \<le> 2 ^ 31"
  shows "\<exists>r. al_reserve E n l = Some r \<and> succeeds E (\<lambda>l'. al_inv l' \<and> al_abs l' = al_abs l \<and> length (al_abs l) + n \<le> al_cap l') r"
proof (cases "al_len l + n \<le> al_cap l")
  case True
  then show ?thesis using assms by (simp add: al_reserve_def al_try_reserve_def al_abs_length)
next
  case False
  let ?t = "min (2 ^ 64 - 1) (al_len l + n)"
  have t: "?t = al_len l + n" "al_len l + n \<le> 2 ^ 31" using assms(2,3) by (simp_all add: al_abs_length)
  then have "al_cap l < 2 ^ 31" using False by linarith
  then have nc: "next_capacity (le_elem E) (al_cap l) < 2 ^ 32" using next_capacity_room by blast
  obtain c where c: "reserve_capacity (le_elem E) (al_len l + n) (next_capacity (le_elem E) (al_cap l)) = Some c" "al_len l + n \<le> c" "c < 2 ^ 32"
    using reserve_capacity_ends [of "al_len l + n" "le_elem E" "next_capacity (le_elem E) (al_cap l)"] nc t(2) by auto
  have m: "\<not> max_elems < al_len l + n" "\<not> max_elems < n" using t(2) by (simp_all add: max_elems_def)
  have "succeeds E (\<lambda>l'. al_inv l' \<and> al_abs l' = al_abs l \<and> al_cap l' = c \<and> al_len l' = al_len l) (al_grow E c l)"
    using c by (intro al_grow_ok assms) simp_all
  moreover have "al_reserve E n l = Some (rbind (al_grow E c l) (\<lambda>l. Inr l))"
  proof -
    have "al_try_reserve E n l = Some (rbind (al_grow E c l) (\<lambda>l. Inr (True, l)))"
      unfolding al_try_reserve_def Let_def t(1) using False c(1) m by (simp add: al_is_empty_ok [OF assms(2)])
    then show ?thesis by (cases "al_grow E c l") (simp_all add: al_reserve_def)
  qed
  ultimately show ?thesis using c(2) assms(2)
    by (cases "al_grow E c l") (auto simp: al_abs_length)
qed

lemma al_resize_ok:
  assumes "env_ok E" "al_inv l" "n \<le> 2 ^ 31"
  shows "\<exists>r. al_resize E n v l = Some r \<and>
    succeeds E (\<lambda>l'. al_inv l' \<and> al_abs l' = take n (al_abs l) @ replicate (n - length (al_abs l)) v) r"
proof (cases "n > al_len l")
  case True
  let ?k = "n - al_len l"
  obtain r where r: "al_reserve E ?k l = Some r" "succeeds E (\<lambda>l'. al_inv l' \<and> al_abs l' = al_abs l \<and> length (al_abs l) + ?k \<le> al_cap l') r"
    using al_reserve_ok [OF assms(1,2), of ?k] True assms(2,3) by (auto simp: al_abs_length)
  have "succeeds E (\<lambda>l'. al_inv l' \<and> al_abs l' = take n (al_abs l) @ replicate ?k v) (rbind r (push_each E (replicate ?k v)))"
  proof (rule succeeds_bind [OF r(2)])
    fix l' assume l': "al_inv l' \<and> al_abs l' = al_abs l \<and> length (al_abs l) + ?k \<le> al_cap l'"
    have "take n (al_abs l) = al_abs l" "length (al_abs l') + length (replicate ?k v) \<le> 2 ^ 31"
      using l' True assms(2,3) by (simp_all add: al_abs_length)
    then show "succeeds E (\<lambda>l'. al_inv l' \<and> al_abs l' = take n (al_abs l) @ replicate ?k v) (push_each E (replicate ?k v) l')"
      using push_each_ok [OF assms(1), of l' "replicate ?k v"] l' by simp
  qed
  then show ?thesis using True r(1) assms(2) by (simp add: al_resize_def Let_def al_abs_length)
next
  case False
  then show ?thesis using al_truncate_ok [OF assms(2), of n] assms(2) by (auto simp: al_resize_def al_abs_length)
qed

lemma push_reversed_ok:
  assumes "env_ok E" "al_inv l" "al_inv new" "\<forall>i \<in> set is. i < al_len l" "length (al_abs new) + length is \<le> 2 ^ 31"
  shows "succeeds E (\<lambda>l'. al_inv l' \<and> al_abs l' = al_abs new @ map ((!) (al_abs l)) is) (push_reversed E l is new)"
proof -
  have "push_reversed E l is new = push_each E (map ((!) (al_abs l)) is) new"
    using assms(4) by (induction "is" arbitrary: new) (auto simp: al_at_ok [OF assms(2)] al_abs_length [OF assms(2)] intro: arg_cong2 [of _ _ _ _ rbind])
  then show ?thesis using push_each_ok [OF assms(1,3), of "map ((!) (al_abs l)) is"] assms(5) by simp
qed

lemma al_reverse_ok:
  assumes "env_ok E" "al_inv l" "al_len l \<le> 2 ^ 31"
  shows "succeeds E (\<lambda>l'. al_inv l' \<and> al_abs l' = rev (al_abs l)) (al_reverse E l)"
  unfolding al_reverse_def al_with_capacity_def
proof (rule succeeds_bind [OF RawArray_new_ok [OF assms(1)]])
  show "al_len l < 2 ^ 32" using assms(3) by simp
next
  fix new :: "'a ArrayList"
  assume n: "al_inv new \<and> al_abs new = [] \<and> al_len new = 0 \<and> al_cap new = al_len l \<and> al_data new = replicate (al_len l) None"
  have "map ((!) (al_abs l)) (rev [0..<al_len l]) = rev (al_abs l)"
    using map_nth [of "al_abs l"] by (simp add: al_abs_length [OF assms(2)] rev_map [symmetric])
  then show "succeeds E (\<lambda>l'. al_inv l' \<and> al_abs l' = rev (al_abs l)) (push_reversed E l (rev [0..<al_len l]) new)"
    using push_reversed_ok [OF assms(1,2), of new "rev [0..<al_len l]"] n assms(3) by simp
qed

text \<open>Construction from a slice.\<close>

lemma al_from_slice_ok:
  assumes "env_ok E" "length vs \<le> 2 ^ 31"
  shows "succeeds E (\<lambda>l. al_inv l \<and> al_abs l = vs) (al_from_slice E vs)"
  unfolding al_from_slice_def al_with_capacity_def
proof (rule succeeds_bind [OF RawArray_new_ok [OF assms(1)]])
  show "length vs < 2 ^ 32" using assms(2) by simp
next
  fix l :: "'a ArrayList"
  assume "al_inv l \<and> al_abs l = [] \<and> al_len l = 0 \<and> al_cap l = length vs \<and> al_data l = replicate (length vs) None"
  then show "succeeds E (\<lambda>l. al_inv l \<and> al_abs l = vs) (push_each E vs l)"
    using push_each_ok [OF assms(1), of l vs] assms(2) by simp
qed

section \<open>Properties\<close>

text \<open>Programs over one list, and what they do on a plain list. An element that an operation returns is in its output.\<close>

datatype 'a list_op = Push 'a | Pop | Get nat | Set nat 'a | Remove nat | SwapRemove nat | Truncate nat | Clear | Reserve nat | Resize nat 'a
  | ReverseInPlace | Retain "nat \<Rightarrow> 'a \<Rightarrow> 'a \<times> bool" | Slice nat nat

definition option_out :: "'a option \<Rightarrow> 'a list" where
  "option_out v = (case v of None \<Rightarrow> [] | Some v \<Rightarrow> [v])"

fun al_do :: "list_env \<Rightarrow> 'a list_op \<Rightarrow> 'a ArrayList \<Rightarrow> ('a list \<times> 'a ArrayList) res option" where
  "al_do E (Push v) l = Some (rbind (al_push E v l) (\<lambda>l. Inr ([], l)))"
| "al_do E Pop l = Some (rbind (al_pop l) (\<lambda>(v, l). Inr (option_out v, l)))"
| "al_do E (Get i) l = Some (rbind (al_get i l) (\<lambda>v. Inr (option_out v, l)))"
| "al_do E (Set i v) l = Some (rbind (al_set i v l) (\<lambda>(v, l). Inr (option_out v, l)))"
| "al_do E (Remove i) l = Some (rbind (al_remove E i l) (\<lambda>(v, l). Inr (option_out v, l)))"
| "al_do E (SwapRemove i) l = Some (rbind (al_swap_remove E i l) (\<lambda>(v, l). Inr ([v], l)))"
| "al_do E (Truncate n) l = Some (Inr ([], al_truncate n l))"
| "al_do E Clear l = Some (Inr ([], al_clear l))"
| "al_do E (Reserve n) l = map_option (\<lambda>r. rbind r (\<lambda>l. Inr ([], l))) (al_reserve E n l)"
| "al_do E (Resize n v) l = map_option (\<lambda>r. rbind r (\<lambda>l. Inr ([], l))) (al_resize E n v l)"
| "al_do E ReverseInPlace l = Some (rbind (al_reverse_in_place l) (\<lambda>l. Inr ([], l)))"
| "al_do E (Retain f) l = Some (rbind (al_retain_mut E f l) (\<lambda>l. Inr ([], l)))"
| "al_do E (Slice i j) l = Some (rbind (al_slice i j l) (\<lambda>vs. Inr (vs, l)))"

fun list_do :: "'a list_op \<Rightarrow> 'a list \<Rightarrow> ('a list \<times> 'a list) res" where
  "list_do (Push v) xs = Inr ([], xs @ [v])"
| "list_do Pop xs = Inr (if xs = [] then [] else [last xs], butlast xs)"
| "list_do (Get i) xs = Inr (if i < length xs then [xs ! i] else [], xs)"
| "list_do (Set i v) xs = Inr (if i < length xs then [xs ! i] else [], xs[i := v])"
| "list_do (Remove i) xs = Inr (if i < length xs then [xs ! i] else [], take i xs @ drop (Suc i) xs)"
| "list_do (SwapRemove i) xs = (if i < length xs then Inr ([xs ! i], butlast (xs[i := last xs])) else Inl AssertFailed)"
| "list_do (Truncate n) xs = Inr ([], take n xs)"
| "list_do Clear xs = Inr ([], [])"
| "list_do (Reserve n) xs = Inr ([], xs)"
| "list_do (Resize n v) xs = Inr ([], take n xs @ replicate (n - length xs) v)"
| "list_do ReverseInPlace xs = Inr ([], rev xs)"
| "list_do (Retain f) xs = Inr ([], retained f 0 xs)"
| "list_do (Slice i j) xs = (if i \<le> j \<and> j \<le> length xs then Inr (take (j - i) (drop i xs), xs) else Inl AssertFailed)"

text \<open>The sizes a program may ask for.\<close>

fun op_fits :: "'a list_op \<Rightarrow> 'a list \<Rightarrow> bool" where
  "op_fits (Push v) xs = (length xs < 2 ^ 31)"
| "op_fits (Reserve n) xs = (length xs + n \<le> 2 ^ 31)"
| "op_fits (Resize n v) xs = (n \<le> 2 ^ 31)"
| "op_fits _ xs = True"

definition list_refines :: "list_env \<Rightarrow> ('o \<times> 'a list) res \<Rightarrow> ('o \<times> 'a ArrayList) res option \<Rightarrow> bool" where
  "list_refines E s r \<longleftrightarrow> (\<exists>r'. r = Some r' \<and> (r' = Inl OutOfMemory \<and> (\<exists>n. le_alloc E n = None) \<or>
     (case s of Inl e \<Rightarrow> r' = Inl e | Inr (out, xs) \<Rightarrow> \<exists>l. r' = Inr (out, l) \<and> al_inv l \<and> al_abs l = xs)))"

lemma list_refines_succeeds:
  assumes "succeeds E (\<lambda>l. al_inv l \<and> al_abs l = xs) r"
  shows "list_refines E (Inr (out, xs)) (Some (rbind r (\<lambda>l. Inr (out, l))))"
  using assms by (cases r) (auto simp: list_refines_def)

lemma al_do_refines:
  assumes "env_ok E" "le_elem E > 0" "al_inv l" "op_fits op (al_abs l)"
  shows "list_refines E (list_do op (al_abs l)) (al_do E op l)"
proof (cases op)
  case (Push v)
  then show ?thesis using list_refines_succeeds [OF al_push_ok [OF assms(1,3), of v]] assms(3,4) by (simp add: al_abs_length)
next
  case (Reserve n)
  then show ?thesis using al_reserve_ok [OF assms(1,3), of n] assms(4)
    by (auto intro!: list_refines_succeeds elim: succeeds_mono)
next
  case (Resize n v)
  then show ?thesis using al_resize_ok [OF assms(1,3), of n v] assms(4) by (auto intro!: list_refines_succeeds)
next
  case (SwapRemove i)
  then show ?thesis using al_swap_remove_ok [OF assms(3), of i E] by (auto simp: list_refines_def split: if_splits)
next
  case Pop
  then show ?thesis using al_pop_ok [OF assms(3)] by (auto simp: list_refines_def option_out_def)
next
  case (Set i v)
  then show ?thesis using al_set_ok [OF assms(3), of i v] by (auto simp: list_refines_def option_out_def)
next
  case (Remove i)
  then show ?thesis using al_remove_ok [OF assms(3), of E i] by (auto simp: list_refines_def option_out_def)
next
  case ReverseInPlace
  then show ?thesis using al_reverse_in_place_ok [OF assms(3)] by (auto simp: list_refines_def)
next
  case (Retain f)
  then show ?thesis using al_retain_mut_ok [OF assms(3,2), of f] by (auto simp: list_refines_def)
qed (use assms(3) al_truncate_ok [OF assms(3)] in \<open>auto simp: list_refines_def option_out_def al_get_ok al_slice_ok al_clear_def\<close>)

fun al_run :: "list_env \<Rightarrow> 'a list_op list \<Rightarrow> 'a ArrayList \<Rightarrow> ('a list list \<times> 'a ArrayList) res option" where
  "al_run E [] l = Some (Inr ([], l))"
| "al_run E (op # ops) l = (case al_do E op l of None \<Rightarrow> None | Some (Inl e) \<Rightarrow> Some (Inl e) | Some (Inr (out, l)) \<Rightarrow>
     map_option (\<lambda>r. rbind r (\<lambda>(outs, l). Inr (out # outs, l))) (al_run E ops l))"

fun list_run :: "'a list_op list \<Rightarrow> 'a list \<Rightarrow> ('a list list \<times> 'a list) res" where
  "list_run [] xs = Inr ([], xs)"
| "list_run (op # ops) xs = rbind (list_do op xs) (\<lambda>(out, xs). rbind (list_run ops xs) (\<lambda>(outs, xs). Inr (out # outs, xs)))"

fun run_fits :: "'a list_op list \<Rightarrow> 'a list \<Rightarrow> bool" where
  "run_fits [] xs = True"
| "run_fits (op # ops) xs = (op_fits op xs \<and> (case list_do op xs of Inl e \<Rightarrow> True | Inr (out, xs) \<Rightarrow> run_fits ops xs))"

lemma al_run_refines:
  assumes "env_ok E" "le_elem E > 0" "al_inv l" "run_fits ops (al_abs l)"
  shows "list_refines E (list_run ops (al_abs l)) (al_run E ops l)"
  using assms(3,4)
proof (induction ops arbitrary: l)
  case Nil
  then show ?case by (simp add: list_refines_def)
next
  case (Cons op ops)
  have st: "list_refines E (list_do op (al_abs l)) (al_do E op l)" using al_do_refines [OF assms(1,2) Cons.prems(1)] Cons.prems(2) by simp
  show ?case
  proof (cases "list_do op (al_abs l)")
    case (Inl e)
    then show ?thesis using st by (auto simp: list_refines_def)
  next
    case (Inr p)
    obtain out xs where p: "p = (out, xs)" by (cases p)
    from st Inr p consider "al_do E op l = Some (Inl OutOfMemory)" "\<exists>n. le_alloc E n = None"
      | l' where "al_do E op l = Some (Inr (out, l'))" "al_inv l'" "al_abs l' = xs" by (auto simp: list_refines_def)
    then show ?thesis
    proof cases
      case 1
      then show ?thesis by (simp add: list_refines_def)
    next
      case (2 l')
      have "list_refines E (list_run ops xs) (al_run E ops l')" using Cons.IH [OF 2(2)] 2(3) Cons.prems(2) Inr p by simp
      then show ?thesis using 2(1) Inr p by (cases "list_run ops xs") (auto simp: list_refines_def)
    qed
  qed
qed

text \<open>C24. The growable list implements a list. Every program of pushes, pops, reads, writes, removals, truncations, reservations,
  resizings, reversals, filters with a closure and slices, started on a new list and asking for at most \<open>2 ^ 31\<close> elements, ends, and
  gives the outputs and the panics it gives on a plain list; no uninitialised slot is read and no memory outside the buffer
  is touched. The only other outcome is that an allocation ran out of memory.\<close>

theorem arraylist_refines:
  assumes "env_ok E" "le_elem E > 0" "run_fits ops []"
  shows "succeeds E (\<lambda>l. list_refines E (list_run ops []) (al_run E ops l)) (al_new E)"
proof -
  have "succeeds E (\<lambda>l. al_inv l \<and> al_abs l = [] \<and> al_len l = 0 \<and> al_cap l = 0 \<and> al_data l = replicate 0 None) (al_new E :: 'a ArrayList res)"
    unfolding al_new_def al_with_capacity_def by (rule RawArray_new_ok [OF assms(1)]) simp
  then show ?thesis
  proof (rule succeeds_mono)
    fix l :: "'a ArrayList"
    assume "al_inv l \<and> al_abs l = [] \<and> al_len l = 0 \<and> al_cap l = 0 \<and> al_data l = replicate 0 None"
    then show "list_refines E (list_run ops []) (al_run E ops l)" using al_run_refines [OF assms(1,2), of l ops] assms(3) by simp
  qed
qed

text \<open>Splitting a list.\<close>

definition split_fails :: "list_env \<Rightarrow> 'r res \<Rightarrow> bool" where
  "split_fails E r \<longleftrightarrow> r = Inl ExplicitPanic \<or> r = Inl OutOfMemory \<and> (\<exists>n. le_alloc E n = None)"

lemma split_fails_bind: "succeeds E P r \<Longrightarrow> (\<And>x. P x \<Longrightarrow> split_fails E (f x)) \<Longrightarrow> split_fails E (rbind r f)"
  by (cases r) (auto simp: split_fails_def)

lemma split_panics:
  assumes "env_ok E" "al_inv l" "al_inv other" "al_len l < n" "i < n" "length (al_abs other) + (n - i) \<le> 2 ^ 31"
  shows "split_fails E (split_loop E [i..<n] l other)"
  using assms(2-)
proof (induction "n - i" arbitrary: i l other)
  case (Suc k)
  have u: "[i..<n] = i # [Suc i..<n]" using Suc.prems(4) by (simp add: upt_conv_Cons)
  obtain l' where l': "al_remove E i l = Inr (if i < length (al_abs l) then Some (al_abs l ! i) else None, l')" "al_inv l'"
    "al_abs l' = take i (al_abs l) @ drop (Suc i) (al_abs l)" using al_remove_ok [OF Suc.prems(1), of E i] by blast
  show ?case
  proof (cases "i < al_len l")
    case True
    then have len: "i < length (al_abs l)" "al_len l' < n" "Suc i < n"
      using Suc.prems(1,3) l'(3) al_abs_length [OF Suc.prems(1)] al_abs_length [OF l'(2)] by auto
    have "succeeds E (\<lambda>o'. al_inv o' \<and> al_abs o' = al_abs other @ [al_abs l ! i]) (al_push E (al_abs l ! i) other)"
      using Suc.prems(2,5,4) by (intro al_push_ok assms(1)) (simp_all add: al_abs_length)
    then have "split_fails E (rbind (al_push E (al_abs l ! i) other) (split_loop E [Suc i..<n] l'))"
      by (rule split_fails_bind) (use Suc.hyps(1) [of "Suc i" l'] Suc.hyps(2) l'(2) len Suc.prems(5) in auto)
    then show ?thesis unfolding u using l'(1) len(1) by simp
  next
    case False
    then show ?thesis unfolding u using l'(1) by (simp add: al_abs_length [OF Suc.prems(1)] split_fails_def)
  qed
qed simp

text \<open>\<open>split_off\<close> works only for the end of a list: splitting off nothing or the last element moves it to a new list, but as soon as
  two or more elements follow the position, the removal of the element after the shifted ones fails and the call panics (or it
  runs out of memory first). A
  position behind the end overflows.\<close>

theorem arraylist_split_off:
  assumes "env_ok E" "al_inv l" "al_len l \<le> 2 ^ 31"
  shows "(at + 2 \<le> al_len l \<longrightarrow> split_fails E (al_split_off E at l)) \<and> (al_len l < at \<longrightarrow> al_split_off E at l = Inl ArithOverflow) \<and>
    (at \<le> al_len l \<and> al_len l \<le> at + 1 \<longrightarrow> succeeds E (\<lambda>(other, l'). al_inv other \<and> al_abs other = drop at (al_abs l) \<and>
      al_inv l' \<and> al_abs l' = take at (al_abs l)) (al_split_off E at l))"
proof -
  let ?n = "al_len l - at"
  let ?P = "\<lambda>o'. al_inv o' \<and> al_abs o' = [] \<and> al_len o' = 0 \<and> al_cap o' = ?n \<and> al_data o' = replicate ?n None"
  have new: "succeeds E ?P (al_with_capacity E ?n :: 'a ArrayList res)"
    unfolding al_with_capacity_def by (rule RawArray_new_ok [OF assms(1)]) (use assms(3) in simp)
  have def: "al_split_off E at l = rbind (al_with_capacity E ?n) (split_loop E [at..<al_len l] l)" if "at \<le> al_len l"
    using that by (simp add: al_split_off_def)
  have 1: "split_fails E (al_split_off E at l)" if at: "at + 2 \<le> al_len l"
  proof (cases "al_with_capacity E ?n :: 'a ArrayList res")
    case (Inl e)
    then show ?thesis using new def at by (simp add: split_fails_def)
  next
    case (Inr other)
    then have o: "?P other" using new by simp
    have u: "[at..<al_len l] = at # [Suc at..<al_len l]" using at by (simp add: upt_conv_Cons)
    obtain l' where l': "al_remove E at l = Inr (Some (al_abs l ! at), l')" "al_inv l'" "al_abs l' = take at (al_abs l) @ drop (Suc at) (al_abs l)"
      using al_remove_ok [OF assms(2), of E at] at al_abs_length [OF assms(2)] by auto
    have len: "al_len l' < al_len l" using l' at al_abs_length [OF l'(2)] al_abs_length [OF assms(2)] by simp
    have "succeeds E (\<lambda>o'. al_inv o' \<and> al_abs o' = al_abs other @ [al_abs l ! at]) (al_push E (al_abs l ! at) other)"
      using o by (intro al_push_ok assms(1)) simp_all
    then have "split_fails E (rbind (al_push E (al_abs l ! at) other) (split_loop E [Suc at..<al_len l] l'))"
      by (rule split_fails_bind) (use split_panics [OF assms(1) l'(2) _ len, of _ "Suc at"] at o assms(3) in auto)
    then show ?thesis unfolding def [OF le_trans [OF le_add1 at]] u using Inr l'(1) by simp
  qed
  have 2: "succeeds E (\<lambda>(other, l'). al_inv other \<and> al_abs other = drop at (al_abs l) \<and> al_inv l' \<and> al_abs l' = take at (al_abs l)) (al_split_off E at l)"
    if at: "at \<le> al_len l" "al_len l \<le> at + 1"
    unfolding def [OF at(1)]
  proof (rule succeeds_bind [OF new])
    fix other :: "'a ArrayList"
    assume o: "?P other"
    show "succeeds E (\<lambda>(other, l'). al_inv other \<and> al_abs other = drop at (al_abs l) \<and> al_inv l' \<and> al_abs l' = take at (al_abs l))
      (split_loop E [at..<al_len l] l other)"
    proof (cases "at = al_len l")
      case True
      then show ?thesis using o assms(2) al_abs_length [OF assms(2)] by simp
    next
      case False
      then have len: "al_len l = Suc at" "length (al_abs l) = Suc at" using at al_abs_length [OF assms(2)] by simp_all
      obtain l' where l': "al_remove E at l = Inr (Some (al_abs l ! at), l')" "al_inv l'" "al_abs l' = take at (al_abs l)"
        using al_remove_ok [OF assms(2), of E at] len by auto
      have "drop at (al_abs l) = [al_abs l ! at]" using len(2) by (simp add: Cons_nth_drop_Suc [symmetric])
      then have "succeeds E (\<lambda>o'. al_inv o' \<and> al_abs o' = drop at (al_abs l)) (al_push E (al_abs l ! at) other)"
        using al_push_ok [OF assms(1), of other "al_abs l ! at"] o by simp
      then show ?thesis using l' len(1) by (cases "al_push E (al_abs l ! at) other") simp_all
    qed
  qed
  show ?thesis using 1 2 by (auto simp: al_split_off_def checked_sub_def)
qed

text \<open>Reserving more than \<open>2 ^ 31\<close> elements.\<close>

lemma reserve_capacity_pow:
  assumes "2 ^ 31 < required" "required \<le> 2 ^ 32" "k \<le> 32"
  shows "reserve_capacity e required (2 ^ k) = Some (2 ^ 32)"
  using assms(3)
proof (induction "32 - k" arbitrary: k)
  case 0
  then have "k = 32" by simp
  then show ?case using assms(2) by (subst reserve_capacity.simps) simp
next
  case (Suc m)
  then have k: "k \<le> 31" by simp
  then have "(2::nat) ^ k \<le> 2 ^ 31" by (intro power_increasing) simp_all
  then have le: "(2::nat) ^ k < required" "2 ^ k * 2 \<le> (2::nat) ^ 64 - 1" using assms(1) by simp_all
  then have "next_capacity e (2 ^ k) = 2 ^ Suc k" by (simp add: next_capacity_def)
  then have "reserve_capacity e required (2 ^ k) = reserve_capacity e required (2 ^ Suc k)" using le(1) by (subst reserve_capacity.simps) simp
  then show ?case using Suc.hyps(1) [of "Suc k"] Suc.hyps(2) k by simp
qed

text \<open>Reserving room for more than \<open>2 ^ 31\<close> elements reports success but breaks the list: the doubling reaches \<open>2 ^ 32\<close>, and the buffer
  stores its capacity in 32 bits, as zero. The elements are still in the buffer; but the slice of the buffer is empty, so
  that reading an element or the whole list panics.\<close>

theorem arraylist_reserve_overflow:
  assumes "al_inv l" "al_abs l \<noteq> []" "al_cap l = 2 ^ k" "2 ^ 31 < al_len l + n" "al_len l + n < 2 ^ 32"
    "varsize_bytes E (2 ^ 32) = Inr b" "le_alloc E b = Some a"
  shows "\<exists>l'. al_try_reserve E n l = Some (Inr (True, l')) \<and> al_cap l' = 0 \<and> length (al_data l') = 2 ^ 32 \<and> al_abs l' = al_abs l \<and>
    al_get 0 l' = Inl IndexOutOfBounds \<and> al_deref l' = Inl IndexOutOfBounds"
proof -
  have len: "0 < al_len l" "al_len l \<le> length (al_data l)" "al_len l < 2 ^ 32"
    using assms(1,2) length_greater_0_conv [of "al_abs l"] unfolding al_abs_length [OF assms(1)] by (auto simp: al_inv_def)
  have "(2::nat) ^ k < 2 ^ 32" using assms(1,3) by (simp add: al_inv_def)
  then have k: "k < 32" by (rule power_less_imp_less_exp [rotated]) simp
  then have "(2::nat) ^ k \<le> 2 ^ 31" by (intro power_increasing) simp_all
  then have c: "al_cap l < al_len l + n" "next_capacity (le_elem E) (al_cap l) = 2 ^ Suc k" using assms(3,4) by (simp_all add: next_capacity_def)
  have rc: "reserve_capacity (le_elem E) (al_len l + n) (2 ^ Suc k) = Some (2 ^ 32)" by (rule reserve_capacity_pow) (use assms(4,5) k in simp_all)
  let ?d = "take (al_len l) (al_data l) @ replicate (2 ^ 32 - al_len l) None"
  define l' where "l' = \<lparr>al_array = a, al_cap = 0, al_len = al_len l, al_data = ?d, al_barriers = al_barriers l\<rparr>"
  have g: "al_grow E (2 ^ 32) l = Inr l'"
    using assms(6,7) len c(1) assms(5) by (simp add: al_grow_def RawArray_new_def l'_def as_u32_def Let_def)
  have "al_try_reserve E n l = Some (Inr (True, l'))"
    using rc g c assms(1,5) by (simp add: al_try_reserve_def max_elems_def al_is_empty_ok)
  then show ?thesis using len
    by (intro exI [of _ l']) (simp add: l'_def al_abs_def al_get_def slice_at_def al_deref_def al_slice_def)
qed

text \<open>Negative indices.\<close>

lemma index_i32_neg: "0 < k \<Longrightarrow> k < 2 ^ 31 \<Longrightarrow> index_i32 (- int k) l = (if k \<le> al_len l then Inr (al_len l - k) else Inl ArithOverflow)"
  by (simp add: index_i32_def)

text \<open>C3. Negative indices count from the end, in element accesses and in ranges: \<open>-k\<close> is the \<open>k\<close>-th element from the end, \<open>-k..\<close> and
  \<open>-k..=-1\<close> are the last \<open>k\<close> elements, \<open>..-k\<close> all but the last \<open>k\<close>; an index before the start panics. Writing through
  \<open>IndexMut\<close> checks the capacity only: a write behind the end is accepted and lost, where a read panics.\<close>

theorem arraylist_indexing:
  assumes "al_inv l" "0 < k" "k < 2 ^ 31"
  shows "(k \<le> al_len l \<longrightarrow> al_index_int (- int k) l = Inr (al_abs l ! (al_len l - k)) \<and>
      al_index_range (RangeFromI (- int k)) l = Inr (drop (al_len l - k) (al_abs l)) \<and>
      al_index_range (RangeInclusiveI (- int k) (- 1)) l = Inr (drop (al_len l - k) (al_abs l)) \<and>
      al_index_range (RangeToI (- int k)) l = Inr (take (al_len l - k) (al_abs l))) \<and>
    (al_len l < k \<longrightarrow> al_index_int (- int k) l = Inl ArithOverflow) \<and>
    (al_len l \<le> i \<and> i < al_cap l \<longrightarrow> al_index i l = Inl AssertFailed \<and>
      (\<exists>l'. al_index_mut i v l = Inr l' \<and> al_inv l' \<and> al_abs l' = al_abs l))"
proof -
  have len: "length (al_abs l) = al_len l" by (rule al_abs_length [OF assms(1)])
  have 32: "al_len l < 2 ^ 64 - 1" using assms(1) by (simp add: al_inv_def)
  have last: "index_i32 (- 1) l = Inr (al_len l - 1)" if "0 < al_len l" using that index_i32_neg [of 1 l] by simp
  have neg: "al_index_int (- int k) l = Inr (al_abs l ! (al_len l - k))"
      "al_index_range (RangeFromI (- int k)) l = Inr (drop (al_len l - k) (al_abs l))"
      "al_index_range (RangeInclusiveI (- int k) (- 1)) l = Inr (drop (al_len l - k) (al_abs l))"
      "al_index_range (RangeToI (- int k)) l = Inr (take (al_len l - k) (al_abs l))" if "k \<le> al_len l"
    using that assms(2) last 32
    by (simp_all add: al_index_int_def al_index_range_def index_i32_neg [OF assms(2,3)] al_at_ok [OF assms(1)] al_slice_ok [OF assms(1)] len succ_usize_def)
  have "al_index i l = Inl AssertFailed \<and> (\<exists>l'. al_index_mut i v l = Inr l' \<and> al_inv l' \<and> al_abs l' = al_abs l)" if i: "al_len l \<le> i" "i < al_cap l"
  proof -
    have "al_inv (l\<lparr>al_data := (al_data l)[i := Some v]\<rparr>)" "al_abs (l\<lparr>al_data := (al_data l)[i := Some v]\<rparr>) = al_abs l"
      using assms(1) i by (simp_all add: al_inv_def al_abs_def)
    then show ?thesis using i assms(1) by (simp add: al_index_def al_at_ok len al_index_mut_def slice_put_def write_slot_def al_inv_def)
  qed
  then show ?thesis using neg by (auto simp: al_index_int_def index_i32_neg [OF assms(2,3)])
qed

text \<open>A list of \<open>u64\<close> in an allocator with room.\<close>

definition ex_list_env :: list_env where
  "ex_list_env = \<lparr>le_size = 8, le_elem = 8, le_barrier = True, le_alloc = \<lambda>n. Some 4096\<rparr>"

definition ex_list :: "nat list \<Rightarrow> nat ArrayList" where
  "ex_list xs = \<lparr>al_array = 4096, al_cap = length xs + 1, al_len = length xs, al_data = map Some xs @ [None], al_barriers = []\<rparr>"

lemma ex_list_env_ok: "env_ok ex_list_env \<and> 0 < le_elem ex_list_env"
  by (simp add: env_ok_def ex_list_env_def)

lemma ex_list_ok: "length xs < 2 ^ 31 \<Longrightarrow> al_inv (ex_list xs) \<and> al_abs (ex_list xs) = xs"
  by (rule al_holds) (simp_all add: ex_list_def)

theorem arraylist_refines_witness:
  "succeeds ex_list_env (\<lambda>l. list_refines ex_list_env (Inr ([[], [], [5], [], [7]], [7]))
    (al_run ex_list_env [Push 5, Push 7, Remove 0, ReverseInPlace, Get 0] l)) (al_new ex_list_env :: nat ArrayList res)"
  using arraylist_refines [of ex_list_env "[Push 5, Push 7, Remove 0, ReverseInPlace, Get 0]"] ex_list_env_ok by simp

theorem arraylist_split_off_witness:
  "al_split_off ex_list_env 1 (ex_list [5, 6, 7]) = Inl ExplicitPanic \<and> al_split_off ex_list_env 4 (ex_list [5, 6, 7]) = Inl ArithOverflow"
proof -
  have "al_inv (ex_list [5, 6, 7])" "al_len (ex_list [5, 6, 7]) = 3" using ex_list_ok [of "[5, 6, 7]"] by (simp_all add: ex_list_def)
  then show ?thesis using arraylist_split_off [of ex_list_env "ex_list [5, 6, 7]" 1] arraylist_split_off [of ex_list_env "ex_list [5, 6, 7]" 4] ex_list_env_ok by (simp add: split_fails_def ex_list_env_def)
qed

theorem arraylist_reserve_overflow_witness:
  "\<exists>l'. al_try_reserve ex_list_env (2 ^ 31) (ex_list [5]) = Some (Inr (True, l')) \<and> al_cap l' = 0 \<and> length (al_data l') = 2 ^ 32 \<and>
    al_abs l' = al_abs (ex_list [5]) \<and> al_get 0 l' = Inl IndexOutOfBounds \<and> al_deref l' = Inl IndexOutOfBounds"
  by (rule arraylist_reserve_overflow [of _ 1]) (use ex_list_ok [of "[5]"] in \<open>simp_all add: ex_list_def varsize_bytes_def ex_list_env_def\<close>)

theorem arraylist_indexing_witness:
  "al_index_int (- int 1) (ex_list [5, 6, 7]) = Inr 7 \<and> al_index_range (RangeFromI (- int 2)) (ex_list [5, 6, 7]) = Inr [6, 7] \<and>
    al_index 3 (ex_list [5, 6, 7]) = Inl AssertFailed"
proof -
  have "al_inv (ex_list [5, 6, 7])" "al_abs (ex_list [5, 6, 7]) = [5, 6, 7]" "al_len (ex_list [5, 6, 7]) = 3" "al_cap (ex_list [5, 6, 7]) = 4"
    using ex_list_ok [of "[5, 6, 7]"] by (simp_all add: ex_list_def)
  then show ?thesis using arraylist_indexing [of "ex_list [5, 6, 7]" 1 3] arraylist_indexing [of "ex_list [5, 6, 7]" 2 3] by simp
qed

end
