(* ===== verification/TaskQueueModel.thy ===== *)
theory TaskQueueModel
  imports Prelude "HOL-Library.Multiset"
begin

text \<open>
  The work-stealing queue of \<open>utils/taskqueue.rs\<close>, a ring of \<open>N\<close> slots (a power of two). Its owner pushes and pops at the bottom,
  other threads steal at the top by exchanging the age, a pair of the top index and a tag. The methods are split at their accesses to
  shared memory, which threads make in any order (sequentially consistent). The exchange of the age is a weak one: whether the
  machine lets it fail spuriously is an argument. Accesses to variables that only the owner writes are
  joined with the access before them. The tags have 32 bits; a thread whose addition to a tag would overflow panics and takes no
  further step.

  Also here: the tagged pointers of \<open>ScannerTask\<close>, and the random numbers that choose a victim.
\<close>

section \<open>Indices\<close>

definition dirty_size :: "nat \<Rightarrow> nat \<Rightarrow> nat \<Rightarrow> nat" where
  "dirty_size N bo tp = wrapping_sub bo tp AND (N - 1)"

definition clean_size :: "nat \<Rightarrow> nat \<Rightarrow> nat \<Rightarrow> nat" where
  "clean_size N bo tp = (let sz = dirty_size N bo tp in if sz = N - 1 then 0 else sz)"

definition increment_index :: "nat \<Rightarrow> nat \<Rightarrow> nat" where
  "increment_index N ind = (ind + 1) AND (N - 1)"

definition decrement_index :: "nat \<Rightarrow> nat \<Rightarrow> nat" where
  "decrement_index N ind = wrapping_sub ind 1 AND (N - 1)"

definition queue_max_elems :: "nat \<Rightarrow> nat" where
  "queue_max_elems N = N - 2"

record Age =
  ag_top :: nat
  ag_tag :: nat

definition TASKQUEUE_SIZE :: nat where "TASKQUEUE_SIZE = push_bit 17 1"

section \<open>Tagged pointers and random numbers\<close>

definition OOP_TAG :: nat where "OOP_TAG = 0"
definition PARTIAL_ARRAY_TAG :: nat where "PARTIAL_ARRAY_TAG = 1"
definition TAG_MASK :: nat where "TAG_MASK = 1"

definition ScannerTask_encode :: "addr \<Rightarrow> nat \<Rightarrow> addr" where
  "ScannerTask_encode obj tag = obj + tag"

definition ScannerTask_has_tag :: "nat \<Rightarrow> addr \<Rightarrow> bool" where
  "ScannerTask_has_tag tag p \<longleftrightarrow> p AND TAG_MASK = tag"

definition ScannerTask_decode :: "nat \<Rightarrow> addr \<Rightarrow> addr res" where
  "ScannerTask_decode tag p = checked_sub p tag"

text \<open>The generator works on 32-bit signed integers; a product or difference out of their range is an overflow.\<close>

definition i32 :: "int \<Rightarrow> int res" where
  "i32 x = (if - (2 ^ 31) \<le> x \<and> x < 2 ^ 31 then Inr x else Inl ArithOverflow)"

definition random_park_and_miller :: "int \<Rightarrow> int res" where
  "random_park_and_miller seed =
     (let a = 16807; m = 2147483647; q = 127773; r = 2836; hi = seed div q; lo = seed mod q in
      rbind (i32 (a * lo)) (\<lambda>x. rbind (i32 (r * hi)) (\<lambda>y. rbind (i32 (x - y)) (\<lambda>test. if test > 0 then Inr test else i32 (test + m)))))"

section \<open>The queue and its threads\<close>

record 'a TaskQueue =
  tq_bottom :: nat
  tq_age :: Age
  tq_elems :: "nat \<Rightarrow> 'a"

text \<open>The owner in \<open>push\<close> (\<open>Writes\<close>: it found room; \<open>Sets\<close>: the slot is written) and in \<open>pop_local\<close> and \<open>pop_local_slow\<close>; a thief
  in \<open>pop_global\<close>. \<open>Reads i x\<close>: the exchange succeeded, slot \<open>i\<close> is still to be read; \<open>x\<close> records what the slot held at
  the exchange.\<close>

datatype 'a owner_pc = OwnerIdle | Writes 'a nat | Sets 'a nat | Decrements nat | ReadsTop nat | ReadsAge nat | ExchangesAge nat Age | SetsAge nat nat

datatype 'a thief_pc = ThiefIdle | HasAge Age | Steals Age | Reads nat 'a

text \<open>\<open>qs_pushed\<close>: what \<open>push\<close> accepted. \<open>qs_claimed\<close>: what was in the slots that pops and exchanges took. \<open>qs_returned\<close>: the results.\<close>

record 'a QueueSystem =
  qs_queue :: "'a TaskQueue"
  qs_owner :: "'a owner_pc"
  qs_thieves :: "'a thief_pc list"
  qs_pushed :: "'a multiset"
  qs_claimed :: "'a multiset"
  qs_returned :: "'a multiset"
  qs_panic :: bool

abbreviation bottom_of :: "'a QueueSystem \<Rightarrow> nat" where "bottom_of s \<equiv> tq_bottom (qs_queue s)"
abbreviation age_of :: "'a QueueSystem \<Rightarrow> Age" where "age_of s \<equiv> tq_age (qs_queue s)"
abbreviation elems_of :: "'a QueueSystem \<Rightarrow> nat \<Rightarrow> 'a" where "elems_of s \<equiv> tq_elems (qs_queue s)"

definition put_thief :: "'a QueueSystem \<Rightarrow> nat \<Rightarrow> 'a thief_pc \<Rightarrow> 'a QueueSystem" where
  "put_thief s i p = s\<lparr>qs_thieves := (qs_thieves s)[i := p]\<rparr>"

definition set_bottom :: "nat \<Rightarrow> 'a QueueSystem \<Rightarrow> 'a QueueSystem" where
  "set_bottom b s = s\<lparr>qs_queue := (qs_queue s)\<lparr>tq_bottom := b\<rparr>\<rparr>"

definition set_age :: "Age \<Rightarrow> 'a QueueSystem \<Rightarrow> 'a QueueSystem" where
  "set_age a s = s\<lparr>qs_queue := (qs_queue s)\<lparr>tq_age := a\<rparr>\<rparr>"

text \<open>An element leaves through the owner: it is claimed and returned at once.\<close>

definition take_elem :: "'a \<Rightarrow> 'a QueueSystem \<Rightarrow> 'a QueueSystem" where
  "take_elem x s = s\<lparr>qs_claimed := add_mset x (qs_claimed s), qs_returned := add_mset x (qs_returned s), qs_owner := OwnerIdle\<rparr>"

text \<open>The test of \<open>push\<close>, with its assertions.\<close>

definition push_check :: "nat \<Rightarrow> 'a \<Rightarrow> 'a QueueSystem \<Rightarrow> 'a QueueSystem" where
  "push_check N x s = (let local_bot = bottom_of s; dirty_n_elems = dirty_size N local_bot (ag_top (age_of s)) in
     if \<not> local_bot < N \<or> \<not> dirty_n_elems \<le> queue_max_elems N then s\<lparr>qs_panic := True\<rparr>
     else if dirty_n_elems < queue_max_elems N then s\<lparr>qs_owner := Writes x local_bot\<rparr> else s)"

definition pop_check :: "nat \<Rightarrow> nat \<Rightarrow> 'a QueueSystem \<Rightarrow> 'a QueueSystem" where
  "pop_check N threshold s = (if dirty_size N (bottom_of s) (ag_top (age_of s)) \<le> threshold then s
     else s\<lparr>qs_owner := Decrements (decrement_index N (bottom_of s))\<rparr>)"

definition pop_read_top :: "nat \<Rightarrow> nat \<Rightarrow> 'a QueueSystem \<Rightarrow> 'a QueueSystem" where
  "pop_read_top N b s = (if clean_size N b (ag_top (age_of s)) > 0 then take_elem (elems_of s b) s else s\<lparr>qs_owner := ReadsAge b\<rparr>)"

text \<open>\<open>cmpxchg_age\<close> is a weak exchange that returns the age it found, on success and on failure: the callers compare it with the age they
  expected. When the exchange fails although it found that age (\<open>spurious\<close>), they go on as if it had succeeded.\<close>

definition cmpxchg_age :: "bool \<Rightarrow> Age \<Rightarrow> Age \<Rightarrow> 'a QueueSystem \<Rightarrow> Age \<times> 'a QueueSystem" where
  "cmpxchg_age spurious old_age new_age s = (age_of s, if age_of s = old_age \<and> \<not> spurious then set_age new_age s else s)"

definition pop_exchange :: "bool \<Rightarrow> nat \<Rightarrow> Age \<Rightarrow> 'a QueueSystem \<Rightarrow> 'a QueueSystem" where
  "pop_exchange spurious b old_age s = (let new_age = \<lparr>ag_top = b, ag_tag = ag_tag old_age + 1\<rparr> in
     if b = ag_top old_age
     then let (temp_age, s) = cmpxchg_age spurious old_age new_age s in
       if temp_age = old_age then take_elem (elems_of s b) s else s\<lparr>qs_owner := SetsAge b (ag_tag new_age)\<rparr>
     else s\<lparr>qs_owner := SetsAge b (ag_tag new_age)\<rparr>)"

text \<open>The age after a steal, and the exchange of a thief.\<close>

definition next_age :: "nat \<Rightarrow> Age \<Rightarrow> Age" where
  "next_age N a = (let new_top = increment_index N (ag_top a) in \<lparr>ag_top = new_top, ag_tag = ag_tag a + (if new_top = 0 then 1 else 0)\<rparr>)"

definition steal_exchange :: "bool \<Rightarrow> nat \<Rightarrow> nat \<Rightarrow> Age \<Rightarrow> 'a QueueSystem \<Rightarrow> 'a QueueSystem" where
  "steal_exchange spurious N i old_age s = (let (res_age, s) = cmpxchg_age spurious old_age (next_age N old_age) s in
     if res_age = old_age
     then let x = elems_of s (ag_top old_age) in
       (put_thief s i (Reads (ag_top old_age) x))\<lparr>qs_claimed := add_mset x (qs_claimed s)\<rparr>
     else put_thief s i ThiefIdle)"

text \<open>\<open>weak\<close>: whether the exchanges of the machine can fail spuriously.\<close>

inductive queue_step :: "nat \<Rightarrow> bool \<Rightarrow> 'a QueueSystem \<Rightarrow> 'a QueueSystem \<Rightarrow> bool" for N weak where
  push: "qs_owner s = OwnerIdle \<Longrightarrow> queue_step N weak s (push_check N x s)"
| push_write: "qs_owner s = Writes x b \<Longrightarrow>
    queue_step N weak s (s\<lparr>qs_queue := (qs_queue s)\<lparr>tq_elems := (elems_of s)(b := x)\<rparr>, qs_owner := Sets x b\<rparr>)"
| push_set: "qs_owner s = Sets x b \<Longrightarrow>
    queue_step N weak s ((set_bottom (increment_index N b) s)\<lparr>qs_owner := OwnerIdle, qs_pushed := add_mset x (qs_pushed s)\<rparr>)"
| pop: "qs_owner s = OwnerIdle \<Longrightarrow> queue_step N weak s (pop_check N threshold s)"
| pop_decrement: "qs_owner s = Decrements b \<Longrightarrow> queue_step N weak s ((set_bottom b s)\<lparr>qs_owner := ReadsTop b\<rparr>)"
| pop_top: "qs_owner s = ReadsTop b \<Longrightarrow> queue_step N weak s (pop_read_top N b s)"
| pop_age: "qs_owner s = ReadsAge b \<Longrightarrow> ag_tag (age_of s) + 1 < 2 ^ 32 \<Longrightarrow> queue_step N weak s (s\<lparr>qs_owner := ExchangesAge b (age_of s)\<rparr>)"
| pop_slow: "qs_owner s = ExchangesAge b a \<Longrightarrow> spurious \<longrightarrow> weak \<Longrightarrow> queue_step N weak s (pop_exchange spurious b a s)"
| pop_fix: "qs_owner s = SetsAge b g \<Longrightarrow> queue_step N weak s ((set_age \<lparr>ag_top = b, ag_tag = g\<rparr> s)\<lparr>qs_owner := OwnerIdle\<rparr>)"
| steal: "i < length (qs_thieves s) \<Longrightarrow> qs_thieves s ! i = ThiefIdle \<Longrightarrow> queue_step N weak s (put_thief s i (HasAge (age_of s)))"
| steal_empty: "i < length (qs_thieves s) \<Longrightarrow> qs_thieves s ! i = HasAge a \<Longrightarrow> clean_size N (bottom_of s) (ag_top a) = 0 \<Longrightarrow>
    queue_step N weak s (put_thief s i ThiefIdle)"
| steal_bottom: "i < length (qs_thieves s) \<Longrightarrow> qs_thieves s ! i = HasAge a \<Longrightarrow> clean_size N (bottom_of s) (ag_top a) \<noteq> 0 \<Longrightarrow>
    ag_tag (next_age N a) < 2 ^ 32 \<Longrightarrow> queue_step N weak s (put_thief s i (Steals a))"
| steal_cas: "i < length (qs_thieves s) \<Longrightarrow> qs_thieves s ! i = Steals a \<Longrightarrow> spurious \<longrightarrow> weak \<Longrightarrow>
    queue_step N weak s (steal_exchange spurious N i a s)"
| steal_read: "i < length (qs_thieves s) \<Longrightarrow> qs_thieves s ! i = Reads k x \<Longrightarrow>
    queue_step N weak s ((put_thief s i ThiefIdle)\<lparr>qs_returned := add_mset (elems_of s k) (qs_returned s)\<rparr>)"

definition queue_start :: "nat \<Rightarrow> (nat \<Rightarrow> 'a) \<Rightarrow> 'a QueueSystem" where
  "queue_start n mem = \<lparr>qs_queue = \<lparr>tq_bottom = 0, tq_age = \<lparr>ag_top = 0, ag_tag = 0\<rparr>, tq_elems = mem\<rparr>, qs_owner = OwnerIdle,
     qs_thieves = replicate n ThiefIdle, qs_pushed = {#}, qs_claimed = {#}, qs_returned = {#}, qs_panic = False\<rparr>"

section \<open>Index arithmetic\<close>

definition ring_size :: "nat \<Rightarrow> bool" where
  "ring_size N \<longleftrightarrow> (\<exists>m. N = 2 ^ m \<and> 2 \<le> m \<and> m \<le> 32)"

lemma ring_size_ge: "ring_size N \<Longrightarrow> 4 \<le> N"
  using power_increasing [of 2 _ "2::nat"] by (auto simp: ring_size_def)

lemma ring_mask:
  assumes "ring_size N"
  shows "x AND (N - 1) = x mod N"
proof -
  obtain m where "N = 2 ^ m" using assms by (auto simp: ring_size_def)
  then show ?thesis by (simp add: take_bit_eq_mod [symmetric] take_bit_eq_mask mask_eq_exp_minus_1)
qed

lemma ring_wrap:
  assumes "ring_size N" "a < N" "b < N"
  shows "wrapping_sub a b mod N = (if b \<le> a then a - b else N + a - b)"
proof -
  obtain m where m: "N = 2 ^ m" "m \<le> 32" using assms(1) by (auto simp: ring_size_def)
  have "(2::nat) ^ 64 = N * 2 ^ (64 - m)" using m by (simp flip: power_add)
  moreover have "N * k + a - b = N * (k - 1) + (N + a - b)" if "0 < k" for k using that assms(2,3) by (cases k) auto
  moreover have "0 < (2::nat) ^ (64 - m)" by simp
  ultimately have "2 ^ 64 + a - b = N * (2 ^ (64 - m) - 1) + (N + a - b)" by metis
  then have "(2 ^ 64 + a - b) mod N = (N + a - b) mod N" by (simp only: mod_mult_self4)
  then have "(2 ^ 64 + a - b) mod N = N + a - b" if "\<not> b \<le> a" using that assms(3) by simp
  then show ?thesis using assms(2) by (simp add: wrapping_sub_def)
qed

lemma dirty_size_eq: "ring_size N \<Longrightarrow> bo < N \<Longrightarrow> tp < N \<Longrightarrow> dirty_size N bo tp = (if tp \<le> bo then bo - tp else N + bo - tp)"
  unfolding dirty_size_def by (simp only: ring_mask ring_wrap)

lemma increment_index_eq: "ring_size N \<Longrightarrow> i < N \<Longrightarrow> increment_index N i = (if i + 1 = N then 0 else i + 1)"
  unfolding increment_index_def by (simp only: ring_mask) simp

lemma decrement_index_eq: "ring_size N \<Longrightarrow> i < N \<Longrightarrow> decrement_index N i = (if i = 0 then N - 1 else i - 1)"
  using ring_size_ge [of N] ring_wrap [of N i 1] unfolding decrement_index_def by (simp only: ring_mask) auto

text \<open>The slot \<open>k\<close> places behind the top.\<close>

definition slot :: "nat \<Rightarrow> nat \<Rightarrow> nat \<Rightarrow> nat" where
  "slot N tp k = (if tp + k < N then tp + k else tp + k - N)"

lemma slot_lt: "tp < N \<Longrightarrow> k \<le> N \<Longrightarrow> slot N tp k < N"
  by (auto simp: slot_def)

lemma slot_0 [simp]: "tp < N \<Longrightarrow> slot N tp 0 = tp"
  by (simp add: slot_def)

lemma slot_inj: "tp < N \<Longrightarrow> j < N \<Longrightarrow> k < N \<Longrightarrow> slot N tp j = slot N tp k \<longleftrightarrow> j = k"
  by (auto simp: slot_def)

lemma slot_Suc: "ring_size N \<Longrightarrow> tp < N \<Longrightarrow> k < N \<Longrightarrow> slot N (increment_index N tp) k = slot N tp (Suc k)"
  by (auto simp: slot_def increment_index_eq)

lemma slot_increment: "ring_size N \<Longrightarrow> tp < N \<Longrightarrow> k < N \<Longrightarrow> increment_index N (slot N tp k) = slot N tp (Suc k)"
  by (auto simp: slot_def increment_index_eq)

text \<open>What the sizes say about a queue of \<open>n\<close> elements: with the bottom in its place, and with the bottom decremented.\<close>

lemma dirty_size_slot: "ring_size N \<Longrightarrow> tp < N \<Longrightarrow> n < N \<Longrightarrow> dirty_size N (slot N tp n) tp = n"
  unfolding dirty_size_eq [OF _ slot_lt [OF _ less_imp_le]] by (auto simp: slot_def)

lemma decrement_slot: "ring_size N \<Longrightarrow> tp < N \<Longrightarrow> Suc n < N \<Longrightarrow> decrement_index N (slot N tp (Suc n)) = slot N tp n"
  unfolding decrement_index_eq [OF _ slot_lt [OF _ less_imp_le]] by (auto simp: slot_def)

lemma clean_size_slot: "ring_size N \<Longrightarrow> tp < N \<Longrightarrow> n < N - 1 \<Longrightarrow> clean_size N (slot N tp n) tp = n"
  by (simp add: clean_size_def dirty_size_slot)

lemma clean_size_decremented:
  assumes "ring_size N" "tp < N" "b < N" "increment_index N b = slot N tp n" "n < N - 1"
  shows "clean_size N b tp = n - 1" "0 < n \<Longrightarrow> b = slot N tp (n - 1)" "n = 0 \<Longrightarrow> tp = increment_index N b"
proof -
  have b: "b = (if n = 0 then decrement_index N tp else slot N tp (n - 1))"
    using assms by (auto simp: increment_index_eq decrement_index_eq slot_def split: if_splits)
  show "clean_size N b tp = n - 1"
  proof (cases "n = 0")
    case True
    then have "dirty_size N b tp = N - 1" using b assms(1-3) by (auto simp: dirty_size_eq decrement_index_eq)
    then show ?thesis using True by (simp add: clean_size_def)
  next
    case False
    then show ?thesis using b assms(1,2,5) by (simp add: clean_size_slot)
  qed
  show "0 < n \<Longrightarrow> b = slot N tp (n - 1)" "n = 0 \<Longrightarrow> tp = increment_index N b" using b assms(2,4) by auto
qed

section \<open>Invariant\<close>

text \<open>Ages only grow: the tag first, then the top.\<close>

definition age_lt :: "Age \<Rightarrow> Age \<Rightarrow> bool" where
  "age_lt a b \<longleftrightarrow> ag_tag a < ag_tag b \<or> ag_tag a = ag_tag b \<and> ag_top a < ag_top b"

lemma age_lt_irrefl [simp]: "\<not> age_lt a a"
  by (simp add: age_lt_def)

lemma age_lt_trans: "age_lt a b \<Longrightarrow> age_lt b c \<Longrightarrow> age_lt a c"
  by (auto simp: age_lt_def)

lemma next_age_simps: "ag_top (next_age N a) = increment_index N (ag_top a)"
  by (simp add: next_age_def Let_def)

lemma age_lt_next: "ring_size N \<Longrightarrow> ag_top a < N \<Longrightarrow> age_lt a (next_age N a)"
  by (simp add: age_lt_def next_age_def Let_def increment_index_eq)

text \<open>The queue holds the elements \<open>q\<close>, from the top on.\<close>

definition holds_elems :: "nat \<Rightarrow> 'a QueueSystem \<Rightarrow> 'a list \<Rightarrow> bool" where
  "holds_elems N s q \<longleftrightarrow> ag_top (age_of s) < N \<and> bottom_of s < N \<and> length q \<le> N - 2 \<and>
     (\<forall>k < length q. elems_of s (slot N (ag_top (age_of s)) k) = q ! k)"

definition owner_ok :: "nat \<Rightarrow> 'a QueueSystem \<Rightarrow> 'a list \<Rightarrow> bool" where
  "owner_ok N s q \<longleftrightarrow> (let end = slot N (ag_top (age_of s)) (length q) in case qs_owner s of
     OwnerIdle \<Rightarrow> bottom_of s = end
   | Writes x b \<Rightarrow> bottom_of s = end \<and> b = end \<and> length q < N - 2
   | Sets x b \<Rightarrow> bottom_of s = end \<and> b = end \<and> length q < N - 2 \<and> elems_of s b = x
   | Decrements b \<Rightarrow> bottom_of s = end \<and> b = decrement_index N end
   | ReadsTop b \<Rightarrow> b = bottom_of s \<and> increment_index N b = end
   | ReadsAge b \<Rightarrow> b = bottom_of s \<and> increment_index N b = end \<and> length q \<le> 1
   | ExchangesAge b a \<Rightarrow> b = bottom_of s \<and> increment_index N b = end \<and> length q \<le> 1 \<and>
       (age_of s = a \<or> ag_top a = b \<and> age_of s = next_age N a \<and> q = [])
   | SetsAge b g \<Rightarrow> b = bottom_of s \<and> increment_index N b = end \<and> q = [] \<and> age_lt (age_of s) \<lparr>ag_top = b, ag_tag = g\<rparr>)"

fun thief_ok :: "Age \<Rightarrow> 'a list \<Rightarrow> 'a thief_pc \<Rightarrow> bool" where
  "thief_ok age q (HasAge a) \<longleftrightarrow> a = age \<or> age_lt a age"
| "thief_ok age q (Steals a) \<longleftrightarrow> a = age \<and> q \<noteq> [] \<or> age_lt a age"
| "thief_ok age q _ \<longleftrightarrow> True"

definition queue_inv :: "nat \<Rightarrow> 'a list \<Rightarrow> 'a QueueSystem \<Rightarrow> bool" where
  "queue_inv N q s \<longleftrightarrow> holds_elems N s q \<and> owner_ok N s q \<and> (\<forall>p \<in> set (qs_thieves s). thief_ok (age_of s) q p) \<and>
     qs_pushed s = mset q + qs_claimed s \<and> \<not> qs_panic s"

lemma thief_ok_mono:
  assumes "thief_ok age q p" "age' = age \<and> (q \<noteq> [] \<longrightarrow> q' \<noteq> []) \<or> age_lt age age'"
  shows "thief_ok age' q' p"
  using assms by (cases p) (auto intro: age_lt_trans)

lemmas queue_defs = queue_inv_def holds_elems_def owner_ok_def Let_def

lemma owner_ok_same: "qs_queue s' = qs_queue s \<Longrightarrow> qs_owner s' = qs_owner s \<Longrightarrow> owner_ok N s' q = owner_ok N s q"
  by (simp add: owner_ok_def split: owner_pc.split)

lemma put_thief_simps [simp]:
  "qs_queue (put_thief s i p) = qs_queue s" "qs_owner (put_thief s i p) = qs_owner s" "qs_thieves (put_thief s i p) = (qs_thieves s)[i := p]"
  "qs_pushed (put_thief s i p) = qs_pushed s" "qs_claimed (put_thief s i p) = qs_claimed s" "qs_returned (put_thief s i p) = qs_returned s"
  "qs_panic (put_thief s i p) = qs_panic s"
  by (simp_all add: put_thief_def)

lemma set_thief: "x \<in> set (ps[i := p]) \<Longrightarrow> x = p \<or> x \<in> set ps"
  using set_update_subset_insert [of ps i p] by auto

text \<open>The steps of the owner. A pop may find only one element left, or none; then the thieves and the owner meet at the age.\<close>

lemma owner_ok_sizes:
  assumes "ring_size N" "queue_inv N q s"
  shows "bottom_of s = slot N (ag_top (age_of s)) (length q) \<Longrightarrow> dirty_size N (bottom_of s) (ag_top (age_of s)) = length q"
    "increment_index N (bottom_of s) = slot N (ag_top (age_of s)) (length q) \<Longrightarrow> clean_size N (bottom_of s) (ag_top (age_of s)) = length q - 1"
    "increment_index N (bottom_of s) = slot N (ag_top (age_of s)) (length q) \<Longrightarrow> q \<noteq> [] \<Longrightarrow>
      bottom_of s = slot N (ag_top (age_of s)) (length q - 1) \<and> elems_of s (bottom_of s) = last q"
    "increment_index N (bottom_of s) = slot N (ag_top (age_of s)) (length q) \<Longrightarrow> q = [] \<Longrightarrow> ag_top (age_of s) = increment_index N (bottom_of s)"
proof -
  have l: "ag_top (age_of s) < N" "bottom_of s < N" "length q \<le> N - 2" "4 \<le> N" using assms ring_size_ge by (auto simp: queue_inv_def holds_elems_def)
  then have l': "length q < N - 1" by linarith
  show "bottom_of s = slot N (ag_top (age_of s)) (length q) \<Longrightarrow> dirty_size N (bottom_of s) (ag_top (age_of s)) = length q"
    using dirty_size_slot [OF assms(1) l(1), of "length q"] l' by simp
  assume i: "increment_index N (bottom_of s) = slot N (ag_top (age_of s)) (length q)"
  note c = clean_size_decremented [OF assms(1) l(1,2) i l']
  show "clean_size N (bottom_of s) (ag_top (age_of s)) = length q - 1" by (rule c(1))
  show "q \<noteq> [] \<Longrightarrow> bottom_of s = slot N (ag_top (age_of s)) (length q - 1) \<and> elems_of s (bottom_of s) = last q"
    using c(2) assms(2) by (auto simp: queue_inv_def holds_elems_def last_conv_nth)
  show "q = [] \<Longrightarrow> ag_top (age_of s) = increment_index N (bottom_of s)" using c(3) by simp
qed

lemma owner_at:
  "queue_inv N q s \<Longrightarrow> qs_owner s = ExchangesAge b a \<Longrightarrow> b = bottom_of s \<and> increment_index N (bottom_of s) = slot N (ag_top (age_of s)) (length q) \<and>
    length q \<le> 1 \<and> (age_of s = a \<or> ag_top a = b \<and> age_of s = next_age N a \<and> q = [])"
  by (auto simp: queue_inv_def owner_ok_def Let_def)

lemma increment_neq: "ring_size N \<Longrightarrow> i < N \<Longrightarrow> increment_index N i \<noteq> i"
  using ring_size_ge [of N] by (auto simp: increment_index_eq)

text \<open>The owner takes the last element.\<close>

lemma take_last_inv:
  assumes N: "ring_size N" and inv: "queue_inv N q s" and q: "q \<noteq> []" and b: "increment_index N (bottom_of s) = slot N (ag_top (age_of s)) (length q)"
    and age: "age_of s = a \<and> 1 < length q \<or> age_lt (age_of s) a \<and> ag_top a = bottom_of s \<and> length q = 1"
  shows "queue_inv N (butlast q) (take_elem (elems_of s (bottom_of s)) (set_age a s))"
proof -
  note z = owner_ok_sizes(3) [OF N inv b q]
  have top: "ag_top a = ag_top (age_of s)" using age z inv by (auto simp: queue_inv_def holds_elems_def)
  have "mset q = mset (butlast q) + {#last q#}" using q by (metis append_butlast_last_id mset_append mset_single_iff mset.simps(1) mset.simps(2))
  moreover have "thief_ok a (butlast q) p" if "p \<in> set (qs_thieves s)" for p
  proof (rule thief_ok_mono)
    show "thief_ok (age_of s) q p" using inv that by (simp add: queue_inv_def)
    show "a = age_of s \<and> (q \<noteq> [] \<longrightarrow> butlast q \<noteq> []) \<or> age_lt (age_of s) a" using age by (cases q) auto
  qed
  moreover have "elems_of s (slot N (ag_top (age_of s)) (length q - 1)) = last q" "length q - 1 \<le> N - 2"
    using z inv by (auto simp: queue_inv_def holds_elems_def)
  ultimately show ?thesis using inv z top by (simp add: queue_defs take_elem_def set_age_def nth_butlast)
qed

lemma queue_inv_owner:
  assumes N: "ring_size N" and inv: "queue_inv N q s"
  shows "qs_owner s = OwnerIdle \<Longrightarrow> queue_inv N q (push_check N x s)" "qs_owner s = OwnerIdle \<Longrightarrow> queue_inv N q (pop_check N threshold s)"
    "qs_owner s = Decrements b \<Longrightarrow> queue_inv N q ((set_bottom b s)\<lparr>qs_owner := ReadsTop b\<rparr>)"
    "qs_owner s = ReadsAge b \<Longrightarrow> queue_inv N q (s\<lparr>qs_owner := ExchangesAge b (age_of s)\<rparr>)"
    "qs_owner s = SetsAge b g \<Longrightarrow> queue_inv N q ((set_age \<lparr>ag_top = b, ag_tag = g\<rparr> s)\<lparr>qs_owner := OwnerIdle\<rparr>)"
proof -
  have l: "ag_top (age_of s) < N" "bottom_of s < N" "length q \<le> N - 2" "4 \<le> N" using inv ring_size_ge [OF N] by (auto simp: queue_inv_def holds_elems_def)
  show "qs_owner s = OwnerIdle \<Longrightarrow> queue_inv N q (push_check N x s)"
    using owner_ok_sizes(1) [OF N inv] inv by (auto simp: push_check_def queue_defs queue_max_elems_def)
  show "qs_owner s = OwnerIdle \<Longrightarrow> queue_inv N q (pop_check N threshold s)"
    using inv by (auto simp: pop_check_def queue_defs)
  show "queue_inv N q ((set_bottom b s)\<lparr>qs_owner := ReadsTop b\<rparr>)" if "qs_owner s = Decrements b"
  proof -
    have b: "b = decrement_index N (bottom_of s)" "bottom_of s = slot N (ag_top (age_of s)) (length q)" using inv that by (auto simp: queue_defs)
    have "b < N" "increment_index N b = bottom_of s" using b(1) l N by (auto simp: decrement_index_eq increment_index_eq)
    then show ?thesis using inv b that by (auto simp: queue_defs set_bottom_def)
  qed
  show "qs_owner s = ReadsAge b \<Longrightarrow> queue_inv N q (s\<lparr>qs_owner := ExchangesAge b (age_of s)\<rparr>)"
    using inv by (auto simp: queue_defs)
  show "queue_inv N q ((set_age \<lparr>ag_top = b, ag_tag = g\<rparr> s)\<lparr>qs_owner := OwnerIdle\<rparr>)" if o: "qs_owner s = SetsAge b g"
  proof -
    have b: "b = bottom_of s" "q = []" "age_lt (age_of s) \<lparr>ag_top = b, ag_tag = g\<rparr>" using inv o by (auto simp: queue_defs)
    have "thief_ok \<lparr>ag_top = b, ag_tag = g\<rparr> q p" if "p \<in> set (qs_thieves s)" for p
      using thief_ok_mono [of "age_of s" q p "\<lparr>ag_top = b, ag_tag = g\<rparr>" q] b(3) inv that by (simp add: queue_inv_def)
    then show ?thesis using inv b l by (simp add: queue_defs set_age_def)
  qed
qed

lemma queue_inv_pop_top:
  assumes N: "ring_size N" and inv: "queue_inv N q s" and o: "qs_owner s = ReadsTop b"
  shows "\<exists>q'. queue_inv N q' (pop_read_top N b s)"
proof -
  have b: "b = bottom_of s" "increment_index N (bottom_of s) = slot N (ag_top (age_of s)) (length q)" using inv o by (auto simp: queue_defs)
  note c = owner_ok_sizes(2) [OF N inv b(2)]
  have s: "set_age (age_of s) s = s" by (simp add: set_age_def)
  show ?thesis
  proof (cases "1 < length q")
    case True
    then have "queue_inv N (butlast q) (take_elem (elems_of s (bottom_of s)) s)"
      using take_last_inv [OF N inv _ b(2), of "age_of s"] unfolding s by fastforce
    then show ?thesis using c True by (intro exI [of _ "butlast q"]) (simp add: pop_read_top_def b(1))
  next
    case False
    then show ?thesis using c b inv by (intro exI [of _ q]) (auto simp: pop_read_top_def queue_defs)
  qed
qed

lemma queue_inv_pop_slow:
  assumes N: "ring_size N" and inv: "queue_inv N q s" and o: "qs_owner s = ExchangesAge b a"
  shows "\<exists>q'. queue_inv N q' (pop_exchange False b a s)"
proof -
  have b: "b = bottom_of s" "increment_index N (bottom_of s) = slot N (ag_top (age_of s)) (length q)" "length q \<le> 1"
    "age_of s = a \<or> ag_top a = b \<and> age_of s = next_age N a \<and> q = []" using owner_at [OF inv o] by blast+
  have l: "ag_top (age_of s) < N" "bottom_of s < N" "4 \<le> N" using inv ring_size_ge [OF N] by (auto simp: queue_inv_def holds_elems_def)
  let ?a = "\<lparr>ag_top = b, ag_tag = ag_tag a + 1\<rparr>"
  show ?thesis
  proof (cases "b = ag_top a \<and> age_of s = a")
    case True
    have "q \<noteq> []"
    proof
      assume "q = []"
      then have "ag_top (age_of s) = increment_index N (bottom_of s)" by (rule owner_ok_sizes(4) [OF N inv b(2)])
      then show False using increment_neq [OF N l(2)] True b(1) by metis
    qed
    then have "queue_inv N (butlast q) (take_elem (elems_of s (bottom_of s)) (set_age ?a s))"
    proof (intro take_last_inv [OF N inv _ b(2)] disjI2 conjI)
      show "age_lt (age_of s) ?a" using True by (simp add: age_lt_def)
      show "length q = 1" using \<open>q \<noteq> []\<close> b(3) by (cases q) simp_all
    qed (use b(1) in simp_all)
    then show ?thesis using True b(1) by (intro exI [of _ "butlast q"]) (simp add: pop_exchange_def cmpxchg_age_def Let_def set_age_def)
  next
    case False
    then have e: "pop_exchange False b a s = s\<lparr>qs_owner := SetsAge b (ag_tag a + 1)\<rparr>" by (auto simp: pop_exchange_def cmpxchg_age_def Let_def)
    have "q = []"
    proof (rule ccontr)
      assume q: "q \<noteq> []"
      then have a: "length q - 1 = 0" "age_of s = a" using b(3,4) by linarith (use b(4) q in blast)
      then have "bottom_of s = ag_top a" using owner_ok_sizes(3) [OF N inv b(2) q] l(1) by (metis slot_0)
      then show False using False b(1) a(2) by metis
    qed
    moreover have "age_lt (age_of s) ?a"
    proof (cases "age_of s = a")
      case False
      then have "ag_top a = b" "age_of s = next_age N a" "b < N" using b(1,4) l(2) by blast+
      then show ?thesis using N l(3) by (simp add: age_lt_def next_age_def Let_def increment_index_eq)
    qed (simp add: age_lt_def)
    ultimately show ?thesis unfolding e using inv b(1,2) by (intro exI [of _ q]) (simp add: queue_inv_def holds_elems_def owner_ok_def)
  qed
qed

lemma queue_inv_push:
  assumes N: "ring_size N" and inv: "queue_inv N q s"
  shows "qs_owner s = Writes x b \<Longrightarrow> queue_inv N q (s\<lparr>qs_queue := (qs_queue s)\<lparr>tq_elems := (elems_of s)(b := x)\<rparr>, qs_owner := Sets x b\<rparr>)"
    "qs_owner s = Sets x b \<Longrightarrow> queue_inv N (q @ [x]) ((set_bottom (increment_index N b) s)\<lparr>qs_owner := OwnerIdle, qs_pushed := add_mset x (qs_pushed s)\<rparr>)"
proof -
  have l: "ag_top (age_of s) < N" "length q \<le> N - 2" "4 \<le> N" using inv ring_size_ge [OF N] by (auto simp: queue_inv_def holds_elems_def)
  show "queue_inv N q (s\<lparr>qs_queue := (qs_queue s)\<lparr>tq_elems := (elems_of s)(b := x)\<rparr>, qs_owner := Sets x b\<rparr>)" if o: "qs_owner s = Writes x b"
  proof -
    have "slot N (ag_top (age_of s)) k \<noteq> slot N (ag_top (age_of s)) (length q)" if "k < length q" for k
      using slot_inj [OF l(1), of k "length q"] that l by simp
    then show ?thesis using inv o by (auto simp: queue_defs)
  qed
  show "queue_inv N (q @ [x]) ((set_bottom (increment_index N b) s)\<lparr>qs_owner := OwnerIdle, qs_pushed := add_mset x (qs_pushed s)\<rparr>)" if o: "qs_owner s = Sets x b"
  proof -
    have b: "b = slot N (ag_top (age_of s)) (length q)" "length q < N - 2" "elems_of s b = x" using inv o by (auto simp: queue_defs)
    have e: "increment_index N b = slot N (ag_top (age_of s)) (Suc (length q))" "increment_index N b < N"
      using slot_increment [OF N l(1), of "length q"] slot_lt [OF l(1), of "Suc (length q)"] b(1,2) by auto
    have "\<forall>k < Suc (length q). elems_of s (slot N (ag_top (age_of s)) k) = (q @ [x]) ! k"
      using inv b by (auto simp: queue_inv_def holds_elems_def nth_append less_Suc_eq)
    moreover have "thief_ok (age_of s) (q @ [x]) p" if "p \<in> set (qs_thieves s)" for p
      using thief_ok_mono [of "age_of s" q p "age_of s" "q @ [x]"] inv that by (simp add: queue_inv_def)
    ultimately show ?thesis using inv e b(2) by (simp add: queue_defs set_bottom_def)
  qed
qed

text \<open>The steps of a thief. Only a nonempty queue is stolen from: the bottom was read after the age, and the age has not changed.\<close>

lemma thief_sees_elem:
  assumes N: "ring_size N" and inv: "queue_inv N q s" and c: "clean_size N (bottom_of s) (ag_top (age_of s)) \<noteq> 0"
  shows "q \<noteq> []"
proof
  assume q: "q = []"
  have l: "ag_top (age_of s) < N" using inv by (simp add: queue_inv_def holds_elems_def)
  have "bottom_of s = slot N (ag_top (age_of s)) (length q) \<or> increment_index N (bottom_of s) = slot N (ag_top (age_of s)) (length q)"
    using inv by (auto simp: queue_defs split: owner_pc.splits)
  then show False using c q owner_ok_sizes(1,2) [OF N inv] by (auto simp: clean_size_def split: if_splits)
qed

lemma queue_inv_thief:
  assumes N: "ring_size N" and inv: "queue_inv N q s" and p: "thief_ok (age_of s) q p"
  shows "queue_inv N q (put_thief s i p)"
proof -
  have "thief_ok (age_of s) q x" if "x \<in> set ((qs_thieves s)[i := p])" for x
    using set_thief [OF that] p inv by (auto simp: queue_inv_def)
  then show ?thesis using inv by (simp add: queue_inv_def holds_elems_def owner_ok_same [of "put_thief s i p" s])
qed

lemma queue_inv_steal:
  assumes N: "ring_size N" and inv: "queue_inv N q s" and i: "i < length (qs_thieves s)" "qs_thieves s ! i = Steals a"
  shows "\<exists>q'. queue_inv N q' (steal_exchange False N i a s)"
proof (cases "age_of s = a")
  case False
  then show ?thesis using queue_inv_thief [OF N inv, of ThiefIdle i] by (auto simp: steal_exchange_def cmpxchg_age_def)
next
  case True
  let ?t = "ag_top (age_of s)" and ?n = "next_age N (age_of s)"
  have "thief_ok (age_of s) q (Steals a)" using inv i nth_mem [OF i(1)] by (auto simp: queue_inv_def)
  then obtain x q' where q: "q = x # q'" using True by (cases q) auto
  have l: "?t < N" "length q \<le> N - 2" "4 \<le> N" and el: "\<forall>k < length q. elems_of s (slot N ?t k) = q ! k"
    using inv ring_size_ge [OF N] by (auto simp: queue_inv_def holds_elems_def)
  have top: "ag_top ?n = increment_index N ?t" "increment_index N ?t < N" using N l(1) by (simp_all add: next_age_simps increment_index_eq)
  have sl: "slot N (increment_index N ?t) k = slot N ?t (Suc k)" if "k < N" for k using slot_Suc [OF N l(1) that] .
  have x: "elems_of s ?t = x" using el q l(1) by force
  let ?s = "steal_exchange False N i a s"
  have s: "age_of ?s = ?n" "bottom_of ?s = bottom_of s" "elems_of ?s = elems_of s" "qs_owner ?s = qs_owner s" "qs_pushed ?s = qs_pushed s"
    "qs_claimed ?s = add_mset x (qs_claimed s)" "qs_panic ?s = qs_panic s" "qs_thieves ?s = (qs_thieves s)[i := Reads ?t x]"
    using True x by (simp_all add: steal_exchange_def cmpxchg_age_def Let_def set_age_def)
  have "thief_ok ?n q' p" if "p \<in> set (qs_thieves s)" for p
    using thief_ok_mono [of "age_of s" q p ?n q'] age_lt_next [OF N l(1)] inv that by (simp add: queue_inv_def)
  then have th: "\<forall>p \<in> set (qs_thieves ?s). thief_ok ?n q' p" unfolding s using set_thief by fastforce
  have e: "slot N (increment_index N ?t) (length q') = slot N ?t (length q)" using sl [of "length q'"] q l by simp
  have hold: "\<forall>k < length q'. elems_of s (slot N (increment_index N ?t) k) = q' ! k" using el sl l q by auto
  have ex: "q' = [] \<and> ag_top b = c \<and> age_of s = b" if "qs_owner s = ExchangesAge c b" for b c
  proof -
    have o: "c = bottom_of s" "increment_index N (bottom_of s) = slot N ?t (length q)" "length q \<le> 1" "age_of s = b"
      using owner_at [OF inv that] q by auto
    have "length q - 1 = 0" using o(3) by simp
    then have "bottom_of s = ?t" using owner_ok_sizes(3) [OF N inv o(2)] q l(1) by (metis list.discI slot_0)
    then show ?thesis using o(1,3,4) q by simp
  qed
  have lq: "length q' < length q" using q by simp
  have own: "owner_ok N ?s q'"
  proof (cases "qs_owner s")
    case (ExchangesAge c b)
    have "length q' \<le> 1" "age_of s = b" using ex [OF ExchangesAge] by simp_all
    then show ?thesis unfolding owner_ok_def Let_def s ExchangesAge owner_pc.case top(1) e
      using owner_at [OF inv ExchangesAge] ex [OF ExchangesAge] by blast
  qed (use inv lq in \<open>auto simp: queue_inv_def owner_ok_def s top e Let_def\<close>)
  have "queue_inv N q' ?s" using inv q top th hold own unfolding queue_inv_def holds_elems_def s by simp
  then show ?thesis by blast
qed

lemma queue_step_inv:
  assumes N: "ring_size N" and st: "queue_step N False s s'" and inv: "queue_inv N q s"
  shows "\<exists>q'. queue_inv N q' s'"
  using st inv
proof (induction rule: queue_step.induct)
  case (push_write s x b)
  show ?case by (rule exI, rule queue_inv_push(1) [OF N push_write.prems push_write.hyps])
next
  case (push_set s x b)
  show ?case by (rule exI, rule queue_inv_push(2) [OF N push_set.prems push_set.hyps])
next
  case (pop_top s b)
  then show ?case using queue_inv_pop_top [OF N] by blast
next
  case (pop_slow s b a spurious)
  then show ?case using queue_inv_pop_slow [OF N pop_slow.prems pop_slow.hyps(1)] by simp
next
  case (steal i s)
  then show ?case using queue_inv_thief [OF N, of q s "HasAge (age_of s)" i] by auto
next
  case (steal_empty i s a)
  then show ?case using queue_inv_thief [OF N, of q s ThiefIdle i] by auto
next
  case (steal_bottom i s a)
  have "thief_ok (age_of s) q (HasAge a)" using steal_bottom.prems steal_bottom.hyps(1,2) nth_mem by (fastforce simp: queue_inv_def)
  then have "thief_ok (age_of s) q (Steals a)" using thief_sees_elem [OF N steal_bottom.prems] steal_bottom.hyps(3) by auto
  then show ?case using queue_inv_thief [OF N steal_bottom.prems] by blast
next
  case (steal_cas i s a spurious)
  then show ?case using queue_inv_steal [OF N steal_cas.prems steal_cas.hyps(1,2)] by simp
next
  case (steal_read i s k x)
  then have "queue_inv N q (put_thief s i ThiefIdle)" using queue_inv_thief [OF N, of q s ThiefIdle i] by simp
  then show ?case
    by (intro exI [of _ q]) (simp add: queue_inv_def holds_elems_def owner_ok_same [of "(put_thief s i ThiefIdle)\<lparr>qs_returned := r\<rparr>" "put_thief s i ThiefIdle" for r])
qed (rule exI, rule queue_inv_owner [OF N], assumption, assumption)+

section \<open>Properties\<close>

lemma strong_claims_once:
  assumes "ring_size N" "(queue_step N False)\<^sup>*\<^sup>* (queue_start n mem) s"
  shows "\<not> qs_panic s \<and> (\<exists>q. qs_pushed s = mset q + qs_claimed s \<and> length q \<le> queue_max_elems N \<and>
    (qs_owner s = OwnerIdle \<longrightarrow> dirty_size N (bottom_of s) (ag_top (age_of s)) = length q \<and>
      (\<forall>k < length q. elems_of s ((ag_top (age_of s) + k) mod N) = q ! k)))"
proof -
  from assms(2) have "\<exists>q. queue_inv N q s"
  proof (induction rule: rtranclp_induct)
    case base
    show ?case using ring_size_ge [OF assms(1)] by (intro exI [of _ "[]"]) (simp add: queue_defs queue_start_def)
  next
    case (step t u)
    then show ?case using queue_step_inv [OF assms(1)] by blast
  qed
  then obtain q where inv: "queue_inv N q s" by blast
  have l: "ag_top (age_of s) < N" "length q \<le> N - 2" using inv by (auto simp: queue_inv_def holds_elems_def)
  have "slot N (ag_top (age_of s)) k = (ag_top (age_of s) + k) mod N" if "k < length q" for k
    using that l by (auto simp: slot_def mod_if)
  moreover have "dirty_size N (bottom_of s) (ag_top (age_of s)) = length q" if "qs_owner s = OwnerIdle"
    using owner_ok_sizes(1) [OF assms(1) inv] inv that by (simp add: queue_inv_def owner_ok_def)
  ultimately show ?thesis using inv by (intro conjI exI [of _ q]) (auto simp: queue_inv_def holds_elems_def queue_max_elems_def)
qed

text \<open>States of a run with one thief.\<close>

definition qst :: "nat \<Rightarrow> nat \<Rightarrow> nat \<Rightarrow> (nat \<Rightarrow> 'a) \<Rightarrow> 'a owner_pc \<Rightarrow> 'a thief_pc \<Rightarrow> 'a multiset \<Rightarrow> 'a multiset \<Rightarrow> 'a multiset \<Rightarrow> 'a QueueSystem" where
  "qst b tp g e ow th pu cl re = \<lparr>qs_queue = \<lparr>tq_bottom = b, tq_age = \<lparr>ag_top = tp, ag_tag = g\<rparr>, tq_elems = e\<rparr>, qs_owner = ow, qs_thieves = [th],
     qs_pushed = pu, qs_claimed = cl, qs_returned = re, qs_panic = False\<rparr>"

lemma ring_example: "ring_size TASKQUEUE_SIZE"
  unfolding ring_size_def TASKQUEUE_SIZE_def by (rule exI [of _ 17]) (simp add: push_bit_eq_mult)

lemma index_examples:
  "dirty_size TASKQUEUE_SIZE 0 0 = 0" "dirty_size TASKQUEUE_SIZE 1 0 = 1" "clean_size TASKQUEUE_SIZE 1 0 = 1" "clean_size TASKQUEUE_SIZE 0 0 = 0"
  "clean_size TASKQUEUE_SIZE 0 1 = 0" "increment_index TASKQUEUE_SIZE 0 = 1" "decrement_index TASKQUEUE_SIZE 1 = 0" "2 < TASKQUEUE_SIZE" "0 < TASKQUEUE_SIZE" "1 < TASKQUEUE_SIZE"
proof -
  have N: "1 < TASKQUEUE_SIZE" "0 < TASKQUEUE_SIZE" "TASKQUEUE_SIZE \<noteq> Suc (Suc 0)" "2 < TASKQUEUE_SIZE" by (simp_all add: TASKQUEUE_SIZE_def push_bit_eq_mult)
  show "dirty_size TASKQUEUE_SIZE 0 0 = 0" "dirty_size TASKQUEUE_SIZE 1 0 = 1" "clean_size TASKQUEUE_SIZE 1 0 = 1" "clean_size TASKQUEUE_SIZE 0 0 = 0"
    "clean_size TASKQUEUE_SIZE 0 1 = 0" "increment_index TASKQUEUE_SIZE 0 = 1" "decrement_index TASKQUEUE_SIZE 1 = 0" "2 < TASKQUEUE_SIZE" "0 < TASKQUEUE_SIZE" "1 < TASKQUEUE_SIZE"
    using N by (simp_all add: clean_size_def dirty_size_eq [OF ring_example] increment_index_eq [OF ring_example] decrement_index_eq [OF ring_example])
qed

lemmas qst_simps = qst_def push_check_def pop_check_def pop_read_top_def pop_exchange_def cmpxchg_age_def steal_exchange_def cmpxchg_age_def next_age_def put_thief_def set_bottom_def
  set_age_def take_elem_def queue_max_elems_def index_examples [unfolded One_nat_def] Let_def

lemmas queue_chain = converse_rtranclp_into_rtranclp [of "queue_step N weak" for N weak]

abbreviation "run_to \<equiv> (queue_step TASKQUEUE_SIZE False)\<^sup>*\<^sup>*"

text \<open>Pushing on the empty queue.\<close>

lemma run_push:
  "run_to (qst 0 0 g e OwnerIdle th pu cl re) (qst 1 0 g (e(0 := x)) OwnerIdle th (add_mset x pu) cl re)"
proof -
  have "queue_step TASKQUEUE_SIZE False (qst 0 0 g e OwnerIdle th pu cl re) (qst 0 0 g e (Writes x 0) th pu cl re)"
    using queue_step.push [of "qst 0 0 g e OwnerIdle th pu cl re" TASKQUEUE_SIZE False x] by (simp add: qst_simps)
  moreover have "queue_step TASKQUEUE_SIZE False (qst 0 0 g e (Writes x 0) th pu cl re) (qst 0 0 g (e(0 := x)) (Sets x 0) th pu cl re)"
    using queue_step.push_write [of "qst 0 0 g e (Writes x 0) th pu cl re" x 0 TASKQUEUE_SIZE False] by (simp add: qst_simps)
  moreover have "queue_step TASKQUEUE_SIZE False (qst 0 0 g (e(0 := x)) (Sets x 0) th pu cl re) (qst 1 0 g (e(0 := x)) OwnerIdle th (add_mset x pu) cl re)"
    using queue_step.push_set [of "qst 0 0 g (e(0 := x)) (Sets x 0) th pu cl re" x 0 TASKQUEUE_SIZE False] by (simp add: qst_simps)
  ultimately show ?thesis by (meson queue_chain r_into_rtranclp)
qed

text \<open>The owner starts to pop the only element.\<close>

lemma run_pop:
  "run_to (qst 1 0 g e OwnerIdle th pu cl re) (qst 0 0 g e (ReadsTop 0) th pu cl re)"
proof -
  have "queue_step TASKQUEUE_SIZE False (qst 1 0 g e OwnerIdle th pu cl re) (qst 1 0 g e (Decrements 0) th pu cl re)"
    using queue_step.pop [of "qst 1 0 g e OwnerIdle th pu cl re" TASKQUEUE_SIZE False 0] by (simp add: qst_simps)
  moreover have "queue_step TASKQUEUE_SIZE False (qst 1 0 g e (Decrements 0) th pu cl re) (qst 0 0 g e (ReadsTop 0) th pu cl re)"
    using queue_step.pop_decrement [of "qst 1 0 g e (Decrements 0) th pu cl re" 0 TASKQUEUE_SIZE False] by (simp add: qst_simps)
  ultimately show ?thesis by (meson queue_chain r_into_rtranclp)
qed

lemma run_pop_slow:
  assumes "g + 1 < 2 ^ 32" "tp \<le> 1"
  shows "run_to (qst 0 tp g e (ReadsTop 0) th pu cl re) (qst 0 tp g e (ExchangesAge 0 \<lparr>ag_top = tp, ag_tag = g\<rparr>) th pu cl re)"
proof -
  have tp: "tp = 0 \<or> tp = 1" using assms(2) by linarith
  have "queue_step TASKQUEUE_SIZE False (qst 0 tp g e (ReadsTop 0) th pu cl re) (qst 0 tp g e (ReadsAge 0) th pu cl re)"
    using queue_step.pop_top [of "qst 0 tp g e (ReadsTop 0) th pu cl re" 0 TASKQUEUE_SIZE False] tp by (auto simp: qst_simps)
  moreover have "queue_step TASKQUEUE_SIZE False (qst 0 tp g e (ReadsAge 0) th pu cl re) (qst 0 tp g e (ExchangesAge 0 \<lparr>ag_top = tp, ag_tag = g\<rparr>) th pu cl re)"
    using queue_step.pop_age [of "qst 0 tp g e (ReadsAge 0) th pu cl re" 0 TASKQUEUE_SIZE False] assms(1) by (simp add: qst_simps)
  ultimately show ?thesis by (meson queue_chain r_into_rtranclp)
qed

text \<open>An exchange that fails spuriously is taken for a success: the thief has claimed the element, which stays in the queue.\<close>

lemma weak_step: "queue_step N False s s' \<Longrightarrow> queue_step N weak s s'"
  by (induction rule: queue_step.induct) (auto intro: queue_step.intros)

lemma weak_run: "(queue_step N False)\<^sup>*\<^sup>* s s' \<Longrightarrow> (queue_step N weak)\<^sup>*\<^sup>* s s'"
  by (induction rule: rtranclp_induct) (auto intro: weak_step rtranclp.rtrancl_into_rtrancl)

lemma run_steal:
  assumes "spurious \<longrightarrow> weak"
  shows "(queue_step TASKQUEUE_SIZE weak)\<^sup>*\<^sup>* (qst 1 0 0 e OwnerIdle ThiefIdle pu cl re)
    (qst 1 (if spurious then 0 else 1) 0 e OwnerIdle ThiefIdle pu (add_mset (e 0) cl) (add_mset (e 0) re))"
proof -
  let ?s = "\<lambda>tp p cl re. qst 1 tp 0 e OwnerIdle p pu cl re" and ?st = "\<lparr>ag_top = 0, ag_tag = 0\<rparr>" and ?tp = "if spurious then 0 else 1 :: nat"
  have "queue_step TASKQUEUE_SIZE weak (?s 0 ThiefIdle cl re) (?s 0 (HasAge ?st) cl re)"
    using queue_step.steal [of 0 "?s 0 ThiefIdle cl re" TASKQUEUE_SIZE weak] by (simp add: qst_simps)
  moreover have "queue_step TASKQUEUE_SIZE weak (?s 0 (HasAge ?st) cl re) (?s 0 (Steals ?st) cl re)"
    using queue_step.steal_bottom [of 0 "?s 0 (HasAge ?st) cl re" ?st TASKQUEUE_SIZE weak] by (simp add: qst_simps)
  moreover have "queue_step TASKQUEUE_SIZE weak (?s 0 (Steals ?st) cl re) (?s ?tp (Reads 0 (e 0)) (add_mset (e 0) cl) re)"
    using queue_step.steal_cas [of 0 "?s 0 (Steals ?st) cl re" ?st spurious weak TASKQUEUE_SIZE] assms by (cases spurious) (simp_all add: qst_simps)
  moreover have "queue_step TASKQUEUE_SIZE weak (?s ?tp (Reads 0 (e 0)) (add_mset (e 0) cl) re) (?s ?tp ThiefIdle (add_mset (e 0) cl) (add_mset (e 0) re))"
    using queue_step.steal_read [of 0 "?s ?tp (Reads 0 (e 0)) (add_mset (e 0) cl) re" 0 "e 0" TASKQUEUE_SIZE weak] by (cases spurious) (simp_all add: qst_simps)
  ultimately show ?thesis by (meson queue_chain r_into_rtranclp)
qed

lemma weak_claims_twice:
  "\<exists>s. (queue_step TASKQUEUE_SIZE True)\<^sup>*\<^sup>* (queue_start 1 mem) s \<and> qs_pushed s = {#a#} \<and> qs_claimed s = {#a, a#} \<and> qs_returned s = {#a, a#}"
proof -
  let ?e = "mem(0 := a)"
  have 0: "queue_start 1 mem = qst 0 0 0 mem OwnerIdle ThiefIdle {#} {#} {#}" by (simp add: queue_start_def qst_def)
  have 1: "(queue_step TASKQUEUE_SIZE True)\<^sup>*\<^sup>* (queue_start 1 mem) (qst 1 0 0 ?e OwnerIdle ThiefIdle {#a#} {#} {#})"
    unfolding 0 using weak_run [OF run_push [of 0 mem ThiefIdle "{#}" "{#}" "{#}" a]] by simp
  have 2: "(queue_step TASKQUEUE_SIZE True)\<^sup>*\<^sup>* (qst 1 0 0 ?e OwnerIdle ThiefIdle {#a#} {#} {#}) (qst 1 0 0 ?e OwnerIdle ThiefIdle {#a#} {#a#} {#a#})"
    using run_steal [of True True ?e "{#a#}" "{#}" "{#}"] by simp
  have 3: "(queue_step TASKQUEUE_SIZE True)\<^sup>*\<^sup>* (qst 1 0 0 ?e OwnerIdle ThiefIdle {#a#} {#a#} {#a#}) (qst 1 1 0 ?e OwnerIdle ThiefIdle {#a#} {#a, a#} {#a, a#})"
    using run_steal [of False True ?e "{#a#}" "{#a#}" "{#a#}"] by simp
  show ?thesis
    by (intro exI conjI, rule rtranclp_trans [OF 1 rtranclp_trans [OF 2 3]]) (simp_all add: qst_def)
qed

text \<open>C25. Without spurious failures of the exchanges the work-stealing queue hands every element out once: whatever the interleaving of one
  owner and any number of thieves, no assertion fails, and every accepted element is either still in the queue or has been claimed
  by exactly one successful pop or exchange; when the owner is between two operations, the slots from the top to the bottom hold the
  elements that are left. Where the exchange of the code, which is a weak one, can fail spuriously, this is wrong: in a run of one
  owner and one thief the only element is claimed and returned twice.\<close>

theorem task_queue_claims_once:
  assumes "ring_size N"
  shows "((queue_step N False)\<^sup>*\<^sup>* (queue_start n mem) s \<longrightarrow> \<not> qs_panic s \<and>
      (\<exists>q. qs_pushed s = mset q + qs_claimed s \<and> length q \<le> queue_max_elems N \<and>
        (qs_owner s = OwnerIdle \<longrightarrow> dirty_size N (bottom_of s) (ag_top (age_of s)) = length q \<and>
          (\<forall>k < length q. elems_of s ((ag_top (age_of s) + k) mod N) = q ! k)))) \<and>
    (\<exists>t. (queue_step TASKQUEUE_SIZE True)\<^sup>*\<^sup>* (queue_start 1 mem) t \<and> qs_pushed t = {#a#} \<and> qs_claimed t = {#a, a#} \<and> qs_returned t = {#a, a#})"
  using strong_claims_once [OF assms, of n mem s] weak_claims_twice [of mem a] by blast

text \<open>C26. A thief can return the wrong element: it reads its slot after the exchange, when the owner may already have used the slot
  again. In this run \<open>a\<close> and then \<open>b\<close> are pushed; the thief exchanges for \<open>a\<close> and returns \<open>b\<close>, which the owner then pops too. Everything
  has returned, \<open>b\<close> twice and \<open>a\<close> never.\<close>

theorem task_queue_returns_twice:
  "\<exists>s. (queue_step TASKQUEUE_SIZE False)\<^sup>*\<^sup>* (queue_start 1 mem) s \<and> qs_pushed s = {#a, b#} \<and> qs_returned s = {#b, b#} \<and>
    qs_owner s = OwnerIdle \<and> qs_thieves s = [ThiefIdle] \<and> dirty_size TASKQUEUE_SIZE (bottom_of s) (ag_top (age_of s)) = 0"
proof -
  let ?e = "mem(0 := a)" and ?f = "mem(0 := b)" and ?A = "{#a#}" let ?st = "\<lparr>ag_top = 0, ag_tag = 0\<rparr>"
  have 0: "queue_start 1 mem = qst 0 0 0 mem OwnerIdle ThiefIdle {#} {#} {#}" by (simp add: queue_start_def qst_def)
  have 1: "run_to (queue_start 1 mem) (qst 1 0 0 ?e OwnerIdle ThiefIdle ?A {#} {#})"
    unfolding 0 by (rule run_push)
  have "queue_step TASKQUEUE_SIZE False (qst 1 0 0 ?e OwnerIdle ThiefIdle ?A {#} {#}) (qst 1 0 0 ?e OwnerIdle (HasAge ?st) ?A {#} {#})"
    using queue_step.steal [of 0 "qst 1 0 0 ?e OwnerIdle ThiefIdle ?A {#} {#}" TASKQUEUE_SIZE False] by (simp add: qst_simps)
  moreover have "queue_step TASKQUEUE_SIZE False (qst 1 0 0 ?e OwnerIdle (HasAge ?st) ?A {#} {#}) (qst 1 0 0 ?e OwnerIdle (Steals ?st) ?A {#} {#})"
    using queue_step.steal_bottom [of 0 "qst 1 0 0 ?e OwnerIdle (HasAge ?st) ?A {#} {#}" ?st TASKQUEUE_SIZE False] by (simp add: qst_simps)
  ultimately have 2: "run_to (qst 1 0 0 ?e OwnerIdle ThiefIdle ?A {#} {#}) (qst 1 0 0 ?e OwnerIdle (Steals ?st) ?A {#} {#})"
    by (meson queue_chain r_into_rtranclp)
  have 3: "run_to (qst 1 0 0 ?e OwnerIdle (Steals ?st) ?A {#} {#}) (qst 0 0 0 ?e (ReadsTop 0) (Steals ?st) ?A {#} {#})"
    by (rule run_pop)
  have 4: "run_to (qst 0 0 0 ?e (ReadsTop 0) (Steals ?st) ?A {#} {#}) (qst 0 1 0 ?e (ReadsTop 0) (Reads 0 a) ?A ?A {#})"
    using queue_step.steal_cas [of 0 "qst 0 0 0 ?e (ReadsTop 0) (Steals ?st) ?A {#} {#}" ?st False False TASKQUEUE_SIZE]
    by (intro r_into_rtranclp) (simp add: qst_simps)
  have 5: "run_to (qst 0 1 0 ?e (ReadsTop 0) (Reads 0 a) ?A ?A {#}) (qst 0 1 0 ?e (ExchangesAge 0 \<lparr>ag_top = 1, ag_tag = 0\<rparr>) (Reads 0 a) ?A ?A {#})"
    by (rule run_pop_slow) simp_all
  have "queue_step TASKQUEUE_SIZE False (qst 0 1 0 ?e (ExchangesAge 0 \<lparr>ag_top = 1, ag_tag = 0\<rparr>) (Reads 0 a) ?A ?A {#}) (qst 0 1 0 ?e (SetsAge 0 1) (Reads 0 a) ?A ?A {#})"
    using queue_step.pop_slow [of "qst 0 1 0 ?e (ExchangesAge 0 \<lparr>ag_top = 1, ag_tag = 0\<rparr>) (Reads 0 a) ?A ?A {#}" 0 "\<lparr>ag_top = 1, ag_tag = 0\<rparr>" False False TASKQUEUE_SIZE]
    by (simp add: qst_simps)
  moreover have "queue_step TASKQUEUE_SIZE False (qst 0 1 0 ?e (SetsAge 0 1) (Reads 0 a) ?A ?A {#}) (qst 0 0 1 ?e OwnerIdle (Reads 0 a) ?A ?A {#})"
    using queue_step.pop_fix [of "qst 0 1 0 ?e (SetsAge 0 1) (Reads 0 a) ?A ?A {#}" 0 1 TASKQUEUE_SIZE False] by (simp add: qst_simps)
  ultimately have 6: "run_to (qst 0 1 0 ?e (ExchangesAge 0 \<lparr>ag_top = 1, ag_tag = 0\<rparr>) (Reads 0 a) ?A ?A {#}) (qst 0 0 1 ?e OwnerIdle (Reads 0 a) ?A ?A {#})"
    by (meson queue_chain r_into_rtranclp)
  have 7: "run_to (qst 0 0 1 ?e OwnerIdle (Reads 0 a) ?A ?A {#}) (qst 1 0 1 ?f OwnerIdle (Reads 0 a) {#a, b#} ?A {#})"
    using run_push [of 1 ?e "Reads 0 a" ?A ?A "{#}" b] by (simp add: add_mset_commute)
  have 8: "run_to (qst 1 0 1 ?f OwnerIdle (Reads 0 a) {#a, b#} ?A {#}) (qst 1 0 1 ?f OwnerIdle ThiefIdle {#a, b#} ?A {#b#})"
    using queue_step.steal_read [of 0 "qst 1 0 1 ?f OwnerIdle (Reads 0 a) {#a, b#} ?A {#}" 0 a TASKQUEUE_SIZE False]
    by (intro r_into_rtranclp) (simp add: qst_simps)
  have 9: "run_to (qst 1 0 1 ?f OwnerIdle ThiefIdle {#a, b#} ?A {#b#}) (qst 0 0 1 ?f (ExchangesAge 0 \<lparr>ag_top = 0, ag_tag = 1\<rparr>) ThiefIdle {#a, b#} ?A {#b#})"
    by (rule rtranclp_trans [OF run_pop run_pop_slow]) simp_all
  have 10: "run_to (qst 0 0 1 ?f (ExchangesAge 0 \<lparr>ag_top = 0, ag_tag = 1\<rparr>) ThiefIdle {#a, b#} ?A {#b#}) (qst 0 0 2 ?f OwnerIdle ThiefIdle {#a, b#} {#b, a#} {#b, b#})"
    using queue_step.pop_slow [of "qst 0 0 1 ?f (ExchangesAge 0 \<lparr>ag_top = 0, ag_tag = 1\<rparr>) ThiefIdle {#a, b#} ?A {#b#}" 0 "\<lparr>ag_top = 0, ag_tag = 1\<rparr>" False False TASKQUEUE_SIZE]
    by (intro r_into_rtranclp) (simp add: qst_simps numeral_2_eq_2)
  have "run_to (queue_start 1 mem) (qst 0 0 2 ?f OwnerIdle ThiefIdle {#a, b#} {#b, a#} {#b, b#})"
    using 1 2 3 4 5 6 7 8 9 10 by (meson rtranclp_trans)
  then show ?thesis by (intro exI [of _ "qst 0 0 2 ?f OwnerIdle ThiefIdle {#a, b#} {#b, a#} {#b, b#}"]) (simp add: qst_def index_examples)
qed

text \<open>C27. The random numbers that choose a victim are those of Park and Miller: for a seed below \<open>2 ^ 31 - 1\<close> the 32-bit computation does
  not overflow and gives \<open>16807\<close> times the seed modulo \<open>2 ^ 31 - 1\<close>, which is again a positive seed.\<close>

theorem park_and_miller_exact:
  assumes "0 < seed" "seed < 2147483647"
  shows "\<exists>seed'. random_park_and_miller seed = Inr seed' \<and> seed' = 16807 * seed mod 2147483647 \<and> 0 < seed' \<and> seed' < 2147483647"
proof -
  let ?m = "2147483647 :: int"
  define hi where "hi = seed div 127773" define lo where "lo = seed mod 127773"
  have seed: "seed = 127773 * hi + lo" by (simp add: hi_def lo_def)
  have b: "0 \<le> lo" "lo < 127773" "0 \<le> hi" "hi \<le> 16807" using assms by (auto simp: hi_def lo_def)
  let ?t = "16807 * lo - 2836 * hi"
  have e: "16807 * seed = ?m * hi + ?t" unfolding seed by simp
  have "?t \<noteq> 0"
  proof
    assume "?t = 0"
    then have d: "16807 * seed = ?m * hi" using e by simp
    then have "16807 dvd ?m * hi" by (metis dvd_triv_left)
    moreover have "coprime (16807 :: int) ?m" by (simp add: coprime_iff_gcd_eq_1 gcd_non_0_int)
    ultimately have "16807 dvd hi" by (simp add: coprime_dvd_mult_right_iff)
    then have "hi = 0 \<or> hi = 16807" using b(3,4) by (auto elim!: dvdE)
    then show False using d assms by auto
  qed
  then have t: "- ?m < ?t" "?t < ?m" "?t \<noteq> 0" using b by linarith+
  have "random_park_and_miller seed = Inr (if ?t > 0 then ?t else ?t + ?m)"
    using b t unfolding random_park_and_miller_def Let_def hi_def [symmetric] lo_def [symmetric] by (auto simp: i32_def)
  moreover have "16807 * seed mod ?m = (if ?t > 0 then ?t else ?t + ?m)"
  proof -
    have "16807 * seed mod ?m = ?t mod ?m" unfolding e by (rule mod_mult_self4)
    also have "\<dots> = (if ?t > 0 then ?t else ?t + ?m) mod ?m" by (simp only: mod_add_self2 if_distrib [of "\<lambda>x. x mod ?m"] if_cancel)
    also have "\<dots> = (if ?t > 0 then ?t else ?t + ?m)" by (rule mod_pos_pos_trivial) (use t in auto)
    finally show ?thesis .
  qed
  ultimately show ?thesis using t by (intro exI [of _ "if ?t > 0 then ?t else ?t + ?m"]) auto
qed

text \<open>A tagged pointer gives back its kind and its address.\<close>

lemma scanner_task_roundtrip:
  assumes "2 dvd obj" "tag = OOP_TAG \<or> tag = PARTIAL_ARRAY_TAG"
  shows "ScannerTask_decode tag (ScannerTask_encode obj tag) = Inr obj \<and>
    (ScannerTask_has_tag t (ScannerTask_encode obj tag) \<longleftrightarrow> t = tag)"
  using assms
  by (auto simp: ScannerTask_decode_def ScannerTask_encode_def ScannerTask_has_tag_def OOP_TAG_def PARTIAL_ARRAY_TAG_def TAG_MASK_def and_one_eq mod_2_eq_odd)

theorem task_queue_claims_once_witness:
  "\<exists>s. run_to (queue_start 1 (\<lambda>_. 0 :: nat)) s \<and> qs_pushed s = {#7#} \<and> \<not> qs_panic s \<and> (\<exists>q. qs_pushed s = mset q + qs_claimed s)"
proof -
  have 0: "queue_start 1 (\<lambda>_. 0 :: nat) = qst 0 0 0 (\<lambda>_. 0) OwnerIdle ThiefIdle {#} {#} {#}" by (simp add: queue_start_def qst_def)
  have run: "run_to (queue_start 1 (\<lambda>_. 0)) (qst 1 0 0 ((\<lambda>_. 0)(0 := 7 :: nat)) OwnerIdle ThiefIdle {#7#} {#} {#})"
    unfolding 0 by (rule run_push)
  from task_queue_claims_once [OF ring_example, of 1 "\<lambda>_. 0" "qst 1 0 0 ((\<lambda>_. 0)(0 := 7 :: nat)) OwnerIdle ThiefIdle {#7#} {#} {#}"] run show ?thesis
    by (intro exI [of _ "qst 1 0 0 ((\<lambda>_. 0)(0 := 7 :: nat)) OwnerIdle ThiefIdle {#7#} {#} {#}"]) (auto simp: qst_def)
qed

theorem park_and_miller_exact_witness: "random_park_and_miller 17 = Inr 285719"
  using park_and_miller_exact [of 17] by simp

end
