(* ===== verification/MutexModel.thy ===== *)
theory MutexModel
  imports Prelude
begin

text \<open>
  The mutex of \<open>sync/mutex.rs\<close>: a byte with a locked and a parked bit, and the queue of the parking lot. The parking lot is code of
  another crate, used by its documentation: \<open>park\<close> validates and enqueues, and \<open>unpark_one\<close> dequeues the first thread and runs its
  callback, each while it holds the lock of the queue, which is one step here; whether an unpark should be fair is up to it. Threads
  call \<open>lock\<close>, \<open>try_lock\<close>, \<open>unlock\<close> and \<open>unlock_fair\<close>; the accesses of their loops interleave in any order, and a weak exchange
  may fail without a reason. Timeouts, which \<open>lock\<close> does not use, are left out.
\<close>

section \<open>States\<close>

definition LOCKED_BIT :: u8 where "LOCKED_BIT = 1"
definition PARKED_BIT :: u8 where "PARKED_BIT = 2"

text \<open>A thread outside the mutex, in \<open>try_lock\<close> with the state it saw, in \<open>lock\<close> before its fast exchange, in \<open>lock_slow\<close> before a
  load, with the state it saw, before parking, parked; holding the mutex; in \<open>unlock\<close> before its fast exchange (fair or not), in
  \<open>unlock_slow\<close>, and in \<open>bump_slow\<close>.\<close>

datatype mutex_pc = Outside | Tries u8 | LocksFast | SlowLoads | SlowSaw u8 | WillPark | IsParked | Holds | UnlocksFast bool | UnlocksSlow bool | Bumps

record RawMutex =
  rm_state :: u8
  rm_queue :: "nat list"
  rm_threads :: "mutex_pc list"

definition mutex_is_locked :: "u8 \<Rightarrow> bool" where
  "mutex_is_locked state \<longleftrightarrow> state AND LOCKED_BIT \<noteq> 0"

definition has_parked :: "u8 \<Rightarrow> bool" where
  "has_parked state \<longleftrightarrow> state AND PARKED_BIT \<noteq> 0"

definition mutex_put :: "RawMutex \<Rightarrow> nat \<Rightarrow> mutex_pc \<Rightarrow> RawMutex" where
  "mutex_put s i p = s\<lparr>rm_threads := (rm_threads s)[i := p]\<rparr>"

text \<open>A weak exchange of the state, which the thread leaves for \<open>p\<close> on success and with the value it saw otherwise.\<close>

definition state_cmpxchg :: "bool \<Rightarrow> u8 \<Rightarrow> u8 \<Rightarrow> nat \<Rightarrow> mutex_pc \<Rightarrow> (u8 \<Rightarrow> mutex_pc) \<Rightarrow> RawMutex \<Rightarrow> RawMutex" where
  "state_cmpxchg spurious old new i p q s =
     (if rm_state s = old \<and> \<not> spurious then (mutex_put s i p)\<lparr>rm_state := new\<rparr> else mutex_put s i (q (rm_state s)))"

definition slow_step :: "bool \<Rightarrow> bool \<Rightarrow> nat \<Rightarrow> u8 \<Rightarrow> RawMutex \<Rightarrow> RawMutex" where
  "slow_step spurious spin i state s =
     (if \<not> mutex_is_locked state then state_cmpxchg spurious state (state OR LOCKED_BIT) i Holds SlowSaw s
      else if \<not> has_parked state \<and> spin then mutex_put s i SlowLoads
      else if \<not> has_parked state then state_cmpxchg spurious state (state OR PARKED_BIT) i WillPark SlowSaw s
      else mutex_put s i WillPark)"

definition try_step :: "bool \<Rightarrow> nat \<Rightarrow> u8 \<Rightarrow> RawMutex \<Rightarrow> RawMutex" where
  "try_step spurious i state s =
     (if mutex_is_locked state then mutex_put s i Outside else state_cmpxchg spurious state (state OR LOCKED_BIT) i Holds Tries s)"

definition park_step :: "nat \<Rightarrow> RawMutex \<Rightarrow> RawMutex" where
  "park_step i s = (if rm_state s = LOCKED_BIT OR PARKED_BIT then (mutex_put s i IsParked)\<lparr>rm_queue := rm_queue s @ [i]\<rparr> else mutex_put s i SlowLoads)"

text \<open>\<open>unlock_slow\<close>: the unparked thread gets the mutex when the unlock is fair, else it tries again; the caller goes on at \<open>p\<close>.\<close>

definition mutex_unlock_slow :: "bool \<Rightarrow> bool \<Rightarrow> nat \<Rightarrow> mutex_pc \<Rightarrow> RawMutex \<Rightarrow> RawMutex" where
  "mutex_unlock_slow force_fair be_fair i p s = (let s' = mutex_put s i p in case rm_queue s of
     [] \<Rightarrow> s'\<lparr>rm_state := 0\<rparr>
   | t # ts \<Rightarrow>
       if force_fair \<or> be_fair
       then (mutex_put s' t Holds)\<lparr>rm_queue := ts, rm_state := if ts = [] then LOCKED_BIT else rm_state s\<rparr>
       else (mutex_put s' t SlowLoads)\<lparr>rm_queue := ts, rm_state := if ts \<noteq> [] then PARKED_BIT else 0\<rparr>)"

inductive mutex_step :: "RawMutex \<Rightarrow> RawMutex \<Rightarrow> bool" where
  lock: "i < length (rm_threads s) \<Longrightarrow> rm_threads s ! i = Outside \<Longrightarrow> mutex_step s (mutex_put s i LocksFast)"
| lock_fast: "i < length (rm_threads s) \<Longrightarrow> rm_threads s ! i = LocksFast \<Longrightarrow>
    mutex_step s (state_cmpxchg spurious 0 LOCKED_BIT i Holds (\<lambda>_. SlowLoads) s)"
| load: "i < length (rm_threads s) \<Longrightarrow> rm_threads s ! i = SlowLoads \<Longrightarrow> mutex_step s (mutex_put s i (SlowSaw (rm_state s)))"
| slow: "i < length (rm_threads s) \<Longrightarrow> rm_threads s ! i = SlowSaw st \<Longrightarrow> mutex_step s (slow_step spurious spin i st s)"
| park: "i < length (rm_threads s) \<Longrightarrow> rm_threads s ! i = WillPark \<Longrightarrow> mutex_step s (park_step i s)"
| try_load: "i < length (rm_threads s) \<Longrightarrow> rm_threads s ! i = Outside \<Longrightarrow> mutex_step s (mutex_put s i (Tries (rm_state s)))"
| try_exchange: "i < length (rm_threads s) \<Longrightarrow> rm_threads s ! i = Tries st \<Longrightarrow> mutex_step s (try_step spurious i st s)"
| unlock: "i < length (rm_threads s) \<Longrightarrow> rm_threads s ! i = Holds \<Longrightarrow> mutex_step s (mutex_put s i (UnlocksFast fair))"
| unlock_fast: "i < length (rm_threads s) \<Longrightarrow> rm_threads s ! i = UnlocksFast fair \<Longrightarrow>
    mutex_step s (state_cmpxchg False LOCKED_BIT 0 i Outside (\<lambda>_. UnlocksSlow fair) s)"
| unlock_parked: "i < length (rm_threads s) \<Longrightarrow> rm_threads s ! i = UnlocksSlow fair \<Longrightarrow> mutex_step s (mutex_unlock_slow fair be_fair i Outside s)"
| bump: "i < length (rm_threads s) \<Longrightarrow> rm_threads s ! i = Holds \<Longrightarrow> has_parked (rm_state s) \<Longrightarrow> mutex_step s (mutex_put s i Bumps)"
| bump_slow: "i < length (rm_threads s) \<Longrightarrow> rm_threads s ! i = Bumps \<Longrightarrow> mutex_step s (mutex_unlock_slow True be_fair i LocksFast s)"

definition mutex_start :: "nat \<Rightarrow> RawMutex" where
  "mutex_start n = \<lparr>rm_state = 0, rm_queue = [], rm_threads = replicate n Outside\<rparr>"

section \<open>Invariant\<close>

fun holds_lock :: "mutex_pc \<Rightarrow> bool" where
  "holds_lock Holds = True"
| "holds_lock (UnlocksFast _) = True"
| "holds_lock (UnlocksSlow _) = True"
| "holds_lock Bumps = True"
| "holds_lock _ = False"

fun is_active :: "mutex_pc \<Rightarrow> bool" where
  "is_active LocksFast = True"
| "is_active SlowLoads = True"
| "is_active (SlowSaw _) = True"
| "is_active WillPark = True"
| "is_active _ = False"

definition state_ok :: "u8 \<Rightarrow> bool" where
  "state_ok st \<longleftrightarrow> st \<in> {0, 1, 2, 3}"

lemma state_bits [simp]:
  "mutex_is_locked 1" "mutex_is_locked 3" "\<not> mutex_is_locked 0" "\<not> mutex_is_locked 2" "has_parked 2" "has_parked 3" "\<not> has_parked 0" "\<not> has_parked 1"
  "LOCKED_BIT OR PARKED_BIT = 3" "0 OR LOCKED_BIT = 1" "2 OR LOCKED_BIT = 3" "1 OR PARKED_BIT = 3" "LOCKED_BIT = 1" "PARKED_BIT = 2"
  "state_ok 0" "state_ok 1" "state_ok 2" "state_ok 3"
  by (simp_all add: mutex_is_locked_def has_parked_def LOCKED_BIT_def PARKED_BIT_def state_ok_def)

lemma state_cases: "state_ok st \<Longrightarrow> (st = 0 \<Longrightarrow> P) \<Longrightarrow> (st = 1 \<Longrightarrow> P) \<Longrightarrow> (st = 2 \<Longrightarrow> P) \<Longrightarrow> (st = 3 \<Longrightarrow> P) \<Longrightarrow> P"
  by (auto simp: state_ok_def)

fun seen_ok :: "mutex_pc \<Rightarrow> bool" where
  "seen_ok (SlowSaw st) = state_ok st"
| "seen_ok (Tries st) = state_ok st"
| "seen_ok _ = True"

abbreviation number_at :: "(mutex_pc \<Rightarrow> bool) \<Rightarrow> RawMutex \<Rightarrow> nat" where
  "number_at P s \<equiv> tally P (rm_threads s)"

lemma mutex_put_sel [simp]:
  "rm_state (mutex_put s i p) = rm_state s" "rm_queue (mutex_put s i p) = rm_queue s" "rm_threads (mutex_put s i p) = (rm_threads s)[i := p]"
  by (simp_all add: mutex_put_def)

text \<open>One move of a thread changes a number by what it leaves and enters.\<close>

lemma number_put:
  "i < length (rm_threads s) \<Longrightarrow> number_at P (mutex_put s i p) + of_bool (P (rm_threads s ! i)) = number_at P s + of_bool (P p)"
  using tally_update [of i "rm_threads s" P p] by simp

text \<open>The locked bit says whether there is a holder, which is then the only one; the queue holds the parked threads; while it is not empty,
  the parked bit is set, and someone holds the mutex or is on the way to it.\<close>

definition mutex_inv :: "RawMutex \<Rightarrow> bool" where
  "mutex_inv s \<longleftrightarrow> state_ok (rm_state s) \<and> (\<forall>p \<in> set (rm_threads s). seen_ok p) \<and>
     number_at holds_lock s = of_bool (mutex_is_locked (rm_state s)) \<and>
     distinct (rm_queue s) \<and> set (rm_queue s) = {i. i < length (rm_threads s) \<and> rm_threads s ! i = IsParked} \<and>
     (rm_queue s \<noteq> [] \<longrightarrow> has_parked (rm_state s) \<and> (mutex_is_locked (rm_state s) \<or> 0 < number_at is_active s))"

lemma seen_put: "\<forall>p \<in> set ps. seen_ok p \<Longrightarrow> seen_ok p \<Longrightarrow> \<forall>p \<in> set (ps[i := p]). seen_ok p"
  using set_update_subset_insert [of ps i p] by blast

lemma parked_same: "i < length ps \<Longrightarrow> ps ! i \<noteq> IsParked \<Longrightarrow> p \<noteq> IsParked \<Longrightarrow>
  {j. j < length ps \<and> ps[i := p] ! j = IsParked} = {j. j < length ps \<and> ps ! j = IsParked}"
  by (auto simp: nth_list_update)

text \<open>A move of one thread that parks nobody keeps the invariant if the new state is right.\<close>

lemma inv_move:
  assumes "mutex_inv s" "i < length (rm_threads s)" "rm_threads s ! i \<noteq> IsParked" "p \<noteq> IsParked" "seen_ok p" "state_ok st"
    "of_bool (holds_lock p) + of_bool (mutex_is_locked (rm_state s)) = of_bool (mutex_is_locked st) + (of_bool (holds_lock (rm_threads s ! i)) :: nat)"
    "rm_queue s \<noteq> [] \<Longrightarrow> has_parked st \<and> (mutex_is_locked st \<or> is_active p \<or> \<not> is_active (rm_threads s ! i) \<and> 0 < number_at is_active s)"
  shows "mutex_inv ((mutex_put s i p)\<lparr>rm_state := st\<rparr>)"
proof -
  have H: "number_at holds_lock (mutex_put s i p) = of_bool (mutex_is_locked st)"
    using number_put [OF assms(2), of holds_lock p] assms(1,7) unfolding mutex_inv_def by linarith
  have A: "number_at is_active (mutex_put s i p) + of_bool (is_active (rm_threads s ! i)) = number_at is_active s + of_bool (is_active p)"
    using number_put [OF assms(2), of is_active p] by simp
  have "rm_queue s \<noteq> [] \<Longrightarrow> has_parked st \<and> (mutex_is_locked st \<or> 0 < number_at is_active (mutex_put s i p))"
    using assms(1,8) A tally_pos [of i "rm_threads (mutex_put s i p)" is_active] assms(2) unfolding mutex_inv_def by (auto split: if_splits)
  then show ?thesis
    using assms(1-6) H seen_put [of "rm_threads s" p i] parked_same [of i "rm_threads s" p] unfolding mutex_inv_def by simp
qed

lemma inv_stay:
  assumes "mutex_inv s" "i < length (rm_threads s)" "rm_threads s ! i \<noteq> IsParked" "p \<noteq> IsParked" "seen_ok p"
    "holds_lock p = holds_lock (rm_threads s ! i)" "is_active (rm_threads s ! i) \<longrightarrow> is_active p"
  shows "mutex_inv (mutex_put s i p)"
  using inv_move [of s i p "rm_state s"] assms unfolding mutex_inv_def by fastforce

lemma inv_cmpxchg:
  assumes "mutex_inv s" "i < length (rm_threads s)" "rm_threads s ! i \<noteq> IsParked"
    "p \<noteq> IsParked" "seen_ok p" "state_ok new" "of_bool (holds_lock p) + of_bool (mutex_is_locked old) = of_bool (mutex_is_locked new) + (of_bool (holds_lock (rm_threads s ! i)) :: nat)"
    "has_parked old \<longrightarrow> has_parked new" "mutex_is_locked new \<or> is_active p \<or> \<not> has_parked old"
    "\<forall>st. state_ok st \<longrightarrow> q st \<noteq> IsParked \<and> seen_ok (q st) \<and> holds_lock (q st) = holds_lock (rm_threads s ! i) \<and> (is_active (rm_threads s ! i) \<longrightarrow> is_active (q st))"
  shows "mutex_inv (state_cmpxchg spurious old new i p q s)"
proof (cases "rm_state s = old \<and> \<not> spurious")
  case True
  have "mutex_inv ((mutex_put s i p)\<lparr>rm_state := new\<rparr>)"
    by (rule inv_move) (use assms True in \<open>auto simp: mutex_inv_def\<close>)
  then show ?thesis
    using True by (simp add: state_cmpxchg_def)
next
  case False
  have "mutex_inv (mutex_put s i (q (rm_state s)))"
    by (rule inv_stay) (use assms in \<open>auto simp: mutex_inv_def\<close>)
  then show ?thesis
    using False by (auto simp: state_cmpxchg_def)
qed

lemma inv_seen: "mutex_inv s \<Longrightarrow> i < length (rm_threads s) \<Longrightarrow> rm_threads s ! i = SlowSaw st \<or> rm_threads s ! i = Tries st \<Longrightarrow> state_ok st"
  unfolding mutex_inv_def by (metis nth_mem seen_ok.simps(1,2))

lemma inv_slow:
  assumes "mutex_inv s" "i < length (rm_threads s)" "rm_threads s ! i = SlowSaw st"
  shows "mutex_inv (slow_step spurious spin i st s)"
proof (rule state_cases [of st])
  show "state_ok st"
    using inv_seen assms by blast
qed (use assms in \<open>simp_all add: slow_step_def inv_cmpxchg inv_stay\<close>)

lemma inv_try:
  assumes "mutex_inv s" "i < length (rm_threads s)" "rm_threads s ! i = Tries st"
  shows "mutex_inv (try_step spurious i st s)"
proof (rule state_cases [of st])
  show "state_ok st"
    using inv_seen assms by blast
qed (use assms in \<open>simp_all add: try_step_def inv_cmpxchg inv_stay\<close>)

lemma inv_park:
  assumes "mutex_inv s" "i < length (rm_threads s)" "rm_threads s ! i = WillPark"
  shows "mutex_inv (park_step i s)"
proof (cases "rm_state s = 3")
  case True
  let ?s = "(mutex_put s i IsParked)\<lparr>rm_queue := rm_queue s @ [i]\<rparr>"
  have "number_at holds_lock ?s = 1"
    using number_put [OF assms(2), of holds_lock IsParked] assms True by (simp add: mutex_inv_def)
  moreover have "i \<notin> set (rm_queue s)"
    using assms by (simp add: mutex_inv_def)
  moreover have "set (rm_queue ?s) = {j. j < length (rm_threads ?s) \<and> rm_threads ?s ! j = IsParked}"
    using assms by (auto simp: mutex_inv_def nth_list_update)
  ultimately show ?thesis
    using assms True seen_put [of "rm_threads s" IsParked i] by (simp add: park_step_def mutex_inv_def)
qed (use assms in \<open>simp add: park_step_def inv_stay\<close>)

lemma inv_unlock_slow:
  assumes "mutex_inv s" "i < length (rm_threads s)" "rm_threads s ! i \<noteq> IsParked" "holds_lock (rm_threads s ! i)" "p = Outside \<or> p = LocksFast"
  shows "mutex_inv (mutex_unlock_slow force_fair be_fair i p s)"
proof (cases "rm_queue s")
  case Nil
  have "mutex_inv ((mutex_put s i p)\<lparr>rm_state := 0\<rparr>)"
    by (rule inv_move) (use assms Nil tally_pos [of i "rm_threads s" holds_lock] in \<open>auto simp: mutex_inv_def split: if_splits\<close>)
  then show ?thesis
    using Nil by (simp add: mutex_unlock_slow_def)
next
  case (Cons t ts)
  have t: "t < length (rm_threads s)" "rm_threads s ! t = IsParked" "t \<noteq> i" "t \<notin> set ts" "distinct ts"
    "has_parked (rm_state s)" "state_ok (rm_state s)" "mutex_is_locked (rm_state s)"
    using assms Cons tally_pos [of i "rm_threads s" holds_lock] unfolding mutex_inv_def by auto
  then have three: "rm_state s = 3"
    by (elim state_cases) simp_all
  let ?u = "\<lambda>q. mutex_put (mutex_put s i p) t q"
  have H: "number_at holds_lock (?u q) = of_bool (holds_lock q)" for q
    using number_put [of i s holds_lock p] number_put [of t "mutex_put s i p" holds_lock q] assms t by (auto simp: mutex_inv_def)
  have A: "is_active q \<Longrightarrow> 0 < number_at is_active (?u q)" for q
    using tally_pos [of t "rm_threads (?u q)" is_active] t by simp
  have Q: "q \<noteq> IsParked \<Longrightarrow> set ts = {j. j < length (rm_threads (?u q)) \<and> rm_threads (?u q) ! j = IsParked}" for q
    using assms Cons t by (auto simp: mutex_inv_def nth_list_update)
  have S: "seen_ok q \<Longrightarrow> \<forall>p \<in> set (rm_threads (?u q)). seen_ok p" for q
    using assms seen_put [OF seen_put, of "rm_threads s" p q i t] by (auto simp: mutex_inv_def)
  show ?thesis
  proof (cases "force_fair \<or> be_fair")
    case True
    then show ?thesis
      using Cons three H [of Holds] Q [of Holds] S [of Holds] t by (simp add: mutex_unlock_slow_def mutex_inv_def)
  next
    case False
    then show ?thesis
      using Cons H [of SlowLoads] Q [of SlowLoads] S [of SlowLoads] A [of SlowLoads] t by (simp add: mutex_unlock_slow_def mutex_inv_def)
  qed
qed

lemma inv_state: "mutex_inv s \<Longrightarrow> state_ok (rm_state s)"
  by (simp add: mutex_inv_def)

lemma mutex_inv_step: "mutex_step s s' \<Longrightarrow> mutex_inv s \<Longrightarrow> mutex_inv s'"
proof (induction rule: mutex_step.induct)
  case (lock_fast i s spurious)
  then show ?case
    by (intro inv_cmpxchg) simp_all
next
  case (unlock_fast i s fair)
  then show ?case
    by (intro inv_cmpxchg) simp_all
qed (simp_all add: inv_stay inv_slow inv_try inv_park inv_unlock_slow inv_state)

lemma mutex_inv_start: "mutex_inv (mutex_start n)"
  by (auto simp: mutex_inv_def mutex_start_def)

lemma mutex_inv_reach: "mutex_step\<^sup>*\<^sup>* (mutex_start n) s \<Longrightarrow> mutex_inv s"
  by (induction rule: rtranclp_induct) (auto intro: mutex_inv_start mutex_inv_step)

section \<open>Exclusion\<close>

lemma step_threads: "mutex_step s s' \<Longrightarrow> length (rm_threads s') = length (rm_threads s)"
  by (induction rule: mutex_step.induct)
     (auto simp: state_cmpxchg_def slow_step_def try_step_def park_step_def mutex_unlock_slow_def Let_def split: list.splits)

lemma reach_threads: "mutex_step\<^sup>*\<^sup>* (mutex_start n) s \<Longrightarrow> length (rm_threads s) = n"
  by (induction rule: rtranclp_induct) (simp_all add: mutex_start_def step_threads)

section \<open>Parked threads\<close>

text \<open>The threads that are in a call go on; none enters.\<close>

definition mutex_on :: "RawMutex \<Rightarrow> RawMutex \<Rightarrow> bool" where
  "mutex_on s s' \<longleftrightarrow> mutex_step s s' \<and> (\<forall>i < length (rm_threads s). rm_threads s ! i = Outside \<longrightarrow> rm_threads s' ! i = Outside)"

lemma mutex_onI: "mutex_step s s' \<Longrightarrow> rm_threads s' = (rm_threads s)[i := p] \<Longrightarrow> rm_threads s ! i \<noteq> Outside \<Longrightarrow> mutex_on s s'"
  unfolding mutex_on_def by (metis nth_list_update_neq)

lemma on_load: "i < length (rm_threads s) \<Longrightarrow> rm_threads s ! i = SlowLoads \<Longrightarrow> mutex_on s (mutex_put s i (SlowSaw (rm_state s)))"
  by (rule mutex_onI [OF mutex_step.load, where i = i]) simp_all

lemma on_lock_fast: "i < length (rm_threads s) \<Longrightarrow> rm_threads s ! i = LocksFast \<Longrightarrow>
    mutex_on s (state_cmpxchg spurious 0 LOCKED_BIT i Holds (\<lambda>_. SlowLoads) s)"
  by (rule mutex_onI [OF mutex_step.lock_fast, where p = "if rm_state s = 0 \<and> \<not> spurious then Holds else SlowLoads"])
     (auto simp: state_cmpxchg_def)

lemma slow_step_put: "\<exists>p. rm_threads (slow_step spurious spin i st s) = (rm_threads s)[i := p]"
  by (auto simp: slow_step_def state_cmpxchg_def)

lemma on_slow: "i < length (rm_threads s) \<Longrightarrow> rm_threads s ! i = SlowSaw st \<Longrightarrow> mutex_on s (slow_step spurious spin i st s)"
  using mutex_onI [OF mutex_step.slow] slow_step_put [of spurious spin i st s] by fastforce

lemma on_park: "i < length (rm_threads s) \<Longrightarrow> rm_threads s ! i = WillPark \<Longrightarrow> mutex_on s (park_step i s)"
  by (rule mutex_onI [OF mutex_step.park, where p = "if rm_state s = LOCKED_BIT OR PARKED_BIT then IsParked else SlowLoads"])
     (auto simp: park_step_def)

lemma on_unlock: "i < length (rm_threads s) \<Longrightarrow> rm_threads s ! i = Holds \<Longrightarrow> mutex_on s (mutex_put s i (UnlocksFast fair))"
  by (rule mutex_onI [OF mutex_step.unlock, where i = i]) simp_all

lemma on_unlock_fast: "i < length (rm_threads s) \<Longrightarrow> rm_threads s ! i = UnlocksFast fair \<Longrightarrow>
    mutex_on s (state_cmpxchg False LOCKED_BIT 0 i Outside (\<lambda>_. UnlocksSlow fair) s)"
  by (rule mutex_onI [OF mutex_step.unlock_fast, where p = "if rm_state s = LOCKED_BIT then Outside else UnlocksSlow fair"])
     (auto simp: state_cmpxchg_def)

lemma unlock_slow_outside:
  "rm_queue s = t # ts \<Longrightarrow> rm_threads s ! t = IsParked \<Longrightarrow> rm_threads s ! i \<noteq> Outside \<Longrightarrow> rm_threads s ! k = Outside \<Longrightarrow>
    rm_threads (mutex_unlock_slow f be_fair i p s) ! k = Outside"
  by (cases "k = i"; cases "k = t") (simp_all add: mutex_unlock_slow_def Let_def)

lemma on_unlock_parked: "i < length (rm_threads s) \<Longrightarrow> rm_threads s ! i = UnlocksSlow fair \<Longrightarrow> rm_queue s = t # ts \<Longrightarrow> rm_threads s ! t = IsParked \<Longrightarrow>
    mutex_on s (mutex_unlock_slow fair be_fair i Outside s)"
  unfolding mutex_on_def using mutex_step.unlock_parked [of i s fair be_fair] unlock_slow_outside [of s t ts i] by auto

lemma on_bump_slow: "i < length (rm_threads s) \<Longrightarrow> rm_threads s ! i = Bumps \<Longrightarrow> rm_queue s = t # ts \<Longrightarrow> rm_threads s ! t = IsParked \<Longrightarrow>
    mutex_on s (mutex_unlock_slow True be_fair i LocksFast s)"
  unfolding mutex_on_def using mutex_step.bump_slow [of i s be_fair] unlock_slow_outside [of s t ts i] by auto

lemma mutex_put_put [simp]: "mutex_put (mutex_put s i p) i q = mutex_put s i q"
  by (simp add: mutex_put_def)

lemma mutex_put_same: "rm_threads s ! i = p \<Longrightarrow> mutex_put s i p = s"
  by (auto simp: mutex_put_def)

lemmas mutex_chain = converse_rtranclp_into_rtranclp [of mutex_on]

lemma reach_load:
  "j < length (rm_threads s) \<Longrightarrow> rm_threads s ! j = SlowLoads \<Longrightarrow> rm_state s = 2 \<Longrightarrow> mutex_on\<^sup>*\<^sup>* s (mutex_put s j (SlowSaw 2))"
  using on_load [of j s] by (simp add: r_into_rtranclp)

lemma reach_via_load:
  "mutex_on s (mutex_put s j SlowLoads) \<Longrightarrow> j < length (rm_threads s) \<Longrightarrow> rm_state s = 2 \<Longrightarrow> mutex_on\<^sup>*\<^sup>* s (mutex_put s j (SlowSaw 2))"
  using reach_load [of j "mutex_put s j SlowLoads"] by (simp add: mutex_chain)

lemma reach_park:
  "j < length (rm_threads s) \<Longrightarrow> rm_threads s ! j = WillPark \<Longrightarrow> rm_state s = 2 \<Longrightarrow> mutex_on\<^sup>*\<^sup>* s (mutex_put s j (SlowSaw 2))"
  using on_park [of j s] by (intro reach_via_load) (simp_all add: park_step_def)

lemma reach_saw:
  assumes "j < length (rm_threads s)" "rm_threads s ! j = SlowSaw st" "state_ok st" "rm_state s = 2"
  shows "mutex_on\<^sup>*\<^sup>* s (mutex_put s j (SlowSaw 2))"
  using assms(3)
proof (rule state_cases)
  assume "st = 0"
  then show ?thesis
    using on_slow [of j s 0 False False] assms by (simp add: slow_step_def state_cmpxchg_def r_into_rtranclp)
next
  assume "st = 1"
  then show ?thesis
    using on_slow [of j s 1 False True] assms by (intro reach_via_load) (simp_all add: slow_step_def)
next
  assume "st = 2"
  then show ?thesis
    using assms by (simp add: mutex_put_same)
next
  assume "st = 3"
  then show ?thesis
    using on_slow [of j s 3 False False] reach_park [of j "mutex_put s j WillPark"] assms
    by (simp add: slow_step_def mutex_chain)
qed

lemma reach_active:
  assumes "mutex_inv s" "j < length (rm_threads s)" "is_active (rm_threads s ! j)" "rm_state s = 2"
  shows "mutex_on\<^sup>*\<^sup>* s (mutex_put s j (SlowSaw 2))"
proof (cases "rm_threads s ! j")
  case LocksFast
  then show ?thesis
    using on_lock_fast [of j s False] assms by (intro reach_via_load) (simp_all add: state_cmpxchg_def)
qed (use assms reach_load reach_park reach_saw inv_seen in \<open>auto\<close>)

text \<open>Whoever is on the way to an unlocked mutex can take it.\<close>

lemma active_locks:
  assumes "mutex_inv s" "j < length (rm_threads s)" "is_active (rm_threads s ! j)" "rm_state s = 2"
  shows "mutex_on\<^sup>*\<^sup>* s ((mutex_put s j Holds)\<lparr>rm_state := 3\<rparr>)"
proof -
  have "mutex_on (mutex_put s j (SlowSaw 2)) ((mutex_put s j Holds)\<lparr>rm_state := 3\<rparr>)"
    using on_slow [of j "mutex_put s j (SlowSaw 2)" 2 False False] assms by (simp add: slow_step_def state_cmpxchg_def)
  then show ?thesis
    using reach_active [OF assms] by (rule rtranclp.rtrancl_into_rtrancl [rotated])
qed

text \<open>The holder can hand the mutex to the first thread of the queue.\<close>

lemma unlock_hands_over:
  assumes "rm_queue s = t # ts" "t < length (rm_threads s)" "t \<noteq> j"
  shows "rm_threads (mutex_unlock_slow f True j p s) ! t = Holds" "rm_queue (mutex_unlock_slow f True j p s) = ts"
  using assms by (simp_all add: mutex_unlock_slow_def)

lemma holder_hands_over:
  assumes "j < length (rm_threads s)" "holds_lock (rm_threads s ! j)" "rm_state s = 3" "rm_queue s = t # ts" "t < length (rm_threads s)" "t \<noteq> j"
    "rm_threads s ! t = IsParked"
  shows "\<exists>s'. mutex_on\<^sup>*\<^sup>* s s' \<and> rm_threads s' ! t = Holds \<and> rm_queue s' = ts"
proof -
  have slow: "\<exists>s'. mutex_on\<^sup>*\<^sup>* u s' \<and> rm_threads s' ! t = Holds \<and> rm_queue s' = ts"
    if "rm_threads u = (rm_threads s)[j := UnlocksSlow f]" "rm_queue u = rm_queue s" for u f
    using on_unlock_parked [of j u f t ts True] unlock_hands_over [of u t ts j f Outside] that assms by (auto intro: r_into_rtranclp)
  have fast: "\<exists>s'. mutex_on\<^sup>*\<^sup>* u s' \<and> rm_threads s' ! t = Holds \<and> rm_queue s' = ts"
    if "rm_threads u = (rm_threads s)[j := UnlocksFast f]" "rm_queue u = rm_queue s" "rm_state u = 3" for u f
    using on_unlock_fast [of j u f] slow [of "mutex_put u j (UnlocksSlow f)" f] that assms
    by (auto simp: state_cmpxchg_def intro: mutex_chain)
  show ?thesis
  proof (cases "rm_threads s ! j")
    case Holds
    then show ?thesis
      using on_unlock [of j s True] fast [of "mutex_put s j (UnlocksFast True)" True] assms by (auto intro: mutex_chain)
  next
    case (UnlocksFast f)
    then show ?thesis
      using fast [of s f] assms list_update_id [of "rm_threads s" j] by simp
  next
    case (UnlocksSlow f)
    then show ?thesis
      using slow [of s f] assms list_update_id [of "rm_threads s" j] by simp
  next
    case Bumps
    then show ?thesis
      using on_bump_slow [of j s t ts True] unlock_hands_over [of s t ts j True LocksFast] assms by (auto intro: r_into_rtranclp)
  qed (use assms in simp_all)
qed

lemma inv_steps: "mutex_on\<^sup>*\<^sup>* s s' \<Longrightarrow> mutex_inv s \<Longrightarrow> mutex_inv s'"
  by (induction rule: rtranclp_induct) (auto simp: mutex_on_def intro: mutex_inv_step)

lemma queue_head_locks:
  assumes "mutex_inv s" "rm_queue s = t # ts"
  shows "\<exists>s'. mutex_on\<^sup>*\<^sup>* s s' \<and> rm_threads s' ! t = Holds \<and> rm_queue s' = ts"
proof -
  have t: "t < length (rm_threads s)" "rm_threads s ! t = IsParked" "has_parked (rm_state s)" "state_ok (rm_state s)"
    using assms unfolding mutex_inv_def by auto
  have "rm_state s = 3 \<or> rm_state s = 2"
    using t by (elim state_cases) simp_all
  then show ?thesis
  proof
    assume three: "rm_state s = 3"
    then obtain j where "j < length (rm_threads s)" "holds_lock (rm_threads s ! j)"
      using tally_ex [of holds_lock "rm_threads s"] assms(1) by (auto simp: mutex_inv_def)
    then show ?thesis
      using holder_hands_over [of j s t ts] assms t three by fastforce
  next
    assume two: "rm_state s = 2"
    then obtain j where j: "j < length (rm_threads s)" "is_active (rm_threads s ! j)"
      using tally_ex [of is_active "rm_threads s"] assms by (auto simp: mutex_inv_def)
    let ?u = "(mutex_put s j Holds)\<lparr>rm_state := 3\<rparr>"
    have "t \<noteq> j"
      using t j by auto
    have "mutex_on\<^sup>*\<^sup>* s ?u"
      using active_locks assms(1) j two by blast
    moreover have "\<exists>s'. mutex_on\<^sup>*\<^sup>* ?u s' \<and> rm_threads s' ! t = Holds \<and> rm_queue s' = ts"
      by (rule holder_hands_over [of j]) (use assms t j \<open>t \<noteq> j\<close> in auto)
    ultimately show ?thesis
      by (elim exE conjE) (rule exI, intro conjI, rule rtranclp_trans, assumption+)
  qed
qed

lemma parked_locks: "mutex_inv s \<Longrightarrow> i \<in> set (rm_queue s) \<Longrightarrow> \<exists>s'. mutex_on\<^sup>*\<^sup>* s s' \<and> rm_threads s' ! i = Holds"
proof (induction "rm_queue s" arbitrary: s)
  case (Cons t ts)
  obtain u where u: "mutex_on\<^sup>*\<^sup>* s u" "rm_threads u ! t = Holds" "rm_queue u = ts"
    using queue_head_locks Cons.prems(1) Cons.hyps(2) by metis
  show ?case
  proof (cases "i = t")
    case False
    then have "i \<in> set (rm_queue u)"
      using Cons.prems(2) Cons.hyps(2) [symmetric] u by simp
    then show ?thesis
      using Cons.hyps(1) [of u] u inv_steps Cons.prems(1) by (meson rtranclp_trans)
  qed (use u in blast)
qed simp

text \<open>C14. Whatever the order in which the threads lock, try, spin, park, bump and unlock, at most one of them holds the mutex, and one does
  exactly when the locked bit is set.
\<close>

theorem mutex_exclusive:
  assumes "mutex_step\<^sup>*\<^sup>* (mutex_start n) s"
  shows "length (filter holds_lock (rm_threads s)) = (if mutex_is_locked (rm_state s) then 1 else 0)"
  using mutex_inv_reach [OF assms] by (simp add: mutex_inv_def tally_def)

lemma one_holds: "mutex_step\<^sup>*\<^sup>* (mutex_start 2) \<lparr>rm_state = 1, rm_queue = [], rm_threads = [Holds, Outside]\<rparr>"
  using mutex_step.lock [of 0 "mutex_start 2"] mutex_step.lock_fast [of 0 "mutex_put (mutex_start 2) 0 LocksFast" False]
  by (simp add: mutex_start_def mutex_put_def state_cmpxchg_def numeral_2_eq_2 mutex_chain r_into_rtranclp)

theorem mutex_exclusive_witness: "length (filter holds_lock [Holds, Outside]) = 1"
  using mutex_exclusive [OF one_holds] by simp

text \<open>C15. No wakeup is lost. In every reachable state in which a thread is parked, the parked bit is set, so that an unlock looks at the
  queue, and some other thread holds the mutex or is awake on its way to it; and the threads that are already in a call can go on,
  without any further call of \<open>lock\<close> or \<open>try_lock\<close>, until the parked thread gets the mutex.
\<close>

theorem mutex_parked_gets_lock:
  assumes "mutex_step\<^sup>*\<^sup>* (mutex_start n) s" "i < n" "rm_threads s ! i = IsParked"
  shows "has_parked (rm_state s) \<and> (\<exists>j < n. holds_lock (rm_threads s ! j) \<or> is_active (rm_threads s ! j)) \<and>
    (\<exists>s'. mutex_on\<^sup>*\<^sup>* s s' \<and> rm_threads s' ! i = Holds)"
proof -
  have inv: "mutex_inv s" and n: "length (rm_threads s) = n"
    using mutex_inv_reach reach_threads assms(1) by blast+
  then have i: "i \<in> set (rm_queue s)"
    using assms(2,3) by (auto simp: mutex_inv_def)
  then have "has_parked (rm_state s)" "mutex_is_locked (rm_state s) \<or> 0 < number_at is_active s" "number_at holds_lock s = of_bool (mutex_is_locked (rm_state s))"
    using inv by (auto simp: mutex_inv_def)
  then show ?thesis
    using tally_ex [of holds_lock "rm_threads s"] tally_ex [of is_active "rm_threads s"] parked_locks [OF inv i] n by fastforce
qed

text \<open>The holder of \<open>one_holds\<close> keeps the mutex while the other thread goes to sleep.\<close>

definition held_while :: "u8 \<Rightarrow> mutex_pc \<Rightarrow> RawMutex" where
  "held_while st p = \<lparr>rm_state = st, rm_queue = if p = IsParked then [1] else [], rm_threads = [Holds, p]\<rparr>"

lemma one_parks: "mutex_step\<^sup>*\<^sup>* (mutex_start 2) (held_while 3 IsParked)"
proof -
  note step = rtranclp.rtrancl_into_rtrancl [of mutex_step "mutex_start 2"]
  have "mutex_step\<^sup>*\<^sup>* (mutex_start 2) (held_while 1 Outside)"
    using one_holds by (simp add: held_while_def)
  then have "mutex_step\<^sup>*\<^sup>* (mutex_start 2) (held_while 1 LocksFast)"
    by (rule step) (use mutex_step.lock [of 1 "held_while 1 Outside"] in \<open>simp add: held_while_def mutex_put_def\<close>)
  then have "mutex_step\<^sup>*\<^sup>* (mutex_start 2) (held_while 1 SlowLoads)"
    by (rule step) (use mutex_step.lock_fast [of 1 "held_while 1 LocksFast"] in \<open>simp add: held_while_def mutex_put_def state_cmpxchg_def\<close>)
  then have "mutex_step\<^sup>*\<^sup>* (mutex_start 2) (held_while 1 (SlowSaw 1))"
    by (rule step) (use mutex_step.load [of 1 "held_while 1 SlowLoads"] in \<open>simp add: held_while_def mutex_put_def\<close>)
  then have "mutex_step\<^sup>*\<^sup>* (mutex_start 2) (held_while 3 WillPark)"
    by (rule step) (use mutex_step.slow [of 1 "held_while 1 (SlowSaw 1)" 1 False False] in
      \<open>simp add: held_while_def mutex_put_def slow_step_def state_cmpxchg_def\<close>)
  then show ?thesis
    by (rule step) (use mutex_step.park [of 1 "held_while 3 WillPark"] in \<open>simp add: held_while_def mutex_put_def park_step_def\<close>)
qed

theorem mutex_parked_gets_lock_witness: "\<exists>s'. mutex_on\<^sup>*\<^sup>* (held_while 3 IsParked) s' \<and> rm_threads s' ! 1 = Holds"
  using mutex_parked_gets_lock [OF one_parks, of 1] by (simp add: held_while_def)

end
