(* ===== verification/WorkerModel.thy ===== *)
theory WorkerModel
  imports Prelude "HOL-Library.Multiset"
begin

text \<open>
  The worker pool of \<open>sync/worker_threads.rs\<close>: a coordinator hands a task to the active workers over two semaphores, and every worker
  that gets a permit runs the task with an id of its own. A semaphore is a counter (\<open>signal(n)\<close> posts n times, one step each, and
  \<open>wait\<close> needs a positive count). One coordinator runs tasks, one after the other, and may change the number of active workers in
  between; the workers are never shut down, as nothing sets the flag.
\<close>

section \<open>The dispatcher\<close>

record WorkerTaskDispatcher =
  wd_task :: bool
  wd_started :: nat
  wd_not_finished :: nat
  wd_start_semaphore :: nat
  wd_end_semaphore :: nat

definition WorkerTaskDispatcher_new :: WorkerTaskDispatcher where
  "WorkerTaskDispatcher_new = \<lparr>wd_task = False, wd_started = 0, wd_not_finished = 0, wd_start_semaphore = 0, wd_end_semaphore = 0\<rparr>"

text \<open>A worker before its start semaphore, with a permit, running the task with an id, done with it, and before the end semaphore.\<close>

datatype pool_pc = AwaitsTask | GotPermit | HasId nat | TaskDone | SignalsEnd

text \<open>The coordinator outside a task, with some posts of the start semaphore to do, waiting for the end, and before it clears the task.\<close>

datatype coordinator_pc = NoTask | Signals nat | AwaitsEnd | Clears

text \<open>\<open>wp_ran\<close> and \<open>wp_history\<close> record the ids with which the present and the finished tasks were run.\<close>

record WorkerThreads =
  wp_dispatcher :: WorkerTaskDispatcher
  wp_workers :: "pool_pc list"
  wp_active :: nat
  wp_coordinator :: coordinator_pc
  wp_ran :: "nat list"
  wp_history :: "(nat \<times> nat list) list"

definition WorkerThreads_new :: WorkerThreads where
  "WorkerThreads_new = \<lparr>wp_dispatcher = WorkerTaskDispatcher_new, wp_workers = [], wp_active = 0, wp_coordinator = NoTask, wp_ran = [], wp_history = []\<rparr>"

text \<open>Workers are created up to the number asked for, and never removed.\<close>

definition set_active_workers :: "nat \<Rightarrow> WorkerThreads \<Rightarrow> WorkerThreads" where
  "set_active_workers num_workers s = (let ws = wp_workers s @ replicate (num_workers - length (wp_workers s)) AwaitsTask in
     s\<lparr>wp_workers := ws, wp_active := min (length ws) num_workers\<rparr>)"

definition distribute_start :: "WorkerThreads \<Rightarrow> WorkerThreads" where
  "distribute_start s = s\<lparr>wp_dispatcher := (wp_dispatcher s)\<lparr>wd_task := True, wd_not_finished := wp_active s\<rparr>, wp_coordinator := Signals (wp_active s)\<rparr>"

definition distribute_end :: "WorkerThreads \<Rightarrow> WorkerThreads" where
  "distribute_end s = s\<lparr>wp_dispatcher := (wp_dispatcher s)\<lparr>wd_task := False\<rparr>, wp_coordinator := NoTask,
     wp_ran := [], wp_history := wp_history s @ [(wp_active s, wp_ran s)]\<rparr>"

definition start_signal :: "WorkerTaskDispatcher \<Rightarrow> WorkerTaskDispatcher" where
  "start_signal d = d\<lparr>wd_start_semaphore := wd_start_semaphore d + 1\<rparr>"

definition take_id :: "WorkerTaskDispatcher \<Rightarrow> nat \<times> WorkerTaskDispatcher" where
  "take_id d = (wd_started d, d\<lparr>wd_started := (wd_started d + 1) mod 2 ^ 64\<rparr>)"

definition task_finished :: "WorkerTaskDispatcher \<Rightarrow> bool \<times> WorkerTaskDispatcher" where
  "task_finished d = (wd_not_finished d = 1, d\<lparr>wd_not_finished := (wd_not_finished d + 2 ^ 64 - 1) mod 2 ^ 64\<rparr>)"

definition pool_put :: "WorkerThreads \<Rightarrow> nat \<Rightarrow> pool_pc \<Rightarrow> WorkerTaskDispatcher \<Rightarrow> WorkerThreads" where
  "pool_put s i p d = s\<lparr>wp_workers := (wp_workers s)[i := p], wp_dispatcher := d\<rparr>"

text \<open>A worker without a task returns from \<open>worker_run_task\<close> at once.\<close>

definition run_work :: "nat \<Rightarrow> nat \<Rightarrow> WorkerThreads \<Rightarrow> WorkerThreads" where
  "run_work i worker_id s = (let d = wp_dispatcher s in
     if \<not> wd_task d then pool_put s i AwaitsTask d else (pool_put s i TaskDone d)\<lparr>wp_ran := wp_ran s @ [worker_id]\<rparr>)"

inductive pool_step :: "WorkerThreads \<Rightarrow> WorkerThreads \<Rightarrow> bool" where
  activate: "wp_coordinator s = NoTask \<Longrightarrow> n < 2 ^ 64 \<Longrightarrow> pool_step s (set_active_workers n s)"
| run_task: "wp_coordinator s = NoTask \<Longrightarrow> pool_step s (distribute_start s)"
| signal: "wp_coordinator s = Signals (Suc k) \<Longrightarrow>
    pool_step s (s\<lparr>wp_dispatcher := start_signal (wp_dispatcher s), wp_coordinator := Signals k\<rparr>)"
| signalled: "wp_coordinator s = Signals 0 \<Longrightarrow> pool_step s (s\<lparr>wp_coordinator := AwaitsEnd\<rparr>)"
| wait_end: "wp_coordinator s = AwaitsEnd \<Longrightarrow> wd_end_semaphore (wp_dispatcher s) = Suc k \<Longrightarrow>
    pool_step s (s\<lparr>wp_dispatcher := (wp_dispatcher s)\<lparr>wd_end_semaphore := k\<rparr>, wp_coordinator := Clears\<rparr>)"
| clear: "wp_coordinator s = Clears \<Longrightarrow> pool_step s (distribute_end s)"
| permit: "i < length (wp_workers s) \<Longrightarrow> wp_workers s ! i = AwaitsTask \<Longrightarrow> wd_start_semaphore (wp_dispatcher s) = Suc k \<Longrightarrow>
    pool_step s (pool_put s i GotPermit ((wp_dispatcher s)\<lparr>wd_start_semaphore := k\<rparr>))"
| number: "i < length (wp_workers s) \<Longrightarrow> wp_workers s ! i = GotPermit \<Longrightarrow> take_id (wp_dispatcher s) = (worker_id, d) \<Longrightarrow>
    pool_step s (pool_put s i (HasId worker_id) d)"
| work: "i < length (wp_workers s) \<Longrightarrow> wp_workers s ! i = HasId worker_id \<Longrightarrow> pool_step s (run_work i worker_id s)"
| finish: "i < length (wp_workers s) \<Longrightarrow> wp_workers s ! i = TaskDone \<Longrightarrow> task_finished (wp_dispatcher s) = (is_last, d) \<Longrightarrow>
    pool_step s (pool_put s i (if is_last then SignalsEnd else AwaitsTask) d)"
| signal_end: "i < length (wp_workers s) \<Longrightarrow> wp_workers s ! i = SignalsEnd \<Longrightarrow> d = wp_dispatcher s \<Longrightarrow>
    pool_step s (pool_put s i AwaitsTask (d\<lparr>wd_end_semaphore := wd_end_semaphore d + 1\<rparr>))"

section \<open>Invariant\<close>

fun posts :: "coordinator_pc \<Rightarrow> nat" where
  "posts (Signals k) = k"
| "posts _ = 0"

fun in_round :: "coordinator_pc \<Rightarrow> bool" where
  "in_round NoTask = False"
| "in_round Clears = False"
| "in_round _ = True"

fun held_id :: "pool_pc \<Rightarrow> nat multiset" where
  "held_id (HasId k) = {#k#}"
| "held_id _ = {#}"

definition held_ids :: "pool_pc list \<Rightarrow> nat multiset" where
  "held_ids ws = sum_list (map held_id ws)"

definition ids_from :: "nat \<Rightarrow> nat \<Rightarrow> nat multiset" where
  "ids_from a b = mset (map (\<lambda>i. i mod 2 ^ 64) [a..<b])"

text \<open>The finished tasks: each was run with as many ids as there were active workers, counted on from the ids of the tasks before.\<close>

fun tasks_ok :: "nat \<Rightarrow> (nat \<times> nat list) list \<Rightarrow> bool" where
  "tasks_ok a [] \<longleftrightarrow> True"
| "tasks_ok a ((n, ids) # rounds) \<longleftrightarrow> mset ids = ids_from a (a + n) \<and> tasks_ok (a + n) rounds"

definition first_id :: "WorkerThreads \<Rightarrow> nat" where
  "first_id s = sum_list (map fst (wp_history s))"

definition pool_inv :: "WorkerThreads \<Rightarrow> bool" where
  "pool_inv s \<longleftrightarrow> (let d = wp_dispatcher s; c = wp_coordinator s; ws = wp_workers s; taken = length (wp_ran s) + size (held_ids ws);
       queued = wd_start_semaphore d + posts c + tally ((=) GotPermit) ws in
     wp_active s \<le> length ws \<and> wp_active s < 2 ^ 64 \<and> tasks_ok 0 (wp_history s) \<and>
     wd_task d = (c \<noteq> NoTask) \<and> queued + taken = (if c = NoTask then 0 else wp_active s) \<and>
     wd_not_finished d = queued + size (held_ids ws) + tally ((=) TaskDone) ws \<and> tally ((=) TaskDone) ws \<le> length (wp_ran s) \<and>
     wd_end_semaphore d + tally ((=) SignalsEnd) ws = of_bool (in_round c \<and> wd_not_finished d = 0 \<and> wp_active s \<noteq> 0) \<and>
     (\<not> in_round c \<longrightarrow> wd_not_finished d = 0) \<and>
     wd_started d = (first_id s + taken) mod 2 ^ 64 \<and> mset (wp_ran s) + held_ids ws = ids_from (first_id s) (first_id s + taken))"

lemma held_ids_simps [simp]: "held_ids [] = {#}" "held_ids (w # ws) = held_id w + held_ids ws" "held_ids (ws @ vs) = held_ids ws + held_ids vs"
  "held_ids (replicate n AwaitsTask) = {#}"
  by (induction n) (simp_all add: held_ids_def)

lemma held_ids_update: "i < length ws \<Longrightarrow> held_ids (ws[i := p]) + held_id (ws ! i) = held_ids ws + held_id p"
proof (induction ws arbitrary: i)
  case (Cons w ws)
  show ?case
  proof (cases i)
    case (Suc j)
    then show ?thesis
      using Cons by (simp add: add.assoc)
  qed (simp add: ac_simps)
qed simp

lemma tally_append [simp]: "tally P (xs @ ys) = tally P xs + tally P ys"
  by (simp add: tally_def)

lemma ids_from_Suc: "a \<le> b \<Longrightarrow> ids_from a (Suc b) = add_mset (b mod 2 ^ 64) (ids_from a b)"
  by (simp add: ids_from_def)

lemma ids_from_empty [simp]: "ids_from a a = {#}"
  by (simp add: ids_from_def)

lemma tasks_ok_append: "tasks_ok a (h @ [(n, ids)]) \<longleftrightarrow> tasks_ok a h \<and> mset ids = ids_from (a + sum_list (map fst h)) (a + sum_list (map fst h) + n)"
  by (induction a h rule: tasks_ok.induct) (auto simp: ac_simps)

lemma pool_inv_new: "pool_inv WorkerThreads_new"
  by (simp add: pool_inv_def WorkerThreads_new_def WorkerTaskDispatcher_new_def first_id_def)

lemma pool_inv_move:
  assumes "i < length ws"
  shows "tally ((=) GotPermit) (ws[i := p]) + of_bool (GotPermit = ws ! i) = tally ((=) GotPermit) ws + of_bool (GotPermit = p)"
    "tally ((=) TaskDone) (ws[i := p]) + of_bool (TaskDone = ws ! i) = tally ((=) TaskDone) ws + of_bool (TaskDone = p)"
    "tally ((=) SignalsEnd) (ws[i := p]) + of_bool (SignalsEnd = ws ! i) = tally ((=) SignalsEnd) ws + of_bool (SignalsEnd = p)"
    "held_ids (ws[i := p]) + held_id (ws ! i) = held_ids ws + held_id p"
    "size (held_ids (ws[i := p])) + size (held_id (ws ! i)) = size (held_ids ws) + size (held_id p)"
  using tally_update [OF assms] held_ids_update [OF assms] by (auto simp flip: size_union)

lemma finish_count: "(0 < n \<Longrightarrow> n < 2 ^ 64 \<Longrightarrow> (n + 2 ^ 64 - 1) mod 2 ^ 64 = n - 1)" for n :: nat
  by (simp add: mod_if)

lemma pool_inv_finish:
  assumes "pool_inv s" "i < length (wp_workers s)" "wp_workers s ! i = TaskDone" "task_finished (wp_dispatcher s) = (is_last, d)"
  shows "pool_inv (pool_put s i (if is_last then SignalsEnd else AwaitsTask) d)"
proof -
  let ?n = "wd_not_finished (wp_dispatcher s)"
  have some: "0 < tally ((=) TaskDone) (wp_workers s)"
    using tally_pos [OF assms(2), of "(=) TaskDone"] assms(3) by simp
  then have n: "0 < ?n" "in_round (wp_coordinator s)" "?n \<le> wp_active s" "?n < 2 ^ 64" "wp_active s \<noteq> 0"
    using assms(1) by (auto simp: pool_inv_def Let_def split: if_splits)
  have d: "is_last = (?n = 1)" "d = (wp_dispatcher s)\<lparr>wd_not_finished := ?n - 1\<rparr>"
    using assms(4) finish_count [OF n(1,4)] by (auto simp: task_finished_def)
  show ?thesis
  proof (cases "?n = 1")
    case True
    have "?n = wd_start_semaphore (wp_dispatcher s) + posts (wp_coordinator s) + tally ((=) GotPermit) (wp_workers s) +
        size (held_ids (wp_workers s)) + tally ((=) TaskDone) (wp_workers s)"
      using assms(1) by (simp add: pool_inv_def Let_def)
    then have "size (held_ids (wp_workers s)) = 0"
      using True some by linarith
    then show ?thesis
      using pool_inv_move [OF assms(2), of SignalsEnd] assms(1,3) n(2,5) d some True
      by (simp add: pool_inv_def pool_put_def first_id_def Let_def)
  next
    case False
    then show ?thesis
      using pool_inv_move [OF assms(2), of AwaitsTask] assms(1,3) n d some
      by (simp add: pool_inv_def pool_put_def first_id_def Let_def) linarith
  qed
qed

lemma pool_inv_step: "pool_step s s' \<Longrightarrow> pool_inv s \<Longrightarrow> pool_inv s'"
proof (induction rule: pool_step.induct)
  case (activate s n)
  then show ?case
    by (auto simp: pool_inv_def set_active_workers_def first_id_def Let_def)
next
  case (run_task s)
  then show ?case
    by (auto simp: pool_inv_def distribute_start_def first_id_def Let_def)
next
  case (signal s k)
  then show ?case
    by (auto simp: pool_inv_def start_signal_def first_id_def Let_def)
next
  case (signalled s)
  then show ?case
    by (auto simp: pool_inv_def first_id_def Let_def)
next
  case (wait_end s k)
  then show ?case
    by (auto simp: pool_inv_def first_id_def Let_def of_bool_def split: if_splits)
next
  case (clear s)
  then show ?case
    by (auto simp: pool_inv_def distribute_end_def first_id_def Let_def tasks_ok_append)
next
  case (permit i s k)
  then show ?case
    using pool_inv_move [OF permit(1), of GotPermit] by (auto simp: pool_inv_def pool_put_def first_id_def Let_def)
next
  case (number i s worker_id d)
  then show ?case
    using pool_inv_move [OF number(1), of "HasId worker_id"]
    by (auto simp: pool_inv_def pool_put_def first_id_def Let_def take_id_def ids_from_Suc mod_Suc_eq)
next
  case (work i s worker_id)
  then show ?case
    using pool_inv_move(1-3) [OF work(1), of TaskDone] pool_inv_move(4) [OF work(1), of TaskDone, symmetric]
    by (auto simp: pool_inv_def pool_put_def run_work_def first_id_def Let_def)
next
  case (finish i s is_last d)
  then show ?case
    using pool_inv_finish by blast
next
  case (signal_end i s d)
  then show ?case
    using pool_inv_move(1,2,4) [OF signal_end(1), of AwaitsTask] pool_inv_move(3) [OF signal_end(1), of AwaitsTask, symmetric]
    by (auto simp: pool_inv_def pool_put_def first_id_def Let_def)
qed

lemma pool_inv_reach: "pool_step\<^sup>*\<^sup>* WorkerThreads_new s \<Longrightarrow> pool_inv s"
  by (induction rule: rtranclp_induct) (auto intro: pool_inv_new pool_inv_step)

section \<open>Tasks end\<close>

fun pool_weight :: "pool_pc \<Rightarrow> nat" where
  "pool_weight AwaitsTask = 0"
| "pool_weight SignalsEnd = 1"
| "pool_weight TaskDone = 2"
| "pool_weight (HasId _) = 3"
| "pool_weight GotPermit = 4"

fun coordinator_weight :: "coordinator_pc \<Rightarrow> nat" where
  "coordinator_weight NoTask = 0"
| "coordinator_weight Clears = 1"
| "coordinator_weight AwaitsEnd = 2"
| "coordinator_weight (Signals k) = 3 + 6 * k"

definition task_distance :: "WorkerThreads \<Rightarrow> nat" where
  "task_distance s = sum_list (map pool_weight (wp_workers s)) + 5 * wd_start_semaphore (wp_dispatcher s) + coordinator_weight (wp_coordinator s)"

lemma weight_move: "i < length ws \<Longrightarrow> sum_list (map pool_weight (ws[i := p])) + pool_weight (ws ! i) = sum_list (map pool_weight ws) + pool_weight p"
proof (induction ws arbitrary: i)
  case (Cons w ws)
  then show ?case
    by (cases i) auto
qed simp

lemma task_distance_put:
  "i < length (wp_workers s) \<Longrightarrow> task_distance (pool_put s i p d) + pool_weight (wp_workers s ! i) + 5 * wd_start_semaphore (wp_dispatcher s) =
     task_distance s + pool_weight p + 5 * wd_start_semaphore d"
  using weight_move [of i "wp_workers s" p] by (simp add: task_distance_def pool_put_def)

lemma task_distance_ran [simp]: "task_distance (s\<lparr>wp_ran := r\<rparr>) = task_distance s"
  by (simp add: task_distance_def)

lemma task_distance_step: "pool_step s s' \<Longrightarrow> wp_coordinator s \<noteq> NoTask \<Longrightarrow> task_distance s' < task_distance s"
proof (induction rule: pool_step.induct)
  case (permit i s k)
  then show ?case
    using task_distance_put [OF permit(1), of GotPermit "(wp_dispatcher s)\<lparr>wd_start_semaphore := k\<rparr>"] by simp
next
  case (number i s worker_id d)
  then show ?case
    using task_distance_put [OF number(1), of "HasId worker_id" d] by (auto simp: take_id_def)
next
  case (work i s worker_id)
  then show ?case
    using task_distance_put [OF work(1), of TaskDone "wp_dispatcher s"]
      task_distance_put [OF work(1), of AwaitsTask "wp_dispatcher s"] by (simp add: run_work_def Let_def)
next
  case (finish i s is_last d)
  then show ?case
    using task_distance_put [OF finish(1), of "if is_last then SignalsEnd else AwaitsTask" d] by (auto simp: task_finished_def split: if_splits)
next
  case (signal_end i s d)
  then show ?case
    using task_distance_put [OF signal_end(1), of AwaitsTask "d\<lparr>wd_end_semaphore := wd_end_semaphore d + 1\<rparr>"] by simp
qed (simp_all add: task_distance_def start_signal_def distribute_end_def)

text \<open>While a task runs there is always someone who can go on, but when the coordinator waits for a task without workers.\<close>

lemma worker_goes_on:
  assumes "i < length (wp_workers s)" "wp_workers s ! i \<noteq> AwaitsTask \<or> 0 < wd_start_semaphore (wp_dispatcher s)"
  shows "\<exists>s'. pool_step s s'"
proof (cases "wp_workers s ! i")
  case AwaitsTask
  then obtain k where "wd_start_semaphore (wp_dispatcher s) = Suc k"
    using assms(2) by (auto simp: gr0_conv_Suc)
  then show ?thesis
    using pool_step.permit AwaitsTask assms(1) by blast
next
  case GotPermit
  then show ?thesis
    using pool_step.number [OF assms(1)] by (auto simp: take_id_def)
next
  case (HasId worker_id)
  then show ?thesis
    using pool_step.work [OF assms(1)] by blast
next
  case TaskDone
  then show ?thesis
    using pool_step.finish [OF assms(1)] by (auto simp: task_finished_def)
next
  case SignalsEnd
  then show ?thesis
    using pool_step.signal_end [OF assms(1)] by blast
qed

lemma coordinator_goes_on:
  assumes "pool_inv s" "wp_coordinator s = AwaitsEnd" "wp_active s \<noteq> 0"
  shows "\<exists>s'. pool_step s s'"
proof (cases "wd_end_semaphore (wp_dispatcher s)")
  case (Suc k)
  then show ?thesis
    using pool_step.wait_end assms(2) by blast
next
  case 0
  have "0 < length (wp_workers s)"
    using assms(1,3) unfolding pool_inv_def Let_def by linarith
  moreover have "0 < wd_start_semaphore (wp_dispatcher s) \<or> (\<exists>i < length (wp_workers s). wp_workers s ! i \<noteq> AwaitsTask)"
  proof (rule ccontr)
    assume "\<not> (0 < wd_start_semaphore (wp_dispatcher s) \<or> (\<exists>i < length (wp_workers s). wp_workers s ! i \<noteq> AwaitsTask))"
    then have idle: "wd_start_semaphore (wp_dispatcher s) = 0" "wp_workers s = replicate (length (wp_workers s)) AwaitsTask"
      by (auto simp: list_eq_iff_nth_eq)
    then have "held_ids (wp_workers s) = {#}" "\<And>p. p \<noteq> AwaitsTask \<Longrightarrow> tally ((=) p) (wp_workers s) = 0"
      by (metis held_ids_simps(4), metis mult_is_0 of_bool_eq(1) tally_simps(3))
    then show False
      using assms idle(1) 0 by (simp add: pool_inv_def Let_def)
  qed
  ultimately show ?thesis
    using worker_goes_on by blast
qed

lemma task_stuck:
  assumes "pool_inv s" "wp_coordinator s = AwaitsEnd" "wp_active s = 0"
  shows "\<not> pool_step s s'"
proof
  have "tally ((=) GotPermit) (wp_workers s) = 0" "tally ((=) TaskDone) (wp_workers s) = 0" "tally ((=) SignalsEnd) (wp_workers s) = 0"
    "held_ids (wp_workers s) = {#}" and d: "wd_start_semaphore (wp_dispatcher s) = 0" "wd_end_semaphore (wp_dispatcher s) = 0"
    using assms by (auto simp: pool_inv_def Let_def)
  then have idle: "i < length (wp_workers s) \<Longrightarrow> wp_workers s ! i = AwaitsTask" for i
    using tally_pos [of i "wp_workers s"] pool_inv_move(5) [of i "wp_workers s" AwaitsTask] by (cases "wp_workers s ! i") fastforce+
  assume "pool_step s s'"
  then show False
    using assms(2) d idle by (cases rule: pool_step.cases) auto
qed

lemma task_goes_on:
  assumes "pool_inv s" "wp_coordinator s \<noteq> NoTask"
  shows "(\<exists>s'. pool_step s s') \<longleftrightarrow> \<not> (wp_coordinator s = AwaitsEnd \<and> wp_active s = 0)"
proof (cases "wp_coordinator s")
  case (Signals k)
  then show ?thesis
    using pool_step.signal [of s "k - 1"] pool_step.signalled [of s] by (cases k) auto
next
  case AwaitsEnd
  then show ?thesis
    using coordinator_goes_on task_stuck assms by blast
next
  case Clears
  then show ?thesis
    using pool_step.clear by auto
qed (use assms in simp)

section \<open>Runs\<close>

text \<open>C16. Each finished task was run exactly once for each of as many consecutive ids as there were active workers, and was finished before
  the coordinator went on; but the ids start where those of the task before ended, not at zero.
\<close>

theorem run_task_ids:
  assumes "pool_step\<^sup>*\<^sup>* WorkerThreads_new s"
  shows "tasks_ok 0 (wp_history s)"
  using pool_inv_reach [OF assms] by (simp add: pool_inv_def Let_def)

text \<open>C17. A running task comes to its end, whatever the order of the steps: every step brings the end nearer, and a step is possible until
  then, except when a task is run without active workers: the coordinator then waits for ever.
\<close>

theorem run_task_ends:
  assumes "pool_step\<^sup>*\<^sup>* WorkerThreads_new s" "wp_coordinator s \<noteq> NoTask"
  shows "(\<forall>s'. pool_step s s' \<longrightarrow> task_distance s' < task_distance s) \<and>
    ((\<exists>s'. pool_step s s') \<longleftrightarrow> \<not> (wp_coordinator s = AwaitsEnd \<and> wp_active s = 0))"
  using task_distance_step [OF _ assms(2)] task_goes_on [OF pool_inv_reach [OF assms(1)] assms(2)] by blast

text \<open>One worker, and the states it goes through.\<close>

definition one_worker :: "nat \<Rightarrow> nat \<Rightarrow> nat \<Rightarrow> nat \<Rightarrow> pool_pc \<Rightarrow> coordinator_pc \<Rightarrow> nat list \<Rightarrow> (nat \<times> nat list) list \<Rightarrow> WorkerThreads" where
  "one_worker started not_finished permits finished w c ids h =
     \<lparr>wp_dispatcher = \<lparr>wd_task = c \<noteq> NoTask, wd_started = started, wd_not_finished = not_finished, wd_start_semaphore = permits, wd_end_semaphore = finished\<rparr>,
      wp_workers = [w], wp_active = 1, wp_coordinator = c, wp_ran = ids, wp_history = h\<rparr>"

lemmas one_worker_defs = one_worker_def pool_put_def start_signal_def take_id_def task_finished_def run_work_def distribute_start_def distribute_end_def

lemma one_worker_start: "pool_step\<^sup>*\<^sup>* WorkerThreads_new (one_worker 0 0 0 0 AwaitsTask NoTask [] [])"
  using pool_step.activate [of WorkerThreads_new 1]
  by (intro r_into_rtranclp) (simp add: WorkerThreads_new_def WorkerTaskDispatcher_new_def set_active_workers_def one_worker_def)

lemma one_task:
  assumes "pool_step\<^sup>*\<^sup>* WorkerThreads_new (one_worker k 0 0 0 AwaitsTask NoTask [] h)" "k + 1 < 2 ^ 64"
  shows "pool_step\<^sup>*\<^sup>* WorkerThreads_new (one_worker (k + 1) 0 0 0 AwaitsTask NoTask [] (h @ [(1, [k])]))"
proof -
  note step = rtranclp.rtrancl_into_rtrancl [of pool_step WorkerThreads_new]
  note [simp] = one_worker_defs
  have "pool_step\<^sup>*\<^sup>* WorkerThreads_new (one_worker k 1 0 0 AwaitsTask (Signals 1) [] h)"
    using assms(1) by (rule step) (use pool_step.run_task [of "one_worker k 0 0 0 AwaitsTask NoTask [] h"] in simp)
  then have "pool_step\<^sup>*\<^sup>* WorkerThreads_new (one_worker k 1 1 0 AwaitsTask (Signals 0) [] h)"
    by (rule step) (use pool_step.signal [of "one_worker k 1 0 0 AwaitsTask (Signals 1) [] h" 0] in simp)
  then have "pool_step\<^sup>*\<^sup>* WorkerThreads_new (one_worker k 1 1 0 AwaitsTask AwaitsEnd [] h)"
    by (rule step) (use pool_step.signalled [of "one_worker k 1 1 0 AwaitsTask (Signals 0) [] h"] in simp)
  then have "pool_step\<^sup>*\<^sup>* WorkerThreads_new (one_worker k 1 0 0 GotPermit AwaitsEnd [] h)"
    by (rule step) (use pool_step.permit [of 0 "one_worker k 1 1 0 AwaitsTask AwaitsEnd [] h" 0] in simp)
  then have "pool_step\<^sup>*\<^sup>* WorkerThreads_new (one_worker (k + 1) 1 0 0 (HasId k) AwaitsEnd [] h)"
    by (rule step) (use pool_step.number [of 0 "one_worker k 1 0 0 GotPermit AwaitsEnd [] h"] assms(2) in simp)
  then have "pool_step\<^sup>*\<^sup>* WorkerThreads_new (one_worker (k + 1) 1 0 0 TaskDone AwaitsEnd [k] h)"
    by (rule step) (use pool_step.work [of 0 "one_worker (k + 1) 1 0 0 (HasId k) AwaitsEnd [] h" k] in simp)
  then have "pool_step\<^sup>*\<^sup>* WorkerThreads_new (one_worker (k + 1) 0 0 0 SignalsEnd AwaitsEnd [k] h)"
    by (rule step) (use pool_step.finish [of 0 "one_worker (k + 1) 1 0 0 TaskDone AwaitsEnd [k] h"] in simp)
  then have "pool_step\<^sup>*\<^sup>* WorkerThreads_new (one_worker (k + 1) 0 0 1 AwaitsTask AwaitsEnd [k] h)"
    by (rule step) (use pool_step.signal_end [of 0 "one_worker (k + 1) 0 0 0 SignalsEnd AwaitsEnd [k] h"] in simp)
  then have "pool_step\<^sup>*\<^sup>* WorkerThreads_new (one_worker (k + 1) 0 0 0 AwaitsTask Clears [k] h)"
    by (rule step) (use pool_step.wait_end [of "one_worker (k + 1) 0 0 1 AwaitsTask AwaitsEnd [k] h" 0] in simp)
  then show ?thesis
    by (rule step) (use pool_step.clear [of "one_worker (k + 1) 0 0 0 AwaitsTask Clears [k] h"] in simp)
qed

theorem run_task_ids_witness: "tasks_ok 0 [(1, [0]), (1, [1])]"
  using run_task_ids [OF one_task [OF one_task [OF one_worker_start]]] by (simp add: one_worker_def)

lemma one_runs: "pool_step\<^sup>*\<^sup>* WorkerThreads_new (one_worker 0 1 0 0 AwaitsTask (Signals 1) [] [])"
  by (rule rtranclp.rtrancl_into_rtrancl [OF one_worker_start])
     (use pool_step.run_task [of "one_worker 0 0 0 0 AwaitsTask NoTask [] []"] in \<open>simp add: one_worker_defs\<close>)

theorem run_task_ends_witness: "\<exists>s'. pool_step (one_worker 0 1 0 0 AwaitsTask (Signals 1) [] []) s'"
  using run_task_ends [OF one_runs] by (simp add: one_worker_def)

end
