(* ===== verification/Terminator.thy ===== *)
theory Terminator
  imports Prelude
begin

text \<open>
  The termination protocol of \<open>sync/task_terminator.rs\<close>: workers that find no task offer to terminate; one of them, the spin master,
  watches the queues, the others wait on a monitor with a timeout. Every section under the lock of the monitor is one step. The number of
  tasks that a worker counts in the queues and the answer of its own exit test may be any value: the queues change while it counts. The
  monitor's guard wakes all waiting threads when it is dropped (\<open>sync/monitor.rs\<close>), which every return of \<open>offer_termination\<close> does.
\<close>

section \<open>Spinning\<close>

record DelayContext =
  yield_count :: nat
  hard_spin_count :: nat
  hard_spin_limit :: nat

definition DelayContext_new :: DelayContext where
  "DelayContext_new = \<lparr>yield_count = 0, hard_spin_count = 0, hard_spin_limit = 4096 div 2 ^ 10\<rparr>"

definition reset_hard_spin_information :: "DelayContext \<Rightarrow> DelayContext" where
  "reset_hard_spin_information d = d\<lparr>hard_spin_count := 0, hard_spin_limit := 4096 div 2 ^ 10\<rparr>"

definition needs_sleep :: "DelayContext \<Rightarrow> bool" where
  "needs_sleep d \<longleftrightarrow> 5000 \<le> yield_count d"

definition delay_step :: "DelayContext \<Rightarrow> DelayContext" where
  "delay_step d = (let d = d\<lparr>yield_count := yield_count d + 1\<rparr> in
     if 10 < hard_spin_count d then d
     else d\<lparr>hard_spin_count := hard_spin_count d + 1, hard_spin_limit := min (2 * hard_spin_limit d) 4096\<rparr>)"

section \<open>Offering to terminate\<close>

text \<open>A thread at work; spinning outside the lock, and with what it counted before it takes the lock again; waiting, and woken or timed
  out; returned with true.\<close>

datatype offer_pc = Works | Spins DelayContext | SpinChecks DelayContext nat bool | Waits | Woken | TimedOut | Finished

record TaskTerminator =
  tt_n_threads :: nat
  tt_offered_termination :: nat
  tt_spin_master :: "nat option"
  tt_threads :: "offer_pc list"

definition TaskTerminator_new :: "nat \<Rightarrow> TaskTerminator" where
  "TaskTerminator_new n_threads = \<lparr>tt_n_threads = n_threads, tt_offered_termination = 0, tt_spin_master = None, tt_threads = replicate n_threads Works\<rparr>"

definition tt_put :: "TaskTerminator \<Rightarrow> nat \<Rightarrow> offer_pc \<Rightarrow> TaskTerminator" where
  "tt_put s i p = s\<lparr>tt_threads := (tt_threads s)[i := p]\<rparr>"

definition exit_for_termination :: "nat \<Rightarrow> bool option \<Rightarrow> bool" where
  "exit_for_termination tasks should_exit \<longleftrightarrow> 0 < tasks \<or> should_exit = Some True"

definition wake_one :: "offer_pc \<Rightarrow> offer_pc" where
  "wake_one p = (if p = Waits then Woken else p)"

definition wake_all :: "TaskTerminator \<Rightarrow> TaskTerminator" where
  "wake_all s = s\<lparr>tt_threads := map wake_one (tt_threads s)\<rparr>"

text \<open>\<open>notify_one\<close> wakes some waiting thread, here the first one.\<close>

fun wake_some :: "nat \<Rightarrow> offer_pc list \<Rightarrow> offer_pc list" where
  "wake_some 0 ps = ps"
| "wake_some (Suc k) [] = []"
| "wake_some (Suc k) (p # ps) = (if p = Waits then Woken # wake_some k ps else p # wake_some (Suc k) ps)"

definition prepare_for_return :: "nat \<Rightarrow> nat \<Rightarrow> TaskTerminator \<Rightarrow> TaskTerminator res" where
  "prepare_for_return i tasks s = (let s = (if tt_spin_master s = Some i then s\<lparr>tt_spin_master := None\<rparr> else s) in
     rbind (checked_sub (tt_offered_termination s) 1) (\<lambda>others.
       Inr (if others \<le> tasks then wake_all s else s\<lparr>tt_threads := wake_some (tasks - 1) (tt_threads s)\<rparr>)))"

text \<open>The two ways out of \<open>offer_termination\<close>, each with the drop of the guard.\<close>

definition return_true :: "nat \<Rightarrow> TaskTerminator \<Rightarrow> TaskTerminator res" where
  "return_true i s = rbind (prepare_for_return i (2 ^ 64 - 1) s) (\<lambda>s. Inr (wake_all (tt_put s i Finished)))"

definition return_false :: "nat \<Rightarrow> nat \<Rightarrow> TaskTerminator \<Rightarrow> TaskTerminator res" where
  "return_false i tasks s = rbind (prepare_for_return i tasks s) (\<lambda>s.
     Inr (wake_all (tt_put (s\<lparr>tt_offered_termination := tt_offered_termination s - 1\<rparr>) i Works)))"

text \<open>The head of the loop: the thread becomes the spin master if there is none, and waits otherwise.\<close>

definition offer_loop :: "nat \<Rightarrow> TaskTerminator \<Rightarrow> TaskTerminator" where
  "offer_loop i s = (if tt_spin_master s = None then tt_put (s\<lparr>tt_spin_master := Some i\<rparr>) i (Spins DelayContext_new) else tt_put s i Waits)"

definition offer_start :: "nat \<Rightarrow> TaskTerminator \<Rightarrow> TaskTerminator res" where
  "offer_start i s =
     (if tt_n_threads s = 1 then Inr (tt_put (s\<lparr>tt_offered_termination := 1\<rparr>) i Finished)
      else let s = s\<lparr>tt_offered_termination := tt_offered_termination s + 1\<rparr> in
        if tt_offered_termination s = tt_n_threads s then return_true i s else Inr (offer_loop i s))"

definition spin_check :: "nat \<Rightarrow> DelayContext \<Rightarrow> nat \<Rightarrow> bool \<Rightarrow> TaskTerminator \<Rightarrow> TaskTerminator res" where
  "spin_check i d tasks should_exit s =
     (if tt_offered_termination s = tt_n_threads s then return_true i s
      else if should_exit then return_false i tasks s
      else if needs_sleep d then Inr (tt_put (s\<lparr>tt_spin_master := None\<rparr>) i Waits)
      else Inr (tt_put s i (Spins d)))"

definition after_wait :: "nat \<Rightarrow> bool \<Rightarrow> nat \<Rightarrow> bool option \<Rightarrow> TaskTerminator \<Rightarrow> TaskTerminator res" where
  "after_wait i timed_out tasks should_exit s =
     (if tt_offered_termination s = 1 then return_true i s
      else if \<not> timed_out then return_false i 0 s
      else if exit_for_termination tasks should_exit then return_false i tasks s
      else Inr (offer_loop i s))"

inductive offer_step :: "TaskTerminator \<Rightarrow> TaskTerminator \<Rightarrow> bool" where
  offer: "i < length (tt_threads s) \<Longrightarrow> tt_threads s ! i = Works \<Longrightarrow> offer_start i s = Inr s' \<Longrightarrow> offer_step s s'"
| spin: "i < length (tt_threads s) \<Longrightarrow> tt_threads s ! i = Spins d \<Longrightarrow> tasks < 2 ^ 64 \<Longrightarrow>
    offer_step s (tt_put s i (SpinChecks (delay_step d) tasks (exit_for_termination tasks should_exit)))"
| check: "i < length (tt_threads s) \<Longrightarrow> tt_threads s ! i = SpinChecks d tasks should_exit \<Longrightarrow> spin_check i d tasks should_exit s = Inr s' \<Longrightarrow>
    offer_step s s'"
| timeout: "i < length (tt_threads s) \<Longrightarrow> tt_threads s ! i = Waits \<Longrightarrow> offer_step s (tt_put s i TimedOut)"
| wake: "i < length (tt_threads s) \<Longrightarrow> tt_threads s ! i = Woken \<Longrightarrow> after_wait i False 0 None s = Inr s' \<Longrightarrow> offer_step s s'"
| wake_timed_out: "i < length (tt_threads s) \<Longrightarrow> tt_threads s ! i = TimedOut \<Longrightarrow> tasks < 2 ^ 64 \<Longrightarrow> after_wait i True tasks should_exit s = Inr s' \<Longrightarrow>
    offer_step s s'"

section \<open>Invariant\<close>

definition has_offered :: "offer_pc \<Rightarrow> bool" where
  "has_offered p \<longleftrightarrow> p \<noteq> Works"

text \<open>The counter counts the threads that have offered, the finished ones included.\<close>

definition offer_inv :: "nat \<Rightarrow> TaskTerminator \<Rightarrow> bool" where
  "offer_inv n s \<longleftrightarrow> tt_n_threads s = n \<and> length (tt_threads s) = n \<and> tt_offered_termination s = tally has_offered (tt_threads s)"

lemma has_offered_simps [simp]: "\<not> has_offered Works" "has_offered (Spins d)" "has_offered (SpinChecks d k b)"
  "has_offered Waits" "has_offered Woken" "has_offered TimedOut" "has_offered Finished"
  by (auto simp: has_offered_def)

text \<open>Thread \<open>i\<close> has moved to \<open>p\<close>, and at most some waiting threads were woken.\<close>

definition moved :: "nat \<Rightarrow> offer_pc \<Rightarrow> TaskTerminator \<Rightarrow> TaskTerminator \<Rightarrow> bool" where
  "moved i p s s' \<longleftrightarrow> tt_n_threads s' = tt_n_threads s \<and>
     (\<forall>P :: offer_pc \<Rightarrow> bool. P Waits = P Woken \<longrightarrow> map P (tt_threads s') = (map P (tt_threads s))[i := P p])"

lemma moved_map: "moved i p s s' \<Longrightarrow> (P :: offer_pc \<Rightarrow> bool) Waits = P Woken \<Longrightarrow> map P (tt_threads s') = (map P (tt_threads s))[i := P p]"
  unfolding moved_def by (drule conjunct2, drule spec [of _ P], drule (1) mp)

lemma moved_length: "moved i p s s' \<Longrightarrow> length (tt_threads s') = length (tt_threads s)"
  using moved_map [of i p s s' "\<lambda>_. True"] by (metis length_list_update length_map)

lemma moved_nth:
  assumes "moved i p s s'" "j < length (tt_threads s)" "P Waits = (P Woken :: bool)"
  shows "P (tt_threads s' ! j) = (if j = i then P p else P (tt_threads s ! j))"
  using arg_cong [OF moved_map [OF assms(1), of P], of "\<lambda>l. l ! j"] moved_length [OF assms(1)] assms(2,3) by simp

lemma moved_put: "moved i p s (tt_put s i p)"
  by (simp add: moved_def tt_put_def map_update)

lemma wake_one_simps [simp]: "wake_one Finished = Finished" "wake_one Works = Works"
  by (simp_all add: wake_one_def)

lemma wake_all_map: "P Waits = P Woken \<Longrightarrow> map P (map wake_one ps) = map P ps"
  by (simp add: wake_one_def)

lemma wake_some_map: "P Waits = P Woken \<Longrightarrow> map P (wake_some k ps) = map P ps"
  by (induction k ps rule: wake_some.induct) auto

lemma prepare_ok:
  assumes "0 < tt_offered_termination s"
  shows "\<exists>s'. prepare_for_return i tasks s = Inr s' \<and> tt_n_threads s' = tt_n_threads s \<and> tt_offered_termination s' = tt_offered_termination s \<and>
    (\<forall>P :: offer_pc \<Rightarrow> bool. P Waits = P Woken \<longrightarrow> map P (tt_threads s') = map P (tt_threads s))"
  using assms unfolding prepare_for_return_def by (simp add: Let_def wake_all_def wake_all_map wake_some_map del: map_map)

lemma return_true_ok:
  assumes "0 < tt_offered_termination s"
  shows "\<exists>s'. return_true i s = Inr s' \<and> moved i Finished s s' \<and> tt_offered_termination s' = tt_offered_termination s"
  using prepare_ok [OF assms, of i "2 ^ 64 - 1"]
  by (elim exE conjE) (simp add: return_true_def moved_def wake_all_def tt_put_def wake_all_map map_update del: map_map)

lemma return_false_ok:
  assumes "0 < tt_offered_termination s"
  shows "\<exists>s'. return_false i tasks s = Inr s' \<and> moved i Works s s' \<and> tt_offered_termination s' = tt_offered_termination s - 1"
  using prepare_ok [OF assms, of i tasks]
  by (elim exE conjE) (simp add: return_false_def moved_def wake_all_def tt_put_def wake_all_map map_update del: map_map)

lemma offer_loop_ok: "\<exists>p. moved i p s (offer_loop i s) \<and> has_offered p \<and> p \<noteq> Finished \<and> tt_offered_termination (offer_loop i s) = tt_offered_termination s"
proof (cases "tt_spin_master s")
  case None
  then have "moved i (Spins DelayContext_new) s (offer_loop i s)"
    by (simp add: offer_loop_def moved_def tt_put_def map_update)
  then show ?thesis
    using None by (intro exI [of _ "Spins DelayContext_new"]) (simp add: offer_loop_def tt_put_def)
next
  case (Some j)
  then have "moved i Waits s (offer_loop i s)"
    by (simp add: offer_loop_def moved_put)
  then show ?thesis
    using Some by (intro exI [of _ Waits]) (simp add: offer_loop_def tt_put_def)
qed

lemma offered_tally: "tally has_offered ps = tally (\<lambda>b. b) (map has_offered ps)"
  by (induction ps) simp_all

lemma inv_moved:
  assumes "offer_inv n s" "i < length (tt_threads s)" "moved i p s s'"
    "tt_offered_termination s' + of_bool (has_offered (tt_threads s ! i)) = tt_offered_termination s + of_bool (has_offered p)"
  shows "offer_inv n s'"
proof -
  have "tally has_offered (tt_threads s') + of_bool (has_offered (tt_threads s ! i)) = tally has_offered (tt_threads s) + of_bool (has_offered p)"
    using tally_update [of i "map has_offered (tt_threads s)" "\<lambda>b. b" "has_offered p"] assms(2)
    by (simp add: offered_tally moved_map [OF assms(3), of has_offered])
  then show ?thesis
    using assms moved_length [OF assms(3)] by (auto simp: offer_inv_def moved_def)
qed

lemma offered_pos: "offer_inv n s \<Longrightarrow> i < length (tt_threads s) \<Longrightarrow> tt_threads s ! i \<noteq> Works \<Longrightarrow> 0 < tt_offered_termination s"
  using tally_pos [of i "tt_threads s" has_offered] by (simp add: offer_inv_def has_offered_def)

lemma inv_offered: "offer_inv n s \<Longrightarrow> tt_n_threads s = n \<and> length (tt_threads s) = n \<and> tt_offered_termination s \<le> n"
  using tally_length [of has_offered "tt_threads s"] by (simp add: offer_inv_def)

text \<open>What the sections of the protocol do to a thread.\<close>

lemma offer_start_moves:
  assumes "offer_inv n s" "n \<noteq> 1" "offer_start i s = Inr s'"
  shows "\<exists>p. moved i p s s' \<and> has_offered p \<and> tt_offered_termination s' = tt_offered_termination s + 1 \<and>
    (p = Finished \<longleftrightarrow> tt_offered_termination s + 1 = n)"
proof (cases "tt_offered_termination s + 1 = n")
  case True
  let ?s = "s\<lparr>tt_offered_termination := tt_offered_termination s + 1\<rparr>"
  have "return_true i ?s = Inr s'"
    using assms True by (simp add: offer_start_def offer_inv_def)
  then have "moved i Finished ?s s'" "tt_offered_termination s' = tt_offered_termination s + 1"
    using return_true_ok [of ?s i] by auto
  then show ?thesis
    using True by (intro exI [of _ Finished]) (simp add: moved_def)
next
  case False
  let ?s = "s\<lparr>tt_offered_termination := tt_offered_termination s + 1\<rparr>"
  have "s' = offer_loop i ?s"
    using assms False by (auto simp: offer_start_def offer_inv_def)
  then obtain p where "moved i p ?s s'" "has_offered p" "p \<noteq> Finished" "tt_offered_termination s' = tt_offered_termination s + 1"
    using offer_loop_ok [of i ?s] by auto
  then show ?thesis
    using False by (intro exI [of _ p]) (simp add: moved_def)
qed

lemma returns_true: "0 < tt_offered_termination s \<Longrightarrow> return_true i s = Inr s' \<Longrightarrow> moved i Finished s s' \<and> tt_offered_termination s' = tt_offered_termination s"
  using return_true_ok [of s i] by auto

lemma returns_false: "0 < tt_offered_termination s \<Longrightarrow> return_false i tasks s = Inr s' \<Longrightarrow> moved i Works s s' \<and> tt_offered_termination s' + 1 = tt_offered_termination s"
  using return_false_ok [of s i tasks] by auto

lemma spin_check_moves:
  assumes "offer_inv n s" "0 < tt_offered_termination s" "spin_check i d tasks should_exit s = Inr s'"
  shows "\<exists>p. moved i p s s' \<and> tt_offered_termination s' + 1 = tt_offered_termination s + of_bool (has_offered p) \<and>
    (p = Finished \<longleftrightarrow> tt_offered_termination s = n)"
proof -
  consider (all) "tt_offered_termination s = n" "return_true i s = Inr s'"
    | (exit) "tt_offered_termination s \<noteq> n" "return_false i tasks s = Inr s'"
    | (sleep) "tt_offered_termination s \<noteq> n" "s' = tt_put (s\<lparr>tt_spin_master := None\<rparr>) i Waits"
    | (spin) "tt_offered_termination s \<noteq> n" "s' = tt_put s i (Spins d)"
    using assms(3) inv_offered [OF assms(1)] unfolding spin_check_def
    by (cases "tt_offered_termination s = n"; cases should_exit; cases "needs_sleep d") simp_all
  then show ?thesis
  proof cases
    case all
    then show ?thesis
      using returns_true [OF assms(2)] by (intro exI [of _ Finished]) simp
  next
    case exit
    then show ?thesis
      using returns_false [OF assms(2)] by (intro exI [of _ Works]) simp
  next
    case sleep
    then show ?thesis
      by (intro exI [of _ Waits]) (simp add: moved_def tt_put_def map_update)
  next
    case spin
    then show ?thesis
      using moved_put [of i "Spins d" s] by (intro exI [of _ "Spins d"]) (simp add: tt_put_def)
  qed
qed

lemma after_wait_moves:
  assumes "0 < tt_offered_termination s" "after_wait i timed_out tasks should_exit s = Inr s'"
  shows "\<exists>p. moved i p s s' \<and> tt_offered_termination s' + 1 = tt_offered_termination s + of_bool (has_offered p) \<and>
    (p = Finished \<longleftrightarrow> tt_offered_termination s = 1)"
proof -
  consider (all) "tt_offered_termination s = 1" "return_true i s = Inr s'"
    | (exit) t where "tt_offered_termination s \<noteq> 1" "return_false i t s = Inr s'"
    | (again) "tt_offered_termination s \<noteq> 1" "s' = offer_loop i s"
    using assms(2) unfolding after_wait_def
    by (cases "tt_offered_termination s = 1"; cases timed_out; cases "exit_for_termination tasks should_exit") simp_all
  then show ?thesis
  proof cases
    case all
    then show ?thesis
      using returns_true [OF assms(1)] by (intro exI [of _ Finished]) simp
  next
    case exit
    then show ?thesis
      using returns_false [OF assms(1)] by (intro exI [of _ Works]) simp
  next
    case again
    then show ?thesis
      using offer_loop_ok [of i s] by auto
  qed
qed

text \<open>Every step moves one thread, and says when that thread returns.\<close>

lemma offer_step_moves:
  assumes "offer_step s s'" "offer_inv n s" "n \<noteq> 1"
  shows "\<exists>i p. i < length (tt_threads s) \<and> moved i p s s' \<and> tt_threads s ! i \<noteq> Finished \<and>
    tt_offered_termination s' + of_bool (has_offered (tt_threads s ! i)) = tt_offered_termination s + of_bool (has_offered p) \<and>
    (p = Finished \<longrightarrow> tt_threads s ! i = Works \<and> tt_offered_termination s + 1 = n \<or>
      tt_threads s ! i \<noteq> Works \<and> (tt_offered_termination s = n \<or> tt_offered_termination s = 1))"
  using assms(1)
proof cases
  case (offer i)
  then show ?thesis
    using offer_start_moves [OF assms(2,3), of i s'] by fastforce
next
  case (spin i d tasks should_exit)
  then show ?thesis
    using moved_put [of i "SpinChecks (delay_step d) tasks (exit_for_termination tasks should_exit)" s]
    by (intro exI [of _ i] exI [of _ "SpinChecks (delay_step d) tasks (exit_for_termination tasks should_exit)"]) (simp add: tt_put_def)
next
  case (check i d tasks should_exit)
  then show ?thesis
    using spin_check_moves [OF assms(2) offered_pos [OF assms(2), of i], of i d tasks should_exit s'] by (intro exI [of _ i]) fastforce
next
  case (timeout i)
  then show ?thesis
    using moved_put [of i TimedOut s] by (intro exI [of _ i] exI [of _ TimedOut]) (simp add: tt_put_def)
next
  case (wake i)
  then show ?thesis
    using after_wait_moves [OF offered_pos [OF assms(2), of i], of i False 0 None s'] by (intro exI [of _ i]) fastforce
next
  case (wake_timed_out i tasks should_exit)
  then show ?thesis
    using after_wait_moves [OF offered_pos [OF assms(2), of i], of i True tasks should_exit s'] by (intro exI [of _ i]) fastforce
qed

lemma offer_inv_step: "offer_step s s' \<Longrightarrow> offer_inv n s \<Longrightarrow> n \<noteq> 1 \<Longrightarrow> offer_inv n s'"
  using offer_step_moves inv_moved by blast

lemma offer_inv_new: "offer_inv n (TaskTerminator_new n)"
  by (simp add: offer_inv_def TaskTerminator_new_def)

lemma offer_inv_reach: "offer_step\<^sup>*\<^sup>* (TaskTerminator_new n) s \<Longrightarrow> n \<noteq> 1 \<Longrightarrow> offer_inv n s"
  by (induction rule: rtranclp_induct) (auto intro: offer_inv_new offer_inv_step)

lemma tally_all: "tally P xs = length xs \<Longrightarrow> i < length xs \<Longrightarrow> P (xs ! i)"
  using length_filter_less [of "xs ! i" xs P] by (auto simp: tally_def)

lemma tally_full: "(\<forall>i < length xs. P (xs ! i)) \<Longrightarrow> tally P xs = length xs"
  by (simp add: tally_def flip: all_set_conv_all_nth)

lemma others_offered:
  assumes "length ps = n" "i < n" "tally has_offered ps + of_bool (ps ! i = Works) = n" "j < n" "j \<noteq> i"
  shows "ps ! j \<noteq> Works"
proof -
  have "tally has_offered (ps[i := Finished]) = length (ps[i := Finished])"
    using tally_update [of i ps has_offered Finished] assms by (auto simp: has_offered_def of_bool_def split: if_splits)
  then show ?thesis
    using tally_all [of has_offered "ps[i := Finished]" j] assms by (simp add: has_offered_def)
qed

lemma others_work:
  assumes "i < length ps" "tally has_offered ps = 1" "ps ! i \<noteq> Works" "j < length ps" "j \<noteq> i"
  shows "ps ! j = Works"
proof (rule ccontr)
  assume "ps ! j \<noteq> Works"
  moreover have "tally has_offered (ps[i := Works]) = 0"
    using tally_update [of i ps has_offered Works] assms by (simp add: has_offered_def)
  ultimately show False
    using tally_pos [of j "ps[i := Works]" has_offered] assms by (simp add: has_offered_def)
qed

text \<open>All threads can return.\<close>

lemma moved_trans:
  assumes "moved i p s s1" "moved i q s1 s2"
  shows "moved i q s s2"
  unfolding moved_def
proof (intro conjI allI impI)
  show "tt_n_threads s2 = tt_n_threads s"
    using assms by (simp add: moved_def)
  fix P :: "offer_pc \<Rightarrow> bool"
  assume "P Waits = P Woken"
  then show "map P (tt_threads s2) = (map P (tt_threads s))[i := P q]"
    using moved_map [OF assms(1), of P] moved_map [OF assms(2), of P] by simp
qed

lemma offer_start_Inr: "\<exists>s'. offer_start i s = Inr s'"
  using return_true_ok [of "s\<lparr>tt_offered_termination := tt_offered_termination s + 1\<rparr>" i] by (auto simp: offer_start_def Let_def)

lemma works_returns:
  assumes "offer_inv n s" "n \<noteq> 1" "i < n" "tt_threads s ! i = Works" "tt_offered_termination s + 1 = n"
  shows "\<exists>s'. offer_step s s' \<and> moved i Finished s s'"
proof -
  obtain s' where s': "offer_start i s = Inr s'"
    using offer_start_Inr by blast
  then have "offer_step s s'"
    using offer_step.offer [of i s s'] assms(3,4) inv_offered [OF assms(1)] by simp
  moreover have "moved i Finished s s'"
    using offer_start_moves [OF assms(1,2) s'] assms(5) by auto
  ultimately show ?thesis
    by blast
qed

lemma check_returns:
  assumes "offer_inv n s" "i < n" "tt_threads s ! i = SpinChecks d tasks should_exit" "tt_offered_termination s = n"
  shows "\<exists>s'. offer_step s s' \<and> moved i Finished s s'"
proof -
  have "0 < tt_offered_termination s"
    using assms(2,4) by simp
  then obtain s' where "return_true i s = Inr s'" "moved i Finished s s'"
    using return_true_ok by blast
  then show ?thesis
    using offer_step.check [of i s d tasks should_exit s'] assms inv_offered [OF assms(1)] by (auto simp: spin_check_def)
qed

lemma waiting_returns:
  assumes "offer_inv n s" "n \<noteq> 1" "i < n" "tt_threads s ! i = Woken \<or> tt_threads s ! i = TimedOut" "tt_offered_termination s = n"
  shows "\<exists>s'. offer_step\<^sup>*\<^sup>* s s' \<and> moved i Finished s s'"
proof -
  have "0 < tt_offered_termination s"
    using assms(3,5) by simp
  then obtain s1 s2 where s1: "return_false i 0 s = Inr s1" "moved i Works s s1" "tt_offered_termination s1 + 1 = n"
    and s2: "return_false i 1 s = Inr s2" "moved i Works s s2" "tt_offered_termination s2 + 1 = n"
    using return_false_ok [of s i 0] return_false_ok [of s i 1] assms(5) by auto
  have "\<exists>s'. offer_step s s' \<and> moved i Works s s' \<and> tt_offered_termination s' + 1 = n"
    using assms(4)
  proof
    assume "tt_threads s ! i = Woken"
    then show ?thesis
      using offer_step.wake [of i s s1] s1 assms inv_offered [OF assms(1)] by (auto simp: after_wait_def)
  next
    assume "tt_threads s ! i = TimedOut"
    then show ?thesis
      using offer_step.wake_timed_out [of i s 1 None s2] s2 assms inv_offered [OF assms(1)] by (auto simp: after_wait_def exit_for_termination_def)
  qed
  then obtain u where u: "offer_step s u" "moved i Works s u" "tt_offered_termination u + 1 = n"
    by blast
  have "tt_threads u ! i = Works"
    using moved_nth [OF u(2), of i "\<lambda>p. p = Works"] assms(3) inv_offered [OF assms(1)] by simp
  then obtain s' where "offer_step u s'" "moved i Finished u s'"
    using works_returns [OF offer_inv_step [OF u(1) assms(1,2)] assms(2,3)] u(3) by blast
  then show ?thesis
    using u(1) moved_trans [OF u(2)] by (blast intro: converse_rtranclp_into_rtranclp)
qed

lemma one_returns:
  assumes "offer_inv n s" "n \<noteq> 1" "i < n" "tt_threads s ! i \<notin> {Works, Finished}" "tt_offered_termination s = n"
  shows "\<exists>s'. offer_step\<^sup>*\<^sup>* s s' \<and> moved i Finished s s'"
proof -
  have i: "i < length (tt_threads s)"
    using assms(3) inv_offered [OF assms(1)] by simp
  consider d where "tt_threads s ! i = Spins d" | d k b where "tt_threads s ! i = SpinChecks d k b" | "tt_threads s ! i = Waits"
    | "tt_threads s ! i = Woken \<or> tt_threads s ! i = TimedOut"
    using assms(4) by (cases "tt_threads s ! i") simp_all
  then show ?thesis
  proof cases
    case (1 d)
    let ?u = "tt_put s i (SpinChecks (delay_step d) 0 (exit_for_termination 0 None))"
    have u: "offer_step s ?u" "moved i (SpinChecks (delay_step d) 0 (exit_for_termination 0 None)) s ?u"
      using offer_step.spin [OF i 1] by (auto simp: moved_put)
    then obtain s' where "offer_step ?u s'" "moved i Finished ?u s'"
      using check_returns [OF offer_inv_step [OF u(1) assms(1,2)] assms(3), of "delay_step d" 0 "exit_for_termination 0 None"] assms(5) i by (auto simp: tt_put_def)
    then show ?thesis
      using u(1) moved_trans [OF u(2)] by (blast intro: converse_rtranclp_into_rtranclp)
  next
    case (2 d k b)
    then show ?thesis
      using check_returns [OF assms(1,3) 2 assms(5)] by blast
  next
    case 3
    let ?u = "tt_put s i TimedOut"
    have u: "offer_step s ?u" "moved i TimedOut s ?u"
      using offer_step.timeout [OF i 3] by (auto simp: moved_put)
    then obtain s' where "offer_step\<^sup>*\<^sup>* ?u s'" "moved i Finished ?u s'"
      using waiting_returns [OF offer_inv_step [OF u(1) assms(1,2)] assms(2,3)] assms(5) i by (auto simp: tt_put_def)
    then show ?thesis
      using u(1) moved_trans [OF u(2)] by (blast intro: converse_rtranclp_into_rtranclp)
  next
    case 4
    then show ?thesis
      using waiting_returns assms by blast
  qed
qed

lemma inv_offer_steps: "offer_step\<^sup>*\<^sup>* s s' \<Longrightarrow> offer_inv n s \<Longrightarrow> n \<noteq> 1 \<Longrightarrow> offer_inv n s'"
  by (induction rule: rtranclp_induct) (auto intro: offer_inv_step)

lemma all_offered: "offer_inv n s \<Longrightarrow> tt_offered_termination s = n \<Longrightarrow> i < n \<Longrightarrow> tt_threads s ! i \<noteq> Works"
  using tally_all [of has_offered "tt_threads s" i] by (auto simp: offer_inv_def)

lemma all_return:
  assumes "offer_inv n s" "n \<noteq> 1" "tt_offered_termination s = n"
  shows "\<exists>s'. offer_step\<^sup>*\<^sup>* s s' \<and> (\<forall>i<n. tt_threads s' ! i = Finished)"
  using assms(1,3)
proof (induction "card {i. i < n \<and> tt_threads s ! i \<noteq> Finished}" arbitrary: s rule: less_induct)
  case less
  show ?case
  proof (cases "\<exists>i<n. tt_threads s ! i \<noteq> Finished")
    case True
    then obtain i where i: "i < n" "tt_threads s ! i \<noteq> Finished"
      by blast
    have len: "length (tt_threads s) = n"
      using inv_offered [OF less.prems(1)] by simp
    obtain u where u: "offer_step\<^sup>*\<^sup>* s u" "moved i Finished s u"
      using one_returns [OF less.prems(1) assms(2) i(1) _ less.prems(2)] all_offered [OF less.prems i(1)] i(2) by blast
    have inv: "offer_inv n u"
      using inv_offer_steps [OF u(1) less.prems(1) assms(2)] .
    have fin: "j < n \<Longrightarrow> tt_threads u ! j \<noteq> Finished \<longleftrightarrow> j \<noteq> i \<and> tt_threads s ! j \<noteq> Finished" for j
      using moved_nth [OF u(2), of j "\<lambda>p. p = Finished"] len by auto
    have "j < n \<Longrightarrow> has_offered (tt_threads u ! j)" for j
      using moved_nth [OF u(2), of j has_offered] len all_offered [OF less.prems, of j] by (auto simp: has_offered_def)
    then have "tt_offered_termination u = n"
      using inv tally_full [of "tt_threads u" has_offered] by (simp add: offer_inv_def)
    moreover have "{j. j < n \<and> tt_threads u ! j \<noteq> Finished} \<subset> {j. j < n \<and> tt_threads s ! j \<noteq> Finished}"
      using fin i by blast
    ultimately show ?thesis
      using less.hyps [of u] inv u(1) psubset_card_mono [of "{j. j < n \<and> tt_threads s ! j \<noteq> Finished}"] by (auto intro: rtranclp_trans)
  qed blast
qed

lemma all_offer:
  assumes "offer_inv n s" "n \<noteq> 1"
  shows "\<exists>s'. offer_step\<^sup>*\<^sup>* s s' \<and> offer_inv n s' \<and> tt_offered_termination s' = n"
  using assms(1)
proof (induction "n - tt_offered_termination s" arbitrary: s rule: less_induct)
  case less
  show ?case
  proof (cases "tt_offered_termination s = n")
    case False
    then have "tally has_offered (tt_threads s) \<noteq> length (tt_threads s)"
      using less.prems by (simp add: offer_inv_def)
    then obtain i where i: "i < length (tt_threads s)" "tt_threads s ! i = Works"
      using tally_full [of "tt_threads s" has_offered] unfolding has_offered_def by blast
    obtain u where u: "offer_start i s = Inr u"
      using offer_start_Inr by blast
    have step: "offer_step s u"
      using offer_step.offer [OF i u] .
    have inv: "offer_inv n u"
      using offer_inv_step [OF step less.prems assms(2)] .
    have "tt_offered_termination u = tt_offered_termination s + 1"
      using offer_start_moves [OF less.prems assms(2) u] by blast
    then have "n - tt_offered_termination u < n - tt_offered_termination s"
      using inv_offered [OF less.prems] False by linarith
    then show ?thesis
      using less.hyps [of u] inv step by (blast intro: converse_rtranclp_into_rtranclp)
  qed (use less.prems in blast)
qed

text \<open>C18. When a thread returns from \<open>offer_termination\<close> with true, either no other thread is at work, or every other thread is: the
  protocol ends for the thread when all have offered, and also when it is the only one that has.
\<close>

theorem offer_termination_exact:
  assumes "offer_step\<^sup>*\<^sup>* (TaskTerminator_new n) s" "offer_step s s'" "i < n" "tt_threads s ! i \<noteq> Finished" "tt_threads s' ! i = Finished"
  shows "(\<forall>j<n. j \<noteq> i \<longrightarrow> tt_threads s ! j \<noteq> Works) \<or> (\<forall>j<n. j \<noteq> i \<longrightarrow> tt_threads s ! j = Works)"
proof (cases "n = 1")
  case False
  have inv: "offer_inv n s"
    using offer_inv_reach assms(1) False by blast
  then have len: "length (tt_threads s) = n" and count: "tt_offered_termination s = tally has_offered (tt_threads s)"
    by (simp_all add: offer_inv_def)
  obtain k p where step: "moved k p s s'" "p = Finished \<longrightarrow> tt_threads s ! k = Works \<and> tt_offered_termination s + 1 = n \<or>
      tt_threads s ! k \<noteq> Works \<and> (tt_offered_termination s = n \<or> tt_offered_termination s = 1)"
    using offer_step_moves [OF assms(2) inv False] by blast
  have k: "k = i \<and> p = Finished"
    using moved_nth [OF step(1), of i "\<lambda>p. p = Finished"] assms(3-5) len by (auto split: if_splits)
  show ?thesis
  proof (cases "tt_threads s ! i \<noteq> Works \<and> tt_offered_termination s = 1")
    case True
    then show ?thesis
      using others_work [of i "tt_threads s"] len count assms(3) by simp
  next
    case False
    then have "tally has_offered (tt_threads s) + of_bool (tt_threads s ! i = Works) = n"
      using step(2) k count by auto
    then show ?thesis
      using others_offered [OF len assms(3)] by blast
  qed
qed simp

text \<open>Three threads, of which thread 1 offers first and counts the tasks of the queues.\<close>

definition three :: "nat \<Rightarrow> nat option \<Rightarrow> offer_pc list \<Rightarrow> TaskTerminator" where
  "three offered spin_master ps = \<lparr>tt_n_threads = 3, tt_offered_termination = offered, tt_spin_master = spin_master, tt_threads = ps\<rparr>"

lemmas three_defs = three_def tt_put_def offer_start_def offer_loop_def spin_check_def after_wait_def return_true_def return_false_def
  prepare_for_return_def wake_all_def wake_one_def

lemma three_woken:
  "offer_step\<^sup>*\<^sup>* (TaskTerminator_new 3) (three 1 None [Woken, Works, Works])"
proof -
  note step = rtranclp.rtrancl_into_rtrancl [of offer_step "TaskTerminator_new 3"]
  note [simp] = three_defs
  let ?d = DelayContext_new
  have "offer_step\<^sup>*\<^sup>* (TaskTerminator_new 3) (three 0 None [Works, Works, Works])"
    by (simp add: TaskTerminator_new_def numeral_3_eq_3)
  then have "offer_step\<^sup>*\<^sup>* (TaskTerminator_new 3) (three 1 (Some 1) [Works, Spins ?d, Works])"
    by (rule step) (rule offer_step.offer [of 1], simp_all)
  then have "offer_step\<^sup>*\<^sup>* (TaskTerminator_new 3) (three 2 (Some 1) [Waits, Spins ?d, Works])"
    by (rule step) (rule offer_step.offer [of 0], simp_all)
  then have "offer_step\<^sup>*\<^sup>* (TaskTerminator_new 3) (three 2 (Some 1) [Waits, SpinChecks (delay_step ?d) 5 True, Works])"
    by (rule step) (use offer_step.spin [of 1 "three 2 (Some 1) [Waits, Spins ?d, Works]" ?d 5 None] in \<open>simp add: exit_for_termination_def\<close>)
  then show ?thesis
    by (rule step) (rule offer_step.check [of 1 _ "delay_step ?d" 5 True], simp_all add: Let_def)
qed

lemma three_returns: "offer_step (three 1 None [Woken, Works, Works]) (three 1 None [Finished, Works, Works])"
  by (rule offer_step.wake [of 0]) (simp_all add: three_defs)

theorem offer_termination_exact_witness: "[Woken, Works, Works] ! 1 = Works"
  using offer_termination_exact [OF three_woken three_returns, of 0] by (simp add: three_def All_less_Suc numeral_3_eq_3)

text \<open>
  A thread that is woken because there are tasks again can return with true, while all others are at work.
\<close>

theorem offer_termination_early: "\<exists>s. offer_step\<^sup>*\<^sup>* (TaskTerminator_new 3) s \<and> tt_threads s = [Finished, Works, Works]"
  using three_woken three_returns by (intro exI [of _ "three 1 None [Finished, Works, Works]"]) (simp add: three_def)

text \<open>
  The protocol never blocks: from every state of two or more threads they can go on until all have returned with true.
\<close>

theorem offer_termination_returns:
  assumes "offer_step\<^sup>*\<^sup>* (TaskTerminator_new n) s" "n \<noteq> 1"
  shows "\<exists>s'. offer_step\<^sup>*\<^sup>* s s' \<and> (\<forall>i<n. tt_threads s' ! i = Finished)"
  using all_offer [OF offer_inv_reach [OF assms] assms(2)] all_return [OF _ assms(2)] by (blast intro: rtranclp_trans)

theorem offer_termination_returns_witness:
  "\<exists>s'. offer_step\<^sup>*\<^sup>* (three 1 None [Woken, Works, Works]) s' \<and> tt_threads s' ! 0 = Finished \<and> tt_threads s' ! 1 = Finished \<and> tt_threads s' ! 2 = Finished"
  using offer_termination_returns [OF three_woken] by (auto simp: All_less_Suc numeral_3_eq_3 numeral_2_eq_2)

end
