(* ===== verification/SingleWriter.thy ===== *)
theory SingleWriter
  imports Prelude
begin

text \<open>
  The single-writer synchronizer of \<open>sync/single_writer.rs\<close>: readers enter and leave critical sections, and one writer waits until all
  sections that were open when it called \<open>synchronize\<close> are closed. The lowest bit of the entry counter, its polarity, chooses one of two exit
  counters; the writer flips it. The counters wrap, as they do in a build without overflow checks (with them, the additions of \<open>enter\<close>, \<open>exit\<close>
  and \<open>synchronize\<close> panic at the wrap, after \<open>2 ^ 63\<close> sections); a semaphore is a counter that \<open>wait\<close> needs to be positive.
\<close>

section \<open>Steps\<close>

text \<open>A reader outside, in a critical section with its entry value, before it compares its exit value, and before it signals.\<close>

datatype reader_pc = Outside | Inside u64 | Compares u64 | WillSignal

text \<open>The writer outside; in \<open>synchronize\<close> with the entry counter it read and the index of the new exit counter; with that counter set; with
  the polarity flipped, \<open>old\<close> being the entry counter before; about to test the old exit counter; waiting; with the test passed.\<close>

datatype writer_pc = NoSync | Loaded u64 bool | Stored u64 bool | Flipped u64 | Tests u64 | Sleeps u64 | Drains

text \<open>\<open>sw_before\<close> records the readers that are still in the section in which \<open>synchronize\<close> found them.\<close>

record SingleWriterSynchronizer =
  sw_enter :: u64
  sw_exit :: "bool \<Rightarrow> u64"
  sw_waiting_for :: u64
  sw_wakeup :: nat
  sw_readers :: "reader_pc list"
  sw_writer :: writer_pc
  sw_before :: "nat set"

definition sw_new :: "nat \<Rightarrow> SingleWriterSynchronizer" where
  "sw_new n = \<lparr>sw_enter = 0, sw_exit = (\<lambda>_. 0), sw_waiting_for = 1, sw_wakeup = 0, sw_readers = replicate n Outside, sw_writer = NoSync, sw_before = {}\<rparr>"

definition polarity :: "u64 \<Rightarrow> bool" where
  "polarity v \<longleftrightarrow> v AND 1 = 1"

definition sw_put :: "SingleWriterSynchronizer \<Rightarrow> nat \<Rightarrow> reader_pc \<Rightarrow> SingleWriterSynchronizer" where
  "sw_put s i p = s\<lparr>sw_readers := (sw_readers s)[i := p]\<rparr>"

definition section_enter :: "nat \<Rightarrow> SingleWriterSynchronizer \<Rightarrow> SingleWriterSynchronizer" where
  "section_enter i s = (let v = sw_enter s + 2 in (sw_put s i (Inside v))\<lparr>sw_enter := v\<rparr>)"

definition section_exit :: "nat \<Rightarrow> u64 \<Rightarrow> SingleWriterSynchronizer \<Rightarrow> SingleWriterSynchronizer" where
  "section_exit i enter_value s = (let v = sw_exit s (polarity enter_value) + 2 in
     (sw_put s i (Compares v))\<lparr>sw_exit := (sw_exit s)(polarity enter_value := v), sw_before := sw_before s - {i}\<rparr>)"

definition sync_load :: "SingleWriterSynchronizer \<Rightarrow> SingleWriterSynchronizer" where
  "sync_load s = s\<lparr>sw_writer := Loaded (sw_enter s) (polarity (sw_enter s + 1)), sw_before := {i. i < length (sw_readers s) \<and> (\<exists>v. sw_readers s ! i = Inside v)}\<rparr>"

definition sync_store :: "u64 \<Rightarrow> bool \<Rightarrow> SingleWriterSynchronizer \<Rightarrow> SingleWriterSynchronizer" where
  "sync_store v new s = s\<lparr>sw_writer := Stored v new, sw_exit := (sw_exit s)(new := v + 1)\<rparr>"

definition sync_flip :: "bool \<Rightarrow> u64 \<Rightarrow> bool \<Rightarrow> SingleWriterSynchronizer \<Rightarrow> SingleWriterSynchronizer" where
  "sync_flip spurious v new s =
     (if sw_enter s = v \<and> \<not> spurious then s\<lparr>sw_writer := Flipped v, sw_enter := v + 1\<rparr> else s\<lparr>sw_writer := Loaded (sw_enter s) new\<rparr>)"

definition sync_test :: "u64 \<Rightarrow> SingleWriterSynchronizer \<Rightarrow> SingleWriterSynchronizer" where
  "sync_test old s = s\<lparr>sw_writer := if old \<noteq> sw_exit s (polarity old) then Sleeps old else Drains\<rparr>"

definition sync_drain :: "SingleWriterSynchronizer \<Rightarrow> SingleWriterSynchronizer" where
  "sync_drain s = (if 0 < sw_wakeup s then s\<lparr>sw_wakeup := sw_wakeup s - 1\<rparr> else s\<lparr>sw_writer := NoSync\<rparr>)"

inductive sw_step :: "SingleWriterSynchronizer \<Rightarrow> SingleWriterSynchronizer \<Rightarrow> bool" where
  enter: "i < length (sw_readers s) \<Longrightarrow> sw_readers s ! i = Outside \<Longrightarrow> sw_step s (section_enter i s)"
| exit: "i < length (sw_readers s) \<Longrightarrow> sw_readers s ! i = Inside v \<Longrightarrow> sw_step s (section_exit i v s)"
| compare: "i < length (sw_readers s) \<Longrightarrow> sw_readers s ! i = Compares v \<Longrightarrow>
    sw_step s (sw_put s i (if v = sw_waiting_for s then WillSignal else Outside))"
| signal: "i < length (sw_readers s) \<Longrightarrow> sw_readers s ! i = WillSignal \<Longrightarrow> sw_step s ((sw_put s i Outside)\<lparr>sw_wakeup := sw_wakeup s + 1\<rparr>)"
| synchronize: "sw_writer s = NoSync \<Longrightarrow> sw_step s (sync_load s)"
| store: "sw_writer s = Loaded v new \<Longrightarrow> sw_step s (sync_store v new s)"
| flip: "sw_writer s = Stored v new \<Longrightarrow> sw_step s (sync_flip spurious v new s)"
| wait_for: "sw_writer s = Flipped old \<Longrightarrow> sw_step s (s\<lparr>sw_writer := Tests old, sw_waiting_for := old\<rparr>)"
| test: "sw_writer s = Tests old \<Longrightarrow> sw_step s (sync_test old s)"
| sleep: "sw_writer s = Sleeps old \<Longrightarrow> 0 < sw_wakeup s \<Longrightarrow> sw_step s (s\<lparr>sw_writer := Tests old, sw_wakeup := sw_wakeup s - 1\<rparr>)"
| drain: "sw_writer s = Drains \<Longrightarrow> sw_step s (sync_drain s)"

section \<open>Invariant\<close>

fun inside :: "bool \<Rightarrow> reader_pc \<Rightarrow> bool" where
  "inside q (Inside v) \<longleftrightarrow> polarity v = q"
| "inside q _ = False"

text \<open>The open sections of polarity \<open>q\<close>.\<close>

abbreviation open_sections :: "SingleWriterSynchronizer \<Rightarrow> bool \<Rightarrow> nat" where
  "open_sections s q \<equiv> tally (inside q) (sw_readers s)"

definition counts :: "SingleWriterSynchronizer \<Rightarrow> bool \<Rightarrow> u64 \<Rightarrow> bool" where
  "counts s q v \<longleftrightarrow> sw_exit s q + 2 * of_nat (open_sections s q) = v"

text \<open>The polarity that the readers found by \<open>synchronize\<close> have, and the value their exit counter must reach.\<close>

fun old_enter :: "writer_pc \<Rightarrow> u64 option" where
  "old_enter (Flipped old) = Some old"
| "old_enter (Tests old) = Some old"
| "old_enter (Sleeps old) = Some old"
| "old_enter _ = None"

fun waits_for :: "writer_pc \<Rightarrow> u64 option" where
  "waits_for (Tests old) = Some old"
| "waits_for (Sleeps old) = Some old"
| "waits_for _ = None"

fun loaded :: "writer_pc \<Rightarrow> (u64 \<times> bool) option" where
  "loaded (Loaded v new) = Some (v, new)"
| "loaded (Stored v new) = Some (v, new)"
| "loaded _ = None"

definition will_wake :: "SingleWriterSynchronizer \<Rightarrow> u64 \<Rightarrow> bool" where
  "will_wake s old \<longleftrightarrow> 0 < sw_wakeup s \<or> WillSignal \<in> set (sw_readers s) \<or> Compares old \<in> set (sw_readers s)"

definition count_inv :: "SingleWriterSynchronizer \<Rightarrow> bool" where
  "count_inv s \<longleftrightarrow> (let p = polarity (sw_enter s) in
     counts s p (sw_enter s) \<and>
     (case old_enter (sw_writer s) of None \<Rightarrow> open_sections s (\<not> p) = 0 | Some old \<Rightarrow> polarity old = (\<not> p) \<and> counts s (\<not> p) old) \<and>
     (case loaded (sw_writer s) of None \<Rightarrow> True | Some (v, new) \<Rightarrow> new = (\<not> p) \<and> polarity v = p))"

definition writer_inv :: "SingleWriterSynchronizer \<Rightarrow> bool" where
  "writer_inv s \<longleftrightarrow> (case sw_writer s of Stored v new \<Rightarrow> sw_exit s new = v + 1 | Tests old \<Rightarrow> sw_waiting_for s = old
     | Sleeps old \<Rightarrow> sw_waiting_for s = old \<and> (0 < open_sections s (polarity old) \<or> will_wake s old) | _ \<Rightarrow> True)"

definition before_polarity :: "SingleWriterSynchronizer \<Rightarrow> bool option" where
  "before_polarity s = (if loaded (sw_writer s) \<noteq> None then Some (polarity (sw_enter s))
     else if old_enter (sw_writer s) \<noteq> None then Some (\<not> polarity (sw_enter s)) else None)"

definition before_inv :: "SingleWriterSynchronizer \<Rightarrow> bool" where
  "before_inv s \<longleftrightarrow> (case before_polarity s of None \<Rightarrow> sw_before s = {}
     | Some q \<Rightarrow> (\<forall>i \<in> sw_before s. i < length (sw_readers s) \<and> inside q (sw_readers s ! i)))"

definition sw_inv :: "SingleWriterSynchronizer \<Rightarrow> bool" where
  "sw_inv s \<longleftrightarrow> count_inv s \<and> writer_inv s \<and> before_inv s"

lemma polarity_odd: "polarity v \<longleftrightarrow> odd v"
  by (simp add: polarity_def and_one_eq odd_iff_mod_2_eq_one)

lemma polarity_add [simp]: "polarity (v + 1) \<longleftrightarrow> \<not> polarity v" "polarity (v + 2) = polarity v"
  by (simp_all add: polarity_odd)

lemma sections_put:
  "i < length (sw_readers s) \<Longrightarrow> tally (inside q) ((sw_readers s)[i := r]) + of_bool (inside q (sw_readers s ! i)) = open_sections s q + of_bool (inside q r)"
  using tally_update [of i "sw_readers s" "inside q" r] by simp

lemma sw_inv_new: "sw_inv (sw_new n)"
  by (simp add: sw_inv_def count_inv_def writer_inv_def before_inv_def before_polarity_def sw_new_def counts_def)

text \<open>Readers.\<close>

lemma mem_update: "x \<in> set xs \<Longrightarrow> xs ! i \<noteq> x \<Longrightarrow> x \<in> set (xs[i := y])"
  by (metis in_set_conv_nth length_list_update nth_list_update_neq)

lemma will_wake_put:
  "will_wake s old \<Longrightarrow> sw_readers s ! i \<noteq> WillSignal \<Longrightarrow> sw_readers s ! i \<noteq> Compares old \<Longrightarrow> sw_readers u = (sw_readers s)[i := r] \<Longrightarrow>
   sw_wakeup s \<le> sw_wakeup u \<Longrightarrow> will_wake u old"
  unfolding will_wake_def by (auto intro: mem_update)

lemma inv_enter:
  assumes "sw_inv s" "i < length (sw_readers s)" "sw_readers s ! i = Outside"
  shows "sw_inv (section_enter i s)"
proof -
  let ?v = "sw_enter s + 2"
  have open_same: "tally (inside q) ((sw_readers s)[i := Inside ?v]) = open_sections s q + of_bool (polarity (sw_enter s) = q)" for q
    using sections_put [of i s q "Inside ?v"] assms by simp
  have "count_inv (section_enter i s)"
    using assms(1) unfolding sw_inv_def count_inv_def counts_def section_enter_def sw_put_def Let_def
    by (auto simp: open_same algebra_simps split: option.splits)
  moreover have "writer_inv (section_enter i s)"
    using assms will_wake_put [of s _ i "section_enter i s" "Inside ?v"] unfolding sw_inv_def writer_inv_def section_enter_def sw_put_def Let_def
    by (auto simp: open_same split: writer_pc.splits)
  moreover have "before_inv (section_enter i s)"
    using assms unfolding sw_inv_def before_inv_def before_polarity_def section_enter_def sw_put_def Let_def
    by (auto simp: nth_list_update split: option.splits if_splits)
  ultimately show ?thesis
    by (simp add: sw_inv_def)
qed

lemma counts_exit: "counts s q v \<Longrightarrow> open_sections s q = Suc k \<Longrightarrow> sw_exit s q + 2 + 2 * of_nat k = v"
  by (simp add: counts_def algebra_simps)

lemma inv_exit:
  assumes "sw_inv s" "i < length (sw_readers s)" "sw_readers s ! i = Inside v"
  shows "sw_inv (section_exit i v s)"
proof -
  let ?q = "polarity v" and ?x = "sw_exit s (polarity v) + 2" and ?s = "section_exit i v s"
  have less: "tally (inside q) ((sw_readers s)[i := Compares ?x]) + of_bool (polarity v = q) = open_sections s q" for q
    using sections_put [of i s q "Compares ?x"] assms by simp
  have c: "counts s q w \<Longrightarrow> counts ?s q w" for q w
    by (auto simp: counts_def section_exit_def sw_put_def Let_def less [of q, symmetric] algebra_simps)
  have "open_sections ?s q \<le> open_sections s q" for q
    using less [of q] unfolding section_exit_def sw_put_def Let_def by simp
  then have z: "open_sections s q = 0 \<Longrightarrow> open_sections ?s q = 0" for q
    by (metis le_zero_eq)
  have fields: "sw_enter ?s = sw_enter s" "sw_writer ?s = sw_writer s" "sw_waiting_for ?s = sw_waiting_for s" "sw_before ?s = sw_before s - {i}"
    "sw_wakeup ?s = sw_wakeup s" "sw_readers ?s = (sw_readers s)[i := Compares ?x]"
    by (simp_all add: section_exit_def sw_put_def Let_def)
  have "count_inv ?s"
    using assms(1) c z unfolding sw_inv_def count_inv_def Let_def by (auto simp: fields split: option.splits)
  moreover have "writer_inv ?s"
  proof (cases "sw_writer s")
    case (Stored w new)
    then have "sw_exit s new = w + 1" "open_sections s new = 0"
      using assms(1) by (auto simp: sw_inv_def writer_inv_def count_inv_def Let_def)
    moreover have "polarity v \<noteq> new"
      using tally_pos [of i "sw_readers s" "inside new"] assms(2,3) calculation(2) by auto
    ultimately show ?thesis
      using Stored by (simp add: writer_inv_def section_exit_def sw_put_def Let_def)
  next
    case (Sleeps old)
    then have w: "sw_waiting_for s = old" "0 < open_sections s (polarity old) \<or> will_wake s old" "counts ?s (polarity old) old"
      using assms(1) c [of "polarity old" old] by (auto simp: sw_inv_def writer_inv_def count_inv_def Let_def)
    have "0 < open_sections ?s (polarity old) \<or> will_wake ?s old"
    proof (cases "will_wake s old")
      case True
      then show ?thesis
        using will_wake_put [of s old i ?s] assms(3) by (simp add: fields)
    next
      case False
      show ?thesis
      proof (cases "polarity v = polarity old \<and> open_sections ?s (polarity old) = 0")
        case True
        then have "sw_exit ?s (polarity old) = old"
          using w(3) by (simp only: counts_def) simp
        then have "?x = old"
          using True by (simp add: section_exit_def sw_put_def Let_def)
        then show ?thesis
          using assms(2) by (auto simp: will_wake_def fields intro!: set_update_memI)
      next
        case not_last: False
        then show ?thesis
          using w(2) False less [of "polarity old"] by (auto simp: fields)
      qed
    qed
    then show ?thesis
      using Sleeps w(1) by (simp add: writer_inv_def fields)
  qed (use assms(1) in \<open>auto simp: sw_inv_def writer_inv_def fields\<close>)
  moreover have "before_inv ?s"
    using assms unfolding sw_inv_def before_inv_def before_polarity_def by (auto simp: fields nth_list_update split: option.splits if_splits)
  ultimately show ?thesis
    by (simp add: sw_inv_def)
qed

lemma inv_reader:
  assumes "sw_inv s" "i < length (sw_readers s)" "\<And>q. \<not> inside q (sw_readers s ! i)" "\<And>q. \<not> inside q r" "sw_wakeup s \<le> k"
    "\<And>old. sw_writer s = Sleeps old \<Longrightarrow> will_wake s old \<Longrightarrow> will_wake ((sw_put s i r)\<lparr>sw_wakeup := k\<rparr>) old"
  shows "sw_inv ((sw_put s i r)\<lparr>sw_wakeup := k\<rparr>)"
proof -
  let ?s = "(sw_put s i r)\<lparr>sw_wakeup := k\<rparr>"
  have same: "tally (inside q) ((sw_readers s)[i := r]) = open_sections s q" for q
    using sections_put [of i s q r] assms(2-4) by simp
  have "count_inv ?s"
    using assms(1) unfolding sw_inv_def count_inv_def counts_def Let_def by (auto simp: sw_put_def same split: option.splits)
  moreover have "writer_inv ?s"
    using assms(1,6) unfolding sw_inv_def writer_inv_def by (auto simp: sw_put_def same split: writer_pc.splits)
  moreover have "before_inv ?s"
    using assms(1,3) unfolding sw_inv_def before_inv_def before_polarity_def
    by (auto simp: sw_put_def split: option.splits if_splits) (metis nth_list_update_neq)+
  ultimately show ?thesis
    by (simp add: sw_inv_def)
qed

lemma inv_compare:
  assumes "sw_inv s" "i < length (sw_readers s)" "sw_readers s ! i = Compares v"
  shows "sw_inv (sw_put s i (if v = sw_waiting_for s then WillSignal else Outside))"
proof -
  let ?r = "if v = sw_waiting_for s then WillSignal else Outside"
  have w: "sw_writer s = Sleeps old \<Longrightarrow> sw_waiting_for s = old" for old
    using assms(1) by (auto simp: sw_inv_def writer_inv_def)
  have "will_wake ((sw_put s i ?r)\<lparr>sw_wakeup := sw_wakeup s\<rparr>) old" if "sw_writer s = Sleeps old" "will_wake s old" for old
    using that w [OF that(1)] assms(2,3) by (auto simp: will_wake_def sw_put_def intro: mem_update set_update_memI)
  then have "sw_inv ((sw_put s i ?r)\<lparr>sw_wakeup := sw_wakeup s\<rparr>)"
    using assms by (intro inv_reader) auto
  then show ?thesis
    by (simp add: sw_put_def)
qed

lemma inv_signal:
  assumes "sw_inv s" "i < length (sw_readers s)" "sw_readers s ! i = WillSignal"
  shows "sw_inv ((sw_put s i Outside)\<lparr>sw_wakeup := sw_wakeup s + 1\<rparr>)"
  using assms by (intro inv_reader) (auto simp: will_wake_def)

text \<open>The writer.\<close>

lemma inv_synchronize:
  assumes "sw_inv s" "sw_writer s = NoSync"
  shows "sw_inv (sync_load s)"
proof -
  have none: "open_sections s (\<not> polarity (sw_enter s)) = 0"
    using assms by (simp add: sw_inv_def count_inv_def Let_def)
  have "polarity v = polarity (sw_enter s)" if "i < length (sw_readers s)" "sw_readers s ! i = Inside v" for i v
  proof (rule ccontr)
    assume "polarity v \<noteq> polarity (sw_enter s)"
    then have "inside (\<not> polarity (sw_enter s)) (sw_readers s ! i)"
      using that(2) by simp
    then show False
      using tally_pos [OF that(1), of "inside (\<not> polarity (sw_enter s))"] none by simp
  qed
  then show ?thesis
    using assms by (auto simp: sw_inv_def count_inv_def writer_inv_def before_inv_def before_polarity_def sync_load_def counts_def Let_def)
qed

lemma inv_store:
  assumes "sw_inv s" "sw_writer s = Loaded v new"
  shows "sw_inv (sync_store v new s)"
  using assms by (auto simp: sw_inv_def count_inv_def writer_inv_def before_inv_def before_polarity_def sync_store_def counts_def Let_def)

lemma inv_flip:
  assumes "sw_inv s" "sw_writer s = Stored v new"
  shows "sw_inv (sync_flip spurious v new s)"
proof (cases "sw_enter s = v \<and> \<not> spurious")
  case True
  have "count_inv s" "sw_exit s new = v + 1" "before_inv s"
    using assms by (auto simp: sw_inv_def writer_inv_def)
  then show ?thesis
    using True assms(2) by (simp add: sw_inv_def count_inv_def writer_inv_def before_inv_def before_polarity_def sync_flip_def counts_def Let_def)
next
  case False
  then have "sync_flip spurious v new s = s\<lparr>sw_writer := Loaded (sw_enter s) new\<rparr>"
    by (simp only: sync_flip_def if_False)
  then show ?thesis
    using assms by (simp add: sw_inv_def count_inv_def writer_inv_def before_inv_def before_polarity_def counts_def Let_def)
qed

lemma inv_wait_for:
  assumes "sw_inv s" "sw_writer s = Flipped old"
  shows "sw_inv (s\<lparr>sw_writer := Tests old, sw_waiting_for := old\<rparr>)"
  using assms by (auto simp: sw_inv_def count_inv_def writer_inv_def before_inv_def before_polarity_def counts_def Let_def)

lemma twice_zero:
  assumes "n < 2 ^ 63"
  shows "2 * (of_nat n :: u64) = 0 \<longleftrightarrow> n = 0"
proof (cases n)
  case (Suc k)
  have "\<not> 2 ^ LENGTH(64) dvd 2 * n"
    by (rule nat_dvd_not_less) (use assms Suc in simp_all)
  then have "(of_nat (2 * n) :: u64) \<noteq> 0"
    unfolding word_of_nat_eq_0_iff .
  moreover have "(of_nat (2 * n) :: u64) = 2 * of_nat n"
    unfolding of_nat_mult by (rule arg_cong [of _ _ "\<lambda>k. k * of_nat n"]) (rule of_nat_numeral)
  ultimately have "2 * (of_nat n :: u64) \<noteq> 0"
    by argo
  then show ?thesis
    using Suc by (metis nat.distinct(1))
qed simp

lemma test_exact:
  assumes "sw_inv s" "sw_writer s = Tests old" "length (sw_readers s) < 2 ^ 63"
  shows "old = sw_exit s (polarity old) \<longleftrightarrow> open_sections s (polarity old) = 0"
proof -
  have "counts s (polarity old) old"
    using assms(1,2) by (auto simp: sw_inv_def count_inv_def Let_def)
  then have "sw_exit s (polarity old) + 2 * of_nat (open_sections s (polarity old)) = old"
    by (simp only: counts_def)
  moreover have "open_sections s (polarity old) < 2 ^ 63"
    using tally_length [of "inside (polarity old)" "sw_readers s"] assms(3) by linarith
  ultimately show ?thesis
    using twice_zero [of "open_sections s (polarity old)"] by (metis add_cancel_left_right)
qed

lemma inv_test:
  assumes "sw_inv s" "sw_writer s = Tests old" "length (sw_readers s) < 2 ^ 63"
  shows "sw_inv (sync_test old s)"
proof -
  have old: "sw_waiting_for s = old" "polarity old = (\<not> polarity (sw_enter s))"
    using assms(1,2) by (auto simp: sw_inv_def writer_inv_def count_inv_def Let_def)
  note inv = assms(1) [unfolded sw_inv_def]
  show ?thesis
  proof (cases "open_sections s (polarity old) = 0")
    case True
    have before: "i \<in> sw_before s \<Longrightarrow> i < length (sw_readers s) \<and> inside (polarity old) (sw_readers s ! i)" for i
      using inv assms(2) old(2) by (simp add: before_inv_def before_polarity_def)
    have "sw_before s = {}"
      using before tally_pos [of _ "sw_readers s" "inside (polarity old)"] True by fastforce
    moreover have "old = sw_exit s (polarity old)"
      using test_exact [OF assms] True by blast
    ultimately show ?thesis
      using inv assms(2) True old(2)
      by (simp add: sync_test_def sw_inv_def count_inv_def writer_inv_def before_inv_def before_polarity_def counts_def Let_def)
  next
    case False
    then have "old \<noteq> sw_exit s (polarity old)"
      using test_exact [OF assms] by simp
    then show ?thesis
      using inv assms(2) False old
      by (simp add: sync_test_def sw_inv_def count_inv_def writer_inv_def before_inv_def before_polarity_def counts_def Let_def)
  qed
qed

lemma inv_sleep:
  assumes "sw_inv s" "sw_writer s = Sleeps old"
  shows "sw_inv (s\<lparr>sw_writer := Tests old, sw_wakeup := k\<rparr>)"
  using assms by (auto simp: sw_inv_def count_inv_def writer_inv_def before_inv_def before_polarity_def counts_def Let_def)

lemma inv_drain:
  assumes "sw_inv s" "sw_writer s = Drains"
  shows "sw_inv (sync_drain s)"
  using assms by (auto simp: sync_drain_def sw_inv_def count_inv_def writer_inv_def before_inv_def before_polarity_def counts_def Let_def)

lemma sw_inv_step: "sw_step s s' \<Longrightarrow> sw_inv s \<Longrightarrow> length (sw_readers s) < 2 ^ 63 \<Longrightarrow> sw_inv s'"
  by (induction rule: sw_step.induct)
     (simp_all only: inv_enter inv_exit inv_compare inv_signal inv_synchronize inv_store inv_flip inv_wait_for inv_test inv_sleep inv_drain)

lemma sw_step_readers: "sw_step s s' \<Longrightarrow> length (sw_readers s') = length (sw_readers s)"
  by (induction rule: sw_step.induct)
     (auto simp: section_enter_def section_exit_def sw_put_def sync_load_def sync_store_def sync_flip_def sync_test_def sync_drain_def Let_def)

lemma sw_reach:
  assumes "sw_step\<^sup>*\<^sup>* (sw_new n) s" "n < 2 ^ 63"
  shows "sw_inv s \<and> length (sw_readers s) = n"
  using assms(1)
proof (induction rule: rtranclp_induct)
  case base
  then show ?case
    using sw_inv_new by (simp add: sw_new_def)
next
  case (step s s')
  then show ?case
    using sw_inv_step sw_step_readers assms(2) by metis
qed

section \<open>Synchronizing\<close>

text \<open>C19. When \<open>synchronize\<close> returns, every critical section that was open when it was called has been left, whatever the order of the
  steps and although the counters wrap.\<close>

theorem synchronize_waits_for_all:
  assumes "sw_step\<^sup>*\<^sup>* (sw_new n) s" "n < 2 ^ 63" "sw_writer s \<in> {Drains, NoSync}"
  shows "sw_before s = {}"
  using sw_reach [OF assms(1,2)] assms(3) by (auto simp: sw_inv_def before_inv_def before_polarity_def)

text \<open>A writer is woken: while it sleeps, a section it waits for is open, or the reader that left the last of them is about to signal, or
  the semaphore has been signalled.\<close>

theorem synchronize_is_woken:
  assumes "sw_step\<^sup>*\<^sup>* (sw_new n) s" "n < 2 ^ 63" "sw_writer s = Sleeps old"
  shows "(\<exists>i < n. sw_readers s ! i \<noteq> Outside) \<or> 0 < sw_wakeup s"
proof -
  note inv = sw_reach [OF assms(1,2)]
  then consider "0 < open_sections s (polarity old)" | "will_wake s old"
    using assms(3) by (auto simp: sw_inv_def writer_inv_def)
  then show ?thesis
  proof cases
    case 1
    then obtain i where "i < length (sw_readers s)" "inside (polarity old) (sw_readers s ! i)"
      using tally_ex by blast
    then show ?thesis
      using inv by (intro disjI1 exI [of _ i]) auto
  next
    case 2
    then show ?thesis
      using inv by (auto simp: will_wake_def in_set_conv_nth intro: exI)
  qed
qed

text \<open>One reader in a section, which the writer waits for.\<close>

definition one_reader :: "u64 \<Rightarrow> u64 \<Rightarrow> u64 \<Rightarrow> u64 \<Rightarrow> reader_pc \<Rightarrow> writer_pc \<Rightarrow> nat set \<Rightarrow> SingleWriterSynchronizer" where
  "one_reader e x0 x1 w r p before = \<lparr>sw_enter = e, sw_exit = (\<lambda>_. 0)(False := x0, True := x1), sw_waiting_for = w, sw_wakeup = 0,
     sw_readers = [r], sw_writer = p, sw_before = before\<rparr>"

lemmas one_reader_defs = one_reader_def section_enter_def section_exit_def sw_put_def sync_load_def sync_store_def sync_flip_def sync_test_def polarity_odd

lemma one_reader_run:
  "sw_step\<^sup>*\<^sup>* (sw_new 1) (one_reader 3 0 3 2 (Inside 2) (Sleeps 2) {0})"
  "sw_step\<^sup>*\<^sup>* (sw_new 1) (one_reader 3 2 3 2 (Compares 2) Drains {})"
proof -
  note step = rtranclp.rtrancl_into_rtrancl [of sw_step "sw_new 1"]
  note [simp] = one_reader_defs
  have single: "{i. i = 0 \<and> (\<exists>v. [Inside 2] ! i = Inside v)} = {0 :: nat}"
    by auto
  have "(\<lambda>_ :: bool. 0 :: u64)(False := 0, True := 0) = (\<lambda>_. 0)"
    by auto
  then have "sw_step\<^sup>*\<^sup>* (sw_new 1) (one_reader 0 0 0 1 Outside NoSync {})"
    by (simp add: sw_new_def)
  then have "sw_step\<^sup>*\<^sup>* (sw_new 1) (one_reader 2 0 0 1 (Inside 2) NoSync {})"
    by (rule step) (use sw_step.enter [of 0 "one_reader 0 0 0 1 Outside NoSync {}"] in simp)
  then have "sw_step\<^sup>*\<^sup>* (sw_new 1) (one_reader 2 0 0 1 (Inside 2) (Loaded 2 True) {0})"
    by (rule step) (use sw_step.synchronize [of "one_reader 2 0 0 1 (Inside 2) NoSync {}"] in \<open>simp add: single\<close>)
  then have "sw_step\<^sup>*\<^sup>* (sw_new 1) (one_reader 2 0 3 1 (Inside 2) (Stored 2 True) {0})"
    by (rule step) (use sw_step.store [of "one_reader 2 0 0 1 (Inside 2) (Loaded 2 True) {0}"] in simp)
  then have "sw_step\<^sup>*\<^sup>* (sw_new 1) (one_reader 3 0 3 1 (Inside 2) (Flipped 2) {0})"
    by (rule step) (use sw_step.flip [of "one_reader 2 0 3 1 (Inside 2) (Stored 2 True) {0}" 2 True False] in simp)
  then have tests: "sw_step\<^sup>*\<^sup>* (sw_new 1) (one_reader 3 0 3 2 (Inside 2) (Tests 2) {0})"
    by (rule step) (use sw_step.wait_for [of "one_reader 3 0 3 1 (Inside 2) (Flipped 2) {0}"] in simp)
  then show "sw_step\<^sup>*\<^sup>* (sw_new 1) (one_reader 3 0 3 2 (Inside 2) (Sleeps 2) {0})"
    by (rule step) (use sw_step.test [of "one_reader 3 0 3 2 (Inside 2) (Tests 2) {0}"] in simp)
  from tests have "sw_step\<^sup>*\<^sup>* (sw_new 1) (one_reader 3 2 3 2 (Compares 2) (Tests 2) {})"
    by (rule step) (use sw_step.exit [of 0 "one_reader 3 0 3 2 (Inside 2) (Tests 2) {0}"] in \<open>simp add: fun_upd_twist\<close>)
  then show "sw_step\<^sup>*\<^sup>* (sw_new 1) (one_reader 3 2 3 2 (Compares 2) Drains {})"
    by (rule step) (use sw_step.test [of "one_reader 3 2 3 2 (Compares 2) (Tests 2) {}"] in simp)
qed

theorem synchronize_waits_for_all_witness: "sw_before (one_reader 3 2 3 2 (Compares 2) Drains {}) = {}"
  using synchronize_waits_for_all [OF one_reader_run(2)] by (simp add: one_reader_def)

theorem synchronize_is_woken_witness: "[Inside 2] ! 0 \<noteq> Outside"
  using synchronize_is_woken [OF one_reader_run(1)] by (simp add: one_reader_def)

end
