(* ===== verification/ObjStorageModel.thy ===== *)
theory ObjStorageModel
  imports HeapBitmapModel
begin

text \<open>
  The storage of off-heap references of \<open>heap/obj_storage.rs\<close>: blocks of 64 entries with a bitmask of the entries in use, a list of the
  blocks with free entries, and a list of blocks whose state has changed since. An entry is its address, a block the address of its first
  entry. The memory for a block comes from \<open>malloc\<close>: the address it returns is an argument, from which \<open>new_block\<close> computes the address of the
  block. That address lies before the memory, so that the block covers bytes that \<open>malloc\<close> did not give; the model takes it that nothing else
  writes them. The mutexes make every operation one step, except that a new block is made with the mutex released.
\<close>

section \<open>Blocks\<close>

definition BULK_ALLOCATE_LIMIT :: nat where "BULK_ALLOCATE_LIMIT = 8 * 8"
definition SECTION_SIZE :: nat where "SECTION_SIZE = 1 * 8"
definition SECTION_COUNT :: nat where "SECTION_COUNT = 8"
definition BLOCK_ALIGNMENT :: nat where "BLOCK_ALIGNMENT = 8 * SECTION_SIZE"

text \<open>The size of a block: its entries and eight words.\<close>

definition size_of_Block :: nat where "size_of_Block = BULK_ALLOCATE_LIMIT * 8 + 8 * 8"

record Block =
  bl_allocated :: u64
  bl_memory :: nat
  bl_active_index :: nat
  bl_prev :: nat
  bl_next :: nat
  bl_deferred_next :: nat

definition Block_new :: "nat \<Rightarrow> Block" where
  "Block_new mem = \<lparr>bl_allocated = 0, bl_memory = mem, bl_active_index = 0, bl_prev = 0, bl_next = 0, bl_deferred_next = 0\<rparr>"

definition bitmask_for_index :: "nat \<Rightarrow> u64 res" where
  "bitmask_for_index index = (if index < BULK_ALLOCATE_LIMIT then Inr (push_bit index 1) else Inl AssertFailed)"

definition trailing_zeros64 :: "u64 \<Rightarrow> nat" where
  "trailing_zeros64 w = trailing_zeros (unat w)"

definition is_full_bitmask :: "u64 \<Rightarrow> bool" where
  "is_full_bitmask bitmask \<longleftrightarrow> NOT bitmask = 0"

definition is_empty_bitmask :: "u64 \<Rightarrow> bool" where
  "is_empty_bitmask bitmask \<longleftrightarrow> bitmask = 0"

definition block_allocate :: "u64 \<Rightarrow> (nat \<times> u64) res" where
  "block_allocate allocated = (let index = trailing_zeros64 (NOT allocated) in
     rbind (bitmask_for_index index) (\<lambda>bit. Inr (index, allocated + bit)))"

definition block_allocate_all :: "u64 \<Rightarrow> u64 \<times> u64" where
  "block_allocate_all allocated = (NOT allocated, allocated + NOT allocated)"

lemma trailing_zeros64_bit:
  assumes "w \<noteq> 0"
  shows "bit w (trailing_zeros64 w)" "k < trailing_zeros64 w \<Longrightarrow> \<not> bit w k" "trailing_zeros64 w < 64"
proof -
  have "unat w \<noteq> 0"
    using assms by (simp add: unsigned_eq_0_iff)
  then have "bit (unat w) (trailing_zeros64 w) \<and> (\<forall>k < trailing_zeros64 w. \<not> bit (unat w) k)"
    unfolding trailing_zeros64_def by (rule trailing_zeros_bit)
  then show "bit w (trailing_zeros64 w)" "k < trailing_zeros64 w \<Longrightarrow> \<not> bit w k"
    by (auto simp: bit_unsigned_iff dest: bit_word_lt)
  then show "trailing_zeros64 w < 64"
    by (auto dest: bit_word_lt)
qed

lemma bits_clear: "{k. bit (w AND NOT (push_bit n 1) :: u64) k} = {k. bit w k} - {n}"
  by (auto simp: bit_simps dest: bit_word_lt)

text \<open>Iteration over the entries in use, which ends when the visitor returns false.\<close>

function block_iterate :: "(nat \<Rightarrow> bool) \<Rightarrow> u64 \<Rightarrow> nat list \<times> bool" where
  "block_iterate f bitmask =
     (if bitmask = 0 then ([], True)
      else let index = trailing_zeros64 bitmask in
        if \<not> f index then ([index], False)
        else let (visited, r) = block_iterate f (bitmask AND NOT (push_bit index 1)) in (index # visited, r))"
  by auto

termination
proof (relation "measure (\<lambda>(f, w). card {k. bit w k})")
  fix f :: "nat \<Rightarrow> bool" and w :: u64 and x
  assume w: "w \<noteq> 0" "x = trailing_zeros64 w"
  then have "x \<in> {k. bit w k}"
    using trailing_zeros64_bit(1) by simp
  moreover have "finite {k. bit w k}"
    by (rule finite_subset [of _ "{..<64}"]) (auto dest: bit_word_lt)
  ultimately have "card ({k. bit w k} - {x}) < card {k. bit w k}"
    by (intro psubset_card_mono) auto
  then show "((f, w AND NOT (push_bit x 1)), f, w) \<in> measure (\<lambda>(f, w). card {k. bit w k})"
    by (simp only: in_measure prod.case bits_clear)
qed simp

declare block_iterate.simps [simp del]

text \<open>\<open>new_block\<close> asks for \<open>allocation_size\<close> bytes and aligns the address it gets.\<close>

definition allocation_size :: nat where
  "allocation_size = size_of_Block + BLOCK_ALIGNMENT - 8"

definition new_block :: "u64 \<Rightarrow> u64" where
  "new_block mem = align_up mem (of_nat BLOCK_ALIGNMENT)"

section \<open>The storage\<close>

record ActiveArray =
  aa_size :: nat
  aa_blocks :: "nat list"

record ObjStorage =
  os_blocks :: "nat \<Rightarrow> Block"
  os_active :: ActiveArray
  os_head :: nat
  os_tail :: nat
  os_deferred_updates :: nat
  os_allocation_count :: nat

definition ObjStorage_new :: ObjStorage where
  "ObjStorage_new = \<lparr>os_blocks = (\<lambda>_. Block_new 0), os_active = \<lparr>aa_size = 8, aa_blocks = []\<rparr>, os_head = 0, os_tail = 0,
     os_deferred_updates = 0, os_allocation_count = 0\<rparr>"

definition block_put :: "nat \<Rightarrow> (Block \<Rightarrow> Block) \<Rightarrow> ObjStorage \<Rightarrow> ObjStorage" where
  "block_put b f s = s\<lparr>os_blocks := (os_blocks s)(b := f (os_blocks s b))\<rparr>"

definition list_push_front :: "nat \<Rightarrow> ObjStorage \<Rightarrow> ObjStorage" where
  "list_push_front b s = (let old = os_head s in
     if old = 0 then s\<lparr>os_head := b, os_tail := b\<rparr>
     else (block_put old (\<lambda>x. x\<lparr>bl_prev := b\<rparr>) (block_put b (\<lambda>x. x\<lparr>bl_next := old\<rparr>) s))\<lparr>os_head := b\<rparr>)"

definition list_push_back :: "nat \<Rightarrow> ObjStorage \<Rightarrow> ObjStorage" where
  "list_push_back b s = (let old = os_tail s in
     if old = 0 then s\<lparr>os_head := b, os_tail := b\<rparr>
     else (block_put old (\<lambda>x. x\<lparr>bl_next := b\<rparr>) (block_put b (\<lambda>x. x\<lparr>bl_prev := old\<rparr>) s))\<lparr>os_tail := b\<rparr>)"

definition list_unlink :: "nat \<Rightarrow> ObjStorage \<Rightarrow> ObjStorage res" where
  "list_unlink b s = (let prev_blk = bl_prev (os_blocks s b); next_blk = bl_next (os_blocks s b) in
     if prev_blk = 0 \<and> next_blk = 0 then
       if os_head s = b \<and> os_tail s = b then Inr (s\<lparr>os_head := 0, os_tail := 0\<rparr>) else Inl AssertFailed
     else if prev_blk = 0 then
       if os_head s = b then Inr (block_put next_blk (\<lambda>x. x\<lparr>bl_prev := 0\<rparr>) (s\<lparr>os_head := next_blk\<rparr>)) else Inl AssertFailed
     else if next_blk = 0 then
       if os_tail s = b then Inr (block_put prev_blk (\<lambda>x. x\<lparr>bl_next := 0\<rparr>) (s\<lparr>os_tail := prev_blk\<rparr>)) else Inl AssertFailed
     else Inr (block_put next_blk (\<lambda>x. x\<lparr>bl_prev := prev_blk\<rparr>) (block_put prev_blk (\<lambda>x. x\<lparr>bl_next := next_blk\<rparr>) s)))"

definition list_contains :: "nat \<Rightarrow> ObjStorage \<Rightarrow> bool" where
  "list_contains b s \<longleftrightarrow> bl_next (os_blocks s b) \<noteq> 0 \<or> os_tail s = b"

text \<open>A release flips the bits of its entries. A block that becomes empty, or was full, is put on the list of deferred updates, whose last
  block points to itself.\<close>

definition release_entries :: "nat \<Rightarrow> u64 \<Rightarrow> ObjStorage \<Rightarrow> ObjStorage" where
  "release_entries b releasing s = (let old_allocated = bl_allocated (os_blocks s b);
       s = block_put b (\<lambda>x. x\<lparr>bl_allocated := old_allocated XOR releasing\<rparr>) s in
     if (releasing = old_allocated \<or> is_full_bitmask old_allocated) \<and> bl_deferred_next (os_blocks s b) = 0
     then let head = os_deferred_updates s in
       (block_put b (\<lambda>x. x\<lparr>bl_deferred_next := if head = 0 then b else head\<rparr>) s)\<lparr>os_deferred_updates := b\<rparr>
     else s)"

definition reduce_deferred_updates :: "ObjStorage \<Rightarrow> (bool \<times> ObjStorage) res" where
  "reduce_deferred_updates s = (let block = os_deferred_updates s in
     if block = 0 then Inr (False, s)
     else let tail = bl_deferred_next (os_blocks s block);
              s = s\<lparr>os_deferred_updates := if block = tail then 0 else tail\<rparr>;
              s = block_put block (\<lambda>x. x\<lparr>bl_deferred_next := 0\<rparr>) s;
              allocated = bl_allocated (os_blocks s block) in
       if is_full_bitmask allocated then if list_contains block s then Inl AssertFailed else Inr (True, s)
       else if list_contains block s then
         if is_empty_bitmask allocated then rbind (list_unlink block s) (\<lambda>s. Inr (True, list_push_back block s)) else Inr (True, s)
       else if is_empty_bitmask allocated then Inr (True, list_push_back block s)
       else Inr (True, list_push_front block s))"

definition active_push :: "nat \<Rightarrow> ObjStorage \<Rightarrow> bool \<times> ObjStorage" where
  "active_push b s = (let index = length (aa_blocks (os_active s)) in
     if index < aa_size (os_active s)
     then (True, (block_put b (\<lambda>x. x\<lparr>bl_active_index := index\<rparr>) s)\<lparr>os_active := (os_active s)\<lparr>aa_blocks := aa_blocks (os_active s) @ [b]\<rparr>\<rparr>)
     else (False, s))"

definition expand_active_array :: "ObjStorage \<Rightarrow> ObjStorage" where
  "expand_active_array s = s\<lparr>os_active := \<lparr>aa_size = aa_size (os_active s) * 2, aa_blocks = aa_blocks (os_active s)\<rparr>\<rparr>"

text \<open>\<open>try_add_block\<close>, where \<open>malloc\<close> returns \<open>mem\<close>. When it fails, the block is written at an address below 0.\<close>

definition try_add_block :: "nat \<Rightarrow> ObjStorage \<Rightarrow> ObjStorage res" where
  "try_add_block mem s =
     (if mem = 0 then Inl UndefinedBehaviour
      else let block = unat (new_block (of_nat mem)); s = block_put block (\<lambda>_. Block_new mem) s; (pushed, s) = active_push block s in
        if pushed then Inr (list_push_back block s)
        else let (pushed, s) = active_push block (expand_active_array s) in
          if pushed then Inr (list_push_back block s) else Inl AssertFailed)"

text \<open>The loop of \<open>block_for_allocation\<close> up to the point where there is a block, or one must be made.\<close>

partial_function (option) find_block :: "ObjStorage \<Rightarrow> (bool \<times> ObjStorage) res option" where
  "find_block s =
     (if os_head s \<noteq> 0 then Some (Inr (True, s))
      else case reduce_deferred_updates s of
        Inl e \<Rightarrow> Some (Inl e)
      | Inr (r, s) \<Rightarrow> if r then find_block s else Some (Inr (False, s)))"

definition block_for_allocation :: "nat \<Rightarrow> ObjStorage \<Rightarrow> (nat \<times> ObjStorage) res option" where
  "block_for_allocation mem s = map_option (\<lambda>r. rbind r (\<lambda>(found, s).
     if found then Inr (os_head s, s)
     else rbind (try_add_block mem s) (\<lambda>s. if os_head s = 0 then Inl AssertFailed else Inr (os_head s, s)))) (find_block s)"

definition allocate_in :: "nat \<Rightarrow> ObjStorage \<Rightarrow> (nat \<times> ObjStorage) res" where
  "allocate_in block s = rbind (block_allocate (bl_allocated (os_blocks s block))) (\<lambda>(index, m).
     let s = (block_put block (\<lambda>x. x\<lparr>bl_allocated := m\<rparr>) s)\<lparr>os_allocation_count := os_allocation_count s + 1\<rparr> in
     rbind (if is_full_bitmask m then list_unlink block s else Inr s) (\<lambda>s. Inr (block + 8 * index, s)))"

definition obj_allocate :: "nat \<Rightarrow> ObjStorage \<Rightarrow> (nat \<times> ObjStorage) res option" where
  "obj_allocate mem s = map_option (\<lambda>r. rbind r (\<lambda>(block, s). allocate_in block s)) (block_for_allocation mem s)"

text \<open>The block of an entry: the first section below it that starts a block of this storage. A candidate is known by its owner word; the words that
  are read below a block, outside any block of the storage, are taken not to hold the address of the storage.\<close>

definition block_for_ptr :: "ObjStorage \<Rightarrow> nat \<Rightarrow> nat" where
  "block_for_ptr s p = (let section_start = p div BLOCK_ALIGNMENT * BLOCK_ALIGNMENT - 8 * SECTION_SIZE * (SECTION_COUNT - 1) in
     case filter (\<lambda>candidate. candidate \<in> set (aa_blocks (os_active s))) (map (\<lambda>k. section_start + 8 * SECTION_SIZE * k) [0..<SECTION_COUNT]) of
       [] \<Rightarrow> 0 | c # cs \<Rightarrow> c)"

definition obj_release :: "nat \<Rightarrow> ObjStorage \<Rightarrow> ObjStorage res" where
  "obj_release p s = (let block = block_for_ptr s p in
     if block = 0 then Inl AssertFailed
     else rbind (bitmask_for_index ((p - block) div 8)) (\<lambda>bit.
       rbind (checked_sub (os_allocation_count s) 1) (\<lambda>count.
         Inr ((release_entries block bit s)\<lparr>os_allocation_count := count\<rparr>))))"

section \<open>Invariant\<close>

text \<open>With one thread at a time at most one block is in the list, so that no block has links.\<close>

fun deferred_links :: "(nat \<Rightarrow> Block) \<Rightarrow> nat list \<Rightarrow> bool" where
  "deferred_links bs [] \<longleftrightarrow> True"
| "deferred_links bs [b] \<longleftrightarrow> bl_deferred_next (bs b) = b"
| "deferred_links bs (b # c # ds) \<longleftrightarrow> bl_deferred_next (bs b) = c \<and> deferred_links bs (c # ds)"

definition first_or_null :: "nat list \<Rightarrow> nat" where
  "first_or_null ds = (case ds of [] \<Rightarrow> 0 | b # _ \<Rightarrow> b)"

definition block_place :: "nat \<Rightarrow> bool" where
  "block_place b \<longleftrightarrow> BLOCK_ALIGNMENT dvd b \<and> 8 * SECTION_SIZE * SECTION_COUNT \<le> b"

definition apart :: "nat \<Rightarrow> nat \<Rightarrow> bool" where
  "apart b c \<longleftrightarrow> b + size_of_Block \<le> c \<or> c + size_of_Block \<le> b"

definition fresh_block :: "nat \<Rightarrow> ObjStorage \<Rightarrow> bool" where
  "fresh_block b s \<longleftrightarrow> block_place b \<and> (\<forall>c \<in> set (aa_blocks (os_active s)). apart b c)"

text \<open>What \<open>malloc\<close> promises: the memory it returns is not null, ends before the end of the address space and overlaps no memory that is still in
  use, here that of the other blocks. (The first page is never given out.)\<close>

definition fresh_memory :: "nat \<Rightarrow> ObjStorage \<Rightarrow> bool" where
  "fresh_memory mem s \<longleftrightarrow> 640 \<le> mem \<and> mem + allocation_size < 2 ^ 64 \<and>
     (\<forall>c \<in> set (aa_blocks (os_active s)). let other = bl_memory (os_blocks s c) in mem + allocation_size \<le> other \<or> other + allocation_size \<le> mem)"

text \<open>Every block is where \<open>new_block\<close> put it.\<close>

definition blocks_made :: "ObjStorage \<Rightarrow> bool" where
  "blocks_made s \<longleftrightarrow> (\<forall>b \<in> set (aa_blocks (os_active s)). let mem = bl_memory (os_blocks s b) in
     640 \<le> mem \<and> mem < 2 ^ 64 \<and> b = unat (new_block (of_nat mem)))"

abbreviation active_blocks :: "ObjStorage \<Rightarrow> nat list" where
  "active_blocks s \<equiv> aa_blocks (os_active s)"

abbreviation full_block :: "ObjStorage \<Rightarrow> nat \<Rightarrow> bool" where
  "full_block s b \<equiv> is_full_bitmask (bl_allocated (os_blocks s b))"

definition mask_entries :: "nat \<Rightarrow> u64 \<Rightarrow> nat set" where
  "mask_entries b m = {b + 8 * i | i. bit m i}"

definition obj_entries :: "ObjStorage \<Rightarrow> nat set" where
  "obj_entries s = (\<Union>b \<in> set (active_blocks s). mask_entries b (bl_allocated (os_blocks s b)))"

definition obj_inv :: "nat list \<Rightarrow> ObjStorage \<Rightarrow> bool" where
  "obj_inv ds s \<longleftrightarrow> distinct (active_blocks s) \<and> (\<forall>b \<in> set (active_blocks s). block_place b) \<and>
     (\<forall>b \<in> set (active_blocks s). \<forall>c \<in> set (active_blocks s). b \<noteq> c \<longrightarrow> apart b c) \<and>
     0 < aa_size (os_active s) \<and> length (active_blocks s) \<le> aa_size (os_active s) \<and>
     (\<forall>b. bl_prev (os_blocks s b) = 0 \<and> bl_next (os_blocks s b) = 0) \<and>
     os_tail s = os_head s \<and> (os_head s \<noteq> 0 \<longrightarrow> os_head s \<in> set (active_blocks s) \<and> \<not> full_block s (os_head s)) \<and>
     distinct ds \<and> set ds \<subseteq> set (active_blocks s) \<and> os_deferred_updates s = first_or_null ds \<and> deferred_links (os_blocks s) ds \<and>
     (\<forall>b. b \<notin> set ds \<longrightarrow> bl_deferred_next (os_blocks s b) = 0) \<and>
     (\<forall>b \<in> set (active_blocks s). \<not> full_block s b \<longrightarrow> b = os_head s \<or> b \<in> set ds)"

lemma place_consts: "BLOCK_ALIGNMENT = 64" "SECTION_SIZE = 8" "SECTION_COUNT = 8" "size_of_Block = 576" "BULK_ALLOCATE_LIMIT = 64"
  by (simp_all add: BLOCK_ALIGNMENT_def SECTION_SIZE_def SECTION_COUNT_def size_of_Block_def BULK_ALLOCATE_LIMIT_def)

lemma new_block_value:
  assumes "65 \<le> unat mem"
  shows "unat (new_block mem) = (unat mem - 65) div 64 * 64"
proof -
  have "(65 :: u64) \<le> mem" using assms by (simp add: word_le_nat_alt)
  then have m: "unat (mem - 65) = unat mem - 65" by (simp add: unat_sub)
  have "new_block mem = align_down (mem - 65) (2 ^ 6)"
    by (simp add: new_block_def align_up_def align_down_def place_consts algebra_simps)
  then show ?thesis using unat_align_down [of 6 "mem - 65"] m by simp
qed

lemma new_block_nat:
  assumes "65 \<le> mem" "mem < 2 ^ 64"
  shows "unat (new_block (of_nat mem)) = (mem - 65) div 64 * 64"
proof -
  have "unat (of_nat mem :: u64) = mem" using assms(2) by (simp add: unsigned_of_nat take_bit_nat_eq_self)
  then show ?thesis using new_block_value [of "of_nat mem"] assms(1) by simp
qed

text \<open>Blocks made in different pieces of memory do not overlap.\<close>

lemma fresh_memory_block:
  assumes "fresh_memory mem s" "blocks_made s"
  shows "fresh_block (unat (new_block (of_nat mem))) s"
proof -
  have m: "640 \<le> mem" "mem < 2 ^ 64" using assms(1) by (auto simp: fresh_memory_def)
  define q where "q = (mem - 65) div 64"
  have q: "q * 64 \<le> mem - 65" "mem - 65 < q * 64 + 64" unfolding q_def by simp_all
  have b: "unat (new_block (of_nat mem)) = q * 64" using new_block_nat [of mem] m by (simp add: q_def)
  have "apart (q * 64) c" if c: "c \<in> set (aa_blocks (os_active s))" for c
  proof -
    define om where "om = bl_memory (os_blocks s c)"
    define r where "r = (om - 65) div 64"
    have r: "r * 64 \<le> om - 65" "om - 65 < r * 64 + 64" unfolding r_def by simp_all
    have om: "640 \<le> om" "c = r * 64" "mem + 632 \<le> om \<or> om + 632 \<le> mem"
      using assms c new_block_nat [of om]
      by (auto simp: fresh_memory_def blocks_made_def Let_def om_def r_def allocation_size_def place_consts)
    then have "q + 9 \<le> r \<or> r + 9 \<le> q" using q r m by linarith
    then show ?thesis using om(2) by (auto simp: apart_def place_consts)
  qed
  moreover have "8 \<le> q" using q m by linarith
  ultimately show ?thesis using b by (simp add: fresh_block_def block_place_def place_consts)
qed

lemma obj_inv_new: "obj_inv [] ObjStorage_new"
  by (simp add: obj_inv_def ObjStorage_new_def Block_new_def first_or_null_def)

lemma block_put_sel [simp]:
  "os_blocks (block_put b f s) = (os_blocks s)(b := f (os_blocks s b))" "os_active (block_put b f s) = os_active s" "os_head (block_put b f s) = os_head s"
  "os_tail (block_put b f s) = os_tail s" "os_deferred_updates (block_put b f s) = os_deferred_updates s"
  "os_allocation_count (block_put b f s) = os_allocation_count s"
  by (simp_all add: block_put_def)

lemma deferred_links_upd: "b \<notin> set ds \<Longrightarrow> deferred_links (bs(b := x)) ds \<longleftrightarrow> deferred_links bs ds"
  by (induction bs ds rule: deferred_links.induct) auto

lemma deferred_links_same: "(\<And>b. bl_deferred_next (bs' b) = bl_deferred_next (bs b)) \<Longrightarrow> deferred_links bs' ds \<longleftrightarrow> deferred_links bs ds"
  by (induction bs ds rule: deferred_links.induct) simp_all

lemma deferred_links_Cons:
  "deferred_links bs (b # ds) \<longleftrightarrow> bl_deferred_next (bs b) = (if ds = [] then b else hd ds) \<and> deferred_links bs ds"
  by (cases ds) simp_all

lemma block_not_null: "block_place b \<Longrightarrow> b \<noteq> 0"
  by (simp add: block_place_def place_consts)

lemma first_null: "\<forall>b \<in> set ds. block_place b \<Longrightarrow> first_or_null ds = 0 \<longleftrightarrow> ds = []"
  by (cases ds) (auto simp: first_or_null_def dest: block_not_null)

lemma obj_invD:
  assumes "obj_inv ds s"
  shows "distinct (active_blocks s)" "b \<in> set (active_blocks s) \<Longrightarrow> block_place b"
    "b \<in> set (active_blocks s) \<Longrightarrow> c \<in> set (active_blocks s) \<Longrightarrow> b \<noteq> c \<Longrightarrow> apart b c"
    "0 < aa_size (os_active s)" "length (active_blocks s) \<le> aa_size (os_active s)"
    "bl_prev (os_blocks s b) = 0" "bl_next (os_blocks s b) = 0" "os_tail s = os_head s"
    "os_head s \<noteq> 0 \<Longrightarrow> os_head s \<in> set (active_blocks s)" "os_head s \<noteq> 0 \<Longrightarrow> \<not> full_block s (os_head s)"
    "distinct ds" "b \<in> set ds \<Longrightarrow> b \<in> set (active_blocks s)" "os_deferred_updates s = first_or_null ds" "deferred_links (os_blocks s) ds"
    "b \<notin> set ds \<Longrightarrow> bl_deferred_next (os_blocks s b) = 0"
    "b \<in> set (active_blocks s) \<Longrightarrow> \<not> full_block s b \<Longrightarrow> b = os_head s \<or> b \<in> set ds"
  using assms unfolding obj_inv_def by auto

text \<open>What the list operations leave alone.\<close>

definition same_masks :: "ObjStorage \<Rightarrow> ObjStorage \<Rightarrow> bool" where
  "same_masks s s' \<longleftrightarrow> active_blocks s' = active_blocks s \<and> os_allocation_count s' = os_allocation_count s \<and>
     (\<forall>b. bl_allocated (os_blocks s' b) = bl_allocated (os_blocks s b) \<and> bl_memory (os_blocks s' b) = bl_memory (os_blocks s b))"

lemma same_masks_refl [simp]: "same_masks s s"
  by (simp add: same_masks_def)

lemma same_masks_trans: "same_masks s t \<Longrightarrow> same_masks t u \<Longrightarrow> same_masks s u"
  by (simp add: same_masks_def)

lemma same_masks_entries: "same_masks s s' \<Longrightarrow> obj_entries s' = obj_entries s"
  by (simp add: same_masks_def obj_entries_def)

lemma reduce_ok:
  assumes inv: "obj_inv (b # ds) s" and "os_head s = 0"
  shows "\<exists>s'. reduce_deferred_updates s = Inr (True, s') \<and> obj_inv ds s' \<and> same_masks s s'"
proof -
  note I = obj_invD [OF inv]
  let ?s = "block_put b (\<lambda>x. x\<lparr>bl_deferred_next := 0\<rparr>) (s\<lparr>os_deferred_updates := first_or_null ds\<rparr>)"
  have b: "b \<noteq> 0" "b \<notin> set ds" "b \<in> set (active_blocks s)" "os_deferred_updates s = b"
    using I(2,11,12,13) block_not_null by (auto simp: first_or_null_def)
  have "bl_deferred_next (os_blocks s b) = (if ds = [] then b else hd ds)"
    using I(14) deferred_links_Cons by blast
  then have tail: "(if b = bl_deferred_next (os_blocks s b) then 0 else bl_deferred_next (os_blocks s b)) = first_or_null ds"
    using b(2) by (cases ds) (auto simp: first_or_null_def)
  have links: "deferred_links (os_blocks ?s) ds"
    using I(14) b(2) deferred_links_Cons by (simp add: deferred_links_upd)
  have "\<not> list_contains b ?s"
    using I(7,8) assms(2) b(1) by (simp add: list_contains_def)
  moreover have push: "list_push_back b ?s = ?s\<lparr>os_head := b, os_tail := b\<rparr>" "list_push_front b ?s = ?s\<lparr>os_head := b, os_tail := b\<rparr>"
    using I(8) assms(2) by (simp_all add: list_push_back_def list_push_front_def)
  ultimately have r: "reduce_deferred_updates s = Inr (True, if full_block s b then ?s else ?s\<lparr>os_head := b, os_tail := b\<rparr>)"
    using b(1,4) tail by (simp add: reduce_deferred_updates_def Let_def)
  have free: "c \<in> set (active_blocks s) \<Longrightarrow> \<not> full_block s c \<Longrightarrow> c = b \<or> c \<in> set ds" for c
    using I(16) [of c] I(2) [of c] block_not_null [of c] assms(2) by auto
  have base: "distinct (active_blocks s)" "\<forall>b \<in> set (active_blocks s). block_place b"
    "\<forall>b \<in> set (active_blocks s). \<forall>c \<in> set (active_blocks s). b \<noteq> c \<longrightarrow> apart b c"
    "\<forall>c. c \<notin> set ds \<longrightarrow> bl_deferred_next (os_blocks ?s c) = 0" "\<forall>c \<in> set (active_blocks s). \<not> full_block s c \<longrightarrow> c = b \<or> c \<in> set ds"
    "set ds \<subseteq> set (active_blocks s)" "distinct ds"
    using I(1-3,11,12,15) free by auto
  have "obj_inv ds (if full_block s b then ?s else ?s\<lparr>os_head := b, os_tail := b\<rparr>)"
  proof (cases "full_block s b")
    case True
    then show ?thesis
      using base links I(4-8) assms(2) unfolding obj_inv_def by auto
  next
    case False
    then show ?thesis
      using base links I(4-7) b unfolding obj_inv_def by auto
  qed
  then show ?thesis
    using r by (auto simp: same_masks_def)
qed

lemma find_block_ok:
  "obj_inv ds s \<Longrightarrow> \<exists>found s' ds'. find_block s = Some (Inr (found, s')) \<and> obj_inv ds' s' \<and> same_masks s s' \<and> (found \<longleftrightarrow> os_head s' \<noteq> 0)"
proof (induction ds arbitrary: s)
  case Nil
  then have "reduce_deferred_updates s = Inr (False, s)"
    using obj_invD(13) [OF Nil] by (simp add: reduce_deferred_updates_def first_or_null_def)
  then show ?case
    using Nil by (subst find_block.simps) auto
next
  case (Cons b ds)
  show ?case
  proof (cases "os_head s = 0")
    case True
    obtain u where u: "reduce_deferred_updates s = Inr (True, u)" "obj_inv ds u" "same_masks s u"
      using reduce_ok [OF Cons.prems True] by blast
    then obtain found s' ds' where "find_block u = Some (Inr (found, s'))" "obj_inv ds' s'" "same_masks u s'" "found \<longleftrightarrow> os_head s' \<noteq> 0"
      using Cons.IH by blast
    then show ?thesis
      using u True same_masks_trans by (subst find_block.simps) auto
  next
    case False
    then show ?thesis
      using Cons.prems by (subst find_block.simps) auto
  qed
qed

lemma add_block_ok:
  assumes inv: "obj_inv ds s" and "os_head s = 0" "fresh_memory mem s" "blocks_made s"
  shows "\<exists>s'. try_add_block mem s = Inr s' \<and> obj_inv ds s' \<and> blocks_made s' \<and> os_head s' = unat (new_block (of_nat mem)) \<and> obj_entries s' = obj_entries s \<and>
    os_allocation_count s' = os_allocation_count s"
proof -
  note I = obj_invD [OF inv]
  define new where "new = unat (new_block (of_nat mem))"
  have fresh: "fresh_block new s" unfolding new_def by (rule fresh_memory_block [OF assms(3,4)])
  have mem: "640 \<le> mem" "mem < 2 ^ 64" using assms(3) by (auto simp: fresh_memory_def)
  have new: "block_place new" "new \<noteq> 0" "new \<notin> set (active_blocks s)" "\<forall>c \<in> set (active_blocks s). apart new c"
    using fresh block_not_null by (auto simp: fresh_block_def apart_def place_consts)
  then have nd: "new \<notin> set ds"
    using I(12) by blast
  define t where "t = block_put new (\<lambda>_. (Block_new mem)\<lparr>bl_active_index := length (active_blocks s)\<rparr>) s"
  define u where "u k = t\<lparr>os_active := \<lparr>aa_size = k, aa_blocks = active_blocks s @ [new]\<rparr>, os_head := new, os_tail := new\<rparr>" for k
  have tail: "os_tail s = 0"
    using I(8) assms(2) by simp
  have "try_add_block mem s = Inr (u (if length (active_blocks s) < aa_size (os_active s) then aa_size (os_active s) else aa_size (os_active s) * 2))"
    using I(4,5) tail mem(1) by (simp add: try_add_block_def new_def [symmetric] active_push_def expand_active_array_def list_push_back_def u_def t_def block_put_def Let_def)
  then obtain k where k: "try_add_block mem s = Inr (u k)" "0 < k" "Suc (length (active_blocks s)) \<le> k"
    using I(4,5) by (cases "length (active_blocks s) < aa_size (os_active s)") auto
  have sym: "apart c b \<longleftrightarrow> apart b c" for b c
    by (auto simp: apart_def)
  have links: "deferred_links (os_blocks (u k)) ds"
    using I(14) nd by (simp add: u_def t_def deferred_links_upd)
  have free: "c \<in> set (active_blocks s) \<Longrightarrow> \<not> full_block s c \<Longrightarrow> c \<in> set ds" for c
    using I(16) [of c] I(2) [of c] block_not_null [of c] assms(2) by auto
  have "obj_inv ds (u k)"
    unfolding obj_inv_def using I(1-3,6,7,11-13,15) new nd k(2,3) links free sym
    by (auto simp: u_def t_def Block_new_def is_full_bitmask_def)
  moreover have "blocks_made (u k)"
    using assms(4) new(3) mem by (auto simp: blocks_made_def u_def t_def Block_new_def new_def Let_def)
  moreover have "\<And>c. c \<in> set (active_blocks s) \<Longrightarrow> os_blocks (u k) c = os_blocks s c" "bl_allocated (os_blocks (u k) new) = 0"
    "active_blocks (u k) = active_blocks s @ [new]"
    using new(3) by (auto simp: u_def t_def Block_new_def)
  then have "obj_entries (u k) = obj_entries s"
    by (simp add: obj_entries_def mask_entries_def)
  ultimately show ?thesis
    using k(1) by (auto simp: u_def t_def new_def)
qed

lemma block_allocate_ok:
  assumes "\<not> is_full_bitmask m"
  shows "\<exists>i < 64. \<not> bit m i \<and> block_allocate m = Inr (i, m OR push_bit i 1)"
proof -
  let ?i = "trailing_zeros64 (NOT m)"
  have "NOT m \<noteq> 0"
    using assms by (simp add: is_full_bitmask_def)
  note t = trailing_zeros64_bit [OF this]
  have free: "\<not> bit m ?i"
    using t(1,3) by (simp add: bit_simps)
  then have "m + push_bit ?i 1 = m OR push_bit ?i 1"
    by (intro disjunctive_add) (auto simp: bit_simps)
  then show ?thesis
    using t(3) free by (intro exI [of _ ?i]) (simp add: block_allocate_def bitmask_for_index_def place_consts Let_def)
qed

lemma bit_used: "i < 64 \<Longrightarrow> bit (m OR push_bit i 1 :: u64) j \<longleftrightarrow> bit m j \<or> j = i"
  by (auto simp: bit_simps)

lemma entry_unique:
  assumes "obj_inv ds s" "b \<in> set (active_blocks s)" "c \<in> set (active_blocks s)" "i < 64" "j < 64" "b + 8 * i = c + 8 * j"
  shows "b = c \<and> i = j"
proof (cases "b = c")
  case False
  then have "apart b c"
    using obj_invD(3) [OF assms(1-3)] by blast
  then show ?thesis
    using assms(4-6) by (auto simp: apart_def place_consts)
qed (use assms in simp)

lemma entry_bit:
  assumes "obj_inv ds s" "b \<in> set (active_blocks s)" "i < 64"
  shows "b + 8 * i \<in> obj_entries s \<longleftrightarrow> bit (bl_allocated (os_blocks s b)) i"
proof
  assume "b + 8 * i \<in> obj_entries s"
  then obtain c j where c: "b + 8 * i = c + 8 * j" "c \<in> set (active_blocks s)" "bit (bl_allocated (os_blocks s c)) j"
    unfolding obj_entries_def mask_entries_def by blast
  moreover have "j < 64"
    using bit_word_lt [OF c(3)] by simp
  ultimately show "bit (bl_allocated (os_blocks s b)) i"
    using entry_unique [OF assms(1,2) c(2) assms(3)] by blast
qed (use assms(2) in \<open>auto simp: obj_entries_def mask_entries_def\<close>)

lemma entries_split:
  "b \<in> set (active_blocks s) \<Longrightarrow> obj_entries s = mask_entries b (bl_allocated (os_blocks s b)) \<union>
     (\<Union>c \<in> set (active_blocks s) - {b}. mask_entries c (bl_allocated (os_blocks s c)))"
  by (auto simp: obj_entries_def)

lemma mask_entries_used:
  assumes "i < 64"
  shows "mask_entries b (m OR push_bit i 1) = insert (b + 8 * i) (mask_entries b m)"
proof -
  have "bit (m OR push_bit i 1) j \<longleftrightarrow> bit m j \<or> j = i" for j
    by (rule bit_used [OF assms])
  then show ?thesis
    unfolding mask_entries_def by (simp only:) blast
qed

lemma bit_released: "bit m i \<Longrightarrow> i < 64 \<Longrightarrow> bit (m XOR push_bit i 1 :: u64) j \<longleftrightarrow> bit m j \<and> j \<noteq> i"
  by (auto simp: bit_simps)

lemma mask_entries_released:
  assumes "bit m i" "i < 64"
  shows "mask_entries b (m XOR push_bit i 1) = mask_entries b m - {b + 8 * i}"
proof -
  have "bit (m XOR push_bit i 1) j \<longleftrightarrow> bit m j \<and> j \<noteq> i" for j
    by (rule bit_released [OF assms])
  moreover have "{b + 8 * j | j. P j \<and> j \<noteq> i} = {b + 8 * j | j. P j} - {b + 8 * i}" for P
    by auto
  ultimately show ?thesis
    by (simp only: mask_entries_def)
qed

lemma allocate_in_ok:
  assumes inv: "obj_inv ds s" and "os_head s \<noteq> 0"
  shows "\<exists>p s'. allocate_in (os_head s) s = Inr (p, s') \<and> obj_inv ds s' \<and> (blocks_made s \<longrightarrow> blocks_made s') \<and> p \<notin> obj_entries s \<and> obj_entries s' = insert p (obj_entries s) \<and>
    os_allocation_count s' = os_allocation_count s + 1"
proof -
  note I = obj_invD [OF inv]
  let ?b = "os_head s" and ?m = "bl_allocated (os_blocks s (os_head s))"
  have b: "?b \<in> set (active_blocks s)" "\<not> is_full_bitmask ?m"
    using I(9,10) assms(2) by blast+
  obtain i where i: "i < 64" "\<not> bit ?m i" "block_allocate ?m = Inr (i, ?m OR push_bit i 1)"
    using block_allocate_ok [OF b(2)] by blast
  define t where "t = (block_put ?b (\<lambda>x. x\<lparr>bl_allocated := ?m OR push_bit i 1\<rparr>) s)\<lparr>os_allocation_count := os_allocation_count s + 1\<rparr>"
  define u where "u = (if is_full_bitmask (?m OR push_bit i 1) then t\<lparr>os_head := 0, os_tail := 0\<rparr> else t)"
  have r: "allocate_in ?b s = Inr (?b + 8 * i, u)"
    using i(3) I(6,7,8) by (simp add: allocate_in_def u_def t_def list_unlink_def Let_def)
  have links: "deferred_links (os_blocks t) ds"
    using I(14) deferred_links_same [of "os_blocks t" "os_blocks s" ds] by (simp add: t_def)
  have free: "\<forall>c \<in> set (active_blocks s). \<not> full_block s c \<longrightarrow> c = ?b \<or> c \<in> set ds"
    using I(16) by blast
  have "obj_inv ds u"
  proof (cases "is_full_bitmask (?m OR push_bit i 1)")
    case True
    then show ?thesis
      using I(1-7,11-13,15) free b links unfolding obj_inv_def u_def by (auto simp: t_def)
  next
    case False
    then show ?thesis
      using I(1-8,11-13,15) free b links unfolding obj_inv_def u_def by (auto simp: t_def)
  qed
  moreover have "?b + 8 * i \<notin> obj_entries s"
    using entry_bit [OF inv b(1) i(1)] i(2) by blast
  moreover have "active_blocks u = active_blocks s" "os_allocation_count u = os_allocation_count s + 1"
    "bl_allocated (os_blocks u c) = (if c = ?b then ?m OR push_bit i 1 else bl_allocated (os_blocks s c))" for c
    by (simp_all add: u_def t_def)
  moreover from this have "obj_entries u = insert (?b + 8 * i) (obj_entries s)"
    using entries_split [of ?b u] entries_split [OF b(1)] b(1) mask_entries_used [OF i(1)] by simp
  moreover have "blocks_made s \<longrightarrow> blocks_made u"
    by (auto simp: blocks_made_def u_def t_def Let_def)
  ultimately show ?thesis
    using r by blast
qed

lemma block_for_ptr_ok:
  assumes inv: "obj_inv ds s" and b: "b \<in> set (active_blocks s)" and i: "i < 64"
  shows "block_for_ptr s (b + 8 * i) = b"
proof -
  obtain q where q: "b = 64 * q" "8 \<le> q"
    using obj_invD(2) [OF inv b] by (auto simp: block_place_def place_consts elim!: dvdE)
  define start where "start = (b + 8 * i) div 64 * 64 - 448"
  let ?cs = "filter (\<lambda>c. c \<in> set (active_blocks s)) (map (\<lambda>k. start + 64 * k) [0..<8])"
  have "(b + 8 * i) div 64 = q + i div 8"
    using q(1) by (simp add: div_mult2_eq [of "8 * i" 8 8, symmetric] flip: mult_2)
  then have start: "start + 448 = 64 * (q + i div 8)"
    using q(2) by (simp add: start_def)
  have "b = start + 64 * (7 - i div 8)" "7 - i div 8 \<in> set [0..<8]"
    using q i start by auto
  then have "b \<in> set ?cs"
    using b by (auto simp only: set_filter set_map mem_Collect_eq intro: image_eqI)
  moreover have "c = b" if "c \<in> set ?cs" for c
  proof (rule ccontr)
    assume "c \<noteq> b"
    then have "apart c b"
      using that b obj_invD(3) [OF inv] by auto
    moreover have "i div 8 \<le> 7"
      using i by simp
    then have "start \<le> b" "b \<le> start + 448"
      using q(1) start by simp_all
    moreover have "start \<le> c" "c \<le> start + 448"
      using that by auto
    ultimately show False
      by (auto simp: apart_def place_consts)
  qed
  ultimately obtain cs where cs: "?cs = b # cs"
    by (metis list.set_intros(1) neq_Nil_conv empty_iff list.set(1))
  have "block_for_ptr s (b + 8 * i) = (case ?cs of [] \<Rightarrow> 0 | c # cs \<Rightarrow> c)"
    unfolding block_for_ptr_def place_consts Let_def start_def by simp
  then show ?thesis
    unfolding cs by simp
qed

lemma entry_lt: "bit (m :: u64) j \<Longrightarrow> j < 64"
  using bit_word_lt [of m j] by simp

lemma deferred_member: "deferred_links bs ds \<Longrightarrow> b \<in> set ds \<Longrightarrow> bl_deferred_next (bs b) \<in> set ds"
  by (induction bs ds rule: deferred_links.induct) auto

lemma release_ok:
  assumes inv: "obj_inv ds s" and p: "p \<in> obj_entries s" and "0 < os_allocation_count s"
  shows "\<exists>s' ds'. obj_release p s = Inr s' \<and> obj_inv ds' s' \<and> (blocks_made s \<longrightarrow> blocks_made s') \<and> obj_entries s' = obj_entries s - {p} \<and>
    os_allocation_count s' = os_allocation_count s - 1"
proof -
  note I = obj_invD [OF inv]
  obtain b i where b: "p = b + 8 * i" "b \<in> set (active_blocks s)" "bit (bl_allocated (os_blocks s b)) i"
    using p unfolding obj_entries_def mask_entries_def by blast
  have i: "i < 64"
    using bit_word_lt [OF b(3)] by simp
  let ?m = "bl_allocated (os_blocks s b)"
  let ?m' = "?m XOR push_bit i 1"
  define t where "t = (block_put b (\<lambda>x. x\<lparr>bl_allocated := ?m'\<rparr>) s)\<lparr>os_allocation_count := os_allocation_count s - 1\<rparr>"
  define pushed where "pushed \<longleftrightarrow> (push_bit i 1 = ?m \<or> is_full_bitmask ?m) \<and> bl_deferred_next (os_blocks s b) = 0"
  define u where "u = (if pushed then (block_put b (\<lambda>x. x\<lparr>bl_deferred_next := if os_deferred_updates s = 0 then b else os_deferred_updates s\<rparr>) t)\<lparr>os_deferred_updates := b\<rparr> else t)"
  have b0: "b \<noteq> 0"
    using I(2) [OF b(2)] block_not_null by blast
  have r: "obj_release p s = Inr u"
    using block_for_ptr_ok [OF inv b(2) i] b(1) b0 i assms(3)
    by (simp add: obj_release_def bitmask_for_index_def place_consts release_entries_def u_def t_def pushed_def block_put_def Let_def)
  have bits: "bit ?m' j \<longleftrightarrow> bit ?m j \<and> j \<noteq> i" for j
    by (rule bit_released [OF b(3) i])
  have notfull: "\<not> is_full_bitmask ?m'"
  proof
    assume "is_full_bitmask ?m'"
    then have "bit (NOT ?m') i = False"
      by (simp add: is_full_bitmask_def)
    then show False
      using bits [of i] i by (simp add: bit_simps)
  qed
  have links: "deferred_links (os_blocks t) ds"
    using I(14) deferred_links_same [of "os_blocks t" "os_blocks s" ds] by (simp add: t_def)
  have free: "\<forall>c \<in> set (active_blocks s). \<not> full_block s c \<longrightarrow> c = os_head s \<or> c \<in> set ds"
    using I(16) by blast
  have deferred: "bl_deferred_next (os_blocks s b) = 0 \<longleftrightarrow> b \<notin> set ds"
    using I(15) [of b] deferred_member [OF I(14), of b] I(12) I(2) block_not_null by metis
  have masks: "active_blocks u = active_blocks s" "os_allocation_count u = os_allocation_count s - 1"
    "bl_allocated (os_blocks u c) = (if c = b then ?m' else bl_allocated (os_blocks s c))" for c
    by (simp_all add: u_def t_def)
  have "p \<notin> mask_entries c (bl_allocated (os_blocks s c))" if "c \<in> set (active_blocks s) - {b}" for c
    using entry_unique [OF inv b(2) _ i] that b(1) by (auto simp: mask_entries_def dest!: entry_lt)
  then have "obj_entries u = obj_entries s - {p}"
    using entries_split [of b u] entries_split [OF b(2)] b(1,2) mask_entries_released [OF b(3) i] masks by auto
  moreover have "\<exists>ds'. obj_inv ds' u"
  proof (cases pushed)
    case True
    then have nd: "b \<notin> set ds"
      using deferred by (simp add: pushed_def)
    have "os_deferred_updates s = 0 \<longleftrightarrow> ds = []"
      using I(12,13) I(2) first_null [of ds] by auto
    then have "deferred_links (os_blocks u) (b # ds)"
      using True nd links I(13) by (cases ds) (auto simp: u_def t_def deferred_links_upd deferred_links_Cons first_or_null_def)
    then have "obj_inv (b # ds) u"
      using I(1-13,15) free b(2) nd notfull True unfolding obj_inv_def by (auto simp: u_def t_def first_or_null_def)
    then show ?thesis
      by blast
  next
    case False
    have "b = os_head s \<or> b \<in> set ds"
      using False deferred free b(2) by (auto simp: pushed_def)
    then have "obj_inv ds u"
      using I(1-13,15) free b(2) notfull False links unfolding obj_inv_def by (auto simp: u_def t_def)
    then show ?thesis
      by blast
  qed
  moreover have "blocks_made s \<longrightarrow> blocks_made u"
    by (auto simp: blocks_made_def u_def t_def Let_def)
  ultimately show ?thesis
    using r masks(2) by blast
qed

section \<open>Runs of one thread\<close>

text \<open>What a single thread can do: allocate, where \<open>malloc\<close> finds memory if it is asked, and release an entry that it holds.\<close>

inductive storage_run :: "nat list \<Rightarrow> ObjStorage \<Rightarrow> bool" where
  start: "storage_run [] ObjStorage_new"
| alloc: "storage_run held s \<Longrightarrow> fresh_memory mem s \<Longrightarrow> obj_allocate mem s = Some (Inr (p, s')) \<Longrightarrow> storage_run (p # held) s'"
| release: "storage_run held s \<Longrightarrow> p \<in> set held \<Longrightarrow> obj_release p s = Inr s' \<Longrightarrow> storage_run (remove1 p held) s'"

lemma fresh_same: "same_masks s s' \<Longrightarrow> fresh_memory mem s' \<longleftrightarrow> fresh_memory mem s"
  by (simp add: fresh_memory_def same_masks_def)

lemma made_same: "same_masks s s' \<Longrightarrow> blocks_made s' \<longleftrightarrow> blocks_made s"
  by (simp add: blocks_made_def same_masks_def)

lemma obj_allocate_ok:
  assumes "obj_inv ds s" "fresh_memory mem s" "blocks_made s"
  shows "\<exists>p s' ds'. obj_allocate mem s = Some (Inr (p, s')) \<and> obj_inv ds' s' \<and> blocks_made s' \<and> p \<notin> obj_entries s \<and>
    obj_entries s' = insert p (obj_entries s) \<and> os_allocation_count s' = os_allocation_count s + 1"
proof -
  obtain found u ds' where u: "find_block s = Some (Inr (found, u))" "obj_inv ds' u" "same_masks s u" "found \<longleftrightarrow> os_head u \<noteq> 0"
    using find_block_ok [OF assms(1)] by blast
  have e: "obj_entries u = obj_entries s" "os_allocation_count u = os_allocation_count s"
    using u(3) same_masks_entries by (auto simp: same_masks_def)
  have um: "fresh_memory mem u" "blocks_made u" using assms(2,3) fresh_same [OF u(3)] made_same [OF u(3)] by blast+
  have "\<exists>v. block_for_allocation mem s = Some (Inr (os_head v, v)) \<and> obj_inv ds' v \<and> blocks_made v \<and> os_head v \<noteq> 0 \<and>
      obj_entries v = obj_entries s \<and> os_allocation_count v = os_allocation_count s"
  proof (cases found)
    case True
    then show ?thesis
      using u e um by (simp add: block_for_allocation_def)
  next
    case False
    have "unat (new_block (of_nat mem)) \<noteq> 0"
      using fresh_memory_block [OF um] block_not_null by (simp add: fresh_block_def)
    moreover have "os_head u = 0"
      using u(4) False by simp
    ultimately obtain w where w: "try_add_block mem u = Inr w" "obj_inv ds' w" "blocks_made w" "os_head w \<noteq> 0" "obj_entries w = obj_entries s"
        "os_allocation_count w = os_allocation_count s"
      using add_block_ok [OF u(2) _ um] e by metis
    then show ?thesis
      using u(1) False by (intro exI [of _ w]) (simp add: block_for_allocation_def)
  qed
  then obtain v where v: "block_for_allocation mem s = Some (Inr (os_head v, v))" "obj_inv ds' v" "blocks_made v" "os_head v \<noteq> 0"
      "obj_entries v = obj_entries s" "os_allocation_count v = os_allocation_count s"
    by blast
  obtain p s' where "allocate_in (os_head v) v = Inr (p, s')" "obj_inv ds' s'" "blocks_made s'" "p \<notin> obj_entries v"
    "obj_entries s' = insert p (obj_entries v)" "os_allocation_count s' = os_allocation_count v + 1"
    using allocate_in_ok [OF v(2,4)] v(3) by blast
  then show ?thesis
    using v by (auto simp: obj_allocate_def)
qed

lemma storage_run_inv:
  "storage_run held s \<Longrightarrow> (\<exists>ds. obj_inv ds s) \<and> blocks_made s \<and> distinct held \<and> set held = obj_entries s \<and> os_allocation_count s = length held"
proof (induction rule: storage_run.induct)
  case start
  then show ?case
    using obj_inv_new by (auto simp: ObjStorage_new_def obj_entries_def blocks_made_def)
next
  case (alloc held s mem p s')
  then obtain ds where "obj_inv ds s"
    by blast
  then show ?case
    using obj_allocate_ok [of ds s mem] alloc by auto
next
  case (release held s p s')
  then obtain ds where "obj_inv ds s"
    by blast
  moreover have "0 < os_allocation_count s"
    using release.IH release.hyps(2) by (cases held) auto
  ultimately show ?case
    using release_ok [of ds s p] release by (auto simp: length_remove1)
qed

text \<open>C20. The storage is exact for one thread that allocates and releases, as long as \<open>malloc\<close> finds memory and nothing else writes the bytes that
  the blocks cover (each block begins between 65 and 128 bytes before its own memory) or puts the address of the storage there: the entries in
  use are those it handed out and did not take back, the counter counts them, every allocation ends and returns an entry that is not in
  use, every entry in use can be released, and blocks do not overlap each other.\<close>

theorem obj_storage_exact:
  assumes "storage_run held s" "fresh_memory mem s"
  shows "distinct held \<and> set held = obj_entries s \<and> os_allocation_count s = length held \<and>
    (\<exists>p s'. obj_allocate mem s = Some (Inr (p, s')) \<and> p \<notin> set held \<and> obj_entries s' = insert p (set held)) \<and>
    (\<forall>p \<in> set held. \<exists>s'. obj_release p s = Inr s' \<and> obj_entries s' = set held - {p}) \<and>
    (\<forall>b \<in> set (active_blocks s). b + 65 \<le> bl_memory (os_blocks s b) \<and> bl_memory (os_blocks s b) \<le> b + 128) \<and>
    (\<forall>b \<in> set (active_blocks s). \<forall>c \<in> set (active_blocks s). b \<noteq> c \<longrightarrow> b + size_of_Block \<le> c \<or> c + size_of_Block \<le> b)"
proof -
  obtain ds where inv: "obj_inv ds s"
    using storage_run_inv [OF assms(1)] by blast
  note r = storage_run_inv [OF assms(1)]
  have "\<exists>s'. obj_release p s = Inr s' \<and> obj_entries s' = set held - {p}" if "p \<in> set held" for p
  proof -
    have "0 < os_allocation_count s"
      using r that by (cases held) auto
    then show ?thesis
      using release_ok [OF inv, of p] r that by auto
  qed
  moreover have "b + 65 \<le> bl_memory (os_blocks s b) \<and> bl_memory (os_blocks s b) \<le> b + 128" if "b \<in> set (active_blocks s)" for b
  proof -
    define om where "om = bl_memory (os_blocks s b)"
    have "640 \<le> om" "b = (om - 65) div 64 * 64" using r that new_block_nat [of om] by (auto simp: blocks_made_def Let_def om_def)
    moreover have "(om - 65) div 64 * 64 \<le> om - 65" "om - 65 < (om - 65) div 64 * 64 + 64" by simp_all
    ultimately have "b + 65 \<le> om \<and> om \<le> b + 128" by linarith
    then show ?thesis by (simp add: om_def)
  qed
  moreover have "\<forall>b \<in> set (active_blocks s). \<forall>c \<in> set (active_blocks s). b \<noteq> c \<longrightarrow> b + size_of_Block \<le> c \<or> c + size_of_Block \<le> b"
    using inv by (simp add: obj_inv_def apart_def)
  ultimately show ?thesis
    using r obj_allocate_ok [OF inv assms(2)] by auto
qed

lemma first_allocation: "\<exists>s. storage_run [1024] s \<and> fresh_memory 2048 s"
proof -
  have new: "fresh_memory 1104 ObjStorage_new"
    by (simp add: fresh_memory_def allocation_size_def place_consts ObjStorage_new_def)
  have block: "unat (new_block 1104) = 1024" using new_block_nat [of 1104] by simp
  have "find_block ObjStorage_new = Some (Inr (False, ObjStorage_new))"
    by (subst find_block.simps) (simp add: ObjStorage_new_def reduce_deferred_updates_def)
  moreover have "trailing_zeros64 (- 1) = 0"
    using trailing_zeros64_bit(2) [of "- 1" 0] by (cases "trailing_zeros64 (- 1)") auto
  ultimately have "obj_allocate 1104 ObjStorage_new = Some (Inr (1024,
      ObjStorage_new\<lparr>os_blocks := (\<lambda>_. Block_new 0)(1024 := (Block_new 1104)\<lparr>bl_allocated := 1\<rparr>), os_active := \<lparr>aa_size = 8, aa_blocks = [1024]\<rparr>, os_head := 1024, os_tail := 1024,
        os_allocation_count := 1\<rparr>))"
    by (simp add: obj_allocate_def block_for_allocation_def try_add_block_def block active_push_def list_push_back_def allocate_in_def block_allocate_def
        bitmask_for_index_def place_consts is_full_bitmask_def ObjStorage_new_def Block_new_def block_put_def Let_def)
  from storage_run.alloc [OF storage_run.start new this] show ?thesis
    by (intro exI conjI) (auto simp: fresh_memory_def allocation_size_def place_consts Block_new_def)
qed

theorem obj_storage_exact_witness:
  "\<exists>s. storage_run [1024] s \<and> obj_entries s = {1024} \<and> os_allocation_count s = 1 \<and>
    (\<exists>p s'. obj_allocate 2048 s = Some (Inr (p, s')) \<and> p \<noteq> 1024 \<and> obj_entries s' = {p, 1024})"
proof -
  obtain s where s: "storage_run [1024] s" "fresh_memory 2048 s"
    using first_allocation by blast
  then show ?thesis
    using obj_storage_exact [OF s] by auto
qed

text \<open>C21. A new block never lies in the memory it was allocated: \<open>align_up\<close> goes down, by more than the alignment.\<close>

theorem new_block_outside:
  assumes "65 \<le> mem"
  shows "unat (new_block mem) + 65 \<le> unat mem \<and> unat mem < unat (new_block mem) + 129"
proof -
  have "unat (65 :: u64) \<le> unat mem"
    using assms unfolding word_le_nat_alt .
  then have m: "65 \<le> unat mem" by simp
  then show ?thesis
    unfolding new_block_value [OF m] by linarith
qed

theorem new_block_outside_witness: "unat (new_block 1024) + 65 \<le> 1024"
  using new_block_outside [of 1024] by simp

text \<open>A block that is taken from a list of two keeps its link, and is still taken for a member: with two threads in \<open>try_add_block\<close> at the same time
  the list gets two blocks, and the entries of such a block are lost once it was full.\<close>

theorem unlink_keeps_link:
  assumes "os_head s = a" "bl_prev (os_blocks s a) = 0" "bl_next (os_blocks s a) = b" "b \<noteq> 0"
  shows "\<exists>s'. list_unlink a s = Inr s' \<and> os_head s' = b \<and> list_contains a s'"
  using assms by (auto simp: list_unlink_def list_contains_def Let_def)

text \<open>Iteration visits the entries in use, in their order.\<close>

lemma block_iterate_all: "block_iterate (\<lambda>_. True) m = (filter (bit m) [0..<64], True)"
proof (induction "\<lambda>_ :: nat. True" m rule: block_iterate.induct)
  case (1 m)
  show ?case
  proof (cases "m = 0")
    case True
    then show ?thesis
      by (subst block_iterate.simps) simp
  next
    case False
    let ?i = "trailing_zeros64 m"
    note t = trailing_zeros64_bit [OF False]
    have "bit (m AND NOT (push_bit ?i 1)) = (\<lambda>k. bit m k \<and> k \<noteq> ?i)"
      using bits_clear [of m ?i] by (auto simp: fun_eq_iff set_eq_iff)
    then have "block_iterate (\<lambda>_. True) (m AND NOT (push_bit ?i 1)) = (filter (\<lambda>k. bit m k \<and> k \<noteq> ?i) [0..<64], True)"
      using 1 [OF False refl] by simp
    then show ?thesis
      using filter_least [of ?i 64 "bit m"] t False by (subst block_iterate.simps) (simp add: Let_def)
  qed
qed

end
