(* ===== verification/Spec2Isabelle.thy ===== *)
theory Spec2Isabelle
  imports WeakRefs Barrier Safepoint Controller HashMapModel ArrayListModel TaskQueueModel MutexModel WorkerModel Terminator SingleWriter ObjStorageModel
begin

text \<open>
  RSGC is a concurrent, region-based mark-and-sweep collector for Rust programs. This development models its core and
  proves what the parts promise each other. Paths below are relative to \<^verbatim>\<open>src/src\<close>.

  \<^bold>\<open>The program.\<close> The heap is one range of memory cut into regions of a power-of-two size. A region is empty, regular
  (with a free list of its own), part of a humongous object, or trash. Mutator threads allocate from a thread-local buffer;
  the buffer and large objects come from the heap through the free set, which knows the regions with free memory. When
  memory runs short, or on request, the controller runs a cycle: the mutators are stopped at a safepoint, roots are
  visited, workers mark the reachable objects in parallel (in a pause, or concurrently with the mutators behind a write
  barrier), regions are swept, and the free set is built again.

  \<^bold>\<open>Conventions.\<close> A \<^verbatim>\<open>usize\<close> is a natural number; an operation that can wrap or overflow says so. Packed values
  (headers, tasks, bitmap cells) are words of their width. Memory is a function from addresses to 64-bit words, and the free
  lists live in it, as in the code. A panic is a value: operations return \<^verbatim>\<open>panic + result\<close>, where overflow checks and
  debug assertions count as panics (a debug build). \<^verbatim>\<open>OutOfMemory\<close> is the panic for want of memory; \<^verbatim>\<open>NullDeref\<close> and
  \<^verbatim>\<open>UndefinedBehaviour\<close> stand for what is not a panic in the code but a crash or worse. Loops that need not end are partial functions; that they return is then
  part of the theorem. The clock and what other threads do while a thread waits are arguments. Interleavings of threads are
  step relations whose steps are the atomic accesses or the critical sections of the code. The queues of the crossbeam crate
  are lists, from which a thief may take any elements. Tracing of an object is user code: a function from objects to
  the pointers it visits.

  \<^bold>\<open>Theories, in the order of use.\<close>

  \<^item> \<^verbatim>\<open>Prelude\<close>: machine types, panics, checked arithmetic, lemmas on words and lists.
  \<^item> \<^verbatim>\<open>BitField\<close> (\<^verbatim>\<open>utils/bitfield.rs\<close>): packed and atomic bit fields.
  \<^item> \<^verbatim>\<open>HeapUtil\<close> (\<^verbatim>\<open>heap/mod.rs\<close>): alignment, powers of two, allocation requests, the bitmap of the free set. The locale
    \<^verbatim>\<open>bit_store\<close> is what a client of a bitmap relies on; it is interpreted by this bitmap and by the object bitmap.
  \<^item> \<^verbatim>\<open>ObjectHeader\<close> (\<^verbatim>\<open>system/object.rs\<close>): size tag, header word, vtables, the size of an object in memory.
  \<^item> \<^verbatim>\<open>MarkTask\<close> (\<^verbatim>\<open>heap/mark.rs\<close>): the packed mark task, and the splitting of large arrays into chunks. Under every
    schedule each element is visited once, up to \<open>2 ^ 30\<close> elements; beyond, the first half is skipped.
  \<^item> \<^verbatim>\<open>FreeListModel\<close> (\<^verbatim>\<open>heap/free_list.rs\<close>): the segregated free list, a refinement of a multiset of blocks (locale
    \<^verbatim>\<open>block_store\<close>).
  \<^item> \<^verbatim>\<open>HeapBitmapModel\<close> (\<^verbatim>\<open>heap/bitmap.rs\<close>, \<^verbatim>\<open>utils/sloppy_memset.rs\<close>): the bitmap of marks and of object starts; searching,
    ranges, and that of any number of threads setting one bit exactly one wins.
  \<^item> \<^verbatim>\<open>RegionModel\<close> (\<^verbatim>\<open>heap/region.rs\<close>): sizing of the heap, with the exact panics and one wrong mask, region states and allocation
    within a region.
  \<^item> \<^verbatim>\<open>FreeSet\<close> (\<^verbatim>\<open>heap/free_set.rs\<close>): allocation across regions, humongous runs, rebuilding. \<^verbatim>\<open>heap_inv\<close> and \<^verbatim>\<open>fs_inv\<close>,
    the invariants of the heap and of the free set, are defined here.
  \<^item> \<^verbatim>\<open>Sweep\<close> (\<^verbatim>\<open>heap/sweeper.rs\<close>): sweeping one region.
  \<^item> \<^verbatim>\<open>HeapModel\<close> (\<^verbatim>\<open>heap/heap.rs\<close>): construction, allocation with retries, interior pointers, uncommitting memory.
  \<^item> \<^verbatim>\<open>HeapSweep\<close> (\<^verbatim>\<open>heap/heap.rs\<close>, \<^verbatim>\<open>heap/full_gc.rs\<close>, \<^verbatim>\<open>heap/degenerated_gc.rs\<close>): regions handed out to workers, humongous
    objects, the whole sweep phase: it ends and is exact, but for a distribution with a stride of 0, which never ends, and for a
    dead humongous object in region 0, which panics.
  \<^item> \<^verbatim>\<open>Marking\<close> (\<^verbatim>\<open>heap/mark.rs\<close>, \<^verbatim>\<open>heap/marking_context.rs\<close>): visitors with local segments, work stealing and
    termination as a step relation; the tricolour invariant, and that a worker terminates only when no work is left.
  \<^item> \<^verbatim>\<open>Mutator\<close> (\<^verbatim>\<open>heap/tlab.rs\<close>, \<^verbatim>\<open>heap/thread.rs\<close>): allocation by a thread, retiring the buffers of all threads, and the
    header of a new object. Only a request that cannot be served panics, and only with out of memory.
  \<^item> \<^verbatim>\<open>Collection\<close> (\<^verbatim>\<open>heap/root_processor.rs\<close>, \<^verbatim>\<open>STWMark\<close>, \<^verbatim>\<open>heap/full_gc.rs\<close>): roots, precise and conservative, and the
    composition: a stop-the-world collection retires the buffers, marks, and keeps exactly the reachable objects, with the two exceptions
    of the sweep phase.
  \<^item> \<^verbatim>\<open>WeakRefs\<close> (\<^verbatim>\<open>system/weak_reference.rs\<close>, \<^verbatim>\<open>system/finalizer.rs\<close>): lock-free registration, and the processing of weak references
    and finalizers between mark and sweep; a reachable weak reference that was cleared in an earlier cycle makes it panic.
  \<^item> \<^verbatim>\<open>Barrier\<close> (\<^verbatim>\<open>heap/thread.rs\<close>, \<^verbatim>\<open>utils/deque/mod.rs\<close>, \<^verbatim>\<open>heap/concurrent_gc.rs\<close>): the write barrier and concurrent
    marking. The barrier records what it is given; nevertheless a reachable object can be lost.
  \<^item> \<^verbatim>\<open>Suspend\<close> (\<^verbatim>\<open>sync/suspendible_thread_set.rs\<close>, \<^verbatim>\<open>heap/shared_vars.rs\<close>, \<^verbatim>\<open>heap/heap.rs\<close>): stopping the workers, and
    cancelling a cycle: safety, progress, and what the weak exchange costs.
  \<^item> \<^verbatim>\<open>Safepoint\<close> (\<^verbatim>\<open>heap/safepoint.rs\<close>, \<^verbatim>\<open>heap/thread.rs\<close>, \<^verbatim>\<open>heap/signals/unix.rs\<close>): stopping the mutators.
  \<^item> \<^verbatim>\<open>Controller\<close> (\<^verbatim>\<open>heap/controller.rs\<close>, \<^verbatim>\<open>heap/heuristics\<close>, \<^verbatim>\<open>sync/monitor.rs\<close>): the kind of a cycle, and the threads that
    ask for one: no request is lost, but a thread may return while its cycle still runs.
  \<^item> \<^verbatim>\<open>HashMapModel\<close> (\<^verbatim>\<open>system/collections/hashmap.rs\<close>): the hash map for users, over an allocator that may
    refuse a request (locale \<^verbatim>\<open>bounded_map\<close>).
  \<^item> \<^verbatim>\<open>ArrayListModel\<close> (\<^verbatim>\<open>system/arraylist.rs\<close>): the growable list for users, which implements a list up to \<open>2 ^ 31\<close> elements (locale
    \<^verbatim>\<open>growable\<close>); splitting and larger reservations fail.
  \<^item> \<^verbatim>\<open>TaskQueueModel\<close> (\<^verbatim>\<open>utils/taskqueue.rs\<close>): the work-stealing queue. With an exchange that does not fail spuriously
    every element is claimed once, but it may be read too late; with the weak exchange of the code it can be claimed twice.
  \<^item> \<^verbatim>\<open>MutexModel\<close> (\<^verbatim>\<open>sync/mutex.rs\<close>): the mutex as it is built on the parking lot: exclusion, and no lost wakeup
    (a parked thread gets it from the threads already in a call).
  \<^item> \<^verbatim>\<open>WorkerModel\<close> (\<^verbatim>\<open>sync/worker_threads.rs\<close>): handing a task to the workers and waiting for its end; the ids of the workers.
  \<^item> \<^verbatim>\<open>Terminator\<close> (\<^verbatim>\<open>sync/task_terminator.rs\<close>): how workers agree that no task is left, and how one can leave too early.
  \<^item> \<^verbatim>\<open>SingleWriter\<close> (\<^verbatim>\<open>sync/single_writer.rs\<close>): a writer that waits for all open critical sections of any number of readers.
  \<^item> \<^verbatim>\<open>ObjStorageModel\<close> (\<^verbatim>\<open>heap/obj_storage.rs\<close>): the storage of off-heap references. For one thread the entries in use are exactly
    those handed out, provided that nothing else writes the bytes a block covers: a block is placed before the memory that was allocated
    for it. Also what removing a block from a list leaves.

  \<^bold>\<open>How the parts fit.\<close> \<^verbatim>\<open>Mutator\<close> calls \<^verbatim>\<open>HeapModel\<close>, which calls \<^verbatim>\<open>FreeSet\<close>, then \<^verbatim>\<open>RegionModel\<close>, then \<^verbatim>\<open>FreeListModel\<close>: each
  level keeps the invariant of the level below, and a block that is handed out lies in the heap and overlaps no free memory.
  \<^verbatim>\<open>Collection\<close> starts from the same invariant with the buffers in use, adds a well-formed object graph, and ends in the state the allocator needs:
  its postcondition contains the heap and free set invariants of its precondition.

  \<^bold>\<open>Bounds and fuel.\<close> Addresses are below \<open>2 ^ 49\<close> where a task packs them, arrays have at most \<open>2 ^ 30\<close> elements, the
  number of threads is below \<open>2 ^ 64\<close>, hash map counters below \<open>2 ^ 32\<close>: the limits of the fields in the code. The retry loop
  of allocation makes at most three rounds, as in the code. The only fuel is the number of calls made to an iterator in
  \<^verbatim>\<open>hm_take\<close>; every number from the size of the map on gives the same pairs.

  \<^bold>\<open>Not modelled.\<close> System calls, signals and memory protection beyond their effect on a poll; condition variables and
  semaphores (a wait releases the lock until a notification; a semaphore is a counter), locks outside \<^verbatim>\<open>MutexModel\<close> (critical
  sections are atomic steps), and weak memory orders (steps are sequentially consistent); the
  floating-point heuristics that decide when to collect, and the shutdown of the control thread; the card table and the bytemap,
  which no cycle uses; the other containers; logging and timing. The features
  \<^verbatim>\<open>gc-incremental-update\<close> and \<^verbatim>\<open>gc-passive\<close> are left out; the default \<^verbatim>\<open>gc-satb\<close> is modelled.
\<close>

end
